(* ===== verification/ZfPrelude.thy ===== *)
theory ZfPrelude
  imports Main "HOL-Library.Word" "HOL-Library.Multiset"
begin

text \<open>
  Shared vocabulary of the ZeroFlush development: the machine types of the C++ code, the
  status values its fallible functions return, the named collections of facts that carry
  the component proofs, and generic lemmas on lists, words and results.
\<close>

unbundle bit_operations_syntax

section \<open>Machine types\<close>

type_synonym byte = "8 word"
type_synonym u16 = "16 word"
type_synonym u32 = "32 word"
type_synonym u64 = "64 word"
type_synonym bytes = "byte list"

section \<open>Status values\<close>

text \<open>
  The code returns \<^verbatim>\<open>rocksdb::Status\<close>. A status that is not OK is a value of
  \<open>zf_error\<close>; the string is the message the source attaches. A function with an output
  parameter returns \<open>zf_error + 'a\<close>. \<open>OutOfBounds\<close> is no status of the source: it marks a run in
  which the code reads past the end of a buffer, which C++ leaves undefined, and
  \<open>CppException\<close> a run that ends in an uncaught exception or a null dereference.
\<close>

datatype zf_error =
    Corruption string
  | InvalidArgument string
  | NotFound string
  | IOError string
  | NotSupported string
  | MergeInProgress
  | OutOfBounds
  | CppException string

type_synonym 'a zf_result = "zf_error + 'a"

definition is_ok :: "'a zf_result \<Rightarrow> bool" where
  "is_ok r = (case r of Inl _ \<Rightarrow> False | Inr _ \<Rightarrow> True)"

lemma is_ok_simps [simp]: "is_ok (Inr x)" "\<not> is_ok (Inl e)"
  by (simp_all add: is_ok_def)

definition res_bind :: "'a zf_result \<Rightarrow> ('a \<Rightarrow> 'b zf_result) \<Rightarrow> 'b zf_result" where
  "res_bind r f = (case r of Inl e \<Rightarrow> Inl e | Inr x \<Rightarrow> f x)"

lemma res_bind_simps [simp]: "res_bind (Inr x) f = f x" "res_bind (Inl e) f = Inl e"
  by (simp_all add: res_bind_def)

lemma res_bind_Inr: "res_bind r f = Inr y \<longleftrightarrow> (\<exists>x. r = Inr x \<and> f x = Inr y)"
  by (cases r) auto

section \<open>Collections\<close>

named_theorems zf_code \<open>fixed byte layouts: lengths and round trips of the leaf encoders\<close>
named_theorems zf_len \<open>lengths of encodings\<close>
named_theorems zf_inv \<open>preservation of component invariants\<close>

section \<open>Lists\<close>

lemma take_append_exact [simp]: "length xs = n \<Longrightarrow> take n (xs @ ys) = xs"
  by simp

lemma drop_append_exact [simp]: "length xs = n \<Longrightarrow> drop n (xs @ ys) = ys"
  by simp

text \<open>A window of bytes: the \<open>n\<close> bytes at offset \<open>off\<close>, fewer at the end of the data.\<close>

definition slice :: "nat \<Rightarrow> nat \<Rightarrow> 'a list \<Rightarrow> 'a list" where
  "slice off n xs = take n (drop off xs)"

lemma length_slice [simp]: "length (slice off n xs) = min n (length xs - off)"
  by (simp add: slice_def)

lemma slice_append_mid: "length xs = off \<Longrightarrow> length ys = n \<Longrightarrow> slice off n (xs @ ys @ zs) = ys"
  by (simp add: slice_def)

lemma slice_prefix: "off + n \<le> length xs \<Longrightarrow> slice off n (xs @ ys) = slice off n xs"
  by (simp add: slice_def)

lemma slice_slice: "slice a n (slice b m xs) = slice (b + a) (min n (m - a)) xs"
  by (simp add: slice_def drop_take min.commute add.commute)

lemma slice_split: "slice off (m + n) xs = slice off m xs @ slice (off + m) n xs"
  by (simp add: slice_def take_add add.commute)

lemma slice_0: "slice 0 n xs = take n xs"
  by (simp add: slice_def)

lemma sorted_wrt_imp_distinct:
  assumes "sorted_wrt R xs" and "\<And>x. x \<in> set xs \<Longrightarrow> \<not> R x x"
  shows "distinct xs"
  using assms by (induction xs) auto

text \<open>
  Two lists with the same elements, both strictly ordered by an asymmetric relation, are
  equal: the fact behind every ``the two orders agree'' argument.
\<close>

lemma sorted_wrt_unique:
  assumes asym: "\<And>x y. R x y \<Longrightarrow> \<not> R y x"
    and "sorted_wrt R xs" "sorted_wrt R ys" "mset xs = mset ys"
  shows "xs = ys"
  using assms(2-)
proof (induction xs arbitrary: ys)
  case Nil
  then show ?case by simp
next
  case (Cons x xs)
  then obtain y ys' where ys: "ys = y # ys'"
    by (cases ys) auto
  have "x = y"
  proof (rule ccontr)
    assume ne: "x \<noteq> y"
    have "set (x # xs) = set ys" using Cons.prems(3) by (metis mset_eq_setD)
    then have "y \<in> set xs" "x \<in> set ys'" using ne ys by auto
    then have "R x y" "R y x" using Cons.prems(1,2) ys by auto
    then show False using asym by blast
  qed
  moreover have "xs = ys'"
    by (rule Cons.IH) (use Cons.prems ys \<open>x = y\<close> in auto)
  ultimately show ?case using ys by simp
qed

section \<open>Words\<close>

lemma ucast_8_32 [simp]: "ucast (ucast (b :: byte) :: u32) = b"
  by (rule bit_word_eqI) (simp add: bit_simps)

lemma ucast_u64_back [simp]: "ucast (ucast (a :: u32) :: u64) = a"
  by (rule bit_word_eqI) (auto simp: bit_simps dest: bit_imp_le_length)

lemma and_ff: "(l :: 'a::len word) AND 0xff = take_bit 8 l"
  by (simp add: take_bit_eq_mask mask_eq_exp_minus_1)

lemma unat_u32_less: "unat (w :: u32) < 2 ^ 32"
proof -
  have "unat w < 2 ^ LENGTH(32)" by (rule unsigned_less)
  then show ?thesis by simp
qed

lemma unat_u64_less: "unat (w :: u64) < 2 ^ 64"
proof -
  have "unat w < 2 ^ LENGTH(64)" by (rule unsigned_less)
  then show ?thesis by simp
qed

lemma unat_add_no_overflow:
  "unat (a :: 'a::len word) + unat b < 2 ^ LENGTH('a) \<Longrightarrow> unat (a + b) = unat a + unat b"
  by (simp add: unat_word_ariths)

lemma unat_of_nat_small: "n < 2 ^ LENGTH('a::len) \<Longrightarrow> unat (of_nat n :: 'a word) = n"
  by (simp add: unat_of_nat take_bit_nat_eq_self)

end
