(* ===== verification/ZfCoding.thy ===== *)
theory ZfCoding
  imports ZfPrelude
begin

text \<open>
  The byte encodings of \<^verbatim>\<open>util/coding_lean.h\<close>, \<^verbatim>\<open>util/coding.h\<close> and
  \<^verbatim>\<open>util/coding.cc\<close> that ZeroFlush uses: little-endian fixed-width integers, the
  32-bit varint and the length-prefixed slice. A buffer is a list of bytes; a pointer into
  it is the list that starts there. Reads past the end never happen in guarded code; the
  decoders below read the bytes there are.
\<close>

section \<open>Little-endian fixed-width integers\<close>

text \<open>\<open>le_bytes n w\<close> are the \<open>n\<close> low bytes of \<open>w\<close>, least significant first.\<close>

primrec le_bytes :: "nat \<Rightarrow> 'a::len word \<Rightarrow> bytes" where
  "le_bytes 0 w = []"
| "le_bytes (Suc n) w = ucast w # le_bytes n (drop_bit 8 w)"

primrec le_word :: "bytes \<Rightarrow> 'a::len word" where
  "le_word [] = 0"
| "le_word (b # bs) = ucast b OR push_bit 8 (le_word bs)"

definition PutFixed16 :: "u16 \<Rightarrow> bytes" where "PutFixed16 v = le_bytes 2 v"
definition PutFixed32 :: "u32 \<Rightarrow> bytes" where "PutFixed32 v = le_bytes 4 v"
definition PutFixed64 :: "u64 \<Rightarrow> bytes" where "PutFixed64 v = le_bytes 8 v"
definition DecodeFixed16 :: "bytes \<Rightarrow> u16" where "DecodeFixed16 p = le_word (take 2 p)"
definition DecodeFixed32 :: "bytes \<Rightarrow> u32" where "DecodeFixed32 p = le_word (take 4 p)"
definition DecodeFixed64 :: "bytes \<Rightarrow> u64" where "DecodeFixed64 p = le_word (take 8 p)"

lemma length_le_bytes [simp]: "length (le_bytes n w) = n"
  by (induction n arbitrary: w) auto

lemma le_word_le_bytes: "le_word (le_bytes n w) = take_bit (8 * n) (w :: 'a::len word)"
proof (induction n arbitrary: w)
  case 0
  then show ?case by simp
next
  case (Suc n)
  show ?case
    by (rule bit_word_eqI) (auto simp: Suc bit_simps)
qed

lemma bit_le_word:
  "bit (le_word bs :: 'a::len word) i \<longleftrightarrow> i < LENGTH('a) \<and> i < 8 * length bs \<and> bit (bs ! (i div 8)) (i mod 8)"
proof (induction bs arbitrary: i)
  case Nil
  then show ?case by simp
next
  case (Cons b bs)
  show ?case
  proof (cases "i < 8")
    case True
    then show ?thesis by (auto simp: bit_simps)
  next
    case False
    then obtain j where "i = j + 8" by (metis add.commute le_Suc_ex not_less)
    moreover have "(j + 8) div 8 = Suc (j div 8)" "(j + 8) mod 8 = j mod 8" "\<not> bit b (j + 8)"
      by (auto dest: bit_imp_le_length)
    ultimately show ?thesis using Cons.IH [of j]
      by (auto simp: bit_simps)
  qed
qed

lemma le_bytes_nth: "i < n \<Longrightarrow> le_bytes n w ! i = ucast (drop_bit (8 * i) w)"
proof (induction n arbitrary: w i)
  case 0
  then show ?case by simp
next
  case (Suc n)
  then show ?case by (cases i) (auto simp: drop_bit_drop_bit add.commute)
qed

lemma le_bytes_le_word:
  assumes "length bs = n" and "8 * n \<le> LENGTH('a::len)"
  shows "le_bytes n (le_word bs :: 'a word) = bs"
proof (rule nth_equalityI)
  show "length (le_bytes n (le_word bs :: 'a word)) = length bs" using assms by simp
next
  fix i assume "i < length (le_bytes n (le_word bs :: 'a word))"
  then have i: "i < n" by simp
  show "le_bytes n (le_word bs :: 'a word) ! i = bs ! i"
  proof (rule bit_word_eqI)
    fix k assume "k < LENGTH(8)"
    then have k: "k < 8" by simp
    then have "8 * i + k < 8 * n" using i by simp
    with assms have "8 * i + k < LENGTH('a)" by linarith
    with assms k i show "bit (le_bytes n (le_word bs :: 'a word) ! i) k = bit (bs ! i) k"
      by (simp add: le_bytes_nth bit_simps bit_le_word div_add1_eq mod_add_eq add.commute)
  qed
qed

lemma length_PutFixed [simp, zf_len]:
  "length (PutFixed16 a) = 2" "length (PutFixed32 b) = 4" "length (PutFixed64 c) = 8"
  by (simp_all add: PutFixed16_def PutFixed32_def PutFixed64_def)

lemma Decode_Put [simp, zf_code]:
  "DecodeFixed16 (PutFixed16 a @ r) = a"
  "DecodeFixed32 (PutFixed32 b @ r) = b"
  "DecodeFixed64 (PutFixed64 c @ r) = c"
  "DecodeFixed16 (PutFixed16 a) = a"
  "DecodeFixed32 (PutFixed32 b) = b"
  "DecodeFixed64 (PutFixed64 c) = c"
  by (simp_all add: DecodeFixed16_def PutFixed16_def DecodeFixed32_def PutFixed32_def
      DecodeFixed64_def PutFixed64_def le_word_le_bytes take_bit_word_eq_self)

lemma Put_Decode32: "4 \<le> length p \<Longrightarrow> PutFixed32 (DecodeFixed32 p) = take 4 p"
  by (simp add: DecodeFixed32_def PutFixed32_def le_bytes_le_word)

lemma Put_Decode64: "8 \<le> length p \<Longrightarrow> PutFixed64 (DecodeFixed64 p) = take 8 p"
  by (simp add: DecodeFixed64_def PutFixed64_def le_bytes_le_word)

lemma Put_Decode16: "2 \<le> length p \<Longrightarrow> PutFixed16 (DecodeFixed16 p) = take 2 p"
  by (simp add: DecodeFixed16_def PutFixed16_def le_bytes_le_word)

lemma PutFixed32_inj [simp]: "PutFixed32 a = PutFixed32 b \<longleftrightarrow> a = b"
  by (metis Decode_Put(5))

lemma DecodeFixed_prefix:
  "4 \<le> length p \<Longrightarrow> DecodeFixed32 (p @ r) = DecodeFixed32 p"
  "8 \<le> length p \<Longrightarrow> DecodeFixed64 (p @ r) = DecodeFixed64 p"
  by (simp_all add: DecodeFixed32_def DecodeFixed64_def)

section \<open>Varint32\<close>

text \<open>\<^verbatim>\<open>EncodeVarint32\<close>, branch by branch; the bytes written are returned.\<close>

definition EncodeVarint32 :: "u32 \<Rightarrow> bytes" where
  "EncodeVarint32 v =
    (if v < 2 ^ 7 then [ucast v]
     else if v < 2 ^ 14 then [ucast (v OR 128), ucast (drop_bit 7 v)]
     else if v < 2 ^ 21 then [ucast (v OR 128), ucast (drop_bit 7 v OR 128), ucast (drop_bit 14 v)]
     else if v < 2 ^ 28 then
       [ucast (v OR 128), ucast (drop_bit 7 v OR 128), ucast (drop_bit 14 v OR 128),
        ucast (drop_bit 21 v)]
     else
       [ucast (v OR 128), ucast (drop_bit 7 v OR 128), ucast (drop_bit 14 v OR 128),
        ucast (drop_bit 21 v OR 128), ucast (drop_bit 28 v)])"

text \<open>
  \<^verbatim>\<open>GetVarint32PtrFallback\<close>: the loop reads at most the bytes up to the limit (the end of
  the list) while \<open>shift \<le> 28\<close>; the result is the value and the bytes after it.
\<close>

fun GetVarint32PtrFallback :: "nat \<Rightarrow> u32 \<Rightarrow> bytes \<Rightarrow> (u32 \<times> bytes) option" where
  "GetVarint32PtrFallback shift result [] = None"
| "GetVarint32PtrFallback shift result (b # p) =
    (if shift > 28 then None
     else if (ucast b :: u32) AND 128 \<noteq> 0
     then GetVarint32PtrFallback (shift + 7) (result OR push_bit shift (ucast b AND 127)) p
     else Some (result OR push_bit shift (ucast b), p))"

definition GetVarint32Ptr :: "bytes \<Rightarrow> (u32 \<times> bytes) option" where
  "GetVarint32Ptr p =
    (case p of b # q \<Rightarrow> if (ucast b :: u32) AND 128 = 0 then Some (ucast b, q)
                       else GetVarint32PtrFallback 0 0 p
     | [] \<Rightarrow> GetVarint32PtrFallback 0 0 p)"

function VarintLength :: "u64 \<Rightarrow> nat" where
  "VarintLength v = (if 128 \<le> v then Suc (VarintLength (drop_bit 7 v)) else 1)"
  by pat_completeness auto
termination
proof (relation "measure unat")
  show "wf (measure (unat :: u64 \<Rightarrow> nat))" by simp
next
  fix v :: u64 assume "128 \<le> v"
  then have "128 \<le> unat v" by (simp add: word_le_nat_alt)
  moreover have "unat (drop_bit 7 v) = unat v div 128"
    by (simp only: unat_drop_bit_eq drop_bit_nat_def) simp
  ultimately show "(drop_bit 7 v, v) \<in> measure unat" by simp
qed

declare VarintLength.simps [simp del]

text \<open>\<^verbatim>\<open>GetLengthPrefixedSlice\<close>: the prefix is read within five bytes.\<close>

definition GetLengthPrefixedSlice :: "bytes \<Rightarrow> (bytes \<times> bytes) option" where
  "GetLengthPrefixedSlice data =
    (case GetVarint32Ptr (take 5 data) of
       None \<Rightarrow> None
     | Some (len, rest) \<Rightarrow>
         let p = drop (length (take 5 data) - length rest) data
         in Some (take (unat len) p, drop (unat len) p))"

definition PutLengthPrefixedSlice :: "bytes \<Rightarrow> bytes" where
  "PutLengthPrefixedSlice s = EncodeVarint32 (of_nat (length s)) @ s"

subsection \<open>Round trips\<close>

lemma and_128_iff: "(x :: u32) AND 128 = 0 \<longleftrightarrow> \<not> bit x 7"
proof -
  have "(128 :: u32) = push_bit 7 1" by simp
  then show ?thesis by (simp only: and_exp_eq_0_iff_not_bit push_bit_of_1)
qed

lemma bit_127_128: "bit (127 :: int) i \<longleftrightarrow> i < 7" "bit (128 :: int) i \<longleftrightarrow> i = 7"
proof -
  have "(127 :: int) = mask 7" by (simp add: mask_eq_exp_minus_1)
  then show "bit (127 :: int) i \<longleftrightarrow> i < 7" by (simp only: bit_mask_iff) auto
  have "(128 :: int) = 2 ^ 7" by simp
  then show "bit (128 :: int) i \<longleftrightarrow> i = 7" by (simp only: bit_exp_iff) auto
qed

lemma less_exp_take_bit: "(v :: u32) < 2 ^ k \<Longrightarrow> k < 32 \<Longrightarrow> take_bit k v = v"
  by (simp add: take_bit_eq_mask less_mask_eq)

lemmas varint_bits = bit_simps bit_127_128

text \<open>One continuation byte, and the last byte.\<close>

lemma varint_more:
  "sh \<le> 28 \<Longrightarrow> GetVarint32PtrFallback sh res (ucast (w OR 128) # p) =
     GetVarint32PtrFallback (sh + 7) (res OR push_bit sh (take_bit 7 w)) p"
proof -
  have b: "(ucast (ucast (w OR 128) :: byte) :: u32) AND 128 \<noteq> 0"
    by (simp add: and_128_iff varint_bits)
  have "(ucast (ucast (w OR 128) :: byte) :: u32) AND 127 = take_bit 7 w"
    by (rule bit_word_eqI) (auto simp: varint_bits)
  with b show "sh \<le> 28 \<Longrightarrow> ?thesis" by simp
qed

lemma varint_last:
  assumes "take_bit 7 w = (w :: u32)" and "sh \<le> 28"
  shows "GetVarint32PtrFallback sh res (ucast w # p) = Some (res OR push_bit sh w, p)"
proof -
  have *: "bit w i \<Longrightarrow> i < 7" for i using assms(1) by (metis bit_take_bit_iff)
  have "(ucast (ucast w :: byte) :: u32) AND 128 = 0" using * [of 7]
    by (auto simp: and_128_iff varint_bits)
  moreover have "(ucast (ucast w :: byte) :: u32) = w"
    by (rule bit_word_eqI) (use * in \<open>fastforce simp: varint_bits\<close>)
  ultimately show ?thesis using assms(2) by simp
qed

lemma take_bit_join:
  "take_bit n v OR push_bit n (take_bit m (drop_bit n v)) = take_bit (n + m) (v :: u32)"
  by (rule bit_word_eqI) (auto simp: bit_simps)

lemma take_bit_drop_join: "take_bit n v OR push_bit n (drop_bit n v) = (v :: u32)"
  by (rule bit_word_eqI, auto simp: bit_simps) (metis le_add_diff_inverse not_less)

lemma Fallback_of_Ptr: "GetVarint32Ptr p = GetVarint32PtrFallback 0 0 p"
  by (cases p) (auto simp: GetVarint32Ptr_def)

lemma take7_drop: "take_bit (7 + k) v = v \<Longrightarrow> take_bit 7 (drop_bit k v) = drop_bit k (v :: u32)"
  by (metis add_diff_cancel_right' drop_bit_take_bit)

declare GetVarint32PtrFallback.simps [simp del]

lemma GetVarint32_EncodeVarint32 [zf_code]:
  "GetVarint32Ptr (EncodeVarint32 v @ r) = Some (v, r)"
proof -
  have all: "take_bit (7 + 28) v = v" by (simp add: take_bit_word_eq_self)
  note facts = Fallback_of_Ptr EncodeVarint32_def varint_more varint_last take7_drop
    less_exp_take_bit take_bit_join take_bit_drop_join
  consider "v < 2 ^ 7" | "\<not> v < 2 ^ 7" "v < 2 ^ 14" | "\<not> v < 2 ^ 14" "v < 2 ^ 21"
    | "\<not> v < 2 ^ 21" "v < 2 ^ 28" | "\<not> v < 2 ^ 28"
    by blast
  then show ?thesis
  proof cases
    case 1
    then show ?thesis using varint_last [of v 0 0 r] less_exp_take_bit [OF 1]
      by (simp add: Fallback_of_Ptr EncodeVarint32_def)
  next
    case 2
    then show ?thesis using less_exp_take_bit [OF 2(2)] by (simp add: facts)
  next
    case 3
    then have "\<not> v < 2 ^ 7" by (auto simp: word_less_nat_alt)
    with 3 show ?thesis using less_exp_take_bit [OF 3(2)] by (simp add: facts)
  next
    case 4
    then have "\<not> v < 2 ^ 7" "\<not> v < 2 ^ 14" by (auto simp: word_less_nat_alt)
    with 4 show ?thesis using less_exp_take_bit [OF 4(2)] by (simp add: facts)
  next
    case 5
    then have "\<not> v < 2 ^ 7" "\<not> v < 2 ^ 14" "\<not> v < 2 ^ 21" by (auto simp: word_less_nat_alt)
    with 5 show ?thesis using all by (simp add: facts)
  qed
qed

lemma length_EncodeVarint32: "length (EncodeVarint32 v) \<le> 5" "EncodeVarint32 v \<noteq> []"
  by (auto simp: EncodeVarint32_def)

lemma GetLengthPrefixedSlice_Put [zf_code]:
  assumes "length s < 2 ^ 32"
  shows "GetLengthPrefixedSlice (PutLengthPrefixedSlice s @ r) = Some (s, r)"
proof -
  let ?e = "EncodeVarint32 (of_nat (length s))"
  let ?t = "take (5 - length ?e) (s @ r)"
  have t5: "take 5 (?e @ s @ r) = ?e @ ?t"
    using length_EncodeVarint32(1) [of "of_nat (length s)"] by simp
  have "GetVarint32Ptr (?e @ ?t) = Some (of_nat (length s), ?t)"
    by (rule GetVarint32_EncodeVarint32)
  moreover have "unat (of_nat (length s) :: u32) = length s"
    using assms by (simp add: unat_of_nat_small)
  ultimately show ?thesis
    by (simp add: GetLengthPrefixedSlice_def PutLengthPrefixedSlice_def t5 Let_def del: take_append)
qed

end
