(* ===== verification/ZfWalFormat.thy ===== *)
theory ZfWalFormat
  imports ZfCrc32c
begin

text \<open>
  \<^verbatim>\<open>zeroflush/wal_format.h\<close> and \<^verbatim>\<open>wal_format.cc\<close>: the frame of one record in a
  partition's WAL file, the locator that a slim memtable entry carries, and the ZFPROPS
  metadata file in its two versions. \<open>crc32c::Value\<close> of the engine is \<open>Value\<close> of
  \<open>ZfCrc32c\<close> (the two routines are proved equal in \<open>ZfCrcEngine\<close>).
\<close>

section \<open>The record frame\<close>

definition kZfMagic :: u32 where "kZfMagic = 0x31304655"
definition kZfHeaderSize :: u32 where "kZfHeaderSize = 24"
definition kZfCrcSize :: u32 where "kZfCrcSize = 4"
definition kRangeDelPartId :: u32 where "kRangeDelPartId = 0xFFFFFFFE"

record ZfRecordHeader =
  h_magic :: u32
  h_cf_id :: u16
  h_type :: byte
  h_flags :: byte
  h_key_len :: u32
  h_val_len :: u32
  h_seq :: u64

record SlimLocator =
  l_part_id :: u32
  l_gen :: u32
  l_wal_offset :: u64

definition ZfRecordLength :: "u32 \<Rightarrow> u32 \<Rightarrow> u32" where
  "ZfRecordLength key_len val_len = kZfHeaderSize + key_len + val_len + kZfCrcSize"

text \<open>The 24 header bytes of \<^verbatim>\<open>EncodeZfRecord\<close>, then the whole record.\<close>

definition zf_header_bytes :: "ZfRecordHeader \<Rightarrow> bytes" where
  "zf_header_bytes h =
     PutFixed32 (h_magic h) @ PutFixed16 (h_cf_id h) @ [h_type h] @ [h_flags h] @
     PutFixed32 (h_key_len h) @ PutFixed32 (h_val_len h) @ PutFixed64 (h_seq h)"

definition EncodeZfRecord :: "ZfRecordHeader \<Rightarrow> bytes \<Rightarrow> bytes \<Rightarrow> bytes" where
  "EncodeZfRecord h key val =
     (let out = zf_header_bytes h @ key @ val in out @ PutFixed32 (Value out))"

text \<open>The header fields at the front of \<open>p\<close>, in the order the decoder reads them.\<close>

definition zf_header_of :: "bytes \<Rightarrow> ZfRecordHeader" where
  "zf_header_of p =
     \<lparr> h_magic = DecodeFixed32 p, h_cf_id = DecodeFixed16 (drop 4 p), h_type = p ! 6, h_flags = p ! 7,
       h_key_len = DecodeFixed32 (drop 8 p), h_val_len = DecodeFixed32 (drop 12 p),
       h_seq = DecodeFixed64 (drop 16 p) \<rparr>"

text \<open>
  The decoder. \<open>body_len\<close> and the expected length are 32-bit sums in the source and wrap.
  The two slices are windows of the input; a window that runs past the input has fewer
  bytes here, and reads past the buffer in the source.
\<close>

definition DecodeZfRecord :: "bytes \<Rightarrow> (ZfRecordHeader \<times> bytes \<times> bytes) zf_result" where
  "DecodeZfRecord data =
     (if length data < unat (kZfHeaderSize + kZfCrcSize) then Inl (Corruption ''ZF record too short'')
      else
       let h = zf_header_of data;
           body_len = h_key_len h + h_val_len h
       in if h_magic h \<noteq> kZfMagic then Inl (Corruption ''ZF record bad magic'')
          else if length data \<noteq> unat (kZfHeaderSize + body_len + kZfCrcSize)
          then Inl (Corruption ''ZF record length mismatch'')
          else
            let off = unat (kZfHeaderSize + body_len);
                stored_crc = DecodeFixed32 (drop off data);
                calc_crc = Value (take off data)
            in if stored_crc \<noteq> calc_crc then Inl (Corruption ''ZF record crc mismatch'')
               else Inr (h, slice 24 (unat (h_key_len h)) data,
                         slice (24 + unat (h_key_len h)) (unat (h_val_len h)) data))"

section \<open>ZFPROPS, version 1\<close>

definition kZfPropsMagic :: u32 where "kZfPropsMagic = 0x3150465A"
definition kZfPropsSize :: nat where "kZfPropsSize = 16"

record ZfProps =
  p_magic :: u32
  p_version :: u32
  p_partitions :: u32
  p_crc :: u32

definition EncodeZfProps :: "u32 \<Rightarrow> bytes" where
  "EncodeZfProps partitions =
     (let out = PutFixed32 kZfPropsMagic @ PutFixed32 1 @ PutFixed32 partitions
      in out @ PutFixed32 (Value (take 12 out)))"

definition DecodeZfProps :: "bytes \<Rightarrow> ZfProps zf_result" where
  "DecodeZfProps data =
     (if length data \<noteq> kZfPropsSize then Inl (Corruption ''ZFPROPS: bad size'')
      else
       let out = \<lparr> p_magic = DecodeFixed32 data, p_version = DecodeFixed32 (drop 4 data),
                   p_partitions = DecodeFixed32 (drop 8 data), p_crc = DecodeFixed32 (drop 12 data) \<rparr>
       in if p_magic out \<noteq> kZfPropsMagic then Inl (Corruption ''ZFPROPS: bad magic'')
          else if p_version out \<noteq> 1 then Inl (Corruption ''ZFPROPS: unsupported version'')
          else if Value (take 12 data) \<noteq> p_crc out then Inl (Corruption ''ZFPROPS: crc mismatch'')
          else Inr out)"

section \<open>ZFPROPS, version 2\<close>

definition kZfPropsMagicV2 :: u32 where "kZfPropsMagicV2 = 0x3250465A"
definition kZfPropsV2FixedSize :: nat where "kZfPropsV2FixedSize = 32"

record ZfPropsTableInfo =
  ti_version :: u32
  ti_partitions :: u32
  ti_part_ids :: "u32 list"
  ti_boundaries :: "bytes list"

record ZfPropsV2 =
  v2_magic :: u32
  v2_format_version :: u32
  v2_routing_mode :: byte
  v2_comparator_name :: bytes
  v2_tables :: "ZfPropsTableInfo list"
  v2_current_version :: u32
  v2_crc :: u32

text \<open>A 32-bit length, then the bytes: the comparator name and each boundary.\<close>

definition put_sized :: "bytes \<Rightarrow> bytes" where
  "put_sized b = PutFixed32 (of_nat (length b)) @ b"

definition put_table_info :: "ZfPropsTableInfo \<Rightarrow> bytes" where
  "put_table_info t =
     PutFixed32 (ti_version t) @ PutFixed32 (ti_partitions t) @
     concat (map PutFixed32 (ti_part_ids t)) @
     PutFixed32 (of_nat (length (ti_boundaries t))) @ concat (map put_sized (ti_boundaries t))"

definition EncodeZfPropsV2 :: "byte \<Rightarrow> bytes \<Rightarrow> ZfPropsTableInfo list \<Rightarrow> u32 \<Rightarrow> bytes" where
  "EncodeZfPropsV2 routing_mode comparator_name tables current_version =
     (let buf = PutFixed32 kZfPropsMagicV2 @ PutFixed32 2 @ [routing_mode] @ replicate 3 0 @
                put_sized comparator_name @ PutFixed32 (of_nat (length tables)) @
                concat (map put_table_info tables) @ PutFixed32 current_version
      in buf @ PutFixed32 (Value buf))"

text \<open>
  The parsers of the decoder return the value and the pointer behind it. \<open>get_part_ids\<close>
  is the loop over \<^verbatim>\<open>t.part_ids\<close>: it has no check of its own (the check before it is
  the 32-bit product \<^verbatim>\<open>t.partitions * 4\<close>).
\<close>

definition get_fixed32 :: "string \<Rightarrow> bytes \<Rightarrow> (u32 \<times> bytes) zf_result" where
  "get_fixed32 msg p =
     (if length p < 4 then Inl (Corruption msg) else Inr (DecodeFixed32 p, drop 4 p))"

definition get_sized :: "string \<Rightarrow> string \<Rightarrow> bytes \<Rightarrow> (bytes \<times> bytes) zf_result" where
  "get_sized msg_len msg_data p =
     res_bind (get_fixed32 msg_len p) (\<lambda>(n, p).
       if length p < unat n then Inl (Corruption msg_data) else Inr (take (unat n) p, drop (unat n) p))"

primrec get_part_ids :: "nat \<Rightarrow> bytes \<Rightarrow> (u32 list \<times> bytes) zf_result" where
  "get_part_ids 0 p = Inr ([], p)"
| "get_part_ids (Suc n) p =
     (if length p < 4 then Inl OutOfBounds
      else res_bind (get_part_ids n (drop 4 p)) (\<lambda>(ids, q). Inr (DecodeFixed32 p # ids, q)))"

primrec get_boundaries :: "nat \<Rightarrow> bytes \<Rightarrow> (bytes list \<times> bytes) zf_result" where
  "get_boundaries 0 p = Inr ([], p)"
| "get_boundaries (Suc n) p =
     res_bind (get_sized ''ZFPROPS v2: boundary len truncated'' ''ZFPROPS v2: boundary data truncated'' p)
       (\<lambda>(b, p). res_bind (get_boundaries n p) (\<lambda>(bs, q). Inr (b # bs, q)))"

definition get_table_info :: "bytes \<Rightarrow> (ZfPropsTableInfo \<times> bytes) zf_result" where
  "get_table_info p =
     (if length p < 8 then Inl (Corruption ''ZFPROPS v2: table header truncated'')
      else
       let version = DecodeFixed32 p; partitions = DecodeFixed32 (drop 4 p); p = drop 8 p
       in if length p < unat (partitions * 4) then Inl (Corruption ''ZFPROPS v2: part_ids truncated'')
          else res_bind (get_part_ids (unat partitions) p) (\<lambda>(ids, p).
               res_bind (get_fixed32 ''ZFPROPS v2: boundary count truncated'' p) (\<lambda>(bc, p).
               res_bind (get_boundaries (unat bc) p) (\<lambda>(bs, p).
                 Inr (\<lparr> ti_version = version, ti_partitions = partitions, ti_part_ids = ids,
                        ti_boundaries = bs \<rparr>, p)))))"

primrec get_tables :: "nat \<Rightarrow> bytes \<Rightarrow> (ZfPropsTableInfo list \<times> bytes) zf_result" where
  "get_tables 0 p = Inr ([], p)"
| "get_tables (Suc n) p =
     res_bind (get_table_info p) (\<lambda>(t, p). res_bind (get_tables n p) (\<lambda>(ts, q). Inr (t # ts, q)))"

text \<open>The version-1 branch wraps the one hash table with ids \<open>0 \<dots> partitions - 1\<close>.\<close>

definition wrap_props_v1 :: "ZfProps \<Rightarrow> ZfPropsV2" where
  "wrap_props_v1 v1 =
     \<lparr> v2_magic = kZfPropsMagic, v2_format_version = 1, v2_routing_mode = 0, v2_comparator_name = [],
       v2_tables = [\<lparr> ti_version = 0, ti_partitions = p_partitions v1,
                      ti_part_ids = map of_nat [0..<unat (p_partitions v1)], ti_boundaries = [] \<rparr>],
       v2_current_version = 0, v2_crc = p_crc v1 \<rparr>"

definition DecodeZfPropsV2 :: "bytes \<Rightarrow> ZfPropsV2 zf_result" where
  "DecodeZfPropsV2 data =
     (if length data < 12 then Inl (Corruption ''ZFPROPS v2: header too short'')
      else if DecodeFixed32 (drop 4 data) \<noteq> 2
      then Inl (Corruption ''ZFPROPS v2: unsupported format_version'')
      else
       res_bind (get_sized ''ZFPROPS v2: cname_len truncated'' ''ZFPROPS v2: cname truncated'' (drop 12 data)) (\<lambda>(name, p).
       res_bind (get_fixed32 ''ZFPROPS v2: table_count truncated'' p) (\<lambda>(table_count, p).
       res_bind (get_tables (unat table_count) p) (\<lambda>(tables, p).
       res_bind (get_fixed32 ''ZFPROPS v2: current_version truncated'' p) (\<lambda>(current, p).
       res_bind (get_fixed32 ''ZFPROPS v2: crc truncated'' p) (\<lambda>(crc, _).
         if Value (take (length data - length p) data) \<noteq> crc
         then Inl (Corruption ''ZFPROPS v2: crc mismatch'')
         else Inr \<lparr> v2_magic = kZfPropsMagicV2, v2_format_version = 2, v2_routing_mode = data ! 8,
                    v2_comparator_name = name, v2_tables = tables, v2_current_version = current,
                    v2_crc = crc \<rparr>))))))"

definition DecodeZfPropsAuto :: "bytes \<Rightarrow> ZfPropsV2 zf_result" where
  "DecodeZfPropsAuto data =
     (if length data < 8 then Inl (Corruption ''ZFPROPS: too short'')
      else
       let magic = DecodeFixed32 data
       in if magic = kZfPropsMagic
          then if length data < kZfPropsSize then Inl (Corruption ''ZFPROPS: v1 too short'')
               else res_bind (DecodeZfProps data) (\<lambda>v1. Inr (wrap_props_v1 v1))
          else if magic \<noteq> kZfPropsMagicV2 then Inl (Corruption ''ZFPROPS: bad magic'')
          else DecodeZfPropsV2 data)"

section \<open>The record frame: layout, round trip, rejection\<close>

lemmas zf_sizes = kZfHeaderSize_def kZfCrcSize_def

lemma length_zf_header_bytes [simp, zf_len]: "length (zf_header_bytes h) = 24"
  by (simp add: zf_header_bytes_def)

lemma length_EncodeZfRecord [simp, zf_len]:
  "length (EncodeZfRecord h key val) = 28 + length key + length val"
  by (simp add: EncodeZfRecord_def Let_def)

lemma drop_Cons_num: "drop (numeral n) (x # xs) = drop (numeral n - 1) xs"
  by (simp add: drop_Cons')

lemma zf_header_of_bytes [simp]: "zf_header_of (zf_header_bytes h @ r) = h"
  by (simp add: zf_header_of_def zf_header_bytes_def nth_append drop_Cons')

text \<open>A frame whose header describes its body and which fits the 32-bit length.\<close>

definition zf_frame_ok :: "ZfRecordHeader \<Rightarrow> bytes \<Rightarrow> bytes \<Rightarrow> bool" where
  "zf_frame_ok h key val \<longleftrightarrow>
     h_magic h = kZfMagic \<and> unat (h_key_len h) = length key \<and> unat (h_val_len h) = length val \<and>
     28 + length key + length val < 2 ^ 32"

lemma zf_frame_body:
  assumes "zf_frame_ok h key val"
  shows "unat (h_key_len h + h_val_len h) = length key + length val"
    and "unat (kZfHeaderSize + (h_key_len h + h_val_len h)) = 24 + length key + length val"
    and "unat (kZfHeaderSize + (h_key_len h + h_val_len h) + kZfCrcSize) = 28 + length key + length val"
    and "unat (ZfRecordLength (h_key_len h) (h_val_len h)) = 28 + length key + length val"
proof -
  show body: "unat (h_key_len h + h_val_len h) = length key + length val"
    using assms by (simp add: zf_frame_ok_def unat_add_no_overflow)
  show hdr: "unat (kZfHeaderSize + (h_key_len h + h_val_len h)) = 24 + length key + length val"
    using assms body unat_add_no_overflow [of kZfHeaderSize "h_key_len h + h_val_len h"]
    by (simp add: zf_frame_ok_def zf_sizes)
  show all: "unat (kZfHeaderSize + (h_key_len h + h_val_len h) + kZfCrcSize) = 28 + length key + length val"
    using assms hdr unat_add_no_overflow [of "kZfHeaderSize + (h_key_len h + h_val_len h)" kZfCrcSize]
    by (simp add: zf_frame_ok_def zf_sizes)
  show "unat (ZfRecordLength (h_key_len h) (h_val_len h)) = 28 + length key + length val"
    using all by (simp add: ZfRecordLength_def add.assoc)
qed

lemma Decode_EncodeZfRecord [zf_code]:
  assumes "zf_frame_ok h key val"
  shows "DecodeZfRecord (EncodeZfRecord h key val) = Inr (h, key, val)"
proof -
  let ?out = "zf_header_bytes h @ key @ val"
  let ?data = "EncodeZfRecord h key val"
  have data: "?data = ?out @ PutFixed32 (Value ?out)" by (simp add: EncodeZfRecord_def Let_def)
  have hd: "zf_header_of ?data = h" by (simp add: data)
  have "slice 24 (length key) ?data = key" "slice (24 + length key) (length val) ?data = val"
    by (simp_all add: data slice_def)
  moreover have "drop (24 + length key + length val) ?data = PutFixed32 (Value ?out)"
    "take (24 + length key + length val) ?data = ?out"
    unfolding data by simp_all
  moreover have "unat (kZfHeaderSize + kZfCrcSize) = 28" by (simp add: zf_sizes)
  ultimately show ?thesis
    using assms unfolding DecodeZfRecord_def Let_def hd zf_frame_body [OF assms]
    by (simp add: zf_frame_ok_def)
qed

text \<open>What acceptance means: the stored checksum is that of all bytes before it, and the length
  is the one the header announces (modulo the 32-bit sum).\<close>

lemma u32_sum28:
  assumes "28 \<le> unat (28 + b :: u32)"
  shows "28 + unat b < 2 ^ 32"
proof (rule ccontr)
  assume ge: "\<not> ?thesis"
  have "unat (28 + b) = (28 + unat b) mod 2 ^ 32" by (simp add: unat_word_ariths)
  also have "\<dots> = (28 + unat b) - 2 ^ 32"
    using ge unat_u32_less [of b] le_mod_geq [of "2 ^ 32" "28 + unat b"] by simp
  finally show False using assms unat_u32_less [of b] by simp
qed

lemma DecodeZfRecord_InrD:
  assumes "DecodeZfRecord data = Inr (h, key, val)"
  shows "28 \<le> length data" and "h = zf_header_of data" and "h_magic h = kZfMagic"
    and "length data = 28 + unat (h_key_len h + h_val_len h)"
    and "DecodeFixed32 (drop (length data - 4) data) = Value (take (length data - 4) data)"
    and "key = slice 24 (unat (h_key_len h)) data"
    and "val = slice (24 + unat (h_key_len h)) (unat (h_val_len h)) data"
proof -
  let ?b = "h_key_len (zf_header_of data) + h_val_len (zf_header_of data)"
  show len: "28 \<le> length data" and hd: "h = zf_header_of data" and "h_magic h = kZfMagic"
    and "key = slice 24 (unat (h_key_len h)) data"
    and "val = slice (24 + unat (h_key_len h)) (unat (h_val_len h)) data"
    using assms by (auto simp: DecodeZfRecord_def Let_def zf_sizes split: if_splits)
  have l: "length data = unat (28 + ?b)"
    using assms by (auto simp: DecodeZfRecord_def Let_def zf_sizes add.commute split: if_splits)
  have small: "28 + unat ?b < 2 ^ 32" using u32_sum28 len l by metis
  then have "unat (28 + ?b) = 28 + unat ?b" "unat (24 + ?b) = 24 + unat ?b"
    by (simp_all add: unat_add_no_overflow)
  then show "length data = 28 + unat (h_key_len h + h_val_len h)"
    and "DecodeFixed32 (drop (length data - 4) data) = Value (take (length data - 4) data)"
    using assms l hd by (auto simp: DecodeZfRecord_def Let_def zf_sizes split: if_splits)
qed

text \<open>A trailer checksum tells a changed byte, before it or in it.\<close>

lemma DecodeFixed32_update:
  assumes "4 \<le> length p" "i < 4"
  shows "DecodeFixed32 (p[i := b]) = DecodeFixed32 p \<longleftrightarrow> b = p ! i"
proof
  assume "DecodeFixed32 (p[i := b]) = DecodeFixed32 p"
  then have "take 4 (p[i := b]) = take 4 p"
    using assms Put_Decode32 [of "p[i := b]"] Put_Decode32 [of p] by simp
  then have "take 4 (p[i := b]) ! i = take 4 p ! i" by simp
  then show "b = p ! i" using assms by simp
qed simp

lemma crc_trailer_update:
  assumes ok: "DecodeFixed32 (drop n data) = Value (take n data)" and n: "length data = n + 4"
    and i: "i < length data" and ne: "b \<noteq> data ! i"
  shows "DecodeFixed32 (drop n (data[i := b])) \<noteq> Value (take n (data[i := b]))"
proof (cases "i < n")
  case True
  then have "take n (data[i := b]) = (take n data)[i := b]" "drop n (data[i := b]) = drop n data"
    by (simp_all add: take_update_swap)
  moreover have "Value ((take n data)[i := b]) \<noteq> Value (take n data)"
    using True n ne by (simp add: Value_update)
  ultimately show ?thesis using ok by metis
next
  case False
  then have "take n (data[i := b]) = take n data" "drop n (data[i := b]) = (drop n data)[i - n := b]"
    by (simp_all add: drop_update_swap)
  moreover have "DecodeFixed32 ((drop n data)[i - n := b]) \<noteq> DecodeFixed32 (drop n data)"
    using False n i ne by (simp add: DecodeFixed32_update)
  ultimately show ?thesis using ok by metis
qed

lemma zf_header_of_prefix: "24 \<le> n \<Longrightarrow> n \<le> length data \<Longrightarrow> zf_header_of (take n data) = zf_header_of data"
  by (simp add: zf_header_of_def DecodeFixed16_def DecodeFixed32_def DecodeFixed64_def drop_take min_def)

lemma DecodeZfRecord_length:
  assumes "zf_header_of data' = zf_header_of data" "DecodeZfRecord data = Inr r"
    "length data' \<noteq> length data"
  shows "\<exists>msg. DecodeZfRecord data' = Inl (Corruption msg)"
proof -
  obtain h k v where r: "DecodeZfRecord data = Inr (h, k, v)" using assms(2) by (cases r) auto
  then have "length data = unat (kZfHeaderSize + (h_key_len h + h_val_len h) + kZfCrcSize)"
    and "h = zf_header_of data"
    by (auto simp: DecodeZfRecord_def Let_def split: if_splits)
  then show ?thesis using assms(1,3) by (auto simp: DecodeZfRecord_def Let_def)
qed

text \<open>C17: the WAL record round trip. A record whose header carries the magic and the sizes of
  its key and value, and whose length fits 32 bits, is decoded to exactly the header, key and
  value that were encoded, and its encoding has the length \<^verbatim>\<open>ZfRecordLength\<close> reports.\<close>

theorem wal_record_roundtrip:
  assumes "h_magic h = kZfMagic" "unat (h_key_len h) = length key" "unat (h_val_len h) = length val"
    and "28 + length key + length val < 2 ^ 32"
  shows "DecodeZfRecord (EncodeZfRecord h key val) = Inr (h, key, val) \<and>
    length (EncodeZfRecord h key val) = unat (ZfRecordLength (h_key_len h) (h_val_len h))"
  using Decode_EncodeZfRecord [of h key val] zf_frame_body(4) [of h key val] assms
  by (simp add: zf_frame_ok_def)

theorem wal_record_roundtrip_witness:
  "DecodeZfRecord (EncodeZfRecord \<lparr>h_magic = kZfMagic, h_cf_id = 0, h_type = 1, h_flags = 0,
     h_key_len = 1, h_val_len = 2, h_seq = 7\<rparr> [97] [98, 99]) =
   Inr (\<lparr>h_magic = kZfMagic, h_cf_id = 0, h_type = 1, h_flags = 0,
     h_key_len = 1, h_val_len = 2, h_seq = 7\<rparr>, [97], [98, 99])"
  by (rule conjunct1 [OF wal_record_roundtrip]) simp_all

text \<open>C18: a changed byte is detected. If a buffer is accepted as a record, then overwriting any
  single byte of it (header, key, value or checksum) with a different one makes the decoder
  report a corruption.\<close>

theorem wal_record_detects_byte:
  assumes "DecodeZfRecord data = Inr r" "i < length data" "b \<noteq> data ! i"
  shows "\<exists>msg. DecodeZfRecord (data[i := b]) = Inl (Corruption msg)"
proof (rule ccontr)
  assume no: "\<not> ?thesis"
  obtain h k v where r: "DecodeZfRecord data = Inr (h, k, v)" using assms(1) by (cases r) auto
  from no obtain h' k' v' where r': "DecodeZfRecord (data[i := b]) = Inr (h', k', v')"
    by (auto simp: DecodeZfRecord_def Let_def split: if_splits)
  let ?n = "length data - 4"
  have "DecodeFixed32 (drop ?n (data[i := b])) \<noteq> Value (take ?n (data[i := b]))"
    using crc_trailer_update [OF DecodeZfRecord_InrD(5) [OF r] _ assms(2,3)] DecodeZfRecord_InrD(1) [OF r]
    by simp
  with DecodeZfRecord_InrD(5) [OF r'] show False by simp
qed

theorem wal_record_detects_byte_witness:
  "\<exists>msg. DecodeZfRecord ((EncodeZfRecord \<lparr>h_magic = kZfMagic, h_cf_id = 0, h_type = 1, h_flags = 0,
     h_key_len = 1, h_val_len = 0, h_seq = 7\<rparr> [97] [])[24 := 98]) = Inl (Corruption msg)"
proof (rule wal_record_detects_byte)
  show "DecodeZfRecord (EncodeZfRecord \<lparr>h_magic = kZfMagic, h_cf_id = 0, h_type = 1, h_flags = 0,
     h_key_len = 1, h_val_len = 0, h_seq = 7\<rparr> [97] []) = Inr (\<lparr>h_magic = kZfMagic, h_cf_id = 0,
     h_type = 1, h_flags = 0, h_key_len = 1, h_val_len = 0, h_seq = 7\<rparr>, [97], [])"
    by (rule Decode_EncodeZfRecord) (simp add: zf_frame_ok_def)
qed (simp_all add: EncodeZfRecord_def Let_def nth_append)

text \<open>Torn and padded records are rejected. No proper prefix of an accepted record is
  accepted, and neither is an accepted record followed by further bytes.\<close>

theorem wal_record_rejects_torn:
  assumes "DecodeZfRecord data = Inr r"
  shows "(\<forall>n < length data. \<exists>msg. DecodeZfRecord (take n data) = Inl (Corruption msg)) \<and>
    (\<forall>extra. extra \<noteq> [] \<longrightarrow> (\<exists>msg. DecodeZfRecord (data @ extra) = Inl (Corruption msg)))"
proof (intro conjI allI impI)
  have len: "28 \<le> length data" using assms DecodeZfRecord_InrD(1) by (cases r) auto
  show "\<exists>msg. DecodeZfRecord (take n data) = Inl (Corruption msg)" if "n < length data" for n
  proof (cases "n < 28")
    case True
    then show ?thesis using that by (simp add: DecodeZfRecord_def zf_sizes)
  next
    case False
    then show ?thesis
      using that DecodeZfRecord_length [OF zf_header_of_prefix [of n data] assms] by simp
  qed
  have "zf_header_of (data @ extra) = zf_header_of data" for extra
    using zf_header_of_prefix [of "length data" "data @ extra"] len by simp
  then show "\<exists>msg. DecodeZfRecord (data @ extra) = Inl (Corruption msg)" if "extra \<noteq> []" for extra
    using DecodeZfRecord_length [OF _ assms] that by simp
qed

theorem wal_record_rejects_torn_witness:
  "\<exists>msg. DecodeZfRecord (take 29 (EncodeZfRecord \<lparr>h_magic = kZfMagic, h_cf_id = 0, h_type = 1, h_flags = 0,
     h_key_len = 1, h_val_len = 1, h_seq = 7\<rparr> [97] [98])) = Inl (Corruption msg)"
proof (rule conjunct1 [OF wal_record_rejects_torn, rule_format])
  show "DecodeZfRecord (EncodeZfRecord \<lparr>h_magic = kZfMagic, h_cf_id = 0, h_type = 1, h_flags = 0,
     h_key_len = 1, h_val_len = 1, h_seq = 7\<rparr> [97] [98]) = Inr (\<lparr>h_magic = kZfMagic, h_cf_id = 0,
     h_type = 1, h_flags = 0, h_key_len = 1, h_val_len = 1, h_seq = 7\<rparr>, [97], [98])"
    by (rule Decode_EncodeZfRecord) (simp add: zf_frame_ok_def)
qed simp

text \<open>The 32-bit sum of key and value length wraps in the decoder. A 28-byte buffer without
  any body passes every check while its header announces a key of \<open>2 ^ 32 - 1\<close> bytes, so the
  key slice the caller gets runs past the buffer.\<close>

theorem wal_record_length_wraps:
  "\<exists>data h key val. DecodeZfRecord data = Inr (h, key, val) \<and> length data = 28 \<and>
     unat (h_key_len h) = 2 ^ 32 - 1"
proof -
  let ?h = "\<lparr>h_magic = kZfMagic, h_cf_id = 0, h_type = 1, h_flags = 0,
     h_key_len = 0xffffffff, h_val_len = 1, h_seq = 7\<rparr>"
  let ?out = "zf_header_bytes ?h"
  have data: "EncodeZfRecord ?h [] [] = ?out @ PutFixed32 (Value ?out)"
    by (simp add: EncodeZfRecord_def Let_def)
  then have "zf_header_of (EncodeZfRecord ?h [] []) = ?h" by simp
  moreover have "drop 24 (EncodeZfRecord ?h [] []) = PutFixed32 (Value ?out)"
    "take 24 (EncodeZfRecord ?h [] []) = ?out" unfolding data by simp_all
  ultimately have "\<exists>k v. DecodeZfRecord (EncodeZfRecord ?h [] []) = Inr (?h, k, v)"
    unfolding DecodeZfRecord_def Let_def by (simp add: zf_sizes)
  then obtain k v where "DecodeZfRecord (EncodeZfRecord ?h [] []) = Inr (?h, k, v)" by blast
  moreover have "length (EncodeZfRecord ?h [] []) = 28" "unat (h_key_len ?h) = 2 ^ 32 - 1" by simp_all
  ultimately show ?thesis by blast
qed

section \<open>ZFPROPS: round trips\<close>

lemma get_fixed32_Put [simp]: "get_fixed32 msg (PutFixed32 v @ r) = Inr (v, r)"
  by (simp add: get_fixed32_def)

lemma get_sized_put [simp]: "length b < 2 ^ 32 \<Longrightarrow> get_sized m1 m2 (put_sized b @ r) = Inr (b, r)"
  by (simp add: get_sized_def put_sized_def unat_of_nat_small)

lemma get_part_ids_put [simp]: "get_part_ids (length ids) (concat (map PutFixed32 ids) @ r) = Inr (ids, r)"
  by (induction ids) simp_all

lemma get_boundaries_put [simp]:
  "\<forall>b \<in> set bs. length b < 2 ^ 32 \<Longrightarrow>
     get_boundaries (length bs) (concat (map put_sized bs) @ r) = Inr (bs, r)"
  by (induction bs) simp_all

text \<open>A table that the format can carry: it has as many ids as partitions, fewer than \<open>2 ^ 30\<close> of
  them, and its boundaries are counted and sized by 32-bit lengths.\<close>

definition zf_table_ok :: "ZfPropsTableInfo \<Rightarrow> bool" where
  "zf_table_ok t \<longleftrightarrow>
     unat (ti_partitions t) = length (ti_part_ids t) \<and> length (ti_part_ids t) < 2 ^ 30 \<and>
     length (ti_boundaries t) < 2 ^ 32 \<and> (\<forall>b \<in> set (ti_boundaries t). length b < 2 ^ 32)"

lemma length_concat_fixed32 [simp]: "length (concat (map PutFixed32 ids)) = 4 * length ids"
  by (induction ids) simp_all

lemma get_table_info_put [simp]:
  assumes "zf_table_ok t"
  shows "get_table_info (put_table_info t @ r) = Inr (t, r)"
proof -
  have "unat (ti_partitions t * 4) = 4 * length (ti_part_ids t)"
    using assms by (simp add: zf_table_ok_def unat_word_ariths)
  moreover have "unat (of_nat (length (ti_boundaries t)) :: u32) = length (ti_boundaries t)"
    using assms by (simp add: zf_table_ok_def unat_of_nat_small)
  ultimately show ?thesis
    using assms by (simp add: get_table_info_def put_table_info_def Let_def zf_table_ok_def)
qed

lemma get_tables_put [simp]:
  "\<forall>t \<in> set ts. zf_table_ok t \<Longrightarrow>
     get_tables (length ts) (concat (map put_table_info ts) @ r) = Inr (ts, r)"
  by (induction ts) simp_all

lemma Decode_EncodeZfProps:
  "DecodeZfProps (EncodeZfProps n) =
     Inr \<lparr>p_magic = kZfPropsMagic, p_version = 1, p_partitions = n,
          p_crc = Value (PutFixed32 kZfPropsMagic @ PutFixed32 1 @ PutFixed32 n)\<rparr>"
  by (simp add: DecodeZfProps_def EncodeZfProps_def Let_def kZfPropsSize_def take_Cons')

lemma Decode_EncodeZfPropsV2:
  assumes "length name < 2 ^ 32" "length tables < 2 ^ 32" "\<forall>t \<in> set tables. zf_table_ok t"
  shows "\<exists>crc. DecodeZfPropsAuto (EncodeZfPropsV2 mode name tables cur) =
    Inr \<lparr>v2_magic = kZfPropsMagicV2, v2_format_version = 2, v2_routing_mode = mode,
         v2_comparator_name = name, v2_tables = tables, v2_current_version = cur, v2_crc = crc\<rparr>"
proof -
  define rest where "rest = put_sized name @ PutFixed32 (of_nat (length tables)) @
     concat (map put_table_info tables) @ PutFixed32 cur"
  define buf where "buf = PutFixed32 kZfPropsMagicV2 @ PutFixed32 2 @ [mode] @ replicate 3 0 @ rest"
  define data where "data = buf @ PutFixed32 (Value buf)"
  have data: "EncodeZfPropsV2 mode name tables cur = data"
    by (simp add: EncodeZfPropsV2_def data_def buf_def rest_def Let_def)
  have d12: "drop 12 data = rest @ PutFixed32 (Value buf)"
    by (simp add: data_def buf_def drop_Cons' numeral_3_eq_3)
  have len: "12 \<le> length data" "DecodeFixed32 data = kZfPropsMagicV2" "DecodeFixed32 (drop 4 data) = 2"
    "data ! 8 = mode"
    by (simp_all add: data_def buf_def nth_append)
  have pay: "take (length data - 4) data = buf" by (simp add: data_def)
  have tc: "unat (of_nat (length tables) :: u32) = length tables"
    using assms by (simp add: unat_of_nat_small)
  have "DecodeZfPropsV2 data = Inr \<lparr>v2_magic = kZfPropsMagicV2, v2_format_version = 2,
     v2_routing_mode = mode, v2_comparator_name = name, v2_tables = tables,
     v2_current_version = cur, v2_crc = Value buf\<rparr>"
    using assms len pay tc by (simp add: DecodeZfPropsV2_def d12 rest_def get_fixed32_def)
  then show ?thesis
    using len by (simp add: data DecodeZfPropsAuto_def Let_def kZfPropsMagic_def kZfPropsMagicV2_def)
qed

text \<open>C35: ZFPROPS version 2 round trip. For tables the format can carry, decoding what was
  encoded returns the routing mode, the comparator name, every partition table with its ids and
  boundaries, and the current version.\<close>

theorem zfprops_v2_roundtrip:
  assumes "length name < 2 ^ 32" "length tables < 2 ^ 32" "\<forall>t \<in> set tables. zf_table_ok t"
  shows "\<exists>crc. DecodeZfPropsAuto (EncodeZfPropsV2 mode name tables cur) =
    Inr \<lparr>v2_magic = kZfPropsMagicV2, v2_format_version = 2, v2_routing_mode = mode,
         v2_comparator_name = name, v2_tables = tables, v2_current_version = cur, v2_crc = crc\<rparr>"
  using assms by (rule Decode_EncodeZfPropsV2)

theorem zfprops_v2_roundtrip_witness:
  "\<exists>crc. DecodeZfPropsAuto (EncodeZfPropsV2 2 [98] [\<lparr>ti_version = 1, ti_partitions = 2,
       ti_part_ids = [64, 65], ti_boundaries = [[109]]\<rparr>] 1) =
    Inr \<lparr>v2_magic = kZfPropsMagicV2, v2_format_version = 2, v2_routing_mode = 2,
         v2_comparator_name = [98], v2_tables = [\<lparr>ti_version = 1, ti_partitions = 2,
         ti_part_ids = [64, 65], ti_boundaries = [[109]]\<rparr>], v2_current_version = 1, v2_crc = crc\<rparr>"
  by (rule zfprops_v2_roundtrip) (simp_all add: zf_table_ok_def)

text \<open>ZFPROPS version 1 is read by the version-detecting decoder as one hash table with ids
  \<open>0 \<dots> partitions - 1\<close>, and a changed byte anywhere in its 16 bytes is never accepted by the
  version-1 decoder.\<close>

theorem zfprops_v1_upgrade:
  "(\<exists>crc. DecodeZfPropsAuto (EncodeZfProps n) = Inr (wrap_props_v1
       \<lparr>p_magic = kZfPropsMagic, p_version = 1, p_partitions = n, p_crc = crc\<rparr>)) \<and>
   (\<forall>i b. i < 16 \<and> b \<noteq> EncodeZfProps n ! i \<longrightarrow>
      (\<exists>msg. DecodeZfProps ((EncodeZfProps n)[i := b]) = Inl (Corruption msg)))"
proof (intro conjI allI impI)
  let ?out = "PutFixed32 kZfPropsMagic @ PutFixed32 1 @ PutFixed32 n"
  have data: "EncodeZfProps n = ?out @ PutFixed32 (Value ?out)"
    by (simp add: EncodeZfProps_def Let_def)
  then have len: "length (EncodeZfProps n) = 16" "DecodeFixed32 (EncodeZfProps n) = kZfPropsMagic"
    by simp_all
  then show "\<exists>crc. DecodeZfPropsAuto (EncodeZfProps n) = Inr (wrap_props_v1
       \<lparr>p_magic = kZfPropsMagic, p_version = 1, p_partitions = n, p_crc = crc\<rparr>)"
    by (auto simp: DecodeZfPropsAuto_def Decode_EncodeZfProps kZfPropsSize_def)
  have "DecodeFixed32 (drop 12 (EncodeZfProps n)) = Value (take 12 (EncodeZfProps n))"
    unfolding data by simp
  then show "\<exists>msg. DecodeZfProps ((EncodeZfProps n)[i := b]) = Inl (Corruption msg)"
    if "i < 16 \<and> b \<noteq> EncodeZfProps n ! i" for i b
    using crc_trailer_update [of 12 "EncodeZfProps n" i b] that len
    by (auto simp: DecodeZfProps_def Let_def kZfPropsSize_def)
qed

theorem zfprops_v1_upgrade_witness:
  "\<exists>msg. DecodeZfProps ((EncodeZfProps 64)[8 := 63]) = Inl (Corruption msg)"
  by (rule conjunct2 [OF zfprops_v1_upgrade, rule_format])
    (simp add: EncodeZfProps_def Let_def nth_append PutFixed32_def le_bytes_nth)

lemma get_part_ids_short: "length p < 4 * n \<Longrightarrow> get_part_ids n p = Inl OutOfBounds"
  by (induction n arbitrary: p) auto

text \<open>The 32-bit product \<^verbatim>\<open>t.partitions * 4\<close> wraps. A table header that announces a
  multiple of \<open>2 ^ 30\<close> partitions passes the truncation check and the loop over the ids then
  reads past the end of the file contents.\<close>

theorem zfprops_v2_partitions_wrap:
  assumes "0 < k" "k < 4" "length r < 2 ^ 32"
  shows "get_table_info (PutFixed32 v @ PutFixed32 (of_nat (k * 2 ^ 30)) @ r) = Inl OutOfBounds"
proof -
  have k: "k = 1 \<or> k = 2 \<or> k = 3" using assms by auto
  have "(of_nat (k * 2 ^ 30) :: u32) * 4 = 0" using k by auto
  moreover have "unat (of_nat (k * 2 ^ 30) :: u32) = k * 2 ^ 30" using k by auto
  moreover have "length r < 4 * (k * 2 ^ 30)" using k assms by auto
  ultimately show ?thesis
    by (simp add: get_table_info_def Let_def get_part_ids_short del: of_nat_mult of_nat_power)
qed

theorem zfprops_v2_partitions_wrap_witness:
  "get_table_info (PutFixed32 0 @ PutFixed32 (of_nat (1 * 2 ^ 30)) @ [1, 2, 3, 4, 0, 0, 0, 0]) = Inl OutOfBounds"
  by (rule zfprops_v2_partitions_wrap) simp_all

end
