(* ===== verification/ZfEnv.thy ===== *)
theory ZfEnv
  imports ZfWalFormat "HOL-Library.AList"
begin

text \<open>
  The file store under the WAL and the names of its files. The store stands for the
  \<^verbatim>\<open>rocksdb::Env\<close> the managers are given: file contents, the length of each file that is
  known durable (\<^verbatim>\<open>Sync\<close>), and a predicate that says which operations fail, so that every
  error return of the code is reachable. An append may also fail after a part of its data was written,
  as \<^verbatim>\<open>PosixWrite\<close> of \<^verbatim>\<open>env/io_posix.cc\<close> does. The predicate is part of the state: that failures come
  and go is a step that changes it. The second half is \<^verbatim>\<open>MakeFileName\<close> and
  \<^verbatim>\<open>ParseFileName\<close> of \<^verbatim>\<open>zeroflush/wal_manager.cc\<close>.
\<close>

section \<open>The store\<close>

datatype env_op =
    EnvMkdir string | EnvList string | EnvNewWritable string | EnvReopen string
  | EnvNewRandom string | EnvNewSequential string | EnvAppend string | EnvShort string nat | EnvSync string
  | EnvRead string | EnvSize string | EnvDelete string | EnvRename string

record env =
  e_files :: "(string \<times> bytes) list"
  e_synced :: "(string \<times> nat) list"
  e_fail :: "env_op \<Rightarrow> bool"

definition e_content :: "env \<Rightarrow> string \<Rightarrow> bytes option" where
  "e_content e path = map_of (e_files e) path"

definition e_durable :: "env \<Rightarrow> string \<Rightarrow> nat" where
  "e_durable e path = (case map_of (e_synced e) path of None \<Rightarrow> 0 | Some n \<Rightarrow> n)"

definition e_put :: "env \<Rightarrow> string \<Rightarrow> bytes \<Rightarrow> env" where
  "e_put e path data = e \<lparr> e_files := AList.update path data (e_files e) \<rparr>"

definition io_error :: zf_error where "io_error = IOError ''env''"

definition NewWritableFile :: "env \<Rightarrow> string \<Rightarrow> unit zf_result \<times> env" where
  "NewWritableFile e path =
     (if e_fail e (EnvNewWritable path) then (Inl io_error, e)
      else (Inr (), (e_put e path []) \<lparr> e_synced := AList.update path 0 (e_synced e) \<rparr>))"

definition ReopenWritableFile :: "env \<Rightarrow> string \<Rightarrow> unit zf_result \<times> env" where
  "ReopenWritableFile e path =
     (if e_fail e (EnvReopen path) then (Inl io_error, e)
      else (Inr (), if e_content e path = None then e_put e path [] else e))"

definition NewRandomAccessFile :: "env \<Rightarrow> string \<Rightarrow> unit zf_result" where
  "NewRandomAccessFile e path =
     (if e_fail e (EnvNewRandom path) \<or> e_content e path = None then Inl io_error else Inr ())"

definition NewSequentialFile :: "env \<Rightarrow> string \<Rightarrow> unit zf_result" where
  "NewSequentialFile e path =
     (if e_fail e (EnvNewSequential path) \<or> e_content e path = None then Inl io_error else Inr ())"

text \<open>An append fails at once (\<open>EnvAppend\<close>), or after it has written the first \<open>n\<close> bytes of the data
  (\<open>EnvShort path n\<close>).\<close>

definition short_write :: "env \<Rightarrow> string \<Rightarrow> bytes \<Rightarrow> nat option" where
  "short_write e path data = find (\<lambda>n. e_fail e (EnvShort path n)) [1..<length data]"

definition file_Append :: "env \<Rightarrow> string \<Rightarrow> bytes \<Rightarrow> unit zf_result \<times> env" where
  "file_Append e path data =
     (let content = (case e_content e path of None \<Rightarrow> [] | Some c \<Rightarrow> c)
      in if e_fail e (EnvAppend path) then (Inl io_error, e)
         else case short_write e path data of
                Some n \<Rightarrow> (Inl io_error, e_put e path (content @ take n data))
              | None \<Rightarrow> (Inr (), e_put e path (content @ data)))"

text \<open>A store in which an append writes everything or nothing.\<close>

definition whole_appends :: "env \<Rightarrow> bool" where
  "whole_appends e \<longleftrightarrow> (\<forall>path n. \<not> e_fail e (EnvShort path n))"

lemma short_write_None [simp]: "whole_appends e \<Longrightarrow> short_write e path data = None"
  by (simp add: short_write_def whole_appends_def find_None_iff)

lemma no_fail_whole [simp, intro]: "\<forall>op. \<not> e_fail e op \<Longrightarrow> whole_appends e"
  by (simp add: whole_appends_def)

lemma file_Append_whole:
  "whole_appends e \<Longrightarrow> file_Append e path data =
     (if e_fail e (EnvAppend path) then (Inl io_error, e)
      else (Inr (), e_put e path ((case e_content e path of None \<Rightarrow> [] | Some c \<Rightarrow> c) @ data)))"
  by (simp add: file_Append_def)

definition file_Sync :: "env \<Rightarrow> string \<Rightarrow> unit zf_result \<times> env" where
  "file_Sync e path =
     (if e_fail e (EnvSync path) then (Inl io_error, e)
      else (Inr (), e \<lparr> e_synced :=
              AList.update path (case e_content e path of None \<Rightarrow> 0 | Some c \<Rightarrow> length c) (e_synced e) \<rparr>))"

text \<open>A positioned read returns the bytes there are, at most \<open>n\<close>.\<close>

definition file_Read :: "env \<Rightarrow> string \<Rightarrow> nat \<Rightarrow> nat \<Rightarrow> bytes zf_result" where
  "file_Read e path off n =
     (if e_fail e (EnvRead path) then Inl io_error
      else case e_content e path of None \<Rightarrow> Inl io_error | Some c \<Rightarrow> Inr (slice off n c))"

definition env_GetFileSize :: "env \<Rightarrow> string \<Rightarrow> nat zf_result" where
  "env_GetFileSize e path =
     (if e_fail e (EnvSize path) then Inl io_error
      else case e_content e path of None \<Rightarrow> Inl io_error | Some c \<Rightarrow> Inr (length c))"

definition env_DeleteFile :: "env \<Rightarrow> string \<Rightarrow> unit zf_result \<times> env" where
  "env_DeleteFile e path =
     (if e_fail e (EnvDelete path) \<or> e_content e path = None then (Inl io_error, e)
      else (Inr (), e \<lparr> e_files := AList.delete path (e_files e),
                       e_synced := AList.delete path (e_synced e) \<rparr>))"

definition env_RenameFile :: "env \<Rightarrow> string \<Rightarrow> string \<Rightarrow> unit zf_result \<times> env" where
  "env_RenameFile e src dst =
     (if e_fail e (EnvRename src) then (Inl io_error, e)
      else case e_content e src of
             None \<Rightarrow> (Inl io_error, e)
           | Some c \<Rightarrow>
               (Inr (), e \<lparr> e_files := AList.update dst c (AList.delete src (e_files e)),
                            e_synced := AList.update dst (e_durable e src) (AList.delete src (e_synced e)) \<rparr>))"

definition env_CreateDirIfMissing :: "env \<Rightarrow> string \<Rightarrow> unit zf_result" where
  "env_CreateDirIfMissing e dir = (if e_fail e (EnvMkdir dir) then Inl io_error else Inr ())"

text \<open>The names in a directory: what follows \<open>dir\<close> and a slash.\<close>

definition child_of :: "string \<Rightarrow> string \<Rightarrow> string option" where
  "child_of dir path =
     (if take (length dir + 1) path = dir @ ''/'' then Some (drop (length dir + 1) path) else None)"

definition env_GetChildren :: "env \<Rightarrow> string \<Rightarrow> string list zf_result" where
  "env_GetChildren e dir =
     (if e_fail e (EnvList dir) then Inl io_error
      else Inr (List.map_filter (\<lambda>(path, _). child_of dir path) (e_files e)))"

text \<open>A crash keeps of every file at least what was durable.\<close>

definition crash_of :: "env \<Rightarrow> env \<Rightarrow> bool" where
  "crash_of e e' \<longleftrightarrow>
     (\<forall>path c. e_content e path = Some c \<longrightarrow>
        (\<exists>n. e_durable e path \<le> n \<and> e_content e' path = Some (take n c)) \<or>
        (e_durable e path = 0 \<and> e_content e' path = None)) \<and>
     (\<forall>path. e_content e path = None \<longrightarrow> e_content e' path = None)"

section \<open>File names\<close>

text \<open>\<^verbatim>\<open>std::to_string\<close> of an unsigned number and \<^verbatim>\<open>std::stoul\<close> of a digit string.\<close>

definition digit_char :: "nat \<Rightarrow> char" where "digit_char d = char_of (48 + d)"

function to_string :: "nat \<Rightarrow> string" where
  "to_string n = (if n < 10 then [digit_char n] else to_string (n div 10) @ [digit_char (n mod 10)])"
  by pat_completeness auto
termination by (relation "measure id") auto

declare to_string.simps [simp del]

definition is_digit :: "char \<Rightarrow> bool" where "is_digit c \<longleftrightarrow> 48 \<le> (of_char c :: nat) \<and> (of_char c :: nat) \<le> 57"

definition digits_value :: "string \<Rightarrow> nat" where
  "digits_value s = foldl (\<lambda>acc c. acc * 10 + (of_char c - 48)) 0 s"

definition stoul :: "string \<Rightarrow> u64 zf_result" where
  "stoul s = (if digits_value s < 2 ^ 64 then Inr (of_nat (digits_value s)) else Inl (CppException ''stoul''))"

definition kWalPrefix :: string where "kWalPrefix = ''zf-wal-''"

definition wal_name :: "u32 \<Rightarrow> u32 \<Rightarrow> string" where
  "wal_name part gen = kWalPrefix @ to_string (unat part) @ ''-'' @ to_string (unat gen) @ ''.log''"

definition MakeFileName :: "string \<Rightarrow> u32 \<Rightarrow> u32 \<Rightarrow> string" where
  "MakeFileName dir part gen =
     dir @ ''/zf-wal-'' @ to_string (unat part) @ ''-'' @ to_string (unat gen) @ ''.log''"

text \<open>\<^verbatim>\<open>find\<close> of a character and \<^verbatim>\<open>rfind\<close> of a substring, as positions.\<close>

fun find_char :: "char \<Rightarrow> string \<Rightarrow> nat option" where
  "find_char c [] = None"
| "find_char c (x # xs) = (if x = c then Some 0 else map_option Suc (find_char c xs))"

fun rfind_sub :: "string \<Rightarrow> string \<Rightarrow> nat option" where
  "rfind_sub pat [] = (if pat = [] then Some 0 else None)"
| "rfind_sub pat (x # xs) =
     (case rfind_sub pat xs of
        Some i \<Rightarrow> Some (Suc i)
      | None \<Rightarrow> if take (length pat) (x # xs) = pat then Some 0 else None)"

definition ParseFileName :: "string \<Rightarrow> (u32 \<times> u32) option zf_result" where
  "ParseFileName name =
     (if take 7 name \<noteq> kWalPrefix then Inr None
      else
       let rest = drop 7 name
       in case find_char CHR ''-'' rest of
            None \<Rightarrow> Inr None
          | Some dash \<Rightarrow>
              (case rfind_sub ''.log'' rest of
                 None \<Rightarrow> Inr None
               | Some dot \<Rightarrow>
                   if dot \<le> dash then Inr None
                   else
                    let p_str = take dash rest; g_str = take (dot - dash - 1) (drop (dash + 1) rest)
                    in if p_str = [] \<or> g_str = [] then Inr None
                       else if \<not> list_all is_digit p_str \<or> \<not> list_all is_digit g_str then Inr None
                       else res_bind (stoul p_str) (\<lambda>part. res_bind (stoul g_str) (\<lambda>gen.
                              Inr (Some (ucast part, ucast gen))))))"

section \<open>Laws of the store\<close>

lemma e_content_put [simp]: "e_content (e_put e path data) q = (if q = path then Some data else e_content e q)"
  by (simp add: e_content_def e_put_def update_conv')

lemma e_content_synced [simp]: "e_content (e\<lparr>e_synced := s\<rparr>) q = e_content e q"
  by (simp add: e_content_def)

lemma e_durable_put [simp]: "e_durable (e_put e path data) q = e_durable e q"
  by (simp add: e_durable_def e_put_def)

lemma e_fail_put [simp]: "e_fail (e_put e path data) = e_fail e"
  by (simp add: e_put_def)

section \<open>Decimal numbers\<close>

lemma of_char_digit [simp]: "d < 10 \<Longrightarrow> (of_char (digit_char d) :: nat) = 48 + d"
  by (simp add: digit_char_def)

lemma digits_value_append: "digits_value (s @ [c]) = digits_value s * 10 + (of_char c - 48)"
  by (simp add: digits_value_def)

lemma to_string_digits:
  "digits_value (to_string n) = n" "list_all is_digit (to_string n)" "to_string n \<noteq> []"
proof -
  have "digits_value (to_string n) = n \<and> list_all is_digit (to_string n) \<and> to_string n \<noteq> []"
  proof (induction n rule: to_string.induct)
    case (1 n)
    show ?case
    proof (cases "n < 10")
      case True
      then show ?thesis
        by (simp add: to_string.simps [of n] digits_value_def is_digit_def)
    next
      case False
      then show ?thesis
        using 1 by (simp add: to_string.simps [of n] digits_value_append is_digit_def)
    qed
  qed
  then show "digits_value (to_string n) = n" "list_all is_digit (to_string n)" "to_string n \<noteq> []" by auto
qed

lemma to_string_inj [simp]: "to_string m = to_string n \<longleftrightarrow> m = n"
  by (metis to_string_digits(1))

lemma stoul_to_string: "n < 2 ^ 64 \<Longrightarrow> stoul (to_string n) = Inr (of_nat n)"
  by (simp add: stoul_def to_string_digits)

lemma digits_no_char: "list_all is_digit s \<Longrightarrow> \<not> is_digit c \<Longrightarrow> c \<notin> set s"
  by (auto simp: list_all_iff)

lemma not_digit [simp]: "\<not> is_digit CHR ''-''" "\<not> is_digit CHR ''.''"
  by (simp_all add: is_digit_def)

section \<open>Names round trip\<close>

lemma find_char_append: "c \<notin> set xs \<Longrightarrow> find_char c (xs @ c # ys) = Some (length xs)"
  by (induction xs) auto

lemma rfind_log: "rfind_sub ''.log'' (xs @ ''.log'') = Some (length xs)"
  by (induction xs) auto

lemma Parse_wal_name: "ParseFileName (wal_name part gen) = Inr (Some (part, gen))"
proof -
  let ?p = "to_string (unat part)" and ?g = "to_string (unat gen)"
  have rest: "drop 7 (wal_name part gen) = ?p @ CHR ''-'' # (?g @ ''.log'')"
    "take 7 (wal_name part gen) = kWalPrefix"
    by (simp_all add: wal_name_def kWalPrefix_def)
  have dash: "find_char CHR ''-'' (?p @ CHR ''-'' # (?g @ ''.log'')) = Some (length ?p)"
    by (rule find_char_append) (simp add: digits_no_char to_string_digits)
  have dot: "rfind_sub ''.log'' (?p @ CHR ''-'' # (?g @ ''.log'')) = Some (length ?p + 1 + length ?g)"
    using rfind_log [of "?p @ CHR ''-'' # ?g"] by simp
  have "unat part < 2 ^ 64" "unat gen < 2 ^ 64"
    using unat_u32_less [of part] unat_u32_less [of gen] by simp_all
  moreover have "ucast (of_nat (unat w) :: u64) = w" for w :: u32
    by simp
  ultimately show ?thesis
    unfolding ParseFileName_def rest Let_def dash dot
    by (simp add: to_string_digits stoul_to_string)
qed

lemma MakeFileName_wal_name: "MakeFileName dir part gen = dir @ ''/'' @ wal_name part gen"
  by (simp add: MakeFileName_def wal_name_def kWalPrefix_def)

lemma MakeFileName_inj [simp]:
  "MakeFileName dir part gen = MakeFileName dir part' gen' \<longleftrightarrow> part = part' \<and> gen = gen'"
proof
  assume "MakeFileName dir part gen = MakeFileName dir part' gen'"
  then have "wal_name part gen = wal_name part' gen'" by (simp add: MakeFileName_wal_name)
  then have "ParseFileName (wal_name part gen) = ParseFileName (wal_name part' gen')" by simp
  then show "part = part' \<and> gen = gen'" by (simp only: Parse_wal_name) simp
qed simp

lemma child_of_MakeFileName: "child_of dir (MakeFileName dir part gen) = Some (wal_name part gen)"
  by (simp add: child_of_def MakeFileName_wal_name)

text \<open>C38: WAL file names identify partition and generation. The name built for a partition and a
  generation is parsed back to exactly these two, and two names in one directory are equal only
  if both numbers are.\<close>

theorem wal_file_name_roundtrip:
  "child_of dir (MakeFileName dir part gen) = Some (wal_name part gen) \<and>
   ParseFileName (wal_name part gen) = Inr (Some (part, gen)) \<and>
   (MakeFileName dir part gen = MakeFileName dir part' gen' \<longleftrightarrow> part = part' \<and> gen = gen')"
  by (simp add: child_of_MakeFileName Parse_wal_name)

text \<open>An over-long number in a file name is not rejected but ends in an exception. A name with
  the right prefix, dash and suffix whose partition number does not fit 64 bits makes
  \<^verbatim>\<open>std::stoul\<close> throw, which no caller catches.\<close>

theorem wal_file_name_overflow:
  "ParseFileName ''zf-wal-99999999999999999999-0.log'' = Inl (CppException ''stoul'')"
  by (simp add: ParseFileName_def kWalPrefix_def Let_def is_digit_def stoul_def digits_value_def)

end
