(* ===== verification/ZfWalScanner.thy ===== *)
theory ZfWalScanner
  imports ZfEnv
begin

text \<open>
  \<^verbatim>\<open>WalScanner\<close> of \<^verbatim>\<open>zeroflush/wal_manager.cc\<close>: the sequential scan of one sealed or
  recovered WAL file through a buffer that is refilled a megabyte at a time. Shown here: the scan
  of any file terminates; a file of complete records, none longer than the chunk, is returned
  record by record with a clean status; a longer record is misreported as truncated.
\<close>

section \<open>The scanner\<close>

definition kScanChunkSize :: nat where "kScanChunkSize = 2 ^ 20"

type_synonym zf_rec = "ZfRecordHeader \<times> bytes \<times> bytes"

text \<open>\<open>sc_file\<close> is the position of the sequential file, \<open>None\<close> if it did not open.\<close>

record WalScanner =
  sc_path :: string
  sc_file :: "nat option"
  sc_buf :: bytes
  sc_buf_pos :: nat
  sc_offset :: nat
  sc_status :: "unit zf_result"

definition new_WalScanner :: "env \<Rightarrow> string \<Rightarrow> u32 \<Rightarrow> u32 \<Rightarrow> WalScanner" where
  "new_WalScanner e dir part gen =
     (let path = MakeFileName dir part gen
      in \<lparr> sc_path = path, sc_file = (if is_ok (NewSequentialFile e path) then Some 0 else None),
           sc_buf = [], sc_buf_pos = 0, sc_offset = 0, sc_status = Inr () \<rparr>)"

text \<open>\<^verbatim>\<open>Refill\<close>: move what is unread to the front, then read one chunk behind it. When the
  read fails the buffer keeps the chunk it was resized for.\<close>

definition sc_compact :: "WalScanner \<Rightarrow> WalScanner" where
  "sc_compact s =
     (if sc_buf_pos s > 0 then s \<lparr> sc_buf := drop (sc_buf_pos s) (sc_buf s), sc_buf_pos := 0 \<rparr> else s)"

definition Refill :: "env \<Rightarrow> WalScanner \<Rightarrow> bool \<times> WalScanner" where
  "Refill e s =
     (let s = sc_compact s; pos = the (sc_file s)
      in case file_Read e (sc_path s) pos kScanChunkSize of
           Inl er \<Rightarrow> (False, s \<lparr> sc_buf := sc_buf s @ replicate kScanChunkSize 0, sc_status := Inl er \<rparr>)
         | Inr result \<Rightarrow>
             (True, s \<lparr> sc_buf := sc_buf s @ result, sc_file := Some (pos + length result) \<rparr>))"

definition DecodeKeyValLen :: "bytes \<Rightarrow> u32 \<times> u32" where
  "DecodeKeyValLen hdr = (DecodeFixed32 (drop 8 hdr), DecodeFixed32 (drop 12 hdr))"

definition record_total :: "bytes \<Rightarrow> nat" where
  "record_total hdr = unat (case DecodeKeyValLen hdr of (kl, vl) \<Rightarrow> ZfRecordLength kl vl)"

text \<open>The second half of \<^verbatim>\<open>Next\<close>, once the header is in the buffer.\<close>

definition Next_body :: "env \<Rightarrow> WalScanner \<Rightarrow> zf_rec option \<times> WalScanner" where
  "Next_body e s =
     (let total = record_total (drop (sc_buf_pos s) (sc_buf s));
          (ok, s) = (if length (sc_buf s) < sc_buf_pos s + total then Refill e s else (True, s))
      in if \<not> ok then (None, s)
         else if length (sc_buf s) < sc_buf_pos s + total
         then (None, s \<lparr> sc_status := Inl (Corruption ''ZeroFlush: truncated record in sealed WAL'') \<rparr>)
         else case DecodeZfRecord (slice (sc_buf_pos s) total (sc_buf s)) of
                Inl er \<Rightarrow> (None, s \<lparr> sc_status := Inl er \<rparr>)
              | Inr r \<Rightarrow>
                  (Some r, s \<lparr> sc_offset := sc_offset s + total, sc_buf_pos := sc_buf_pos s + total \<rparr>))"

definition Next :: "env \<Rightarrow> WalScanner \<Rightarrow> zf_rec option \<times> WalScanner" where
  "Next e s =
     (if sc_file s = None
      then (None, s \<lparr> sc_status := Inl (IOError ''ZeroFlush: scanner file not open'') \<rparr>)
      else if length (sc_buf s) < sc_buf_pos s + 24
      then case Refill e s of (ok, s) \<Rightarrow>
             if \<not> ok then (None, s)
             else if length (sc_buf s) < 24
             then (None, if sc_buf s \<noteq> []
                         then s \<lparr> sc_status := Inl (Corruption ''ZeroFlush: truncated record header in sealed WAL'') \<rparr>
                         else s)
             else Next_body e s
      else Next_body e s)"

text \<open>The callers' loop, \<^verbatim>\<open>while (scanner.Next(...))\<close>, with fuel for the number of records.\<close>

primrec scan_all :: "nat \<Rightarrow> env \<Rightarrow> WalScanner \<Rightarrow> (zf_rec list \<times> WalScanner) option" where
  "scan_all 0 e s = None"
| "scan_all (Suc n) e s =
     (case Next e s of
        (None, s') \<Rightarrow> Some ([], s')
      | (Some r, s') \<Rightarrow> map_option (\<lambda>(rs, s''). (r # rs, s'')) (scan_all n e s'))"

definition scan_fuel :: "env \<Rightarrow> string \<Rightarrow> nat" where
  "scan_fuel e path = (case e_content e path of None \<Rightarrow> 0 | Some c \<Rightarrow> length c) div 28 + 2"

definition scan_file :: "env \<Rightarrow> string \<Rightarrow> u32 \<Rightarrow> u32 \<Rightarrow> (zf_rec list \<times> WalScanner) option" where
  "scan_file e dir part gen =
     scan_all (scan_fuel e (MakeFileName dir part gen)) e (new_WalScanner e dir part gen)"

section \<open>What is left to read\<close>

definition sc_avail :: "WalScanner \<Rightarrow> bytes" where
  "sc_avail s = drop (sc_buf_pos s) (sc_buf s)"

definition sc_rem :: "env \<Rightarrow> WalScanner \<Rightarrow> bytes" where
  "sc_rem e s = sc_avail s @ (case e_content e (sc_path s) of None \<Rightarrow> [] | Some c \<Rightarrow> drop (the (sc_file s)) c)"

definition sc_ok :: "WalScanner \<Rightarrow> bool" where
  "sc_ok s \<longleftrightarrow> sc_buf_pos s \<le> length (sc_buf s)"

lemma sc_compact_simps [simp]:
  "sc_file (sc_compact s) = sc_file s" "sc_path (sc_compact s) = sc_path s"
  "sc_status (sc_compact s) = sc_status s" "sc_offset (sc_compact s) = sc_offset s"
  "sc_buf (sc_compact s) = sc_avail s" "sc_buf_pos (sc_compact s) = 0"
  by (simp_all add: sc_compact_def sc_avail_def)

lemma Refill_True:
  assumes "Refill e s = (True, s')" "sc_file s = Some pos"
  shows "sc_rem e s' = sc_rem e s" and "sc_buf_pos s' = 0" and "sc_path s' = sc_path s"
    and "sc_status s' = sc_status s" and "sc_offset s' = sc_offset s" and "sc_file s' \<noteq> None"
    and "length (sc_buf s') = min (length (sc_rem e s)) (length (sc_avail s) + kScanChunkSize)"
proof -
  obtain result where r: "file_Read e (sc_path s) pos kScanChunkSize = Inr result"
    using assms by (auto simp: Refill_def Let_def split: sum.splits)
  then obtain c where c: "e_content e (sc_path s) = Some c" and res: "result = slice pos kScanChunkSize c"
    by (auto simp: file_Read_def split: if_splits option.splits)
  have s': "s' = (sc_compact s)\<lparr> sc_buf := sc_avail s @ result, sc_file := Some (pos + length result) \<rparr>"
    using assms r by (auto simp: Refill_def Let_def)
  have "result @ drop (pos + length result) c = drop pos c"
  proof (cases "kScanChunkSize \<le> length c - pos")
    case True
    then show ?thesis
      by (metis add.commute append_take_drop_id drop_drop length_slice min.absorb1 res slice_def)
  next
    case False
    then show ?thesis by (simp add: res slice_def)
  qed
  then show "sc_rem e s' = sc_rem e s" using assms(2) c by (simp add: s' sc_rem_def sc_avail_def)
  show "sc_buf_pos s' = 0" "sc_path s' = sc_path s" "sc_status s' = sc_status s"
    "sc_offset s' = sc_offset s" "sc_file s' \<noteq> None" by (simp_all add: s')
  show "length (sc_buf s') = min (length (sc_rem e s)) (length (sc_avail s) + kScanChunkSize)"
    using assms(2) c by (auto simp: s' sc_rem_def res)
qed

lemma DecodeZfRecord_len: "DecodeZfRecord data = Inr r \<Longrightarrow> 28 \<le> length data"
  by (cases r) (auto dest: DecodeZfRecord_InrD(1))

lemma Next_body_Some:
  assumes "Next_body e s = (Some r, s')" "sc_ok s" "sc_file s \<noteq> None"
  shows "sc_ok s' \<and> sc_file s' \<noteq> None \<and> sc_path s' = sc_path s \<and>
    28 + length (sc_rem e s') \<le> length (sc_rem e s)"
proof -
  let ?t = "record_total (drop (sc_buf_pos s) (sc_buf s))"
  obtain s1 where s1: "(if length (sc_buf s) < sc_buf_pos s + ?t then Refill e s else (True, s)) = (True, s1)"
    "\<not> length (sc_buf s1) < sc_buf_pos s1 + ?t"
    "DecodeZfRecord (slice (sc_buf_pos s1) ?t (sc_buf s1)) = Inr r"
    "s' = s1\<lparr> sc_offset := sc_offset s1 + ?t, sc_buf_pos := sc_buf_pos s1 + ?t \<rparr>"
    using assms(1) unfolding Next_body_def Let_def
    by (auto split: prod.splits if_splits sum.splits)
  have keep: "sc_rem e s1 = sc_rem e s" "sc_path s1 = sc_path s" "sc_file s1 \<noteq> None"
    using s1(1) Refill_True [of e s s1] assms(3) by (auto split: if_splits)
  have "28 \<le> ?t" using DecodeZfRecord_len [OF s1(3)] by simp
  moreover have "length (sc_rem e s') = length (sc_rem e s1) - ?t" "?t \<le> length (sc_rem e s1)"
    using s1(2) by (auto simp: s1(4) sc_rem_def sc_avail_def split: option.splits)
  ultimately show ?thesis using keep s1(2,4) by (auto simp: sc_ok_def)
qed

lemma Next_Some:
  assumes "Next e s = (Some r, s')" "sc_ok s"
  shows "sc_ok s' \<and> sc_path s' = sc_path s \<and> 28 + length (sc_rem e s') \<le> length (sc_rem e s)"
proof -
  have open': "sc_file s \<noteq> None" using assms(1) by (auto simp: Next_def split: if_splits)
  show ?thesis
  proof (cases "length (sc_buf s) < sc_buf_pos s + 24")
    case True
    then obtain s1 where s1: "Refill e s = (True, s1)" "Next_body e s1 = (Some r, s')"
      using assms(1) open' by (auto simp: Next_def split: prod.splits if_splits)
    note rf = Refill_True [OF s1(1)]
    show ?thesis
      using Next_body_Some [OF s1(2)] rf open' by (auto simp: sc_ok_def)
  next
    case False
    then show ?thesis
      using assms open' Next_body_Some [of e s r s'] by (simp add: Next_def)
  qed
qed

lemma scan_all_total: "sc_ok s \<Longrightarrow> length (sc_rem e s) < 28 * n \<Longrightarrow> \<exists>y. scan_all n e s = Some y"
proof (induction n arbitrary: s)
  case (Suc n)
  show ?case
  proof (cases "Next e s")
    case (Pair res s')
    show ?thesis
    proof (cases res)
      case None
      then show ?thesis using Pair by simp
    next
      case (Some r)
      then have "sc_ok s'" "28 + length (sc_rem e s') \<le> length (sc_rem e s)"
        using Next_Some [of e s r s'] Pair Suc.prems(1) by auto
      then obtain y where "scan_all n e s' = Some y" using Suc.IH [of s'] Suc.prems(2) by auto
      then show ?thesis using Pair Some by simp
    qed
  qed
qed simp

text \<open>C33: the scan of a WAL file always ends. For every file contents, corrupt ones included, every
  missing file and every pattern of read failures, the callers' loop over \<^verbatim>\<open>Next\<close> stops
  within one step more than a record per 28 bytes of the file.\<close>

theorem scan_terminates: "\<exists>recs s. scan_file e dir part gen = Some (recs, s)"
proof -
  let ?s = "new_WalScanner e dir part gen" and ?path = "MakeFileName dir part gen"
  define n where "n = (case e_content e ?path of None \<Rightarrow> 0 | Some c \<Rightarrow> length c)"
  have "sc_ok ?s" by (simp add: sc_ok_def new_WalScanner_def Let_def)
  moreover have "length (sc_rem e ?s) \<le> n"
    by (auto simp: n_def sc_rem_def sc_avail_def new_WalScanner_def Let_def split: option.splits)
  then have "length (sc_rem e ?s) < 28 * (n div 28 + 2)"
    using mult_div_mod_eq [of 28 n] mod_less_divisor [of 28 n] by simp
  ultimately have "\<exists>y. scan_all (n div 28 + 2) e ?s = Some y" by (rule scan_all_total)
  then show ?thesis unfolding scan_file_def scan_fuel_def n_def by (metis surj_pair)
qed

section \<open>Scanning complete records\<close>

definition scan_ready :: "env \<Rightarrow> WalScanner \<Rightarrow> bool" where
  "scan_ready e s \<longleftrightarrow> sc_ok s \<and> sc_file s \<noteq> None \<and> e_content e (sc_path s) \<noteq> None \<and>
     \<not> e_fail e (EnvRead (sc_path s))"

lemma Refill_ready:
  assumes "scan_ready e s"
  obtains s' where "Refill e s = (True, s')" "scan_ready e s'"
proof -
  obtain c where c: "e_content e (sc_path s) = Some c" using assms by (auto simp: scan_ready_def)
  obtain s' where s': "Refill e s = (True, s')"
    using assms c by (auto simp: Refill_def Let_def file_Read_def scan_ready_def)
  obtain pos where "sc_file s = Some pos" using assms by (auto simp: scan_ready_def)
  from Refill_True [OF s' this] assms have "scan_ready e s'" by (auto simp: scan_ready_def sc_ok_def)
  with s' that show ?thesis by blast
qed

lemma record_total_prefix:
  assumes "zf_frame_ok h k v" "EncodeZfRecord h k v @ rest = p @ q" "24 \<le> length p"
  shows "record_total p = 28 + length k + length v"
proof -
  have "zf_header_of (p @ q) = h"
    using assms(2) by (metis EncodeZfRecord_def append.assoc zf_header_of_bytes)
  moreover have "zf_header_of (p @ q) = zf_header_of p"
    using zf_header_of_prefix [of "length p" "p @ q"] assms(3) by simp
  ultimately have "DecodeKeyValLen p = (h_key_len h, h_val_len h)"
    by (auto simp: DecodeKeyValLen_def zf_header_of_def)
  then show ?thesis using zf_frame_body(4) [OF assms(1)] by (simp add: record_total_def)
qed

lemma Next_body_valid:
  assumes ready: "scan_ready e s" and ok: "zf_frame_ok h k v"
    and rem: "sc_rem e s = EncodeZfRecord h k v @ rest" and av: "24 \<le> length (sc_avail s)"
    and small: "28 + length k + length v \<le> length (sc_avail s) + kScanChunkSize"
  shows "\<exists>s'. Next_body e s = (Some (h, k, v), s') \<and> scan_ready e s' \<and> sc_rem e s' = rest \<and>
    sc_status s' = sc_status s \<and> sc_path s' = sc_path s \<and>
    sc_offset s' = sc_offset s + (28 + length k + length v)"
proof -
  let ?t = "28 + length k + length v"
  have t: "record_total (drop (sc_buf_pos s) (sc_buf s)) = ?t"
  proof (rule record_total_prefix [OF ok])
    show "EncodeZfRecord h k v @ rest = drop (sc_buf_pos s) (sc_buf s) @
        (case e_content e (sc_path s) of None \<Rightarrow> [] | Some c \<Rightarrow> drop (the (sc_file s)) c)"
      using rem by (simp add: sc_rem_def sc_avail_def)
    show "24 \<le> length (drop (sc_buf_pos s) (sc_buf s))" using av by (simp add: sc_avail_def)
  qed
  obtain pos where pos: "sc_file s = Some pos" using ready by (auto simp: scan_ready_def)
  obtain s1 where s1: "(if length (sc_buf s) < sc_buf_pos s + ?t then Refill e s else (True, s)) = (True, s1)"
    "scan_ready e s1" "sc_rem e s1 = sc_rem e s" "sc_status s1 = sc_status s" "sc_path s1 = sc_path s"
    "sc_offset s1 = sc_offset s" "sc_buf_pos s1 + ?t \<le> length (sc_buf s1)"
  proof (cases "length (sc_buf s) < sc_buf_pos s + ?t")
    case True
    obtain s' where s': "Refill e s = (True, s')" "scan_ready e s'" by (rule Refill_ready [OF ready])
    note rf = Refill_True [OF s'(1) pos]
    have "length (sc_buf s') \<ge> ?t" using rf(7) small rem by simp
    with True s' rf that show ?thesis by auto
  next
    case False
    with ready that [of s] show ?thesis by auto
  qed
  have av1: "?t \<le> length (sc_avail s1)" using s1(7) by (simp add: sc_avail_def)
  have "slice (sc_buf_pos s1) ?t (sc_buf s1) = take ?t (sc_avail s1)" by (simp add: slice_def sc_avail_def)
  also have "\<dots> = take ?t (sc_rem e s1)" using av1 by (simp add: sc_rem_def)
  also have "\<dots> = EncodeZfRecord h k v" using s1(3) rem by simp
  finally have dec: "DecodeZfRecord (slice (sc_buf_pos s1) ?t (sc_buf s1)) = Inr (h, k, v)"
    using Decode_EncodeZfRecord [OF ok] by simp
  let ?s' = "s1\<lparr> sc_offset := sc_offset s1 + ?t, sc_buf_pos := sc_buf_pos s1 + ?t \<rparr>"
  have "Next_body e s = (Some (h, k, v), ?s')"
    using s1(1,7) dec by (simp add: Next_body_def t Let_def)
  moreover have "sc_rem e ?s' = drop ?t (sc_rem e s1)"
    using av1 by (auto simp: sc_rem_def sc_avail_def add.commute split: option.splits)
  then have "sc_rem e ?s' = rest" using s1(3) rem by simp
  moreover have "scan_ready e ?s'" using s1(2,7) by (auto simp: scan_ready_def sc_ok_def)
  ultimately show ?thesis using s1(4-6) by auto
qed

text \<open>One call of \<^verbatim>\<open>Next\<close> at a record that fits the chunk, and at the end of the file.\<close>

lemma Next_valid:
  assumes ready: "scan_ready e s" and ok: "zf_frame_ok h k v"
    and rem: "sc_rem e s = EncodeZfRecord h k v @ rest" and small: "28 + length k + length v \<le> kScanChunkSize"
  shows "\<exists>s'. Next e s = (Some (h, k, v), s') \<and> scan_ready e s' \<and> sc_rem e s' = rest \<and>
    sc_status s' = sc_status s \<and> sc_path s' = sc_path s \<and>
    sc_offset s' = sc_offset s + (28 + length k + length v)"
proof -
  obtain pos where pos: "sc_file s = Some pos" using ready by (auto simp: scan_ready_def)
  show ?thesis
  proof (cases "length (sc_buf s) < sc_buf_pos s + 24")
    case True
    obtain s1 where s1: "Refill e s = (True, s1)" "scan_ready e s1" by (rule Refill_ready [OF ready])
    note rf = Refill_True [OF s1(1) pos]
    have len: "24 \<le> length (sc_buf s1)" using rf(7) rem by (simp add: kScanChunkSize_def)
    have "Next e s = Next_body e s1" using True pos s1(1) len by (simp add: Next_def)
    moreover have "sc_rem e s1 = EncodeZfRecord h k v @ rest" using rf(1) rem by simp
    moreover have "24 \<le> length (sc_avail s1)" using len rf(2) by (simp add: sc_avail_def)
    ultimately show ?thesis
      using Next_body_valid [OF s1(2) ok, of rest] small rf(3-5) by auto
  next
    case False
    then have "Next e s = Next_body e s" "24 \<le> length (sc_avail s)"
      using pos by (auto simp: Next_def sc_avail_def)
    then show ?thesis using Next_body_valid [OF ready ok rem] small by auto
  qed
qed

lemma Next_end:
  assumes ready: "scan_ready e s" and rem: "sc_rem e s = []"
  shows "\<exists>s'. Next e s = (None, s') \<and> sc_status s' = sc_status s \<and> sc_offset s' = sc_offset s"
proof -
  obtain pos where pos: "sc_file s = Some pos" using ready by (auto simp: scan_ready_def)
  obtain s1 where s1: "Refill e s = (True, s1)" "scan_ready e s1" by (rule Refill_ready [OF ready])
  note rf = Refill_True [OF s1(1) pos]
  have "length (sc_buf s) < sc_buf_pos s + 24"
    using ready rem by (auto simp: scan_ready_def sc_ok_def sc_rem_def sc_avail_def)
  moreover have "sc_buf s1 = []" using rf(7) rem by simp
  ultimately show ?thesis using pos s1(1) rf(4,5) by (simp add: Next_def)
qed

definition rec_bytes :: "zf_rec \<Rightarrow> bytes" where
  "rec_bytes r = (case r of (h, k, v) \<Rightarrow> EncodeZfRecord h k v)"

lemma rec_bytes_simp [simp]: "rec_bytes (h, k, v) = EncodeZfRecord h k v"
  by (simp add: rec_bytes_def)

definition rec_ok :: "zf_rec \<Rightarrow> bool" where
  "rec_ok r \<longleftrightarrow> (case r of (h, k, v) \<Rightarrow> zf_frame_ok h k v \<and> length (rec_bytes r) \<le> kScanChunkSize)"

lemma scan_all_valid:
  assumes "scan_ready e s" "sc_rem e s = concat (map rec_bytes recs)" "\<forall>r \<in> set recs. rec_ok r"
    "length recs < n"
  shows "\<exists>s'. scan_all n e s = Some (recs, s') \<and> sc_status s' = sc_status s \<and>
    sc_offset s' = sc_offset s + length (concat (map rec_bytes recs))"
  using assms
proof (induction recs arbitrary: s n)
  case Nil
  then obtain m where n: "n = Suc m" by (cases n) auto
  then show ?case using Next_end [of e s] Nil.prems by auto
next
  case (Cons r recs)
  obtain m where n: "n = Suc m" using Cons.prems(4) by (cases n) auto
  obtain h k v where r: "r = (h, k, v)" by (cases r)
  have ok: "zf_frame_ok h k v" "28 + length k + length v \<le> kScanChunkSize"
    using Cons.prems(3) by (auto simp: r rec_ok_def)
  have rem: "sc_rem e s = EncodeZfRecord h k v @ concat (map rec_bytes recs)"
    using Cons.prems(2) by (simp add: r)
  obtain s1 where s1: "Next e s = (Some (h, k, v), s1)" "scan_ready e s1"
    "sc_rem e s1 = concat (map rec_bytes recs)" "sc_status s1 = sc_status s"
    "sc_offset s1 = sc_offset s + (28 + length k + length v)"
    using Next_valid [OF Cons.prems(1) ok(1) rem ok(2)] by blast
  have "\<exists>s'. scan_all m e s1 = Some (recs, s') \<and> sc_status s' = sc_status s1 \<and>
      sc_offset s' = sc_offset s1 + length (concat (map rec_bytes recs))"
    by (rule Cons.IH [OF s1(2,3)]) (use Cons.prems(3,4) n in auto)
  then show ?case using s1 by (auto simp: n r)
qed

lemma scan_file_valid:
  assumes "e_content e (MakeFileName dir part gen) = Some (concat (map rec_bytes recs))"
    "\<forall>r \<in> set recs. rec_ok r"
    "\<not> e_fail e (EnvNewSequential (MakeFileName dir part gen))" "\<not> e_fail e (EnvRead (MakeFileName dir part gen))"
  shows "\<exists>s. scan_file e dir part gen = Some (recs, s) \<and> sc_status s = Inr () \<and>
    sc_offset s = length (concat (map rec_bytes recs))"
proof -
  let ?s = "new_WalScanner e dir part gen"
  have ready: "scan_ready e ?s"
    using assms by (simp add: scan_ready_def new_WalScanner_def Let_def sc_ok_def NewSequentialFile_def)
  have rem: "sc_rem e ?s = concat (map rec_bytes recs)"
    using assms by (simp add: sc_rem_def sc_avail_def new_WalScanner_def Let_def NewSequentialFile_def)
  have "28 * length recs \<le> length (concat (map rec_bytes recs))"
    by (induction recs) (auto simp: rec_bytes_def split: prod.splits)
  then have "length recs < scan_fuel e (MakeFileName dir part gen)"
    using assms(1) unfolding scan_fuel_def by simp
  from scan_all_valid [OF ready rem assms(2) this] show ?thesis
    by (simp add: scan_file_def new_WalScanner_def Let_def)
qed

text \<open>C15: a WAL file made of complete records is read back exactly. If the file holds the encodings
  of a list of records, each with a consistent header and at most one chunk long, and the file
  can be opened and read, the scan returns that list, ends with a clean status, and its final
  offset is the length of the file.\<close>

theorem scan_returns_records:
  assumes "e_content e (MakeFileName dir part gen) = Some (concat (map rec_bytes recs))"
    "\<forall>r \<in> set recs. rec_ok r"
    "\<not> e_fail e (EnvNewSequential (MakeFileName dir part gen))" "\<not> e_fail e (EnvRead (MakeFileName dir part gen))"
  shows "\<exists>s. scan_file e dir part gen = Some (recs, s) \<and> sc_status s = Inr () \<and>
    sc_offset s = length (concat (map rec_bytes recs))"
  using assms by (rule scan_file_valid)

theorem scan_returns_records_witness:
  "\<exists>s. scan_file \<lparr>e_files = [(MakeFileName ''d'' 3 0, EncodeZfRecord \<lparr>h_magic = kZfMagic, h_cf_id = 0, h_type = 1,
       h_flags = 0, h_key_len = 1, h_val_len = 2, h_seq = 7\<rparr> [97] [98, 99])], e_synced = [],
       e_fail = \<lambda>_. False\<rparr> ''d'' 3 0 =
     Some ([(\<lparr>h_magic = kZfMagic, h_cf_id = 0, h_type = 1, h_flags = 0, h_key_len = 1, h_val_len = 2,
       h_seq = 7\<rparr>, [97], [98, 99])], s) \<and> sc_status s = Inr () \<and> sc_offset s = 31"
proof -
  let ?r = "(\<lparr>h_magic = kZfMagic, h_cf_id = 0, h_type = 1, h_flags = 0, h_key_len = 1, h_val_len = 2,
       h_seq = 7\<rparr>, [97], [98, 99]) :: zf_rec"
  let ?e = "\<lparr>e_files = [(MakeFileName ''d'' 3 0, rec_bytes ?r)], e_synced = [], e_fail = \<lambda>_. False\<rparr>"
  have "\<exists>s. scan_file ?e ''d'' 3 0 = Some ([?r], s) \<and> sc_status s = Inr () \<and>
      sc_offset s = length (concat (map rec_bytes [?r]))"
    by (rule scan_returns_records) (simp_all add: e_content_def rec_ok_def zf_frame_ok_def kScanChunkSize_def)
  then show ?thesis by simp
qed

text \<open>A record longer than two chunks cannot be scanned. The buffer is refilled once per record,
  so a complete and intact record of more than \<open>2 ^ 21\<close> bytes at the head of a file is reported
  as a truncated record and the scan stops there.\<close>

theorem scan_rejects_long_record:
  assumes "e_content e (MakeFileName dir part gen) = Some (EncodeZfRecord h k v @ rest)"
    "zf_frame_ok h k v" "2 * kScanChunkSize < 28 + length k + length v"
    "\<not> e_fail e (EnvNewSequential (MakeFileName dir part gen))" "\<not> e_fail e (EnvRead (MakeFileName dir part gen))"
  shows "\<exists>s. scan_file e dir part gen = Some ([], s) \<and>
    sc_status s = Inl (Corruption ''ZeroFlush: truncated record in sealed WAL'')"
proof -
  let ?s = "new_WalScanner e dir part gen"
  have ready: "scan_ready e ?s" and pos: "sc_file ?s = Some 0" and empty: "sc_buf ?s = []" "sc_buf_pos ?s = 0"
    using assms by (simp_all add: scan_ready_def new_WalScanner_def Let_def sc_ok_def NewSequentialFile_def)
  have rem: "sc_rem e ?s = EncodeZfRecord h k v @ rest"
    using assms by (simp add: sc_rem_def sc_avail_def new_WalScanner_def Let_def NewSequentialFile_def)
  obtain s1 where s1: "Refill e ?s = (True, s1)" "scan_ready e s1" by (rule Refill_ready [OF ready])
  note rf1 = Refill_True [OF s1(1) pos]
  have len1: "length (sc_buf s1) = kScanChunkSize"
    using rf1(7) rem assms(3) empty by (simp add: sc_avail_def)
  obtain pos1 where pos1: "sc_file s1 = Some pos1" using s1(2) by (auto simp: scan_ready_def)
  obtain s2 where s2: "Refill e s1 = (True, s2)" "scan_ready e s2" by (rule Refill_ready [OF s1(2)])
  note rf2 = Refill_True [OF s2(1) pos1]
  have len2: "length (sc_buf s2) \<le> 2 * kScanChunkSize"
    using rf2(7) len1 rf1(2) by (simp add: sc_avail_def)
  have "record_total (sc_buf s1) = 28 + length k + length v"
  proof (rule record_total_prefix [OF assms(2)])
    show "EncodeZfRecord h k v @ rest = sc_buf s1 @
        (case e_content e (sc_path s1) of None \<Rightarrow> [] | Some c \<Rightarrow> drop (the (sc_file s1)) c)"
      using rf1(1,2) rem by (simp add: sc_rem_def sc_avail_def)
  qed (simp add: len1 kScanChunkSize_def)
  then have "Next e ?s = (None, s2\<lparr> sc_status := Inl (Corruption ''ZeroFlush: truncated record in sealed WAL'') \<rparr>)"
    using s1(1) s2(1) rf1(2) rf2(2) len1 len2 assms(3) pos empty
    by (simp add: Next_def Next_body_def Let_def kScanChunkSize_def)
  then show ?thesis
    by (simp add: scan_file_def scan_fuel_def add_2_eq_Suc')
qed

theorem scan_rejects_long_record_witness:
  "\<exists>s. scan_file \<lparr>e_files = [(MakeFileName ''d'' 3 0, EncodeZfRecord \<lparr>h_magic = kZfMagic, h_cf_id = 0, h_type = 1,
       h_flags = 0, h_key_len = 1, h_val_len = 2097152, h_seq = 7\<rparr> [97] (replicate 2097152 0))], e_synced = [],
       e_fail = \<lambda>_. False\<rparr> ''d'' 3 0 = Some ([], s) \<and>
    sc_status s = Inl (Corruption ''ZeroFlush: truncated record in sealed WAL'')"
  by (rule scan_rejects_long_record [where rest = "[]" and k = "[97]" and v = "replicate 2097152 0" and
      h = "\<lparr>h_magic = kZfMagic, h_cf_id = 0, h_type = 1, h_flags = 0, h_key_len = 1, h_val_len = 2097152, h_seq = 7\<rparr>"])
    (simp_all add: e_content_def zf_frame_ok_def kScanChunkSize_def)

end
