(* ===== verification/ZfKeyFormat.thy ===== *)
theory ZfKeyFormat
  imports ZfCoding
begin

text \<open>
  Keys and their orders: \<^verbatim>\<open>Slice::compare\<close> (\<^verbatim>\<open>include/rocksdb/slice.h\<close>), the user
  comparator as an interface, internal keys (user key, sequence number and type in one string,
  \<^verbatim>\<open>db/dbformat.h\<close>) with their comparator, and sorting and binary search by a comparator as
  the C++ library does them. The user comparator is a parameter of the model; the locale
  \<open>user_comparator\<close> states what a comparator promises, and the bytewise comparator and the
  internal key comparator are proved to keep the promise.
\<close>

section \<open>Slice comparison\<close>

fun memcmp :: "bytes \<Rightarrow> bytes \<Rightarrow> int" where
  "memcmp (a # as) (b # bs) = (if a < b then -1 else if b < a then 1 else memcmp as bs)"
| "memcmp _ _ = 0"

definition Slice_compare :: "bytes \<Rightarrow> bytes \<Rightarrow> int" where
  "Slice_compare a b =
     (let min_len = (if length a < length b then length a else length b);
          r = memcmp (take min_len a) (take min_len b)
      in if r = 0 then (if length a < length b then -1 else if length a > length b then 1 else r) else r)"

section \<open>Sorting and searching by a comparator\<close>

text \<open>\<^verbatim>\<open>std::sort\<close> with a comparator: an ordered permutation of its input. The model takes the
  stable one; where equal elements are equal bytes there is only one.\<close>

primrec insort_cmp :: "('a \<Rightarrow> 'a \<Rightarrow> int) \<Rightarrow> 'a \<Rightarrow> 'a list \<Rightarrow> 'a list" where
  "insort_cmp cmp x [] = [x]"
| "insort_cmp cmp x (y # ys) = (if cmp x y \<le> 0 then x # y # ys else y # insort_cmp cmp x ys)"

primrec sort_cmp :: "('a \<Rightarrow> 'a \<Rightarrow> int) \<Rightarrow> 'a list \<Rightarrow> 'a list" where
  "sort_cmp cmp [] = []"
| "sort_cmp cmp (x # xs) = insort_cmp cmp x (sort_cmp cmp xs)"

text \<open>\<^verbatim>\<open>std::upper_bound\<close>: the halving loop over the range of \<open>len\<close> elements at \<open>first\<close>;
  \<open>below m\<close> says whether the sought key is below the element at \<open>m\<close>.\<close>

function upper_bound_loop :: "(nat \<Rightarrow> bool) \<Rightarrow> nat \<Rightarrow> nat \<Rightarrow> nat" where
  "upper_bound_loop below first len =
     (if len = 0 then first
      else
       let half = len div 2; middle = first + half
       in if below middle then upper_bound_loop below first half
          else upper_bound_loop below (middle + 1) (len - half - 1))"
  by pat_completeness auto
termination
  by (relation "measure (\<lambda>(below, first, len). len)") auto

declare upper_bound_loop.simps [simp del]

definition upper_bound :: "('a \<Rightarrow> 'b \<Rightarrow> int) \<Rightarrow> 'a \<Rightarrow> 'b list \<Rightarrow> nat" where
  "upper_bound cmp key xs = upper_bound_loop (\<lambda>m. cmp key (xs ! m) < 0) 0 (length xs)"

section \<open>Internal keys\<close>

definition kTypeDeletion :: byte where "kTypeDeletion = 0x0"
definition kTypeValue :: byte where "kTypeValue = 0x1"
definition kTypeMerge :: byte where "kTypeMerge = 0x2"
definition kTypeSingleDeletion :: byte where "kTypeSingleDeletion = 0x7"
definition kTypeRangeDeletion :: byte where "kTypeRangeDeletion = 0xF"
definition kTypeBlobIndex :: byte where "kTypeBlobIndex = 0x11"
definition kTypeWideColumnEntity :: byte where "kTypeWideColumnEntity = 0x16"

definition kMaxSequenceNumber :: u64 where "kMaxSequenceNumber = 2 ^ 56 - 1"

definition PackSequenceAndType :: "u64 \<Rightarrow> byte \<Rightarrow> u64" where
  "PackSequenceAndType seq t = push_bit 8 seq OR ucast t"

definition UnPackSequenceAndType :: "u64 \<Rightarrow> u64 \<times> byte" where
  "UnPackSequenceAndType packed = (drop_bit 8 packed, ucast (packed AND 0xff))"

text \<open>\<^verbatim>\<open>MakeInternalKey\<close> of \<^verbatim>\<open>materialize_job.cc\<close>.\<close>

definition MakeInternalKey :: "bytes \<Rightarrow> u64 \<Rightarrow> byte \<Rightarrow> bytes" where
  "MakeInternalKey user_key seq t = user_key @ PutFixed64 (PackSequenceAndType seq t)"

definition ExtractUserKey :: "bytes \<Rightarrow> bytes" where
  "ExtractUserKey ikey = take (length ikey - 8) ikey"

definition ExtractInternalKeyFooter :: "bytes \<Rightarrow> u64" where
  "ExtractInternalKeyFooter ikey = DecodeFixed64 (drop (length ikey - 8) ikey)"

definition GetInternalKeySeqno :: "bytes \<Rightarrow> u64" where
  "GetInternalKeySeqno ikey = drop_bit 8 (ExtractInternalKeyFooter ikey)"

definition ExtractValueType :: "bytes \<Rightarrow> byte" where
  "ExtractValueType ikey = ucast (ExtractInternalKeyFooter ikey AND 0xff)"

definition InternalKeyCompare :: "(bytes \<Rightarrow> bytes \<Rightarrow> int) \<Rightarrow> bytes \<Rightarrow> bytes \<Rightarrow> int" where
  "InternalKeyCompare ucmp akey bkey =
     (let r = ucmp (ExtractUserKey akey) (ExtractUserKey bkey)
      in if r = 0
         then let anum = ExtractInternalKeyFooter akey; bnum = ExtractInternalKeyFooter bkey
              in if anum > bnum then -1 else if anum < bnum then 1 else r
         else r)"

definition CompareKeySeq :: "(bytes \<Rightarrow> bytes \<Rightarrow> int) \<Rightarrow> bytes \<Rightarrow> bytes \<Rightarrow> int" where
  "CompareKeySeq ucmp akey bkey =
     (let r = ucmp (ExtractUserKey akey) (ExtractUserKey bkey)
      in if r = 0
         then let anum = drop_bit 8 (ExtractInternalKeyFooter akey);
                  bnum = drop_bit 8 (ExtractInternalKeyFooter bkey)
              in if anum > bnum then -1 else if anum < bnum then 1 else r
         else r)"

section \<open>The search loop\<close>

lemma upper_bound_loop_spec:
  assumes "first + len \<le> n" "\<And>i j. i \<le> j \<Longrightarrow> j < n \<Longrightarrow> below i \<Longrightarrow> below j"
    "\<forall>i < first. \<not> below i" "\<forall>i. first + len \<le> i \<and> i < n \<longrightarrow> below i"
  shows "upper_bound_loop below first len \<le> n \<and>
    (\<forall>i < upper_bound_loop below first len. \<not> below i) \<and>
    (\<forall>i. upper_bound_loop below first len \<le> i \<and> i < n \<longrightarrow> below i)"
  using assms
proof (induction len arbitrary: first rule: less_induct)
  case (less len)
  show ?case
  proof (cases "len = 0")
    case True
    then show ?thesis using less.prems by (simp add: upper_bound_loop.simps)
  next
    case False
    define m where "m = first + len div 2"
    have m: "m < n" "m < first + len" "first \<le> m" using False less.prems(1) by (auto simp: m_def)
    show ?thesis
    proof (cases "below m")
      case True
      then have eq: "upper_bound_loop below first len = upper_bound_loop below first (len div 2)"
        using False by (simp add: upper_bound_loop.simps [of below first len] Let_def m_def)
      show ?thesis unfolding eq
      proof (rule less.IH)
        show "\<forall>i. first + len div 2 \<le> i \<and> i < n \<longrightarrow> below i"
          using True less.prems(2) by (metis m_def)
        show "first + len div 2 \<le> n" using less.prems(1) by linarith
      qed (use False less.prems(3) in \<open>auto intro: less.prems(2)\<close>)
    next
      case F: False
      let ?r = "len - len div 2 - 1"
      have eq: "upper_bound_loop below first len = upper_bound_loop below (m + 1) ?r"
        using F False by (simp add: upper_bound_loop.simps [of below first len] Let_def m_def)
      have sum: "m + 1 + ?r = first + len" using False by (simp add: m_def)
      show ?thesis unfolding eq
      proof (rule less.IH)
        show "\<forall>i < m + 1. \<not> below i" using F m(1) less.prems(2) by (metis less_Suc_eq_le Suc_eq_plus1)
        show "\<forall>i. m + 1 + ?r \<le> i \<and> i < n \<longrightarrow> below i" unfolding sum by (rule less.prems(4))
        show "m + 1 + ?r \<le> n" unfolding sum by (rule less.prems(1))
      qed (use False in \<open>auto intro: less.prems(2)\<close>)
    qed
  qed
qed

section \<open>The comparator interface\<close>

text \<open>What the code relies on in a comparator: the sign swaps with the arguments and the
  order is transitive. Two keys may compare equal without being equal bytes.\<close>

locale user_comparator =
  fixes cmp :: "'a \<Rightarrow> 'a \<Rightarrow> int"
  assumes cmp_swap: "cmp a b < 0 \<longleftrightarrow> cmp b a > 0"
    and cmp_trans: "cmp a b \<le> 0 \<Longrightarrow> cmp b c \<le> 0 \<Longrightarrow> cmp a c \<le> 0"
begin

lemma cmp_refl [simp]: "cmp a a = 0"
  using cmp_swap [of a a] by linarith

lemma cmp_eq_sym: "cmp a b = 0 \<longleftrightarrow> cmp b a = 0"
  using cmp_swap [of a b] cmp_swap [of b a] by linarith

lemma cmp_le_iff: "cmp a b \<le> 0 \<longleftrightarrow> cmp b a \<ge> 0"
  using cmp_swap [of b a] by linarith

lemma cmp_lt_trans: "cmp a b < 0 \<Longrightarrow> cmp b c < 0 \<Longrightarrow> cmp a c < 0"
  using cmp_trans [of c a b] cmp_swap [of b c] cmp_swap [of a b] cmp_swap [of c b] cmp_le_iff [of c a]
    cmp_le_iff [of a b] by (smt (verit) cmp_trans)

lemma cmp_le_lt_trans: "cmp a b \<le> 0 \<Longrightarrow> cmp b c < 0 \<Longrightarrow> cmp a c < 0"
  by (smt (verit) cmp_trans cmp_swap)

lemma cmp_lt_le_trans: "cmp a b < 0 \<Longrightarrow> cmp b c \<le> 0 \<Longrightarrow> cmp a c < 0"
  by (smt (verit) cmp_trans cmp_swap)

lemma mset_insort_cmp [simp]: "mset (insort_cmp cmp x xs) = add_mset x (mset xs)"
  by (induction xs) auto

lemma mset_sort_cmp [simp]: "mset (sort_cmp cmp xs) = mset xs"
  by (induction xs) auto

lemma set_sort_cmp [simp]: "set (sort_cmp cmp xs) = set xs"
  by (metis mset_sort_cmp set_mset_mset)

lemma length_sort_cmp [simp]: "length (sort_cmp cmp xs) = length xs"
  by (metis mset_sort_cmp size_mset)

lemma sorted_insort_cmp:
  "sorted_wrt (\<lambda>a b. cmp a b \<le> 0) xs \<Longrightarrow> sorted_wrt (\<lambda>a b. cmp a b \<le> 0) (insort_cmp cmp x xs)"
proof (induction xs)
  case Nil
  then show ?case by simp
next
  case (Cons y ys)
  have s: "set (insort_cmp cmp x ys) = insert x (set ys)"
    by (metis mset_insort_cmp set_mset_add_mset_insert set_mset_mset)
  show ?case
  proof (cases "cmp x y \<le> 0")
    case True
    then show ?thesis using Cons.prems cmp_trans [of x y] by auto
  next
    case False
    then have "cmp y x \<le> 0" using cmp_swap [of y x] by linarith
    then show ?thesis using False Cons s by auto
  qed
qed

lemma sorted_sort_cmp: "sorted_wrt (\<lambda>a b. cmp a b \<le> 0) (sort_cmp cmp xs)"
  by (induction xs) (auto intro: sorted_insort_cmp)

text \<open>In a list ascending for the comparator, the search returns the number of elements not
  above the key: those before are at most the key, those from there on are above it.\<close>

lemma upper_bound_spec:
  assumes "sorted_wrt (\<lambda>a b. cmp a b \<le> 0) xs"
  shows "upper_bound cmp key xs \<le> length xs"
    and "i < upper_bound cmp key xs \<Longrightarrow> cmp (xs ! i) key \<le> 0"
    and "upper_bound cmp key xs \<le> i \<Longrightarrow> i < length xs \<Longrightarrow> cmp key (xs ! i) < 0"
proof -
  let ?below = "\<lambda>m. cmp key (xs ! m) < 0"
  have mono: "?below j" if "i \<le> j" "j < length xs" "?below i" for i j
  proof (cases "i = j")
    case False
    then have "cmp (xs ! i) (xs ! j) \<le> 0" using assms that by (simp add: sorted_wrt_iff_nth_less)
    then show ?thesis using that(3) by (rule cmp_lt_le_trans [rotated])
  qed (use that in simp)
  note spec = upper_bound_loop_spec [of 0 "length xs" "length xs" ?below, OF _ mono, folded upper_bound_def]
  show "upper_bound cmp key xs \<le> length xs" using spec by simp
  show "cmp (xs ! i) key \<le> 0" if "i < upper_bound cmp key xs"
    using spec that by (simp add: cmp_le_iff not_less)
  show "cmp key (xs ! i) < 0" if "upper_bound cmp key xs \<le> i" "i < length xs"
    using spec that by simp
qed

end

locale exact_comparator = user_comparator +
  assumes cmp_eq: "cmp a b = 0 \<Longrightarrow> a = b"
begin

lemma cmp_eq_iff [simp]: "cmp a b = 0 \<longleftrightarrow> a = b"
  using cmp_eq by auto

lemma sort_cmp_unique:
  assumes "mset ys = mset xs" "sorted_wrt (\<lambda>a b. cmp a b \<le> 0) ys"
  shows "ys = sort_cmp cmp xs"
proof -
  have anti: "cmp a b \<le> 0 \<Longrightarrow> cmp b a \<le> 0 \<Longrightarrow> a = b" for a b
    using cmp_swap [of a b] cmp_swap [of b a] cmp_eq [of a b] by linarith
  have "xs' = ys'" if "sorted_wrt (\<lambda>a b. cmp a b \<le> 0) xs'" "sorted_wrt (\<lambda>a b. cmp a b \<le> 0) ys'"
    "mset xs' = mset ys'" for xs' ys'
    using that
  proof (induction xs' arbitrary: ys')
    case Nil
    then show ?case by simp
  next
    case (Cons x xs')
    then obtain y zs where ys': "ys' = y # zs" by (cases ys') auto
    have eq: "set (x # xs') = set (y # zs)" using Cons.prems(3) ys' by (metis mset_eq_setD)
    have "cmp x y \<le> 0"
    proof (cases "y = x")
      case False
      then have "y \<in> set xs'" using eq by auto
      then show ?thesis using Cons.prems(1) by simp
    qed simp
    moreover have "cmp y x \<le> 0"
    proof (cases "y = x")
      case False
      then have "x \<in> set zs" using eq by auto
      then show ?thesis using Cons.prems(2) ys' by simp
    qed simp
    ultimately have "x = y" by (rule anti)
    then show ?case using Cons ys' by auto
  qed
  then show ?thesis using assms sorted_sort_cmp [of xs] by auto
qed

end

section \<open>The bytewise comparator\<close>

lemma Slice_compare_simps [simp]:
  "Slice_compare [] [] = 0"
  "Slice_compare [] (b # bs) = -1"
  "Slice_compare (a # as) [] = 1"
  "Slice_compare (a # as) (b # bs) = (if a < b then -1 else if b < a then 1 else Slice_compare as bs)"
  by (auto simp: Slice_compare_def Let_def)

lemma Slice_compare_swap: "Slice_compare a b = - Slice_compare b a"
proof (induction a arbitrary: b)
  case Nil
  then show ?case by (cases b) auto
next
  case (Cons x a)
  then show ?case by (cases b) (auto split: if_splits)
qed

interpretation bytewise: exact_comparator Slice_compare
proof
  show "Slice_compare a b < 0 \<longleftrightarrow> 0 < Slice_compare b a" for a b
    using Slice_compare_swap [of a b] by linarith
  show "Slice_compare a c \<le> 0" if "Slice_compare a b \<le> 0" "Slice_compare b c \<le> 0" for a b c
    using that
  proof (induction a arbitrary: b c)
    case Nil
    then show ?case by (cases c) auto
  next
    case (Cons x a)
    then show ?case by (cases b; cases c) (auto split: if_splits)
  qed
  show "a = b" if "Slice_compare a b = 0" for a b
    using that
  proof (induction a arbitrary: b)
    case Nil
    then show ?case by (cases b) auto
  next
    case (Cons x a)
    then show ?case by (cases b) (auto split: if_splits)
  qed
qed

section \<open>Packing and the internal order\<close>

lemma UnPack_PackSequenceAndType:
  assumes "seq \<le> kMaxSequenceNumber"
  shows "UnPackSequenceAndType (PackSequenceAndType seq t) = (seq, t)"
proof -
  have "seq < 2 ^ 56" using assms by (simp add: kMaxSequenceNumber_def word_le_nat_alt word_less_nat_alt)
  then have "take_bit 56 seq = seq" by (simp add: take_bit_eq_mask less_mask_eq)
  then have top: "bit seq n \<Longrightarrow> n < 56" for n by (metis bit_take_bit_iff)
  have "drop_bit 8 (push_bit 8 seq OR ucast t) = seq"
    by (rule bit_word_eqI) (use top in \<open>fastforce simp: bit_simps dest: bit_imp_le_length\<close>)
  moreover have "ucast ((push_bit 8 seq OR ucast t) AND 0xff) = t"
    by (rule bit_word_eqI) (auto simp: and_ff bit_simps)
  ultimately show ?thesis by (simp add: UnPackSequenceAndType_def PackSequenceAndType_def)
qed

lemma MakeInternalKey_parts [simp]:
  "ExtractUserKey (MakeInternalKey uk seq t) = uk"
  "ExtractInternalKeyFooter (MakeInternalKey uk seq t) = PackSequenceAndType seq t"
  by (simp_all add: ExtractUserKey_def ExtractInternalKeyFooter_def MakeInternalKey_def)

lemma MakeInternalKey_seqno [simp]:
  "seq \<le> kMaxSequenceNumber \<Longrightarrow> GetInternalKeySeqno (MakeInternalKey uk seq t) = seq"
  "seq \<le> kMaxSequenceNumber \<Longrightarrow> ExtractValueType (MakeInternalKey uk seq t) = t"
  using UnPack_PackSequenceAndType [of seq t]
  by (simp_all add: GetInternalKeySeqno_def ExtractValueType_def UnPackSequenceAndType_def)

text \<open>The internal comparator keeps the promise whenever the user comparator does.\<close>

locale user_key_comparator = user_comparator cmp for cmp :: "bytes \<Rightarrow> bytes \<Rightarrow> int"

sublocale user_key_comparator \<subseteq> ikey: user_comparator "InternalKeyCompare cmp"
proof
  show "InternalKeyCompare cmp a b < 0 \<longleftrightarrow> 0 < InternalKeyCompare cmp b a" for a b
    using cmp_swap [of "ExtractUserKey a" "ExtractUserKey b"]
      cmp_swap [of "ExtractUserKey b" "ExtractUserKey a"]
    by (auto simp: InternalKeyCompare_def Let_def)
  show "InternalKeyCompare cmp a c \<le> 0"
    if ab: "InternalKeyCompare cmp a b \<le> 0" and bc: "InternalKeyCompare cmp b c \<le> 0" for a b c
  proof -
    let ?u = ExtractUserKey and ?f = ExtractInternalKeyFooter
    have le: "cmp (?u a) (?u b) \<le> 0" "cmp (?u b) (?u c) \<le> 0"
      using ab bc by (auto simp: InternalKeyCompare_def Let_def split: if_splits)
    show ?thesis
    proof (cases "cmp (?u a) (?u c) = 0")
      case True
      then have "cmp (?u c) (?u a) \<le> 0" using cmp_eq_sym [of "?u a" "?u c"] by simp
      then have "cmp (?u b) (?u a) \<le> 0" "cmp (?u c) (?u b) \<le> 0"
        using cmp_trans [OF le(2)] cmp_trans [OF _ le(1)] by auto
      then have "cmp (?u a) (?u b) = 0" "cmp (?u b) (?u c) = 0" using le cmp_le_iff by force+
      then have "?f c \<le> ?f a" using ab bc by (auto simp: InternalKeyCompare_def Let_def split: if_splits)
      then show ?thesis using True by (auto simp: InternalKeyCompare_def Let_def)
    next
      case False
      then show ?thesis using cmp_trans [OF le] by (simp add: InternalKeyCompare_def Let_def)
    qed
  qed
qed

interpretation bytewise_key: user_key_comparator Slice_compare
  by unfold_locales

end
