(* ===== verification/ZfWalManager.thy ===== *)
theory ZfWalManager
  imports ZfWalScanner ZfKeyFormat
begin

text \<open>
  \<^verbatim>\<open>PartitionedWalManager\<close> of \<^verbatim>\<open>zeroflush/wal_manager.h\<close> and \<^verbatim>\<open>wal_manager.cc\<close>: one
  append-only file per partition and generation with a write buffer in front of it. Each operation
  takes the file store and the manager and returns both with its status. Sizes and offsets are
  natural numbers (a file is shorter than \<open>2 ^ 64\<close> bytes); generations and the byte counters that
  the source keeps in atomics have the source's width. The partition map is an association list
  whose order is the iteration order of the \<^verbatim>\<open>unordered_map\<close>.
\<close>

section \<open>State\<close>

record WalRecordRef =
  r_part_id :: u32
  r_gen :: u32
  r_offset :: nat

record FreezeResult =
  fr_old_gen :: u32
  fr_sealed_bytes :: nat
  fr_sealed_path :: string

text \<open>A handle is the path it was opened on.\<close>

record Partition =
  pt_part_id :: u32
  pt_wfile :: "string option"
  pt_rfile :: "string option"
  pt_buf :: bytes
  pt_flushed_size :: nat
  pt_total_size :: nat
  pt_active_bytes :: u64
  pt_gen :: u32

record PartitionedWalManager =
  wm_dir :: string
  wm_partitions :: u32
  wm_target :: u64
  wm_parts :: "(u32 \<times> Partition) list"
  wm_total_active :: u64
  wm_any_over :: bool

definition new_Partition :: "u32 \<Rightarrow> Partition" where
  "new_Partition part =
     \<lparr> pt_part_id = part, pt_wfile = None, pt_rfile = None, pt_buf = [], pt_flushed_size = 0,
       pt_total_size = 0, pt_active_bytes = 0, pt_gen = 0 \<rparr>"

definition new_WalManager :: "string \<Rightarrow> u32 \<Rightarrow> u64 \<Rightarrow> PartitionedWalManager" where
  "new_WalManager dir partitions target =
     \<lparr> wm_dir = dir, wm_partitions = partitions, wm_target = target,
       wm_parts = map (\<lambda>i. (of_nat i, new_Partition (of_nat i))) [0..<unat partitions],
       wm_total_active = 0, wm_any_over = False \<rparr>"

definition find_part :: "PartitionedWalManager \<Rightarrow> u32 \<Rightarrow> Partition option" where
  "find_part m part = map_of (wm_parts m) part"

definition set_part :: "PartitionedWalManager \<Rightarrow> u32 \<Rightarrow> Partition \<Rightarrow> PartitionedWalManager" where
  "set_part m part p = m \<lparr> wm_parts := AList.update part p (wm_parts m) \<rparr>"

definition FileName :: "string \<Rightarrow> Partition \<Rightarrow> string" where
  "FileName dir p = MakeFileName dir (pt_part_id p) (pt_gen p)"

section \<open>Handles and buffers of one partition\<close>

definition OpenGen :: "env \<Rightarrow> string \<Rightarrow> Partition \<Rightarrow> unit zf_result \<times> env \<times> Partition" where
  "OpenGen e dir p =
     (case NewWritableFile e (FileName dir p) of
        (Inl er, e) \<Rightarrow> (Inl er, e, p)
      | (Inr _, e) \<Rightarrow>
          let p = p \<lparr> pt_wfile := Some (FileName dir p) \<rparr>
          in case NewRandomAccessFile e (FileName dir p) of
               Inl er \<Rightarrow> (Inl er, e, p)
             | Inr _ \<Rightarrow> (Inr (), e, p \<lparr> pt_rfile := Some (FileName dir p) \<rparr>))"

definition EnsureOpenForWrite :: "env \<Rightarrow> string \<Rightarrow> Partition \<Rightarrow> unit zf_result \<times> env \<times> Partition" where
  "EnsureOpenForWrite e dir p =
     (if pt_wfile p \<noteq> None then (Inr (), e, p)
      else case ReopenWritableFile e (FileName dir p) of
             (Inl er, e) \<Rightarrow> (Inl er, e, p)
           | (Inr _, e) \<Rightarrow>
               let p = p \<lparr> pt_wfile := Some (FileName dir p) \<rparr>
               in if pt_rfile p \<noteq> None then (Inr (), e, p)
                  else case NewRandomAccessFile e (FileName dir p) of
                         Inl er \<Rightarrow> (Inl er, e, p)
                       | Inr _ \<Rightarrow> (Inr (), e, p \<lparr> pt_rfile := Some (FileName dir p) \<rparr>))"

definition FlushBuf :: "env \<Rightarrow> Partition \<Rightarrow> unit zf_result \<times> env \<times> Partition" where
  "FlushBuf e p =
     (if pt_buf p = [] then (Inr (), e, p)
      else case pt_wfile p of
             None \<Rightarrow> (Inl (CppException ''null wfile''), e, p)
           | Some f \<Rightarrow>
               (case file_Append e f (pt_buf p) of
                  (Inl er, e) \<Rightarrow> (Inl er, e, p)
                | (Inr _, e) \<Rightarrow> (Inr (), e, p \<lparr> pt_flushed_size := pt_total_size p, pt_buf := [] \<rparr>)))"

section \<open>Append\<close>

definition append_header :: "bytes \<Rightarrow> bytes \<Rightarrow> byte \<Rightarrow> u64 \<Rightarrow> ZfRecordHeader" where
  "append_header key val t seq =
     \<lparr> h_magic = kZfMagic, h_cf_id = 0, h_type = t, h_flags = 0, h_key_len = of_nat (length key),
       h_val_len = of_nat (length val), h_seq = seq \<rparr>"

definition append_buffer :: "PartitionedWalManager \<Rightarrow> Partition \<Rightarrow> bytes \<Rightarrow> PartitionedWalManager \<times> Partition" where
  "append_buffer m p rec =
     (let active = pt_active_bytes p + of_nat (length rec)
      in (m \<lparr> wm_total_active := wm_total_active m + of_nat (length rec),
              wm_any_over := (wm_any_over m \<or> wm_target m \<le> active) \<rparr>,
          p \<lparr> pt_buf := pt_buf p @ rec, pt_total_size := pt_total_size p + length rec,
              pt_active_bytes := active \<rparr>))"

definition append_to :: "env \<Rightarrow> PartitionedWalManager \<Rightarrow> u32 \<Rightarrow> Partition \<Rightarrow> bytes \<Rightarrow>
    WalRecordRef zf_result \<times> env \<times> PartitionedWalManager" where
  "append_to e m part p rec =
     (case EnsureOpenForWrite e (wm_dir m) p of
        (Inl er, e, p) \<Rightarrow> (Inl er, e, set_part m part p)
      | (Inr _, e, p) \<Rightarrow>
          let offset = pt_total_size p; (m, p) = append_buffer m p rec;
              ref = \<lparr> r_part_id = part, r_gen = pt_gen p, r_offset = offset \<rparr>
          in if 4096 \<le> length (pt_buf p)
             then case FlushBuf e p of
                    (Inl er, e, p) \<Rightarrow> (Inl er, e, set_part m part p)
                  | (Inr _, e, p) \<Rightarrow> (Inr ref, e, set_part m part p)
             else (Inr ref, e, set_part m part p))"

definition Append :: "env \<Rightarrow> PartitionedWalManager \<Rightarrow> u32 \<Rightarrow> bytes \<Rightarrow> bytes \<Rightarrow> byte \<Rightarrow> u64 \<Rightarrow>
    WalRecordRef zf_result \<times> env \<times> PartitionedWalManager" where
  "Append e m part key val t seq =
     (let rec = EncodeZfRecord (append_header key val t seq) key val
      in case find_part m part of
           Some p \<Rightarrow> append_to e m part p rec
         | None \<Rightarrow>
             if part = kRangeDelPartId
             then append_to e (set_part m part (new_Partition part)) part (new_Partition part) rec
             else (Inl (InvalidArgument (''ZF Append: unknown partition '' @ to_string (unat part))), e, m))"

section \<open>Sync, Close, Freeze\<close>

definition Sync :: "env \<Rightarrow> PartitionedWalManager \<Rightarrow> u32 \<Rightarrow> unit zf_result \<times> env \<times> PartitionedWalManager" where
  "Sync e m part =
     (case find_part m part of
        None \<Rightarrow> (Inl (InvalidArgument (''ZF Sync: unknown partition '' @ to_string (unat part))), e, m)
      | Some p \<Rightarrow>
          (case EnsureOpenForWrite e (wm_dir m) p of
             (Inl er, e, p) \<Rightarrow> (Inl er, e, set_part m part p)
           | (Inr _, e, p) \<Rightarrow>
               (case FlushBuf e p of
                  (Inl er, e, p) \<Rightarrow> (Inl er, e, set_part m part p)
                | (Inr _, e, p) \<Rightarrow>
                    (case file_Sync e (the (pt_wfile p)) of (r, e) \<Rightarrow> (r, e, set_part m part p)))))"

fun sync_parts :: "env \<Rightarrow> PartitionedWalManager \<Rightarrow> u32 list \<Rightarrow> unit zf_result \<times> env \<times> PartitionedWalManager" where
  "sync_parts e m [] = (Inr (), e, m)"
| "sync_parts e m (part # ps) =
     (case Sync e m part of (Inl er, e, m) \<Rightarrow> (Inl er, e, m) | (Inr _, e, m) \<Rightarrow> sync_parts e m ps)"

definition SyncAll :: "env \<Rightarrow> PartitionedWalManager \<Rightarrow> unit zf_result \<times> env \<times> PartitionedWalManager" where
  "SyncAll e m = sync_parts e m (map fst (wm_parts m))"

definition close_part :: "env \<Rightarrow> Partition \<Rightarrow> unit zf_result \<times> env \<times> Partition" where
  "close_part e p =
     (case FlushBuf e p of
        (Inl er, e, p) \<Rightarrow> (Inl er, e, p)
      | (Inr _, e, p) \<Rightarrow>
          (case pt_wfile p of
             None \<Rightarrow> (Inr (), e, p)
           | Some f \<Rightarrow> (case file_Sync e f of (r, e) \<Rightarrow> (r, e, p))))"

fun close_parts :: "env \<Rightarrow> PartitionedWalManager \<Rightarrow> (u32 \<times> Partition) list \<Rightarrow> unit zf_result \<times> env \<times> PartitionedWalManager" where
  "close_parts e m [] = (Inr (), e, m)"
| "close_parts e m ((part, p) # ps) =
     (case close_part e p of
        (Inl er, e, p) \<Rightarrow> (Inl er, e, set_part m part p)
      | (Inr _, e, p) \<Rightarrow> close_parts e (set_part m part p) ps)"

definition Close :: "env \<Rightarrow> PartitionedWalManager \<Rightarrow> unit zf_result \<times> env \<times> PartitionedWalManager" where
  "Close e m = close_parts e m (wm_parts m)"

text \<open>\<^verbatim>\<open>Freeze\<close>. The results of the flush, the sync and of opening the next generation are
  not looked at. For an unknown partition the source returns an uninitialised result.\<close>

definition seal_files :: "env \<Rightarrow> Partition \<Rightarrow> env \<times> Partition" where
  "seal_files e p =
     (case pt_wfile p of
        None \<Rightarrow> (e, p)
      | Some f \<Rightarrow>
          (case FlushBuf e p of (_, e, p) \<Rightarrow>
           case file_Sync e f of (_, e) \<Rightarrow> (e, p \<lparr> pt_wfile := None \<rparr>)))"

definition Freeze :: "env \<Rightarrow> PartitionedWalManager \<Rightarrow> u32 \<Rightarrow> FreezeResult option \<times> env \<times> PartitionedWalManager" where
  "Freeze e m part =
     (case find_part m part of
        None \<Rightarrow> (None, e, m)
      | Some p \<Rightarrow>
          let (e, p) = seal_files e p;
              fr = \<lparr> fr_old_gen = pt_gen p, fr_sealed_bytes = pt_total_size p,
                     fr_sealed_path = MakeFileName (wm_dir m) part (pt_gen p) \<rparr>;
              m = m \<lparr> wm_total_active := wm_total_active m - of_nat (pt_total_size p) \<rparr>;
              p = p \<lparr> pt_rfile := None, pt_gen := pt_gen p + 1, pt_flushed_size := 0, pt_total_size := 0,
                      pt_buf := [], pt_active_bytes := 0 \<rparr>;
              (_, e, p) = OpenGen e (wm_dir m) p
          in (Some fr, e, set_part m part p))"

section \<open>Reads\<close>

text \<open>What a reader does with the bytes of one record: a deletion reads as the empty value.\<close>

definition finish_read :: "bytes \<Rightarrow> bytes zf_result" where
  "finish_read rec =
     res_bind (DecodeZfRecord rec) (\<lambda>(h, k, v). if h_type h = kTypeDeletion then Inr [] else Inr v)"

definition ReadRecord :: "env \<Rightarrow> PartitionedWalManager \<Rightarrow> WalRecordRef \<Rightarrow> bytes zf_result" where
  "ReadRecord e m ref =
     (case find_part m (r_part_id ref) of
        None \<Rightarrow> Inl (InvalidArgument (''ZF ReadRecord: unknown partition '' @ to_string (unat (r_part_id ref))))
      | Some p \<Rightarrow>
          if pt_flushed_size p \<le> r_offset ref
          then let in_buf = r_offset ref - pt_flushed_size p
               in if length (pt_buf p) < in_buf + 24 then Inl (Corruption ''ZF record offset beyond buffer'')
                  else let base = drop in_buf (pt_buf p); total = record_total base
                       in if length (pt_buf p) < in_buf + total then Inl (Corruption ''ZF record truncated in buffer'')
                          else finish_read (take total base)
          else case pt_rfile p of
                 None \<Rightarrow> Inl (CppException ''null rfile'')
               | Some f \<Rightarrow>
                   res_bind (file_Read e f (r_offset ref) 24) (\<lambda>result.
                     if length result < 24 then Inl (Corruption ''ZF record header truncated'')
                     else let total = record_total result
                          in if total < 24 then Inl OutOfBounds
                             else res_bind (file_Read e f (r_offset ref + 24) (total - 24)) (\<lambda>rest.
                               if length rest < total - 24 then Inl (Corruption ''ZF record truncated'')
                               else finish_read (result @ rest))))"

definition kInlineRead :: nat where "kInlineRead = 24 + 4096"

text \<open>The read from a sealed file: one read of header and inline window, a second one for a
  longer record.\<close>

definition ReadFromSealed :: "env \<Rightarrow> string \<Rightarrow> WalRecordRef \<Rightarrow> bytes zf_result" where
  "ReadFromSealed e f ref =
     res_bind (file_Read e f (r_offset ref) kInlineRead) (\<lambda>result.
       if length result < 24 then Inl (Corruption ''ZF sealed record header truncated'')
       else let total = record_total result
            in if total \<le> length result then finish_read (take total result)
               else res_bind (file_Read e f (r_offset ref + length result) (total - length result)) (\<lambda>rest.
                 if length rest < total - length result then Inl (Corruption ''ZF sealed record truncated'')
                 else finish_read (result @ rest)))"

section \<open>Opening\<close>

definition pair_cmp :: "u32 \<times> u32 \<Rightarrow> u32 \<times> u32 \<Rightarrow> int" where
  "pair_cmp a b =
     (if fst a < fst b then -1 else if fst b < fst a then 1
      else if snd a < snd b then -1 else if snd b < snd a then 1 else 0)"

fun parse_names :: "string list \<Rightarrow> (u32 \<times> u32) list zf_result" where
  "parse_names [] = Inr []"
| "parse_names (n # ns) =
     res_bind (ParseFileName n) (\<lambda>pg. res_bind (parse_names ns) (\<lambda>out.
       Inr (case pg of None \<Rightarrow> out | Some x \<Rightarrow> x # out)))"

definition ListFiles :: "env \<Rightarrow> string \<Rightarrow> (u32 \<times> u32) list zf_result" where
  "ListFiles e dir =
     (case env_GetChildren e dir of
        Inl (NotFound _) \<Rightarrow> Inr []
      | Inl er \<Rightarrow> Inl er
      | Inr children \<Rightarrow> res_bind (parse_names children) (\<lambda>out. Inr (sort_cmp pair_cmp out)))"

definition MaxGen :: "u32 \<Rightarrow> (u32 \<times> u32) list \<Rightarrow> u32" where
  "MaxGen part all =
     (case foldl (\<lambda>(mx, found) p. if fst p = part \<and> snd p > mx then (snd p, True) else (mx, found))
             (0, False) all of
        (mx, found) \<Rightarrow> if found then mx else 0)"

definition open_part :: "env \<Rightarrow> PartitionedWalManager \<Rightarrow> (u32 \<times> u32) list \<Rightarrow> u32 \<Rightarrow> unit zf_result \<times> PartitionedWalManager" where
  "open_part e m all i =
     (case find_part m i of
        None \<Rightarrow> (Inr (), m)
      | Some p \<Rightarrow>
          if \<not> list_ex (\<lambda>fg. fst fg = i) all
          then (Inr (), set_part m i (p \<lparr> pt_gen := 0, pt_flushed_size := 0, pt_total_size := 0, pt_buf := [] \<rparr>))
          else
           let mg = MaxGen i all; p = p \<lparr> pt_gen := mg \<rparr>; fname = MakeFileName (wm_dir m) i mg
           in case NewRandomAccessFile e fname of
                Inl er \<Rightarrow> (Inl er, set_part m i p)
              | Inr _ \<Rightarrow>
                  let p = p \<lparr> pt_rfile := Some fname \<rparr>
                  in case env_GetFileSize e fname of
                       Inl er \<Rightarrow> (Inl er, set_part m i p)
                     | Inr sz \<Rightarrow>
                         (Inr (), (set_part m i (p \<lparr> pt_flushed_size := sz, pt_total_size := sz,
                                     pt_active_bytes := of_nat sz, pt_buf := [] \<rparr>))
                                  \<lparr> wm_total_active := wm_total_active m + of_nat sz \<rparr>))"

fun open_parts :: "env \<Rightarrow> PartitionedWalManager \<Rightarrow> (u32 \<times> u32) list \<Rightarrow> u32 list \<Rightarrow> unit zf_result \<times> PartitionedWalManager" where
  "open_parts e m all [] = (Inr (), m)"
| "open_parts e m all (i # is) =
     (case open_part e m all i of (Inl er, m) \<Rightarrow> (Inl er, m) | (Inr _, m) \<Rightarrow> open_parts e m all is)"

definition wal_Open :: "env \<Rightarrow> PartitionedWalManager \<Rightarrow> unit zf_result \<times> PartitionedWalManager" where
  "wal_Open e m =
     (case env_CreateDirIfMissing e (wm_dir m) of
        Inl er \<Rightarrow> (Inl er, m)
      | Inr _ \<Rightarrow>
          (case ListFiles e (wm_dir m) of
             Inl er \<Rightarrow> (Inl er, m)
           | Inr all \<Rightarrow> open_parts e m all (map of_nat [0..<unat (wm_partitions m)])))"

section \<open>Accessors\<close>

definition wal_GetFileSize :: "env \<Rightarrow> string \<Rightarrow> u32 \<Rightarrow> u32 \<Rightarrow> nat" where
  "wal_GetFileSize e dir part gen =
     (case env_GetFileSize e (MakeFileName dir part gen) of Inl _ \<Rightarrow> 0 | Inr sz \<Rightarrow> sz)"

definition ActiveGen :: "PartitionedWalManager \<Rightarrow> u32 \<Rightarrow> u32" where
  "ActiveGen m part = (case find_part m part of None \<Rightarrow> 0 | Some p \<Rightarrow> pt_gen p)"

definition ActiveSize :: "PartitionedWalManager \<Rightarrow> u32 \<Rightarrow> nat" where
  "ActiveSize m part = (case find_part m part of None \<Rightarrow> 0 | Some p \<Rightarrow> pt_total_size p)"

definition EnsurePartition :: "PartitionedWalManager \<Rightarrow> u32 \<Rightarrow> PartitionedWalManager" where
  "EnsurePartition m part = (if find_part m part \<noteq> None then m else set_part m part (new_Partition part))"

definition HasPartition :: "PartitionedWalManager \<Rightarrow> u32 \<Rightarrow> bool" where
  "HasPartition m part \<longleftrightarrow> find_part m part \<noteq> None"

definition AllPartitionIds :: "PartitionedWalManager \<Rightarrow> u32 list" where
  "AllPartitionIds m = sort (map fst (wm_parts m))"

definition ClearOverTargetFlag :: "PartitionedWalManager \<Rightarrow> PartitionedWalManager" where
  "ClearOverTargetFlag m = m \<lparr> wm_any_over := False \<rparr>"

section \<open>The log of a partition\<close>

text \<open>The bytes of the active generation: what the file holds, then what the buffer holds.\<close>

definition file_bytes :: "env \<Rightarrow> string \<Rightarrow> bytes" where
  "file_bytes e path = (case e_content e path of None \<Rightarrow> [] | Some c \<Rightarrow> c)"

definition part_log :: "env \<Rightarrow> string \<Rightarrow> Partition \<Rightarrow> bytes" where
  "part_log e dir p = file_bytes e (FileName dir p) @ pt_buf p"

definition part_wf :: "env \<Rightarrow> string \<Rightarrow> Partition \<Rightarrow> bool" where
  "part_wf e dir p \<longleftrightarrow>
     pt_total_size p = pt_flushed_size p + length (pt_buf p) \<and>
     pt_flushed_size p = length (file_bytes e (FileName dir p)) \<and>
     pt_wfile p \<in> {None, Some (FileName dir p)} \<and> pt_rfile p \<in> {None, Some (FileName dir p)} \<and>
     (pt_wfile p = None \<longrightarrow> pt_buf p = []) \<and>
     (pt_wfile p \<noteq> None \<or> pt_rfile p \<noteq> None \<longrightarrow> e_content e (FileName dir p) \<noteq> None) \<and>
     pt_active_bytes p = of_nat (pt_total_size p)"

text \<open>An operation on one file leaves the others and the fault pattern alone.\<close>

definition only_file :: "string \<Rightarrow> env \<Rightarrow> env \<Rightarrow> bool" where
  "only_file f e e' \<longleftrightarrow> e_fail e' = e_fail e \<and> (\<forall>q. q \<noteq> f \<longrightarrow> e_content e' q = e_content e q)"

lemma only_file_refl [simp]: "only_file f e e"
  by (simp add: only_file_def)

lemma only_file_trans: "only_file f e e' \<Longrightarrow> only_file f e' e'' \<Longrightarrow> only_file f e e''"
  by (simp add: only_file_def)

lemma part_wf_only_file:
  assumes "only_file f e e'" "FileName dir p \<noteq> f"
  shows "part_wf e' dir p = part_wf e dir p" and "part_log e' dir p = part_log e dir p"
  using assms by (simp_all add: part_wf_def part_log_def file_bytes_def only_file_def)

text \<open>What the handle and buffer helpers keep: identity and generation, well-formedness, and the
  log; the flush moves bytes from the buffer to the file.\<close>

definition part_keeps :: "string \<Rightarrow> env \<Rightarrow> Partition \<Rightarrow> env \<Rightarrow> Partition \<Rightarrow> bool" where
  "part_keeps dir e p e' p' \<longleftrightarrow>
     pt_part_id p' = pt_part_id p \<and> pt_gen p' = pt_gen p \<and> part_wf e' dir p' \<and>
     part_log e' dir p' = part_log e dir p \<and> pt_total_size p' = pt_total_size p \<and>
     pt_active_bytes p' = pt_active_bytes p \<and> only_file (FileName dir p) e e' \<and>
     (pt_rfile p \<noteq> None \<longrightarrow> pt_rfile p' \<noteq> None) \<and> (pt_wfile p \<noteq> None \<longrightarrow> pt_wfile p' \<noteq> None) \<and>
     (pt_flushed_size p' = pt_flushed_size p \<or> pt_buf p' = [])"

lemma part_keeps_FileName: "part_keeps dir e p e' p' \<Longrightarrow> FileName dir p' = FileName dir p"
  by (simp add: part_keeps_def FileName_def)

lemma part_keeps_refl: "part_wf e dir p \<Longrightarrow> part_keeps dir e p e p"
  by (simp add: part_keeps_def)

lemma part_keeps_trans:
  assumes a: "part_keeps dir e p e1 p1" and b: "part_keeps dir e1 p1 e2 p2"
  shows "part_keeps dir e p e2 p2"
proof -
  have "pt_flushed_size p1 = pt_flushed_size p \<or> pt_buf p1 = []" "pt_flushed_size p2 = pt_flushed_size p1 \<or> pt_buf p2 = []"
    "pt_total_size p2 = pt_total_size p1" "part_wf e1 dir p1" "part_wf e2 dir p2"
    using a b by (simp_all add: part_keeps_def)
  moreover from this(4,5) have "pt_total_size p1 = pt_flushed_size p1 + length (pt_buf p1)"
    "pt_total_size p2 = pt_flushed_size p2 + length (pt_buf p2)" by (simp_all add: part_wf_def)
  ultimately have "pt_flushed_size p2 = pt_flushed_size p \<or> pt_buf p2 = []" by auto
  then show ?thesis
    using a b part_keeps_FileName [OF a] only_file_trans [of "FileName dir p" e e1 e2]
    by (simp add: part_keeps_def)
qed

lemma EnsureOpenForWrite_keeps:
  assumes "EnsureOpenForWrite e dir p = (r, e', p')" "part_wf e dir p"
  shows "part_keeps dir e p e' p'" and "is_ok r \<Longrightarrow> pt_wfile p' = Some (FileName dir p)"
    and "is_ok r \<Longrightarrow> pt_wfile p = None \<Longrightarrow> pt_rfile p' \<noteq> None"
    and "\<forall>op. \<not> e_fail e op \<Longrightarrow> is_ok r" and "pt_flushed_size p' = pt_flushed_size p"
  using assms
  by (auto simp: EnsureOpenForWrite_def ReopenWritableFile_def NewRandomAccessFile_def Let_def
      part_keeps_def part_wf_def part_log_def file_bytes_def FileName_def only_file_def
      split: if_splits sum.splits option.splits)

lemma FlushBuf_wfile: "FlushBuf e p = (r, e', p') \<Longrightarrow> pt_wfile p' = pt_wfile p"
  by (auto simp: FlushBuf_def split: if_splits option.splits prod.splits sum.splits)

lemma FlushBuf_keeps:
  assumes "FlushBuf e p = (r, e', p')" "part_wf e dir p" "whole_appends e \<or> is_ok r"
  shows "part_keeps dir e p e' p'" and "is_ok r \<Longrightarrow> pt_buf p' = []"
    and "\<forall>op. \<not> e_fail e op \<Longrightarrow> is_ok r" and "pt_wfile p' = pt_wfile p"
  using assms
  by (auto simp: FlushBuf_def file_Append_def is_ok_def Let_def part_keeps_def part_wf_def part_log_def
      file_bytes_def FileName_def only_file_def split: if_splits option.splits prod.splits sum.splits)

lemma file_Sync_content:
  assumes "file_Sync e f = (r, e')"
  shows "e_content e' = e_content e" and "e_fail e' = e_fail e" and "only_file f' e e'"
    and "is_ok r \<Longrightarrow> e_durable e' f = length (file_bytes e f)"
  using assms
  by (auto simp: file_Sync_def only_file_def e_durable_def update_conv' file_bytes_def
      split: if_splits option.splits)

lemma part_wf_same_content:
  "e_content e' = e_content e \<Longrightarrow> part_wf e' dir p = part_wf e dir p"
  "e_content e' = e_content e \<Longrightarrow> part_log e' dir p = part_log e dir p"
  by (simp_all add: part_wf_def part_log_def file_bytes_def)

section \<open>The manager's invariant\<close>

definition wm_paths_free :: "env \<Rightarrow> PartitionedWalManager \<Rightarrow> bool" where
  "wm_paths_free e m \<longleftrightarrow>
     (\<forall>part gen. find_part m part = None \<longrightarrow> e_content e (MakeFileName (wm_dir m) part gen) = None)"

definition wm_counter :: "PartitionedWalManager \<Rightarrow> u64" where
  "wm_counter m = sum_list (map (\<lambda>(_, p). pt_active_bytes p) (wm_parts m))"

definition mgr_wf :: "env \<Rightarrow> PartitionedWalManager \<Rightarrow> bool" where
  "mgr_wf e m \<longleftrightarrow>
     distinct (map fst (wm_parts m)) \<and>
     (\<forall>part p. find_part m part = Some p \<longrightarrow> pt_part_id p = part \<and> part_wf e (wm_dir m) p) \<and>
     wm_paths_free e m \<and> wm_total_active m = wm_counter m"

lemma find_set_part [simp]: "find_part (set_part m part p) q = (if q = part then Some p else find_part m q)"
  by (simp add: find_part_def set_part_def update_conv')

lemma set_part_fields [simp]:
  "wm_dir (set_part m part p) = wm_dir m" "wm_total_active (set_part m part p) = wm_total_active m"
  "wm_any_over (set_part m part p) = wm_any_over m" "wm_target (set_part m part p) = wm_target m"
  by (simp_all add: set_part_def)

lemma find_part_fields [simp]:
  "find_part (m\<lparr>wm_total_active := x\<rparr>) q = find_part m q"
  "find_part (m\<lparr>wm_any_over := b\<rparr>) q = find_part m q"
  by (simp_all add: find_part_def)

lemma set_part_set_part [simp]: "set_part (set_part m part p) part p' = set_part m part p'"
proof -
  have "AList.update k v (AList.update k w al) = AList.update k v al" for k and v w :: Partition and al
    by (induction al) auto
  then show ?thesis by (simp add: set_part_def)
qed

lemma sum_update:
  fixes f :: "'v \<Rightarrow> 'a::ab_group_add"
  assumes "distinct (map fst al)"
  shows "sum_list (map (\<lambda>(_, p). f p) (AList.update k v al)) =
    sum_list (map (\<lambda>(_, p). f p) al) - (case map_of al k of None \<Rightarrow> 0 | Some w \<Rightarrow> f w) + f v"
  using assms by (induction al) (auto split: option.splits dest: map_of_SomeD)

lemma wm_counter_set_part:
  assumes "distinct (map fst (wm_parts m))"
  shows "wm_counter (set_part m part p) =
    wm_counter m - (case find_part m part of None \<Rightarrow> 0 | Some w \<Rightarrow> pt_active_bytes w) + pt_active_bytes p"
  using sum_update [OF assms, of pt_active_bytes part p]
  by (simp add: wm_counter_def set_part_def find_part_def)

lemma wm_counter_fields [simp]:
  "wm_counter (m\<lparr>wm_total_active := x\<rparr>) = wm_counter m" "wm_counter (m\<lparr>wm_any_over := b\<rparr>) = wm_counter m"
  by (simp_all add: wm_counter_def)

lemma distinct_set_part: "distinct (map fst (wm_parts m)) \<Longrightarrow> distinct (map fst (wm_parts (set_part m part p)))"
  by (simp add: set_part_def distinct_update)

text \<open>Replacing one partition: if its new state is well formed, only its own file changed and the
  total counter moved with the partition's, the manager's invariant is kept.\<close>

lemma mgr_wf_set_part:
  assumes wf: "mgr_wf e m" and p: "find_part m part = Some p \<or> find_part m part = None \<and> pt_active_bytes p = 0"
    and id: "pt_part_id p' = part" and wf': "part_wf e' (wm_dir m) p'"
    and frame: "\<And>q. q \<notin> {MakeFileName (wm_dir m) part g | g. True} \<Longrightarrow> e_content e' q = e_content e q"
    and m': "m' = (set_part m part p')\<lparr>wm_total_active := wm_total_active m - pt_active_bytes p + pt_active_bytes p', wm_any_over := b\<rparr>"
  shows "mgr_wf e' m'"
proof -
  have "part_wf e' (wm_dir m) w" if "find_part m q = Some w" "q \<noteq> part" for q w
  proof -
    have w: "part_wf e (wm_dir m) w" "pt_part_id w = q" using wf that(1) by (auto simp: mgr_wf_def)
    have "e_content e' (FileName (wm_dir m) w) = e_content e (FileName (wm_dir m) w)"
      by (rule frame) (use w(2) that(2) in \<open>auto simp: FileName_def\<close>)
    then show ?thesis using w(1) by (simp add: part_wf_def file_bytes_def)
  qed
  moreover have "wm_paths_free e' m'"
    using wf frame by (auto simp: wm_paths_free_def mgr_wf_def m' split: if_splits)
  moreover have "wm_total_active m' = wm_counter m'"
    using wf p wm_counter_set_part [of m part p'] by (auto simp: mgr_wf_def m')
  ultimately show ?thesis
    using wf id wf' distinct_set_part [of m part p'] by (auto simp: mgr_wf_def m')
qed

lemma frame_of_only_file:
  "only_file (FileName dir p) e e' \<Longrightarrow> pt_part_id p = part \<Longrightarrow>
   q \<notin> {MakeFileName dir part g | g. True} \<Longrightarrow> e_content e' q = e_content e q"
  by (auto simp: only_file_def FileName_def)

lemma mgr_wf_only_file:
  assumes wf: "mgr_wf e m" and p: "find_part m part = Some p \<or> find_part m part = None \<and> pt_active_bytes p = 0"
    and "only_file (FileName (wm_dir m) p) e e'" "pt_part_id p = part" "pt_part_id p' = part"
    "part_wf e' (wm_dir m) p'"
    "m' = (set_part m part p')\<lparr>wm_total_active := wm_total_active m - pt_active_bytes p + pt_active_bytes p', wm_any_over := b\<rparr>"
  shows "mgr_wf e' m'"
  by (rule mgr_wf_set_part [OF wf p assms(5,6) frame_of_only_file [OF assms(3,4)] assms(7)])

section \<open>Append keeps the invariant and extends one log\<close>

lemma append_buffer_simps:
  assumes "append_buffer m p rec = (m', p')"
  shows "pt_part_id p' = pt_part_id p" "pt_gen p' = pt_gen p" "pt_buf p' = pt_buf p @ rec"
    "pt_total_size p' = pt_total_size p + length rec" "pt_rfile p' = pt_rfile p" "pt_wfile p' = pt_wfile p"
    "pt_active_bytes p' = pt_active_bytes p + of_nat (length rec)"
    "pt_flushed_size p' = pt_flushed_size p"
    "\<exists>b. m' = m\<lparr>wm_total_active := wm_total_active m + of_nat (length rec), wm_any_over := b\<rparr>"
  using assms by (auto simp: append_buffer_def Let_def)

lemma append_buffer_wf:
  assumes "append_buffer m p rec = (m', p')" "part_wf e dir p" "pt_wfile p = Some (FileName dir p)"
  shows "part_wf e dir p'" and "part_log e dir p' = part_log e dir p @ rec" and "FileName dir p' = FileName dir p"
  using append_buffer_simps [OF assms(1)] assms(2,3)
  by (auto simp: part_wf_def part_log_def FileName_def)

lemma new_Partition_wf:
  assumes "mgr_wf e m" "find_part m part = None"
  shows "part_wf e (wm_dir m) (new_Partition part)" "pt_part_id (new_Partition part) = part"
    "pt_active_bytes (new_Partition part) = 0"
  using assms by (auto simp: mgr_wf_def wm_paths_free_def new_Partition_def part_wf_def file_bytes_def FileName_def)

text \<open>The whole effect of an append on a managed partition, whatever fails.\<close>

lemma append_to_spec:
  assumes res: "append_to e m part p rec = (r, e', m')" and wf: "mgr_wf e m" and whole: "whole_appends e"
    and p: "find_part m part = Some p \<or> find_part m part = None \<and> p = new_Partition part"
  obtains p' where "mgr_wf e' m'" "find_part m' part = Some p'" "pt_gen p' = pt_gen p"
    "part_log e' (wm_dir m) p' = part_log e (wm_dir m) p @ (if is_ok r then rec else []) \<or>
       \<not> is_ok r \<and> part_log e' (wm_dir m) p' = part_log e (wm_dir m) p @ rec"
    "only_file (FileName (wm_dir m) p) e e'" "wm_dir m' = wm_dir m"
    "\<And>q. q \<noteq> part \<Longrightarrow> find_part m' q = find_part m q"
    "r = Inr ref \<Longrightarrow> ref = \<lparr>r_part_id = part, r_gen = pt_gen p, r_offset = length (part_log e (wm_dir m) p)\<rparr>"
    "\<forall>op. \<not> e_fail e op \<Longrightarrow> is_ok r"
    "is_ok r \<Longrightarrow> pt_rfile p \<noteq> None \<or> pt_wfile p = None \<Longrightarrow> pt_rfile p' \<noteq> None"
    "pt_rfile p \<noteq> None \<Longrightarrow> pt_rfile p' \<noteq> None" "pt_flushed_size p' = pt_flushed_size p \<or> pt_buf p' = []"
proof -
  let ?dir = "wm_dir m"
  have id: "pt_part_id p = part" and wfp: "part_wf e ?dir p" and zero: "find_part m part = None \<Longrightarrow> pt_active_bytes p = 0"
    using wf p new_Partition_wf [OF wf] by (auto simp: mgr_wf_def)
  have pz: "find_part m part = Some p \<or> find_part m part = None \<and> pt_active_bytes p = 0"
    using p zero by auto
  obtain r1 e1 p1 where o: "EnsureOpenForWrite e ?dir p = (r1, e1, p1)" by (metis prod_cases3)
  note k1 = EnsureOpenForWrite_keeps [OF o wfp]
  have len: "pt_total_size p = length (part_log e ?dir p)" using wfp by (auto simp: part_wf_def part_log_def)
  note kd = part_keeps_def
  show ?thesis
  proof (cases "is_ok r1")
    case False
    then have r: "\<not> is_ok r" "e' = e1" "m' = set_part m part p1"
      using res o by (auto simp: append_to_def is_ok_def split: sum.splits)
    have "m' = (set_part m part p1)\<lparr>wm_total_active := wm_total_active m - pt_active_bytes p + pt_active_bytes p1,
        wm_any_over := wm_any_over m\<rparr>"
      using k1(1) r(3) by (simp add: kd set_part_def)
    from mgr_wf_only_file [OF wf pz _ id _ _ this] have "mgr_wf e' m'"
      using k1(1) id r(2) by (simp add: kd)
    then show ?thesis
      by (rule that [of p1]) (use k1 r False in \<open>auto simp: kd is_ok_def\<close>)
  next
    case True
    obtain m2 p2 where ab: "append_buffer m p1 rec = (m2, p2)" by fastforce
    note a2 = append_buffer_simps [OF ab]
    have fn: "FileName ?dir p1 = FileName ?dir p" by (rule part_keeps_FileName [OF k1(1)])
    have w2: "part_wf e1 ?dir p2" "part_log e1 ?dir p2 = part_log e1 ?dir p1 @ rec"
      "FileName ?dir p2 = FileName ?dir p"
      using append_buffer_wf [OF ab, of e1 ?dir] k1 True fn by (auto simp: kd)
    let ?ref = "\<lparr>r_part_id = part, r_gen = pt_gen p, r_offset = pt_total_size p\<rparr>"
    obtain r3 :: "unit zf_result" and p3 where f: "part_keeps ?dir e1 p2 e' p3" "m' = set_part m2 part p3"
      "r = Inr ?ref \<and> is_ok r3 \<or> \<not> is_ok r \<and> \<not> is_ok r3" "(\<forall>op. \<not> e_fail e op) \<Longrightarrow> is_ok r3"
    proof (cases "4096 \<le> length (pt_buf p2)")
      case big: True
      obtain r3 e3 p3 where fl: "FlushBuf e1 p2 = (r3, e3, p3)" by (metis prod_cases3)
      have "r = (case r3 of Inl er \<Rightarrow> Inl er | Inr _ \<Rightarrow> Inr ?ref)" "e' = e3" "m' = set_part m2 part p3"
        using res o ab fl True big k1(1) a2 
        by (auto simp: append_to_def Let_def is_ok_def kd split: sum.splits)
      moreover have f1: "e_fail e1 = e_fail e" using k1(1) by (simp add: kd only_file_def)
      moreover have w1: "whole_appends e1" using whole f1 by (simp add: whole_appends_def)
      ultimately show ?thesis
        using FlushBuf_keeps [OF fl w2(1) disjI1 [OF w1]] that [of p3 r3] by (auto simp: is_ok_def split: sum.splits)
    next
      case small: False
      then have "r = Inr ?ref" "e' = e1" "m' = set_part m2 part p2"
        using res o ab True k1(1) a2 by (auto simp: append_to_def Let_def is_ok_def kd split: sum.splits)
      then show ?thesis using part_keeps_refl [OF w2(1)] that [of p2 "Inr ()"] by auto
    qed
    obtain b where m2: "m2 = m\<lparr>wm_total_active := wm_total_active m + of_nat (length rec), wm_any_over := b\<rparr>"
      using a2(9) by blast
    have m': "m' = (set_part m part p3)\<lparr>wm_total_active := wm_total_active m - pt_active_bytes p + pt_active_bytes p3,
        wm_any_over := b\<rparr>"
      using f(1,2) k1(1) a2(7) by (simp add: m2 kd set_part_def)
    have of3: "only_file (FileName ?dir p) e e'"
      using k1(1) f(1) w2(3) by (auto simp: kd intro: only_file_trans)
    have wf': "mgr_wf e' m'"
      by (rule mgr_wf_only_file [OF wf pz of3 id _ _ m']) (use k1(1) f(1) a2(1) id in \<open>simp_all add: kd\<close>)
    have fl: "pt_flushed_size p3 = pt_flushed_size p \<or> pt_buf p3 = []"
      using f(1) k1(5) a2(8) by (simp add: kd)
    have log: "part_log e' ?dir p3 = part_log e ?dir p @ rec" using f(1) w2(2) k1(1) by (simp add: kd)
    show ?thesis
      by (rule that [of p3, OF wf']) (use f k1 a2 log fl of3 len m2 True in \<open>auto simp: kd is_ok_def split: sum.splits\<close>)
  qed
qed

end
