(* ===== verification/ZfWalLog.thy ===== *)
theory ZfWalLog
  imports ZfWalManager
begin

text \<open>
  What the WAL manager promises its clients. The log of a partition (file, then buffer) only grows
  under appends and syncs, unless an append is cut short; a record stays readable at the offset its append
  returned; sealing a generation moves the log unchanged into the sealed file, from which it is
  read by the sealed-file path and by the scanner; what was synced survives a crash. The promise is
  stated as the locale \<open>record_store\<close> and the manager is an interpretation of it.
\<close>

section \<open>Reading a log\<close>

text \<open>The log has a complete record at an offset.\<close>

definition rec_at :: "bytes \<Rightarrow> nat \<Rightarrow> zf_rec \<Rightarrow> bool" where
  "rec_at xs off r \<longleftrightarrow>
     (case r of (h, k, v) \<Rightarrow> zf_frame_ok h k v) \<and> (\<exists>ys zs. xs = ys @ rec_bytes r @ zs \<and> length ys = off)"

definition read_value :: "zf_rec \<Rightarrow> bytes" where
  "read_value r = (case r of (h, k, v) \<Rightarrow> if h_type h = kTypeDeletion then [] else v)"

lemma rec_at_append: "rec_at xs off r \<Longrightarrow> rec_at (xs @ ext) off r"
  by (force simp: rec_at_def)

lemma rec_at_end: "(case r of (h, k, v) \<Rightarrow> zf_frame_ok h k v) \<Longrightarrow> rec_at (xs @ rec_bytes r) (length xs) r"
  by (force simp: rec_at_def)

lemma finish_read_rec: "(case r of (h, k, v) \<Rightarrow> zf_frame_ok h k v) \<Longrightarrow> finish_read (rec_bytes r) = Inr (read_value r)"
  by (cases r) (simp add: finish_read_def Decode_EncodeZfRecord read_value_def)

lemma record_total_rec:
  assumes "(case r of (h, k, v) \<Rightarrow> zf_frame_ok h k v)" "24 \<le> length p" "rec_bytes r @ rest = p @ q"
  shows "record_total p = length (rec_bytes r)"
  using assms record_total_prefix by (cases r) auto

lemma length_rec_bytes_ge: "28 \<le> length (rec_bytes r)"
  by (cases r) simp

text \<open>Both positioned readers return the value of a record that is in the file.\<close>

lemma ReadFromSealed_rec:
  assumes "e_content e f = Some c" "\<not> e_fail e (EnvRead f)" "rec_at c off r"
  shows "ReadFromSealed e f \<lparr>r_part_id = part, r_gen = gen, r_offset = off\<rparr> = Inr (read_value r)"
proof -
  obtain ys zs where c: "c = ys @ rec_bytes r @ zs" "length ys = off" and ok: "case r of (h, k, v) \<Rightarrow> zf_frame_ok h k v"
    using assms(3) by (auto simp: rec_at_def)
  let ?n = "length (rec_bytes r)"
  have slice_c: "slice (off + i) n c = take n (drop i (rec_bytes r @ zs))" for i n
    using c by (simp add: slice_def)
  have read: "file_Read e f (off + i) n = Inr (take n (drop i (rec_bytes r @ zs)))" for i n
    using assms(1,2) slice_c by (simp add: file_Read_def)
  let ?res = "take kInlineRead (rec_bytes r @ zs)"
  have r0: "file_Read e f off kInlineRead = Inr ?res" using read [of 0] by simp
  have len: "24 \<le> length ?res" using length_rec_bytes_ge [of r] by (simp add: kInlineRead_def)
  have tot: "record_total ?res = ?n"
  proof (rule record_total_rec [OF ok len, of zs "drop kInlineRead (rec_bytes r @ zs)"])
    show "rec_bytes r @ zs = ?res @ drop kInlineRead (rec_bytes r @ zs)" by (simp only: append_take_drop_id)
  qed
  show ?thesis
  proof (cases "?n \<le> length ?res")
    case True
    then have "?n \<le> kInlineRead" by (simp del: take_append)
    then have "take ?n ?res = rec_bytes r" by simp
    then show ?thesis
      using r0 len True tot finish_read_rec [OF ok] by (simp add: ReadFromSealed_def Let_def)
  next
    case False
    then have short: "length ?res = kInlineRead" "kInlineRead < ?n" by auto
    have rest: "file_Read e f (off + length ?res) (?n - length ?res) = Inr (drop kInlineRead (rec_bytes r))"
      using read [of kInlineRead "?n - kInlineRead"] short by simp
    have "?res @ drop kInlineRead (rec_bytes r) = rec_bytes r" using short(2) by simp
    then show ?thesis
      using r0 len False tot rest short finish_read_rec [OF ok]
      by (simp add: ReadFromSealed_def Let_def)
  qed
qed

lemma ReadRecord_rec:
  assumes wf: "mgr_wf e m" and p: "find_part m part = Some p" and "rec_at (part_log e (wm_dir m) p) off r"
    and ok_read: "\<not> e_fail e (EnvRead (FileName (wm_dir m) p))"
    and rf: "pt_flushed_size p \<le> off \<or> pt_rfile p \<noteq> None"
    and whole: "pt_flushed_size p \<le> off \<or> off + length (rec_bytes r) \<le> pt_flushed_size p"
  shows "ReadRecord e m \<lparr>r_part_id = part, r_gen = g, r_offset = off\<rparr> = Inr (read_value r)"
proof -
  let ?c = "file_bytes e (FileName (wm_dir m) p)" and ?n = "length (rec_bytes r)"
  have wfp: "part_wf e (wm_dir m) p" using wf p by (auto simp: mgr_wf_def)
  then have fl: "pt_flushed_size p = length ?c" by (simp add: part_wf_def)
  obtain ys zs where log: "?c @ pt_buf p = ys @ rec_bytes r @ zs" "length ys = off"
    and ok: "case r of (h, k, v) \<Rightarrow> zf_frame_ok h k v"
    using assms(3) by (auto simp: rec_at_def part_log_def)
  show ?thesis
  proof (cases "pt_flushed_size p \<le> off")
    case True
    have "drop off (?c @ pt_buf p) = rec_bytes r @ zs" using log by simp
    then have base: "drop (off - length ?c) (pt_buf p) = rec_bytes r @ zs" using True fl by simp
    have tot: "record_total (drop (off - length ?c) (pt_buf p)) = ?n"
      unfolding base by (rule record_total_rec [OF ok, where rest = zs and q = "[]"]) (use length_rec_bytes_ge [of r] in simp_all)
    have "length (drop (off - length ?c) (pt_buf p)) = ?n + length zs" using base by simp
    then have "\<not> length (pt_buf p) < off - length ?c + 24" "\<not> length (pt_buf p) < off - length ?c + ?n"
      using length_rec_bytes_ge [of r] by auto
    then show ?thesis
      using p True fl tot base finish_read_rec [OF ok] by (simp add: ReadRecord_def Let_def)
  next
    case False
    then obtain f where f: "pt_rfile p = Some f" "f = FileName (wm_dir m) p"
      using rf wfp by (auto simp: part_wf_def)
    then obtain c where c: "e_content e f = Some c" using wfp by (auto simp: part_wf_def)
    have "?c = c" using c f by (simp add: file_bytes_def)
    moreover have "off + ?n \<le> length ?c" using False whole fl by simp
    ultimately have "c = ys @ rec_bytes r @ drop (off + ?n) c"
      using log by (metis (no_types, lifting) append.assoc append_eq_append_conv_if append_take_drop_id
          drop_append_exact length_append take_append_exact)
    then have sl: "slice (off + i) n c = take n (drop i (rec_bytes r @ drop (off + ?n) c))" for i n
      using log(2) by (metis add.commute drop_append_exact drop_drop slice_def)
    have read: "file_Read e f (off + i) n = Inr (take n (drop i (rec_bytes r @ drop (off + ?n) c)))" for i n
      using ok_read f c sl by (simp add: file_Read_def)
    let ?hdr = "take 24 (rec_bytes r)"
    have r0: "file_Read e f off 24 = Inr ?hdr" using read [of 0 24] length_rec_bytes_ge [of r] by simp
    have tot: "record_total ?hdr = ?n"
      by (rule record_total_rec [OF ok, where rest = "[]" and q = "drop 24 (rec_bytes r)"]) (use length_rec_bytes_ge [of r] in simp_all)
    have r1: "file_Read e f (off + 24) (?n - 24) = Inr (drop 24 (rec_bytes r))"
      using read [of 24 "?n - 24"] length_rec_bytes_ge [of r] by simp
    show ?thesis
      using p False f(1) r0 r1 tot length_rec_bytes_ge [of r] finish_read_rec [OF ok]
      by (simp add: ReadRecord_def Let_def)
  qed
qed

section \<open>The promise\<close>

text \<open>A store whose steps never take away a record that is there, and whose reads return it.\<close>

locale record_store =
  fixes inv :: "'s \<Rightarrow> bool" and step :: "'s \<Rightarrow> 's \<Rightarrow> bool"
    and has_rec :: "'s \<Rightarrow> 'ref \<Rightarrow> 'r \<Rightarrow> bool" and read :: "'s \<Rightarrow> 'ref \<Rightarrow> 'v zf_result" and val :: "'r \<Rightarrow> 'v"
  assumes step_inv: "inv s \<Longrightarrow> step s s' \<Longrightarrow> inv s'"
    and step_has: "inv s \<Longrightarrow> step s s' \<Longrightarrow> has_rec s ref r \<Longrightarrow> has_rec s' ref r"
    and read_has: "inv s \<Longrightarrow> has_rec s ref r \<Longrightarrow> read s ref = Inr (val r)"
begin

lemma steps_keep: "step\<^sup>*\<^sup>* s s' \<Longrightarrow> inv s \<Longrightarrow> inv s' \<and> (\<forall>ref r. has_rec s ref r \<longrightarrow> has_rec s' ref r)"
  by (induction rule: rtranclp_induct) (auto intro: step_inv step_has)

lemma read_later: "inv s \<Longrightarrow> has_rec s ref r \<Longrightarrow> step\<^sup>*\<^sup>* s s' \<Longrightarrow> read s' ref = Inr (val r)"
  using steps_keep read_has by blast

end

definition wal_inv :: "env \<times> PartitionedWalManager \<Rightarrow> bool" where
  "wal_inv s \<longleftrightarrow> (case s of (e, m) \<Rightarrow>
     mgr_wf e m \<and> (\<forall>op. \<not> e_fail e op) \<and>
     (\<forall>part p. find_part m part = Some p \<and> pt_wfile p \<noteq> None \<longrightarrow> pt_rfile p \<noteq> None))"

definition wal_has :: "env \<times> PartitionedWalManager \<Rightarrow> WalRecordRef \<Rightarrow> zf_rec \<Rightarrow> bool" where
  "wal_has s ref r \<longleftrightarrow> (case s of (e, m) \<Rightarrow>
     \<exists>p. find_part m (r_part_id ref) = Some p \<and> pt_gen p = r_gen ref \<and> pt_rfile p \<noteq> None \<and>
       rec_at (part_log e (wm_dir m) p) (r_offset ref) r \<and>
       (pt_flushed_size p \<le> r_offset ref \<or> r_offset ref + length (rec_bytes r) \<le> pt_flushed_size p))"

text \<open>The steps of a manager between two seals.\<close>

inductive wal_step :: "env \<times> PartitionedWalManager \<Rightarrow> env \<times> PartitionedWalManager \<Rightarrow> bool" where
  step_append: "Append e m part key v t seq = (res, e', m') \<Longrightarrow> wal_step (e, m) (e', m')"
| step_sync: "Sync e m part = (r, e', m') \<Longrightarrow> wal_step (e, m) (e', m')"
| step_ensure: "wal_step (e, m) (e, EnsurePartition m part)"

inductive_cases wal_stepE: "wal_step s s'"

text \<open>One partition replaced by a state that keeps its log or extends it keeps every record.\<close>

lemma rec_at_length: "rec_at xs off r \<Longrightarrow> off + length (rec_bytes r) \<le> length xs"
  by (auto simp: rec_at_def)

lemma wal_has_part:
  assumes has: "wal_has (e, m) ref r" and wf: "mgr_wf e m" "mgr_wf e' m'"
    and p: "find_part m part = Some p" "find_part m' part = Some p'" and gen: "pt_gen p' = pt_gen p"
    and dir: "wm_dir m' = wm_dir m" and other: "\<And>q. q \<noteq> part \<Longrightarrow> find_part m' q = find_part m q"
    and of: "only_file (FileName (wm_dir m) p) e e'"
    and log: "\<exists>ext. part_log e' (wm_dir m) p' = part_log e (wm_dir m) p @ ext"
    and rf: "pt_rfile p \<noteq> None \<Longrightarrow> pt_rfile p' \<noteq> None"
    and fl: "pt_flushed_size p' = pt_flushed_size p \<or> pt_buf p' = []"
  shows "wal_has (e', m') ref r"
proof -
  obtain w where w: "find_part m (r_part_id ref) = Some w" "pt_gen w = r_gen ref" "pt_rfile w \<noteq> None"
    "rec_at (part_log e (wm_dir m) w) (r_offset ref) r"
    "pt_flushed_size w \<le> r_offset ref \<or> r_offset ref + length (rec_bytes r) \<le> pt_flushed_size w"
    using has by (auto simp: wal_has_def)
  show ?thesis
  proof (cases "r_part_id ref = part")
    case True
    then have wp: "w = p" using w(1) p(1) by simp
    have at: "rec_at (part_log e' (wm_dir m) p') (r_offset ref) r" using log w(4) wp rec_at_append by metis
    have "part_wf e' (wm_dir m) p'" using wf(2) p(2) dir by (auto simp: mgr_wf_def)
    then have "pt_buf p' = [] \<Longrightarrow> length (part_log e' (wm_dir m) p') = pt_flushed_size p'"
      by (simp add: part_wf_def part_log_def)
    then have "pt_flushed_size p' \<le> r_offset ref \<or> r_offset ref + length (rec_bytes r) \<le> pt_flushed_size p'"
      using fl w(5) wp rec_at_length [OF at] by auto
    then show ?thesis using at True p(2) gen w wp rf dir by (auto simp: wal_has_def)
  next
    case False
    have "pt_part_id w = r_part_id ref" "pt_part_id p = part" using wf(1) w(1) p(1) by (auto simp: mgr_wf_def)
    then have "FileName (wm_dir m) w \<noteq> FileName (wm_dir m) p" using False by (simp add: FileName_def)
    from part_wf_only_file(2) [OF of this] show ?thesis
      using other [OF False] w dir by (auto simp: wal_has_def)
  qed
qed

lemma append_to_inv:
  assumes res: "append_to e m part p (rec_bytes rc) = (res, e', m')" and inv: "wal_inv (e, m)"
    and p: "find_part m part = Some p"
  shows "wal_inv (e', m')" and "wal_has (e, m) ref r \<Longrightarrow> wal_has (e', m') ref r" and "is_ok res"
    and "case rc of (h, k, v) \<Rightarrow> zf_frame_ok h k v \<Longrightarrow> res = Inr ref' \<Longrightarrow> wal_has (e', m') ref' rc"
    and "res = Inr ref' \<Longrightarrow> r_part_id ref' = part \<and> r_gen ref' = pt_gen p \<and> r_offset ref' = pt_total_size p"
proof -
  have wf: "mgr_wf e m" and nf: "\<forall>op. \<not> e_fail e op"
    and rf: "pt_wfile p \<noteq> None \<Longrightarrow> pt_rfile p \<noteq> None"
    using inv p by (auto simp: wal_inv_def)
  obtain p' where s: "mgr_wf e' m'" "find_part m' part = Some p'" "pt_gen p' = pt_gen p"
    "part_log e' (wm_dir m) p' = part_log e (wm_dir m) p @ (if is_ok res then rec_bytes rc else []) \<or>
       \<not> is_ok res \<and> part_log e' (wm_dir m) p' = part_log e (wm_dir m) p @ rec_bytes rc"
    "only_file (FileName (wm_dir m) p) e e'" "wm_dir m' = wm_dir m"
    "\<And>q. q \<noteq> part \<Longrightarrow> find_part m' q = find_part m q"
    "res = Inr ref' \<Longrightarrow> ref' = \<lparr>r_part_id = part, r_gen = pt_gen p, r_offset = length (part_log e (wm_dir m) p)\<rparr>"
    "is_ok res" "is_ok res \<Longrightarrow> pt_rfile p \<noteq> None \<or> pt_wfile p = None \<Longrightarrow> pt_rfile p' \<noteq> None"
    "pt_flushed_size p' = pt_flushed_size p \<or> pt_buf p' = []"
    by (rule append_to_spec [OF res wf no_fail_whole [OF nf] disjI1 [OF p], where ref = ref'])
      (rule that; (assumption | (use nf in blast)))
  show "is_ok res" by (rule s(9))
  have rf': "pt_rfile p' \<noteq> None" using s(9,10) rf by blast
  have log: "part_log e' (wm_dir m) p' = part_log e (wm_dir m) p @ rec_bytes rc" using s(4,9) by auto
  show "wal_has (e', m') ref r" if "wal_has (e, m) ref r"
    by (rule wal_has_part [OF that wf s(1) p s(2,3,6,7,5)]) (use log rf' s(11) in auto)
  show "wal_inv (e', m')"
    unfolding wal_inv_def prod.case
  proof (intro conjI allI impI)
    show "pt_rfile w \<noteq> None" if "find_part m' q = Some w \<and> pt_wfile w \<noteq> None" for q w
      using that inv s(2) s(7) [of q] rf' by (cases "q = part") (auto simp: wal_inv_def)
  qed (use s(1,5) nf in \<open>auto simp: only_file_def\<close>)
  have wfp: "part_wf e (wm_dir m) p" "part_wf e' (wm_dir m) p'"
    using wf s(1,2,6) p by (auto simp: mgr_wf_def)
  have tot: "pt_total_size p = length (part_log e (wm_dir m) p)" using wfp(1) by (simp add: part_wf_def part_log_def)
  then show "r_part_id ref' = part \<and> r_gen ref' = pt_gen p \<and> r_offset ref' = pt_total_size p" if "res = Inr ref'"
    using s(8) that by simp
  show "wal_has (e', m') ref' rc" if "case rc of (h, k, v) \<Rightarrow> zf_frame_ok h k v" "res = Inr ref'"
  proof -
    have at: "rec_at (part_log e' (wm_dir m) p') (pt_total_size p) rc"
      using rec_at_end [OF that(1), of "part_log e (wm_dir m) p"] by (simp add: log tot)
    have "pt_buf p' = [] \<Longrightarrow> length (part_log e' (wm_dir m) p') = pt_flushed_size p'"
      using wfp(2) by (simp add: part_wf_def part_log_def)
    moreover have "pt_flushed_size p \<le> pt_total_size p" using wfp(1) by (simp add: part_wf_def)
    ultimately have "pt_flushed_size p' \<le> pt_total_size p \<or> pt_total_size p + length (rec_bytes rc) \<le> pt_flushed_size p'"
      using s(11) rec_at_length [OF at] by auto
    with at rf' s(2,3,6) s(8) [OF that(2)] tot show ?thesis by (auto simp: wal_has_def)
  qed
qed

lemma EnsurePartition_wf:
  assumes wf: "mgr_wf e m"
  shows "mgr_wf e (EnsurePartition m part)"
proof (cases "find_part m part")
  case None
  note np = new_Partition_wf [OF wf None]
  have "mgr_wf e (set_part m part (new_Partition part))"
    by (rule mgr_wf_only_file [OF wf _ only_file_refl np(2) np(2) np(1), where b = "wm_any_over m"])
      (use None np(3) in \<open>auto simp: set_part_def\<close>)
  then show ?thesis using None by (simp add: EnsurePartition_def)
qed (use wf in \<open>simp add: EnsurePartition_def\<close>)

lemma EnsurePartition_inv:
  assumes "wal_inv (e, m)"
  shows "wal_inv (e, EnsurePartition m part)" and "wal_has (e, m) ref r \<Longrightarrow> wal_has (e, EnsurePartition m part) ref r"
proof -
  show "wal_inv (e, EnsurePartition m part)"
    using assms EnsurePartition_wf [of e m part]
    by (auto simp: wal_inv_def EnsurePartition_def new_Partition_def)
  show "wal_has (e, EnsurePartition m part) ref r" if "wal_has (e, m) ref r"
    using that by (auto simp: wal_has_def EnsurePartition_def)
qed

lemma append_header_ok:
  "28 + length key + length v < 2 ^ 32 \<Longrightarrow> zf_frame_ok (append_header key v t seq) key v"
  by (simp add: zf_frame_ok_def append_header_def unat_of_nat_small)

lemma Append_managed:
  assumes "find_part m part \<noteq> None \<or> part = kRangeDelPartId"
  obtains p where "find_part (EnsurePartition m part) part = Some p" "pt_gen p = ActiveGen m part"
    "pt_total_size p = ActiveSize m part"
    "Append e m part key v t seq =
       append_to e (EnsurePartition m part) part p (rec_bytes (append_header key v t seq, key, v))"
  using assms
  by (cases "find_part m part")
    (auto simp: Append_def Let_def EnsurePartition_def ActiveGen_def ActiveSize_def new_Partition_def)

lemma Append_unknown:
  "find_part m part = None \<Longrightarrow> part \<noteq> kRangeDelPartId \<Longrightarrow>
   \<exists>msg. Append e m part key v t seq = (Inl (InvalidArgument msg), e, m)"
  by (simp add: Append_def Let_def)

lemma Append_spec:
  assumes res: "Append e m part key v t seq = (res, e', m')" and inv: "wal_inv (e, m)"
  shows "wal_inv (e', m')" and "wal_has (e, m) ref r \<Longrightarrow> wal_has (e', m') ref r"
    and "28 + length key + length v < 2 ^ 32 \<Longrightarrow> res = Inr ref' \<Longrightarrow>
      wal_has (e', m') ref' (append_header key v t seq, key, v)"
    and "find_part m part \<noteq> None \<or> part = kRangeDelPartId \<Longrightarrow> is_ok res"
    and "res = Inr ref' \<Longrightarrow> r_part_id ref' = part \<and> r_gen ref' = ActiveGen m part \<and>
      r_offset ref' = ActiveSize m part"
proof -
  have all: "wal_inv (e', m') \<and> (wal_has (e, m) ref r \<longrightarrow> wal_has (e', m') ref r) \<and>
    (28 + length key + length v < 2 ^ 32 \<and> res = Inr ref' \<longrightarrow>
      wal_has (e', m') ref' (append_header key v t seq, key, v)) \<and>
    (find_part m part \<noteq> None \<or> part = kRangeDelPartId \<longrightarrow> is_ok res) \<and>
    (res = Inr ref' \<longrightarrow> r_part_id ref' = part \<and> r_gen ref' = ActiveGen m part \<and> r_offset ref' = ActiveSize m part)"
  proof (cases "find_part m part \<noteq> None \<or> part = kRangeDelPartId")
    case True
    then obtain p where p: "find_part (EnsurePartition m part) part = Some p" "pt_gen p = ActiveGen m part"
      "pt_total_size p = ActiveSize m part"
      "append_to e (EnsurePartition m part) part p (rec_bytes (append_header key v t seq, key, v)) = (res, e', m')"
      using Append_managed [of m part e key v t seq] res by metis
    note core = append_to_inv [OF p(4) EnsurePartition_inv(1) [OF inv] p(1)]
    show ?thesis
      using core(1,3,5) core(2) [OF EnsurePartition_inv(2) [OF inv]] core(4) [of ref'] p(2,3) append_header_ok by auto
  next
    case False
    then show ?thesis using Append_unknown [of m part e key v t seq] res inv by auto
  qed
  show "wal_inv (e', m')" using all by blast
  show "wal_has (e, m) ref r \<Longrightarrow> wal_has (e', m') ref r" using all by blast
  show "28 + length key + length v < 2 ^ 32 \<Longrightarrow> res = Inr ref' \<Longrightarrow>
      wal_has (e', m') ref' (append_header key v t seq, key, v)" using all by blast
  show "find_part m part \<noteq> None \<or> part = kRangeDelPartId \<Longrightarrow> is_ok res" using all by blast
  show "res = Inr ref' \<Longrightarrow> r_part_id ref' = part \<and> r_gen ref' = ActiveGen m part \<and>
      r_offset ref' = ActiveSize m part" using all by blast
qed

lemma part_keeps_sync:
  assumes "part_keeps dir e p e1 p1" "file_Sync e1 f = (r, e2)"
  shows "part_keeps dir e p e2 p1"
proof -
  note sy = file_Sync_content [OF assms(2)]
  have "only_file (FileName dir p) e e2" using assms(1) sy(1,2) by (simp add: part_keeps_def only_file_def)
  then show ?thesis
    using assms(1) part_wf_same_content [OF sy(1), of dir p1] by (simp add: part_keeps_def)
qed

lemma Sync_spec:
  assumes res: "Sync e m part = (r, e', m')" and wf: "mgr_wf e m" and p: "find_part m part = Some p" and whole: "whole_appends e \<or> is_ok r"
  obtains p' where "part_keeps (wm_dir m) e p e' p'" "m' = set_part m part p'" "mgr_wf e' m'"
    "is_ok r \<Longrightarrow> pt_buf p' = [] \<and> e_durable e' (FileName (wm_dir m) p) = length (part_log e (wm_dir m) p)"
    "\<forall>op. \<not> e_fail e op \<Longrightarrow> is_ok r"
    "is_ok r \<Longrightarrow> pt_wfile p = None \<Longrightarrow> pt_rfile p' \<noteq> None"
proof -
  let ?dir = "wm_dir m"
  have id: "pt_part_id p = part" and wfp: "part_wf e ?dir p" using wf p by (auto simp: mgr_wf_def)
  obtain r1 e1 p1 where o1: "EnsureOpenForWrite e ?dir p = (r1, e1, p1)" by (metis prod_cases3)
  note k1 = EnsureOpenForWrite_keeps [OF o1 wfp]
  obtain r2 e2 p2 where o2: "FlushBuf e1 p1 = (r2, e2, p2)" by (metis prod_cases3)
  have wf1: "part_wf e1 ?dir p1" using k1(1) by (simp add: part_keeps_def)
  obtain r3 e3 where o3: "file_Sync e2 (the (pt_wfile p2)) = (r3, e3)" by fastforce
  have out: "(r, e', m') = (if \<not> is_ok r1 then (r1, e1, set_part m part p1)
     else if \<not> is_ok r2 then (r2, e2, set_part m part p2) else (r3, e3, set_part m part p2))"
    using res p o1 o2 o3 by (auto simp: Sync_def is_ok_def split: sum.splits)
  have "whole_appends e1 \<or> is_ok r2"
    using whole out k1(1) by (auto simp: whole_appends_def part_keeps_def only_file_def split: if_splits)
  note k2 = FlushBuf_keeps [OF o2 wf1 this]
  note k12 = part_keeps_trans [OF k1(1) k2(1)]
  note k3 = part_keeps_sync [OF k12 o3]
  define p' where "p' = (if \<not> is_ok r1 then p1 else p2)"
  have keep: "part_keeps ?dir e p e' p'" and m': "m' = set_part m part p'"
    using out k1(1) k12 k3 by (auto simp: p'_def split: if_splits)
  have "mgr_wf e' m'"
    by (rule mgr_wf_only_file [OF wf disjI1 [OF p] _ id _ _, where p' = p' and b = "wm_any_over m"])
      (use keep m' id in \<open>auto simp: part_keeps_def set_part_def\<close>)
  moreover have "pt_buf p' = [] \<and> e_durable e' (FileName ?dir p) = length (part_log e ?dir p)" if ok: "is_ok r"
  proof -
    have oks: "is_ok r1" "is_ok r2" "is_ok r3" "e' = e3" "p' = p2" using ok out by (auto simp: p'_def split: if_splits)
    have f: "the (pt_wfile p2) = FileName ?dir p" using k2(4) k1(2) [OF oks(1)] by simp
    have "part_log e ?dir p = file_bytes e2 (FileName ?dir p)"
      using k12 k2(2) oks(2) part_keeps_FileName [OF k12] by (simp add: part_keeps_def part_log_def)
    then show ?thesis using file_Sync_content(4) [OF o3] oks f k2(2) by simp
  qed
  moreover have "is_ok r" if nf: "\<forall>op. \<not> e_fail e op"
  proof -
    have "e_fail e1 = e_fail e" "e_fail e2 = e_fail e" using k1(1) k12 by (simp_all add: part_keeps_def only_file_def)
    then have "is_ok r1" "is_ok r2" "is_ok r3"
      using k1(4) k2(3) o3 nf by (auto simp: file_Sync_def)
    then show ?thesis using out by simp
  qed
  moreover have "pt_rfile p' \<noteq> None" if "is_ok r" "pt_wfile p = None"
    using that k1(3) k2(1) out by (auto simp: part_keeps_def p'_def split: if_splits)
  ultimately show ?thesis by (rule that [OF keep m'])
qed

lemma Sync_inv:
  assumes res: "Sync e m part = (r, e', m')" and inv: "wal_inv (e, m)"
  shows "wal_inv (e', m')" and "wal_has (e, m) ref rc \<Longrightarrow> wal_has (e', m') ref rc"
proof -
  have all: "wal_inv (e', m') \<and> (wal_has (e, m) ref rc \<longrightarrow> wal_has (e', m') ref rc)"
  proof (cases "find_part m part")
    case None
    then show ?thesis using res inv by (auto simp: Sync_def)
  next
    case (Some p)
    have wf: "mgr_wf e m" and nf: "\<forall>op. \<not> e_fail e op" using inv by (auto simp: wal_inv_def)
    obtain p' where s: "part_keeps (wm_dir m) e p e' p'" "m' = set_part m part p'" "mgr_wf e' m'"
      "is_ok r" "is_ok r \<Longrightarrow> pt_wfile p = None \<Longrightarrow> pt_rfile p' \<noteq> None"
      by (rule Sync_spec [OF res wf Some disjI1 [OF no_fail_whole [OF nf]]]) (rule that; (assumption | (use nf in blast)))
    have "pt_wfile p \<noteq> None \<Longrightarrow> pt_rfile p \<noteq> None" using inv Some by (auto simp: wal_inv_def)
    moreover have "pt_rfile p \<noteq> None \<Longrightarrow> pt_rfile p' \<noteq> None" using s(1) by (simp add: part_keeps_def)
    ultimately have rf': "pt_rfile p' \<noteq> None" using s(4,5) by blast
    have "wal_inv (e', m')"
      unfolding wal_inv_def prod.case
    proof (intro conjI allI impI)
      show "pt_rfile w \<noteq> None" if "find_part m' q = Some w \<and> pt_wfile w \<noteq> None" for q w
        using that inv s(2) rf' by (cases "q = part") (auto simp: wal_inv_def)
    qed (use s(1,3) nf in \<open>auto simp: part_keeps_def only_file_def\<close>)
    moreover have "wal_has (e', m') ref rc" if "wal_has (e, m) ref rc"
      by (rule wal_has_part [OF that wf s(3) Some, of p']) (use s(1,2) in \<open>auto simp: part_keeps_def\<close>)
    ultimately show ?thesis by blast
  qed
  show "wal_inv (e', m')" using all by blast
  show "wal_has (e, m) ref rc \<Longrightarrow> wal_has (e', m') ref rc" using all by blast
qed

interpretation wal: record_store wal_inv wal_step wal_has "\<lambda>(e, m). ReadRecord e m" read_value
proof
  show "wal_inv s'" if "wal_inv s" "wal_step s s'" for s s'
    using that(2,1) by (cases rule: wal_step.cases) (auto intro: Append_spec(1) Sync_inv(1) EnsurePartition_inv(1))
  show "wal_has s' ref r" if "wal_inv s" "wal_step s s'" "wal_has s ref r" for s s' ref r
    using that(2,1,3)
    by (cases rule: wal_step.cases) (auto intro: Append_spec(2) Sync_inv(2) EnsurePartition_inv(2))
  show "(case s of (e, m) \<Rightarrow> ReadRecord e m) ref = Inr (read_value r)" if inv: "wal_inv s" and has: "wal_has s ref r" for s ref r
  proof -
    obtain e m where s: "s = (e, m)" by fastforce
    obtain p where p: "find_part m (r_part_id ref) = Some p" "pt_rfile p \<noteq> None"
      "rec_at (part_log e (wm_dir m) p) (r_offset ref) r"
      "pt_flushed_size p \<le> r_offset ref \<or> r_offset ref + length (rec_bytes r) \<le> pt_flushed_size p"
      using has by (auto simp: s wal_has_def)
    obtain a g b where ref: "ref = \<lparr>r_part_id = a, r_gen = g, r_offset = b\<rparr>" by (cases ref)
    show ?thesis
      using ReadRecord_rec [of e m a p b r g] inv p by (auto simp: s ref wal_inv_def)
  qed
qed

lemma find_new_manager:
  "find_part (new_WalManager dir n target) q = (if unat q < unat n then Some (new_Partition q) else None)"
proof -
  have "map_of (map (\<lambda>i. (of_nat i :: u32, new_Partition (of_nat i))) [0..<k]) q =
      (if unat q < k then Some (new_Partition q) else None)" if "k \<le> 2 ^ 32" for k
    using that
  proof (induction k)
    case (Suc k)
    have "q = of_nat k \<longleftrightarrow> unat q = k" using Suc.prems by (auto simp: unat_of_nat_small)
    then show ?case using Suc by (auto simp: map_add_def less_Suc_eq split: option.splits)
  qed simp
  then show ?thesis using unat_u32_less [of n] by (simp add: find_part_def new_WalManager_def)
qed

lemma new_WalManager_inv:
  assumes "\<And>part gen. e_content e (MakeFileName dir part gen) = None" "\<And>op. \<not> e_fail e op"
  shows "wal_inv (e, new_WalManager dir n target)"
proof -
  let ?m = "new_WalManager dir n target"
  have "unat (of_nat i :: u32) = i" if "i < unat n" for i
    by (rule unat_of_nat_small) (use that unat_u32_less [of n] in simp)
  then have "inj_on (\<lambda>i. of_nat i :: u32) {0..<unat n}"
    by (intro inj_onI) (metis atLeastLessThan_iff)
  then have "distinct (map fst (wm_parts ?m))"
    by (simp add: new_WalManager_def distinct_map comp_def)
  moreover have "wm_counter ?m = 0"
    by (simp add: wm_counter_def new_WalManager_def new_Partition_def comp_def)
  moreover have "wm_dir ?m = dir" "wm_total_active ?m = 0" by (simp_all add: new_WalManager_def)
  moreover have "part_wf e dir (new_Partition q)" "pt_part_id (new_Partition q) = q" "pt_wfile (new_Partition q) = None" for q
    using assms(1) by (simp_all add: new_Partition_def part_wf_def file_bytes_def FileName_def)
  ultimately show ?thesis
    using assms by (auto simp: wal_inv_def mgr_wf_def find_new_manager wm_paths_free_def split: if_splits)
qed

text \<open>C10: a value can be read back at the reference its append returned. In a well-formed manager
  without I/O failures, an append whose record fits 32 bits succeeds, its reference names the
  active generation and the size the partition had, and after any number of further appends to
  any partition, syncs and partition creations, reading the reference returns the value (the
  empty value for a deletion).\<close>

theorem append_then_read:
  assumes "wal_inv (e, m)" "find_part m part \<noteq> None" "28 + length key + length v < 2 ^ 32"
    "Append e m part key v t seq = (res, e1, m1)" "wal_step\<^sup>*\<^sup>* (e1, m1) (e2, m2)"
  shows "\<exists>ref. res = Inr ref \<and> r_gen ref = ActiveGen m part \<and> r_offset ref = ActiveSize m part \<and>
    ReadRecord e2 m2 ref = Inr (if t = kTypeDeletion then [] else v)"
proof -
  obtain ref where ref: "res = Inr ref" using Append_spec(4) [OF assms(4,1)] assms(2) by (cases res) auto
  have "wal_has (e1, m1) ref (append_header key v t seq, key, v)"
    using Append_spec(3) [OF assms(4,1,3)] ref by simp
  from wal.read_later [OF Append_spec(1) [OF assms(4,1)] this assms(5)]
  have "ReadRecord e2 m2 ref = Inr (if t = kTypeDeletion then [] else v)"
    by (simp add: read_value_def append_header_def)
  with ref Append_spec(5) [OF assms(4,1), of ref] show ?thesis by blast
qed

theorem append_then_read_witness:
  "\<exists>ref e1 m1. Append \<lparr>e_files = [], e_synced = [], e_fail = \<lambda>_. False\<rparr> (new_WalManager ''d'' 1 100) 0 [97] [98] 1 7 =
     (Inr ref, e1, m1) \<and> ReadRecord e1 m1 ref = Inr [98]"
proof -
  let ?e = "\<lparr>e_files = [], e_synced = [], e_fail = \<lambda>_. False\<rparr>" and ?m = "new_WalManager ''d'' 1 100"
  have inv: "wal_inv (?e, ?m)" by (rule new_WalManager_inv) (simp_all add: e_content_def)
  have find: "find_part ?m 0 \<noteq> None" by (simp add: find_part_def new_WalManager_def)
  obtain res e1 m1 where a: "Append ?e ?m 0 [97] [98] 1 7 = (res, e1, m1)" by (metis prod_cases3)
  have "\<exists>ref. res = Inr ref \<and> r_gen ref = ActiveGen ?m 0 \<and> r_offset ref = ActiveSize ?m 0 \<and>
    ReadRecord e1 m1 ref = Inr (if 1 = kTypeDeletion then [] else [98])"
    by (rule append_then_read [OF inv _ _ a]) (simp_all add: find)
  then show ?thesis using a by (auto simp: kTypeDeletion_def)
qed

section \<open>Sealing a generation\<close>

lemma seal_files_spec:
  assumes "seal_files e p = (e', p')" "part_wf e dir p" "\<forall>op. \<not> e_fail e op"
  shows "file_bytes e' (FileName dir p) = part_log e dir p" and "only_file (FileName dir p) e e'"
    and "pt_gen p' = pt_gen p" and "pt_part_id p' = pt_part_id p" and "pt_total_size p' = pt_total_size p"
    and "pt_wfile p' = None"
    and "pt_rfile p \<noteq> None \<Longrightarrow> e_content e' (FileName dir p) \<noteq> None"
proof -
  have "file_bytes e' (FileName dir p) = part_log e dir p \<and> only_file (FileName dir p) e e' \<and>
    pt_gen p' = pt_gen p \<and> pt_part_id p' = pt_part_id p \<and> pt_total_size p' = pt_total_size p \<and>
    pt_wfile p' = None \<and> (pt_rfile p \<noteq> None \<longrightarrow> e_content e' (FileName dir p) \<noteq> None)"
  proof (cases "pt_wfile p")
    case None
    then show ?thesis using assms by (auto simp: seal_files_def part_wf_def part_log_def)
  next
    case (Some f)
    obtain r1 e1 p1 where fl: "FlushBuf e p = (r1, e1, p1)" by (metis prod_cases3)
    note k = FlushBuf_keeps [OF fl assms(2) disjI1 [OF no_fail_whole [OF assms(3)]]]
    obtain r2 e2 where sy: "file_Sync e1 f = (r2, e2)" by fastforce
    have out: "e' = e2" "p' = p1\<lparr>pt_wfile := None\<rparr>" using assms(1) Some fl sy by (auto simp: seal_files_def)
    have "part_log e1 dir p1 = file_bytes e1 (FileName dir p)"
      using k(2) k(3) [OF assms(3)] part_keeps_FileName [OF k(1)] by (simp add: part_log_def)
    then have "file_bytes e' (FileName dir p) = part_log e dir p"
      using k(1) file_Sync_content(1) [OF sy] out(1) by (simp add: part_keeps_def file_bytes_def)
    moreover have "only_file (FileName dir p) e e'"
      using k(1) file_Sync_content(1,2) [OF sy] out(1) by (simp add: part_keeps_def only_file_def)
    moreover have "e_content e' (FileName dir p) \<noteq> None"
    proof -
      have "pt_wfile p1 \<noteq> None" "part_wf e1 dir p1" using k(1,4) Some by (simp_all add: part_keeps_def)
      then have "e_content e1 (FileName dir p1) \<noteq> None" by (simp add: part_wf_def)
      then show ?thesis using file_Sync_content(1) [OF sy] out(1) part_keeps_FileName [OF k(1)] by simp
    qed
    ultimately show ?thesis using k(1) out(2) by (simp add: part_keeps_def)
  qed
  then show "file_bytes e' (FileName dir p) = part_log e dir p" and "only_file (FileName dir p) e e'"
    and "pt_gen p' = pt_gen p" and "pt_part_id p' = pt_part_id p" and "pt_total_size p' = pt_total_size p"
    and "pt_wfile p' = None" and "pt_rfile p \<noteq> None \<Longrightarrow> e_content e' (FileName dir p) \<noteq> None" by auto
qed

lemma OpenGen_fresh:
  assumes "OpenGen e dir p = (r, e', p')" "\<forall>op. \<not> e_fail e op" "pt_buf p = []" "pt_total_size p = 0"
    "pt_flushed_size p = 0" "pt_active_bytes p = 0"
  shows "part_wf e' dir p'" and "part_log e' dir p' = []" and "only_file (FileName dir p) e e'"
    and "pt_gen p' = pt_gen p" and "pt_part_id p' = pt_part_id p" and "pt_rfile p' \<noteq> None"
    and "pt_total_size p' = 0" and "pt_active_bytes p' = 0"
  using assms
  by (auto simp: OpenGen_def NewWritableFile_def NewRandomAccessFile_def Let_def part_wf_def part_log_def
      FileName_def file_bytes_def only_file_def)

text \<open>All of \<^verbatim>\<open>Freeze\<close> on a managed partition when no operation fails.\<close>

lemma Freeze_spec:
  assumes res: "Freeze e m part = (fr, e', m')" and inv: "wal_inv (e, m)" and p: "find_part m part = Some p"
  shows "fr = Some \<lparr>fr_old_gen = pt_gen p, fr_sealed_bytes = length (part_log e (wm_dir m) p),
      fr_sealed_path = MakeFileName (wm_dir m) part (pt_gen p)\<rparr>"
    and "file_bytes e' (MakeFileName (wm_dir m) part (pt_gen p)) = part_log e (wm_dir m) p"
    and "pt_rfile p \<noteq> None \<Longrightarrow> e_content e' (MakeFileName (wm_dir m) part (pt_gen p)) \<noteq> None"
    and "wal_inv (e', m')" and "ActiveGen m' part = pt_gen p + 1" and "ActiveSize m' part = 0"
    and "\<And>q. q \<noteq> part \<Longrightarrow> find_part m' q = find_part m q"
    and "wm_total_active m' = wm_total_active m - of_nat (length (part_log e (wm_dir m) p))"
    and "wm_dir m' = wm_dir m"
    and "\<And>q. q \<notin> {MakeFileName (wm_dir m) part g | g. True} \<Longrightarrow> e_content e' q = e_content e q"
    and "\<And>q. q \<noteq> MakeFileName (wm_dir m) part (pt_gen p) \<Longrightarrow> q \<noteq> MakeFileName (wm_dir m) part (pt_gen p + 1) \<Longrightarrow>
      e_content e' q = e_content e q"
proof -
  let ?dir = "wm_dir m"
  have wf: "mgr_wf e m" and nf: "\<forall>op. \<not> e_fail e op" using inv by (auto simp: wal_inv_def)
  have id: "pt_part_id p = part" and wfp: "part_wf e ?dir p" using wf p by (auto simp: mgr_wf_def)
  have tot: "pt_total_size p = length (part_log e ?dir p)" using wfp by (simp add: part_wf_def part_log_def)
  have path: "FileName ?dir p = MakeFileName ?dir part (pt_gen p)" by (simp add: FileName_def id)
  obtain e1 p1 where se: "seal_files e p = (e1, p1)" by fastforce
  note s1 = seal_files_spec [OF se wfp nf]
  define p2 where "p2 = p1\<lparr>pt_rfile := None, pt_gen := pt_gen p1 + 1, pt_flushed_size := 0, pt_total_size := 0,
      pt_buf := [], pt_active_bytes := 0\<rparr>"
  obtain r3 e3 p3 where og: "OpenGen e1 ?dir p2 = (r3, e3, p3)" by (metis prod_cases3)
  have nf1: "\<forall>op. \<not> e_fail e1 op" using s1(2) nf by (simp add: only_file_def)
  have s3: "part_wf e3 ?dir p3" "part_log e3 ?dir p3 = []" "only_file (FileName ?dir p2) e1 e3"
    "pt_gen p3 = pt_gen p + 1" "pt_part_id p3 = part" "pt_rfile p3 \<noteq> None" "pt_total_size p3 = 0" "pt_active_bytes p3 = 0"
    using OpenGen_fresh [OF og nf1] s1(3,4) id by (simp_all add: p2_def)
  have new_path: "FileName ?dir p2 = MakeFileName ?dir part (pt_gen p + 1)" using s1(3,4) id by (simp add: FileName_def p2_def)
  have ne: "MakeFileName ?dir part (pt_gen p) \<noteq> FileName ?dir p2" by (simp add: new_path)
  have out: "fr = Some \<lparr>fr_old_gen = pt_gen p, fr_sealed_bytes = pt_total_size p,
      fr_sealed_path = MakeFileName ?dir part (pt_gen p)\<rparr>" "e' = e3"
    "m' = (set_part m part p3)\<lparr>wm_total_active := wm_total_active m - of_nat (pt_total_size p)\<rparr>"
    using res p se og s1(3,5) by (auto simp: Freeze_def Let_def p2_def set_part_def)
  show "fr = Some \<lparr>fr_old_gen = pt_gen p, fr_sealed_bytes = length (part_log e ?dir p),
      fr_sealed_path = MakeFileName ?dir part (pt_gen p)\<rparr>" using out(1) tot by simp
  have same: "e_content e3 (MakeFileName ?dir part (pt_gen p)) = e_content e1 (MakeFileName ?dir part (pt_gen p))"
    using s3(3) ne by (simp add: only_file_def)
  then show "file_bytes e' (MakeFileName ?dir part (pt_gen p)) = part_log e ?dir p"
    using s1(1) out(2) path by (simp add: file_bytes_def)
  show "e_content e' (MakeFileName ?dir part (pt_gen p)) \<noteq> None" if "pt_rfile p \<noteq> None"
    using s1(7) [OF that] same out(2) path by simp
  show frame: "e_content e' q = e_content e q" if "q \<notin> {MakeFileName ?dir part g | g. True}" for q
    using that s1(2) s3(3) out(2) path new_path by (auto simp: only_file_def)
  show "e_content e' q = e_content e q" if "q \<noteq> MakeFileName ?dir part (pt_gen p)" "q \<noteq> MakeFileName ?dir part (pt_gen p + 1)" for q
    using that s1(2) s3(3) out(2) path new_path by (auto simp: only_file_def)
  show other: "find_part m' q = find_part m q" if "q \<noteq> part" for q using out(3) that by simp
  show dir: "wm_dir m' = ?dir" using out(3) by simp
  show "wm_total_active m' = wm_total_active m - of_nat (length (part_log e ?dir p))" using out(3) tot by simp
  show "ActiveGen m' part = pt_gen p + 1" "ActiveSize m' part = 0" using out(3) s3 by (simp_all add: ActiveGen_def ActiveSize_def)
  have act: "pt_active_bytes p = of_nat (pt_total_size p)" using wfp by (simp add: part_wf_def)
  have wf': "mgr_wf e' m'"
    by (rule mgr_wf_set_part [OF wf disjI1 [OF p] s3(5) _ frame, where b = "wm_any_over m"])
      (use s3(1,8) out act in \<open>auto simp: set_part_def\<close>)
  show "wal_inv (e', m')"
    unfolding wal_inv_def prod.case
  proof (intro conjI allI impI)
    show "pt_rfile w \<noteq> None" if "find_part m' q = Some w \<and> pt_wfile w \<noteq> None" for q w
      using that inv out(3) s3(6) by (cases "q = part") (auto simp: wal_inv_def)
  qed (use wf' nf1 s3(3) out(2) in \<open>auto simp: only_file_def\<close>)
qed

text \<open>C12: sealing keeps every record readable. In a well-formed manager without I/O failures,
  \<^verbatim>\<open>Freeze\<close> returns the active generation, its size and its file name, the sealed file then
  holds exactly the partition's log, the partition starts an empty next generation, the total
  counter drops by the sealed size, the invariant is kept, and every record that could be read
  from the partition before is returned by the sealed-file read at the same reference.\<close>

theorem freeze_keeps_records:
  assumes "wal_inv (e, m)" "find_part m part = Some p" "Freeze e m part = (fr, e', m')"
  shows "fr = Some \<lparr>fr_old_gen = ActiveGen m part, fr_sealed_bytes = ActiveSize m part,
      fr_sealed_path = MakeFileName (wm_dir m) part (ActiveGen m part)\<rparr> \<and>
    file_bytes e' (MakeFileName (wm_dir m) part (ActiveGen m part)) = part_log e (wm_dir m) p \<and>
    wal_inv (e', m') \<and> ActiveGen m' part = ActiveGen m part + 1 \<and> ActiveSize m' part = 0 \<and>
    wm_total_active m' = wm_total_active m - of_nat (ActiveSize m part) \<and>
    (\<forall>ref r. wal_has (e, m) ref r \<and> r_part_id ref = part \<longrightarrow>
       ReadFromSealed e' (MakeFileName (wm_dir m) part (ActiveGen m part)) ref = Inr (read_value r))"
proof -
  note sp = Freeze_spec [OF assms(3,1,2)]
  let ?f = "MakeFileName (wm_dir m) part (pt_gen p)"
  have wfp: "part_wf e (wm_dir m) p" using assms(1,2) by (auto simp: wal_inv_def mgr_wf_def)
  have tot: "ActiveSize m part = length (part_log e (wm_dir m) p)" "ActiveGen m part = pt_gen p"
    using wfp assms(2) by (simp_all add: ActiveSize_def ActiveGen_def part_wf_def part_log_def)
  have "ReadFromSealed e' ?f ref = Inr (read_value r)"
    if has: "wal_has (e, m) ref r" "r_part_id ref = part" for ref r
  proof -
    have at: "rec_at (part_log e (wm_dir m) p) (r_offset ref) r" and rf: "pt_rfile p \<noteq> None"
      using has assms(2) by (auto simp: wal_has_def)
    obtain c where c: "e_content e' ?f = Some c" using sp(3) [OF rf] by blast
    then have "rec_at c (r_offset ref) r" using sp(2) at by (simp add: file_bytes_def)
    moreover have "\<not> e_fail e' (EnvRead ?f)" using sp(4) by (simp add: wal_inv_def)
    moreover obtain a g b where "ref = \<lparr>r_part_id = a, r_gen = g, r_offset = b\<rparr>" by (cases ref)
    ultimately show ?thesis using ReadFromSealed_rec [OF c] by simp
  qed
  with sp tot show ?thesis by simp
qed

theorem freeze_keeps_records_witness:
  "\<exists>fr e' m'. Freeze \<lparr>e_files = [], e_synced = [], e_fail = \<lambda>_. False\<rparr> (new_WalManager ''d'' 1 100) 0 = (Some fr, e', m') \<and>
     fr_old_gen fr = 0 \<and> ActiveGen m' 0 = 1 \<and> wal_inv (e', m')"
proof -
  let ?e = "\<lparr>e_files = [], e_synced = [], e_fail = \<lambda>_. False\<rparr>" and ?m = "new_WalManager ''d'' 1 100"
  have inv: "wal_inv (?e, ?m)" by (rule new_WalManager_inv) (simp_all add: e_content_def)
  have find: "find_part ?m 0 = Some (new_Partition 0)" by (simp add: find_new_manager)
  obtain fr e' m' where f: "Freeze ?e ?m 0 = (fr, e', m')" by (metis prod_cases3)
  have "ActiveGen ?m 0 = 0" by (simp add: ActiveGen_def find new_Partition_def)
  with freeze_keeps_records [OF inv find f] f show ?thesis by auto
qed

text \<open>C13: what was synced survives a crash. If the log of a partition consists of records of at most one scan
  chunk (1 MiB) each and a sync reports success, then after any crash that keeps at least the durable
  part of every file, scanning the partition's active file returns every record of the log, in order
  and with a clean status. The limit is the scanner's: a longer record is durable as well, but the scan
  may stop in front of it, and does so beyond two chunks (\<open>scan_rejects_long_record\<close> in \<open>ZfWalScanner\<close>).\<close>

theorem synced_survives_crash:
  assumes "mgr_wf e m" "find_part m part = Some p"
    "part_log e (wm_dir m) p = concat (map rec_bytes recs)" "recs \<noteq> []" "\<forall>r \<in> set recs. rec_ok r"
    "Sync e m part = (Inr (), e1, m1)" "crash_of e1 e2" "\<forall>op. \<not> e_fail e2 op"
  shows "\<exists>s. scan_file e2 (wm_dir m) part (pt_gen p) = Some (recs, s) \<and> sc_status s = Inr ()"
proof -
  let ?f = "FileName (wm_dir m) p"
  have id: "pt_part_id p = part" using assms(1,2) by (auto simp: mgr_wf_def)
  have "whole_appends e \<or> is_ok (Inr () :: unit zf_result)" by (simp add: is_ok_def)
  note sync = Sync_spec [OF assms(6,1,2) this]
  obtain p' where s: "part_keeps (wm_dir m) e p e1 p'" "pt_buf p' = []"
    "e_durable e1 ?f = length (part_log e (wm_dir m) p)" "m1 = set_part m part p'"
    by (rule sync) (rule that; simp)
  have f': "FileName (wm_dir m) p' = ?f" by (rule part_keeps_FileName [OF s(1)])
  have bytes: "file_bytes e1 ?f = part_log e (wm_dir m) p" using s(1,2) f' by (simp add: part_keeps_def part_log_def)
  have ne: "part_log e (wm_dir m) p \<noteq> []"
  proof -
    obtain r where "r \<in> set recs" using assms(4) by (cases recs) auto
    then show ?thesis using assms(3) length_rec_bytes_ge [of r] by (force simp: concat_eq_Nil_conv)
  qed
  then obtain c where c: "e_content e1 ?f = Some c" using bytes by (auto simp: file_bytes_def split: option.splits)
  then have cl: "c = part_log e (wm_dir m) p" using bytes by (simp add: file_bytes_def)
  obtain n where n: "length c \<le> n" "e_content e2 ?f = Some (take n c)"
    using assms(7) c s(3) ne cl unfolding crash_of_def by (metis length_0_conv)
  then have cont: "e_content e2 (MakeFileName (wm_dir m) part (pt_gen p)) = Some (concat (map rec_bytes recs))"
    using cl assms(3) id by (simp add: FileName_def)
  from scan_file_valid [OF cont assms(5)] assms(8) show ?thesis by blast
qed

theorem synced_survives_crash_witness:
  "\<exists>e1 m1 s. Sync \<lparr>e_files = [(MakeFileName ''d'' 0 0, [])], e_synced = [], e_fail = \<lambda>_. False\<rparr>
      \<lparr>wm_dir = ''d'', wm_partitions = 1, wm_target = 100, wm_parts = [(0, \<lparr>pt_part_id = 0,
         pt_wfile = Some (MakeFileName ''d'' 0 0), pt_rfile = Some (MakeFileName ''d'' 0 0),
         pt_buf = rec_bytes (append_header [97] [98] 1 7, [97], [98]), pt_flushed_size = 0, pt_total_size = 30,
         pt_active_bytes = 30, pt_gen = 0\<rparr>)], wm_total_active = 30, wm_any_over = False\<rparr> 0 = (Inr (), e1, m1) \<and>
    scan_file e1 ''d'' 0 0 = Some ([(append_header [97] [98] 1 7, [97], [98])], s) \<and> sc_status s = Inr ()"
proof -
  define r :: zf_rec where "r = (append_header [97] [98] 1 7, [97], [98])"
  define f where "f = MakeFileName ''d'' 0 0"
  let ?p = "\<lparr>pt_part_id = 0, pt_wfile = Some f, pt_rfile = Some f, pt_buf = rec_bytes r, pt_flushed_size = 0,
     pt_total_size = 30, pt_active_bytes = 30, pt_gen = 0\<rparr>"
  let ?e = "\<lparr>e_files = [(f, [])], e_synced = [], e_fail = \<lambda>_. False\<rparr>"
  let ?m = "\<lparr>wm_dir = ''d'', wm_partitions = 1, wm_target = 100, wm_parts = [(0, ?p)], wm_total_active = 30, wm_any_over = False\<rparr>"
  let ?e1 = "\<lparr>e_files = [(f, rec_bytes r)], e_synced = [(f, 30)], e_fail = \<lambda>_. False\<rparr>"
  have len: "length (rec_bytes r) = 30" "rec_bytes r \<noteq> []"
    using length_rec_bytes_ge [of r] by (simp add: r_def, fastforce)
  have find: "find_part ?m q = (if q = 0 then Some ?p else None)" for q by (simp add: find_part_def)
  have "part_wf ?e ''d'' ?p" by (simp add: part_wf_def FileName_def f_def file_bytes_def e_content_def len)
  moreover have "wm_paths_free ?e ?m" by (auto simp: wm_paths_free_def find_part_def e_content_def f_def)
  moreover have "wm_counter ?m = 30" by (simp add: wm_counter_def)
  ultimately have wf: "mgr_wf ?e ?m" unfolding mgr_wf_def by (simp add: find)
  have sync: "Sync ?e ?m 0 = (Inr (), ?e1, set_part ?m 0 (?p\<lparr>pt_flushed_size := 30, pt_buf := []\<rparr>))"
    by (simp add: Sync_def find EnsureOpenForWrite_def FlushBuf_def len file_Append_def file_Sync_def e_put_def
        e_content_def)
  have "crash_of ?e1 ?e1" by (auto simp: crash_of_def e_content_def e_durable_def len intro: exI [of _ 30])
  moreover have "rec_ok r" by (simp add: rec_ok_def r_def append_header_ok kScanChunkSize_def)
  ultimately have "\<exists>s. scan_file ?e1 (wm_dir ?m) 0 (pt_gen ?p) = Some ([r], s) \<and> sc_status s = Inr ()"
    by (intro synced_survives_crash [OF wf _ _ _ _ sync])
      (simp_all add: find_part_def part_log_def file_bytes_def FileName_def f_def e_content_def)
  then show ?thesis using sync unfolding r_def f_def by auto
qed

section \<open>Reopening the range-deletion partition\<close>

text \<open>The range-deletion partition reads a stale record after a reopen. \<^verbatim>\<open>Open\<close> restores only
  partitions below the configured count, so the special partition starts again with size 0 while
  its old file is still there and is appended to. The reference of the first new append then has
  offset 0, and after a sync it reads the old record's value.\<close>

theorem range_del_partition_reopen:
  assumes "\<And>op. \<not> e_fail e op" "find_part m kRangeDelPartId = None"
    "e_content e (MakeFileName (wm_dir m) kRangeDelPartId 0) = Some (rec_bytes r @ rest)"
    "case r of (h, k, v) \<Rightarrow> zf_frame_ok h k v" "28 + length key + length v < 4096"
    "Append e m kRangeDelPartId key v t seq = (res, e1, m1)" "Sync e1 m1 kRangeDelPartId = (sres, e2, m2)"
  shows "\<exists>ref. res = Inr ref \<and> sres = Inr () \<and> ReadRecord e2 m2 ref = Inr (read_value r)"
proof -
  let ?f = "MakeFileName (wm_dir m) kRangeDelPartId 0" and ?rec = "EncodeZfRecord (append_header key v t seq) key v"
  let ?p = "\<lparr>pt_part_id = kRangeDelPartId, pt_wfile = Some ?f, pt_rfile = Some ?f, pt_buf = ?rec, pt_flushed_size = 0,
     pt_total_size = length ?rec, pt_active_bytes = of_nat (length ?rec), pt_gen = 0\<rparr>"
  let ?ref = "\<lparr>r_part_id = kRangeDelPartId, r_gen = 0, r_offset = 0\<rparr>"
  have rec: "?rec \<noteq> []" by (metis length_EncodeZfRecord list.size(3) add_is_0 numeral_neq_zero)
  have app: "res = Inr ?ref" "e1 = e" "find_part m1 kRangeDelPartId = Some ?p" "wm_dir m1 = wm_dir m"
    using assms(1-3,5,6)
    by (auto simp: Append_def Let_def append_to_def EnsureOpenForWrite_def FileName_def new_Partition_def
        ReopenWritableFile_def NewRandomAccessFile_def append_buffer_def set_part_def find_part_def update_conv')
  let ?e2 = "e_put e ?f (rec_bytes r @ rest @ ?rec)"
  have sync: "sres = Inr ()" "e_content e2 = e_content ?e2" "e_fail e2 = e_fail e"
    "find_part m2 kRangeDelPartId = Some (?p\<lparr>pt_flushed_size := length ?rec, pt_buf := []\<rparr>)"
    using assms(1,3,7) app rec
    by (auto simp: Sync_def EnsureOpenForWrite_def FlushBuf_def file_Append_def file_Sync_def fun_eq_iff)
  have read: "file_Read e2 ?f i n = Inr (take n (drop i (rec_bytes r @ rest @ ?rec)))" for i n
    using sync assms(1) by (simp add: file_Read_def slice_def)
  have n: "28 \<le> length (rec_bytes r)" by (rule length_rec_bytes_ge)
  have tot: "record_total (take 24 (rec_bytes r)) = length (rec_bytes r)"
    by (rule record_total_rec [OF assms(4), where rest = "[]" and q = "drop 24 (rec_bytes r)"]) (use n in simp_all)
  have "ReadRecord e2 m2 ?ref = Inr (read_value r)"
    using sync rec n tot read [of 0 24] read [of 24 "length (rec_bytes r) - 24"] finish_read_rec [OF assms(4)]
    by (simp add: ReadRecord_def Let_def)
  with app(1) sync(1) show ?thesis by blast
qed

theorem range_del_partition_reopen_witness:
  "\<exists>ref e1 m1 e2 m2.
     Append \<lparr>e_files = [(MakeFileName ''d'' kRangeDelPartId 0, rec_bytes (append_header [97] [98] kTypeRangeDeletion 1, [97], [98]))],
        e_synced = [], e_fail = \<lambda>_. False\<rparr> (new_WalManager ''d'' 4 100) kRangeDelPartId [99] [100] kTypeRangeDeletion 9 = (Inr ref, e1, m1) \<and>
     Sync e1 m1 kRangeDelPartId = (Inr (), e2, m2) \<and> ReadRecord e2 m2 ref = Inr [98]"
proof -
  let ?r = "(append_header [97] [98] kTypeRangeDeletion 1, [97], [98]) :: zf_rec" and ?m = "new_WalManager ''d'' 4 100"
  let ?e = "\<lparr>e_files = [(MakeFileName ''d'' kRangeDelPartId 0, rec_bytes ?r)], e_synced = [], e_fail = \<lambda>_. False\<rparr>"
  obtain res e1 m1 where a: "Append ?e ?m kRangeDelPartId [99] [100] kTypeRangeDeletion 9 = (res, e1, m1)" by (metis prod_cases3)
  obtain sres e2 m2 where b: "Sync e1 m1 kRangeDelPartId = (sres, e2, m2)" by (metis prod_cases3)
  have "\<exists>ref. res = Inr ref \<and> sres = Inr () \<and> ReadRecord e2 m2 ref = Inr (read_value ?r)"
  proof (rule range_del_partition_reopen [OF _ _ _ _ _ a b])
    show "find_part ?m kRangeDelPartId = None" by (simp add: find_new_manager kRangeDelPartId_def)
    show "e_content ?e (MakeFileName (wm_dir ?m) kRangeDelPartId 0) = Some (rec_bytes ?r @ [])"
      by (simp add: e_content_def new_WalManager_def)
  qed (simp_all add: append_header_ok)
  then show ?thesis using a b by (auto simp: read_value_def append_header_def kTypeRangeDeletion_def kTypeDeletion_def)
qed

end
