(* ===== verification/ZfSealedCache.thy ===== *)
theory ZfSealedCache
  imports ZfEnv
begin

text \<open>
  \<^verbatim>\<open>SealedFileCache\<close> of \<^verbatim>\<open>zeroflush/sealed_file_cache.h\<close> and
  \<^verbatim>\<open>sealed_file_cache.cc\<close>: which sealed WAL generations belong to which epoch, how often each
  is referenced, which may be deleted, and an LRU of open read handles. Hash maps and sets are
  association lists and lists whose order is the iteration order; byte counters keep their 64
  bits. The clock (\<^verbatim>\<open>NowMicros\<close>) is an argument.
\<close>

section \<open>State\<close>

definition MakeFileKey :: "u32 \<Rightarrow> u32 \<Rightarrow> u64" where
  "MakeFileKey part gen = push_bit 32 (ucast part) OR ucast gen"

definition key_part :: "u64 \<Rightarrow> u32" where "key_part k = ucast (drop_bit 32 k)"
definition key_gen :: "u64 \<Rightarrow> u32" where "key_gen k = ucast k"

record SealedEpoch =
  se_epoch :: u64
  se_gens :: "(u32 \<times> u32) list"
  se_total_bytes :: u64
  se_part_bytes :: "(u32 \<times> u64) list"
  se_has_adopted_orphans :: bool
  se_has_adopted_skips :: bool
  se_sealed_at_micros :: u64
  se_table_version :: u32

record SealedFileCache =
  sf_dir :: string
  sf_capacity :: u32
  sf_reclaim :: bool
  sf_epochs :: "(u64 \<times> SealedEpoch) list"
  sf_gen_refs :: "(u64 \<times> (u64 \<times> u32) list) list"
  sf_handles :: "(u64 \<times> string) list"
  sf_lru :: "u64 list"
  sf_pending :: "string list"
  sf_recovery_gens :: "u64 list"
  sf_recovery_bytes :: u64
  sf_recovery_part_bytes :: "(u32 \<times> u64) list"
  sf_skip_gens :: "u64 list"
  sf_skip_bytes :: u64
  sf_skip_part_bytes :: "(u32 \<times> u64) list"
  sf_sealed_bytes :: u64
  sf_read_count :: u64
  sf_cache_miss :: u64
  sf_materialized_epochs :: u64
  sf_materialize_micros :: u64
  sf_reclaimed_epochs :: u64
  sf_pending_epochs :: u64

definition new_SealedFileCache :: "string \<Rightarrow> u32 \<Rightarrow> bool \<Rightarrow> SealedFileCache" where
  "new_SealedFileCache dir capacity reclaim =
     \<lparr> sf_dir = dir, sf_capacity = capacity, sf_reclaim = reclaim, sf_epochs = [], sf_gen_refs = [],
       sf_handles = [], sf_lru = [], sf_pending = [], sf_recovery_gens = [], sf_recovery_bytes = 0,
       sf_recovery_part_bytes = [], sf_skip_gens = [], sf_skip_bytes = 0, sf_skip_part_bytes = [],
       sf_sealed_bytes = 0, sf_read_count = 0, sf_cache_miss = 0, sf_materialized_epochs = 0,
       sf_materialize_micros = 0, sf_reclaimed_epochs = 0, sf_pending_epochs = 0 \<rparr>"

definition sealed_FileName :: "SealedFileCache \<Rightarrow> u32 \<Rightarrow> u32 \<Rightarrow> string" where
  "sealed_FileName s part gen = MakeFileName (sf_dir s) part gen"

text \<open>\<^verbatim>\<open>m[k] += v\<close>, \<^verbatim>\<open>set.emplace\<close>.\<close>

definition bump :: "u32 \<Rightarrow> u64 \<Rightarrow> (u32 \<times> u64) list \<Rightarrow> (u32 \<times> u64) list" where
  "bump k v m = AList.update k ((case map_of m k of None \<Rightarrow> 0 | Some x \<Rightarrow> x) + v) m"

definition bump_all :: "(u32 \<times> u64) list \<Rightarrow> (u32 \<times> u64) list \<Rightarrow> (u32 \<times> u64) list" where
  "bump_all src m = foldl (\<lambda>m (k, v). bump k v m) m src"

definition emplace :: "u64 \<Rightarrow> u64 list \<Rightarrow> u64 list" where
  "emplace k xs = (if k \<in> set xs then xs else xs @ [k])"

definition emplace_gens :: "(u32 \<times> u32) list \<Rightarrow> u64 list \<Rightarrow> u64 list" where
  "emplace_gens gens xs = foldl (\<lambda>xs (part, gen). emplace (MakeFileKey part gen) xs) xs gens"

section \<open>Registering epochs\<close>

definition adopt :: "u64 list \<Rightarrow> u64 \<Rightarrow> (u32 \<times> u64) list \<Rightarrow> SealedEpoch \<Rightarrow> SealedEpoch" where
  "adopt keys bytes part_bytes e =
     e \<lparr> se_gens := se_gens e @ map (\<lambda>k. (key_part k, key_gen k)) keys,
         se_total_bytes := se_total_bytes e + bytes,
         se_part_bytes := bump_all part_bytes (se_part_bytes e) \<rparr>"

definition adopt_recovery :: "SealedFileCache \<times> SealedEpoch \<Rightarrow> SealedFileCache \<times> SealedEpoch" where
  "adopt_recovery = (\<lambda>(s, e).
     if sf_recovery_gens s = [] then (s, e)
     else (s \<lparr> sf_recovery_gens := [], sf_recovery_bytes := 0, sf_recovery_part_bytes := [] \<rparr>,
           (adopt (sf_recovery_gens s) (sf_recovery_bytes s) (sf_recovery_part_bytes s) e)
             \<lparr> se_has_adopted_orphans := True \<rparr>))"

definition adopt_skips :: "SealedFileCache \<times> SealedEpoch \<Rightarrow> SealedFileCache \<times> SealedEpoch" where
  "adopt_skips = (\<lambda>(s, e).
     if sf_skip_gens s = [] then (s, e)
     else (s \<lparr> sf_skip_gens := [], sf_skip_bytes := 0, sf_skip_part_bytes := [] \<rparr>,
           (adopt (sf_skip_gens s) (sf_skip_bytes s) (sf_skip_part_bytes s) e)
             \<lparr> se_has_adopted_skips := True \<rparr>))"

definition refs_of :: "(u32 \<times> u32) list \<Rightarrow> u32 \<Rightarrow> (u64 \<times> u32) list \<Rightarrow> (u64 \<times> u32) list" where
  "refs_of gens refcount m = foldl (\<lambda>m (part, gen). AList.update (MakeFileKey part gen) refcount m) m gens"

definition AddEpochWithRecoveryAdoption :: "SealedFileCache \<Rightarrow> u64 \<Rightarrow> SealedEpoch \<Rightarrow> u32 \<Rightarrow> SealedFileCache" where
  "AddEpochWithRecoveryAdoption s now e refcount =
     (if map_of (sf_epochs s) (se_epoch e) \<noteq> None then s
      else
       let (s, merged) = adopt_skips (adopt_recovery (s, e));
           merged = merged \<lparr> se_sealed_at_micros := now \<rparr>;
           old = (case map_of (sf_gen_refs s) (se_epoch merged) of None \<Rightarrow> [] | Some m \<Rightarrow> m)
       in s \<lparr> sf_epochs := sf_epochs s @ [(se_epoch merged, merged)],
              sf_gen_refs := AList.update (se_epoch merged) (refs_of (se_gens merged) refcount old) (sf_gen_refs s),
              sf_sealed_bytes := sf_sealed_bytes s + se_total_bytes merged \<rparr>)"

definition AddRecoveryGens :: "SealedFileCache \<Rightarrow> (u32 \<times> u32) list \<Rightarrow> u64 \<Rightarrow> SealedFileCache" where
  "AddRecoveryGens s gens total_bytes =
     s \<lparr> sf_recovery_gens := emplace_gens gens (sf_recovery_gens s),
         sf_recovery_bytes := sf_recovery_bytes s + total_bytes \<rparr>"

section \<open>Handing generations over and releasing them\<close>

text \<open>The settlement shared by the two ways an epoch loses its last reference: count it, and drop
  its registration and bytes.\<close>

definition settle_epoch :: "SealedFileCache \<Rightarrow> u64 \<Rightarrow> u64 \<Rightarrow> SealedFileCache" where
  "settle_epoch s now epoch =
     (let s = s \<lparr> sf_gen_refs := AList.delete epoch (sf_gen_refs s) \<rparr>
      in case map_of (sf_epochs s) epoch of
           None \<Rightarrow> s
         | Some se \<Rightarrow>
             s \<lparr> sf_materialized_epochs := sf_materialized_epochs s + 1,
                 sf_materialize_micros := sf_materialize_micros s + (now - se_sealed_at_micros se),
                 sf_pending_epochs := (if sf_reclaim s then sf_pending_epochs s + 1 else sf_pending_epochs s),
                 sf_sealed_bytes := sf_sealed_bytes s - se_total_bytes se,
                 sf_epochs := AList.delete epoch (sf_epochs s) \<rparr>)"

text \<open>Step 1 of the hand-over: take the generations, and the bytes of their partitions, out of the
  epoch.\<close>

definition drop_part_bytes :: "(u32 \<times> u32) list \<Rightarrow> SealedEpoch \<Rightarrow> SealedEpoch" where
  "drop_part_bytes gens se = foldl (\<lambda>se (part, gen).
     case map_of (se_part_bytes se) part of
       None \<Rightarrow> se
     | Some b \<Rightarrow> se \<lparr> se_total_bytes := se_total_bytes se - b, se_part_bytes := AList.delete part (se_part_bytes se) \<rparr>)
     se gens"

definition remove_gens :: "(u32 \<times> u32) list \<Rightarrow> SealedEpoch \<Rightarrow> SealedEpoch" where
  "remove_gens gens se = drop_part_bytes gens (se \<lparr> se_gens := filter (\<lambda>g. g \<notin> set gens) (se_gens se) \<rparr>)"

definition erase_refs :: "(u32 \<times> u32) list \<Rightarrow> (u64 \<times> u32) list \<Rightarrow> (u64 \<times> u32) list" where
  "erase_refs gens m = foldl (\<lambda>m (part, gen). AList.delete (MakeFileKey part gen) m) m gens"

definition HandOffSkippedToRecovery ::
    "SealedFileCache \<Rightarrow> u64 \<Rightarrow> u64 \<Rightarrow> (u32 \<times> u32) list \<Rightarrow> (u32 \<times> u64) list \<Rightarrow> SealedFileCache" where
  "HandOffSkippedToRecovery s now epoch gens part_bytes =
     (let s = (case map_of (sf_epochs s) epoch of
                 None \<Rightarrow> s
               | Some se \<Rightarrow> s \<lparr> sf_epochs := AList.update epoch (remove_gens gens se) (sf_epochs s) \<rparr>);
          s = s \<lparr> sf_skip_gens := emplace_gens gens (sf_skip_gens s),
                  sf_skip_part_bytes := bump_all part_bytes (sf_skip_part_bytes s),
                  sf_skip_bytes := sf_skip_bytes s + sum_list (map snd part_bytes) \<rparr>
      in case map_of (sf_gen_refs s) epoch of
           None \<Rightarrow> s
         | Some refs \<Rightarrow>
             let refs = erase_refs gens refs
             in if refs = [] then settle_epoch s now epoch
                else s \<lparr> sf_gen_refs := AList.update epoch refs (sf_gen_refs s) \<rparr>)"

text \<open>One generation of \<^verbatim>\<open>ReleaseGens\<close>: the reference map, the names to unlink and the
  generations still registered with the epoch.\<close>

definition release_gen :: "SealedFileCache \<Rightarrow> u32 \<times> u32 \<Rightarrow>
    (u64 \<times> u32) list \<times> string list \<times> (u32 \<times> u32) list \<Rightarrow> (u64 \<times> u32) list \<times> string list \<times> (u32 \<times> u32) list" where
  "release_gen s g st =
     (case st of (refs, unlink, egens) \<Rightarrow> case g of (part, gen) \<Rightarrow>
        let key = MakeFileKey part gen
        in case map_of refs key of
             None \<Rightarrow> st
           | Some n \<Rightarrow>
               if n - 1 > 0 then (AList.update key (n - 1) refs, unlink, egens)
               else (AList.delete key refs,
                     if sf_reclaim s then unlink @ [sealed_FileName s part gen] else unlink,
                     removeAll (part, gen) egens))"

definition ReleaseGens :: "SealedFileCache \<Rightarrow> u64 \<Rightarrow> u64 \<Rightarrow> (u32 \<times> u32) list \<Rightarrow> u64 \<times> SealedFileCache" where
  "ReleaseGens s now epoch gens =
     (if gens = [] then (0, s)
      else case map_of (sf_gen_refs s) epoch of
             None \<Rightarrow> (0, s)
           | Some refs0 \<Rightarrow>
               let egens0 = (case map_of (sf_epochs s) epoch of None \<Rightarrow> [] | Some se \<Rightarrow> se_gens se);
                   (refs, unlink, egens) = foldl (\<lambda>st g. release_gen s g st) (refs0, [], egens0) gens;
                   s = s \<lparr> sf_gen_refs := AList.update epoch refs (sf_gen_refs s),
                           sf_epochs := (case map_of (sf_epochs s) epoch of
                                           None \<Rightarrow> sf_epochs s
                                         | Some se \<Rightarrow> AList.update epoch (se \<lparr> se_gens := egens \<rparr>) (sf_epochs s)) \<rparr>;
                   released = (if refs = [] then (case map_of (sf_epochs s) epoch of None \<Rightarrow> 0 | Some se \<Rightarrow> se_total_bytes se) else 0);
                   s = (if refs = [] then settle_epoch s now epoch else s)
               in (released, s \<lparr> sf_pending := sf_pending s @ unlink \<rparr>))"

definition ReleaseEpoch :: "SealedFileCache \<Rightarrow> u64 \<Rightarrow> u64 \<Rightarrow> u64 \<times> SealedFileCache" where
  "ReleaseEpoch s now epoch =
     ReleaseGens s now epoch (case map_of (sf_epochs s) epoch of None \<Rightarrow> [] | Some se \<Rightarrow> se_gens se)"

section \<open>Reading\<close>

definition TouchLRU :: "u64 \<Rightarrow> u64 list \<Rightarrow> u64 list" where
  "TouchLRU key lru = key # remove1 key lru"

text \<open>The eviction loop of \<^verbatim>\<open>Get\<close>.\<close>

function evict :: "nat \<Rightarrow> u64 list \<Rightarrow> (u64 \<times> string) list \<Rightarrow> u64 list \<times> (u64 \<times> string) list" where
  "evict capacity lru handles =
     (if capacity < length lru then evict capacity (butlast lru) (AList.delete (last lru) handles)
      else (lru, handles))"
  by pat_completeness auto
termination by (relation "measure (\<lambda>(c, lru, h). length lru)") auto

declare evict.simps [simp del]

definition gen_registered :: "SealedFileCache \<Rightarrow> u32 \<Rightarrow> u32 \<Rightarrow> bool" where
  "gen_registered s part gen =
     (MakeFileKey part gen \<in> set (sf_recovery_gens s) \<or> MakeFileKey part gen \<in> set (sf_skip_gens s) \<or>
      list_ex (\<lambda>(_, se). (part, gen) \<in> set (se_gens se)) (sf_epochs s))"

definition Get :: "env \<Rightarrow> SealedFileCache \<Rightarrow> u32 \<Rightarrow> u32 \<Rightarrow> string zf_result \<times> SealedFileCache" where
  "Get e s part gen =
     (let key = MakeFileKey part gen
      in if \<not> gen_registered s part gen then (Inl (NotFound ''ZF sealed gen not in any active epoch''), s)
         else
          let s = s \<lparr> sf_read_count := sf_read_count s + 1 \<rparr>
          in case map_of (sf_handles s) key of
               Some f \<Rightarrow> (Inr f, s \<lparr> sf_lru := TouchLRU key (sf_lru s) \<rparr>)
             | None \<Rightarrow>
                 let s = s \<lparr> sf_cache_miss := sf_cache_miss s + 1 \<rparr>; f = sealed_FileName s part gen
                 in case NewRandomAccessFile e f of
                      Inl er \<Rightarrow> (Inl er, s)
                    | Inr _ \<Rightarrow>
                        (case evict (unat (sf_capacity s)) (key # sf_lru s) (AList.update key f (sf_handles s)) of
                           (lru, handles) \<Rightarrow> (Inr f, s \<lparr> sf_lru := lru, sf_handles := handles \<rparr>)))"

definition GetEpoch :: "SealedFileCache \<Rightarrow> u64 \<Rightarrow> SealedEpoch option" where
  "GetEpoch s epoch = map_of (sf_epochs s) epoch"

text \<open>Unlinking; the status of each deletion is not looked at.\<close>

definition PurgePending :: "env \<Rightarrow> SealedFileCache \<Rightarrow> nat \<times> env \<times> SealedFileCache" where
  "PurgePending e s =
     (length (sf_pending s), foldl (\<lambda>e f. snd (env_DeleteFile e f)) e (sf_pending s),
      s \<lparr> sf_pending := [], sf_reclaimed_epochs := sf_reclaimed_epochs s + sf_pending_epochs s, sf_pending_epochs := 0 \<rparr>)"

definition sealed_bytes :: "SealedFileCache \<Rightarrow> u64" where "sealed_bytes s = sf_sealed_bytes s"
definition skipped_bytes :: "SealedFileCache \<Rightarrow> u64" where "skipped_bytes s = sf_skip_bytes s"
definition pending_count :: "SealedFileCache \<Rightarrow> nat" where "pending_count s = length (sf_pending s)"
definition handle_count :: "SealedFileCache \<Rightarrow> nat" where "handle_count s = length (sf_handles s)"
definition recovery_count :: "SealedFileCache \<Rightarrow> nat" where "recovery_count s = length (sf_recovery_gens s)"

section \<open>File keys\<close>

abbreviation gkey :: "u32 \<times> u32 \<Rightarrow> u64" where "gkey g \<equiv> MakeFileKey (fst g) (snd g)"

lemma key_parts [simp]: "key_part (MakeFileKey p g) = p" "key_gen (MakeFileKey p g) = g"
proof -
  show "key_part (MakeFileKey p g) = p"
    unfolding key_part_def MakeFileKey_def by (rule bit_word_eqI) (auto simp: bit_simps dest: bit_imp_le_length)
  show "key_gen (MakeFileKey p g) = g"
    unfolding key_gen_def MakeFileKey_def by (rule bit_word_eqI) (auto simp: bit_simps dest: bit_imp_le_length)
qed

lemma MakeFileKey_parts [simp]: "MakeFileKey (key_part k) (key_gen k) = k"
  unfolding key_part_def key_gen_def MakeFileKey_def
  by (rule bit_word_eqI) (auto simp: bit_simps not_less)

lemma MakeFileKey_inj [simp]: "MakeFileKey p g = MakeFileKey p' g' \<longleftrightarrow> p = p' \<and> g = g'"
  by (metis key_parts)

lemma gkey_inj: "inj gkey"
  by (auto intro!: injI simp: prod_eq_iff)

section \<open>The abstract state\<close>

text \<open>What matters for reading and deleting: the generations each epoch registers, the keys each
  epoch counts references for, the two waiting sets and the names queued for deletion.\<close>

definition epoch_gens :: "SealedFileCache \<Rightarrow> u64 \<Rightarrow> (u32 \<times> u32) set option" where
  "epoch_gens s epoch = map_option (\<lambda>se. set (se_gens se)) (map_of (sf_epochs s) epoch)"

definition epoch_refs :: "SealedFileCache \<Rightarrow> u64 \<Rightarrow> u64 set option" where
  "epoch_refs s epoch = map_option (\<lambda>refs. dom (map_of refs)) (map_of (sf_gen_refs s) epoch)"

definition waiting :: "SealedFileCache \<Rightarrow> u64 set" where
  "waiting s = set (sf_recovery_gens s) \<union> set (sf_skip_gens s)"

definition registered :: "SealedFileCache \<Rightarrow> (u32 \<times> u32) set" where
  "registered s = {g. gen_registered s (fst g) (snd g)}"

definition cache_inv :: "SealedFileCache \<Rightarrow> bool" where
  "cache_inv s \<longleftrightarrow>
     distinct (map fst (sf_epochs s)) \<and>
     (\<forall>epoch. epoch_refs s epoch = map_option (\<lambda>G. gkey ` G) (epoch_gens s epoch)) \<and>
     (\<forall>e1 e2 G1 G2. epoch_gens s e1 = Some G1 \<and> epoch_gens s e2 = Some G2 \<and> e1 \<noteq> e2 \<longrightarrow> G1 \<inter> G2 = {}) \<and>
     (\<forall>e1 G. epoch_gens s e1 = Some G \<longrightarrow> gkey ` G \<inter> waiting s = {}) \<and>
     (\<forall>g \<in> registered s. sealed_FileName s (fst g) (snd g) \<notin> set (sf_pending s))"

lemma cache_invD:
  assumes "cache_inv s"
  shows "distinct (map fst (sf_epochs s))"
    and "epoch_refs s epoch = map_option (\<lambda>G. gkey ` G) (epoch_gens s epoch)"
    and "epoch_gens s e1 = Some G1 \<Longrightarrow> epoch_gens s e2 = Some G2 \<Longrightarrow> e1 \<noteq> e2 \<Longrightarrow> G1 \<inter> G2 = {}"
    and "epoch_gens s e1 = Some G1 \<Longrightarrow> gkey ` G1 \<inter> waiting s = {}"
    and "g \<in> registered s \<Longrightarrow> sealed_FileName s (fst g) (snd g) \<notin> set (sf_pending s)"
  using assms unfolding cache_inv_def by simp_all

lemma registered_alt:
  assumes "distinct (map fst (sf_epochs s))"
  shows "registered s = {g. gkey g \<in> waiting s} \<union> {g. \<exists>epoch G. epoch_gens s epoch = Some G \<and> g \<in> G}"
proof -
  have "list_ex (\<lambda>(_, se). g \<in> set (se_gens se)) (sf_epochs s) \<longleftrightarrow>
      (\<exists>epoch G. epoch_gens s epoch = Some G \<and> g \<in> G)" for g
  proof -
    have "list_ex (\<lambda>(_, se). g \<in> set (se_gens se)) (sf_epochs s) \<longleftrightarrow>
      (\<exists>epoch se. map_of (sf_epochs s) epoch = Some se \<and> g \<in> set (se_gens se))"
      using assms by (auto simp: list_ex_iff)
    then show ?thesis by (auto simp: epoch_gens_def)
  qed
  then show ?thesis by (auto simp: registered_def gen_registered_def waiting_def)
qed

text \<open>A change of the abstract state that removes generations from registration, or moves them
  between the waiting sets and the epochs, keeps the last clause.\<close>

lemma emplace_set [simp]: "set (emplace k xs) = insert k (set xs)"
  by (auto simp: emplace_def)

lemma emplace_gens_set [simp]: "set (emplace_gens gens xs) = set xs \<union> gkey ` set gens"
  unfolding emplace_gens_def by (induction gens arbitrary: xs) auto

lemma refs_of_dom: "dom (map_of (refs_of gens n m)) = dom (map_of m) \<union> gkey ` set gens"
  unfolding refs_of_def by (induction gens arbitrary: m) (auto simp: update_conv')

lemma erase_refs_dom: "dom (map_of (erase_refs gens m)) = dom (map_of m) - gkey ` set gens"
  unfolding erase_refs_def by (induction gens arbitrary: m) (auto simp: delete_conv' split: if_splits)

lemma drop_part_bytes_gens [simp]: "se_gens (drop_part_bytes gens se) = se_gens se"
  unfolding drop_part_bytes_def by (induction gens arbitrary: se) (auto split: option.splits)

lemma remove_gens_gens [simp]: "se_gens (remove_gens gens se) = filter (\<lambda>g. g \<notin> set gens) (se_gens se)"
  by (simp add: remove_gens_def)

lemma Nil_iff_dom: "refs = [] \<longleftrightarrow> dom (map_of refs) = {}"
  by (cases refs) (auto simp: dom_map_of_conv_image_fst)

lemma distinct_AList_delete: "distinct (map fst al) \<Longrightarrow> distinct (map fst (AList.delete k al))"
  by (simp add: distinct_delete)

section \<open>Registering keeps the invariant\<close>

lemma adopt_all:
  assumes "adopt_skips (adopt_recovery (s, e)) = (s', merged)"
  shows "set (se_gens merged) = set (se_gens e) \<union> (\<lambda>k. (key_part k, key_gen k)) ` waiting s"
    and "se_epoch merged = se_epoch e" and "waiting s' = {}"
    and "sf_epochs s' = sf_epochs s" and "sf_gen_refs s' = sf_gen_refs s" and "sf_pending s' = sf_pending s"
    and "sf_dir s' = sf_dir s"
  using assms by (auto simp: adopt_skips_def adopt_recovery_def adopt_def waiting_def split: if_splits)

lemma AddEpoch_inv [zf_inv]:
  assumes inv: "cache_inv s"
    and fresh: "\<forall>g \<in> set (se_gens e). g \<notin> registered s \<and> sealed_FileName s (fst g) (snd g) \<notin> set (sf_pending s)"
  shows "cache_inv (AddEpochWithRecoveryAdoption s now e refcount)"
proof (cases "map_of (sf_epochs s) (se_epoch e)")
  case None
  obtain s1 m1 where ad: "adopt_skips (adopt_recovery (s, e)) = (s1, m1)" by fastforce
  note a = adopt_all [OF ad]
  let ?s' = "AddEpochWithRecoveryAdoption s now e refcount"
  let ?G = "set (se_gens e) \<union> (\<lambda>k. (key_part k, key_gen k)) ` waiting s"
  have dist: "distinct (map fst (sf_epochs s))" using inv by (simp add: cache_inv_def)
  have "epoch_refs s (se_epoch e) = None" using inv None by (simp add: cache_inv_def epoch_gens_def)
  then have norefs: "map_of (sf_gen_refs s) (se_epoch e) = None" by (simp add: epoch_refs_def)
  have s': "sf_epochs ?s' = sf_epochs s @ [(se_epoch e, m1\<lparr>se_sealed_at_micros := now\<rparr>)]"
    "sf_gen_refs ?s' = AList.update (se_epoch e) (refs_of (se_gens m1) refcount []) (sf_gen_refs s)"
    "sf_pending ?s' = sf_pending s" "sf_dir ?s' = sf_dir s" "waiting ?s' = {}"
    using None ad a norefs by (simp_all add: AddEpochWithRecoveryAdoption_def waiting_def)
  have nofst: "se_epoch e \<notin> fst ` set (sf_epochs s)" using None by (simp add: map_of_eq_None_iff)
  have eg: "epoch_gens ?s' = (epoch_gens s)(se_epoch e \<mapsto> ?G)"
    using None a(1) by (auto simp: fun_eq_iff epoch_gens_def s' map_of_append map_add_def split: option.splits)
  have er: "epoch_refs ?s' = (epoch_refs s)(se_epoch e \<mapsto> gkey ` ?G)"
    using a(1) refs_of_dom [of "se_gens m1" refcount "[]"]
    by (auto simp: fun_eq_iff epoch_refs_def s' update_conv')
  have reg: "registered s = {g. gkey g \<in> waiting s} \<union> {g. \<exists>epoch G. epoch_gens s epoch = Some G \<and> g \<in> G}"
    by (rule registered_alt [OF dist])
  have dist': "distinct (map fst (sf_epochs ?s'))" using dist nofst by (simp add: s')
  have reg': "registered ?s' \<subseteq> registered s \<union> set (se_gens e)"
    unfolding registered_alt [OF dist'] reg by (auto simp: s' eg split: if_splits)
  have new: "G \<inter> ?G = {}" if "epoch_gens s e2 = Some G" "e2 \<noteq> se_epoch e" for e2 G
  proof -
    have "G \<inter> set (se_gens e) = {}" using fresh that(1) unfolding reg by auto
    moreover have "gkey ` G \<inter> waiting s = {}" using inv that(1) by (simp add: cache_inv_def)
    then have "G \<inter> (\<lambda>k. (key_part k, key_gen k)) ` waiting s = {}" by (force simp: image_iff)
    ultimately show ?thesis by auto
  qed
  have name: "sealed_FileName ?s' p g = sealed_FileName s p g" for p g by (simp add: sealed_FileName_def s')
  show ?thesis
    unfolding cache_inv_def
  proof (intro conjI allI impI ballI)
    show "distinct (map fst (sf_epochs ?s'))" by (rule dist')
    show "epoch_refs ?s' x = map_option (\<lambda>G. gkey ` G) (epoch_gens ?s' x)" for x
      using inv by (simp add: eg er cache_inv_def)
    show "G1 \<inter> G2 = {}" if "epoch_gens ?s' e1 = Some G1 \<and> epoch_gens ?s' e2 = Some G2 \<and> e1 \<noteq> e2" for e1 e2 G1 G2
    proof (cases "e1 = se_epoch e")
      case True
      then have "e2 \<noteq> se_epoch e" "epoch_gens s e2 = Some G2" "G1 = ?G" using that by (auto simp: eg)
      then show ?thesis using new [of e2 G2] by (simp add: Int_commute)
    next
      case F: False
      show ?thesis
      proof (cases "e2 = se_epoch e")
        case True
        then show ?thesis using that new [of e1 G1] F by (auto simp: eg)
      next
        case False
        then show ?thesis using that inv F by (auto simp: eg cache_inv_def)
      qed
    qed
    show "gkey ` G \<inter> waiting ?s' = {}" for G by (simp add: s')
    show "sealed_FileName ?s' (fst g) (snd g) \<notin> set (sf_pending ?s')" if "g \<in> registered ?s'" for g
      using that reg' inv fresh by (auto simp: name s' cache_inv_def)
  qed
qed (use inv in \<open>simp add: AddEpochWithRecoveryAdoption_def\<close>)

lemma AddRecoveryGens_inv [zf_inv]:
  assumes inv: "cache_inv s"
    and fresh: "\<forall>g \<in> set gens. g \<notin> registered s \<and> sealed_FileName s (fst g) (snd g) \<notin> set (sf_pending s)"
  shows "cache_inv (AddRecoveryGens s gens bytes)"
proof -
  let ?s' = "AddRecoveryGens s gens bytes"
  have dist: "distinct (map fst (sf_epochs s))" using inv by (simp add: cache_inv_def)
  have f: "epoch_gens ?s' = epoch_gens s" "epoch_refs ?s' = epoch_refs s" "waiting ?s' = waiting s \<union> gkey ` set gens"
    "sf_pending ?s' = sf_pending s" "sf_epochs ?s' = sf_epochs s"
    by (auto simp: AddRecoveryGens_def fun_eq_iff epoch_gens_def epoch_refs_def waiting_def)
  have name: "sealed_FileName ?s' p g = sealed_FileName s p g" for p g by (simp add: sealed_FileName_def AddRecoveryGens_def)
  have reg: "registered s = {g. gkey g \<in> waiting s} \<union> {g. \<exists>epoch G. epoch_gens s epoch = Some G \<and> g \<in> G}"
    by (rule registered_alt [OF dist])
  have reg': "registered ?s' = registered s \<union> set gens"
    using registered_alt [of ?s'] dist unfolding reg f by (auto simp: prod_eq_iff)
  have "gkey ` G \<inter> gkey ` set gens = {}" if "epoch_gens s x = Some G" for x G
    using fresh that unfolding reg by (auto simp: prod_eq_iff)
  then show ?thesis
    using inv fresh unfolding cache_inv_def f reg' name by (auto simp: Int_Un_distrib)
qed

section \<open>Handing over and releasing keep the invariant\<close>

text \<open>Both take a set \<open>D\<close> of generations out of one epoch; an epoch that has none left goes away
  with its reference map.\<close>

lemma settle_epoch_fields [simp]:
  "waiting (settle_epoch s now epoch) = waiting s" "sf_pending (settle_epoch s now epoch) = sf_pending s"
  "sf_dir (settle_epoch s now epoch) = sf_dir s" "sf_reclaim (settle_epoch s now epoch) = sf_reclaim s"
  by (auto simp: settle_epoch_def Let_def waiting_def split: option.splits)

lemma settle_epoch_maps:
  "epoch_gens (settle_epoch s now epoch) = (epoch_gens s)(epoch := None)"
  "epoch_refs (settle_epoch s now epoch) = (epoch_refs s)(epoch := None)"
  "distinct (map fst (sf_epochs s)) \<Longrightarrow> distinct (map fst (sf_epochs (settle_epoch s now epoch)))"
  by (auto simp: settle_epoch_def Let_def epoch_gens_def epoch_refs_def fun_eq_iff delete_conv' distinct_AList_delete
      split: option.splits)

text \<open>What is registered after such a removal.\<close>

lemma registered_remove:
  assumes inv: "cache_inv s" and G: "epoch_gens s epoch = Some G" and D: "D \<subseteq> G"
    and dist: "distinct (map fst (sf_epochs s'))"
    and eg: "epoch_gens s' = (epoch_gens s)(epoch := (if keep then Some (G - D) else None))"
    and keep: "\<not> keep \<Longrightarrow> G - D = {}"
    and w: "waiting s' = waiting s \<union> W" and W: "W \<subseteq> gkey ` D"
  shows "registered s' \<subseteq> registered s" and "registered s \<subseteq> registered s' \<union> {g \<in> D. gkey g \<notin> W}"
proof -
  have dist0: "distinct (map fst (sf_epochs s))" using inv by (simp add: cache_inv_def)
  show "registered s' \<subseteq> registered s"
  proof
    fix g assume "g \<in> registered s'"
    then consider "gkey g \<in> waiting s" | "gkey g \<in> W" | e1 G1 where "epoch_gens s' e1 = Some G1" "g \<in> G1"
      unfolding registered_alt [OF dist] w by auto
    then show "g \<in> registered s"
    proof cases
      case 2
      then obtain h where h: "h \<in> D" "gkey g = gkey h" using W by blast
      have "g = h" using h(2) by (simp add: prod_eq_iff)
      then have "g \<in> D" using h(1) by simp
      then show ?thesis using G D unfolding registered_alt [OF dist0] by blast
    next
      case 3
      then show ?thesis using G unfolding registered_alt [OF dist0] by (auto simp: eg split: if_splits)
    qed (simp add: registered_alt [OF dist0])
  qed
  show "registered s \<subseteq> registered s' \<union> {g \<in> D. gkey g \<notin> W}"
  proof
    fix g assume "g \<in> registered s"
    then consider "gkey g \<in> waiting s" | e1 G1 where "epoch_gens s e1 = Some G1" "g \<in> G1"
      unfolding registered_alt [OF dist0] by auto
    then show "g \<in> registered s' \<union> {g \<in> D. gkey g \<notin> W}"
    proof cases
      case 2
      show ?thesis
      proof (cases "e1 = epoch \<and> g \<in> D")
        case True
        then show ?thesis unfolding registered_alt [OF dist] w by auto
      next
        case False
        then have "\<exists>G'. epoch_gens s' e1 = Some G' \<and> g \<in> G'" using 2 G keep by (auto simp: eg)
        then show ?thesis unfolding registered_alt [OF dist] by blast
      qed
    qed (simp add: registered_alt [OF dist] w)
  qed
qed

text \<open>The invariant after such a removal, from the abstract effect alone.\<close>

lemma cache_inv_remove:
  assumes inv: "cache_inv s" and G: "epoch_gens s epoch = Some G" and D: "D \<subseteq> G"
    and dist: "distinct (map fst (sf_epochs s'))"
    and eg: "epoch_gens s' = (epoch_gens s)(epoch := (if keep then Some (G - D) else None))"
    and er: "epoch_refs s' = (epoch_refs s)(epoch := (if keep then Some (gkey ` (G - D)) else None))"
    and keep: "\<not> keep \<Longrightarrow> G - D = {}"
    and w: "waiting s' = waiting s \<union> W" and W: "W \<subseteq> gkey ` D"
    and pend: "set (sf_pending s') \<subseteq> set (sf_pending s) \<union> (\<lambda>g. sealed_FileName s (fst g) (snd g)) ` P"
    and P: "P \<subseteq> D" "gkey ` P \<inter> W = {}" and dir: "sf_dir s' = sf_dir s"
  shows "cache_inv s'"
proof -
  have dist0: "distinct (map fst (sf_epochs s))" using inv by (simp add: cache_inv_def)
  have disj: "G1 \<inter> G = {}" if "epoch_gens s e1 = Some G1" "e1 \<noteq> epoch" for e1 G1
    by (rule cache_invD(3) [OF inv that(1) G that(2)])
  have wG: "gkey ` G \<inter> waiting s = {}" by (rule cache_invD(4) [OF inv G])
  have names: "sealed_FileName s' p g = sealed_FileName s p g" for p g by (simp add: sealed_FileName_def dir)
  have regs: "registered s' \<subseteq> registered s" by (rule registered_remove(1) [OF inv G D dist eg keep w W])
  have notP: "g \<notin> P" if reg: "g \<in> registered s'" for g
  proof
    assume gP: "g \<in> P"
    then have gG: "g \<in> G" and gD: "g \<in> D" using P D by auto
    then have "gkey g \<notin> waiting s'" using wG gP P(2) w by blast
    then obtain e1 G1 where "epoch_gens s' e1 = Some G1" "g \<in> G1"
      using reg unfolding registered_alt [OF dist] by auto
    then show False using disj [of e1 G1] gG gD by (auto simp: eg split: if_splits)
  qed
  show ?thesis
    unfolding cache_inv_def
  proof (intro conjI allI impI ballI)
    show "distinct (map fst (sf_epochs s'))" by (rule dist)
    show "epoch_refs s' x = map_option (\<lambda>G. gkey ` G) (epoch_gens s' x)" for x
      using inv by (simp add: eg er cache_inv_def)
    show "G1 \<inter> G2 = {}" if "epoch_gens s' e1 = Some G1 \<and> epoch_gens s' e2 = Some G2 \<and> e1 \<noteq> e2" for e1 e2 G1 G2
    proof (cases "e1 = epoch \<or> e2 = epoch")
      case True
      then show ?thesis using that disj [of e1 G1] disj [of e2 G2] by (auto simp: eg split: if_splits)
    next
      case False
      then show ?thesis using that cache_invD(3) [OF inv, of e1 G1 e2 G2] by (simp add: eg)
    qed
    show "gkey ` G1 \<inter> waiting s' = {}" if "epoch_gens s' e1 = Some G1" for e1 G1
    proof -
      have sub: "G1 \<inter> D = {}" using that disj [of e1 G1] D by (auto simp: eg split: if_splits)
      then have "gkey ` G1 \<inter> gkey ` D = {}" by (auto simp: prod_eq_iff)
      then have "gkey ` G1 \<inter> W = {}" using W by blast
      moreover have "gkey ` G1 \<inter> waiting s = {}"
        using that wG cache_invD(4) [OF inv, of e1 G1] by (cases "e1 = epoch") (auto simp: eg split: if_splits)
      ultimately show ?thesis using w by blast
    qed
    show "sealed_FileName s' (fst g) (snd g) \<notin> set (sf_pending s')" if "g \<in> registered s'" for g
    proof
      assume "sealed_FileName s' (fst g) (snd g) \<in> set (sf_pending s')"
      moreover have "sealed_FileName s (fst g) (snd g) \<notin> set (sf_pending s)"
        using that regs cache_invD(5) [OF inv, of g] by blast
      ultimately obtain h where h: "h \<in> P" "sealed_FileName s (fst g) (snd g) = sealed_FileName s (fst h) (snd h)"
        using pend by (auto simp: names)
      have "g = h" using h(2) by (simp add: sealed_FileName_def prod_eq_iff)
      then have "g \<in> P" using h(1) by simp
      with notP that show False by blast
    qed
  qed
qed

text \<open>A removal step: the facts the two lemmas above take.\<close>

definition cache_removal :: "SealedFileCache \<Rightarrow> SealedFileCache \<Rightarrow> (u32 \<times> u32) set \<Rightarrow> u64 set \<Rightarrow> (u32 \<times> u32) set \<Rightarrow> bool" where
  "cache_removal s s' D W P \<longleftrightarrow>
     (\<exists>epoch G keep. epoch_gens s epoch = Some G \<and> D \<subseteq> G \<and> distinct (map fst (sf_epochs s')) \<and>
        epoch_gens s' = (epoch_gens s)(epoch := (if keep then Some (G - D) else None)) \<and>
        epoch_refs s' = (epoch_refs s)(epoch := (if keep then Some (gkey ` (G - D)) else None)) \<and>
        (\<not> keep \<longrightarrow> G - D = {})) \<and>
     waiting s' = waiting s \<union> W \<and> W \<subseteq> gkey ` D \<and>
     set (sf_pending s') \<subseteq> set (sf_pending s) \<union> (\<lambda>g. sealed_FileName s (fst g) (snd g)) ` P \<and>
     P \<subseteq> D \<and> gkey ` P \<inter> W = {} \<and> sf_dir s' = sf_dir s"

lemma cache_removal_inv:
  assumes "cache_inv s" "cache_removal s s' D W P"
  shows "cache_inv s'" and "registered s' \<subseteq> registered s" and "registered s \<subseteq> registered s' \<union> {g \<in> D. gkey g \<notin> W}"
proof -
  obtain epoch G keep where r: "epoch_gens s epoch = Some G" "D \<subseteq> G" "distinct (map fst (sf_epochs s'))"
    "epoch_gens s' = (epoch_gens s)(epoch := (if keep then Some (G - D) else None))"
    "epoch_refs s' = (epoch_refs s)(epoch := (if keep then Some (gkey ` (G - D)) else None))" "\<not> keep \<longrightarrow> G - D = {}"
    "waiting s' = waiting s \<union> W" "W \<subseteq> gkey ` D"
    "set (sf_pending s') \<subseteq> set (sf_pending s) \<union> (\<lambda>g. sealed_FileName s (fst g) (snd g)) ` P" "P \<subseteq> D" "gkey ` P \<inter> W = {}"
    "sf_dir s' = sf_dir s"
    using assms(2) unfolding cache_removal_def by (elim conjE exE) (rule that, assumption+)
  show "cache_inv s'" by (rule cache_inv_remove [OF assms(1) r(1-5) _ r(7-12)]) (use r(6) in simp)
  show "registered s' \<subseteq> registered s" "registered s \<subseteq> registered s' \<union> {g \<in> D. gkey g \<notin> W}"
    using registered_remove [OF assms(1) r(1-4) _ r(7,8)] r(6) by simp_all
qed

lemma HandOff_removal:
  assumes inv: "cache_inv s" and G: "epoch_gens s epoch = Some G" and sub: "set gens \<subseteq> G"
  shows "cache_removal s (HandOffSkippedToRecovery s now epoch gens part_bytes) (set gens) (gkey ` set gens) {}"
proof -
  let ?s' = "HandOffSkippedToRecovery s now epoch gens part_bytes"
  have dist: "distinct (map fst (sf_epochs s))" using inv by (simp add: cache_inv_def)
  obtain se where se: "map_of (sf_epochs s) epoch = Some se" "G = set (se_gens se)" using G by (auto simp: epoch_gens_def)
  have "epoch_refs s epoch = Some (gkey ` G)" using inv G by (simp add: cache_inv_def)
  then obtain refs where refs: "map_of (sf_gen_refs s) epoch = Some refs" "dom (map_of refs) = gkey ` G"
    by (auto simp: epoch_refs_def)
  let ?refs = "erase_refs gens refs"
  let ?s2 = "s\<lparr>sf_epochs := AList.update epoch (remove_gens gens se) (sf_epochs s),
      sf_skip_gens := emplace_gens gens (sf_skip_gens s), sf_skip_part_bytes := bump_all part_bytes (sf_skip_part_bytes s),
      sf_skip_bytes := sf_skip_bytes s + sum_list (map snd part_bytes)\<rparr>"
  have s': "?s' = (if ?refs = [] then settle_epoch ?s2 now epoch
      else ?s2\<lparr>sf_gen_refs := AList.update epoch ?refs (sf_gen_refs s)\<rparr>)"
    using se refs by (simp add: HandOffSkippedToRecovery_def Let_def)
  have dom: "dom (map_of ?refs) = gkey ` (G - set gens)"
    using refs(2) by (auto simp: erase_refs_dom prod_eq_iff) 
  have eg2: "epoch_gens ?s2 = (epoch_gens s)(epoch := Some (G - set gens))"
    using se by (auto simp: fun_eq_iff epoch_gens_def update_conv')
  have er2: "epoch_refs ?s2 = epoch_refs s" by (simp add: fun_eq_iff epoch_refs_def)
  have d2: "distinct (map fst (sf_epochs ?s2))" using dist by (simp add: distinct_update)
  have w2: "waiting ?s2 = waiting s \<union> gkey ` set gens" by (auto simp: waiting_def)
  show ?thesis
  proof (cases "?refs = []")
    case True
    then have emp: "G - set gens = {}" using dom Nil_iff_dom [of ?refs] by simp
    show ?thesis
      unfolding cache_removal_def
      by (intro conjI exI [of _ epoch] exI [of _ G] exI [of _ False])
        (use G sub True emp eg2 er2 d2 w2 settle_epoch_maps [of ?s2 now epoch] in \<open>simp_all add: s'\<close>)
  next
    case False
    let ?s3 = "?s2\<lparr>sf_gen_refs := AList.update epoch ?refs (sf_gen_refs s)\<rparr>"
    have "epoch_gens ?s3 = epoch_gens ?s2" "waiting ?s3 = waiting ?s2"
      by (simp_all add: fun_eq_iff epoch_gens_def waiting_def)
    moreover have "epoch_refs ?s3 = (epoch_refs s)(epoch := Some (gkey ` (G - set gens)))"
      using dom by (auto simp: fun_eq_iff epoch_refs_def update_conv')
    ultimately show ?thesis
      unfolding cache_removal_def
      by (intro conjI exI [of _ epoch] exI [of _ G] exI [of _ True])
        (use G sub False eg2 d2 w2 in \<open>simp_all add: s'\<close>)
  qed
qed

lemmas HandOff_inv [zf_inv] = cache_removal_inv(1) [OF _ HandOff_removal]

lemma subset_Un_chain: "u \<subseteq> v \<union> A \<Longrightarrow> v \<subseteq> w \<union> B \<Longrightarrow> A \<subseteq> C \<Longrightarrow> B \<subseteq> C \<Longrightarrow> u \<subseteq> w \<union> C"
  by blast

lemma release_fold:
  assumes "foldl (\<lambda>st g. release_gen s g st) (refs0, u0, eg0) gens = (refs, u, eg)"
    "dom (map_of refs0) = gkey ` set eg0"
  shows "dom (map_of refs) = gkey ` set eg" and "set eg \<subseteq> set eg0"
    and "set u \<subseteq> set u0 \<union> (\<lambda>g. sealed_FileName s (fst g) (snd g)) ` (set eg0 - set eg)"
    and "set eg0 - set eg \<subseteq> set gens"
proof -
  have "dom (map_of refs) = gkey ` set eg \<and> set eg \<subseteq> set eg0 \<and>
    set u \<subseteq> set u0 \<union> (\<lambda>g. sealed_FileName s (fst g) (snd g)) ` (set eg0 - set eg) \<and> set eg0 - set eg \<subseteq> set gens"
    using assms
  proof (induction gens arbitrary: refs0 u0 eg0)
    case Nil
    then show ?case by auto
  next
    case (Cons g gens)
    obtain part gen where g: "g = (part, gen)" by fastforce
    obtain refs1 u1 eg1 where st: "release_gen s g (refs0, u0, eg0) = (refs1, u1, eg1)" by (metis prod_cases3)
    have one: "dom (map_of refs1) = gkey ` set eg1 \<and> set eg1 \<subseteq> set eg0 \<and>
      set u1 \<subseteq> set u0 \<union> (\<lambda>g. sealed_FileName s (fst g) (snd g)) ` (set eg0 - set eg1) \<and> set eg0 - set eg1 \<subseteq> {g}"
    proof (cases "map_of refs0 (MakeFileKey part gen)")
      case None
      then show ?thesis using st Cons.prems(2) by (auto simp: release_gen_def g)
    next
      case (Some n)
      then have mem: "(part, gen) \<in> set eg0" using Cons.prems(2) by (force simp: dom_def)
      show ?thesis
      proof (cases "n - 1 > 0")
        case True
        then have "refs1 = AList.update (MakeFileKey part gen) (n - 1) refs0" "u1 = u0" "eg1 = eg0"
          using st Some by (auto simp: release_gen_def g Let_def)
        then show ?thesis using Cons.prems(2) Some by (auto simp: update_conv')
      next
        case False
        then have r: "refs1 = AList.delete (MakeFileKey part gen) refs0" "eg1 = removeAll (part, gen) eg0"
          "u1 = (if sf_reclaim s then u0 @ [sealed_FileName s part gen] else u0)"
          using st Some by (auto simp: release_gen_def g Let_def)
        have "dom (map_of refs1) = dom (map_of refs0) - {MakeFileKey part gen}"
          by (auto simp: r delete_conv' split: if_splits)
        also have "\<dots> = gkey ` (set eg0 - {(part, gen)})" using Cons.prems(2) by auto
        finally have dom: "dom (map_of refs1) = gkey ` set eg1" by (simp add: r)
        have "set eg0 - set eg1 = {(part, gen)}" using mem by (auto simp: r)
        then show ?thesis using dom by (auto simp: r g)
      qed
    qed
    have "foldl (\<lambda>st g. release_gen s g st) (refs1, u1, eg1) gens = (refs, u, eg)"
      using Cons.prems(1) st by simp
    note rest = Cons.IH [OF this conjunct1 [OF one]]
    have u: "set u \<subseteq> set u0 \<union> (\<lambda>g. sealed_FileName s (fst g) (snd g)) ` (set eg0 - set eg)"
    proof (rule subset_Un_chain [where v = "set u1"])
      show "(\<lambda>g. sealed_FileName s (fst g) (snd g)) ` (set eg1 - set eg) \<subseteq> (\<lambda>g. sealed_FileName s (fst g) (snd g)) ` (set eg0 - set eg)"
        using one by (intro image_mono) blast
      show "(\<lambda>g. sealed_FileName s (fst g) (snd g)) ` (set eg0 - set eg1) \<subseteq> (\<lambda>g. sealed_FileName s (fst g) (snd g)) ` (set eg0 - set eg)"
        using rest by (intro image_mono) blast
    qed (use rest one in simp_all)
    have "set eg \<subseteq> set eg0" using rest one by (meson order.trans)
    moreover have "set eg0 - set eg \<subseteq> set (g # gens)" using rest one by (simp, blast)
    ultimately show ?case using rest u by simp
  qed
  then show "dom (map_of refs) = gkey ` set eg" and "set eg \<subseteq> set eg0"
    and "set u \<subseteq> set u0 \<union> (\<lambda>g. sealed_FileName s (fst g) (snd g)) ` (set eg0 - set eg)"
    and "set eg0 - set eg \<subseteq> set gens" by auto
qed

lemma ReleaseGens_removal:
  assumes inv: "cache_inv s"
  shows "snd (ReleaseGens s now epoch gens) = s \<or> (\<exists>D \<subseteq> set gens. cache_removal s (snd (ReleaseGens s now epoch gens)) D {} D)"
proof (cases "gens = [] \<or> map_of (sf_gen_refs s) epoch = None")
  case True
  then show ?thesis using inv by (auto simp: ReleaseGens_def)
next
  case False
  then obtain refs0 where refs0: "map_of (sf_gen_refs s) epoch = Some refs0" by auto
  then have "epoch_refs s epoch \<noteq> None" by (simp add: epoch_refs_def)
  then obtain G where G: "epoch_gens s epoch = Some G" using cache_invD(2) [OF inv, of epoch] by auto
  then obtain se where se: "map_of (sf_epochs s) epoch = Some se" "G = set (se_gens se)" by (auto simp: epoch_gens_def)
  have dom0: "dom (map_of refs0) = gkey ` set (se_gens se)"
    using cache_invD(2) [OF inv, of epoch] refs0 G se by (simp add: epoch_refs_def)
  obtain refs u eg where f: "foldl (\<lambda>st g. release_gen s g st) (refs0, [], se_gens se) gens = (refs, u, eg)"
    by (metis prod_cases3)
  note rf = release_fold [OF f dom0]
  let ?s2 = "s\<lparr>sf_gen_refs := AList.update epoch refs (sf_gen_refs s),
      sf_epochs := AList.update epoch (se\<lparr>se_gens := eg\<rparr>) (sf_epochs s)\<rparr>"
  let ?s3 = "if refs = [] then settle_epoch ?s2 now epoch else ?s2"
  let ?s' = "?s3\<lparr>sf_pending := sf_pending ?s3 @ u\<rparr>"
  have s': "snd (ReleaseGens s now epoch gens) = ?s'"
    using False refs0 se f by (simp add: ReleaseGens_def Let_def)
  let ?D = "G - set eg"
  have GD: "G - ?D = set eg" using rf(2) se(2) by auto
  have same: "epoch_gens ?s' = epoch_gens ?s3" "epoch_refs ?s' = epoch_refs ?s3" "waiting ?s' = waiting ?s3"
    by (simp_all add: fun_eq_iff epoch_gens_def epoch_refs_def waiting_def)
  have eg2: "epoch_gens ?s2 = (epoch_gens s)(epoch := Some (set eg))"
    by (auto simp: fun_eq_iff epoch_gens_def update_conv')
  have er2: "epoch_refs ?s2 = (epoch_refs s)(epoch := Some (gkey ` set eg))"
    using rf(1) by (auto simp: fun_eq_iff epoch_refs_def update_conv')
  have d2: "distinct (map fst (sf_epochs ?s2))" using cache_invD(1) [OF inv] by (simp add: distinct_update)
  have w2: "waiting ?s2 = waiting s" by (simp add: waiting_def)
  have pend: "set (sf_pending ?s') \<subseteq> set (sf_pending s) \<union> (\<lambda>g. sealed_FileName s (fst g) (snd g)) ` ?D"
    using rf(3) se(2) by auto
  have empty: "refs = [] \<Longrightarrow> set eg = {}" using rf(1) by simp
  have "distinct (map fst (sf_epochs ?s'))"
    using d2 settle_epoch_maps(3) [OF d2, of now epoch] by (cases "refs = []") simp_all
  moreover have "epoch_gens ?s' = (epoch_gens s)(epoch := (if refs \<noteq> [] then Some (G - ?D) else None))"
    unfolding same GD using eg2 settle_epoch_maps(1) [of ?s2 now epoch] by auto
  moreover have "epoch_refs ?s' = (epoch_refs s)(epoch := (if refs \<noteq> [] then Some (gkey ` (G - ?D)) else None))"
    unfolding same GD using er2 settle_epoch_maps(2) [of ?s2 now epoch] by auto
  moreover have "\<not> refs \<noteq> [] \<longrightarrow> G - ?D = {}" using empty GD by simp
  ultimately have "\<exists>epoch G keep. epoch_gens s epoch = Some G \<and> ?D \<subseteq> G \<and> distinct (map fst (sf_epochs ?s')) \<and>
        epoch_gens ?s' = (epoch_gens s)(epoch := (if keep then Some (G - ?D) else None)) \<and>
        epoch_refs ?s' = (epoch_refs s)(epoch := (if keep then Some (gkey ` (G - ?D)) else None)) \<and>
        (\<not> keep \<longrightarrow> G - ?D = {})"
    by (intro exI [of _ epoch] exI [of _ G] exI [of _ "refs \<noteq> []"] conjI G Diff_subset)
  moreover have "waiting ?s' = waiting s \<union> {}" unfolding same using w2 by (cases "refs = []") simp_all
  moreover have "sf_dir ?s' = sf_dir s" by simp
  ultimately have "cache_removal s ?s' ?D {} ?D"
    using pend unfolding cache_removal_def by blast
  moreover have "?D \<subseteq> set gens" using rf(4) se(2) by simp
  ultimately show ?thesis unfolding s' by blast
qed

lemma ReleaseGens_inv [zf_inv]:
  assumes "cache_inv s"
  shows "cache_inv (snd (ReleaseGens s now epoch gens))"
  using ReleaseGens_removal [OF assms, of now epoch gens] cache_removal_inv(1) [OF assms] assms by metis

lemma Get_inv [zf_inv]: "cache_inv s \<Longrightarrow> cache_inv (snd (Get e s part gen))"
proof -
  have same: "epoch_gens (snd (Get e s part gen)) = epoch_gens s" "epoch_refs (snd (Get e s part gen)) = epoch_refs s"
    "waiting (snd (Get e s part gen)) = waiting s" "sf_pending (snd (Get e s part gen)) = sf_pending s"
    "sf_epochs (snd (Get e s part gen)) = sf_epochs s" "sf_dir (snd (Get e s part gen)) = sf_dir s"
    by (auto simp: Get_def Let_def fun_eq_iff epoch_gens_def epoch_refs_def waiting_def split: option.splits sum.splits prod.splits)
  then have "registered (snd (Get e s part gen)) = registered s" if "cache_inv s"
    using registered_alt [OF cache_invD(1) [OF that]] registered_alt [of "snd (Get e s part gen)"] cache_invD(1) [OF that] by simp
  then show "cache_inv (snd (Get e s part gen))" if "cache_inv s"
    using that same by (simp add: cache_inv_def sealed_FileName_def)
qed

lemma PurgePending_inv [zf_inv]: "cache_inv s \<Longrightarrow> cache_inv (snd (snd (PurgePending e s)))"
proof -
  have same: "epoch_gens (snd (snd (PurgePending e s))) = epoch_gens s" "epoch_refs (snd (snd (PurgePending e s))) = epoch_refs s"
    "waiting (snd (snd (PurgePending e s))) = waiting s" "sf_pending (snd (snd (PurgePending e s))) = []"
    "sf_epochs (snd (snd (PurgePending e s))) = sf_epochs s"
    by (auto simp: PurgePending_def fun_eq_iff epoch_gens_def epoch_refs_def waiting_def)
  then show "cache_inv (snd (snd (PurgePending e s)))" if "cache_inv s"
    using that by (simp add: cache_inv_def)
qed

section \<open>Read handles\<close>

text \<open>The handle table and the LRU list name the same generations, no generation twice and at most
  as many as the capacity; every handle is one of the file the generation names.\<close>

definition handles_inv :: "SealedFileCache \<Rightarrow> bool" where
  "handles_inv s \<longleftrightarrow>
     distinct (sf_lru s) \<and> distinct (map fst (sf_handles s)) \<and> fst ` set (sf_handles s) = set (sf_lru s) \<and>
     length (sf_lru s) \<le> unat (sf_capacity s) \<and>
     (\<forall>k f. map_of (sf_handles s) k = Some f \<longrightarrow> f = sealed_FileName s (key_part k) (key_gen k))"

lemma evict_spec:
  assumes "distinct lru" "distinct (map fst h)" "fst ` set h = set lru" "evict c lru h = (lru', h')"
  shows "distinct lru' \<and> distinct (map fst h') \<and> fst ` set h' = set lru' \<and> length lru' \<le> c \<and> map_of h' \<subseteq>\<^sub>m map_of h"
  using assms
proof (induction c lru h rule: evict.induct)
  case (1 c lru h)
  show ?case
  proof (cases "c < length lru")
    case True
    then have "lru \<noteq> []" by auto
    then obtain ys k where lru: "lru = ys @ [k]" by (meson rev_exhaust)
    have d: "fst ` set (AList.delete (last lru) h) = set (butlast lru)" "distinct (butlast lru)"
      using 1(2,4) by (auto simp: lru simp flip: dom_map_of_conv_image_fst simp: delete_conv' split: if_splits)
    have "evict c (butlast lru) (AList.delete (last lru) h) = (lru', h')"
      using 1(5) True by (simp add: evict.simps [of c lru h])
    from 1(1) [OF True d(2) distinct_delete [OF 1(3)] d(1) this]
    have IH: "distinct lru' \<and> distinct (map fst h') \<and> fst ` set h' = set lru' \<and> length lru' \<le> c \<and>
      map_of h' \<subseteq>\<^sub>m map_of (AList.delete (last lru) h)" .
    have "map_of (AList.delete (last lru) h) \<subseteq>\<^sub>m map_of h" by (auto simp: map_le_def delete_conv' split: if_splits)
    then show ?thesis using IH map_le_trans by blast
  next
    case False
    then have "lru' = lru" "h' = h" using 1(5) by (simp_all add: evict.simps [of c lru h])
    then show ?thesis using False 1(2,3,4) by simp
  qed
qed

lemma Get_handles [zf_inv]:
  assumes inv: "handles_inv s"
  shows "handles_inv (snd (Get e s part gen))"
proof (cases "gen_registered s part gen")
  case reg: True
  let ?k = "MakeFileKey part gen"
  show ?thesis
  proof (cases "map_of (sf_handles s) ?k")
    case (Some f)
    then have "?k \<in> set (sf_lru s)" using inv by (force simp: handles_inv_def dest: map_of_SomeD)
    then have "set (TouchLRU ?k (sf_lru s)) = set (sf_lru s)" "distinct (TouchLRU ?k (sf_lru s))"
      "length (TouchLRU ?k (sf_lru s)) = length (sf_lru s)"
      using inv length_pos_if_in_set [of ?k "sf_lru s"] by (auto simp: TouchLRU_def handles_inv_def length_remove1)
    then show ?thesis using inv reg Some by (simp add: Get_def handles_inv_def sealed_FileName_def)
  next
    case None
    show ?thesis
    proof (cases "NewRandomAccessFile e (MakeFileName (sf_dir s) part gen)")
      case (Inl er)
      then show ?thesis using inv reg None by (simp add: Get_def Let_def handles_inv_def sealed_FileName_def)
    next
      case (Inr u)
      let ?h = "AList.update ?k (MakeFileName (sf_dir s) part gen) (sf_handles s)"
      obtain lru h where ev: "evict (unat (sf_capacity s)) (?k # sf_lru s) ?h = (lru, h)" by fastforce
      have "?k \<notin> set (sf_lru s)" using inv None by (auto simp: handles_inv_def map_of_eq_None_iff)
      then have "distinct (?k # sf_lru s)" "fst ` set ?h = set (?k # sf_lru s)"
        using inv by (auto simp: handles_inv_def simp flip: dom_map_of_conv_image_fst simp: update_conv')
      from evict_spec [OF this(1) distinct_update this(2) ev] have sp: "distinct lru \<and> distinct (map fst h) \<and>
        fst ` set h = set lru \<and> length lru \<le> unat (sf_capacity s) \<and> map_of h \<subseteq>\<^sub>m map_of ?h"
        using inv by (simp add: handles_inv_def)
      have "f = MakeFileName (sf_dir s) (key_part k) (key_gen k)" if "map_of h k = Some f" for k f
      proof -
        have "map_of ?h k = Some f" using sp that by (metis domI map_le_def)
        moreover have "map_of (sf_handles s) k = Some f \<Longrightarrow> ?thesis"
          using inv unfolding handles_inv_def sealed_FileName_def by blast
        ultimately show ?thesis by (auto simp: update_conv' split: if_splits)
      qed
      then show ?thesis
        using sp reg None Inr ev by (simp add: Get_def Let_def handles_inv_def sealed_FileName_def)
    qed
  qed
qed (use inv in \<open>simp add: Get_def\<close>)

lemma handles_inv_cong:
  assumes "handles_inv s" "sf_lru s' = sf_lru s" "sf_handles s' = sf_handles s" "sf_capacity s' = sf_capacity s" "sf_dir s' = sf_dir s"
  shows "handles_inv s'"
  using assms by (simp add: handles_inv_def sealed_FileName_def)

lemma settle_epoch_handles [simp]:
  "sf_lru (settle_epoch s now epoch) = sf_lru s" "sf_handles (settle_epoch s now epoch) = sf_handles s"
  "sf_capacity (settle_epoch s now epoch) = sf_capacity s"
  by (auto simp: settle_epoch_def Let_def split: option.splits)

lemma fixed_fields:
  "sf_dir (AddEpochWithRecoveryAdoption s now e n) = sf_dir s" "sf_capacity (AddEpochWithRecoveryAdoption s now e n) = sf_capacity s"
  "sf_dir (AddRecoveryGens s gens b) = sf_dir s" "sf_capacity (AddRecoveryGens s gens b) = sf_capacity s"
  "sf_dir (HandOffSkippedToRecovery s now ep gens pb) = sf_dir s" "sf_capacity (HandOffSkippedToRecovery s now ep gens pb) = sf_capacity s"
  "sf_dir (snd (ReleaseGens s now ep gens)) = sf_dir s" "sf_capacity (snd (ReleaseGens s now ep gens)) = sf_capacity s"
  "sf_dir (snd (Get env s p g)) = sf_dir s" "sf_capacity (snd (Get env s p g)) = sf_capacity s"
  "sf_dir (snd (snd (PurgePending env s))) = sf_dir s" "sf_capacity (snd (snd (PurgePending env s))) = sf_capacity s"
  by (auto simp: AddEpochWithRecoveryAdoption_def adopt_skips_def adopt_recovery_def AddRecoveryGens_def
      HandOffSkippedToRecovery_def ReleaseGens_def Get_def PurgePending_def Let_def split: option.splits sum.splits prod.splits)

lemma lru_fields:
  "sf_lru (AddEpochWithRecoveryAdoption s now e n) = sf_lru s" "sf_handles (AddEpochWithRecoveryAdoption s now e n) = sf_handles s"
  "sf_lru (AddRecoveryGens s gens b) = sf_lru s" "sf_handles (AddRecoveryGens s gens b) = sf_handles s"
  "sf_lru (HandOffSkippedToRecovery s now ep gens pb) = sf_lru s" "sf_handles (HandOffSkippedToRecovery s now ep gens pb) = sf_handles s"
  "sf_lru (snd (ReleaseGens s now ep gens)) = sf_lru s" "sf_handles (snd (ReleaseGens s now ep gens)) = sf_handles s"
  "sf_lru (snd (snd (PurgePending env s))) = sf_lru s" "sf_handles (snd (snd (PurgePending env s))) = sf_handles s"
  by (auto simp: AddEpochWithRecoveryAdoption_def adopt_skips_def adopt_recovery_def AddRecoveryGens_def
      HandOffSkippedToRecovery_def ReleaseGens_def PurgePending_def Let_def split: option.splits prod.splits)

section \<open>Reachable states\<close>

text \<open>The states the engine can bring the cache to. A generation that is registered is new: it is
  neither registered nor queued for deletion (generation numbers of a partition only grow). An
  epoch hands over generations of its own.\<close>

definition fresh_gen :: "SealedFileCache \<Rightarrow> u32 \<times> u32 \<Rightarrow> bool" where
  "fresh_gen s g \<longleftrightarrow> \<not> gen_registered s (fst g) (snd g) \<and> sealed_FileName s (fst g) (snd g) \<notin> set (sf_pending s)"

inductive cache_reach :: "string \<Rightarrow> u32 \<Rightarrow> bool \<Rightarrow> SealedFileCache \<Rightarrow> bool" for dir capacity reclaim where
  init: "cache_reach dir capacity reclaim (new_SealedFileCache dir capacity reclaim)"
| add: "cache_reach dir capacity reclaim s \<Longrightarrow> list_all (fresh_gen s) (se_gens e) \<Longrightarrow>
    cache_reach dir capacity reclaim (AddEpochWithRecoveryAdoption s now e refcount)"
| recovery: "cache_reach dir capacity reclaim s \<Longrightarrow> list_all (fresh_gen s) gens \<Longrightarrow>
    cache_reach dir capacity reclaim (AddRecoveryGens s gens bytes)"
| hand_off: "cache_reach dir capacity reclaim s \<Longrightarrow> GetEpoch s epoch = Some se \<Longrightarrow> list_all (\<lambda>g. g \<in> set (se_gens se)) gens \<Longrightarrow>
    cache_reach dir capacity reclaim (HandOffSkippedToRecovery s now epoch gens part_bytes)"
| release: "cache_reach dir capacity reclaim s \<Longrightarrow> cache_reach dir capacity reclaim (snd (ReleaseGens s now epoch gens))"
| get: "cache_reach dir capacity reclaim s \<Longrightarrow> cache_reach dir capacity reclaim (snd (Get env s part gen))"
| purge: "cache_reach dir capacity reclaim s \<Longrightarrow> cache_reach dir capacity reclaim (snd (snd (PurgePending env s)))"

lemma cache_reach_inv:
  assumes "cache_reach dir capacity reclaim s"
  shows "cache_inv s \<and> handles_inv s \<and> sf_dir s = dir \<and> sf_capacity s = capacity"
  using assms
proof (induction rule: cache_reach.induct)
  case init
  show ?case
    by (simp add: new_SealedFileCache_def cache_inv_def handles_inv_def epoch_gens_def epoch_refs_def waiting_def
        registered_def gen_registered_def)
next
  case (add s e now refcount)
  then show ?case
    using AddEpoch_inv [of s e now refcount] handles_inv_cong [of s "AddEpochWithRecoveryAdoption s now e refcount"]
    by (simp add: fixed_fields lru_fields list_all_iff fresh_gen_def registered_def)
next
  case (recovery s gens bytes)
  then show ?case
    using AddRecoveryGens_inv [of s gens bytes] handles_inv_cong [of s "AddRecoveryGens s gens bytes"]
    by (simp add: fixed_fields lru_fields list_all_iff fresh_gen_def registered_def)
next
  case (hand_off s epoch se gens now part_bytes)
  then show ?case
    using HandOff_inv [of s epoch "set (se_gens se)" gens now part_bytes]
      handles_inv_cong [of s "HandOffSkippedToRecovery s now epoch gens part_bytes"]
    by (auto simp: fixed_fields lru_fields list_all_iff GetEpoch_def epoch_gens_def)
next
  case (release s now epoch gens)
  then show ?case
    using ReleaseGens_inv [of s now epoch gens] handles_inv_cong [of s "snd (ReleaseGens s now epoch gens)"]
    by (simp add: fixed_fields lru_fields)
next
  case (get s env part gen)
  then show ?case using Get_inv [of s env part gen] Get_handles [of s env part gen] by (simp add: fixed_fields)
next
  case (purge s env)
  then show ?case
    using PurgePending_inv [of s env] handles_inv_cong [of s "snd (snd (PurgePending env s))"]
    by (simp add: fixed_fields lru_fields)
qed

lemma delete_fold_content:
  "f \<notin> set fs \<Longrightarrow> e_content (foldl (\<lambda>e f. snd (env_DeleteFile e f)) e fs) f = e_content e f"
  by (induction fs arbitrary: e) (auto simp: env_DeleteFile_def e_content_def)

section \<open>Releasing an epoch with several owners\<close>

text \<open>An epoch whose generations are all held by \<open>n\<close> owners.\<close>

definition epoch_held :: "SealedFileCache \<Rightarrow> u64 \<Rightarrow> (u32 \<times> u32) list \<Rightarrow> u64 \<Rightarrow> u32 \<Rightarrow> bool" where
  "epoch_held s epoch gens tb n \<longleftrightarrow>
     (\<exists>se refs. map_of (sf_epochs s) epoch = Some se \<and> se_gens se = gens \<and> se_total_bytes se = tb \<and>
        map_of (sf_gen_refs s) epoch = Some refs \<and> map_of refs = (\<lambda>k. if k \<in> gkey ` set gens then Some n else None))"

lemma release_fold_dec:
  assumes "distinct gens" "n - 1 > 0" "\<forall>g \<in> set gens. map_of refs (gkey g) = Some n"
  shows "\<exists>refs'. foldl (\<lambda>st g. release_gen s g st) (refs, u, eg) gens = (refs', u, eg) \<and>
    map_of refs' = (\<lambda>k. if k \<in> gkey ` set gens then Some (n - 1) else map_of refs k)"
  using assms
proof (induction gens arbitrary: refs)
  case (Cons g gens)
  let ?refs = "AList.update (gkey g) (n - 1) refs"
  have step: "release_gen s g (refs, u, eg) = (?refs, u, eg)"
    using Cons.prems by (cases g) (auto simp: release_gen_def Let_def)
  have "\<forall>h \<in> set gens. map_of ?refs (gkey h) = Some n"
    using Cons.prems by (auto simp: update_conv' prod_eq_iff)
  from Cons.IH [OF _ Cons.prems(2) this] Cons.prems(1) obtain refs' where
    r: "foldl (\<lambda>st g. release_gen s g st) (?refs, u, eg) gens = (refs', u, eg)"
    "map_of refs' = (\<lambda>k. if k \<in> gkey ` set gens then Some (n - 1) else map_of ?refs k)" by auto
  then show ?case using step by (intro exI [of _ refs']) (auto simp: fun_eq_iff update_conv')
qed auto

lemma release_fold_last:
  assumes "distinct gens" "\<forall>g \<in> set gens. map_of refs (gkey g) = Some 1"
  shows "\<exists>refs'. foldl (\<lambda>st g. release_gen s g st) (refs, u, eg) gens =
      (refs', u @ (if sf_reclaim s then map (\<lambda>g. sealed_FileName s (fst g) (snd g)) gens else []), filter (\<lambda>g. g \<notin> set gens) eg) \<and>
    map_of refs' = (\<lambda>k. if k \<in> gkey ` set gens then None else map_of refs k)"
  using assms
proof (induction gens arbitrary: refs u eg)
  case (Cons g gens)
  let ?refs = "AList.delete (gkey g) refs" and ?u = "if sf_reclaim s then u @ [sealed_FileName s (fst g) (snd g)] else u"
  have step: "release_gen s g (refs, u, eg) = (?refs, ?u, removeAll g eg)"
    using Cons.prems by (cases g) (auto simp: release_gen_def Let_def)
  have "\<forall>h \<in> set gens. map_of ?refs (gkey h) = Some 1"
    using Cons.prems by (auto simp: delete_conv' prod_eq_iff)
  from Cons.IH [OF _ this, of ?u "removeAll g eg"] Cons.prems(1) obtain refs' where
    r: "foldl (\<lambda>st g. release_gen s g st) (?refs, ?u, removeAll g eg) gens =
      (refs', ?u @ (if sf_reclaim s then map (\<lambda>g. sealed_FileName s (fst g) (snd g)) gens else []), filter (\<lambda>h. h \<notin> set gens) (removeAll g eg))"
    "map_of refs' = (\<lambda>k. if k \<in> gkey ` set gens then None else map_of ?refs k)" by auto
  have "filter (\<lambda>h. h \<notin> set gens) (removeAll g eg) = filter (\<lambda>h. h \<notin> set (g # gens)) eg"
    by (auto simp: removeAll_filter_not_eq intro: filter_cong)
  then show ?case using step r by (intro exI [of _ refs']) (auto simp: fun_eq_iff delete_conv')
qed auto

lemma ReleaseEpoch_shared:
  assumes "epoch_held s epoch gens tb n" "distinct gens" "gens \<noteq> []" "n - 1 > 0"
  shows "fst (ReleaseEpoch s now epoch) = 0 \<and> epoch_held (snd (ReleaseEpoch s now epoch)) epoch gens tb (n - 1) \<and>
    sf_pending (snd (ReleaseEpoch s now epoch)) = sf_pending s \<and> sf_reclaim (snd (ReleaseEpoch s now epoch)) = sf_reclaim s \<and>
    sf_sealed_bytes (snd (ReleaseEpoch s now epoch)) = sf_sealed_bytes s \<and> sf_dir (snd (ReleaseEpoch s now epoch)) = sf_dir s"
proof -
  obtain se refs where h: "map_of (sf_epochs s) epoch = Some se" "se_gens se = gens" "se_total_bytes se = tb"
    "map_of (sf_gen_refs s) epoch = Some refs" "map_of refs = (\<lambda>k. if k \<in> gkey ` set gens then Some n else None)"
    using assms(1) by (auto simp: epoch_held_def)
  have "\<forall>g \<in> set gens. map_of refs (gkey g) = Some n" using h(5) by auto
  from release_fold_dec [OF assms(2,4) this, of s "[]" gens] obtain refs' where
    r: "foldl (\<lambda>st g. release_gen s g st) (refs, [], gens) gens = (refs', [], gens)"
    "map_of refs' = (\<lambda>k. if k \<in> gkey ` set gens then Some (n - 1) else map_of refs k)" by blast
  have "refs' \<noteq> []" using r(2) assms(3) by (cases gens) (auto simp: fun_eq_iff split: if_splits)
  then show ?thesis
    using h r assms(3) by (auto simp: ReleaseEpoch_def ReleaseGens_def epoch_held_def update_conv' fun_eq_iff)
qed

lemma ReleaseEpoch_last:
  assumes "epoch_held s epoch gens tb 1" "distinct gens" "gens \<noteq> []"
  shows "fst (ReleaseEpoch s now epoch) = tb \<and> GetEpoch (snd (ReleaseEpoch s now epoch)) epoch = None \<and>
    sf_pending (snd (ReleaseEpoch s now epoch)) =
      sf_pending s @ (if sf_reclaim s then map (\<lambda>(part, gen). MakeFileName (sf_dir s) part gen) gens else []) \<and>
    sf_sealed_bytes (snd (ReleaseEpoch s now epoch)) = sf_sealed_bytes s - tb"
proof -
  obtain se refs where h: "map_of (sf_epochs s) epoch = Some se" "se_gens se = gens" "se_total_bytes se = tb"
    "map_of (sf_gen_refs s) epoch = Some refs" "map_of refs = (\<lambda>k. if k \<in> gkey ` set gens then Some 1 else None)"
    using assms(1) by (auto simp: epoch_held_def)
  have "\<forall>g \<in> set gens. map_of refs (gkey g) = Some 1" using h(5) by auto
  from release_fold_last [OF assms(2) this, of s "[]" gens] obtain refs' where
    r: "foldl (\<lambda>st g. release_gen s g st) (refs, [], gens) gens =
      (refs', (if sf_reclaim s then map (\<lambda>g. sealed_FileName s (fst g) (snd g)) gens else []), [])"
    "map_of refs' = (\<lambda>k. if k \<in> gkey ` set gens then None else map_of refs k)" by auto
  have "map_of refs' = Map.empty" using r(2) h(5) by (auto simp: fun_eq_iff)
  then have "refs' = []" by simp
  then show ?thesis
    using h r assms(3)
    by (auto simp: ReleaseEpoch_def ReleaseGens_def settle_epoch_def GetEpoch_def update_conv' delete_conv' sealed_FileName_def
        split_def Let_def)
qed

lemma ReleaseEpoch_owners:
  assumes "distinct gens" "gens \<noteq> []"
  shows "epoch_held s epoch gens tb n \<Longrightarrow> k < unat n \<Longrightarrow>
    (let s' = ((\<lambda>s. snd (ReleaseEpoch s now epoch)) ^^ k) s in
     epoch_held s' epoch gens tb (n - of_nat k) \<and> sf_pending s' = sf_pending s \<and> sf_reclaim s' = sf_reclaim s \<and>
     sf_sealed_bytes s' = sf_sealed_bytes s \<and> sf_dir s' = sf_dir s)"
proof (induction k)
  case (Suc k)
  let ?s = "((\<lambda>s. snd (ReleaseEpoch s now epoch)) ^^ k) s"
  have IH: "epoch_held ?s epoch gens tb (n - of_nat k)" "sf_pending ?s = sf_pending s" "sf_reclaim ?s = sf_reclaim s"
    "sf_sealed_bytes ?s = sf_sealed_bytes s" "sf_dir ?s = sf_dir s"
    using Suc.IH [OF Suc.prems(1)] Suc.prems(2) by (simp_all add: Let_def)
  have lt: "of_nat (Suc k) < n" using Suc.prems(2) unat_u32_less [of n]
    by (simp add: word_less_nat_alt unat_of_nat take_bit_nat_eq_self del: of_nat_Suc)
  have dec: "n - of_nat k - 1 = n - of_nat (Suc k)" by simp
  moreover have "n - of_nat (Suc k) > 0" using lt by (metis eq_iff_diff_eq_0 word_gt_0 order_less_irrefl)
  ultimately have "n - of_nat k - 1 > 0" by (simp only:)
  from ReleaseEpoch_shared [OF IH(1) assms this, of now] IH show ?case by (simp add: Let_def dec [symmetric] del: of_nat_Suc)
qed simp

lemma AddEpoch_held:
  assumes "cache_inv s" "GetEpoch s (se_epoch e) = None" "sf_recovery_gens s = []" "sf_skip_gens s = []"
  shows "epoch_held (AddEpochWithRecoveryAdoption s now e n) (se_epoch e) (se_gens e) (se_total_bytes e) n"
    and "sf_sealed_bytes (AddEpochWithRecoveryAdoption s now e n) = sf_sealed_bytes s + se_total_bytes e"
    and "sf_pending (AddEpochWithRecoveryAdoption s now e n) = sf_pending s"
    and "sf_reclaim (AddEpochWithRecoveryAdoption s now e n) = sf_reclaim s"
proof -
  have None: "map_of (sf_epochs s) (se_epoch e) = None" using assms(2) by (simp add: GetEpoch_def)
  then have "epoch_refs s (se_epoch e) = None" using cache_invD(2) [OF assms(1)] by (simp add: epoch_gens_def)
  then have r: "map_of (sf_gen_refs s) (se_epoch e) = None" by (simp add: epoch_refs_def)
  have refs: "map_of (refs_of gens n m) = (\<lambda>k. if k \<in> gkey ` set gens then Some n else map_of m k)" for gens m
    unfolding refs_of_def by (induction gens arbitrary: m) (auto simp: fun_eq_iff update_conv')
  show "epoch_held (AddEpochWithRecoveryAdoption s now e n) (se_epoch e) (se_gens e) (se_total_bytes e) n"
    using None r assms(3,4) refs [of "se_gens e" "[]"]
    by (simp add: AddEpochWithRecoveryAdoption_def adopt_skips_def adopt_recovery_def epoch_held_def update_conv' map_add_def fun_eq_iff)
qed (use assms in \<open>simp_all add: AddEpochWithRecoveryAdoption_def adopt_skips_def adopt_recovery_def GetEpoch_def Let_def\<close>)

section \<open>Properties\<close>

text \<open>C29: in every reachable state a generation that may still be read (it belongs to a sealed
  epoch, to the recovered orphans or to the skipped generations) is not queued for deletion, and
  purging the queue leaves its file as it is, whatever deletions fail.\<close>

theorem registered_files_survive:
  assumes "cache_reach dir capacity reclaim s" "gen_registered s part gen"
  shows "MakeFileName dir part gen \<notin> set (sf_pending s) \<and>
    e_content (fst (snd (PurgePending e s))) (MakeFileName dir part gen) = e_content e (MakeFileName dir part gen)"
proof -
  have "sealed_FileName s part gen \<notin> set (sf_pending s)"
    using cache_reach_inv [OF assms(1)] cache_invD(5) [of s "(part, gen)"] assms(2) by (simp add: registered_def)
  then have "MakeFileName dir part gen \<notin> set (sf_pending s)"
    using cache_reach_inv [OF assms(1)] by (simp add: sealed_FileName_def)
  then show ?thesis by (simp add: PurgePending_def delete_fold_content)
qed

theorem registered_files_survive_witness:
  "MakeFileName ''/w'' 0 7 \<notin> set (sf_pending (AddRecoveryGens (new_SealedFileCache ''/w'' 4 True) [(0, 7)] 10)) \<and>
   e_content (fst (snd (PurgePending \<lparr> e_files = [], e_synced = [], e_fail = (\<lambda>_. False) \<rparr>
     (AddRecoveryGens (new_SealedFileCache ''/w'' 4 True) [(0, 7)] 10)))) (MakeFileName ''/w'' 0 7) =
   e_content \<lparr> e_files = [], e_synced = [], e_fail = (\<lambda>_. False) \<rparr> (MakeFileName ''/w'' 0 7)"
proof (rule registered_files_survive)
  show "cache_reach ''/w'' 4 True (AddRecoveryGens (new_SealedFileCache ''/w'' 4 True) [(0, 7)] 10)"
    by (rule cache_reach.recovery [OF cache_reach.init])
      (simp add: fresh_gen_def gen_registered_def new_SealedFileCache_def)
  show "gen_registered (AddRecoveryGens (new_SealedFileCache ''/w'' 4 True) [(0, 7)] 10) 0 7"
    by (simp add: gen_registered_def AddRecoveryGens_def)
qed

text \<open>C30: an epoch registered for \<open>n\<close> owners (column families) is released exactly by the
  \<open>n\<close>-th \<^verbatim>\<open>ReleaseEpoch\<close>: before it nothing is queued and the epoch is registered, with it
  the epoch is gone, its bytes are returned and settled and, when reclaiming is on, its files are
  queued once each.\<close>

theorem epoch_released_by_last_owner:
  assumes "cache_reach dir capacity reclaim s" "GetEpoch s (se_epoch e) = None" "sf_recovery_gens s = []" "sf_skip_gens s = []"
    and "distinct (se_gens e)" "se_gens e \<noteq> []" "0 < n"
  shows "(\<forall>k < unat n.
       GetEpoch (((\<lambda>s. snd (ReleaseEpoch s now (se_epoch e))) ^^ k) (AddEpochWithRecoveryAdoption s now e n)) (se_epoch e) \<noteq> None \<and>
       sf_pending (((\<lambda>s. snd (ReleaseEpoch s now (se_epoch e))) ^^ k) (AddEpochWithRecoveryAdoption s now e n)) = sf_pending s) \<and>
     fst (ReleaseEpoch (((\<lambda>s. snd (ReleaseEpoch s now (se_epoch e))) ^^ (unat n - 1)) (AddEpochWithRecoveryAdoption s now e n)) now (se_epoch e)) =
       se_total_bytes e \<and>
     GetEpoch (((\<lambda>s. snd (ReleaseEpoch s now (se_epoch e))) ^^ unat n) (AddEpochWithRecoveryAdoption s now e n)) (se_epoch e) = None \<and>
     sf_pending (((\<lambda>s. snd (ReleaseEpoch s now (se_epoch e))) ^^ unat n) (AddEpochWithRecoveryAdoption s now e n)) =
       sf_pending s @ (if sf_reclaim s then map (\<lambda>(part, gen). MakeFileName dir part gen) (se_gens e) else []) \<and>
     sealed_bytes (((\<lambda>s. snd (ReleaseEpoch s now (se_epoch e))) ^^ unat n) (AddEpochWithRecoveryAdoption s now e n)) = sealed_bytes s"
proof -
  let ?s0 = "AddEpochWithRecoveryAdoption s now e n" and ?rel = "\<lambda>s. snd (ReleaseEpoch s now (se_epoch e))"
  have inv: "cache_inv s" "sf_dir s = dir" using cache_reach_inv [OF assms(1)] by simp_all
  note a = AddEpoch_held [OF inv(1) assms(2-4), of now n]
  have before: "epoch_held ((?rel ^^ k) ?s0) (se_epoch e) (se_gens e) (se_total_bytes e) (n - of_nat k) \<and>
      sf_pending ((?rel ^^ k) ?s0) = sf_pending s \<and> sf_reclaim ((?rel ^^ k) ?s0) = sf_reclaim s \<and>
      sf_sealed_bytes ((?rel ^^ k) ?s0) = sf_sealed_bytes s + se_total_bytes e \<and> sf_dir ((?rel ^^ k) ?s0) = dir" if "k < unat n" for k
    using ReleaseEpoch_owners [OF assms(5,6) a(1) that, of now] a(2-4) inv(2) by (simp add: Let_def fixed_fields)
  have pos: "0 < unat n" using assms(7) by (simp add: word_less_nat_alt)
  then have one: "n - of_nat (unat n - 1) = 1"
    by (simp add: of_nat_diff Suc_leI)
  let ?s1 = "(?rel ^^ (unat n - 1)) ?s0"
  have b1: "epoch_held ?s1 (se_epoch e) (se_gens e) (se_total_bytes e) 1" "sf_pending ?s1 = sf_pending s"
    "sf_reclaim ?s1 = sf_reclaim s" "sf_sealed_bytes ?s1 = sf_sealed_bytes s + se_total_bytes e" "sf_dir ?s1 = dir"
    using before [of "unat n - 1"] pos one by simp_all
  have last: "(?rel ^^ unat n) ?s0 = ?rel ?s1" using pos by (cases "unat n") simp_all
  have "\<forall>k < unat n. GetEpoch ((?rel ^^ k) ?s0) (se_epoch e) \<noteq> None \<and> sf_pending ((?rel ^^ k) ?s0) = sf_pending s"
    using before by (auto simp: epoch_held_def GetEpoch_def)
  then show ?thesis
    using ReleaseEpoch_last [OF b1(1) assms(5,6), of now] b1 by (simp add: last sealed_bytes_def)
qed

theorem epoch_released_by_last_owner_witness:
  "sf_pending (((\<lambda>s. snd (ReleaseEpoch s 9 5)) ^^ unat (2 :: u32)) (AddEpochWithRecoveryAdoption (new_SealedFileCache ''/w'' 4 True) 9
     \<lparr> se_epoch = 5, se_gens = [(0, 1), (1, 1)], se_total_bytes = 30, se_part_bytes = [(0, 10), (1, 20)],
       se_has_adopted_orphans = False, se_has_adopted_skips = False, se_sealed_at_micros = 0, se_table_version = 1 \<rparr> 2)) =
   [MakeFileName ''/w'' 0 1, MakeFileName ''/w'' 1 1]"
  using epoch_released_by_last_owner [OF cache_reach.init [of "''/w''" 4 True],
      of "\<lparr> se_epoch = 5, se_gens = [(0, 1), (1, 1)], se_total_bytes = 30, se_part_bytes = [(0, 10), (1, 20)],
       se_has_adopted_orphans = False, se_has_adopted_skips = False, se_sealed_at_micros = 0, se_table_version = 1 \<rparr>" 2 9]
  by (simp add: new_SealedFileCache_def GetEpoch_def)

text \<open>C31: in every reachable state the map of the cache holds at most \<open>capacity\<close> handles, exactly those of
  the LRU list: the loop at the end of \<^verbatim>\<open>Get\<close> removes what it evicts from both, although the comment above it
  says that an evicted entry stays in the map. A \<^verbatim>\<open>Get\<close> that succeeds returns the file of the generation it
  was asked for, and one for a registered generation succeeds if the file can be opened. Handles that
  readers still hold after an eviction are not counted.\<close>

theorem sealed_handles_bounded:
  assumes "cache_reach dir capacity reclaim s"
  shows "handle_count s \<le> unat capacity \<and> fst ` set (sf_handles s) = set (sf_lru s) \<and>
    (case fst (Get e s part gen) of Inr f \<Rightarrow> f = MakeFileName dir part gen | Inl _ \<Rightarrow> True) \<and>
    (gen_registered s part gen \<and> NewRandomAccessFile e (MakeFileName dir part gen) = Inr () \<longrightarrow>
       fst (Get e s part gen) = Inr (MakeFileName dir part gen))"
proof -
  have inv: "handles_inv s" and f: "sf_dir s = dir" "sf_capacity s = capacity" using cache_reach_inv [OF assms] by simp_all
  have "length (sf_handles s) = card (fst ` set (sf_handles s))"
    using inv distinct_card [of "map fst (sf_handles s)"] by (simp add: handles_inv_def)
  also have "\<dots> = length (sf_lru s)" using inv by (simp add: handles_inv_def distinct_card)
  finally have count: "handle_count s \<le> unat capacity" using inv f by (simp add: handle_count_def handles_inv_def)
  have "h = MakeFileName dir part gen" if "map_of (sf_handles s) (MakeFileKey part gen) = Some h" for h
    using inv that f unfolding handles_inv_def sealed_FileName_def by (metis key_parts)
  then show ?thesis
    using count inv f by (auto simp: Get_def Let_def handles_inv_def sealed_FileName_def split: option.splits sum.splits prod.splits)
qed

text \<open>Two generations read one after the other through a cache of one handle: the first is evicted.\<close>

definition two_reads :: "SealedFileCache" where
  "two_reads =
     (let e = \<lparr> e_files = [(MakeFileName ''/w'' 0 7, [1, 2]), (MakeFileName ''/w'' 0 8, [3])], e_synced = [], e_fail = (\<lambda>_. False) \<rparr>;
          s = AddRecoveryGens (new_SealedFileCache ''/w'' 1 True) [(0, 7), (0, 8)] 10
      in snd (Get e (snd (Get e s 0 7)) 0 8))"

lemma two_reads_reach: "cache_reach ''/w'' 1 True two_reads"
  unfolding two_reads_def Let_def
  by (intro cache_reach.get cache_reach.recovery cache_reach.init)
    (simp add: fresh_gen_def gen_registered_def new_SealedFileCache_def)

lemma two_reads_lru: "sf_lru two_reads = [MakeFileKey 0 8] \<and> sf_read_count two_reads = 2 \<and> sf_cache_miss two_reads = 2 \<and> gen_registered two_reads 0 7"
  by code_simp

theorem sealed_handles_bounded_witness:
  "cache_reach ''/w'' 1 True two_reads \<and> sf_cache_miss two_reads = 2 \<and> handle_count two_reads \<le> 1 \<and>
   fst ` set (sf_handles two_reads) = {MakeFileKey 0 8} \<and>
   fst (Get \<lparr> e_files = [(MakeFileName ''/w'' 0 7, [1, 2])], e_synced = [], e_fail = (\<lambda>_. False) \<rparr> two_reads 0 7) =
     Inr (MakeFileName ''/w'' 0 7)"
  using sealed_handles_bounded [OF two_reads_reach, where part = 0 and gen = 7 and
      e = "\<lparr> e_files = [(MakeFileName ''/w'' 0 7, [1, 2])], e_synced = [], e_fail = (\<lambda>_. False) \<rparr>"]
    two_reads_reach two_reads_lru by (simp add: NewRandomAccessFile_def e_content_def)

text \<open>The byte counter over-counts generations that were handed over: the hand-over lowers the
  epoch's total but not \<^verbatim>\<open>sealed_bytes_\<close>, and the epoch that adopts them adds their bytes again.
  Here one epoch of 30 bytes hands over 20 of them and is released, the next one (5 bytes) adopts
  them and is released: nothing is sealed any more and the counter stays at 20.\<close>

definition over_count_trace :: "SealedFileCache" where
  "over_count_trace =
     (let ep = \<lambda>n gens total pb. \<lparr> se_epoch = n, se_gens = gens, se_total_bytes = total, se_part_bytes = pb,
            se_has_adopted_orphans = False, se_has_adopted_skips = False, se_sealed_at_micros = 0, se_table_version = 1 \<rparr>;
          s = AddEpochWithRecoveryAdoption (new_SealedFileCache ''/w'' 4 True) 0 (ep 1 [(0, 1), (1, 1)] 30 [(0, 10), (1, 20)]) 1;
          s = HandOffSkippedToRecovery s 0 1 [(1, 1)] [(1, 20)];
          s = snd (ReleaseEpoch s 0 1);
          s = AddEpochWithRecoveryAdoption s 0 (ep 2 [(0, 2)] 5 [(0, 5)]) 1
      in snd (ReleaseEpoch s 0 2))"

lemma sealed_bytes_over_counted:
  "sf_epochs over_count_trace = [] \<and> sf_skip_gens over_count_trace = [] \<and> sf_recovery_gens over_count_trace = [] \<and>
   sealed_bytes over_count_trace = 20"
  by code_simp

end
