(* ===== verification/ZfSkipList.thy ===== *)
theory ZfSkipList
  imports ZfKeyFormat
begin

text \<open>
  \<^verbatim>\<open>InlineSkipList\<close> of \<^verbatim>\<open>memtable/inlineskiplist.h\<close>, the ordered index behind a partition:
  allocation of nodes, insertion through a splice, the searches and the iterator. A node is a
  number, the head is 0; \<open>sl_nodes\<close> holds the key and the height of the nodes allocated so far and
  \<open>sl_next\<close> the links (\<open>None\<close> is the null pointer). Loops over links are
  \<open>partial_function (option)\<close>: on a heap with a cycle they would not return. Calls run one after
  another, as between two memory barriers; a compare-and-swap fails when the link is not the
  expected one. The comparator is a parameter.
\<close>

section \<open>Heap\<close>

definition kMaxPossibleHeight :: nat where "kMaxPossibleHeight = 32"

record 'k SkipList =
  sl_kMaxHeight :: nat
  sl_nodes :: "('k \<times> nat) list"
  sl_next :: "nat \<Rightarrow> nat \<Rightarrow> nat option"
  sl_max_height :: nat

definition new_SkipList :: "nat \<Rightarrow> 'k SkipList" where
  "new_SkipList max_height = \<lparr> sl_kMaxHeight = max_height, sl_nodes = [], sl_next = (\<lambda>_ _. None), sl_max_height = 1 \<rparr>"

definition head :: nat where "head = 0"

definition node_key :: "'k SkipList \<Rightarrow> nat \<Rightarrow> 'k" where
  "node_key s n = fst (sl_nodes s ! (n - 1))"

definition node_height :: "'k SkipList \<Rightarrow> nat \<Rightarrow> nat" where
  "node_height s n = snd (sl_nodes s ! (n - 1))"

definition SetNext :: "'k SkipList \<Rightarrow> nat \<Rightarrow> nat \<Rightarrow> nat option \<Rightarrow> 'k SkipList" where
  "SetNext s n level x = s \<lparr> sl_next := (sl_next s)(n := (sl_next s n)(level := x)) \<rparr>"

definition CASNext :: "'k SkipList \<Rightarrow> nat \<Rightarrow> nat \<Rightarrow> nat option \<Rightarrow> nat \<Rightarrow> ('k SkipList) option" where
  "CASNext s n level expected x =
     (if sl_next s n level = expected then Some (SetNext s n level (Some x)) else None)"

text \<open>\<^verbatim>\<open>RandomHeight\<close> on the draws of the generator: every draw below
  \<^verbatim>\<open>kScaledInverseBranching_\<close> raises the height by one.\<close>

fun RandomHeight :: "u32 \<Rightarrow> nat \<Rightarrow> nat \<Rightarrow> u32 list \<Rightarrow> nat" where
  "RandomHeight scaled kmax height [] = height"
| "RandomHeight scaled kmax height (r # rnd) =
     (if height < kmax \<and> height < kMaxPossibleHeight \<and> r < scaled
      then RandomHeight scaled kmax (height + 1) rnd else height)"

text \<open>\<^verbatim>\<open>AllocateKey\<close>: the new node with its key and stashed height.\<close>

definition AllocateKey :: "'k SkipList \<Rightarrow> 'k \<Rightarrow> nat \<Rightarrow> nat \<times> 'k SkipList" where
  "AllocateKey s key height = (Suc (length (sl_nodes s)), s \<lparr> sl_nodes := sl_nodes s @ [(key, height)] \<rparr>)"

section \<open>Searches\<close>

definition KeyIsAfterNode :: "('k \<Rightarrow> 'k \<Rightarrow> int) \<Rightarrow> 'k SkipList \<Rightarrow> 'k \<Rightarrow> nat option \<Rightarrow> bool" where
  "KeyIsAfterNode cmp s key n = (case n of None \<Rightarrow> False | Some n \<Rightarrow> cmp (node_key s n) key < 0)"

partial_function (option) find_ge_loop ::
    "('k \<Rightarrow> 'k \<Rightarrow> int) \<Rightarrow> 'k SkipList \<Rightarrow> 'k \<Rightarrow> nat \<Rightarrow> nat \<Rightarrow> nat option \<Rightarrow> nat option option" where
  "find_ge_loop cmp s key x level last_bigger =
     (let next = sl_next s x level;
          c = (case next of None \<Rightarrow> 1 | Some n \<Rightarrow> if next = last_bigger then 1 else cmp (node_key s n) key)
      in if c = 0 \<or> (c > 0 \<and> level = 0) then Some next
         else if c < 0 then find_ge_loop cmp s key (case next of None \<Rightarrow> x | Some n \<Rightarrow> n) level last_bigger
         else find_ge_loop cmp s key x (level - 1) next)"

definition FindGreaterOrEqual :: "('k \<Rightarrow> 'k \<Rightarrow> int) \<Rightarrow> 'k SkipList \<Rightarrow> 'k \<Rightarrow> nat option option" where
  "FindGreaterOrEqual cmp s key = find_ge_loop cmp s key head (sl_max_height s - 1) None"

partial_function (option) find_lt_loop ::
    "('k \<Rightarrow> 'k \<Rightarrow> int) \<Rightarrow> 'k SkipList \<Rightarrow> 'k \<Rightarrow> nat \<Rightarrow> nat \<Rightarrow> nat option \<Rightarrow> nat option" where
  "find_lt_loop cmp s key x level last_not_after =
     (let next = sl_next s x level
      in if next \<noteq> last_not_after \<and> KeyIsAfterNode cmp s key next
         then find_lt_loop cmp s key (case next of None \<Rightarrow> x | Some n \<Rightarrow> n) level last_not_after
         else if level = 0 then Some x
         else find_lt_loop cmp s key x (level - 1) next)"

definition FindLessThan :: "('k \<Rightarrow> 'k \<Rightarrow> int) \<Rightarrow> 'k SkipList \<Rightarrow> 'k \<Rightarrow> nat option" where
  "FindLessThan cmp s key = find_lt_loop cmp s key head (sl_max_height s - 1) None"

partial_function (option) find_last_loop :: "'k SkipList \<Rightarrow> nat \<Rightarrow> nat \<Rightarrow> nat option" where
  "find_last_loop s x level =
     (case sl_next s x level of
        None \<Rightarrow> if level = 0 then Some x else find_last_loop s x (level - 1)
      | Some n \<Rightarrow> find_last_loop s n level)"

definition FindLast :: "'k SkipList \<Rightarrow> nat option" where
  "FindLast s = find_last_loop s head (sl_max_height s - 1)"

section \<open>Insertion\<close>

record Splice =
  sp_height :: nat
  sp_prev :: "nat list"
  sp_next :: "nat option list"

partial_function (option) FindSpliceForLevel ::
    "('k \<Rightarrow> 'k \<Rightarrow> int) \<Rightarrow> 'k SkipList \<Rightarrow> 'k \<Rightarrow> nat \<Rightarrow> nat option \<Rightarrow> nat \<Rightarrow> (nat \<times> nat option) option" where
  "FindSpliceForLevel cmp s key before after level =
     (let next = sl_next s before level
      in if next = after \<or> \<not> KeyIsAfterNode cmp s key next then Some (before, next)
         else FindSpliceForLevel cmp s key (case next of None \<Rightarrow> before | Some n \<Rightarrow> n) after level)"

primrec RecomputeSpliceLevels :: "('k \<Rightarrow> 'k \<Rightarrow> int) \<Rightarrow> 'k SkipList \<Rightarrow> 'k \<Rightarrow> nat \<Rightarrow> Splice \<Rightarrow> Splice option" where
  "RecomputeSpliceLevels cmp s key 0 sp = Some sp"
| "RecomputeSpliceLevels cmp s key (Suc i) sp =
     (case FindSpliceForLevel cmp s key (sp_prev sp ! (i + 1)) (sp_next sp ! (i + 1)) i of
        None \<Rightarrow> None
      | Some (p, n) \<Rightarrow>
          RecomputeSpliceLevels cmp s key i
            (sp \<lparr> sp_prev := (sp_prev sp)[i := p], sp_next := (sp_next sp)[i := n] \<rparr>))"

text \<open>One level of the linking loop: the duplicate checks of level 0, then compare-and-swap until
  it succeeds. The result is \<^verbatim>\<open>false\<close> for a duplicate, and else the heap and the splice.\<close>

partial_function (option) link_level ::
    "('k \<Rightarrow> 'k \<Rightarrow> int) \<Rightarrow> 'k SkipList \<Rightarrow> 'k \<Rightarrow> nat \<Rightarrow> nat \<Rightarrow> Splice \<Rightarrow> (bool \<times> 'k SkipList \<times> Splice) option" where
  "link_level cmp s key x i sp =
     (if i = 0 \<and> (case sp_next sp ! i of None \<Rightarrow> False | Some n \<Rightarrow> cmp (node_key s n) key \<le> 0) then Some (False, s, sp)
      else if i = 0 \<and> sp_prev sp ! i \<noteq> head \<and> cmp (node_key s (sp_prev sp ! i)) key \<ge> 0 then Some (False, s, sp)
      else
       let s = SetNext s x i (sp_next sp ! i)
       in case CASNext s (sp_prev sp ! i) i (sp_next sp ! i) x of
            Some s \<Rightarrow> Some (True, s, sp)
          | None \<Rightarrow>
              (case FindSpliceForLevel cmp s key (sp_prev sp ! i) None i of
                 None \<Rightarrow> None
               | Some (p, n) \<Rightarrow>
                   link_level cmp s key x i (sp \<lparr> sp_prev := (sp_prev sp)[i := p], sp_next := (sp_next sp)[i := n] \<rparr>)))"

primrec link_levels ::
    "('k \<Rightarrow> 'k \<Rightarrow> int) \<Rightarrow> 'k \<Rightarrow> nat \<Rightarrow> nat list \<Rightarrow> 'k SkipList \<Rightarrow> Splice \<Rightarrow> (bool \<times> 'k SkipList) option" where
  "link_levels cmp key x [] s sp = Some (True, s)"
| "link_levels cmp key x (i # levels) s sp =
     (case link_level cmp s key x i sp of
        None \<Rightarrow> None
      | Some (False, s, sp) \<Rightarrow> Some (False, s)
      | Some (True, s, sp) \<Rightarrow> link_levels cmp key x levels s sp)"

text \<open>\<^verbatim>\<open>InsertConcurrently\<close>: \<^verbatim>\<open>Insert<true>\<close> with a fresh splice (height 0, so all levels are
  recomputed; the splice is dropped afterwards).\<close>

definition fresh_splice :: "nat \<Rightarrow> Splice" where
  "fresh_splice max_height =
     \<lparr> sp_height = max_height, sp_prev = (replicate kMaxPossibleHeight head)[max_height := head],
       sp_next = (replicate kMaxPossibleHeight None)[max_height := None] \<rparr>"

definition InsertConcurrently :: "('k \<Rightarrow> 'k \<Rightarrow> int) \<Rightarrow> 'k SkipList \<Rightarrow> nat \<Rightarrow> (bool \<times> 'k SkipList) option" where
  "InsertConcurrently cmp s x =
     (let key = node_key s x; height = node_height s x;
          max_height = max height (sl_max_height s);
          s = s \<lparr> sl_max_height := max_height \<rparr>
      in case RecomputeSpliceLevels cmp s key max_height (fresh_splice max_height) of
           None \<Rightarrow> None
         | Some sp \<Rightarrow> link_levels cmp key x [0..<height] s sp)"

section \<open>The iterator\<close>

text \<open>An iterator is its node, \<open>None\<close> when not valid; the outer option is non-termination.\<close>

definition iter_SeekToFirst :: "'k SkipList \<Rightarrow> nat option" where
  "iter_SeekToFirst s = sl_next s head 0"

definition iter_Next :: "'k SkipList \<Rightarrow> nat \<Rightarrow> nat option" where
  "iter_Next s n = sl_next s n 0"

definition not_head :: "nat \<Rightarrow> nat option" where
  "not_head n = (if n = head then None else Some n)"

definition iter_Prev :: "('k \<Rightarrow> 'k \<Rightarrow> int) \<Rightarrow> 'k SkipList \<Rightarrow> nat \<Rightarrow> nat option option" where
  "iter_Prev cmp s n = map_option not_head (FindLessThan cmp s (node_key s n))"

definition iter_SeekToLast :: "'k SkipList \<Rightarrow> nat option option" where
  "iter_SeekToLast s = map_option not_head (FindLast s)"

definition iter_Seek :: "('k \<Rightarrow> 'k \<Rightarrow> int) \<Rightarrow> 'k SkipList \<Rightarrow> 'k \<Rightarrow> nat option option" where
  "iter_Seek cmp s target = FindGreaterOrEqual cmp s target"

partial_function (option) prev_until ::
    "('k \<Rightarrow> 'k \<Rightarrow> int) \<Rightarrow> 'k SkipList \<Rightarrow> 'k \<Rightarrow> nat option \<Rightarrow> nat option option" where
  "prev_until cmp s target n =
     (case n of
        None \<Rightarrow> Some None
      | Some m \<Rightarrow>
          if cmp target (node_key s m) < 0
          then (case iter_Prev cmp s m of None \<Rightarrow> None | Some n \<Rightarrow> prev_until cmp s target n)
          else Some (Some m))"

definition iter_SeekForPrev :: "('k \<Rightarrow> 'k \<Rightarrow> int) \<Rightarrow> 'k SkipList \<Rightarrow> 'k \<Rightarrow> nat option option" where
  "iter_SeekForPrev cmp s target =
     (case iter_Seek cmp s target of
        None \<Rightarrow> None
      | Some None \<Rightarrow> (case iter_SeekToLast s of None \<Rightarrow> None | Some n \<Rightarrow> prev_until cmp s target n)
      | Some (Some n) \<Rightarrow> prev_until cmp s target (Some n))"

declare find_ge_loop.simps [code] find_lt_loop.simps [code] find_last_loop.simps [code] FindSpliceForLevel.simps [code]
  link_level.simps [code] prev_until.simps [code]

section \<open>The list behind the links\<close>

primrec chain :: "(nat \<Rightarrow> nat \<Rightarrow> nat option) \<Rightarrow> nat \<Rightarrow> nat \<Rightarrow> nat list \<Rightarrow> bool" where
  "chain nxt l x [] \<longleftrightarrow> nxt x l = None"
| "chain nxt l x (y # ys) \<longleftrightarrow> nxt x l = Some y \<and> chain nxt l y ys"

lemma chain_append: "chain nxt l x (xs @ ys) \<Longrightarrow> chain nxt l (last (x # xs)) ys"
  by (induction xs arbitrary: x) auto

lemma chain_unique: "chain nxt l x ys \<Longrightarrow> chain nxt l x zs \<Longrightarrow> ys = zs"
proof (induction ys arbitrary: x zs)
  case Nil
  then show ?case by (cases zs) auto
next
  case (Cons y ys)
  then show ?case by (cases zs) auto
qed

lemma chain_cong:
  "(\<And>y. y \<in> insert x (set ys) \<Longrightarrow> nxt' y l = nxt y l) \<Longrightarrow> chain nxt' l x ys = chain nxt l x ys"
  by (induction ys arbitrary: x) auto

text \<open>Linking a new node behind \<open>p\<close>.\<close>

lemma chain_insert:
  assumes "chain nxt l x (ps @ qs)" "n \<notin> set (x # ps @ qs)" "distinct (x # ps @ qs)"
    "nxt' n l = nxt (last (x # ps)) l" "nxt' (last (x # ps)) l = Some n"
    "\<And>y. y \<noteq> n \<Longrightarrow> y \<noteq> last (x # ps) \<Longrightarrow> nxt' y l = nxt y l"
  shows "chain nxt' l x (ps @ n # qs)"
  using assms
proof (induction ps arbitrary: x)
  case Nil
  then have q: "chain nxt l x qs" "nxt' n l = nxt x l" "nxt' x l = Some n" by simp_all
  have "chain nxt' l n qs"
  proof (cases qs)
    case Nil
    then show ?thesis using q by simp
  next
    case (Cons y ys)
    have "nxt' z l = nxt z l" if "z \<in> set qs" for z using that Nil.prems by (auto intro: Nil.prems(6))
    then show ?thesis using q Cons chain_cong [of y ys nxt' l nxt] by simp
  qed
  then show ?case using q by simp
next
  case (Cons p ps)
  have "chain nxt' l p (ps @ n # qs)"
    by (rule Cons.IH) (use Cons.prems in \<open>auto split: if_splits\<close>)
  moreover have "nxt' x l = nxt x l"
    by (rule Cons.prems(6)) (use Cons.prems in \<open>auto split: if_splits\<close>)
  ultimately show ?case using Cons.prems(1) by simp
qed

text \<open>The nodes linked at level 0, in order; every level links those that are high enough.\<close>

definition sl_rep :: "('k \<Rightarrow> 'k \<Rightarrow> int) \<Rightarrow> 'k SkipList \<Rightarrow> nat list \<Rightarrow> bool" where
  "sl_rep cmp s ns \<longleftrightarrow>
     sorted_wrt (\<lambda>a b. cmp (node_key s a) (node_key s b) < 0) ns \<and>
     (\<forall>n \<in> set ns. 1 \<le> n \<and> n \<le> length (sl_nodes s) \<and> 1 \<le> node_height s n \<and> node_height s n \<le> sl_max_height s) \<and>
     (\<forall>l. chain (sl_next s) l head (filter (\<lambda>n. l < node_height s n) ns)) \<and>
     1 \<le> sl_max_height s \<and> sl_max_height s \<le> sl_kMaxHeight s \<and> sl_kMaxHeight s < kMaxPossibleHeight"

lemma sl_repD:
  assumes "sl_rep cmp s ns"
  shows "sorted_wrt (\<lambda>a b. cmp (node_key s a) (node_key s b) < 0) ns"
    and "n \<in> set ns \<Longrightarrow> n \<noteq> head" and "n \<in> set ns \<Longrightarrow> 1 \<le> n" and "n \<in> set ns \<Longrightarrow> n \<le> length (sl_nodes s)"
    and "n \<in> set ns \<Longrightarrow> 0 < node_height s n" and "n \<in> set ns \<Longrightarrow> node_height s n \<le> sl_max_height s"
    and "chain (sl_next s) l head (filter (\<lambda>n. l < node_height s n) ns)"
    and "1 \<le> sl_max_height s" and "sl_max_height s \<le> sl_kMaxHeight s" and "sl_kMaxHeight s < kMaxPossibleHeight"
  using assms by (auto simp: sl_rep_def head_def)

lemma rep_level0: "sl_rep cmp s ns \<Longrightarrow> set xs \<subseteq> set ns \<Longrightarrow> \<forall>n \<in> set xs. \<not> 0 < node_height s n \<Longrightarrow> xs = []"
  by (cases xs) (auto dest: sl_repD(5))

lemma last_filter: "xs \<noteq> [] \<Longrightarrow> P (last xs) \<Longrightarrow> last (filter P xs) = last xs"
  by (induction xs) (auto simp: filter_empty_conv)

text \<open>A search stands at a node \<open>x\<close> of the level: the last one of \<open>pre\<close>. What its link says.\<close>

definition at_node :: "'k SkipList \<Rightarrow> nat list \<Rightarrow> nat \<Rightarrow> nat \<Rightarrow> bool" where
  "at_node s pre level x \<longleftrightarrow> x = last (head # pre) \<and> (pre = [] \<or> level < node_height s x)"

lemma at_node_down: "at_node s pre level x \<Longrightarrow> at_node s pre (level - 1) x"
  by (auto simp: at_node_def)

lemma at_node_last: "at_node s pre level x \<Longrightarrow> last (head # filter (\<lambda>n. level < node_height s n) pre) = x"
proof (cases "pre = []")
  case False
  assume "at_node s pre level x"
  then have "level < node_height s (last pre)" "x = last pre" using False by (auto simp: at_node_def)
  then have "last (filter (\<lambda>n. level < node_height s n) pre) = x" "filter (\<lambda>n. level < node_height s n) pre \<noteq> []"
    using False last_filter [of pre "\<lambda>n. level < node_height s n"] by (auto simp: filter_empty_conv intro: last_in_set)
  then show ?thesis by simp
qed (simp add: at_node_def)

lemma next_cases:
  assumes rep: "sl_rep cmp s (pre @ post)" and at: "at_node s pre level x"
  obtains (None) "sl_next s x level = None" "\<forall>n \<in> set post. \<not> level < node_height s n"
  | (Some) y p1 p2 where "sl_next s x level = Some y" "post = p1 @ y # p2" "\<forall>n \<in> set p1. \<not> level < node_height s n"
      "level < node_height s y" "at_node s (pre @ p1 @ [y]) level y"
proof -
  have "chain (sl_next s) level (last (head # filter (\<lambda>n. level < node_height s n) pre)) (filter (\<lambda>n. level < node_height s n) post)"
    using sl_repD(7) [OF rep, of level] chain_append [of "sl_next s" level head] by simp
  then have c: "chain (sl_next s) level x (filter (\<lambda>n. level < node_height s n) post)" by (simp only: at_node_last [OF at])
  show ?thesis
  proof (cases "filter (\<lambda>n. level < node_height s n) post")
    case Nil
    then have "sl_next s x level = None" "\<forall>n \<in> set post. \<not> level < node_height s n" using c by (auto simp: filter_empty_conv)
    then show ?thesis by (rule that(1))
  next
    case (Cons y ys)
    then obtain p1 p2 where p: "post = p1 @ y # p2" "\<forall>n \<in> set p1. \<not> level < node_height s n" "level < node_height s y"
      by (auto simp: filter_eq_Cons_iff)
    have "sl_next s x level = Some y" using c Cons by simp
    then show ?thesis using p by (intro that(2)) (auto simp: at_node_def)
  qed
qed

context user_comparator begin

lemma rep_middle:
  assumes "sl_rep cmp s (pre @ p1 @ y # p2)"
  shows "u \<in> set p1 \<Longrightarrow> cmp (node_key s u) (node_key s y) < 0" "u \<in> set p2 \<Longrightarrow> cmp (node_key s y) (node_key s u) < 0"
  using sl_repD(1) [OF assms] by (auto simp: sorted_wrt_append)

lemma find_skip: "\<forall>u \<in> set xs. \<not> P u \<Longrightarrow> find P (xs @ ys) = find P ys"
  by (induction xs) auto

lemma find_ge_loop_spec:
  assumes "sl_rep cmp s (pre @ post)" "at_node s pre level x" "\<forall>b. last_bigger = Some b \<longrightarrow> cmp (node_key s b) key > 0"
  shows "find_ge_loop cmp s key x level last_bigger = Some (find (\<lambda>n. cmp (node_key s n) key \<ge> 0) post)"
  using assms
proof (induction "level + length post" arbitrary: pre post x level last_bigger rule: less_induct)
  case less
  from less.prems(1,2) show ?case
  proof (cases rule: next_cases)
    case None
    show ?thesis
    proof (cases "level = 0")
      case True
      then have "post = []" using None(2) rep_level0 [OF less.prems(1), of post] by simp
      then show ?thesis using None(1) True by (simp add: find_ge_loop.simps)
    next
      case False
      have "find_ge_loop cmp s key x (level - 1) None = Some (find (\<lambda>n. cmp (node_key s n) key \<ge> 0) post)"
        by (rule less.hyps [OF _ less.prems(1) at_node_down [OF less.prems(2)]]) (use False in simp_all)
      then show ?thesis using None(1) False by (simp add: find_ge_loop.simps [of cmp s key x level])
    qed
  next
    case (Some y p1 p2)
    note mid = rep_middle [OF less.prems(1) [unfolded Some(2)]]
    have level0: "p1 = []" if "level = 0"
      using that Some(2,3) rep_level0 [OF less.prems(1), of p1] by auto
    define c where "c = (if last_bigger = Some y then 1 else cmp (node_key s y) key)"
    have c: "c > 0 \<longleftrightarrow> cmp (node_key s y) key > 0" "c < 0 \<longleftrightarrow> cmp (node_key s y) key < 0" "c = 0 \<longleftrightarrow> cmp (node_key s y) key = 0"
      using less.prems(3) by (auto simp: c_def)
    have unfold: "find_ge_loop cmp s key x level last_bigger =
      (if c = 0 \<or> (c > 0 \<and> level = 0) then Some (Some y)
       else if c < 0 then find_ge_loop cmp s key y level last_bigger else find_ge_loop cmp s key x (level - 1) (Some y))"
      using Some(1) by (auto simp: find_ge_loop.simps [of cmp s key x level] c_def Let_def)
    have below: "\<forall>u \<in> set p1. \<not> cmp (node_key s u) key \<ge> 0" if "cmp (node_key s y) key \<le> 0"
      using mid(1) cmp_lt_le_trans that by (meson not_le)
    consider "c = 0" | "c > 0" "level = 0" | "c < 0" | "c > 0" "level \<noteq> 0" by linarith
    then show ?thesis
    proof cases
      case 1
      then have "find (\<lambda>n. cmp (node_key s n) key \<ge> 0) post = Some y"
        using below c(3) unfolding Some(2) by (subst find_skip) auto
      then show ?thesis using unfold 1 by simp
    next
      case 2
      then have "find (\<lambda>n. cmp (node_key s n) key \<ge> 0) post = Some y" using c(1) level0 unfolding Some(2) by auto
      then show ?thesis using unfold 2 by simp
    next
      case 3
      have "find_ge_loop cmp s key y level last_bigger = Some (find (\<lambda>n. cmp (node_key s n) key \<ge> 0) p2)"
        by (rule less.hyps [of level p2 "pre @ p1 @ [y]"]) (use less.prems Some in simp_all)
      moreover have "find (\<lambda>n. cmp (node_key s n) key \<ge> 0) post = find (\<lambda>n. cmp (node_key s n) key \<ge> 0) p2"
        using below 3 c(2) find_skip [of "p1 @ [y]" "\<lambda>n. cmp (node_key s n) key \<ge> 0" p2] unfolding Some(2) by auto
      ultimately show ?thesis using unfold 3 by simp
    next
      case 4
      have "find_ge_loop cmp s key x (level - 1) (Some y) = Some (find (\<lambda>n. cmp (node_key s n) key \<ge> 0) post)"
        by (rule less.hyps [OF _ less.prems(1) at_node_down [OF less.prems(2)]]) (use 4 c(1) in simp_all)
      then show ?thesis using unfold 4 by simp
    qed
  qed
qed

lemma at_head: "at_node s [] level head"
  by (simp add: at_node_def)

lemma FindGreaterOrEqual_spec:
  "sl_rep cmp s ns \<Longrightarrow> FindGreaterOrEqual cmp s key = Some (find (\<lambda>n. cmp (node_key s n) key \<ge> 0) ns)"
  using find_ge_loop_spec [of s "[]" ns "sl_max_height s - 1" head None key] by (simp add: FindGreaterOrEqual_def at_head)

text \<open>The nodes below a key, and the others.\<close>

abbreviation below :: "'a SkipList \<Rightarrow> 'a \<Rightarrow> nat \<Rightarrow> bool" where
  "below s key n \<equiv> cmp (node_key s n) key < 0"

lemma takeWhile_skip: "\<forall>u \<in> set xs. P u \<Longrightarrow> takeWhile P (xs @ ys) = xs @ takeWhile P ys"
  by (induction xs) auto

lemma find_lt_loop_spec:
  assumes "sl_rep cmp s (pre @ post)" "at_node s pre level x" "\<forall>b. last_not_after = Some b \<longrightarrow> \<not> below s key b"
  shows "find_lt_loop cmp s key x level last_not_after = Some (last (x # takeWhile (below s key) post))"
  using assms
proof (induction "level + length post" arbitrary: pre post x level last_not_after rule: less_induct)
  case less
  from less.prems(1,2) show ?case
  proof (cases rule: next_cases)
    case None
    show ?thesis
    proof (cases "level = 0")
      case True
      then have "post = []" using None(2) rep_level0 [OF less.prems(1), of post] by simp
      then show ?thesis using None(1) True by (simp add: find_lt_loop.simps KeyIsAfterNode_def)
    next
      case False
      have "find_lt_loop cmp s key x (level - 1) None = Some (last (x # takeWhile (below s key) post))"
        by (rule less.hyps [OF _ less.prems(1) at_node_down [OF less.prems(2)]]) (use False in simp_all)
      then show ?thesis using None(1) False by (simp add: find_lt_loop.simps [of cmp s key x level] KeyIsAfterNode_def)
    qed
  next
    case (Some y p1 p2)
    note mid = rep_middle [OF less.prems(1) [unfolded Some(2)]]
    show ?thesis
    proof (cases "below s key y")
      case True
      then have step: "find_lt_loop cmp s key x level last_not_after = find_lt_loop cmp s key y level last_not_after"
        using Some(1) less.prems(3) by (auto simp: find_lt_loop.simps [of cmp s key x level] KeyIsAfterNode_def Let_def)
      have "find_lt_loop cmp s key y level last_not_after = Some (last (y # takeWhile (below s key) p2))"
        by (rule less.hyps [of level p2 "pre @ p1 @ [y]"]) (use less.prems Some in simp_all)
      moreover have "\<forall>u \<in> set (p1 @ [y]). below s key u" using mid(1) True cmp_lt_trans by auto
      then have "takeWhile (below s key) post = p1 @ y # takeWhile (below s key) p2"
        using takeWhile_skip [of "p1 @ [y]" "below s key" p2] unfolding Some(2) by simp
      ultimately show ?thesis using step by simp
    next
      case F: False
      show ?thesis
      proof (cases "level = 0")
        case True
        then have "p1 = []" using Some(2,3) rep_level0 [OF less.prems(1), of p1] by auto
        then show ?thesis using F True Some by (simp add: find_lt_loop.simps KeyIsAfterNode_def)
      next
        case False
        have "find_lt_loop cmp s key x (level - 1) (Some y) = Some (last (x # takeWhile (below s key) post))"
          by (rule less.hyps [OF _ less.prems(1) at_node_down [OF less.prems(2)]]) (use False F in simp_all)
        then show ?thesis using F False Some(1) by (simp add: find_lt_loop.simps [of cmp s key x level] KeyIsAfterNode_def)
      qed
    qed
  qed
qed

lemma FindLessThan_spec:
  "sl_rep cmp s ns \<Longrightarrow> FindLessThan cmp s key = Some (last (head # takeWhile (below s key) ns))"
  using find_lt_loop_spec [of s "[]" ns "sl_max_height s - 1" head None key] by (simp add: FindLessThan_def at_head)

lemma find_last_loop_spec:
  assumes "sl_rep cmp s (pre @ post)" "at_node s pre level x"
  shows "find_last_loop s x level = Some (last (x # post))"
  using assms
proof (induction "level + length post" arbitrary: pre post x level rule: less_induct)
  case less
  from less.prems(1,2) show ?case
  proof (cases rule: next_cases)
    case None
    show ?thesis
    proof (cases "level = 0")
      case True
      then have "post = []" using None(2) rep_level0 [OF less.prems(1), of post] by simp
      then show ?thesis using None(1) True by (simp add: find_last_loop.simps)
    next
      case False
      have "find_last_loop s x (level - 1) = Some (last (x # post))"
        by (rule less.hyps [OF _ less.prems(1) at_node_down [OF less.prems(2)]]) (use False in simp_all)
      then show ?thesis using None(1) False by (simp add: find_last_loop.simps [of s x level])
    qed
  next
    case (Some y p1 p2)
    have "find_last_loop s y level = Some (last (y # p2))"
      by (rule less.hyps [of level p2 "pre @ p1 @ [y]"]) (use less.prems Some in simp_all)
    then show ?thesis using Some by (simp add: find_last_loop.simps [of s x level])
  qed
qed

lemma FindLast_spec: "sl_rep cmp s ns \<Longrightarrow> FindLast s = Some (last (head # ns))"
  using find_last_loop_spec [of s "[]" ns "sl_max_height s - 1" head] by (simp add: FindLast_def at_head)

end

section \<open>Insertion keeps the representation\<close>

context user_comparator begin

definition first_of :: "nat list \<Rightarrow> nat option" where
  "first_of ns = (case ns of [] \<Rightarrow> None | n # _ \<Rightarrow> Some n)"

lemma first_of_Some: "first_of ns = Some n \<Longrightarrow> n \<in> set ns"
  by (cases ns) (auto simp: first_of_def)

lemma first_of_Nil [simp]: "first_of [] = None"
  by (simp add: first_of_def)

lemma FindSpliceForLevel_spec:
  assumes "sl_rep cmp s (pre @ post)" "at_node s pre level x" "\<forall>a. after = Some a \<longrightarrow> \<not> below s key a"
  shows "FindSpliceForLevel cmp s key x after level =
    Some (last (x # filter (\<lambda>n. level < node_height s n) (takeWhile (below s key) post)),
          first_of (filter (\<lambda>n. level < node_height s n) (dropWhile (below s key) post)))"
  using assms
proof (induction "length post" arbitrary: pre post x rule: less_induct)
  case less
  from less.prems(1,2) show ?case
  proof (cases rule: next_cases)
    case None
    then have "filter (\<lambda>n. level < node_height s n) (takeWhile (below s key) post) = []"
      "filter (\<lambda>n. level < node_height s n) (dropWhile (below s key) post) = []"
      by (auto simp: filter_empty_conv dest: set_takeWhileD set_dropWhileD)
    then show ?thesis using None(1) by (simp add: FindSpliceForLevel.simps KeyIsAfterNode_def first_of_def)
  next
    case (Some y p1 p2)
    note mid = rep_middle [OF less.prems(1) [unfolded Some(2)]]
    show ?thesis
    proof (cases "below s key y")
      case True
      then have step: "FindSpliceForLevel cmp s key x after level = FindSpliceForLevel cmp s key y after level"
        using Some(1) less.prems(3) by (auto simp: FindSpliceForLevel.simps [of cmp s key x] KeyIsAfterNode_def Let_def)
      have IH: "FindSpliceForLevel cmp s key y after level =
        Some (last (y # filter (\<lambda>n. level < node_height s n) (takeWhile (below s key) p2)),
          first_of (filter (\<lambda>n. level < node_height s n) (dropWhile (below s key) p2)))"
        by (rule less.hyps [of p2 "pre @ p1 @ [y]"]) (use less.prems Some in simp_all)
      have all: "\<forall>u \<in> set (p1 @ [y]). below s key u" using mid(1) True cmp_lt_trans by auto
      have "takeWhile (below s key) post = p1 @ y # takeWhile (below s key) p2" "dropWhile (below s key) post = dropWhile (below s key) p2"
        using takeWhile_skip [OF all, of p2] dropWhile_append2 [of "p1 @ [y]" "below s key" p2] all unfolding Some(2) by simp_all
      then show ?thesis using step IH Some(3,4) by (simp add: filter_empty_conv)
    next
      case False
      have tw: "takeWhile (below s key) post = takeWhile (below s key) p1"
        unfolding Some(2) using False by (induction p1) auto
      have "set (takeWhile (below s key) p1) \<subseteq> set p1" by (auto dest: set_takeWhileD)
      then have "filter (\<lambda>n. level < node_height s n) (takeWhile (below s key) post) = []"
        using Some(3) by (auto simp: tw filter_empty_conv)
      moreover have "dropWhile (below s key) post = dropWhile (below s key) p1 @ y # p2"
        unfolding Some(2) using False by (induction p1) auto
      moreover have "filter (\<lambda>n. level < node_height s n) (dropWhile (below s key) p1) = []"
        using Some(3) by (auto simp: filter_empty_conv dest: set_dropWhileD)
      ultimately have "first_of (filter (\<lambda>n. level < node_height s n) (dropWhile (below s key) post)) = Some y"
        using Some(4) by (simp add: first_of_def)
      with \<open>filter (\<lambda>n. level < node_height s n) (takeWhile (below s key) post) = []\<close> show ?thesis
        using Some(1) False by (simp add: FindSpliceForLevel.simps [of cmp s key x] KeyIsAfterNode_def)
    qed
  qed
qed

lemma split_while:
  assumes "\<forall>n \<in> set b. P n"
  shows "takeWhile P (b @ dropWhile P ns) = b" "dropWhile P (b @ dropWhile P ns) = dropWhile P ns"
proof -
  have "takeWhile P (dropWhile P ns) = []" by (induction ns) auto
  then show "takeWhile P (b @ dropWhile P ns) = b" using takeWhile_skip [OF assms] by simp
  show "dropWhile P (b @ dropWhile P ns) = dropWhile P ns" using assms by (simp add: dropWhile_append2)
qed

text \<open>The splice of a key: at every level the last node below it and the first one that is not.\<close>

definition prev_at :: "'a SkipList \<Rightarrow> 'a \<Rightarrow> nat list \<Rightarrow> nat \<Rightarrow> nat" where
  "prev_at s key ns l = last (head # filter (\<lambda>n. l < node_height s n) (takeWhile (below s key) ns))"

definition next_at :: "'a SkipList \<Rightarrow> 'a \<Rightarrow> nat list \<Rightarrow> nat \<Rightarrow> nat option" where
  "next_at s key ns l = first_of (filter (\<lambda>n. l < node_height s n) (dropWhile (below s key) ns))"

lemma next_at_not_below:
  assumes "sl_rep cmp s ns" "next_at s key ns l = Some a"
  shows "\<not> below s key a" "a \<in> set ns"
proof -
  obtain zs where f: "filter (\<lambda>n. l < node_height s n) (dropWhile (below s key) ns) = a # zs"
    using assms(2) by (auto simp: next_at_def first_of_def split: list.splits)
  then have "a \<in> set (filter (\<lambda>n. l < node_height s n) (dropWhile (below s key) ns))" by simp
  then have a: "a \<in> set (dropWhile (below s key) ns)" by simp
  then show "a \<in> set ns" by (rule set_dropWhileD)
  obtain d ds where d: "dropWhile (below s key) ns = d # ds" using a by (cases "dropWhile (below s key) ns") auto
  then have nd: "\<not> below s key d" by (simp add: dropWhile_eq_Cons_conv)
  have "sorted_wrt (\<lambda>a b. cmp (node_key s a) (node_key s b) < 0) (takeWhile (below s key) ns @ d # ds)"
    using sl_repD(1) [OF assms(1)] takeWhile_dropWhile_id [of "below s key" ns] d by simp
  then have "d = a \<or> cmp (node_key s d) (node_key s a) < 0" using a d by (auto simp: sorted_wrt_append)
  then show "\<not> below s key a" using nd cmp_lt_trans by blast
qed

lemma RecomputeSpliceLevels_spec:
  assumes rep: "sl_rep cmp s ns" and "m < length (sp_prev sp)" "length (sp_next sp) = length (sp_prev sp)"
    and "sp_prev sp ! m = prev_at s key ns m" "sp_next sp ! m = next_at s key ns m"
  shows "\<exists>sp'. RecomputeSpliceLevels cmp s key m sp = Some sp' \<and> length (sp_prev sp') = length (sp_prev sp) \<and>
    length (sp_next sp') = length (sp_next sp) \<and>
    (\<forall>i < m. sp_prev sp' ! i = prev_at s key ns i \<and> sp_next sp' ! i = next_at s key ns i) \<and>
    (\<forall>i. m \<le> i \<longrightarrow> sp_prev sp' ! i = sp_prev sp ! i \<and> sp_next sp' ! i = sp_next sp ! i)"
  using assms(2-)
proof (induction m arbitrary: sp)
  case (Suc m)
  let ?tw = "takeWhile (below s key) ns" and ?dw = "dropWhile (below s key) ns"
  let ?P = "\<lambda>l n. l < node_height s n"
  have "\<exists>a b. ?tw = a @ b \<and> at_node s a m (prev_at s key ns (Suc m)) \<and> (\<forall>n \<in> set b. \<not> ?P (Suc m) n)"
  proof (cases "filter (?P (Suc m)) ?tw")
    case Nil
    then have "at_node s [] m (prev_at s key ns (Suc m))" by (simp add: at_node_def prev_at_def)
    then show ?thesis using Nil by (intro exI [of _ "[]"] exI [of _ ?tw]) (auto simp: filter_empty_conv)
  next
    case (Cons y ys)
    then have "y \<in> set (filter (?P (Suc m)) ?tw)" by simp
    then have "\<exists>n \<in> set ?tw. ?P (Suc m) n" by auto
    from split_list_last_prop [OF this] obtain a z b where z: "?tw = a @ z # b" "?P (Suc m) z" "\<forall>n \<in> set b. \<not> ?P (Suc m) n"
      by blast
    have "filter (?P (Suc m)) b = []" using z(3) by (simp add: filter_empty_conv)
    then have "prev_at s key ns (Suc m) = z" using z(2) unfolding prev_at_def z(1) by simp
    then have "at_node s (a @ [z]) m (prev_at s key ns (Suc m))" using z(2) by (simp add: at_node_def)
    then show ?thesis using z(1,3) by (intro exI [of _ "a @ [z]"] exI [of _ b]) simp
  qed
  then obtain a b where ab: "?tw = a @ b" "at_node s a m (prev_at s key ns (Suc m))" by auto
  then have ns: "ns = a @ b @ ?dw" using takeWhile_dropWhile_id [of "below s key" ns] by simp
  have rep': "sl_rep cmp s (a @ b @ ?dw)" using rep ns by metis
  have "\<forall>n \<in> set ?tw. below s key n" by (auto dest: set_takeWhileD)
  then have "\<forall>n \<in> set b. below s key n" unfolding ab(1) by simp
  then have w: "takeWhile (below s key) (b @ ?dw) = b" "dropWhile (below s key) (b @ ?dw) = ?dw"
    by (rule split_while)+
  have lst: "last (prev_at s key ns (Suc m) # filter (?P m) b) = prev_at s key ns m"
  proof (cases "filter (?P m) b")
    case Nil
    have "prev_at s key ns m = last (head # filter (?P m) a)" unfolding prev_at_def ab(1) by (simp add: Nil)
    then show ?thesis using Nil at_node_last [OF ab(2)] by simp
  next
    case (Cons z zs)
    then show ?thesis unfolding prev_at_def [of s key ns m] ab(1) by simp
  qed
  have F: "FindSpliceForLevel cmp s key (prev_at s key ns (Suc m)) (next_at s key ns (Suc m)) m =
    Some (prev_at s key ns m, next_at s key ns m)"
    using FindSpliceForLevel_spec [OF rep' ab(2), of "next_at s key ns (Suc m)" key] next_at_not_below(1) [OF rep]
    unfolding w lst next_at_def [of s key ns m] by blast
  let ?sp = "sp\<lparr>sp_prev := (sp_prev sp)[m := prev_at s key ns m], sp_next := (sp_next sp)[m := next_at s key ns m]\<rparr>"
  have "RecomputeSpliceLevels cmp s key (Suc m) sp = RecomputeSpliceLevels cmp s key m ?sp"
    using Suc.prems F by simp
  moreover have "m < length (sp_prev ?sp)" "length (sp_next ?sp) = length (sp_prev ?sp)"
    "sp_prev ?sp ! m = prev_at s key ns m" "sp_next ?sp ! m = next_at s key ns m" using Suc.prems by simp_all
  from Suc.IH [OF this] obtain sp' where sp': "RecomputeSpliceLevels cmp s key m ?sp = Some sp'"
    "length (sp_prev sp') = length (sp_prev sp)" "length (sp_next sp') = length (sp_next sp)"
    "\<And>i. i < m \<Longrightarrow> sp_prev sp' ! i = prev_at s key ns i \<and> sp_next sp' ! i = next_at s key ns i"
    "\<And>i. m \<le> i \<Longrightarrow> sp_prev sp' ! i = sp_prev ?sp ! i \<and> sp_next sp' ! i = sp_next ?sp ! i" by auto
  moreover have "sp_prev sp' ! m = prev_at s key ns m \<and> sp_next sp' ! m = next_at s key ns m"
    using sp'(5) [of m] Suc.prems(1,2) by simp
  moreover have "sp_prev sp' ! i = sp_prev sp ! i \<and> sp_next sp' ! i = sp_next sp ! i" if "Suc m \<le> i" for i
    using sp'(5) [of i] that by simp
  ultimately show ?case by (intro exI [of _ sp']) (simp add: less_Suc_eq)
qed auto

end

section \<open>Linking\<close>

context user_comparator begin

text \<open>Linking a level changes only the links of that level: behind the last node below the key the
  new node, behind it what followed.\<close>

definition link_at :: "'a SkipList \<Rightarrow> nat \<Rightarrow> nat \<Rightarrow> nat \<Rightarrow> 'a SkipList" where
  "link_at s p x l = SetNext (SetNext s x l (sl_next s p l)) p l (Some x)"

lemma link_at_fields [simp]:
  "sl_nodes (link_at s p x l) = sl_nodes s" "sl_max_height (link_at s p x l) = sl_max_height s"
  "sl_kMaxHeight (link_at s p x l) = sl_kMaxHeight s" "node_key (link_at s p x l) = node_key s"
  "node_height (link_at s p x l) = node_height s"
  by (simp_all add: link_at_def SetNext_def node_key_def node_height_def fun_eq_iff)

lemma link_at_next: "sl_next (link_at s p x l) n k =
    (if k = l then (if n = p then Some x else if n = x then sl_next s p l else sl_next s n k) else sl_next s n k)"
  by (simp add: link_at_def SetNext_def)

lemma link_level_spec:
  assumes "sl_next s (sp_prev sp ! i) i = sp_next sp ! i" "sp_prev sp ! i \<noteq> x"
    and "i = 0 \<longrightarrow> (\<forall>n. sp_next sp ! i = Some n \<longrightarrow> cmp (node_key s n) key > 0)"
    and "i = 0 \<longrightarrow> sp_prev sp ! i = head \<or> cmp (node_key s (sp_prev sp ! i)) key < 0"
  shows "link_level cmp s key x i sp = Some (True, link_at s (sp_prev sp ! i) x i, sp)"
proof -
  have "\<not> (i = 0 \<and> (case sp_next sp ! i of None \<Rightarrow> False | Some n \<Rightarrow> cmp (node_key s n) key \<le> 0))"
    using assms(3) by (auto split: option.splits)
  moreover have "\<not> (i = 0 \<and> sp_prev sp ! i \<noteq> head \<and> cmp (node_key s (sp_prev sp ! i)) key \<ge> 0)" using assms(4) by auto
  moreover have "CASNext (SetNext s x i (sp_next sp ! i)) (sp_prev sp ! i) i (sp_next sp ! i) x = Some (link_at s (sp_prev sp ! i) x i)"
    using assms(1,2) by (simp add: CASNext_def SetNext_def link_at_def)
  ultimately show ?thesis by (subst link_level.simps) (simp only: if_False Let_def option.case)
qed

text \<open>The links while the levels are linked one after another: below \<open>j\<close> the new node is in, from
  \<open>j\<close> on it is not.\<close>

definition linked_below :: "'a SkipList \<Rightarrow> nat list \<Rightarrow> nat \<Rightarrow> nat list \<Rightarrow> nat \<Rightarrow> bool" where
  "linked_below s a x b j \<longleftrightarrow> (\<forall>l. chain (sl_next s) l head
     (filter (\<lambda>n. l < node_height s n) a @ (if l < j then [x] else []) @ filter (\<lambda>n. l < node_height s n) b))"

lemma linked_below_step:
  assumes "linked_below s a x b j" and fresh: "x \<notin> set (head # a @ b)" "distinct (head # a @ b)"
  shows "linked_below (link_at s (last (head # filter (\<lambda>n. j < node_height s n) a)) x j) a x b (Suc j)"
proof -
  let ?F = "\<lambda>l. filter (\<lambda>n. l < node_height s n)"
  let ?s = "link_at s (last (head # ?F j a)) x j"
  have c: "chain (sl_next s) l head (?F l a @ (if l < j then [x] else []) @ ?F l b)" for l
    using assms(1) unfolding linked_below_def by blast
  have "chain (sl_next ?s) l head (?F l a @ (if l < Suc j then [x] else []) @ ?F l b)" for l
  proof (cases "l = j")
    case True
    have "chain (sl_next ?s) j head (?F j a @ x # ?F j b)"
    proof (rule chain_insert [of "sl_next s"])
      show "chain (sl_next s) j head (?F j a @ ?F j b)" using c [of j] by simp
      show "x \<notin> set (head # ?F j a @ ?F j b)" "distinct (head # ?F j a @ ?F j b)" using fresh by auto
      have "last (head # ?F j a) \<noteq> x" using fresh(1) last_in_set [of "head # ?F j a"] by auto
      then show "sl_next ?s x j = sl_next s (last (head # ?F j a)) j" by (simp add: link_at_next)
    qed (auto simp: link_at_next)
    then show ?thesis using True by simp
  next
    case False
    then have "chain (sl_next ?s) l head ns = chain (sl_next s) l head ns" for ns by (intro chain_cong) (simp add: link_at_next)
    then show ?thesis using c [of l] False by (simp add: less_Suc_eq)
  qed
  then show ?thesis by (simp add: linked_below_def)
qed

lemma link_levels_spec:
  assumes "linked_below s a x b j" "x \<notin> set (head # a @ b)" "distinct (head # a @ b)" "j \<le> h"
    and sp: "\<forall>i < h. sp_prev sp ! i = last (head # filter (\<lambda>n. i < node_height s n) a) \<and>
               sp_next sp ! i = first_of (filter (\<lambda>n. i < node_height s n) b)"
    and keys: "\<forall>n \<in> set a. cmp (node_key s n) key < 0" "\<forall>n \<in> set b. cmp (node_key s n) key > 0"
  shows "\<exists>s'. link_levels cmp key x [j..<h] s sp = Some (True, s') \<and> linked_below s' a x b h \<and>
    sl_nodes s' = sl_nodes s \<and> sl_max_height s' = sl_max_height s \<and> sl_kMaxHeight s' = sl_kMaxHeight s"
  using assms
proof (induction "h - j" arbitrary: s j)
  case 0
  then show ?case by simp
next
  case (Suc d)
  let ?F = "\<lambda>l. filter (\<lambda>n. l < node_height s n)"
  let ?p = "last (head # ?F j a)"
  have j: "j < h" using Suc.hyps(2) by simp
  have pin: "?p \<in> insert head (set a)" using last_in_set [of "head # ?F j a"] by auto
  have c: "chain (sl_next s) j head (?F j a @ ?F j b)"
    using Suc.prems(1) [unfolded linked_below_def, rule_format, of j] by simp
  have "chain (sl_next s) j ?p (?F j b)" using chain_append [OF c] by simp
  then have nx: "sl_next s ?p j = first_of (?F j b)" by (cases "?F j b") (auto simp: first_of_def)
  have "link_level cmp s key x j sp = Some (True, link_at s (sp_prev sp ! j) x j, sp)"
  proof (rule link_level_spec)
    show "sl_next s (sp_prev sp ! j) j = sp_next sp ! j" using nx Suc.prems(5) j by simp
    show "sp_prev sp ! j \<noteq> x" using Suc.prems(2,5) j pin by auto
    show "j = 0 \<longrightarrow> (\<forall>n. sp_next sp ! j = Some n \<longrightarrow> cmp (node_key s n) key > 0)"
    proof (intro impI allI)
      fix n assume "sp_next sp ! j = Some n"
      then have "first_of (?F j b) = Some n" using Suc.prems(5) j by simp
      then have "n \<in> set (?F j b)" by (rule first_of_Some)
      then show "cmp (node_key s n) key > 0" using Suc.prems(7) by simp
    qed
    show "j = 0 \<longrightarrow> sp_prev sp ! j = head \<or> cmp (node_key s (sp_prev sp ! j)) key < 0"
      using Suc.prems(5,6) j pin by auto
  qed
  then have step: "link_levels cmp key x [j..<h] s sp = link_levels cmp key x [Suc j..<h] (link_at s ?p x j) sp"
    using j Suc.prems(5) by (simp add: upt_conv_Cons)
  have "\<exists>s'. link_levels cmp key x [Suc j..<h] (link_at s ?p x j) sp = Some (True, s') \<and> linked_below s' a x b h \<and>
    sl_nodes s' = sl_nodes (link_at s ?p x j) \<and> sl_max_height s' = sl_max_height (link_at s ?p x j) \<and>
    sl_kMaxHeight s' = sl_kMaxHeight (link_at s ?p x j)"
    by (rule Suc.hyps(1))
      (use Suc.hyps(2) j Suc.prems linked_below_step [OF Suc.prems(1-3)] in \<open>simp_all\<close>)
  then show ?case using step by simp
qed

text \<open>The whole insertion: a key that compares equal to no key of the list is put in its place, and
  else the list is as before.\<close>

lemma InsertConcurrently_spec:
  assumes rep: "sl_rep cmp s ns" and h: "1 \<le> h" "h \<le> sl_kMaxHeight s" and al: "AllocateKey s key h = (x, s1)"
  shows "\<exists>s'. InsertConcurrently cmp s1 x = Some (\<forall>n \<in> set ns. cmp (node_key s n) key \<noteq> 0, s') \<and>
    sl_rep cmp s' (if \<forall>n \<in> set ns. cmp (node_key s n) key \<noteq> 0
       then takeWhile (below s key) ns @ x # dropWhile (below s key) ns else ns) \<and>
    (\<forall>n \<in> set ns. node_key s' n = node_key s n) \<and> node_key s' x = key \<and> sl_kMaxHeight s' = sl_kMaxHeight s"
proof -
  let ?a = "takeWhile (below s key) ns" and ?b = "dropWhile (below s key) ns"
  let ?m = "max h (sl_max_height s)"
  define s2 where "s2 = s1\<lparr>sl_max_height := ?m\<rparr>"
  have x: "x = Suc (length (sl_nodes s))" and s1: "s1 = s\<lparr>sl_nodes := sl_nodes s @ [(key, h)]\<rparr>"
    using al by (auto simp: AllocateKey_def)
  have nodes: "node_key s2 n = node_key s n" "node_height s2 n = node_height s n" if "n \<in> set ns" for n
    using sl_repD(3,4) [OF rep that] by (auto simp: s2_def s1 node_key_def node_height_def nth_append)
  have new: "node_key s2 x = key" "node_height s2 x = h" by (simp_all add: s2_def s1 x node_key_def node_height_def)
  have xns: "x \<notin> set ns" "x \<noteq> head" using sl_repD(4) [OF rep, of x] x by (auto simp: head_def)
  have eqF: "filter (\<lambda>n. l < node_height s2 n) ns = filter (\<lambda>n. l < node_height s n) ns" for l
    using nodes(2) by (intro filter_cong) auto
  have sorted2: "sorted_wrt (\<lambda>a b. cmp (node_key s2 a) (node_key s2 b) < 0) ns"
    by (rule sorted_wrt_mono_rel [OF _ sl_repD(1) [OF rep]]) (simp add: nodes)
  have rep2: "sl_rep cmp s2 ns"
  proof -
    have "1 \<le> n \<and> n \<le> length (sl_nodes s2) \<and> 1 \<le> node_height s2 n \<and> node_height s2 n \<le> sl_max_height s2" if "n \<in> set ns" for n
      using sl_repD(3-6) [OF rep that] nodes(2) [OF that] by (simp add: s2_def s1)
    moreover have "sl_next s2 = sl_next s" by (simp add: s2_def s1)
    moreover have "1 \<le> sl_max_height s2 \<and> sl_max_height s2 \<le> sl_kMaxHeight s2 \<and> sl_kMaxHeight s2 < kMaxPossibleHeight"
      using sl_repD(8-10) [OF rep] h by (simp add: s2_def s1)
    ultimately show ?thesis unfolding sl_rep_def eqF using sorted2 sl_repD(7) [OF rep] by simp
  qed
  have belows: "takeWhile (below s2 key) ns = ?a" "dropWhile (below s2 key) ns = ?b"
    using nodes(1) by (auto intro!: takeWhile_cong dropWhile_cong)
  have dist: "distinct (head # ns)"
    using sl_repD(2) [OF rep] sorted_wrt_imp_distinct [OF sl_repD(1) [OF rep]] by auto
  have ab: "ns = ?a @ ?b" by simp
  have akeys: "\<forall>n \<in> set ?a. cmp (node_key s2 n) key < 0" using nodes(1) by (auto dest: set_takeWhileD)
  let ?sp = "fresh_splice ?m"
  have m: "?m \<le> sl_kMaxHeight s" "?m < kMaxPossibleHeight" using h sl_repD(9,10) [OF rep] by auto
  have high: "\<not> ?m < node_height s2 n" if "n \<in> set ns" for n using nodes(2) [OF that] sl_repD(6) [OF rep that] by simp
  have "filter (\<lambda>n. ?m < node_height s2 n) ?a = []" "filter (\<lambda>n. ?m < node_height s2 n) ?b = []"
    using high unfolding filter_empty_conv by (meson set_takeWhileD, meson set_dropWhileD)
  then have "prev_at s2 key ns ?m = head" "next_at s2 key ns ?m = None" by (simp_all add: prev_at_def next_at_def belows)
  then obtain sp where sp: "RecomputeSpliceLevels cmp s2 key ?m ?sp = Some sp"
    "\<forall>i < ?m. sp_prev sp ! i = prev_at s2 key ns i \<and> sp_next sp ! i = next_at s2 key ns i"
    using RecomputeSpliceLevels_spec [OF rep2, of ?m ?sp key] m(2) by (auto simp: fresh_splice_def)
  have ins: "InsertConcurrently cmp s1 x = link_levels cmp key x [0..<h] s2 sp"
  proof -
    have "node_key s1 x = key" "node_height s1 x = h" "sl_max_height s1 = sl_max_height s"
      using new by (simp_all add: s2_def s1 node_key_def node_height_def)
    then show ?thesis using sp(1) by (simp add: InsertConcurrently_def Let_def s2_def)
  qed
  show ?thesis
  proof (cases "\<forall>n \<in> set ns. cmp (node_key s n) key \<noteq> 0")
    case True
    have bkeys: "\<forall>n \<in> set ?b. cmp (node_key s2 n) key > 0"
    proof
      fix n assume n: "n \<in> set ?b"
      then have mem: "n \<in> set ns" by (rule set_dropWhileD)
      have "\<not> below s2 key n"
      proof -
        obtain d ds where d: "?b = d # ds" using n by (cases ?b) auto
        then have nd: "\<not> below s key d" by (simp add: dropWhile_eq_Cons_conv)
        have "sorted_wrt (\<lambda>a b. cmp (node_key s a) (node_key s b) < 0) (?a @ d # ds)" using sl_repD(1) [OF rep] ab d by metis
        then have "d = n \<or> cmp (node_key s d) (node_key s n) < 0" using n d by (auto simp: sorted_wrt_append)
        then have "\<not> below s key n" using nd cmp_lt_trans by blast
        then show ?thesis using nodes(1) [OF mem] by simp
      qed
      then show "cmp (node_key s2 n) key > 0" using True mem nodes(1) [OF mem] by (metis linorder_neqE_linordered_idom)
    qed
    have chain0: "linked_below s2 ?a x ?b 0"
      using sl_repD(7) [OF rep2] by (simp add: linked_below_def flip: filter_append)
    obtain s' where s': "link_levels cmp key x [0..<h] s2 sp = Some (True, s')" "linked_below s' ?a x ?b h"
      "sl_nodes s' = sl_nodes s2" "sl_max_height s' = sl_max_height s2" "sl_kMaxHeight s' = sl_kMaxHeight s2"
      using link_levels_spec [OF chain0 _ _ _ _ akeys bkeys, of h sp] dist xns sp(2)
      by (auto simp: prev_at_def next_at_def belows)
    have same: "node_key s' = node_key s2" "node_height s' = node_height s2"
      using s'(3) by (simp_all add: fun_eq_iff node_key_def node_height_def)
    have chains: "chain (sl_next s') l head (filter (\<lambda>n. l < node_height s' n) (?a @ x # ?b))" for l
      using s'(2) [unfolded linked_below_def, rule_format, of l] new(2) by (cases "l < h") (simp_all add: same)
    have "sorted_wrt (\<lambda>a b. cmp (node_key s' a) (node_key s' b) < 0) (?a @ x # ?b)"
    proof -
      have "cmp (node_key s2 x) (node_key s2 n) < 0" if "n \<in> set ?b" for n using bkeys that new(1) cmp_swap by simp
      moreover have "sorted_wrt (\<lambda>a b. cmp (node_key s2 a) (node_key s2 b) < 0) ?a" "sorted_wrt (\<lambda>a b. cmp (node_key s2 a) (node_key s2 b) < 0) ?b"
        using sorted2 by (simp_all add: sorted_wrt_takeWhile sorted_wrt_dropWhile)
      ultimately show ?thesis
        unfolding same using akeys new(1) cmp_lt_trans by (fastforce simp: sorted_wrt_append)
    qed
    moreover have "\<forall>n \<in> set (?a @ x # ?b). 1 \<le> n \<and> n \<le> length (sl_nodes s') \<and> 1 \<le> node_height s' n \<and> node_height s' n \<le> sl_max_height s'"
    proof
      fix n assume "n \<in> set (?a @ x # ?b)"
      then have "n = x \<or> n \<in> set ns" by (auto dest: set_takeWhileD set_dropWhileD)
      then show "1 \<le> n \<and> n \<le> length (sl_nodes s') \<and> 1 \<le> node_height s' n \<and> node_height s' n \<le> sl_max_height s'"
        using sl_repD(3-6) [OF rep2, of n] new(2) h(1) x by (auto simp: same s'(3,4) s2_def s1)
    qed
    ultimately have "sl_rep cmp s' (?a @ x # ?b)"
      using chains sl_repD(8-10) [OF rep2] unfolding sl_rep_def by (simp add: s'(4,5))
    then show ?thesis using True ins s' same nodes(1) new(1) by (auto simp: s2_def s1)
  next
    case False
    then obtain n where n: "n \<in> set ns" "cmp (node_key s n) key = 0" by auto
    then have "n \<in> set ?b" using ab akeys nodes(1) by (metis Un_iff less_irrefl set_append)
    then obtain d ds where d: "?b = d # ds" by (cases ?b) auto
    have "sorted_wrt (\<lambda>a b. cmp (node_key s a) (node_key s b) < 0) (?a @ d # ds)" using sl_repD(1) [OF rep] ab d by metis
    then have dn: "d = n \<or> cmp (node_key s d) (node_key s n) < 0" using \<open>n \<in> set ?b\<close> d by (auto simp: sorted_wrt_append)
    have "\<not> below s key d" using d by (simp add: dropWhile_eq_Cons_conv)
    then have "d = n" using dn n(2) cmp_lt_le_trans [of "node_key s d" "node_key s n" key] by auto
    have "0 < node_height s2 n" using sl_repD(5) [OF rep2 n(1)] .
    then have "next_at s2 key ns 0 = Some n" using d \<open>d = n\<close> by (simp add: next_at_def belows first_of_def)
    then have "sp_next sp ! 0 = Some n" using sp(2) h(1) by simp
    then have "link_level cmp s2 key x 0 sp = Some (False, s2, sp)"
      using n nodes(1) by (subst link_level.simps) simp
    then have "link_levels cmp key x [0..<h] s2 sp = Some (False, s2)" using h(1) by (simp add: upt_conv_Cons)
    then show ?thesis using False ins rep2 nodes(1) new(1) by (auto simp: s2_def s1)
  qed
qed

end

section \<open>The ordered-index contract\<close>

text \<open>The keys of the list, as a walk from the first node over \<^verbatim>\<open>Next\<close> meets them.\<close>

partial_function (option) iter_walk :: "'k SkipList \<Rightarrow> nat option \<Rightarrow> nat list option" where
  "iter_walk s n =
     (case n of None \<Rightarrow> Some [] | Some m \<Rightarrow> Option.bind (iter_walk s (iter_Next s m)) (\<lambda>ms. Some (m # ms)))"

definition sl_elems :: "'k SkipList \<Rightarrow> 'k list" where
  "sl_elems s = (case iter_walk s (iter_SeekToFirst s) of None \<Rightarrow> [] | Some ns \<Rightarrow> map (node_key s) ns)"

definition sl_inv :: "('k \<Rightarrow> 'k \<Rightarrow> int) \<Rightarrow> 'k SkipList \<Rightarrow> bool" where
  "sl_inv cmp s \<longleftrightarrow> (\<exists>ns. sl_rep cmp s ns)"

text \<open>The calls of a client: allocate and insert, seek forwards and backwards, by key.\<close>

definition sl_add :: "('k \<Rightarrow> 'k \<Rightarrow> int) \<Rightarrow> 'k SkipList \<Rightarrow> 'k \<Rightarrow> nat \<Rightarrow> (bool \<times> 'k SkipList) option" where
  "sl_add cmp s key height = (case AllocateKey s key height of (x, s) \<Rightarrow> InsertConcurrently cmp s x)"

definition sl_seek :: "('k \<Rightarrow> 'k \<Rightarrow> int) \<Rightarrow> 'k SkipList \<Rightarrow> 'k \<Rightarrow> 'k option option" where
  "sl_seek cmp s key = map_option (map_option (node_key s)) (iter_Seek cmp s key)"

definition sl_seek_prev :: "('k \<Rightarrow> 'k \<Rightarrow> int) \<Rightarrow> 'k SkipList \<Rightarrow> 'k \<Rightarrow> 'k option option" where
  "sl_seek_prev cmp s key = map_option (map_option (node_key s)) (iter_SeekForPrev cmp s key)"

primrec sl_add_all :: "('k \<Rightarrow> 'k \<Rightarrow> int) \<Rightarrow> ('k \<times> nat) list \<Rightarrow> 'k SkipList \<Rightarrow> 'k SkipList option" where
  "sl_add_all cmp [] s = Some s"
| "sl_add_all cmp (kh # khs) s = Option.bind (sl_add cmp s (fst kh) (snd kh)) (\<lambda>(b, s'). sl_add_all cmp khs s')"

definition last_opt :: "'a list \<Rightarrow> 'a option" where
  "last_opt xs = (if xs = [] then None else Some (last xs))"

locale ordered_index = user_comparator cmp for cmp :: "'k \<Rightarrow> 'k \<Rightarrow> int" +
  fixes inv :: "'s \<Rightarrow> bool" and elems :: "'s \<Rightarrow> 'k list" and hmax :: "'s \<Rightarrow> nat"
    and add :: "'s \<Rightarrow> 'k \<Rightarrow> nat \<Rightarrow> (bool \<times> 's) option"
    and seek :: "'s \<Rightarrow> 'k \<Rightarrow> 'k option option" and seek_prev :: "'s \<Rightarrow> 'k \<Rightarrow> 'k option option"
  assumes elems_sorted: "inv s \<Longrightarrow> sorted_wrt (\<lambda>a b. cmp a b < 0) (elems s)"
    and add_total: "inv s \<Longrightarrow> 1 \<le> h \<Longrightarrow> h \<le> hmax s \<Longrightarrow>
      \<exists>s'. add s k h = Some (\<forall>x \<in> set (elems s). cmp x k \<noteq> 0, s') \<and> inv s' \<and> hmax s' = hmax s \<and>
        elems s' = (if \<forall>x \<in> set (elems s). cmp x k \<noteq> 0
          then takeWhile (\<lambda>x. cmp x k < 0) (elems s) @ k # dropWhile (\<lambda>x. cmp x k < 0) (elems s) else elems s)"
    and seek_total: "inv s \<Longrightarrow> seek s k = Some (find (\<lambda>x. cmp x k \<ge> 0) (elems s))"
    and prev_total: "inv s \<Longrightarrow> seek_prev s k = Some (last_opt (takeWhile (\<lambda>x. cmp x k \<le> 0) (elems s)))"
begin

text \<open>A sequence of insertions, as a client runs them.\<close>

primrec add_all :: "('k \<times> nat) list \<Rightarrow> 's \<Rightarrow> 's option" where
  "add_all [] s = Some s"
| "add_all (kh # khs) s = Option.bind (add s (fst kh) (snd kh)) (\<lambda>(b, s'). add_all khs s')"

lemma add_elems_set:
  "set (takeWhile P xs @ k # dropWhile P xs) = insert k (set xs)"
  by (metis Un_insert_right list.simps(15) set_append takeWhile_dropWhile_id)

lemma add_all_total:
  assumes "inv s" "\<forall>kh \<in> set khs. 1 \<le> snd kh \<and> snd kh \<le> hmax s"
  shows "\<exists>s'. add_all khs s = Some s' \<and> inv s' \<and> hmax s' = hmax s \<and> set (elems s) \<subseteq> set (elems s') \<and>
    set (elems s') \<subseteq> set (elems s) \<union> fst ` set khs \<and> (\<forall>kh \<in> set khs. \<exists>x \<in> set (elems s'). cmp x (fst kh) = 0)"
  using assms
proof (induction khs arbitrary: s)
  case (Cons kh khs)
  obtain k h where kh: "kh = (k, h)" by fastforce
  obtain s1 where s1: "add s k h = Some (\<forall>x \<in> set (elems s). cmp x k \<noteq> 0, s1)" "inv s1" "hmax s1 = hmax s"
    "elems s1 = (if \<forall>x \<in> set (elems s). cmp x k \<noteq> 0
       then takeWhile (\<lambda>x. cmp x k < 0) (elems s) @ k # dropWhile (\<lambda>x. cmp x k < 0) (elems s) else elems s)"
    using add_total [OF Cons.prems(1), of h k] Cons.prems(2) kh by auto
  have sub: "set (elems s) \<subseteq> set (elems s1)" "set (elems s1) \<subseteq> insert k (set (elems s))"
    unfolding s1(4) using add_elems_set [of "\<lambda>x. cmp x k < 0" "elems s" k] by auto
  have has: "\<exists>x \<in> set (elems s1). cmp x k = 0"
  proof (cases "\<forall>x \<in> set (elems s). cmp x k \<noteq> 0")
    case True
    then have "k \<in> set (elems s1)" unfolding s1(4) by simp
    then show ?thesis by force
  next
    case False
    then show ?thesis using sub(1) by auto
  qed
  obtain s' where s': "add_all khs s1 = Some s'" "inv s'" "hmax s' = hmax s1" "set (elems s1) \<subseteq> set (elems s')"
    "set (elems s') \<subseteq> set (elems s1) \<union> fst ` set khs" "\<forall>kh \<in> set khs. \<exists>x \<in> set (elems s'). cmp x (fst kh) = 0"
    using Cons.IH [OF s1(2)] Cons.prems(2) s1(3) by auto
  show ?case
  proof (intro exI [of _ s'] conjI)
    show "add_all (kh # khs) s = Some s'" using s1(1) s'(1) kh by simp
    show "set (elems s') \<subseteq> set (elems s) \<union> fst ` set (kh # khs)" using s'(5) sub(2) kh by auto
    show "\<forall>kh \<in> set (kh # khs). \<exists>x \<in> set (elems s'). cmp x (fst kh) = 0" using s'(4,6) has kh by auto
  qed (use s' s1(3) sub(1) in auto)
qed auto

lemma seek_Some:
  assumes "inv s" "seek s k = Some (Some x)"
  shows "x \<in> set (elems s) \<and> cmp x k \<ge> 0 \<and> (\<forall>y \<in> set (elems s). cmp y k \<ge> 0 \<longrightarrow> cmp x y \<le> 0)"
proof -
  have "find (\<lambda>x. cmp x k \<ge> 0) (elems s) = Some x" using seek_total [OF assms(1)] assms(2) by simp
  then obtain i where i: "i < length (elems s)" "x = elems s ! i" "cmp x k \<ge> 0" "\<forall>j < i. \<not> cmp (elems s ! j) k \<ge> 0"
    by (auto simp: find_Some_iff)
  have "cmp x y \<le> 0" if y: "y \<in> set (elems s)" "cmp y k \<ge> 0" for y
  proof -
    obtain j where j: "j < length (elems s)" "y = elems s ! j" using y(1) by (metis in_set_conv_nth)
    then have "i \<le> j" using i(4) y(2) by (meson not_le)
    then show ?thesis using elems_sorted [OF assms(1)] i(2) j by (cases "i = j") (auto simp: sorted_wrt_iff_nth_less order.strict_iff_order)
  qed
  then show ?thesis using i by simp
qed

lemma seek_None: "inv s \<Longrightarrow> seek s k = Some None \<longleftrightarrow> (\<forall>y \<in> set (elems s). cmp y k < 0)"
  using seek_total [of s k] by (auto simp: find_None_iff not_le)

end

lemma find_SomeD: "find P xs = Some x \<Longrightarrow> \<exists>a b. xs = a @ x # b \<and> P x \<and> (\<forall>u \<in> set a. \<not> P u)"
proof (induction xs)
  case (Cons y ys)
  show ?case
  proof (cases "P y")
    case True
    then show ?thesis using Cons.prems by (intro exI [of _ "[]"] exI [of _ ys]) auto
  next
    case False
    then obtain a b where "ys = a @ x # b" "P x" "\<forall>u \<in> set a. \<not> P u" using Cons by auto
    then show ?thesis using False by (intro exI [of _ "y # a"] exI [of _ b]) auto
  qed
qed simp

lemma iter_walk_chain: "chain (sl_next s) 0 x ns \<Longrightarrow> iter_walk s (sl_next s x 0) = Some ns"
proof (induction ns arbitrary: x)
  case Nil
  then show ?case by (simp add: iter_walk.simps)
next
  case (Cons y ys)
  then show ?case using Cons.IH [of y] by (simp add: iter_walk.simps [of s "Some y"] iter_Next_def)
qed

context user_comparator begin

lemma rep_elems: "sl_rep cmp s ns \<Longrightarrow> sl_elems s = map (node_key s) ns"
proof -
  assume rep: "sl_rep cmp s ns"
  have "filter (\<lambda>n. 0 < node_height s n) ns = ns" using sl_repD(5) [OF rep] by simp
  then have "chain (sl_next s) 0 head ns" using sl_repD(7) [OF rep, of 0] by simp
  then show ?thesis using iter_walk_chain [of s head ns] by (simp add: sl_elems_def iter_SeekToFirst_def)
qed

lemma find_map_key: "find P (map f xs) = map_option f (find (\<lambda>x. P (f x)) xs)"
  by (induction xs) auto

lemma last_opt_not_above:
  "\<forall>u \<in> set a. cmp (node_key s u) key < 0 \<Longrightarrow> \<forall>m. last_opt a = Some m \<longrightarrow> \<not> cmp key (node_key s m) < 0"
  using cmp_swap [of key] cmp_swap [of _ key] by (auto simp: last_opt_def dest!: last_in_set) (metis not_less_iff_gr_or_eq)

lemma prev_until_stop:
  "(\<forall>m. n = Some m \<longrightarrow> \<not> cmp target (node_key s m) < 0) \<Longrightarrow> prev_until cmp s target n = Some n"
  by (cases n) (simp_all add: prev_until.simps)

lemma iter_SeekForPrev_spec:
  assumes rep: "sl_rep cmp s ns"
  shows "iter_SeekForPrev cmp s key = Some (last_opt (takeWhile (\<lambda>n. cmp (node_key s n) key \<le> 0) ns))"
proof (cases "find (\<lambda>n. cmp (node_key s n) key \<ge> 0) ns")
  case None
  then have all: "\<forall>n \<in> set ns. cmp (node_key s n) key < 0" by (auto simp: find_None_iff)
  then have tw: "takeWhile (\<lambda>n. cmp (node_key s n) key \<le> 0) ns = ns" by (auto simp: takeWhile_eq_all_conv intro: less_imp_le)
  have "iter_SeekToLast s = Some (last_opt ns)"
    using FindLast_spec [OF rep] sl_repD(2) [OF rep] by (auto simp: iter_SeekToLast_def not_head_def last_opt_def)
  moreover have "prev_until cmp s key (last_opt ns) = Some (last_opt ns)"
    by (rule prev_until_stop) (rule last_opt_not_above [OF all])
  ultimately show ?thesis
    using None FindGreaterOrEqual_spec [OF rep, of key] by (simp add: iter_SeekForPrev_def iter_Seek_def tw)
next
  case (Some n)
  then obtain a b where ns: "ns = a @ n # b" and ge: "cmp (node_key s n) key \<ge> 0" and lt: "\<forall>u \<in> set a. cmp (node_key s u) key < 0"
    using find_SomeD [of "\<lambda>n. cmp (node_key s n) key \<ge> 0" ns n] by (auto simp: not_le)
  have seek: "iter_Seek cmp s key = Some (Some n)" using Some FindGreaterOrEqual_spec [OF rep, of key] by (simp add: iter_Seek_def)
  note mid = rep_middle [of s "[]" a n b]
  show ?thesis
  proof (cases "cmp (node_key s n) key = 0")
    case True
    have "\<not> cmp (node_key s u) key \<le> 0" if "u \<in> set b" for u
    proof
      assume "cmp (node_key s u) key \<le> 0"
      then have "cmp (node_key s n) key < 0" using mid(2) [OF _ that] rep ns cmp_lt_le_trans by auto
      then show False using True by simp
    qed
    then have tw: "takeWhile (\<lambda>n. cmp (node_key s n) key \<le> 0) ns = a @ [n]"
      unfolding ns using lt True by (cases b) (auto simp: less_imp_le takeWhile_append)
    have "prev_until cmp s key (Some n) = Some (Some n)"
      by (rule prev_until_stop) (use True cmp_eq_sym in auto)
    then show ?thesis using seek by (simp add: iter_SeekForPrev_def tw last_opt_def)
  next
    case False
    then have gt: "cmp key (node_key s n) < 0" using ge cmp_swap by auto
    have tw: "takeWhile (\<lambda>n. cmp (node_key s n) key \<le> 0) ns = a"
      unfolding ns using lt False ge by (auto simp: less_imp_le takeWhile_append)
    have "takeWhile (below s (node_key s n)) ns = a"
      unfolding ns using mid(1) rep ns by (auto simp: takeWhile_append)
    then have "iter_Prev cmp s n = Some (last_opt a)"
      using FindLessThan_spec [OF rep, of "node_key s n"] sl_repD(2) [OF rep] ns
      by (auto simp: iter_Prev_def not_head_def last_opt_def)
    moreover have "prev_until cmp s key (last_opt a) = Some (last_opt a)"
      by (rule prev_until_stop) (rule last_opt_not_above [OF lt])
    ultimately have "prev_until cmp s key (Some n) = Some (last_opt a)" using gt by (subst prev_until.simps) simp
    then show ?thesis using seek by (simp add: iter_SeekForPrev_def tw)
  qed
qed

lemma takeWhile_map_key: "takeWhile P (map f xs) = map f (takeWhile (\<lambda>x. P (f x)) xs)"
  by (induction xs) auto

lemma dropWhile_map_key: "dropWhile P (map f xs) = map f (dropWhile (\<lambda>x. P (f x)) xs)"
  by (induction xs) auto

lemma new_SkipList_rep: "1 \<le> k \<Longrightarrow> k < kMaxPossibleHeight \<Longrightarrow> sl_rep cmp (new_SkipList k) []"
  by (simp add: sl_rep_def new_SkipList_def)

lemma sl_add_spec:
  assumes rep: "sl_rep cmp s ns" and h: "1 \<le> h" "h \<le> sl_kMaxHeight s"
  shows "\<exists>s'. sl_add cmp s k h = Some (\<forall>x \<in> set (sl_elems s). cmp x k \<noteq> 0, s') \<and> sl_inv cmp s' \<and> sl_kMaxHeight s' = sl_kMaxHeight s \<and>
    sl_elems s' = (if \<forall>x \<in> set (sl_elems s). cmp x k \<noteq> 0
      then takeWhile (\<lambda>x. cmp x k < 0) (sl_elems s) @ k # dropWhile (\<lambda>x. cmp x k < 0) (sl_elems s) else sl_elems s)"
proof -
  obtain x s1 where al: "AllocateKey s k h = (x, s1)" by fastforce
  obtain s' where s': "InsertConcurrently cmp s1 x = Some (\<forall>n \<in> set ns. cmp (node_key s n) k \<noteq> 0, s')"
    "sl_rep cmp s' (if \<forall>n \<in> set ns. cmp (node_key s n) k \<noteq> 0 then takeWhile (below s k) ns @ x # dropWhile (below s k) ns else ns)"
    "\<forall>n \<in> set ns. node_key s' n = node_key s n" "node_key s' x = k" "sl_kMaxHeight s' = sl_kMaxHeight s"
    using InsertConcurrently_spec [OF rep h al] by blast
  have keys: "map (node_key s') xs = map (node_key s) xs" if "set xs \<subseteq> set ns" for xs using s'(3) that by auto
  have sub: "set (takeWhile P ns) \<subseteq> set ns" "set (dropWhile P ns) \<subseteq> set ns" for P
    by (auto dest: set_takeWhileD set_dropWhileD)
  show ?thesis
    using s' al by (intro exI [of _ s']) (auto simp: sl_add_def rep_elems [OF rep] rep_elems [OF s'(2)] sl_inv_def
        takeWhile_map_key dropWhile_map_key keys sub)
qed

end

sublocale user_comparator \<subseteq> sl: ordered_index cmp "sl_inv cmp" sl_elems sl_kMaxHeight "sl_add cmp" "sl_seek cmp" "sl_seek_prev cmp"
proof
  show "sorted_wrt (\<lambda>a b. cmp a b < 0) (sl_elems s)" if "sl_inv cmp s" for s
    using that by (auto simp: sl_inv_def rep_elems sorted_wrt_map dest: sl_repD(1))
  show "\<exists>s'. sl_add cmp s k h = Some (\<forall>x \<in> set (sl_elems s). cmp x k \<noteq> 0, s') \<and> sl_inv cmp s' \<and> sl_kMaxHeight s' = sl_kMaxHeight s \<and>
    sl_elems s' = (if \<forall>x \<in> set (sl_elems s). cmp x k \<noteq> 0
      then takeWhile (\<lambda>x. cmp x k < 0) (sl_elems s) @ k # dropWhile (\<lambda>x. cmp x k < 0) (sl_elems s) else sl_elems s)"
    if "sl_inv cmp s" "1 \<le> h" "h \<le> sl_kMaxHeight s" for s h k
  proof -
    from that(1) obtain ns where "sl_rep cmp s ns" by (auto simp: sl_inv_def)
    from sl_add_spec [OF this that(2,3)] show ?thesis .
  qed
  show "sl_seek cmp s k = Some (find (\<lambda>x. cmp x k \<ge> 0) (sl_elems s))" if "sl_inv cmp s" for s k
    using that FindGreaterOrEqual_spec by (auto simp: sl_inv_def sl_seek_def iter_Seek_def rep_elems find_map_key)
  show "sl_seek_prev cmp s k = Some (last_opt (takeWhile (\<lambda>x. cmp x k \<le> 0) (sl_elems s)))" if "sl_inv cmp s" for s k
    using that iter_SeekForPrev_spec
    by (auto simp: sl_inv_def sl_seek_prev_def rep_elems takeWhile_map_key last_opt_def last_map)
qed

context user_comparator begin

lemma sl_add_all_eq: "sl.add_all khs s = sl_add_all cmp khs s"
  by (induction khs arbitrary: s) simp_all

lemmas sl_add_all_total = sl.add_all_total [unfolded sl_add_all_eq]
lemmas sl_elems_sorted = sl.elems_sorted
lemmas sl_seek_total = sl.seek_total
lemmas sl_prev_total = sl.prev_total
lemmas sl_add_total = sl.add_total

end

interpretation bytewise_sl: ordered_index Slice_compare "sl_inv Slice_compare" sl_elems sl_kMaxHeight "sl_add Slice_compare"
    "sl_seek Slice_compare" "sl_seek_prev Slice_compare"
  by (rule bytewise.sl.ordered_index_axioms)

section \<open>Property\<close>

text \<open>C28: the skip list implements a sorted set. From a new list, every sequence of insertions with
  admissible heights returns (no search runs forever), and the list then holds, strictly ascending
  for the comparator, exactly one key of every class of inserted keys that compare equal; a
  forward seek lands on the least key that is not below the target, if there is one, and a backward
  seek on the greatest that is not above it.\<close>

theorem skiplist_sorted_set:
  fixes cmp :: "'k \<Rightarrow> 'k \<Rightarrow> int"
  assumes "user_comparator cmp" "1 \<le> kmax" "kmax < kMaxPossibleHeight" "\<forall>kh \<in> set khs. 1 \<le> snd kh \<and> snd kh \<le> kmax"
  shows "\<exists>s. sl_add_all cmp khs (new_SkipList kmax) = Some s \<and>
    sorted_wrt (\<lambda>a b. cmp a b < 0) (sl_elems s) \<and> set (sl_elems s) \<subseteq> fst ` set khs \<and>
    (\<forall>kh \<in> set khs. \<exists>x \<in> set (sl_elems s). cmp x (fst kh) = 0) \<and>
    (\<forall>k. sl_seek cmp s k = Some (find (\<lambda>x. cmp x k \<ge> 0) (sl_elems s)) \<and>
         sl_seek_prev cmp s k = Some (last_opt (takeWhile (\<lambda>x. cmp x k \<le> 0) (sl_elems s))))"
proof -
  have rep: "sl_rep cmp (new_SkipList kmax) []" by (rule user_comparator.new_SkipList_rep [OF assms(1-3)])
  then have inv: "sl_inv cmp (new_SkipList kmax)" by (auto simp: sl_inv_def)
  have empty: "sl_elems (new_SkipList kmax :: 'k SkipList) = []" using user_comparator.rep_elems [OF assms(1) rep] by simp
  have "\<forall>kh \<in> set khs. 1 \<le> snd kh \<and> snd kh \<le> sl_kMaxHeight (new_SkipList kmax :: 'k SkipList)" using assms(4) by (simp add: new_SkipList_def)
  from user_comparator.sl_add_all_total [OF assms(1) inv this] obtain s where
    s: "sl_add_all cmp khs (new_SkipList kmax) = Some s" "sl_inv cmp s" "set (sl_elems s) \<subseteq> fst ` set khs"
    "\<forall>kh \<in> set khs. \<exists>x \<in> set (sl_elems s). cmp x (fst kh) = 0" by (auto simp: empty)
  show ?thesis
    using s user_comparator.sl_elems_sorted [OF assms(1) s(2)] user_comparator.sl_seek_total [OF assms(1) s(2)]
      user_comparator.sl_prev_total [OF assms(1) s(2)] by blast
qed

theorem skiplist_sorted_set_witness:
  "\<exists>s. sl_add_all Slice_compare [([2], 3), ([1], 1), ([2], 2)] (new_SkipList 12) = Some s \<and> set (sl_elems s) \<subseteq> {[2], [1]} \<and>
    sl_seek Slice_compare s [2] = Some (find (\<lambda>x. Slice_compare x [2] \<ge> 0) (sl_elems s))"
  using skiplist_sorted_set [OF bytewise.user_comparator_axioms, of 12 "[([2], 3), ([1], 1), ([2], 2)]"]
  by (auto simp: kMaxPossibleHeight_def)

end
