(* ===== verification/ZfPartitionTable.thy ===== *)
theory ZfPartitionTable
  imports ZfKeyFormat
begin

text \<open>
  Routing: the 32-bit hash of \<^verbatim>\<open>util/hash.cc\<close> and the partition tables, the versioned set
  of tables and the key sampler of \<^verbatim>\<open>zeroflush/partition_table.h\<close> and
  \<^verbatim>\<open>partition_table.cc\<close>. A table carries its user comparator, as the class does; the
  null pointer of the source is \<open>None\<close>.
\<close>

section \<open>The 32-bit hash\<close>

definition hash_m :: u32 where "hash_m = 0xc6a4a793"

text \<open>The loop over four bytes at a time, then the one to three bytes left, which are
  sign-extended before they are shifted.\<close>

function hash_words :: "u32 \<Rightarrow> bytes \<Rightarrow> u32 \<times> bytes" where
  "hash_words h data =
     (if 4 \<le> length data
      then let h = (h + DecodeFixed32 data) * hash_m
           in hash_words (h XOR drop_bit 16 h) (drop 4 data)
      else (h, data))"
  by pat_completeness auto
termination by (relation "measure (\<lambda>(h, data). length data)") auto

declare hash_words.simps [simp del]

definition hash_tail :: "u32 \<Rightarrow> bytes \<Rightarrow> u32" where
  "hash_tail h data =
     (if length data = 0 then h
      else
       let h = (if length data = 3 then h + push_bit 16 (scast (data ! 2)) else h);
           h = (if 2 \<le> length data then h + push_bit 8 (scast (data ! 1)) else h);
           h = (h + scast (data ! 0)) * hash_m
       in h XOR drop_bit 24 h)"

definition Hash :: "bytes \<Rightarrow> u32 \<Rightarrow> u32" where
  "Hash data seed =
     (let h = ucast (ucast seed XOR (of_nat (length data) * ucast hash_m :: u64)) :: u32;
          (h, rest) = hash_words h data
      in hash_tail h rest)"

section \<open>Partition tables\<close>

type_synonym comparator = "bytes \<Rightarrow> bytes \<Rightarrow> int"

record PartitionTable =
  t_version :: u32
  t_is_hash_mode :: bool
  t_boundaries :: "bytes list"
  t_part_ids :: "u32 list"
  t_ucmp :: "comparator option"

definition partitions :: "PartitionTable \<Rightarrow> u32" where
  "partitions t = of_nat (length (t_part_ids t))"

text \<open>The scan that rejects boundaries out of order or repeated.\<close>

fun check_boundaries :: "comparator \<Rightarrow> bytes list \<Rightarrow> unit zf_result" where
  "check_boundaries ucmp (a # b # bs) =
     (let cmp = ucmp a b
      in if cmp > 0 then Inl (InvalidArgument ''PartitionTable: boundaries not in ascending order'')
         else if cmp = 0 then Inl (InvalidArgument ''PartitionTable: duplicate boundary key'')
         else check_boundaries ucmp (b # bs))"
| "check_boundaries ucmp _ = Inr ()"

definition Create :: "u32 \<Rightarrow> bytes list \<Rightarrow> comparator option \<Rightarrow> PartitionTable zf_result" where
  "Create version boundaries ucmp =
     (case ucmp of
        None \<Rightarrow> Inl (InvalidArgument ''PartitionTable: ucmp must not be null'')
      | Some c \<Rightarrow>
          let part_count = of_nat (length boundaries) + 1 :: u32
          in if part_count = 0 then Inl (InvalidArgument ''PartitionTable: at least 1 partition required'')
             else res_bind (check_boundaries c boundaries) (\<lambda>_.
               Inr \<lparr> t_version = version, t_is_hash_mode = False, t_boundaries = boundaries,
                     t_part_ids = map of_nat [0..<unat part_count], t_ucmp = ucmp \<rparr>))"

definition CreateHash :: "u32 \<Rightarrow> u32 \<Rightarrow> PartitionTable" where
  "CreateHash version parts =
     \<lparr> t_version = version, t_is_hash_mode = True, t_boundaries = [],
       t_part_ids = map of_nat [0..<unat parts], t_ucmp = None \<rparr>"

text \<open>Routing. A range table always has a comparator; the hash of a table without
  partitions divides by zero in the source.\<close>

definition PT_Route :: "PartitionTable \<Rightarrow> bytes \<Rightarrow> u32" where
  "PT_Route t user_key =
     (if t_is_hash_mode t then Hash user_key 0 mod partitions t
      else of_nat (upper_bound (the (t_ucmp t)) user_key (t_boundaries t)))"

definition RangeOf :: "PartitionTable \<Rightarrow> nat \<Rightarrow> bytes \<times> bytes" where
  "RangeOf t p =
     (if p = 0 then [] else t_boundaries t ! (p - 1),
      if length (t_boundaries t) \<le> p then [] else t_boundaries t ! p)"

section \<open>The versioned set\<close>

record PartitionTableSet =
  s_versions :: "PartitionTable list"
  s_current_version :: u32

definition empty_table_set :: PartitionTableSet where
  "empty_table_set = \<lparr> s_versions = [], s_current_version = 0 \<rparr>"

definition set_Get :: "PartitionTableSet \<Rightarrow> u32 \<Rightarrow> PartitionTable option" where
  "set_Get s v = (if unat v < length (s_versions s) then Some (s_versions s ! unat v) else None)"

definition set_current :: "PartitionTableSet \<Rightarrow> PartitionTable option" where
  "set_current s = set_Get s (s_current_version s)"

definition set_Init :: "PartitionTableSet \<Rightarrow> PartitionTable option \<Rightarrow> PartitionTableSet zf_result" where
  "set_Init s t =
     (case t of
        None \<Rightarrow> Inl (InvalidArgument ''PartitionTableSet: table must not be null'')
      | Some t \<Rightarrow>
          if s_versions s \<noteq> [] then Inl (InvalidArgument ''PartitionTableSet: already initialized'')
          else Inr (s \<lparr> s_versions := [t], s_current_version := 0 \<rparr>))"

definition InstallNewVersion :: "PartitionTableSet \<Rightarrow> PartitionTable \<Rightarrow> PartitionTableSet" where
  "InstallNewVersion s t =
     s \<lparr> s_versions := s_versions s @ [t], s_current_version := of_nat (length (s_versions s)) \<rparr>"

section \<open>The key sampler\<close>

record KeySampler =
  k_sample_every_n :: u32
  k_ucmp :: comparator
  k_samples :: "bytes list"
  k_total_seen :: u64

definition max_samples :: u64 where "max_samples = 64 * 1024"

text \<open>\<^verbatim>\<open>RAND_MAX\<close> of the C library; \<open>std::rand\<close> returns a value of \<open>0 \<dots> RAND_MAX\<close>, here an
  argument.\<close>

definition RAND_MAX :: u64 where "RAND_MAX = 2147483647"

definition new_KeySampler :: "u32 \<Rightarrow> comparator \<Rightarrow> KeySampler" where
  "new_KeySampler n ucmp =
     \<lparr> k_sample_every_n = (if n = 0 then 1 else n), k_ucmp = ucmp, k_samples = [], k_total_seen = 0 \<rparr>"

definition Sample :: "KeySampler \<Rightarrow> bytes \<Rightarrow> u64 \<Rightarrow> KeySampler" where
  "Sample s user_key rand =
     (let s = s \<lparr> k_total_seen := k_total_seen s + 1 \<rparr>
      in if (k_total_seen s - 1) mod ucast (k_sample_every_n s) \<noteq> 0 then s
         else if length (k_samples s) < unat max_samples
         then s \<lparr> k_samples := k_samples s @ [user_key] \<rparr>
         else let r = rand * max_samples div RAND_MAX
              in if r < max_samples then s \<lparr> k_samples := (k_samples s)[unat r := user_key] \<rparr> else s)"

definition BuildBoundaries :: "KeySampler \<Rightarrow> u32 \<Rightarrow> bytes list option" where
  "BuildBoundaries s parts =
     (if parts \<le> 1 then Some []
      else if length (k_samples s) < unat parts then None
      else let sorted_samples = sort_cmp (k_ucmp s) (k_samples s)
           in Some (map (\<lambda>i. sorted_samples ! ((i + 1) * length sorted_samples div unat parts))
                        [0..<unat parts - 1]))"

definition Clear :: "KeySampler \<Rightarrow> KeySampler" where
  "Clear s = s \<lparr> k_samples := [], k_total_seen := 0 \<rparr>"

definition sampler_empty :: "KeySampler \<Rightarrow> bool" where "sampler_empty s \<longleftrightarrow> k_samples s = []"
definition sample_count :: "KeySampler \<Rightarrow> nat" where "sample_count s = length (k_samples s)"

section \<open>What a table promises\<close>

text \<open>A well-formed table: at least one partition, at most \<open>2 ^ 32 - 1\<close>; a range table has a
  comparator, strictly ascending boundaries and one partition more than boundaries.\<close>

definition table_wf :: "PartitionTable \<Rightarrow> bool" where
  "table_wf t \<longleftrightarrow>
     0 < length (t_part_ids t) \<and> length (t_part_ids t) < 2 ^ 32 \<and>
     (\<not> t_is_hash_mode t \<longrightarrow>
        (\<exists>c. t_ucmp t = Some c \<and> user_comparator c \<and> sorted_wrt (\<lambda>a b. c a b < 0) (t_boundaries t)) \<and>
        length (t_part_ids t) = length (t_boundaries t) + 1)"

text \<open>Ownership of a key: the hash bucket, or the interval of \<open>RangeOf\<close>, where the empty slice
  stands for no bound at the first and at the last partition.\<close>

definition owns :: "PartitionTable \<Rightarrow> nat \<Rightarrow> bytes \<Rightarrow> bool" where
  "owns t p key =
     (if t_is_hash_mode t then unat (Hash key 0 mod partitions t) = p
      else let (lo, hi) = RangeOf t p; c = the (t_ucmp t)
           in (p = 0 \<or> c lo key \<le> 0) \<and> (p = length (t_boundaries t) \<or> c key hi < 0))"

text \<open>The interface clients rely on: routing picks the one partition that owns the key.\<close>

locale routing =
  fixes valid :: "'t \<Rightarrow> bool" and parts :: "'t \<Rightarrow> nat"
    and route :: "'t \<Rightarrow> 'k \<Rightarrow> nat" and holds_key :: "'t \<Rightarrow> nat \<Rightarrow> 'k \<Rightarrow> bool"
  assumes route_less: "valid t \<Longrightarrow> route t k < parts t"
    and route_owner: "valid t \<Longrightarrow> p < parts t \<Longrightarrow> holds_key t p k \<longleftrightarrow> route t k = p"
begin

lemma unique_owner: "valid t \<Longrightarrow> \<exists>!p. p < parts t \<and> holds_key t p k"
  by (metis route_less route_owner)

lemma disjoint_owners:
  "valid t \<Longrightarrow> p < parts t \<Longrightarrow> q < parts t \<Longrightarrow> holds_key t p k \<Longrightarrow> holds_key t q k \<Longrightarrow> p = q"
  by (metis route_owner)

end

lemma sorted_less_le:
  "sorted_wrt (\<lambda>a b. c a b < (0 :: int)) bs \<Longrightarrow> sorted_wrt (\<lambda>a b. c a b \<le> 0) bs"
  by (erule sorted_wrt_mono_rel [rotated]) simp

lemma unat_Route:
  assumes "table_wf t" "\<not> t_is_hash_mode t"
  shows "unat (PT_Route t key) = upper_bound (the (t_ucmp t)) key (t_boundaries t)"
    and "unat (PT_Route t key) \<le> length (t_boundaries t)"
proof -
  obtain c where c: "t_ucmp t = Some c" "user_comparator c" "sorted_wrt (\<lambda>a b. c a b < 0) (t_boundaries t)"
    and len: "length (t_part_ids t) = length (t_boundaries t) + 1" "length (t_part_ids t) < 2 ^ 32"
    using assms by (auto simp: table_wf_def)
  have le: "upper_bound c key (t_boundaries t) \<le> length (t_boundaries t)"
    by (rule user_comparator.upper_bound_spec(1) [OF c(2) sorted_less_le [OF c(3)]])
  then show eq: "unat (PT_Route t key) = upper_bound (the (t_ucmp t)) key (t_boundaries t)"
    using assms(2) c(1) len by (simp add: PT_Route_def unat_of_nat_small)
  show "unat (PT_Route t key) \<le> length (t_boundaries t)" using le eq c(1) by simp
qed

interpretation tables: routing table_wf "\<lambda>t. length (t_part_ids t)" "\<lambda>t k. unat (PT_Route t k)" owns
proof
  fix t :: PartitionTable and k assume wf: "table_wf t"
  have pos: "0 < length (t_part_ids t)" "length (t_part_ids t) < 2 ^ 32" using wf by (auto simp: table_wf_def)
  then have "unat (partitions t) = length (t_part_ids t)" by (simp add: partitions_def unat_of_nat_small)
  then have "unat (Hash k 0 mod partitions t) < length (t_part_ids t)"
    using pos by (simp add: unat_mod)
  moreover have "unat (PT_Route t k) < length (t_part_ids t)" if "\<not> t_is_hash_mode t"
    using unat_Route(2) [OF wf that, of k] wf that by (auto simp: table_wf_def)
  ultimately show "unat (PT_Route t k) < length (t_part_ids t)"
    by (cases "t_is_hash_mode t") (auto simp: PT_Route_def)
next
  fix t :: PartitionTable and p k assume wf: "table_wf t" and p: "p < length (t_part_ids t)"
  show "owns t p k \<longleftrightarrow> unat (PT_Route t k) = p"
  proof (cases "t_is_hash_mode t")
    case True
    then show ?thesis by (simp add: owns_def PT_Route_def)
  next
    case False
    let ?bs = "t_boundaries t"
    obtain c where c: "t_ucmp t = Some c" "user_comparator c" "sorted_wrt (\<lambda>a b. c a b < 0) ?bs"
      using wf False by (auto simp: table_wf_def)
    note ub = user_comparator.upper_bound_spec [OF c(2) sorted_less_le [OF c(3)], where key = k]
    have p': "p \<le> length ?bs" using wf False p by (auto simp: table_wf_def)
    have r: "unat (PT_Route t k) = upper_bound c k ?bs" using unat_Route(1) [OF wf False] c(1) by simp
    have lt: "p \<noteq> 0 \<and> upper_bound c k ?bs < p \<Longrightarrow> c k (?bs ! (p - 1)) < 0"
      using ub(3) [of "p - 1"] p' by auto
    have gt: "p < upper_bound c k ?bs \<Longrightarrow> c (?bs ! p) k \<le> 0" using ub(2) [of p] by simp
    have "owns t p k \<longleftrightarrow> (p = 0 \<or> c (?bs ! (p - 1)) k \<le> 0) \<and> (p = length ?bs \<or> c k (?bs ! p) < 0)"
      using False c(1) p' by (auto simp: owns_def RangeOf_def)
    also have "\<dots> \<longleftrightarrow> upper_bound c k ?bs = p"
    proof
      assume own: "(p = 0 \<or> c (?bs ! (p - 1)) k \<le> 0) \<and> (p = length ?bs \<or> c k (?bs ! p) < 0)"
      have "\<not> upper_bound c k ?bs < p"
      proof
        assume below: "upper_bound c k ?bs < p"
        then have "c k (?bs ! (p - 1)) < 0" "p \<noteq> 0" using lt by auto
        then show False using own user_comparator.cmp_le_iff [OF c(2), of "?bs ! (p - 1)" k] by auto
      qed
      moreover have "\<not> p < upper_bound c k ?bs"
        using own gt ub(1) user_comparator.cmp_le_iff [OF c(2), of "?bs ! p" k] by auto
      ultimately show "upper_bound c k ?bs = p" by simp
    next
      assume "upper_bound c k ?bs = p"
      then show "(p = 0 \<or> c (?bs ! (p - 1)) k \<le> 0) \<and> (p = length ?bs \<or> c k (?bs ! p) < 0)"
        using ub(2) [of "p - 1"] ub(3) [of p] p' by (cases "p = 0"; cases "p = length ?bs") auto
    qed
    finally show ?thesis using r by simp
  qed
qed

section \<open>Creation\<close>

lemma check_boundaries_ok:
  assumes "user_comparator c"
  shows "check_boundaries c bs = Inr () \<longleftrightarrow> sorted_wrt (\<lambda>a b. c a b < 0) bs"
proof (induction bs rule: induct_list012)
  case (3 a b bs)
  have tr: "transp (\<lambda>a b. c a b < 0)"
    using user_comparator.cmp_lt_trans [OF assms] by (auto intro: transpI)
  show ?case using 3 by (auto simp: Let_def sorted_wrt2 [OF tr] simp del: sorted_wrt.simps)
qed auto

lemma Create_wf:
  assumes "user_comparator c" "length bs < 2 ^ 32 - 1"
  shows "Create v bs (Some c) =
    (if sorted_wrt (\<lambda>a b. c a b < 0) bs
     then Inr \<lparr> t_version = v, t_is_hash_mode = False, t_boundaries = bs,
            t_part_ids = map of_nat [0..<length bs + 1], t_ucmp = Some c \<rparr>
     else (case check_boundaries c bs of Inl e \<Rightarrow> Inl e))"
proof -
  have "length bs + 1 < 2 ^ LENGTH(32)" using assms(2) by simp
  then have "unat (of_nat (length bs + 1) :: u32) = length bs + 1" by (rule unat_of_nat_small)
  then have u: "unat (of_nat (length bs) + 1 :: u32) = length bs + 1"
    by (simp only: of_nat_add of_nat_1)
  moreover have "(of_nat (length bs) + 1 :: u32) \<noteq> 0"
    using u by (metis Suc_eq_plus1 nat.distinct(1) unsigned_0)
  ultimately show ?thesis
    using check_boundaries_ok [OF assms(1), of bs]
    by (cases "check_boundaries c bs") (auto simp: Create_def Let_def split: sum.splits)
qed

lemma table_wf_Create:
  assumes "user_comparator c" "length bs < 2 ^ 32 - 1" "Create v bs (Some c) = Inr t"
  shows "table_wf t" and "t_boundaries t = bs" and "t_ucmp t = Some c" and "\<not> t_is_hash_mode t"
  using assms check_boundaries_ok [OF assms(1), of bs]
  by (auto simp: Create_wf table_wf_def split: if_splits sum.splits)

lemma table_wf_CreateHash: "0 < n \<Longrightarrow> table_wf (CreateHash v n)"
  using unat_u32_less [of n] by (auto simp: CreateHash_def table_wf_def unat_gt_0)

text \<open>C27: routing of a created range table is the interval partition its boundaries describe. If
  \<^verbatim>\<open>Create\<close> succeeds with a lawful comparator, every key is routed to a partition of the
  table, and it is routed to partition \<open>p\<close> exactly when \<^verbatim>\<open>RangeOf(p)\<close>'s lower bound (if
  \<open>p > 0\<close>) is at most the key and its upper bound (if \<open>p\<close> is not the last) is above the key.\<close>

theorem range_table_routes:
  assumes "user_comparator c" "length bs < 2 ^ 32 - 1" "Create v bs (Some c) = Inr t" "p \<le> length bs"
  shows "unat (PT_Route t key) \<le> length bs \<and>
    (unat (PT_Route t key) = p \<longleftrightarrow>
       (p = 0 \<or> c (fst (RangeOf t p)) key \<le> 0) \<and> (p = length bs \<or> c key (snd (RangeOf t p)) < 0))"
proof -
  note wf = table_wf_Create [OF assms(1-3)]
  have len: "length (t_part_ids t) = length bs + 1" using wf by (auto simp: table_wf_def)
  have "p < length (t_part_ids t)" using len assms(4) by simp
  from tables.route_owner [OF wf(1) this, of key] tables.route_less [OF wf(1), of key] wf len
  show ?thesis by (auto simp: owns_def split: prod.splits)
qed

theorem range_table_routes_witness:
  "\<exists>t. Create 1 [[98], [99]] (Some Slice_compare) = Inr t \<and> unat (PT_Route t [98, 0]) = 1"
proof -
  let ?t = "\<lparr> t_version = 1, t_is_hash_mode = False, t_boundaries = [[98], [99]],
     t_part_ids = map of_nat [0..<3], t_ucmp = Some Slice_compare \<rparr>"
  have c: "Create 1 [[98], [99]] (Some Slice_compare) = Inr ?t"
    by (simp add: Create_def upt_rec)
  have "unat (PT_Route ?t [98, 0]) = 1"
    using range_table_routes [OF bytewise.user_comparator_axioms _ c, of 1 "[98, 0]"]
    by (simp add: RangeOf_def)
  with c show ?thesis by blast
qed

text \<open>Boundaries that the table refuses. With a lawful comparator \<^verbatim>\<open>Create\<close> fails, with
  an invalid argument, exactly when the boundaries are not strictly ascending.\<close>

theorem create_rejects:
  assumes "user_comparator c" "length bs < 2 ^ 32 - 1"
  shows "(\<exists>msg. Create v bs (Some c) = Inl (InvalidArgument msg)) \<longleftrightarrow> \<not> sorted_wrt (\<lambda>a b. c a b < 0) bs"
proof -
  have "\<exists>msg. check_boundaries c bs = Inl (InvalidArgument msg)" if "check_boundaries c bs \<noteq> Inr ()"
    using that by (induction c bs rule: check_boundaries.induct) (auto simp: Let_def split: if_splits)
  then show ?thesis
    using check_boundaries_ok [OF assms(1), of bs] by (auto simp: Create_wf [OF assms])
qed

theorem create_rejects_witness:
  "(\<exists>msg. Create 0 [[98], [98]] (Some Slice_compare) = Inl (InvalidArgument msg)) \<longleftrightarrow>
     \<not> sorted_wrt (\<lambda>a b. Slice_compare a b < 0) [[98], [98]]"
  by (rule create_rejects [OF bytewise.user_comparator_axioms]) simp

section \<open>The sampler\<close>

lemma quantile_less: "n \<noteq> 0 \<Longrightarrow> i + 1 < P \<Longrightarrow> (i + 1) * n div P < (n :: nat)"
  using mult_less_mono1 [of "i + 1" P n] by (intro less_mult_imp_div_less) (simp add: mult.commute)

lemma quantile_mono:
  assumes "P \<le> n" "0 < P" "i < j"
  shows "(i + 1) * n div P < (j + 1) * n div (P :: nat)"
proof -
  have "(i + 1) * n div P + 1 = ((i + 1) * n + P) div P"
    using assms(2) div_add_self2 [of P "(i + 1) * n"] by simp
  also have "\<dots> \<le> ((i + 1) * n + n) div P" using assms(1) by (intro div_le_mono) simp
  also have "\<dots> = (i + 2) * n div P" by (simp add: algebra_simps)
  also have "\<dots> \<le> (j + 1) * n div P" using assms(3) by (intro div_le_mono mult_le_mono1) simp
  finally show ?thesis by simp
qed

lemma sorted_strict_of_distinct:
  assumes "exact_comparator c" "distinct xs"
  shows "sorted_wrt (\<lambda>a b. c a b < 0) (sort_cmp c xs)"
proof -
  have u: "user_comparator c" using assms(1) by (simp add: exact_comparator_def)
  have d: "distinct (sort_cmp c xs)"
    using assms(2) user_comparator.mset_sort_cmp [OF u, of xs] by (metis mset_eq_imp_distinct_iff)
  have "c (sort_cmp c xs ! i) (sort_cmp c xs ! j) < 0"
    if "i < j" "j < length (sort_cmp c xs)" for i j
  proof -
    have "c (sort_cmp c xs ! i) (sort_cmp c xs ! j) \<le> 0"
      using user_comparator.sorted_sort_cmp [OF u, of xs] that by (simp add: sorted_wrt_iff_nth_less)
    moreover have "sort_cmp c xs ! i \<noteq> sort_cmp c xs ! j" using d that by (simp add: nth_eq_iff_index_eq)
    ultimately show ?thesis using exact_comparator.cmp_eq [OF assms(1)] by force
  qed
  then show ?thesis by (simp add: sorted_wrt_iff_nth_less)
qed

lemma BuildBoundaries_sorted:
  assumes c: "exact_comparator (k_ucmp s)" and d: "distinct (k_samples s)"
    and P: "1 < P" "unat P \<le> length (k_samples s)"
  shows "\<exists>bs. BuildBoundaries s P = Some bs \<and> length bs = unat P - 1 \<and> set bs \<subseteq> set (k_samples s) \<and>
    sorted_wrt (\<lambda>a b. k_ucmp s a b < 0) bs"
proof -
  let ?ss = "sort_cmp (k_ucmp s) (k_samples s)" and ?P = "unat P"
  have u: "user_comparator (k_ucmp s)" using c by (simp add: exact_comparator_def)
  note sorted_props = user_comparator.length_sort_cmp [OF u] user_comparator.set_sort_cmp [OF u]
  have P1: "1 < ?P" using P(1) by (simp add: word_less_nat_alt)
  have ss: "sorted_wrt (\<lambda>a b. k_ucmp s a b < 0) ?ss" by (rule sorted_strict_of_distinct [OF c d])
  have n: "length ?ss \<noteq> 0" "?P \<le> length ?ss" using P(2) P1 by (auto simp: sorted_props)
  let ?bs = "map (\<lambda>i. ?ss ! ((i + 1) * length ?ss div ?P)) [0..<?P - 1]"
  have "BuildBoundaries s P = Some ?bs"
    using P by (simp add: BuildBoundaries_def Let_def sorted_props not_le)
  moreover have "sorted_wrt (\<lambda>a b. k_ucmp s a b < 0) ?bs"
    unfolding sorted_wrt_iff_nth_less
  proof (intro allI impI)
    fix i j assume ij: "i < j" "j < length ?bs"
    then have "(i + 1) * length ?ss div ?P < (j + 1) * length ?ss div ?P"
      using quantile_mono n(2) P1 by simp
    moreover have "(j + 1) * length ?ss div ?P < length ?ss" using quantile_less n(1) ij by simp
    ultimately show "k_ucmp s (?bs ! i) (?bs ! j) < 0"
      using ss ij by (simp add: sorted_wrt_iff_nth_less)
  qed
  moreover have "set ?bs \<subseteq> set (k_samples s)"
    using quantile_less [OF n(1), of _ ?P] sorted_props(2) by (fastforce intro: nth_mem)
  ultimately show ?thesis by (intro exI [of _ ?bs]) simp
qed

text \<open>C36: boundaries learned from samples make a table. When the sampled keys are distinct and
  there are at least as many as partitions asked for, \<^verbatim>\<open>BuildBoundaries\<close> returns one
  boundary fewer than partitions, all of them sampled keys, and \<^verbatim>\<open>PartitionTable::Create\<close>
  accepts them with exactly that number of partitions.\<close>

theorem sampled_boundaries_accepted:
  assumes "exact_comparator (k_ucmp s)" "distinct (k_samples s)" "1 < P" "unat P \<le> length (k_samples s)"
  shows "\<exists>bs t. BuildBoundaries s P = Some bs \<and> set bs \<subseteq> set (k_samples s) \<and>
    Create v bs (Some (k_ucmp s)) = Inr t \<and> unat (partitions t) = unat P"
proof -
  obtain bs where bs: "BuildBoundaries s P = Some bs" "length bs = unat P - 1"
    "set bs \<subseteq> set (k_samples s)" "sorted_wrt (\<lambda>a b. k_ucmp s a b < 0) bs"
    using BuildBoundaries_sorted [OF assms] by blast
  have u: "user_comparator (k_ucmp s)" using assms(1) by (simp add: exact_comparator_def)
  have P1: "1 < unat P" using assms(3) by (simp add: word_less_nat_alt)
  then have "length bs + 1 = unat P" using bs(2) by simp
  moreover have len: "length bs < 2 ^ 32 - 1" using bs(2) unat_u32_less [of P] P1 by simp
  ultimately show ?thesis
    using bs by (auto simp: Create_wf [OF u len] partitions_def)
qed

theorem sampled_boundaries_accepted_witness:
  "\<exists>bs t. BuildBoundaries \<lparr>k_sample_every_n = 1, k_ucmp = Slice_compare, k_samples = [[99], [97], [98]],
       k_total_seen = 3\<rparr> 2 = Some bs \<and> set bs \<subseteq> {[99], [97], [98]} \<and>
     Create 1 bs (Some Slice_compare) = Inr t \<and> unat (partitions t) = 2"
  using sampled_boundaries_accepted [of "\<lparr>k_sample_every_n = 1, k_ucmp = Slice_compare,
      k_samples = [[99], [97], [98]], k_total_seen = 3\<rparr>" 2 1] bytewise.exact_comparator_axioms
  by simp

text \<open>A run of the sampler over a sequence of keys, each with the value \<open>std::rand\<close> returned.\<close>

definition sample_run :: "KeySampler \<Rightarrow> (bytes \<times> u64) list \<Rightarrow> KeySampler" where
  "sample_run s kvs = foldl (\<lambda>s (k, r). Sample s k r) s kvs"

definition sampler_inv :: "bytes set \<Rightarrow> KeySampler \<Rightarrow> bool" where
  "sampler_inv seen s \<longleftrightarrow> length (k_samples s) \<le> 65536 \<and> set (k_samples s) \<subseteq> seen"

lemma Sample_inv: "sampler_inv seen s \<Longrightarrow> sampler_inv (insert k seen) (Sample s k r)"
  using set_update_subset_insert [of "k_samples s" "unat (r * max_samples div RAND_MAX)" k]
  by (auto simp: sampler_inv_def Sample_def Let_def max_samples_def)

lemma sample_run_inv: "sampler_inv seen s \<Longrightarrow> sampler_inv (seen \<union> fst ` set kvs) (sample_run s kvs)"
  unfolding sample_run_def
proof (induction kvs arbitrary: s seen)
  case (Cons kv kvs)
  obtain k r where kv: "kv = (k, r)" by fastforce
  have "sampler_inv (insert k seen) (Sample s k r)" by (rule Sample_inv [OF Cons.prems])
  from Cons.IH [OF this] show ?case by (simp add: kv insert_commute)
qed simp

text \<open>The sampler is bounded and holds only keys it was shown. Whatever keys it is given and
  whatever \<open>std::rand\<close> returns, it never has more than 65536 samples and each is one of the
  keys.\<close>

theorem sampler_bounded:
  "length (k_samples (sample_run (new_KeySampler n c) kvs)) \<le> 65536 \<and>
   set (k_samples (sample_run (new_KeySampler n c) kvs)) \<subseteq> fst ` set kvs"
  using sample_run_inv [of "{}" "new_KeySampler n c" kvs]
  by (simp add: sampler_inv_def new_KeySampler_def)

text \<open>The replacement is no reservoir. Once the sampler is full, a key that falls on the
  sampling stride replaces a sample whenever \<open>std::rand\<close> returns less than \<open>RAND_MAX\<close>, however
  many keys were seen, where the comment announces the probability
  \<^verbatim>\<open>max_samples_ / total_seen_\<close>.\<close>

theorem sampler_always_replaces:
  assumes "length (k_samples s) = 65536" "k_total_seen s mod ucast (k_sample_every_n s) = 0" "r < RAND_MAX"
  shows "\<exists>i < 65536. k_samples (Sample s k r) = (k_samples s)[i := k]"
proof -
  have r: "unat r < 2147483647" using assms(3) by (simp add: RAND_MAX_def word_less_nat_alt)
  have "unat (r * max_samples) = unat r * 65536"
    using r by (simp add: max_samples_def unat_word_ariths)
  then have "unat (r * max_samples div RAND_MAX) = unat r * 65536 div 2147483647"
    by (simp add: unat_div RAND_MAX_def)
  also have "\<dots> < 65536" using r by (simp add: less_mult_imp_div_less)
  finally have lt: "unat (r * max_samples div RAND_MAX) < 65536" .
  then have "r * max_samples div RAND_MAX < max_samples" by (simp add: max_samples_def word_less_nat_alt)
  then have "k_samples (Sample s k r) = (k_samples s)[unat (r * max_samples div RAND_MAX) := k]"
    using assms(1,2) by (simp add: Sample_def Let_def) (simp add: max_samples_def)
  with lt show ?thesis by blast
qed

theorem sampler_always_replaces_witness:
  "\<exists>i < 65536. k_samples (Sample \<lparr>k_sample_every_n = 1, k_ucmp = Slice_compare,
     k_samples = replicate 65536 [97], k_total_seen = 1000000000\<rparr> [98] 5) = (replicate 65536 [97])[i := [98]]"
  using sampler_always_replaces [of "\<lparr>k_sample_every_n = 1, k_ucmp = Slice_compare,
     k_samples = replicate 65536 [97], k_total_seen = 1000000000\<rparr>" 5 "[98]"]
  by (simp add: RAND_MAX_def)

section \<open>Versions\<close>

text \<open>The versioned set as the open and the seals drive it: one \<^verbatim>\<open>Init\<close> with version 0,
  then installs whose table carries the next version number (the source asserts it).\<close>

inductive table_set_reach :: "PartitionTableSet \<Rightarrow> bool" where
  reach_init: "t_version t = 0 \<Longrightarrow> set_Init empty_table_set (Some t) = Inr s \<Longrightarrow> table_set_reach s"
| reach_install: "table_set_reach s \<Longrightarrow> length (s_versions s) + 1 < 2 ^ 32 \<Longrightarrow>
    unat (t_version t) = length (s_versions s) \<Longrightarrow> table_set_reach (InstallNewVersion s t)"

lemma table_set_reach_inv:
  assumes "table_set_reach s"
  shows "s_versions s \<noteq> [] \<and> length (s_versions s) < 2 ^ 32 \<and>
    unat (s_current_version s) = length (s_versions s) - 1 \<and>
    (\<forall>i < length (s_versions s). unat (t_version (s_versions s ! i)) = i)"
  using assms
proof (induction rule: table_set_reach.induct)
  case (reach_init t s)
  then show ?case by (auto simp: set_Init_def empty_table_set_def)
next
  case (reach_install s t)
  then show ?case
    by (auto simp: InstallNewVersion_def nth_append unat_of_nat_small less_Suc_eq)
qed

text \<open>C37: table versions are an append-only history. In every state the open and the seals
  reach, the current table exists and is the newest, each version number finds the table that
  carries it, and installing a table keeps every earlier version where it was.\<close>

theorem table_versions_history:
  assumes "table_set_reach s"
  shows "set_current s = Some (last (s_versions s)) \<and>
    (\<forall>v t. set_Get s v = Some t \<longrightarrow> t_version t = v \<and> set_Get (InstallNewVersion s u) v = Some t)"
proof -
  note inv = table_set_reach_inv [OF assms]
  have "set_current s = Some (last (s_versions s))"
    using inv by (simp add: set_current_def set_Get_def last_conv_nth)
  moreover have "t_version t = v \<and> set_Get (InstallNewVersion s u) v = Some t"
    if "set_Get s v = Some t" for v t
    using that inv by (auto simp: set_Get_def InstallNewVersion_def nth_append word_unat_eq_iff split: if_splits)
  ultimately show ?thesis by blast
qed

theorem table_versions_history_witness:
  "set_current (InstallNewVersion \<lparr>s_versions = [CreateHash 0 4], s_current_version = 0\<rparr> (CreateHash 1 8)) =
     Some (CreateHash 1 8)"
proof -
  have "table_set_reach \<lparr>s_versions = [CreateHash 0 4], s_current_version = 0\<rparr>"
    by (rule reach_init [of "CreateHash 0 4"])
      (simp_all add: set_Init_def empty_table_set_def CreateHash_def)
  then have "table_set_reach (InstallNewVersion \<lparr>s_versions = [CreateHash 0 4], s_current_version = 0\<rparr> (CreateHash 1 8))"
    by (rule reach_install) (simp_all add: CreateHash_def)
  from conjunct1 [OF table_versions_history [OF this]] show ?thesis
    by (simp add: InstallNewVersion_def)
qed

end
