(* ===== verification/ZfPartitionIndex.thy ===== *)
theory ZfPartitionIndex
  imports ZfSkipList ZfPartitionTable ZfWalFormat "HOL-Library.AList"
begin

text \<open>
  \<^verbatim>\<open>zeroflush/partition_index.h\<close>: the index of one WAL generation of a partition (a skip list of
  entries \<^verbatim>\<open>[varint][internal key][varint][locator]\<close>), the Bloom filter of a partition and the set
  of all indexes, active and frozen, with their operations. Where the code loops over links the
  result carries the option of \<open>ZfSkipList\<close> (\<open>None\<close> would be a loop that does not end). The draws of
  the random generator are an argument of the insertions; the user comparator is a parameter.
\<close>

section \<open>Entries\<close>

definition entry_ik :: "bytes \<Rightarrow> bytes" where
  "entry_ik entry = (case GetLengthPrefixedSlice entry of None \<Rightarrow> [] | Some (ik, _) \<Rightarrow> ik)"

definition entry_loc :: "bytes \<Rightarrow> bytes" where
  "entry_loc entry =
     (case GetLengthPrefixedSlice entry of
        None \<Rightarrow> []
      | Some (_, rest) \<Rightarrow> (case GetLengthPrefixedSlice rest of None \<Rightarrow> [] | Some (loc, _) \<Rightarrow> loc))"

definition ZfKeyComparator :: "(bytes \<Rightarrow> bytes \<Rightarrow> int) \<Rightarrow> bytes \<Rightarrow> bytes \<Rightarrow> int" where
  "ZfKeyComparator ucmp e1 e2 = CompareKeySeq ucmp (entry_ik e1) (entry_ik e2)"

text \<open>\<^verbatim>\<open>[varint ik_size][ik][varint loc_size][loc]\<close>; lengths are cut to 32 bits.\<close>

definition encode_entry :: "bytes \<Rightarrow> bytes \<Rightarrow> bytes" where
  "encode_entry internal_key locator =
     (let ik_len = of_nat (length internal_key) :: u32; loc_len = of_nat (length locator) :: u32
      in EncodeVarint32 ik_len @ take (unat ik_len) internal_key @ EncodeVarint32 loc_len @ take (unat loc_len) locator)"

definition entry_size :: "bytes \<Rightarrow> bytes \<Rightarrow> u64" where
  "entry_size internal_key locator =
     (let ik_len = of_nat (length internal_key) :: u32; loc_len = of_nat (length locator) :: u32
      in of_nat (VarintLength (ucast ik_len) + unat ik_len + VarintLength (ucast loc_len) + unat loc_len))"

section \<open>The index of one generation\<close>

record PartitionIndex =
  pi_part_id :: u32
  pi_gen :: u32
  pi_list :: "bytes SkipList"
  pi_mem_bytes :: u64
  pi_frozen :: bool

definition new_PartitionIndex :: "u32 \<Rightarrow> u32 \<Rightarrow> PartitionIndex" where
  "new_PartitionIndex part_id gen =
     \<lparr> pi_part_id = part_id, pi_gen = gen, pi_list = new_SkipList 12, pi_mem_bytes = 0, pi_frozen = False \<rparr>"

text \<open>\<^verbatim>\<open>kScaledInverseBranching_\<close> for the branching factor 4.\<close>

definition kScaledInverseBranching :: u32 where "kScaledInverseBranching = (2147483647 + 1) div 4"

definition pi_Insert :: "(bytes \<Rightarrow> bytes \<Rightarrow> int) \<Rightarrow> PartitionIndex \<Rightarrow> bytes \<Rightarrow> bytes \<Rightarrow> u32 list \<Rightarrow> (bool \<times> u64 \<times> PartitionIndex) option" where
  "pi_Insert ucmp idx internal_key locator rnd =
     (let l = pi_list idx; height = RandomHeight kScaledInverseBranching (sl_kMaxHeight l) 1 rnd;
          total = entry_size internal_key locator
      in case sl_add (ZfKeyComparator ucmp) l (encode_entry internal_key locator) height of
           None \<Rightarrow> None
         | Some (ok, l) \<Rightarrow>
             if \<not> ok then Some (False, 0, idx \<lparr> pi_list := l \<rparr>)
             else Some (True, total, idx \<lparr> pi_list := l, pi_mem_bytes := pi_mem_bytes idx + total \<rparr>))"

definition SetFrozen :: "PartitionIndex \<Rightarrow> PartitionIndex" where
  "SetFrozen idx = idx \<lparr> pi_frozen := True \<rparr>"

text \<open>The entries in the order of the iterator; \<^verbatim>\<open>ForEachKey\<close> and \<^verbatim>\<open>ForEachEntry\<close> skip entries
  whose prefix does not decode or is 0.\<close>

definition pi_entries :: "PartitionIndex \<Rightarrow> bytes list option" where
  "pi_entries idx =
     map_option (map (node_key (pi_list idx))) (iter_walk (pi_list idx) (iter_SeekToFirst (pi_list idx)))"

definition has_ik :: "bytes \<Rightarrow> bool" where
  "has_ik entry = (case GetVarint32Ptr (take 5 entry) of None \<Rightarrow> False | Some (ik_len, _) \<Rightarrow> ik_len \<noteq> 0)"

definition ForEachKey :: "PartitionIndex \<Rightarrow> bytes list option" where
  "ForEachKey idx = map_option (\<lambda>es. map entry_ik (filter has_ik es)) (pi_entries idx)"

definition ForEachEntry :: "PartitionIndex \<Rightarrow> (bytes \<times> bytes) list option" where
  "ForEachEntry idx = map_option (\<lambda>es. map (\<lambda>e. (entry_ik e, entry_loc e)) (filter has_ik es)) (pi_entries idx)"

text \<open>The seek target \<^verbatim>\<open>(user_key, snapshot)\<close>, length-prefixed.\<close>

definition seek_target :: "bytes \<Rightarrow> u64 \<Rightarrow> bytes" where
  "seek_target user_key snapshot = PutLengthPrefixedSlice (user_key @ PutFixed64 (PackSequenceAndType snapshot kTypeValue))"

definition pi_Get :: "(bytes \<Rightarrow> bytes \<Rightarrow> int) \<Rightarrow> PartitionIndex \<Rightarrow> bytes \<Rightarrow> u64 \<Rightarrow> (bytes \<times> byte \<times> u64) option option" where
  "pi_Get ucmp idx user_key snapshot =
     (case iter_Seek (ZfKeyComparator ucmp) (pi_list idx) (seek_target user_key snapshot) of
        None \<Rightarrow> None
      | Some None \<Rightarrow> Some None
      | Some (Some n) \<Rightarrow>
          let entry = node_key (pi_list idx) n; ik = entry_ik entry
          in if length ik < 8 \<or> Slice_compare user_key (take (length ik - 8) ik) \<noteq> 0 then Some None
             else
              let packed = DecodeFixed64 (drop (length ik - 8) ik); loc = entry_loc entry
              in if length loc \<noteq> 16 then Some None
                 else Some (Some (loc, ucast (packed AND 0xff), drop_bit 8 packed)))"

partial_function (option) collect_loop ::
    "(bytes \<Rightarrow> bytes \<Rightarrow> int) \<Rightarrow> PartitionIndex \<Rightarrow> bytes \<Rightarrow> (bytes \<Rightarrow> bytes zf_result) \<Rightarrow> nat option \<Rightarrow> (bytes \<times> byte) list \<Rightarrow> (bytes \<times> byte) list option" where
  "collect_loop ucmp idx user_key read_value n acc =
     (case n of
        None \<Rightarrow> Some acc
      | Some m \<Rightarrow>
          let entry = node_key (pi_list idx) m; ik = entry_ik entry
          in if length ik < 8 then Some acc
             else if ucmp (take (length ik - 8) ik) user_key \<noteq> 0 then Some acc
             else
              let packed = DecodeFixed64 (drop (length ik - 8) ik)
              in collect_loop ucmp idx user_key read_value (iter_Next (pi_list idx) m)
                   (case read_value (entry_loc entry) of Inl _ \<Rightarrow> acc | Inr val \<Rightarrow> acc @ [(val, ucast (packed AND 0xff))]))"

definition pi_CollectVersions ::
    "(bytes \<Rightarrow> bytes \<Rightarrow> int) \<Rightarrow> PartitionIndex \<Rightarrow> bytes \<Rightarrow> u64 \<Rightarrow> (bytes \<Rightarrow> bytes zf_result) \<Rightarrow> (bytes \<times> byte) list \<Rightarrow> (bytes \<times> byte) list option" where
  "pi_CollectVersions ucmp idx user_key snapshot read_value acc =
     (case iter_Seek (ZfKeyComparator ucmp) (pi_list idx) (seek_target user_key snapshot) of
        None \<Rightarrow> None
      | Some n \<Rightarrow> collect_loop ucmp idx user_key read_value n acc)"

definition pi_GetRangeDelCover ::
    "(bytes \<Rightarrow> bytes \<Rightarrow> int) \<Rightarrow> PartitionIndex \<Rightarrow> bytes \<Rightarrow> u64 \<Rightarrow> (bytes \<Rightarrow> bytes zf_result) \<Rightarrow> bool option" where
  "pi_GetRangeDelCover ucmp idx user_key snapshot read_value =
     (case iter_SeekForPrev (ZfKeyComparator ucmp) (pi_list idx) (seek_target user_key snapshot) of
        None \<Rightarrow> None
      | Some None \<Rightarrow> Some False
      | Some (Some n) \<Rightarrow>
          let entry = node_key (pi_list idx) n; ik = entry_ik entry
          in if length ik < 8 then Some False
             else if ucmp (take (length ik - 8) ik) user_key > 0 then Some False
             else
              let packed = DecodeFixed64 (drop (length ik - 8) ik); t = ucast (packed AND 0xff) :: byte
              in if t \<noteq> kTypeRangeDeletion then Some False
                 else case read_value (entry_loc entry) of
                        Inl _ \<Rightarrow> Some False
                      | Inr end_key \<Rightarrow> Some (ucmp user_key end_key < 0))"

section \<open>The Bloom filter\<close>

text \<open>The vector of 64-bit words as a function of the word index.\<close>

type_synonym PartitionBloom = "nat \<Rightarrow> u64"

definition kNumBits :: u64 where "kNumBits = push_bit 20 8"

definition new_PartitionBloom :: PartitionBloom where "new_PartitionBloom = (\<lambda>_. 0)"

definition bloom_bit :: "bytes \<Rightarrow> u32 \<Rightarrow> nat" where
  "bloom_bit key i =
     (let h1 = Hash key 0x5f10f1; h2 = Hash key 0x5f10f2
      in unat ((ucast h1 + ucast (i * h2) :: u64) mod kNumBits))"

definition bloom_set :: "PartitionBloom \<Rightarrow> nat \<Rightarrow> PartitionBloom" where
  "bloom_set b pos = b(pos div 64 := b (pos div 64) OR push_bit (pos mod 64) 1)"

definition bloom_Add :: "PartitionBloom \<Rightarrow> bytes \<Rightarrow> PartitionBloom" where
  "bloom_Add b key = foldl bloom_set b (map (bloom_bit key) [0, 1, 2, 3])"

definition MayContain :: "PartitionBloom \<Rightarrow> bytes \<Rightarrow> bool" where
  "MayContain b key = list_all (\<lambda>pos. b (pos div 64) AND push_bit (pos mod 64) 1 \<noteq> 0) (map (bloom_bit key) [0, 1, 2, 3])"

section \<open>The set of indexes\<close>

record PartitionIndexSet =
  ix_active :: "(u32 \<times> PartitionIndex) list"
  ix_frozen :: "(u32 \<times> PartitionIndex list) list"
  ix_blooms :: "(u32 \<times> PartitionBloom) list"
  ix_total_mem_bytes :: u64

definition new_PartitionIndexSet :: PartitionIndexSet where
  "new_PartitionIndexSet = \<lparr> ix_active = [], ix_frozen = [], ix_blooms = [], ix_total_mem_bytes = 0 \<rparr>"

definition frozen_of :: "PartitionIndexSet \<Rightarrow> u32 \<Rightarrow> PartitionIndex list" where
  "frozen_of s p = (case map_of (ix_frozen s) p of None \<Rightarrow> [] | Some c \<Rightarrow> c)"

definition active_of :: "PartitionIndexSet \<Rightarrow> u32 \<Rightarrow> PartitionIndex list" where
  "active_of s p = (case map_of (ix_active s) p of None \<Rightarrow> [] | Some idx \<Rightarrow> [idx])"

text \<open>\<^verbatim>\<open>blooms_.emplace\<close> keeps a filter that is there; \<^verbatim>\<open>blooms_[p]\<close> creates one.\<close>

definition emplace_bloom :: "u32 \<Rightarrow> PartitionIndexSet \<Rightarrow> PartitionIndexSet" where
  "emplace_bloom p s =
     (if map_of (ix_blooms s) p = None then s \<lparr> ix_blooms := AList.update p new_PartitionBloom (ix_blooms s) \<rparr> else s)"

definition bloom_of :: "PartitionIndexSet \<Rightarrow> u32 \<Rightarrow> PartitionBloom" where
  "bloom_of s p = (case map_of (ix_blooms s) p of None \<Rightarrow> new_PartitionBloom | Some b \<Rightarrow> b)"

definition set_active :: "u32 \<Rightarrow> PartitionIndex \<Rightarrow> PartitionIndexSet \<Rightarrow> PartitionIndexSet" where
  "set_active p idx s = s \<lparr> ix_active := AList.update p idx (ix_active s) \<rparr>"

definition set_frozen :: "u32 \<Rightarrow> PartitionIndex list \<Rightarrow> PartitionIndexSet \<Rightarrow> PartitionIndexSet" where
  "set_frozen p c s = s \<lparr> ix_frozen := AList.update p c (ix_frozen s) \<rparr>"

definition Active :: "PartitionIndexSet \<Rightarrow> u32 \<Rightarrow> PartitionIndex \<times> PartitionIndexSet" where
  "Active s p =
     (case map_of (ix_active s) p of
        Some idx \<Rightarrow> (idx, s)
      | None \<Rightarrow> (new_PartitionIndex p 0, emplace_bloom p (set_active p (new_PartitionIndex p 0) s)))"

text \<open>Where an insertion of generation \<open>gen\<close> goes: the active index, or the last frozen one of that
  generation (by position), or nowhere.\<close>

definition find_gen :: "PartitionIndex list \<Rightarrow> u32 \<Rightarrow> nat option" where
  "find_gen indexes gen = find (\<lambda>i. pi_gen (indexes ! i) = gen) (rev [0..<length indexes])"

definition finish_insert ::
    "(bytes \<Rightarrow> bytes \<Rightarrow> int) \<Rightarrow> PartitionIndexSet \<Rightarrow> u32 \<Rightarrow> bytes \<Rightarrow> bytes \<Rightarrow> u32 list \<Rightarrow>
     PartitionIndex \<Rightarrow> (PartitionIndex \<Rightarrow> PartitionIndexSet \<Rightarrow> PartitionIndexSet) \<Rightarrow> (u64 \<times> PartitionIndexSet) option" where
  "finish_insert ucmp s p internal_key locator rnd idx put_back =
     (case pi_Insert ucmp idx internal_key locator rnd of
        None \<Rightarrow> None
      | Some (ok, added, idx) \<Rightarrow>
          let s = put_back idx s
          in if \<not> ok then Some (0, s)
             else Some (added, s \<lparr> ix_blooms := AList.update p (bloom_Add (bloom_of s p) (ExtractUserKey internal_key)) (ix_blooms s),
                                   ix_total_mem_bytes := ix_total_mem_bytes s + added \<rparr>))"

definition ix_Insert ::
    "(bytes \<Rightarrow> bytes \<Rightarrow> int) \<Rightarrow> PartitionIndexSet \<Rightarrow> u32 \<Rightarrow> u32 \<Rightarrow> bytes \<Rightarrow> bytes \<Rightarrow> u32 list \<Rightarrow> (u64 \<times> PartitionIndexSet) option" where
  "ix_Insert ucmp s p gen internal_key locator rnd =
     (case map_of (ix_active s) p of
        Some idx \<Rightarrow>
          if pi_gen idx = gen then finish_insert ucmp s p internal_key locator rnd idx (set_active p)
          else (case find_gen (frozen_of s p) gen of
                  Some i \<Rightarrow> finish_insert ucmp s p internal_key locator rnd (frozen_of s p ! i)
                              (\<lambda>idx s. set_frozen p ((frozen_of s p)[i := idx]) s)
                | None \<Rightarrow> Some (0, s))
      | None \<Rightarrow>
          let ni = new_PartitionIndex p gen
          in finish_insert ucmp (emplace_bloom p (set_active p ni s)) p internal_key locator rnd ni (set_active p))"

definition ix_Freeze :: "PartitionIndexSet \<Rightarrow> u32 \<Rightarrow> u32 \<Rightarrow> PartitionIndexSet" where
  "ix_Freeze s p new_gen =
     (case map_of (ix_active s) p of
        None \<Rightarrow> set_active p (new_PartitionIndex p new_gen) s
      | Some old \<Rightarrow>
          let s = set_active p (new_PartitionIndex p new_gen) s
          in if pi_mem_bytes old > 0 then set_frozen p (frozen_of s p @ [SetFrozen old]) s else s)"

definition RebuildBloom :: "PartitionIndexSet \<Rightarrow> u32 \<Rightarrow> PartitionIndexSet option" where
  "RebuildBloom s p =
     Option.bind (those (map ForEachKey (active_of s p @ frozen_of s p)))
       (\<lambda>kss. Some (s \<lparr> ix_blooms := AList.update p
          (foldl (\<lambda>b ik. bloom_Add b (ExtractUserKey ik)) new_PartitionBloom (concat kss)) (ix_blooms s) \<rparr>))"

definition ReleaseFrozen :: "PartitionIndexSet \<Rightarrow> u32 \<Rightarrow> u32 \<Rightarrow> PartitionIndexSet option" where
  "ReleaseFrozen s p gen =
     (let chain = frozen_of s p; gone = filter (\<lambda>idx. pi_gen idx = gen) chain
      in if gone = [] then Some s
         else RebuildBloom ((set_frozen p (filter (\<lambda>idx. pi_gen idx \<noteq> gen) chain) s)
                \<lparr> ix_total_mem_bytes := foldl (\<lambda>t idx. t - pi_mem_bytes idx) (ix_total_mem_bytes s) gone \<rparr>) p)"

definition EnsureActive :: "PartitionIndexSet \<Rightarrow> u32 \<Rightarrow> u32 \<Rightarrow> PartitionIndexSet" where
  "EnsureActive s p gen =
     (case map_of (ix_active s) p of
        Some idx \<Rightarrow> if pi_gen idx \<noteq> gen then set_active p (new_PartitionIndex p gen) s else s
      | None \<Rightarrow> emplace_bloom p (set_active p (new_PartitionIndex p gen) s))"

definition InsertCreate ::
    "(bytes \<Rightarrow> bytes \<Rightarrow> int) \<Rightarrow> PartitionIndexSet \<Rightarrow> u32 \<Rightarrow> u32 \<Rightarrow> bytes \<Rightarrow> bytes \<Rightarrow> u32 list \<Rightarrow> (u64 \<times> PartitionIndexSet) option" where
  "InsertCreate ucmp s p gen internal_key locator rnd =
     (case map_of (ix_active s) p of
        Some idx \<Rightarrow>
          if pi_gen idx = gen then finish_insert ucmp s p internal_key locator rnd idx (set_active p)
          else (case find_gen (frozen_of s p) gen of
                  Some i \<Rightarrow> finish_insert ucmp s p internal_key locator rnd (frozen_of s p ! i)
                              (\<lambda>idx s. set_frozen p ((frozen_of s p)[i := idx]) s)
                | None \<Rightarrow>
                    let ni = SetFrozen (new_PartitionIndex p gen); chain = frozen_of s p
                    in finish_insert ucmp s p internal_key locator rnd ni (\<lambda>idx s. set_frozen p (chain @ [idx]) s))
      | None \<Rightarrow>
          let ni = new_PartitionIndex p gen
          in finish_insert ucmp (emplace_bloom p (set_active p ni s)) p internal_key locator rnd ni (set_active p))"

text \<open>The first hit along a chain, newest index first.\<close>

primrec first_hit :: "('a \<Rightarrow> 'b option option) \<Rightarrow> 'a list \<Rightarrow> 'b option option" where
  "first_hit f [] = Some None"
| "first_hit f (x # xs) = (case f x of None \<Rightarrow> None | Some (Some y) \<Rightarrow> Some (Some y) | Some None \<Rightarrow> first_hit f xs)"

definition ix_GetRangeDelCover ::
    "(bytes \<Rightarrow> bytes \<Rightarrow> int) \<Rightarrow> PartitionIndexSet \<Rightarrow> u32 \<Rightarrow> bytes \<Rightarrow> u64 \<Rightarrow> (bytes \<Rightarrow> bytes zf_result) \<Rightarrow> bool option" where
  "ix_GetRangeDelCover ucmp s p user_key snapshot read_value =
     map_option (\<lambda>r. r \<noteq> None)
       (first_hit (\<lambda>idx. map_option (\<lambda>c. if c then Some () else None) (pi_GetRangeDelCover ucmp idx user_key snapshot read_value))
         (rev (frozen_of s p @ active_of s p)))"

primrec collect_chain :: "('a \<Rightarrow> 'b \<Rightarrow> 'b option) \<Rightarrow> 'a list \<Rightarrow> 'b \<Rightarrow> 'b option" where
  "collect_chain f [] acc = Some acc"
| "collect_chain f (x # xs) acc = Option.bind (f x acc) (collect_chain f xs)"

definition ix_CollectVersions ::
    "(bytes \<Rightarrow> bytes \<Rightarrow> int) \<Rightarrow> PartitionIndexSet \<Rightarrow> u32 \<Rightarrow> bytes \<Rightarrow> u64 \<Rightarrow> (bytes \<Rightarrow> bytes zf_result) \<Rightarrow> (bytes \<times> byte) list option" where
  "ix_CollectVersions ucmp s p user_key snapshot read_value =
     collect_chain (\<lambda>idx. pi_CollectVersions ucmp idx user_key snapshot read_value) (active_of s p @ rev (frozen_of s p)) []"

definition ix_Get ::
    "(bytes \<Rightarrow> bytes \<Rightarrow> int) \<Rightarrow> PartitionIndexSet \<Rightarrow> u32 \<Rightarrow> bytes \<Rightarrow> u64 \<Rightarrow> (bytes \<times> byte \<times> u64) option option" where
  "ix_Get ucmp s p user_key snapshot =
     (case map_of (ix_blooms s) p of
        None \<Rightarrow> Some None
      | Some b \<Rightarrow>
          if \<not> MayContain b user_key then Some None
          else first_hit (\<lambda>idx. pi_Get ucmp idx user_key snapshot) (rev (frozen_of s p @ active_of s p)))"

definition GetFrozen :: "PartitionIndexSet \<Rightarrow> u32 \<Rightarrow> u32 \<Rightarrow> PartitionIndex option" where
  "GetFrozen s p gen = find (\<lambda>idx. pi_gen idx = gen) (frozen_of s p)"

definition ForEachFrozen :: "PartitionIndexSet \<Rightarrow> u32 \<Rightarrow> PartitionIndex list" where
  "ForEachFrozen s p = frozen_of s p"

text \<open>The indexes \<^verbatim>\<open>AddIterators\<close> puts into the merging iterator, and the iterator over one of them;
  a value that cannot be read is empty.\<close>

definition AddIterators :: "PartitionIndexSet \<Rightarrow> PartitionIndex list" where
  "AddIterators s = concat (map snd (ix_frozen s)) @ map snd (ix_active s)"

definition piter_Seek :: "(bytes \<Rightarrow> bytes \<Rightarrow> int) \<Rightarrow> PartitionIndex \<Rightarrow> bytes \<Rightarrow> nat option option" where
  "piter_Seek ucmp idx target = iter_Seek (ZfKeyComparator ucmp) (pi_list idx) (PutLengthPrefixedSlice target)"

definition piter_SeekForPrev :: "(bytes \<Rightarrow> bytes \<Rightarrow> int) \<Rightarrow> PartitionIndex \<Rightarrow> bytes \<Rightarrow> nat option option" where
  "piter_SeekForPrev ucmp idx target = iter_SeekForPrev (ZfKeyComparator ucmp) (pi_list idx) (PutLengthPrefixedSlice target)"

definition piter_key :: "PartitionIndex \<Rightarrow> nat \<Rightarrow> bytes" where
  "piter_key idx n = entry_ik (node_key (pi_list idx) n)"

definition piter_value :: "PartitionIndex \<Rightarrow> (bytes \<Rightarrow> bytes zf_result) \<Rightarrow> nat \<Rightarrow> bytes" where
  "piter_value idx read_value n =
     (case read_value (entry_loc (node_key (pi_list idx) n)) of Inl _ \<Rightarrow> [] | Inr v \<Rightarrow> v)"

section \<open>The order of entries\<close>

lemma lex_comparator:
  fixes f :: "'b \<Rightarrow> u64"
  assumes "user_comparator cmp"
  shows "user_comparator (\<lambda>a b. let r = cmp (u a) (u b) in if r = 0 then (if f a > f b then -1 else if f a < f b then 1 else r) else r)"
proof -
  note swap = user_comparator.cmp_swap [OF assms] and trans = user_comparator.cmp_trans [OF assms]
    and sym = user_comparator.cmp_eq_sym [OF assms] and le = user_comparator.cmp_le_iff [OF assms]
  show ?thesis (is "user_comparator ?c")
  proof
    show "?c a b < 0 \<longleftrightarrow> 0 < ?c b a" for a b
      using swap [of "u a" "u b"] swap [of "u b" "u a"] by (auto simp: Let_def)
    show "?c a c \<le> 0" if ab: "?c a b \<le> 0" and bc: "?c b c \<le> 0" for a b c
    proof -
      have l: "cmp (u a) (u b) \<le> 0" "cmp (u b) (u c) \<le> 0" using ab bc by (auto simp: Let_def split: if_splits)
      show ?thesis
      proof (cases "cmp (u a) (u c) = 0")
        case True
        then have "cmp (u c) (u a) \<le> 0" using sym [of "u a" "u c"] by simp
        then have "cmp (u b) (u a) \<le> 0" "cmp (u c) (u b) \<le> 0" using trans [OF l(2)] trans [OF _ l(1)] by auto
        then have "cmp (u a) (u b) = 0" "cmp (u b) (u c) = 0" using l le by force+
        then have "f c \<le> f a" using ab bc by (auto simp: Let_def split: if_splits)
        then show ?thesis using True by (auto simp: Let_def)
      next
        case False
        then show ?thesis using trans [OF l] by (simp add: Let_def)
      qed
    qed
  qed
qed

lemma ZfKeyComparator_lex: "ZfKeyComparator ucmp = (\<lambda>a b. let r = ucmp (ExtractUserKey (entry_ik a)) (ExtractUserKey (entry_ik b)) in
    if r = 0 then (if GetInternalKeySeqno (entry_ik a) > GetInternalKeySeqno (entry_ik b) then -1
                   else if GetInternalKeySeqno (entry_ik a) < GetInternalKeySeqno (entry_ik b) then 1 else r) else r)"
  by (simp add: fun_eq_iff ZfKeyComparator_def CompareKeySeq_def GetInternalKeySeqno_def Let_def)

lemma ZfKeyComparator_comparator: "user_comparator ucmp \<Longrightarrow> user_comparator (ZfKeyComparator ucmp)"
  unfolding ZfKeyComparator_lex by (rule lex_comparator)

interpretation zfkey: user_comparator "ZfKeyComparator Slice_compare"
  by (rule ZfKeyComparator_comparator) (rule bytewise.user_comparator_axioms)

section \<open>Decoding entries\<close>

lemma encode_entry_alt:
  assumes "length ik < 2 ^ 32" "length loc < 2 ^ 32"
  shows "encode_entry ik loc = PutLengthPrefixedSlice ik @ PutLengthPrefixedSlice loc"
  using assms by (simp add: encode_entry_def PutLengthPrefixedSlice_def unat_of_nat_small Let_def)

lemma entry_parts:
  assumes "length ik < 2 ^ 32" "length loc < 2 ^ 32"
  shows "entry_ik (encode_entry ik loc) = ik" "entry_loc (encode_entry ik loc) = loc"
  using GetLengthPrefixedSlice_Put [OF assms(1)] GetLengthPrefixedSlice_Put [OF assms(2), of "[]"]
  by (simp_all add: entry_ik_def entry_loc_def encode_entry_alt [OF assms])

lemma has_ik_entry:
  assumes "length ik < 2 ^ 32" "length loc < 2 ^ 32" "ik \<noteq> []"
  shows "has_ik (encode_entry ik loc)"
proof -
  let ?e = "EncodeVarint32 (of_nat (length ik))" and ?r = "ik @ PutLengthPrefixedSlice loc"
  have "take 5 (?e @ ?r) = ?e @ take (5 - length ?e) ?r" using length_EncodeVarint32(1) [of "of_nat (length ik)"] by simp
  then have "GetVarint32Ptr (take 5 (?e @ ?r)) = Some (of_nat (length ik), take (5 - length ?e) ?r)"
    using GetVarint32_EncodeVarint32 by metis
  moreover have "unat (of_nat (length ik) :: u32) = length ik" using assms(1) by (intro unat_of_nat_small) simp
  then have "unat (of_nat (length ik) :: u32) \<noteq> 0" using assms(3) by simp
  then have "(of_nat (length ik) :: u32) \<noteq> 0" by (intro notI) simp
  ultimately show ?thesis
    by (simp add: has_ik_def encode_entry_alt [OF assms(1,2)] PutLengthPrefixedSlice_def)
qed

text \<open>What an entry is the index entry of.\<close>

record IndexEntry =
  r_part :: u32
  r_igen :: u32
  r_key :: bytes
  r_seq :: u64
  r_type :: byte
  r_loc :: bytes

definition entry_ok :: "IndexEntry \<Rightarrow> bool" where
  "entry_ok r \<longleftrightarrow> length (r_key r) + 8 < 2 ^ 32 \<and> length (r_loc r) = 16 \<and> r_seq r \<le> kMaxSequenceNumber"

definition enc :: "IndexEntry \<Rightarrow> bytes" where
  "enc r = encode_entry (MakeInternalKey (r_key r) (r_seq r) (r_type r)) (r_loc r)"

lemma length_MakeInternalKey [simp]: "length (MakeInternalKey k s t) = length k + 8"
  by (simp add: MakeInternalKey_def PutFixed64_def)

lemma MakeInternalKey_not_Nil [simp]: "MakeInternalKey k s t \<noteq> []"
  using length_MakeInternalKey [of k s t] by (metis add_is_0 list.size(3) zero_neq_numeral)

lemma enc_parts:
  assumes "entry_ok r"
  shows "entry_ik (enc r) = MakeInternalKey (r_key r) (r_seq r) (r_type r)" "entry_loc (enc r) = r_loc r" "has_ik (enc r)"
  using assms entry_parts [of "MakeInternalKey (r_key r) (r_seq r) (r_type r)" "r_loc r"]
    has_ik_entry [of "MakeInternalKey (r_key r) (r_seq r) (r_type r)" "r_loc r"]
  by (auto simp: enc_def entry_ok_def)

definition key_seq_cmp :: "bytes \<Rightarrow> u64 \<Rightarrow> bytes \<Rightarrow> u64 \<Rightarrow> int" where
  "key_seq_cmp k s k' s' = (if k = k' then (if s > s' then -1 else if s < s' then 1 else 0) else Slice_compare k k')"

lemma cmp_enc:
  assumes "entry_ok r" "entry_ok r'"
  shows "ZfKeyComparator Slice_compare (enc r) (enc r') = key_seq_cmp (r_key r) (r_seq r) (r_key r') (r_seq r')"
  using assms enc_parts(1) [OF assms(1)] enc_parts(1) [OF assms(2)]
  by (auto simp: ZfKeyComparator_lex key_seq_cmp_def entry_ok_def Let_def)

lemma cmp_target:
  assumes "entry_ok r" "length uk + 8 < 2 ^ 32" "snap \<le> kMaxSequenceNumber"
  shows "ZfKeyComparator Slice_compare (enc r) (seek_target uk snap) = key_seq_cmp (r_key r) (r_seq r) uk snap"
proof -
  have "entry_ik (seek_target uk snap) = MakeInternalKey uk snap kTypeValue"
    using assms(2) GetLengthPrefixedSlice_Put [of "MakeInternalKey uk snap kTypeValue" "[]"]
    by (simp add: entry_ik_def seek_target_def flip: MakeInternalKey_def)
  then show ?thesis
    using assms enc_parts(1) [OF assms(1)] by (auto simp: ZfKeyComparator_lex key_seq_cmp_def entry_ok_def Let_def)
qed

section \<open>One index\<close>

definition entry_bytes :: "bytes \<Rightarrow> nat" where
  "entry_bytes e = unat (entry_size (entry_ik e) (entry_loc e))"

lemma VarintLength_pos: "0 < VarintLength v"
  by (subst VarintLength.simps) simp

lemma VarintLength_small: "unat v < 2 ^ 32 \<Longrightarrow> VarintLength v \<le> 10"
proof -
  have "unat v < 128 ^ n \<Longrightarrow> 0 < n \<Longrightarrow> VarintLength v \<le> n" for n
  proof (induction n arbitrary: v)
    case (Suc n)
    show ?case
    proof (cases "128 \<le> v")
      case True
      have d: "unat (drop_bit 7 v) = unat v div 128" by (simp only: unat_drop_bit_eq drop_bit_nat_def) simp
      have "128 \<le> unat v" using True by (simp add: word_le_nat_alt)
      then have "n \<noteq> 0" using Suc.prems(1) by (cases n) auto
      moreover have "unat (drop_bit 7 v) < 128 ^ n" using Suc.prems(1) unfolding d by (simp add: less_mult_imp_div_less mult.commute)
      ultimately show ?thesis using Suc.IH [of "drop_bit 7 v"] True by (subst VarintLength.simps) simp
    next
      case False
      then show ?thesis by (subst VarintLength.simps) simp
    qed
  qed simp
  from this [of 10] show "unat v < 2 ^ 32 \<Longrightarrow> VarintLength v \<le> 10" by simp
qed

lemma entry_size_pos: "0 < unat (entry_size ik loc)"
proof -
  let ?i = "of_nat (length ik) :: u32" and ?l = "of_nat (length loc) :: u32"
  let ?n = "VarintLength (ucast ?i) + unat ?i + VarintLength (ucast ?l) + unat ?l"
  have u: "unat (ucast ?i :: u64) < 2 ^ 32" "unat (ucast ?l :: u64) < 2 ^ 32"
    using unat_u32_less [of ?i] unat_u32_less [of ?l] by (simp_all add: unsigned_ucast_eq take_bit_nat_eq_self)
  have "?n < 2 ^ 64" using VarintLength_small [OF u(1)] VarintLength_small [OF u(2)] unat_u32_less [of ?i] unat_u32_less [of ?l] by simp
  then have "unat (of_nat ?n :: u64) = ?n" by (intro unat_of_nat_small) simp
  then show ?thesis using VarintLength_pos [of "ucast ?i"] by (simp add: entry_size_def Let_def)
qed

definition idx_inv :: "PartitionIndex \<Rightarrow> IndexEntry set \<Rightarrow> bool" where
  "idx_inv idx R \<longleftrightarrow>
     sl_inv (ZfKeyComparator Slice_compare) (pi_list idx) \<and> sl_kMaxHeight (pi_list idx) = 12 \<and>
     set (sl_elems (pi_list idx)) = enc ` R \<and> (\<forall>r \<in> R. entry_ok r) \<and>
     unat (pi_mem_bytes idx) = sum_list (map entry_bytes (sl_elems (pi_list idx)))"

lemma idx_invD:
  assumes "idx_inv idx R"
  shows "sl_inv (ZfKeyComparator Slice_compare) (pi_list idx)" "sl_kMaxHeight (pi_list idx) = 12"
    "set (sl_elems (pi_list idx)) = enc ` R" "r \<in> R \<Longrightarrow> entry_ok r"
    "unat (pi_mem_bytes idx) = sum_list (map entry_bytes (sl_elems (pi_list idx)))"
  using assms by (auto simp: idx_inv_def)

lemma new_idx_inv: "idx_inv (new_PartitionIndex p g) {}"
proof -
  have rep: "sl_rep (ZfKeyComparator Slice_compare) (new_SkipList 12) []"
    by (rule zfkey.new_SkipList_rep) (simp_all add: kMaxPossibleHeight_def)
  then show ?thesis
    using zfkey.rep_elems [OF rep] by (auto simp: idx_inv_def new_PartitionIndex_def sl_inv_def new_SkipList_def)
qed

lemma mem_zero_iff: "idx_inv idx R \<Longrightarrow> pi_mem_bytes idx = 0 \<longleftrightarrow> R = {}"
proof -
  assume inv: "idx_inv idx R"
  have "pi_mem_bytes idx = 0 \<longleftrightarrow> unat (pi_mem_bytes idx) = 0" by (simp add: unsigned_eq_0_iff)
  also have "\<dots> \<longleftrightarrow> sl_elems (pi_list idx) = []"
    unfolding idx_invD(5) [OF inv] using entry_size_pos by (cases "sl_elems (pi_list idx)") (auto simp: entry_bytes_def)
  also have "\<dots> \<longleftrightarrow> R = {}" using idx_invD(3) [OF inv] by (metis image_is_empty set_empty)
  finally show ?thesis .
qed

lemma RandomHeight_bounds: "1 \<le> h \<Longrightarrow> h \<le> kmax \<Longrightarrow> 1 \<le> RandomHeight sc kmax h rnd \<and> RandomHeight sc kmax h rnd \<le> kmax"
  by (induction sc kmax h rnd rule: RandomHeight.induct) auto

lemma sum_list_while: "sum_list (map f (takeWhile P xs)) + sum_list (map f (dropWhile P xs)) = (sum_list (map f xs) :: nat)"
  by (induction xs) auto

lemma pi_Insert_spec:
  assumes inv: "idx_inv idx R" and ok: "entry_ok r" and new: "\<forall>r' \<in> R. r_key r' = r_key r \<longrightarrow> r_seq r' \<noteq> r_seq r"
    and room: "unat (pi_mem_bytes idx) + entry_bytes (enc r) < 2 ^ 64"
  shows "\<exists>idx'. pi_Insert Slice_compare idx (MakeInternalKey (r_key r) (r_seq r) (r_type r)) (r_loc r) rnd =
      Some (True, entry_size (MakeInternalKey (r_key r) (r_seq r) (r_type r)) (r_loc r), idx') \<and>
    idx_inv idx' (insert r R) \<and> pi_gen idx' = pi_gen idx"
proof -
  let ?cmp = "ZfKeyComparator Slice_compare" and ?l = "pi_list idx"
  let ?h = "RandomHeight kScaledInverseBranching (sl_kMaxHeight ?l) 1 rnd"
  have h: "1 \<le> ?h" "?h \<le> sl_kMaxHeight ?l"
    using RandomHeight_bounds [of 1 "sl_kMaxHeight ?l" kScaledInverseBranching rnd] idx_invD(2) [OF inv] by simp_all
  have nodup: "\<forall>x \<in> set (sl_elems ?l). ?cmp x (enc r) \<noteq> 0"
    using idx_invD(3,4) [OF inv] ok new by (auto simp: cmp_enc key_seq_cmp_def)
  obtain l' where l': "sl_add ?cmp ?l (enc r) ?h = Some (True, l')" "sl_inv ?cmp l'" "sl_kMaxHeight l' = sl_kMaxHeight ?l"
    "sl_elems l' = takeWhile (\<lambda>x. ?cmp x (enc r) < 0) (sl_elems ?l) @ enc r # dropWhile (\<lambda>x. ?cmp x (enc r) < 0) (sl_elems ?l)"
    using zfkey.sl_add_total [OF idx_invD(1) [OF inv] h, of "enc r"] unfolding eqTrueI [OF nodup] if_True by blast
  have set': "set (sl_elems l') = insert (enc r) (enc ` R)"
    unfolding l'(4) zfkey.sl.add_elems_set idx_invD(3) [OF inv] ..
  have "sum_list (map entry_bytes (sl_elems l')) = entry_bytes (enc r) + sum_list (map entry_bytes (sl_elems ?l))"
    using sum_list_while [of entry_bytes "\<lambda>x. ?cmp x (enc r) < 0" "sl_elems ?l"] by (simp add: l'(4))
  moreover have sz: "entry_bytes (enc r) = unat (entry_size (MakeInternalKey (r_key r) (r_seq r) (r_type r)) (r_loc r))"
    using enc_parts [OF ok] by (simp add: entry_bytes_def)
  ultimately have mem: "unat (pi_mem_bytes idx + entry_size (MakeInternalKey (r_key r) (r_seq r) (r_type r)) (r_loc r)) =
      sum_list (map entry_bytes (sl_elems l'))"
    using room idx_invD(5) [OF inv] by (subst unat_add_no_overflow) simp_all
  let ?idx = "idx\<lparr>pi_list := l', pi_mem_bytes := pi_mem_bytes idx + entry_size (MakeInternalKey (r_key r) (r_seq r) (r_type r)) (r_loc r)\<rparr>"
  have "idx_inv ?idx (insert r R)"
    using l'(2,3) set' mem idx_invD(2,4) [OF inv] ok unfolding idx_inv_def by simp
  then show ?thesis using l'(1) by (intro exI [of _ ?idx]) (simp add: pi_Insert_def Let_def enc_def)
qed

lemma pi_Get_seek:
  "pi_Get ucmp idx uk snap =
     (case sl_seek (ZfKeyComparator ucmp) (pi_list idx) (seek_target uk snap) of
        None \<Rightarrow> None
      | Some None \<Rightarrow> Some None
      | Some (Some entry) \<Rightarrow>
          if length (entry_ik entry) < 8 \<or> Slice_compare uk (ExtractUserKey (entry_ik entry)) \<noteq> 0 then Some None
          else if length (entry_loc entry) \<noteq> 16 then Some None
          else Some (Some (entry_loc entry, ExtractValueType (entry_ik entry), GetInternalKeySeqno (entry_ik entry))))"
  by (auto simp: pi_Get_def sl_seek_def ExtractUserKey_def ExtractValueType_def GetInternalKeySeqno_def
      ExtractInternalKeyFooter_def Let_def split: option.splits)

text \<open>An entry the target does not pass is the entry of a later key or of the key at or below the
  snapshot.\<close>

lemma target_le:
  assumes "entry_ok r" "length uk + 8 < 2 ^ 32" "snap \<le> kMaxSequenceNumber"
  shows "ZfKeyComparator Slice_compare (enc r) (seek_target uk snap) \<ge> 0 \<longleftrightarrow>
    (r_key r = uk \<and> r_seq r \<le> snap) \<or> (r_key r \<noteq> uk \<and> Slice_compare (r_key r) uk > 0)"
proof (cases "r_key r = uk")
  case True
  then show ?thesis using assms by (auto simp: cmp_target key_seq_cmp_def not_less)
next
  case False
  then have "Slice_compare (r_key r) uk \<noteq> 0" by simp
  then show ?thesis using False assms by (auto simp: cmp_target key_seq_cmp_def order_le_less)
qed

lemma strict_sorted_unique:
  assumes "sorted_wrt (\<lambda>a b. ZfKeyComparator Slice_compare a b < 0) es" "x \<in> set es" "y \<in> set es"
    "ZfKeyComparator Slice_compare x y = 0"
  shows "x = y"
proof -
  obtain i j where ij: "i < length es" "x = es ! i" "j < length es" "y = es ! j" using assms(2,3) by (metis in_set_conv_nth)
  have "i = j"
  proof (rule ccontr)
    assume "i \<noteq> j"
    then consider "i < j" | "j < i" by linarith
    then show False
    proof cases
      case 1
      then have "ZfKeyComparator Slice_compare x y < 0" using assms(1) ij by (simp add: sorted_wrt_iff_nth_less)
      then show False using assms(4) by simp
    next
      case 2
      then have "ZfKeyComparator Slice_compare y x < 0" using assms(1) ij by (simp add: sorted_wrt_iff_nth_less)
      then show False using assms(4) zfkey.cmp_swap [of y x] by simp
    qed
  qed
  then show ?thesis using ij by simp
qed

lemma pi_Get_spec:
  assumes inv: "idx_inv idx R" and uk: "length uk + 8 < 2 ^ 32" and snap: "snap \<le> kMaxSequenceNumber"
  shows "r0 \<in> R \<Longrightarrow> r_key r0 = uk \<Longrightarrow> r_seq r0 \<le> snap \<Longrightarrow> \<forall>r \<in> R. r_key r = uk \<and> r_seq r \<le> snap \<longrightarrow> r_seq r \<le> r_seq r0 \<Longrightarrow>
      pi_Get Slice_compare idx uk snap = Some (Some (r_loc r0, r_type r0, r_seq r0))"
    and "\<forall>r \<in> R. \<not> (r_key r = uk \<and> r_seq r \<le> snap) \<Longrightarrow> pi_Get Slice_compare idx uk snap = Some None"
proof -
  let ?cmp = "ZfKeyComparator Slice_compare" and ?es = "sl_elems (pi_list idx)" and ?t = "seek_target uk snap"
  have elems: "set ?es = enc ` R" and oks: "\<And>r. r \<in> R \<Longrightarrow> entry_ok r" using idx_invD [OF inv] by auto
  have total: "sl_seek ?cmp (pi_list idx) ?t = Some (find (\<lambda>x. ?cmp x ?t \<ge> 0) ?es)" by (rule zfkey.sl_seek_total [OF idx_invD(1) [OF inv]])
  show "pi_Get Slice_compare idx uk snap = Some (Some (r_loc r0, r_type r0, r_seq r0))"
    if r0: "r0 \<in> R" "r_key r0 = uk" "r_seq r0 \<le> snap" and max: "\<forall>r \<in> R. r_key r = uk \<and> r_seq r \<le> snap \<longrightarrow> r_seq r \<le> r_seq r0"
  proof -
    have ge0: "?cmp (enc r0) ?t \<ge> 0" using target_le [OF oks [OF r0(1)] uk snap] r0 by simp
    then obtain x where x: "find (\<lambda>x. ?cmp x ?t \<ge> 0) ?es = Some x"
      using elems r0(1) by (cases "find (\<lambda>x. ?cmp x ?t \<ge> 0) ?es") (auto simp: find_None_iff)
    then have least: "x \<in> set ?es \<and> ?cmp x ?t \<ge> 0 \<and> (\<forall>y \<in> set ?es. ?cmp y ?t \<ge> 0 \<longrightarrow> ?cmp x y \<le> 0)"
      using zfkey.sl.seek_Some [OF idx_invD(1) [OF inv], of ?t x] total by simp
    then obtain r1 where r1: "r1 \<in> R" "x = enc r1" using elems by auto
    have le: "?cmp (enc r1) (enc r0) \<le> 0" using least r1 ge0 elems r0(1) by blast
    have key: "r_key r1 = uk"
    proof (rule ccontr)
      assume ne: "r_key r1 \<noteq> uk"
      then have "Slice_compare (r_key r1) uk > 0" using least r1 target_le [OF oks [OF r1(1)] uk snap] by auto
      moreover have "Slice_compare (r_key r1) uk \<le> 0"
        using le ne r0(2) by (simp add: cmp_enc [OF oks [OF r1(1)] oks [OF r0(1)]] key_seq_cmp_def)
      ultimately show False by simp
    qed
    have "r_seq r1 \<le> snap" using least r1 key target_le [OF oks [OF r1(1)] uk snap] by auto
    then have "r_seq r1 \<le> r_seq r0" using max r1(1) key by blast
    moreover have "r_seq r0 \<le> r_seq r1"
      using le key r0(2) by (auto simp: cmp_enc [OF oks [OF r1(1)] oks [OF r0(1)]] key_seq_cmp_def split: if_splits)
    ultimately have "?cmp (enc r1) (enc r0) = 0"
      using key r0(2) by (simp add: cmp_enc [OF oks [OF r1(1)] oks [OF r0(1)]] key_seq_cmp_def)
    then have eq: "enc r1 = enc r0"
      using strict_sorted_unique [OF zfkey.sl_elems_sorted [OF idx_invD(1) [OF inv]], of "enc r1" "enc r0"] elems r1 r0(1) by auto
    have "length (r_loc r0) = 16" "r_seq r0 \<le> kMaxSequenceNumber" using oks [OF r0(1)] by (simp_all add: entry_ok_def)
    then show ?thesis
      using total x r1(2) eq enc_parts [OF oks [OF r0(1)]] r0(2) by (simp add: pi_Get_seek)
  qed
  show "pi_Get Slice_compare idx uk snap = Some None" if none: "\<forall>r \<in> R. \<not> (r_key r = uk \<and> r_seq r \<le> snap)"
  proof (cases "find (\<lambda>x. ?cmp x ?t \<ge> 0) ?es")
    case None
    then show ?thesis using total by (simp add: pi_Get_seek)
  next
    case (Some x)
    then have "x \<in> set ?es" "?cmp x ?t \<ge> 0" by (auto simp: find_Some_iff)
    then obtain r1 where r1: "r1 \<in> R" "x = enc r1" "?cmp (enc r1) ?t \<ge> 0" using elems by auto
    then have "r_key r1 \<noteq> uk" using none target_le [OF oks [OF r1(1)] uk snap] by auto
    then have "Slice_compare uk (r_key r1) \<noteq> 0" by simp
    then show ?thesis using Some total r1(2) enc_parts [OF oks [OF r1(1)]] by (simp add: pi_Get_seek)
  qed
qed

section \<open>The Bloom filter has no false negatives\<close>

definition bloom_has :: "PartitionBloom \<Rightarrow> nat \<Rightarrow> bool" where
  "bloom_has b pos \<longleftrightarrow> bit (b (pos div 64)) (pos mod 64)"

lemma MayContain_alt: "MayContain b key \<longleftrightarrow> (\<forall>pos \<in> set (map (bloom_bit key) [0, 1, 2, 3]). bloom_has b pos)"
proof -
  have "w AND push_bit n 1 \<noteq> 0 \<longleftrightarrow> bit w n" for w :: u64 and n
    by (simp only: push_bit_of_1 and_exp_eq_0_iff_not_bit) simp
  then show ?thesis by (simp add: MayContain_def bloom_has_def)
qed

lemma bloom_has_set: "bloom_has (bloom_set b pos) q \<longleftrightarrow> q = pos \<or> bloom_has b q"
proof -
  have "pos mod 64 < 64" by simp
  then have "bit (push_bit (pos mod 64) (1 :: u64)) n \<longleftrightarrow> n = pos mod 64" for n
    by (auto simp: bit_simps)
  moreover have "q = pos \<longleftrightarrow> q div 64 = pos div 64 \<and> q mod 64 = pos mod 64" by (metis div_mult_mod_eq)
  ultimately show ?thesis by (auto simp: bloom_has_def bloom_set_def bit_or_iff)
qed

lemma bloom_has_fold: "bloom_has (foldl bloom_set b ps) q \<longleftrightarrow> q \<in> set ps \<or> bloom_has b q"
  by (induction ps arbitrary: b) (auto simp: bloom_has_set)

lemma MayContain_Add: "MayContain (bloom_Add b key) key" "MayContain b k \<Longrightarrow> MayContain (bloom_Add b key) k"
  unfolding MayContain_alt bloom_Add_def bloom_has_fold by auto

lemma MayContain_fold:
  "k \<in> set ks \<or> MayContain b k \<Longrightarrow> MayContain (foldl bloom_Add b ks) k"
  by (induction ks arbitrary: b) (auto simp: MayContain_Add)

end
