(* ===== verification/ZfIndexHistory.thy ===== *)
theory ZfIndexHistory
  imports ZfPartitionIndex
begin

text \<open>
  What the set of partition indexes promises: it answers a lookup as the history of insertions
  would. The history is the list of the entries that were inserted and not yet released, oldest
  first; \<open>ix_reach\<close> relates it to the index set under insertion, freezing and release, and a lookup
  returns the last entry of the history with the key at or below the snapshot, through the Bloom
  filter and the chain of frozen indexes. The comparator is the bytewise one.
\<close>

section \<open>The relation between history and indexes\<close>

definition gen_entries :: "IndexEntry list \<Rightarrow> u32 \<Rightarrow> u32 \<Rightarrow> IndexEntry set" where
  "gen_entries H p g = {r \<in> set H. r_part r = p \<and> r_igen r = g}"

definition ix_chain :: "PartitionIndexSet \<Rightarrow> u32 \<Rightarrow> PartitionIndex list" where
  "ix_chain s p = frozen_of s p @ active_of s p"

definition part_inv :: "IndexEntry list \<Rightarrow> u32 \<Rightarrow> PartitionIndex list \<Rightarrow> bool" where
  "part_inv H p c \<longleftrightarrow>
     distinct (map pi_gen c) \<and> (\<forall>idx \<in> set c. idx_inv idx (gen_entries H p (pi_gen idx))) \<and>
     (\<forall>r \<in> set H. r_part r = p \<longrightarrow> r_igen r \<in> pi_gen ` set c) \<and>
     sorted_wrt (\<lambda>i j. \<forall>r \<in> gen_entries H p (pi_gen i). \<forall>r' \<in> gen_entries H p (pi_gen j). r_seq r < r_seq r') c"

definition blooms_ok :: "IndexEntry list \<Rightarrow> PartitionIndexSet \<Rightarrow> bool" where
  "blooms_ok H s \<longleftrightarrow> (\<forall>r \<in> set H. \<exists>b. map_of (ix_blooms s) (r_part r) = Some b \<and> MayContain b (r_key r))"

definition ix_inv :: "IndexEntry list \<Rightarrow> PartitionIndexSet \<Rightarrow> bool" where
  "ix_inv H s \<longleftrightarrow> sorted_wrt (\<lambda>a b. r_seq a < r_seq b) H \<and> (\<forall>p. part_inv H p (ix_chain s p)) \<and>
     (\<forall>p. map_of (ix_active s) p = None \<longrightarrow> frozen_of s p = []) \<and> blooms_ok H s"

lemma ix_invD:
  assumes "ix_inv H s"
  shows "sorted_wrt (\<lambda>a b. r_seq a < r_seq b) H" "part_inv H p (ix_chain s p)"
    "map_of (ix_active s) p = None \<Longrightarrow> frozen_of s p = []" "blooms_ok H s"
  using assms by (auto simp: ix_inv_def)

lemma part_invD:
  assumes "part_inv H p c"
  shows "distinct (map pi_gen c)" "idx \<in> set c \<Longrightarrow> idx_inv idx (gen_entries H p (pi_gen idx))"
    "r \<in> set H \<Longrightarrow> r_part r = p \<Longrightarrow> r_igen r \<in> pi_gen ` set c"
    "sorted_wrt (\<lambda>i j. \<forall>r \<in> gen_entries H p (pi_gen i). \<forall>r' \<in> gen_entries H p (pi_gen j). r_seq r < r_seq r') c"
  using assms by (auto simp: part_inv_def)

lemma gen_entries_snoc:
  "gen_entries (H @ [r]) p g = (if r_part r = p \<and> r_igen r = g then insert r (gen_entries H p g) else gen_entries H p g)"
  by (auto simp: gen_entries_def)

lemma chain_simps [simp]:
  "frozen_of (set_active p idx s) q = frozen_of s q" "active_of (set_active p idx s) q = (if q = p then [idx] else active_of s q)"
  "frozen_of (set_frozen p c s) q = (if q = p then c else frozen_of s q)" "active_of (set_frozen p c s) q = active_of s q"
  "frozen_of (emplace_bloom p s) q = frozen_of s q" "active_of (emplace_bloom p s) q = active_of s q"
  "frozen_of (s\<lparr>ix_blooms := bs, ix_total_mem_bytes := t\<rparr>) q = frozen_of s q"
  "active_of (s\<lparr>ix_blooms := bs, ix_total_mem_bytes := t\<rparr>) q = active_of s q"
  "frozen_of (s\<lparr>ix_blooms := bs\<rparr>) q = frozen_of s q" "active_of (s\<lparr>ix_blooms := bs\<rparr>) q = active_of s q"
  "frozen_of (s\<lparr>ix_total_mem_bytes := t\<rparr>) q = frozen_of s q" "active_of (s\<lparr>ix_total_mem_bytes := t\<rparr>) q = active_of s q"
  by (auto simp: frozen_of_def active_of_def set_active_def set_frozen_def emplace_bloom_def update_conv')

lemma bloom_simps [simp]:
  "ix_blooms (set_active p idx s) = ix_blooms s" "ix_blooms (set_frozen p c s) = ix_blooms s"
  "bloom_of (set_active p idx s) q = bloom_of s q" "bloom_of (emplace_bloom p s) q = bloom_of s q"
  by (auto simp: set_active_def set_frozen_def bloom_of_def emplace_bloom_def update_conv' split: option.splits)

lemma active_simps [simp]:
  "map_of (ix_active (set_active p idx s)) q = (if q = p then Some idx else map_of (ix_active s) q)"
  "ix_active (set_frozen p c s) = ix_active s" "ix_active (emplace_bloom p s) = ix_active s"
  by (auto simp: set_active_def set_frozen_def emplace_bloom_def update_conv')

section \<open>Lookups\<close>

lemma first_hit_skip: "\<forall>x \<in> set xs. f x = Some None \<Longrightarrow> first_hit f (xs @ ys) = first_hit f ys"
  by (induction xs) auto

lemma last_filter_max:
  assumes "sorted_wrt (\<lambda>a b. r_seq a < r_seq b) H" "last_opt (filter P H) = Some r0"
  shows "r0 \<in> set H" "P r0" "\<And>r. r \<in> set H \<Longrightarrow> P r \<Longrightarrow> r_seq r \<le> r_seq r0"
proof -
  have ne: "filter P H \<noteq> []" and r0: "r0 = last (filter P H)" using assms(2) by (auto simp: last_opt_def split: if_splits)
  have "r0 \<in> set (filter P H)" using last_in_set [OF ne] r0 by simp
  then show "r0 \<in> set H" "P r0" by auto
  have "sorted_wrt (\<lambda>a b. r_seq a < r_seq b) (filter P H)" using assms(1) by (rule sorted_wrt_filter)
  then have s: "sorted_wrt (\<lambda>a b. r_seq a < r_seq b) (butlast (filter P H) @ [r0])" using ne r0 by simp
  show "r_seq r \<le> r_seq r0" if "r \<in> set H" "P r" for r
  proof -
    have "r \<in> set (butlast (filter P H) @ [r0])" using that ne r0 by (simp add: append_butlast_last_id)
    then show ?thesis using s by (auto simp: sorted_wrt_append less_imp_le)
  qed
qed

lemma ix_Get_history:
  assumes inv: "ix_inv H s" and uk: "length uk + 8 < 2 ^ 32" and snap: "snap \<le> kMaxSequenceNumber"
  shows "ix_Get Slice_compare s p uk snap =
    Some (map_option (\<lambda>r. (r_loc r, r_type r, r_seq r)) (last_opt (filter (\<lambda>r. r_part r = p \<and> r_key r = uk \<and> r_seq r \<le> snap) H)))"
proof -
  let ?P = "\<lambda>r. r_part r = p \<and> r_key r = uk \<and> r_seq r \<le> snap"
  let ?f = "\<lambda>idx. pi_Get Slice_compare idx uk snap"
  note pinv = ix_invD(2) [OF inv, of p]
  have chain: "frozen_of s p @ active_of s p = ix_chain s p" by (simp add: ix_chain_def)
  have miss: "?f idx = Some None" if "idx \<in> set (ix_chain s p)" "\<forall>r \<in> gen_entries H p (pi_gen idx). \<not> ?P r" for idx
    by (rule pi_Get_spec(2) [OF part_invD(2) [OF pinv that(1)] uk snap]) (use that(2) in \<open>auto simp: gen_entries_def\<close>)
  show ?thesis
  proof (cases "last_opt (filter ?P H)")
    case None
    then have "filter ?P H = []" by (simp add: last_opt_def split: if_splits)
    then have "\<forall>r \<in> set H. \<not> ?P r" by (simp add: filter_empty_conv)
    then have "first_hit ?f (rev (ix_chain s p)) = Some None"
      using first_hit_skip [of "rev (ix_chain s p)" ?f "[]"] miss by (auto simp: gen_entries_def)
    then show ?thesis using None by (auto simp: ix_Get_def chain split: option.splits)
  next
    case (Some r0)
    note r0 = last_filter_max [OF ix_invD(1) [OF inv] Some]
    have "r_igen r0 \<in> pi_gen ` set (ix_chain s p)" using part_invD(3) [OF pinv r0(1)] r0(2) by simp
    then obtain idx0 where idx0: "idx0 \<in> set (ix_chain s p)" "pi_gen idx0 = r_igen r0" by auto
    then obtain a b where ab: "ix_chain s p = a @ idx0 # b" by (meson split_list)
    have r0g: "r0 \<in> gen_entries H p (pi_gen idx0)" using r0(1,2) idx0(2) by (simp add: gen_entries_def)
    have later: "?f idx = Some None" if "idx \<in> set b" for idx
    proof (rule miss)
      show "idx \<in> set (ix_chain s p)" using that ab by simp
      show "\<forall>r \<in> gen_entries H p (pi_gen idx). \<not> ?P r"
      proof (intro ballI notI)
        fix r assume r: "r \<in> gen_entries H p (pi_gen idx)" "?P r"
        have "r_seq r0 < r_seq r" using part_invD(4) [OF pinv] ab that r0g r(1) by (auto simp: sorted_wrt_append)
        moreover have "r_seq r \<le> r_seq r0" using r0(3) r by (simp add: gen_entries_def)
        ultimately show False by simp
      qed
    qed
    have "?f idx0 = Some (Some (r_loc r0, r_type r0, r_seq r0))"
      by (rule pi_Get_spec(1) [OF part_invD(2) [OF pinv idx0(1)] uk snap r0g])
        (use r0 in \<open>auto simp: gen_entries_def\<close>)
    then have "first_hit ?f (rev (ix_chain s p)) = Some (Some (r_loc r0, r_type r0, r_seq r0))"
      using first_hit_skip [of "rev b" ?f "idx0 # rev a"] later ab by simp
    moreover obtain bl where "map_of (ix_blooms s) p = Some bl" "MayContain bl uk"
      using ix_invD(4) [OF inv] r0(1,2) by (auto simp: blooms_ok_def)
    ultimately show ?thesis using Some by (simp add: ix_Get_def chain)
  qed
qed

section \<open>Insertion\<close>

definition insert_entry :: "PartitionIndexSet \<Rightarrow> IndexEntry \<Rightarrow> u32 list \<Rightarrow> (u64 \<times> PartitionIndexSet) option" where
  "insert_entry s r rnd =
     ix_Insert Slice_compare s (r_part r) (r_igen r) (MakeInternalKey (r_key r) (r_seq r) (r_type r)) (r_loc r) rnd"

text \<open>What a write brings: an admissible entry for the current generation of its partition, with
  a sequence number above all earlier ones, and room in the byte counter of the index.\<close>

definition insert_pre :: "IndexEntry list \<Rightarrow> PartitionIndexSet \<Rightarrow> IndexEntry \<Rightarrow> bool" where
  "insert_pre H s r \<longleftrightarrow> entry_ok r \<and> list_all (\<lambda>r'. r_seq r' < r_seq r) H \<and>
     list_all (\<lambda>idx. pi_gen idx = r_igen r \<and> unat (pi_mem_bytes idx) + entry_bytes (enc r) < 2 ^ 64) (active_of s (r_part r))"

lemma part_inv_snoc_other:
  assumes "part_inv H p c" "r_part r \<noteq> p"
  shows "part_inv (H @ [r]) p c"
  using assms by (auto simp: part_inv_def gen_entries_snoc)

lemma part_inv_snoc_active:
  assumes inv: "part_inv H p (c @ [idx])" and r: "r_part r = p" "r_igen r = pi_gen idx" "\<forall>r' \<in> set H. r_seq r' < r_seq r"
    and idx': "idx_inv idx' (insert r (gen_entries H p (pi_gen idx)))" "pi_gen idx' = pi_gen idx"
  shows "part_inv (H @ [r]) p (c @ [idx'])"
proof -
  have d: "distinct (map pi_gen (c @ [idx]))" using part_invD(1) [OF inv] .
  have other: "gen_entries (H @ [r]) p (pi_gen i) = gen_entries H p (pi_gen i)" if "i \<in> set c" for i
    using d that r(2) by (auto simp: gen_entries_snoc)
  have cur: "gen_entries (H @ [r]) p (pi_gen idx') = insert r (gen_entries H p (pi_gen idx))"
    using r idx'(2) by (simp add: gen_entries_snoc)
  have s: "sorted_wrt (\<lambda>i j. \<forall>r \<in> gen_entries H p (pi_gen i). \<forall>r' \<in> gen_entries H p (pi_gen j). r_seq r < r_seq r') (c @ [idx])"
    using part_invD(4) [OF inv] .
  then have "sorted_wrt (\<lambda>i j. \<forall>r \<in> gen_entries H p (pi_gen i). \<forall>r' \<in> gen_entries H p (pi_gen j). r_seq r < r_seq r') c"
    by (simp add: sorted_wrt_append)
  then have "sorted_wrt (\<lambda>i j. \<forall>ra \<in> gen_entries (H @ [r]) p (pi_gen i). \<forall>r' \<in> gen_entries (H @ [r]) p (pi_gen j). r_seq ra < r_seq r') c"
    by (rule sorted_wrt_mono_rel [rotated]) (simp add: other)
  moreover have "r_seq ra < r_seq r'" if "i \<in> set c" "ra \<in> gen_entries H p (pi_gen i)" "r' \<in> insert r (gen_entries H p (pi_gen idx))" for i ra r'
    using that s r(3) by (auto simp: sorted_wrt_append gen_entries_def)
  ultimately have "sorted_wrt (\<lambda>i j. \<forall>ra \<in> gen_entries (H @ [r]) p (pi_gen i). \<forall>r' \<in> gen_entries (H @ [r]) p (pi_gen j). r_seq ra < r_seq r') (c @ [idx'])"
    by (simp add: sorted_wrt_append cur other)
  moreover have "idx_inv i (gen_entries (H @ [r]) p (pi_gen i))" if "i \<in> set (c @ [idx'])" for i
    using that part_invD(2) [OF inv, of i] other [of i] cur idx'(1) by auto
  moreover have "r_igen ra \<in> pi_gen ` set (c @ [idx'])" if "ra \<in> set (H @ [r])" "r_part ra = p" for ra
    using that part_invD(3) [OF inv, of ra] r idx'(2) by auto
  ultimately show ?thesis using d idx'(2) by (simp add: part_inv_def)
qed

lemma insert_entry_inv:
  assumes inv: "ix_inv H s" and pre: "insert_pre H s r"
  shows "\<exists>n s'. insert_entry s r rnd = Some (n, s') \<and> ix_inv (H @ [r]) s'"
proof -
  let ?p = "r_part r" and ?ik = "MakeInternalKey (r_key r) (r_seq r) (r_type r)"
  let ?idx = "case map_of (ix_active s) ?p of Some idx \<Rightarrow> idx | None \<Rightarrow> new_PartitionIndex ?p (r_igen r)"
  let ?s0 = "case map_of (ix_active s) ?p of Some _ \<Rightarrow> s | None \<Rightarrow> emplace_bloom ?p (set_active ?p ?idx s)"
  have newer: "\<forall>r' \<in> set H. r_seq r' < r_seq r" using pre by (simp add: insert_pre_def list_all_iff)
  have gen: "pi_gen ?idx = r_igen r"
    using pre by (auto simp: insert_pre_def active_of_def new_PartitionIndex_def split: option.splits)
  have chain: "part_inv H ?p (frozen_of s ?p @ [?idx])"
  proof (cases "map_of (ix_active s) ?p")
    case None
    then have fz: "frozen_of s ?p = []" using ix_invD(3) [OF inv] by simp
    have e: "part_inv H ?p []" using ix_invD(2) [OF inv, of ?p] None fz by (simp add: ix_chain_def active_of_def)
    then have "gen_entries H ?p g = {}" for g by (auto simp: part_inv_def gen_entries_def)
    then show ?thesis using None fz e new_idx_inv by (auto simp: part_inv_def)
  next
    case (Some idx)
    then show ?thesis using ix_invD(2) [OF inv, of ?p] by (simp add: ix_chain_def active_of_def)
  qed
  have room: "unat (pi_mem_bytes ?idx) + entry_bytes (enc r) < 2 ^ 64"
  proof (cases "map_of (ix_active s) ?p")
    case None
    have "entry_bytes (enc r) < 2 ^ 64" using unat_u64_less by (simp add: entry_bytes_def)
    then show ?thesis using None by (simp add: new_PartitionIndex_def)
  next
    case (Some idx)
    then show ?thesis using pre by (simp add: insert_pre_def active_of_def)
  qed
  have iinv: "idx_inv ?idx (gen_entries H ?p (pi_gen ?idx))" using part_invD(2) [OF chain] by simp
  have ok: "entry_ok r" using pre by (simp add: insert_pre_def)
  have "\<forall>r' \<in> gen_entries H ?p (pi_gen ?idx). r_key r' = r_key r \<longrightarrow> r_seq r' \<noteq> r_seq r" using newer by (auto simp: gen_entries_def)
  from pi_Insert_spec [OF iinv ok this room, of rnd] obtain idx' where idx':
    "pi_Insert Slice_compare ?idx ?ik (r_loc r) rnd = Some (True, entry_size ?ik (r_loc r), idx')"
    "idx_inv idx' (insert r (gen_entries H ?p (pi_gen ?idx)))" "pi_gen idx' = pi_gen ?idx" by blast
  let ?s1 = "set_active ?p idx' ?s0"
  let ?s' = "?s1\<lparr>ix_blooms := AList.update ?p (bloom_Add (bloom_of ?s1 ?p) (r_key r)) (ix_blooms ?s1), ix_total_mem_bytes := ix_total_mem_bytes ?s1 + entry_size ?ik (r_loc r)\<rparr>"
  have step: "insert_entry s r rnd = Some (entry_size ?ik (r_loc r), ?s')"
    using idx'(1) gen by (auto simp: insert_entry_def ix_Insert_def finish_insert_def Let_def split: option.splits)
  have fz: "frozen_of ?s' q = frozen_of s q" "active_of ?s' q = (if q = ?p then [idx'] else active_of s q)" for q
    by (auto split: option.splits)
  have "part_inv (H @ [r]) q (ix_chain ?s' q)" for q
  proof (cases "q = ?p")
    case True
    then show ?thesis using part_inv_snoc_active [OF chain _ _ newer idx'(2,3)] gen unfolding ix_chain_def fz by simp
  next
    case False
    then show ?thesis using part_inv_snoc_other [OF ix_invD(2) [OF inv, of q], of r] unfolding ix_chain_def fz by simp
  qed
  moreover have "map_of (ix_active ?s') q = None \<longrightarrow> frozen_of ?s' q = []" for q
    using ix_invD(3) [OF inv, of q] by (auto simp: fz split: option.splits if_splits)
  moreover have "blooms_ok (H @ [r]) ?s'"
  proof -
    have b0: "bloom_of ?s1 ?p = bloom_of s ?p" by (auto split: option.splits)
    have b1: "map_of (ix_blooms ?s1) q = map_of (ix_blooms s) q" if "q \<noteq> ?p" for q
      using that by (auto simp: emplace_bloom_def update_conv' split: option.splits)
    have "\<exists>b. map_of (ix_blooms ?s') (r_part ra) = Some b \<and> MayContain b (r_key ra)" if ra: "ra \<in> set (H @ [r])" for ra
    proof (cases "r_part ra = ?p")
      case True
      have "MayContain (bloom_of s ?p) (r_key ra) \<or> ra = r"
        using ra ix_invD(4) [OF inv] True by (fastforce simp: blooms_ok_def bloom_of_def)
      then have "MayContain (bloom_Add (bloom_of ?s1 ?p) (r_key r)) (r_key ra)" unfolding b0 using MayContain_Add by blast
      moreover have "map_of (ix_blooms ?s') (r_part ra) = Some (bloom_Add (bloom_of ?s1 ?p) (r_key r))"
        using True by (simp add: update_conv')
      ultimately show ?thesis by blast
    next
      case False
      then have "ra \<in> set H" using ra by auto
      then show ?thesis using False ix_invD(4) [OF inv] b1 by (simp add: blooms_ok_def update_conv')
    qed
    then show ?thesis by (auto simp: blooms_ok_def)
  qed
  moreover have "sorted_wrt (\<lambda>a b. r_seq a < r_seq b) (H @ [r])"
    using ix_invD(1) [OF inv] newer by (simp add: sorted_wrt_append)
  ultimately have "ix_inv (H @ [r]) ?s'" unfolding ix_inv_def by blast
  then show ?thesis using step by blast
qed

section \<open>Freezing and releasing\<close>

lemma part_inv_new:
  assumes "part_inv H p c" "g \<notin> pi_gen ` set c"
  shows "part_inv H p (c @ [new_PartitionIndex p g])"
proof -
  have "gen_entries H p g = {}" using part_invD(3) [OF assms(1)] assms(2) by (auto simp: gen_entries_def)
  then show ?thesis
    using assms new_idx_inv [of p g] by (auto simp: part_inv_def sorted_wrt_append new_PartitionIndex_def)
qed

lemma part_inv_drop:
  assumes inv: "part_inv H p (c @ [idx])" and "gen_entries H p (pi_gen idx) = {}"
  shows "part_inv H p c"
proof -
  have "r_igen r \<in> pi_gen ` set c" if "r \<in> set H" "r_part r = p" for r
    using part_invD(3) [OF inv that] assms(2) that by (auto simp: gen_entries_def)
  then show ?thesis using inv by (simp add: part_inv_def sorted_wrt_append)
qed

lemma SetFrozen_simps [simp]: "pi_gen (SetFrozen idx) = pi_gen idx" "idx_inv (SetFrozen idx) R = idx_inv idx R"
  by (simp_all add: SetFrozen_def idx_inv_def)

lemma ix_Freeze_inv:
  assumes inv: "ix_inv H s" and new: "list_all (\<lambda>idx. pi_gen idx \<noteq> g) (ix_chain s p)"
  shows "ix_inv H (ix_Freeze s p g)"
proof -
  let ?s = "ix_Freeze s p g"
  note pinv = ix_invD(2) [OF inv, of p]
  have fresh: "g \<notin> pi_gen ` set (ix_chain s p)" using new by (auto simp: list_all_iff)
  have other: "ix_chain ?s q = ix_chain s q" if "q \<noteq> p" for q
    using that by (auto simp: ix_Freeze_def ix_chain_def Let_def split: option.splits)
  have mine: "part_inv H p (ix_chain ?s p)"
  proof (cases "map_of (ix_active s) p")
    case None
    then have "ix_chain ?s p = ix_chain s p @ [new_PartitionIndex p g]" by (simp add: ix_Freeze_def ix_chain_def active_of_def)
    then show ?thesis using part_inv_new [OF pinv fresh] by simp
  next
    case (Some old)
    then have c: "ix_chain s p = frozen_of s p @ [old]" by (simp add: ix_chain_def active_of_def)
    show ?thesis
    proof (cases "pi_mem_bytes old > 0")
      case True
      then have c': "ix_chain ?s p = (frozen_of s p @ [SetFrozen old]) @ [new_PartitionIndex p g]"
        using Some by (simp add: ix_Freeze_def ix_chain_def Let_def)
      have "part_inv H p (frozen_of s p @ [SetFrozen old])"
        using pinv unfolding c by (simp add: part_inv_def sorted_wrt_append)
      then show ?thesis unfolding c' by (rule part_inv_new) (use fresh in \<open>simp add: c\<close>)
    next
      case False
      then have "pi_mem_bytes old = 0" by (simp add: word_gt_0)
      then have "gen_entries H p (pi_gen old) = {}"
        using mem_zero_iff [of old "gen_entries H p (pi_gen old)"] part_invD(2) [OF pinv, of old] c by simp
      then have "part_inv H p (frozen_of s p)" using part_inv_drop [of H p "frozen_of s p" old] pinv c by simp
      then have "part_inv H p (frozen_of s p @ [new_PartitionIndex p g])" by (rule part_inv_new) (use fresh in \<open>simp add: c\<close>)
      then show ?thesis using Some False by (simp add: ix_Freeze_def ix_chain_def Let_def)
    qed
  qed
  have "part_inv H q (ix_chain ?s q)" for q
    using mine other [of q] ix_invD(2) [OF inv, of q] by (cases "q = p") simp_all
  moreover have "map_of (ix_active ?s) q = None \<longrightarrow> frozen_of ?s q = []" for q
    using ix_invD(3) [OF inv, of q] by (auto simp: ix_Freeze_def Let_def split: option.splits)
  moreover have "ix_blooms ?s = ix_blooms s" by (auto simp: ix_Freeze_def Let_def split: option.splits)
  then have "blooms_ok H ?s" using ix_invD(4) [OF inv] by (simp add: blooms_ok_def)
  ultimately show ?thesis using ix_invD(1) [OF inv] unfolding ix_inv_def by blast
qed

lemma pi_entries_elems: "sl_inv (ZfKeyComparator Slice_compare) (pi_list idx) \<Longrightarrow> pi_entries idx = Some (sl_elems (pi_list idx))"
proof -
  assume "sl_inv (ZfKeyComparator Slice_compare) (pi_list idx)"
  then obtain ns where rep: "sl_rep (ZfKeyComparator Slice_compare) (pi_list idx) ns" by (auto simp: sl_inv_def)
  have "filter (\<lambda>n. 0 < node_height (pi_list idx) n) ns = ns" using sl_repD(5) [OF rep] by simp
  then have "chain (sl_next (pi_list idx)) 0 head ns" using sl_repD(7) [OF rep, of 0] by simp
  then show ?thesis
    using iter_walk_chain [of "pi_list idx" head ns] zfkey.rep_elems [OF rep] by (simp add: pi_entries_def iter_SeekToFirst_def)
qed

lemma ForEachKey_keys:
  assumes "idx_inv idx R"
  shows "\<exists>ks. ForEachKey idx = Some ks \<and> ExtractUserKey ` set ks = r_key ` R"
proof -
  let ?es = "sl_elems (pi_list idx)"
  have es: "set ?es = enc ` R" and ok: "\<And>r. r \<in> R \<Longrightarrow> entry_ok r" using idx_invD [OF assms] by auto
  have "ForEachKey idx = Some (map entry_ik (filter has_ik ?es))"
    using pi_entries_elems [OF idx_invD(1) [OF assms]] by (simp add: ForEachKey_def)
  moreover have "set (filter has_ik ?es) = enc ` R" using es ok enc_parts(3) by auto
  moreover have "(\<lambda>r. ExtractUserKey (entry_ik (enc r))) ` R = r_key ` R" using ok enc_parts(1) by (intro image_cong) auto
  ultimately show ?thesis by (auto simp: image_image)
qed

lemma RebuildBloom_spec:
  assumes "\<forall>idx \<in> set (active_of s p @ frozen_of s p). idx_inv idx (R idx)"
  shows "\<exists>b. RebuildBloom s p = Some (s\<lparr>ix_blooms := AList.update p b (ix_blooms s)\<rparr>) \<and>
    (\<forall>idx \<in> set (active_of s p @ frozen_of s p). \<forall>r \<in> R idx. MayContain b (r_key r))"
proof -
  have all: "\<exists>kss. those (map ForEachKey is) = Some kss \<and> ExtractUserKey ` set (concat kss) = (\<Union>idx \<in> set is. r_key ` R idx)"
    if "\<forall>idx \<in> set is. idx_inv idx (R idx)" for "is"
    using that
  proof (induction "is")
    case (Cons idx "is")
    then obtain kss where "those (map ForEachKey is) = Some kss" "ExtractUserKey ` set (concat kss) = (\<Union>idx \<in> set is. r_key ` R idx)" by auto
    moreover obtain ks where "ForEachKey idx = Some ks" "ExtractUserKey ` set ks = r_key ` R idx" using ForEachKey_keys [of idx "R idx"] Cons.prems by auto
    ultimately show ?case by (intro exI [of _ "ks # kss"]) (simp add: image_Un)
  qed simp
  obtain kss where kss: "those (map ForEachKey (active_of s p @ frozen_of s p)) = Some kss"
    "ExtractUserKey ` set (concat kss) = (\<Union>idx \<in> set (active_of s p @ frozen_of s p). r_key ` R idx)" using all [OF assms] by blast
  let ?b = "foldl (\<lambda>b ik. bloom_Add b (ExtractUserKey ik)) new_PartitionBloom (concat kss)"
  have b: "?b = foldl bloom_Add new_PartitionBloom (map ExtractUserKey (concat kss))" by (simp add: foldl_map)
  have "MayContain ?b (r_key r)" if "idx \<in> set (active_of s p @ frozen_of s p)" "r \<in> R idx" for idx r
  proof -
    have "r_key r \<in> set (map ExtractUserKey (concat kss))" using that kss(2) by auto
    then show ?thesis unfolding b by (intro MayContain_fold) blast
  qed
  then show ?thesis using kss(1) by (intro exI [of _ ?b]) (simp add: RebuildBloom_def)
qed

text \<open>The history after a release: the entries of the generation leave it, when it was frozen.\<close>

definition release_history :: "IndexEntry list \<Rightarrow> PartitionIndexSet \<Rightarrow> u32 \<Rightarrow> u32 \<Rightarrow> IndexEntry list" where
  "release_history H s p g = (if GetFrozen s p g = None then H else filter (\<lambda>r. \<not> (r_part r = p \<and> r_igen r = g)) H)"

lemma part_inv_release:
  assumes "part_inv H p c" 
  shows "part_inv (filter (\<lambda>r. \<not> (r_part r = p \<and> r_igen r = g)) H) p (filter (\<lambda>idx. pi_gen idx \<noteq> g) c)"
proof -
  let ?H = "filter (\<lambda>r. \<not> (r_part r = p \<and> r_igen r = g)) H" and ?c = "filter (\<lambda>idx. pi_gen idx \<noteq> g) c"
  have same: "gen_entries ?H p (pi_gen i) = gen_entries H p (pi_gen i)" if "i \<in> set ?c" for i using that by (auto simp: gen_entries_def)
  have "sorted_wrt (\<lambda>i j. \<forall>r \<in> gen_entries H p (pi_gen i). \<forall>r' \<in> gen_entries H p (pi_gen j). r_seq r < r_seq r') ?c"
    by (rule sorted_wrt_filter [OF part_invD(4) [OF assms]])
  then have "sorted_wrt (\<lambda>i j. \<forall>r \<in> gen_entries ?H p (pi_gen i). \<forall>r' \<in> gen_entries ?H p (pi_gen j). r_seq r < r_seq r') ?c"
    by (rule sorted_wrt_mono_rel [rotated]) (use same in \<open>simp del: not_not\<close>)
  moreover have "distinct (map pi_gen ?c)" using part_invD(1) [OF assms] by (rule distinct_map_filter)
  moreover have "\<forall>idx \<in> set ?c. idx_inv idx (gen_entries ?H p (pi_gen idx))" using part_invD(2) [OF assms] same by simp
  moreover have "\<forall>r \<in> set ?H. r_part r = p \<longrightarrow> r_igen r \<in> pi_gen ` set ?c" using part_invD(3) [OF assms] by force
  ultimately show ?thesis by (simp add: part_inv_def)
qed

lemma part_inv_release_other:
  assumes "part_inv H q c" "q \<noteq> p"
  shows "part_inv (filter (\<lambda>r. \<not> (r_part r = p \<and> r_igen r = g)) H) q c"
proof -
  have "gen_entries (filter (\<lambda>r. \<not> (r_part r = p \<and> r_igen r = g)) H) q g' = gen_entries H q g'" for g'
    using assms(2) by (auto simp: gen_entries_def)
  then show ?thesis using assms by (simp add: part_inv_def)
qed

lemma ReleaseFrozen_inv:
  assumes inv: "ix_inv H s"
  shows "\<exists>s'. ReleaseFrozen s p g = Some s' \<and> ix_inv (release_history H s p g) s'"
proof (cases "GetFrozen s p g")
  case None
  then have "filter (\<lambda>idx. pi_gen idx = g) (frozen_of s p) = []" by (auto simp: GetFrozen_def find_None_iff filter_empty_conv)
  then show ?thesis using inv None by (simp add: ReleaseFrozen_def release_history_def)
next
  case (Some idx)
  let ?gone = "filter (\<lambda>idx. pi_gen idx = g) (frozen_of s p)" and ?keep = "filter (\<lambda>idx. pi_gen idx \<noteq> g) (frozen_of s p)"
  let ?H = "filter (\<lambda>r. \<not> (r_part r = p \<and> r_igen r = g)) H"
  let ?s1 = "(set_frozen p ?keep s)\<lparr>ix_total_mem_bytes := foldl (\<lambda>t idx. t - pi_mem_bytes idx) (ix_total_mem_bytes s) ?gone\<rparr>"
  have mem: "idx \<in> set (frozen_of s p)" "pi_gen idx = g" using Some by (auto simp: GetFrozen_def find_Some_iff)
  then have ne: "?gone \<noteq> []" by (auto simp: filter_empty_conv)
  have "g \<notin> pi_gen ` set (active_of s p)"
    using part_invD(1) [OF ix_invD(2) [OF inv, of p]] mem by (force simp: ix_chain_def)
  then have "filter (\<lambda>idx. pi_gen idx \<noteq> g) (active_of s p) = active_of s p" by (auto simp: filter_id_conv)
  then have keep: "part_inv ?H p (?keep @ active_of s p)"
    using part_inv_release [OF ix_invD(2) [OF inv, of p], of g] by (simp add: ix_chain_def)
  then have invs: "\<forall>idx \<in> set (active_of ?s1 p @ frozen_of ?s1 p). idx_inv idx (gen_entries ?H p (pi_gen idx))"
    using part_invD(2) [OF keep] by auto
  obtain b where b: "RebuildBloom ?s1 p = Some (?s1\<lparr>ix_blooms := AList.update p b (ix_blooms ?s1)\<rparr>)"
    "\<forall>idx \<in> set (active_of ?s1 p @ frozen_of ?s1 p). \<forall>r \<in> gen_entries ?H p (pi_gen idx). MayContain b (r_key r)"
    using RebuildBloom_spec [OF invs] by blast
  let ?s' = "?s1\<lparr>ix_blooms := AList.update p b (ix_blooms ?s1)\<rparr>"
  have ch: "ix_chain ?s' q = (if q = p then ?keep @ active_of s p else ix_chain s q)" for q by (simp add: ix_chain_def)
  have "part_inv ?H q (ix_chain ?s' q)" for q
    using keep part_inv_release_other [OF ix_invD(2) [OF inv, of q], of p g] unfolding ch by (cases "q = p") simp_all
  moreover have "map_of (ix_active ?s') q = None \<longrightarrow> frozen_of ?s' q = []" for q
    using ix_invD(3) [OF inv, of q] by (cases "q = p") simp_all
  moreover have "sorted_wrt (\<lambda>a b. r_seq a < r_seq b) ?H" by (rule sorted_wrt_filter [OF ix_invD(1) [OF inv]])
  moreover have "\<exists>bl. map_of (ix_blooms ?s') (r_part r) = Some bl \<and> MayContain bl (r_key r)" if r: "r \<in> set ?H" for r
  proof (cases "r_part r = p")
    case True
    then have "r_igen r \<in> pi_gen ` set (?keep @ active_of s p)" using part_invD(3) [OF keep r] by simp
    then obtain i where "i \<in> set (active_of ?s1 p @ frozen_of ?s1 p)" "r \<in> gen_entries ?H p (pi_gen i)"
      using r True by (auto simp: gen_entries_def)
    then have "MayContain b (r_key r)" using b(2) by blast
    then show ?thesis using True by (simp add: update_conv')
  next
    case False
    then show ?thesis using r ix_invD(4) [OF inv] by (simp add: blooms_ok_def update_conv')
  qed
  ultimately have "ix_inv ?H ?s'" unfolding ix_inv_def blooms_ok_def by blast
  moreover have "ReleaseFrozen s p g = Some ?s'" using b(1) ne by (simp add: ReleaseFrozen_def Let_def)
  ultimately show ?thesis using Some by (simp add: release_history_def)
qed

section \<open>Reachable index sets\<close>

inductive ix_reach :: "IndexEntry list \<Rightarrow> PartitionIndexSet \<Rightarrow> bool" where
  init: "ix_reach [] new_PartitionIndexSet"
| insert: "ix_reach H s \<Longrightarrow> insert_pre H s r \<Longrightarrow> insert_entry s r rnd = Some (n, s') \<Longrightarrow> ix_reach (H @ [r]) s'"
| freeze: "ix_reach H s \<Longrightarrow> list_all (\<lambda>idx. pi_gen idx \<noteq> g) (ix_chain s p) \<Longrightarrow> ix_reach H (ix_Freeze s p g)"
| release: "ix_reach H s \<Longrightarrow> ReleaseFrozen s p g = Some s' \<Longrightarrow> ix_reach (release_history H s p g) s'"

lemma ix_reach_inv: "ix_reach H s \<Longrightarrow> ix_inv H s"
proof (induction rule: ix_reach.induct)
  case init
  show ?case
    by (simp add: ix_inv_def part_inv_def blooms_ok_def ix_chain_def frozen_of_def active_of_def new_PartitionIndexSet_def)
next
  case (insert H s r rnd n s')
  then show ?case using insert_entry_inv [of H s r rnd] by auto
next
  case (freeze H s g p)
  then show ?case by (intro ix_Freeze_inv)
next
  case (release H s p g s')
  then show ?case using ReleaseFrozen_inv [of H s p g] by auto
qed

section \<open>Properties\<close>

text \<open>C14: whatever insertions, freezes and releases came before, a lookup in the partition indexes
  returns exactly the newest version of the key at or below the snapshot among the entries that
  are not released (its locator, type and sequence number), and a miss when there is none: the
  Bloom filter and the search along active and frozen indexes lose nothing.\<close>

theorem index_get_newest:
  assumes "ix_reach H s" "length user_key + 8 < 2 ^ 32" "snapshot \<le> kMaxSequenceNumber"
  shows "ix_Get Slice_compare s p user_key snapshot =
    Some (map_option (\<lambda>r. (r_loc r, r_type r, r_seq r))
      (last_opt (filter (\<lambda>r. r_part r = p \<and> r_key r = user_key \<and> r_seq r \<le> snapshot) H)))"
  by (rule ix_Get_history [OF ix_reach_inv [OF assms(1)] assms(2,3)])

theorem index_get_newest_witness:
  "\<exists>s. ix_reach [\<lparr> r_part = 0, r_igen = 1, r_key = [97], r_seq = 5, r_type = 1, r_loc = replicate 16 0 \<rparr>] s \<and>
     ix_Get Slice_compare s 0 [97] 9 = Some (Some (replicate 16 0, 1, 5)) \<and> ix_Get Slice_compare s 0 [97] 4 = Some None"
proof -
  let ?r = "\<lparr> r_part = 0, r_igen = 1, r_key = [97], r_seq = 5, r_type = 1, r_loc = replicate 16 0 \<rparr>"
  have pre: "insert_pre [] new_PartitionIndexSet ?r"
    by (simp add: insert_pre_def entry_ok_def kMaxSequenceNumber_def active_of_def new_PartitionIndexSet_def word_le_nat_alt)
  obtain n s where "insert_entry new_PartitionIndexSet ?r [] = Some (n, s)"
    using insert_entry_inv [OF ix_reach_inv [OF ix_reach.init] pre] by blast
  then have reach: "ix_reach [?r] s" using ix_reach.insert [OF ix_reach.init pre] by simp
  then show ?thesis
    using index_get_newest [OF reach, of "[97]" 9 0] index_get_newest [OF reach, of "[97]" 4 0]
    by (auto simp: kMaxSequenceNumber_def word_le_nat_alt last_opt_def)
qed

section \<open>Range tombstones\<close>

text \<open>Among the entries \<open>R\<close>, the one a backward seek to the key and the snapshot finds: keys ascend, the
  versions of one key descend by sequence number.\<close>

definition nearest_before :: "IndexEntry set \<Rightarrow> bytes \<Rightarrow> u64 \<Rightarrow> IndexEntry \<Rightarrow> bool" where
  "nearest_before R uk snap r \<longleftrightarrow> r \<in> R \<and> key_seq_cmp (r_key r) (r_seq r) uk snap \<le> 0 \<and>
     (\<forall>r' \<in> R. key_seq_cmp (r_key r') (r_seq r') uk snap \<le> 0 \<longrightarrow> key_seq_cmp (r_key r') (r_seq r') (r_key r) (r_seq r) \<le> 0)"

definition covers :: "(bytes \<Rightarrow> bytes zf_result) \<Rightarrow> bytes \<Rightarrow> IndexEntry \<Rightarrow> bool" where
  "covers rd uk r \<longleftrightarrow> r_type r = kTypeRangeDeletion \<and> (case rd (r_loc r) of Inl _ \<Rightarrow> False | Inr end_key \<Rightarrow> Slice_compare uk end_key < 0)"

lemma pi_GetRangeDelCover_seek:
  "pi_GetRangeDelCover Slice_compare idx uk snap rd =
     (case sl_seek_prev (ZfKeyComparator Slice_compare) (pi_list idx) (seek_target uk snap) of
        None \<Rightarrow> None
      | Some None \<Rightarrow> Some False
      | Some (Some entry) \<Rightarrow>
          if length (entry_ik entry) < 8 \<or> Slice_compare (ExtractUserKey (entry_ik entry)) uk > 0 then Some False
          else if ExtractValueType (entry_ik entry) \<noteq> kTypeRangeDeletion then Some False
          else case rd (entry_loc entry) of Inl _ \<Rightarrow> Some False | Inr end_key \<Rightarrow> Some (Slice_compare uk end_key < 0))"
  by (auto simp: pi_GetRangeDelCover_def sl_seek_prev_def ExtractUserKey_def ExtractValueType_def
      ExtractInternalKeyFooter_def Let_def split: option.splits sum.splits)

lemma sorted_takeWhile_last:
  assumes "sorted_wrt Q xs" "takeWhile P xs = ys @ [x]" "y \<in> set xs" "P y" "\<And>a b. Q a b \<Longrightarrow> P b \<Longrightarrow> P a" "\<And>a. \<not> Q a a"
  shows "y = x \<or> Q y x"
proof -
  have y: "y \<in> set (takeWhile P xs)" using assms(1,3-5) by (induction xs) auto
  have "sorted_wrt Q (takeWhile P xs)" using assms(1) by (metis sorted_wrt_append takeWhile_dropWhile_id)
  then show ?thesis using y unfolding assms(2) by (auto simp: sorted_wrt_append)
qed

lemma pi_GetRangeDelCover_spec:
  assumes inv: "idx_inv idx R" and uk: "length uk + 8 < 2 ^ 32" and snap: "snap \<le> kMaxSequenceNumber"
  shows "pi_GetRangeDelCover Slice_compare idx uk snap rd = Some (\<exists>r. nearest_before R uk snap r \<and> covers rd uk r)"
proof -
  let ?cmp = "ZfKeyComparator Slice_compare" and ?es = "sl_elems (pi_list idx)" and ?t = "seek_target uk snap"
  have elems: "set ?es = enc ` R" and oks: "\<And>r. r \<in> R \<Longrightarrow> entry_ok r" using idx_invD [OF inv] by auto
  have sorted: "sorted_wrt (\<lambda>a b. ?cmp a b < 0) ?es" by (rule zfkey.sl_elems_sorted [OF idx_invD(1) [OF inv]])
  have total: "sl_seek_prev ?cmp (pi_list idx) ?t = Some (last_opt (takeWhile (\<lambda>x. ?cmp x ?t \<le> 0) ?es))"
    by (rule zfkey.sl_prev_total [OF idx_invD(1) [OF inv]])
  have ct: "?cmp (enc r) ?t = key_seq_cmp (r_key r) (r_seq r) uk snap" if "r \<in> R" for r by (rule cmp_target [OF oks [OF that] uk snap])
  have ce: "?cmp (enc r) (enc r') = key_seq_cmp (r_key r) (r_seq r) (r_key r') (r_seq r')" if "r \<in> R" "r' \<in> R" for r r'
    by (rule cmp_enc [OF oks [OF that(1)] oks [OF that(2)]])
  show ?thesis
  proof (cases "takeWhile (\<lambda>x. ?cmp x ?t \<le> 0) ?es" rule: rev_cases)
    case Nil
    have "?cmp (enc r) ?t > 0" if "r \<in> R" for r
    proof (rule ccontr)
      assume c: "\<not> ?thesis"
      have "enc r \<in> set ?es" using that elems by simp
      then obtain z zs where es: "?es = z # zs" by (cases ?es) auto
      then have "\<not> ?cmp z ?t \<le> 0" using Nil by (auto split: if_splits)
      moreover have "z = enc r \<or> ?cmp z (enc r) < 0" using es sorted \<open>enc r \<in> set ?es\<close> by auto
      ultimately show False using c zfkey.cmp_trans [of z "enc r" ?t] by auto
    qed
    then have "\<not> nearest_before R uk snap r" for r using ct [of r] unfolding nearest_before_def by force
    then show ?thesis using total Nil by (simp add: pi_GetRangeDelCover_seek last_opt_def)
  next
    case (snoc ys x)
    then have "x \<in> set (takeWhile (\<lambda>x. ?cmp x ?t \<le> 0) ?es)" by simp
    then have x: "x \<in> set ?es" "?cmp x ?t \<le> 0" by (auto dest: set_takeWhileD)
    then obtain r1 where r1: "r1 \<in> R" "x = enc r1" using elems by auto
    have max: "?cmp (enc r) x \<le> 0" if "r \<in> R" "?cmp (enc r) ?t \<le> 0" for r
    proof -
      have "enc r = x \<or> ?cmp (enc r) x < 0"
        by (rule sorted_takeWhile_last [OF sorted snoc]) (use that elems zfkey.cmp_trans [of _ _ ?t] in \<open>auto intro: less_imp_le\<close>)
      then show ?thesis by auto
    qed
    have near: "nearest_before R uk snap r1" using r1 x(2) max ct ce by (auto simp: nearest_before_def)
    have same: "enc r = enc r1" if "nearest_before R uk snap r" for r
    proof (rule strict_sorted_unique [OF sorted])
      have r: "r \<in> R" using that by (simp add: nearest_before_def)
      show "enc r \<in> set ?es" "enc r1 \<in> set ?es" using r r1 elems by auto
      have "?cmp (enc r) (enc r1) \<le> 0" "?cmp (enc r1) (enc r) \<le> 0"
        using that near r r1(1) ce by (auto simp: nearest_before_def)
      then show "?cmp (enc r) (enc r1) = 0" using zfkey.cmp_swap [of "enc r" "enc r1"] by linarith
    qed
    have ik: "r_seq q \<le> kMaxSequenceNumber \<Longrightarrow> ExtractValueType (MakeInternalKey (r_key q) (r_seq q) (r_type q)) = r_type q" for q by simp
    have cov: "covers rd uk r \<longleftrightarrow> covers rd uk r1" if "nearest_before R uk snap r" for r
    proof -
      have r: "r \<in> R" using that by (simp add: nearest_before_def)
      have "MakeInternalKey (r_key r) (r_seq r) (r_type r) = MakeInternalKey (r_key r1) (r_seq r1) (r_type r1)" "r_loc r = r_loc r1"
        using same [OF that] enc_parts(1,2) [OF oks [OF r]] enc_parts(1,2) [OF oks [OF r1(1)]] by metis+
      then have "r_type r = r_type r1"
        using oks [OF r] oks [OF r1(1)] ik [of r] ik [of r1] by (simp add: entry_ok_def)
      then show ?thesis using \<open>r_loc r = r_loc r1\<close> by (simp add: covers_def)
    qed
    have "Slice_compare (r_key r1) uk \<le> 0" using x(2) ct [OF r1(1)] r1(2) by (auto simp: key_seq_cmp_def split: if_splits)
    then have "pi_GetRangeDelCover Slice_compare idx uk snap rd = Some (covers rd uk r1)"
      using total snoc enc_parts [OF oks [OF r1(1)]] r1(2) oks [OF r1(1)]
      by (auto simp: pi_GetRangeDelCover_seek last_opt_def covers_def entry_ok_def split: sum.splits)
    moreover have "(\<exists>r. nearest_before R uk snap r \<and> covers rd uk r) = covers rd uk r1" using near cov by blast
    ultimately show ?thesis by simp
  qed
qed

lemma first_hit_bool:
  "\<forall>x \<in> set xs. f x = Some (if c x then Some () else None) \<Longrightarrow> first_hit f xs = Some (if \<exists>x \<in> set xs. c x then Some () else None)"
  by (induction xs) auto

lemma ix_GetRangeDelCover_history:
  assumes inv: "ix_inv H s" and uk: "length uk + 8 < 2 ^ 32" and snap: "snap \<le> kMaxSequenceNumber"
  shows "ix_GetRangeDelCover Slice_compare s p uk snap rd =
    Some (\<exists>g r. nearest_before (gen_entries H p g) uk snap r \<and> covers rd uk r)"
proof -
  note pinv = ix_invD(2) [OF inv, of p]
  let ?c = "\<lambda>idx. \<exists>r. nearest_before (gen_entries H p (pi_gen idx)) uk snap r \<and> covers rd uk r"
  have "\<forall>idx \<in> set (rev (frozen_of s p @ active_of s p)).
      map_option (\<lambda>c. if c then Some () else None) (pi_GetRangeDelCover Slice_compare idx uk snap rd) = Some (if ?c idx then Some () else None)"
  proof
    fix idx assume "idx \<in> set (rev (frozen_of s p @ active_of s p))"
    then have "idx \<in> set (ix_chain s p)" by (auto simp: ix_chain_def)
    from pi_GetRangeDelCover_spec [OF part_invD(2) [OF pinv this] uk snap]
    show "map_option (\<lambda>c. if c then Some () else None) (pi_GetRangeDelCover Slice_compare idx uk snap rd) = Some (if ?c idx then Some () else None)" by simp
  qed
  from first_hit_bool [OF this]
  have "ix_GetRangeDelCover Slice_compare s p uk snap rd = Some (\<exists>idx \<in> set (ix_chain s p). ?c idx)"
    by (auto simp: ix_GetRangeDelCover_def ix_chain_def)
  moreover have "\<exists>idx \<in> set (ix_chain s p). pi_gen idx = g" if "nearest_before (gen_entries H p g) uk snap r" for g r
  proof -
    have "r \<in> set H" "r_part r = p" "r_igen r = g" using that by (auto simp: nearest_before_def gen_entries_def)
    then show ?thesis using part_invD(3) [OF pinv] by fastforce
  qed
  ultimately have "(\<exists>idx \<in> set (ix_chain s p). ?c idx) \<longleftrightarrow> (\<exists>g r. nearest_before (gen_entries H p g) uk snap r \<and> covers rd uk r)" by metis
  then show ?thesis using \<open>ix_GetRangeDelCover Slice_compare s p uk snap rd = Some (\<exists>idx \<in> set (ix_chain s p). ?c idx)\<close> by simp
qed

text \<open>C39: what the cover test for range tombstones decides, for every index set that writes, seals and
  releases can produce. It looks, in each generation of the partition, only at the one entry a backward
  seek to the key and the snapshot finds, and answers yes exactly if one of these entries is a range
  tombstone whose end key, read through its locator, lies beyond the key. So a tombstone that covers
  the key is missed when another one begins closer to the key, and the sequence number of the
  tombstone is not compared with the one of the record it hides.\<close>

theorem range_del_cover_nearest:
  assumes "ix_reach H s" "length user_key + 8 < 2 ^ 32" "snapshot \<le> kMaxSequenceNumber"
  shows "ix_GetRangeDelCover Slice_compare s p user_key snapshot read_value =
    Some (\<exists>g r. nearest_before (gen_entries H p g) user_key snapshot r \<and> covers read_value user_key r)"
  by (rule ix_GetRangeDelCover_history [OF ix_reach_inv [OF assms(1)] assms(2,3)])

lemma nearest_of_two:
  assumes "key_seq_cmp (r_key a) (r_seq a) k n \<le> 0" "key_seq_cmp (r_key b) (r_seq b) k n \<le> 0"
    "key_seq_cmp (r_key a) (r_seq a) (r_key b) (r_seq b) \<le> 0" "\<not> key_seq_cmp (r_key b) (r_seq b) (r_key a) (r_seq a) \<le> 0"
  shows "nearest_before {a, b} k n r \<longleftrightarrow> r = b"
proof -
  have "key_seq_cmp (r_key b) (r_seq b) (r_key b) (r_seq b) \<le> 0" by (simp add: key_seq_cmp_def)
  then show ?thesis using assms unfolding nearest_before_def by blast
qed

definition tombstone :: "bytes \<Rightarrow> u64 \<Rightarrow> byte \<Rightarrow> IndexEntry" where
  "tombstone b sq x = \<lparr> r_part = 0, r_igen = 1, r_key = b, r_seq = sq, r_type = kTypeRangeDeletion, r_loc = replicate 16 x \<rparr>"

lemma tombstone_inserted:
  "map_option (\<lambda>(_, _, i). (pi_gen i, pi_mem_bytes i))
     (pi_Insert Slice_compare (new_PartitionIndex 0 1) (MakeInternalKey [97] 1 kTypeRangeDeletion) (replicate 16 1) []) = Some (1, 27)"
  by code_simp

lemma cmps:
  "Slice_compare [97] [100] = -1" "Slice_compare [98] [100] = -1" "Slice_compare [97] [98, 0] = -1" "Slice_compare [98] [98, 0] = -1"
  "Slice_compare [97] [98] = -1" "Slice_compare [98] [97] = 1" "Slice_compare [100] [122] = -1" "Slice_compare [100] [99] = 1" "Slice_compare [98, 0] [99] = -1"
  by code_simp+

lemma tombstone_bytes: "entry_bytes (enc (tombstone [98] 2 2)) = 27"
  by code_simp

theorem range_del_cover_nearest_witness:
  "\<exists>s rd. ix_reach [tombstone [97] 1 1, tombstone [98] 2 2] s \<and> covers rd [100] (tombstone [97] 1 1) \<and>
     ix_GetRangeDelCover Slice_compare s 0 [100] 9 rd = Some False \<and>
     covers rd [98, 0] (tombstone [98] 2 2) \<and> ix_GetRangeDelCover Slice_compare s 0 [98, 0] 9 rd = Some True"
proof -
  let ?r1 = "tombstone [97] 1 1" and ?r2 = "tombstone [98] 2 2" and ?rd = "\<lambda>loc. if loc = replicate 16 1 then Inr [122] else Inr [99]"
  have ok: "entry_ok ?r1" "entry_ok ?r2" by (simp_all add: entry_ok_def tombstone_def kMaxSequenceNumber_def word_le_nat_alt)
  have pre1: "insert_pre [] new_PartitionIndexSet ?r1"
    by (simp add: insert_pre_def entry_ok_def tombstone_def kMaxSequenceNumber_def active_of_def new_PartitionIndexSet_def word_le_nat_alt)
  obtain n s1 where i1: "insert_entry new_PartitionIndexSet ?r1 [] = Some (n, s1)"
    using insert_entry_inv [OF ix_reach_inv [OF ix_reach.init] pre1] by blast
  have reach1: "ix_reach [?r1] s1" using ix_reach.insert [OF ix_reach.init pre1 i1] by simp
  have act: "map (\<lambda>i. (pi_gen i, pi_mem_bytes i)) (active_of s1 0) = [(1, 27)]"
    using tombstone_inserted i1
    by (auto simp: insert_entry_def ix_Insert_def new_PartitionIndexSet_def tombstone_def finish_insert_def Let_def active_of_def split: option.splits if_splits)
  have pre2: "insert_pre [?r1] s1 ?r2"
    using ok act tombstone_bytes by (cases "active_of s1 0") (auto simp: insert_pre_def tombstone_def)
  obtain n' s where i2: "insert_entry s1 ?r2 [] = Some (n', s)" using insert_entry_inv [OF ix_reach_inv [OF reach1] pre2] by blast
  have reach: "ix_reach [?r1, ?r2] s" using ix_reach.insert [OF reach1 pre2 i2] by simp
  have g: "gen_entries [?r1, ?r2] 0 g = (if g = 1 then {?r1, ?r2} else {})" for g by (auto simp: gen_entries_def tombstone_def)
  have key: "r_key ?r1 = [97]" "r_seq ?r1 = 1" "r_key ?r2 = [98]" "r_seq ?r2 = 2" by (simp_all add: tombstone_def)
  have near: "nearest_before {?r1, ?r2} [100] 9 r \<longleftrightarrow> r = ?r2" "nearest_before {?r1, ?r2} [98, 0] 9 r \<longleftrightarrow> r = ?r2" for r
    by (rule nearest_of_two; simp add: key key_seq_cmp_def cmps)+
  have cov: "covers ?rd [100] ?r1" "\<not> covers ?rd [100] ?r2" "covers ?rd [98, 0] ?r2"
    by (simp_all add: covers_def tombstone_def cmps)
  have none: "\<not> nearest_before {} k 9 r" for k r by (simp add: nearest_before_def)
  have m: "9 \<le> kMaxSequenceNumber" by (simp add: kMaxSequenceNumber_def word_le_nat_alt)
  have ex: "(\<exists>g r. nearest_before (gen_entries [?r1, ?r2] 0 g) k 9 r \<and> covers ?rd k r) \<longleftrightarrow> (\<exists>r. nearest_before {?r1, ?r2} k 9 r \<and> covers ?rd k r)" for k
  proof
    assume "\<exists>g r. nearest_before (gen_entries [?r1, ?r2] 0 g) k 9 r \<and> covers ?rd k r"
    then obtain gg r where "nearest_before (gen_entries [?r1, ?r2] 0 gg) k 9 r" "covers ?rd k r" by blast
    then show "\<exists>r. nearest_before {?r1, ?r2} k 9 r \<and> covers ?rd k r" using g [of gg] none by (cases "gg = 1") auto
  next
    assume "\<exists>r. nearest_before {?r1, ?r2} k 9 r \<and> covers ?rd k r"
    then show "\<exists>g r. nearest_before (gen_entries [?r1, ?r2] 0 g) k 9 r \<and> covers ?rd k r" using g [of 1] by (intro exI [of _ 1]) simp
  qed
  have "ix_GetRangeDelCover Slice_compare s 0 [100] 9 ?rd = Some False"
    using range_del_cover_nearest [OF reach _ m, of "[100]" 0 ?rd] cov(2) unfolding ex near(1) by simp
  moreover have "ix_GetRangeDelCover Slice_compare s 0 [98, 0] 9 ?rd = Some True"
    using range_del_cover_nearest [OF reach _ m, of "[98, 0]" 0 ?rd] cov(3) unfolding ex near(2) by simp
  ultimately show ?thesis using reach cov by (intro exI [of _ s] exI [of _ ?rd]) simp
qed

end
