(* ===== verification/ZfContext.thy ===== *)
theory ZfContext
  imports Complex_Main ZfWalLog ZfSealedCache ZfIndexHistory
begin

text \<open>
  \<^verbatim>\<open>zeroflush/zeroflush_db.h\<close> and \<^verbatim>\<open>zeroflush_db.cc\<close>: the options, the context that owns the WAL
  manager, the sealed-file cache, the partition tables and the partition indexes, and its
  operations: routing, the write path from a batch to log and index, sealing, release, reading a
  value behind a locator, the lookup, and recovery.

  Conventions. The context is a value that operations return updated; \<open>zc_env\<close> is the store its
  \<^verbatim>\<open>Env\<close> stands for. The index loops carry the option of \<open>ZfSkipList\<close>. Random draws, the clock and
  what the surrounding engine returns (\<^verbatim>\<open>ZfSwitchMemtable\<close>, the files of level 1, the merge
  operator) are arguments. The context is the one \<^verbatim>\<open>Open\<close> leaves: the index set and the cache
  exist, so the null tests on them are not written. Byte sums are natural numbers.
\<close>

section \<open>Options\<close>

datatype RoutingMode = kHash | kStatic | kSampled | kAlignL1

definition routing_mode_byte :: "RoutingMode \<Rightarrow> byte" where
  "routing_mode_byte m = (case m of kHash \<Rightarrow> 0 | kStatic \<Rightarrow> 1 | kSampled \<Rightarrow> 2 | kAlignL1 \<Rightarrow> 3)"

text \<open>All fields of the source's options, in its order; the ratio, a \<^verbatim>\<open>double\<close>, is a rational number.\<close>

record ZeroFlushOptions =
  zo_partitions :: u32
  zo_partition_target_bytes :: u64
  zo_wal_subdir :: string
  zo_use_logger :: bool
  zo_epoch_target_bytes :: u64
  zo_max_pending_epochs :: u64
  zo_max_open_sealed_files :: u32
  zo_reclaim_sealed_files :: bool
  zo_use_zfprops :: bool
  zo_routing_mode :: RoutingMode
  zo_static_boundaries :: "bytes list"
  zo_sample_every_n_records :: u32
  zo_split_after_skewed_epochs :: u32
  zo_materialize_parallelism :: u32
  zo_install_below_l0 :: bool
  zo_merge_into_base_level :: bool
  zo_base_merge_min_ratio :: rat
  zo_l0_fallback_tolerance :: u32
  zo_skip_batching :: bool
  zo_materialize_sort_assist :: bool
  zo_csd_materialize :: bool
  zo_csd_xclbin :: string
  zo_csd_device :: u32
  zo_index_mem_budget :: u64
  zo_value_cache_bytes :: u64
  zo_l0_parallelism :: u32
  zo_max_batch_partitions :: u32

definition default_options :: ZeroFlushOptions where
  "default_options =
     \<lparr> zo_partitions = 64, zo_partition_target_bytes = 64 * 2 ^ 20, zo_wal_subdir = ''zfwal'', zo_use_logger = False,
       zo_epoch_target_bytes = 256 * 2 ^ 20, zo_max_pending_epochs = 2, zo_max_open_sealed_files = 256,
       zo_reclaim_sealed_files = True, zo_use_zfprops = True, zo_routing_mode = kHash, zo_static_boundaries = [],
       zo_sample_every_n_records = 64, zo_split_after_skewed_epochs = 0, zo_materialize_parallelism = 8,
       zo_install_below_l0 = True, zo_merge_into_base_level = False, zo_base_merge_min_ratio = 1 / 4,
       zo_l0_fallback_tolerance = 0, zo_skip_batching = True, zo_materialize_sort_assist = True,
       zo_csd_materialize = False, zo_csd_xclbin = [], zo_csd_device = 0, zo_index_mem_budget = 4 * 2 ^ 30,
       zo_value_cache_bytes = 0, zo_l0_parallelism = 8, zo_max_batch_partitions = 4 \<rparr>"

section \<open>The context\<close>

text \<open>\<open>zc_value_cache\<close> is the cache of values by locator; \<open>zc_cache_policy\<close> is what its replacement
  policy leaves of a list of entries. \<open>zc_imm\<close> lists the epochs put on the memtables that were
  switched out.\<close>

record ZeroFlushContext =
  zc_zfo :: ZeroFlushOptions
  zc_wal_dir :: string
  zc_env :: env
  zc_wal :: PartitionedWalManager
  zc_sealed :: SealedFileCache
  zc_epoch_counter :: u64
  zc_tables :: "PartitionTableSet option"
  zc_ucmp :: comparator
  zc_ucmp_name :: bytes
  zc_sampler :: "KeySampler option"
  zc_index :: PartitionIndexSet
  zc_value_cache :: "(bytes \<times> bytes) list option"
  zc_cache_policy :: "(bytes \<times> bytes) list \<Rightarrow> (bytes \<times> bytes) list"
  zc_imm :: "u64 list"

definition new_ZeroFlushContext :: "ZeroFlushOptions \<Rightarrow> string \<Rightarrow> env \<Rightarrow> comparator \<Rightarrow> bytes \<Rightarrow> ZeroFlushContext" where
  "new_ZeroFlushContext zfo wal_dir e ucmp ucmp_name =
     \<lparr> zc_zfo = zfo, zc_wal_dir = wal_dir, zc_env = e,
       zc_wal = new_WalManager wal_dir (zo_partitions zfo) (zo_partition_target_bytes zfo),
       zc_sealed = new_SealedFileCache wal_dir (zo_max_open_sealed_files zfo) (zo_reclaim_sealed_files zfo),
       zc_epoch_counter = 0, zc_tables = None, zc_ucmp = ucmp, zc_ucmp_name = ucmp_name, zc_sampler = None,
       zc_index = new_PartitionIndexSet, zc_value_cache = None, zc_cache_policy = (\<lambda>xs. xs), zc_imm = [] \<rparr>"

section \<open>Routing\<close>

definition current_table :: "ZeroFlushContext \<Rightarrow> PartitionTable option" where
  "current_table c = Option.bind (zc_tables c) set_current"

definition hash_route :: "ZeroFlushContext \<Rightarrow> bytes \<Rightarrow> u32" where
  "hash_route c user_key = Hash user_key 0 mod zo_partitions (zc_zfo c)"

definition ctx_Route :: "ZeroFlushContext \<Rightarrow> bytes \<Rightarrow> u32" where
  "ctx_Route c user_key =
     (case current_table c of Some tbl \<Rightarrow> PT_Route tbl user_key | None \<Rightarrow> hash_route c user_key)"

definition RouteWithVersion :: "ZeroFlushContext \<Rightarrow> bytes \<Rightarrow> u32 \<Rightarrow> u32" where
  "RouteWithVersion c user_key table_version =
     (case Option.bind (zc_tables c) (\<lambda>s. set_Get s table_version) of
        Some tbl \<Rightarrow> PT_Route tbl user_key
      | None \<Rightarrow> hash_route c user_key)"

section \<open>The write path\<close>

text \<open>The 16 bytes of a \<^verbatim>\<open>SlimLocator\<close>.\<close>

definition locator_bytes :: "WalRecordRef \<Rightarrow> bytes" where
  "locator_bytes ref = PutFixed32 (r_part_id ref) @ PutFixed32 (r_gen ref) @ PutFixed64 (of_nat (r_offset ref))"

definition locator_ref :: "bytes \<Rightarrow> WalRecordRef" where
  "locator_ref loc =
     \<lparr> r_part_id = DecodeFixed32 loc, r_gen = DecodeFixed32 (drop 4 loc), r_offset = unat (DecodeFixed64 (drop 8 loc)) \<rparr>"

text \<open>The draws one record consumes: the heights of its index node, and the sampler's \<^verbatim>\<open>rand\<close>.\<close>

type_synonym draws = "u32 list \<times> u64"

definition record_part :: "ZeroFlushContext \<Rightarrow> bytes \<Rightarrow> byte \<Rightarrow> u32 \<Rightarrow> u32" where
  "record_part c key t table_version =
     (if t = kTypeRangeDeletion then kRangeDelPartId else RouteWithVersion c key table_version)"

definition AddRecord ::
    "ZeroFlushContext \<Rightarrow> bytes \<Rightarrow> bytes \<Rightarrow> byte \<Rightarrow> u64 \<Rightarrow> u32 \<Rightarrow> draws \<Rightarrow> (unit zf_result \<times> ZeroFlushContext) option" where
  "AddRecord c key val t seq table_version rnd =
     (let part = record_part c key t table_version
      in case Append (zc_env c) (zc_wal c) part key val t seq of
           (Inl er, e, m) \<Rightarrow> Some (Inl er, c \<lparr> zc_env := e, zc_wal := m \<rparr>)
         | (Inr ref, e, m) \<Rightarrow>
             let c = c \<lparr> zc_env := e, zc_wal := m \<rparr>; ik = key @ PutFixed64 (PackSequenceAndType seq t)
             in case ix_Insert (zc_ucmp c) (zc_index c) part (r_gen ref) ik (locator_bytes ref) (fst rnd) of
                  None \<Rightarrow> None
                | Some (_, ix) \<Rightarrow>
                    let c = c \<lparr> zc_index := ix \<rparr>
                    in Some (Inr (),
                         if zo_routing_mode (zc_zfo c) = kSampled \<and> zc_epoch_counter c = 0
                         then c \<lparr> zc_sampler := map_option (\<lambda>s. Sample s key (snd rnd)) (zc_sampler c) \<rparr>
                         else c))"

text \<open>The records of a write batch, with the column family of each.\<close>

datatype batch_op =
    BPut u32 bytes bytes
  | BDelete u32 bytes
  | BSingleDelete u32 bytes
  | BDeleteRange u32 bytes bytes
  | BMerge u32 bytes bytes
  | BLogData bytes

text \<open>The state of \<^verbatim>\<open>ZfBatchHandler\<close>: the context, the next sequence number and the bitmap of touched
  partitions. \<^verbatim>\<open>uint64_t{1} << part\<close> is undefined in C++ from 64 on; that run ends in
  \<open>CppException\<close>.\<close>

record BatchHandler =
  bh_ctx :: ZeroFlushContext
  bh_seq :: u64
  bh_touched :: u64

definition multi_cf_error :: zf_error where
  "multi_cf_error = NotSupported ''ZeroFlush M1: multi column family not supported''"

definition touch_bit :: "u64 \<Rightarrow> u32 \<Rightarrow> u64 zf_result" where
  "touch_bit touched part =
     (if unat part < 64 then Inr (touched OR push_bit (unat part) 1) else Inl (CppException ''shift out of range''))"

text \<open>The common body: the record, the bit, the next sequence number.\<close>

definition handler_add ::
    "BatchHandler \<Rightarrow> bytes \<Rightarrow> bytes \<Rightarrow> byte \<Rightarrow> u32 \<Rightarrow> draws \<Rightarrow> (ZeroFlushContext \<Rightarrow> u64 \<Rightarrow> u64 zf_result) \<Rightarrow> (unit zf_result \<times> BatchHandler) option" where
  "handler_add b key val t table_version rnd touch =
     (case AddRecord (bh_ctx b) key val t (bh_seq b) table_version rnd of
        None \<Rightarrow> None
      | Some (Inl er, c) \<Rightarrow> Some (Inl er, b \<lparr> bh_ctx := c, bh_seq := bh_seq b + 1 \<rparr>)
      | Some (Inr _, c) \<Rightarrow>
          (case touch c (bh_touched b) of
             Inl er \<Rightarrow> Some (Inl er, b \<lparr> bh_ctx := c \<rparr>)
           | Inr w \<Rightarrow> Some (Inr (), b \<lparr> bh_ctx := c, bh_seq := bh_seq b + 1, bh_touched := w \<rparr>)))"

definition touch_key :: "bytes \<Rightarrow> u32 \<Rightarrow> ZeroFlushContext \<Rightarrow> u64 \<Rightarrow> u64 zf_result" where
  "touch_key key table_version c w = touch_bit w (RouteWithVersion c key table_version)"

definition PutCF :: "BatchHandler \<Rightarrow> u32 \<Rightarrow> bytes \<Rightarrow> bytes \<Rightarrow> u32 \<Rightarrow> draws \<Rightarrow> (unit zf_result \<times> BatchHandler) option" where
  "PutCF b cf key val tv rnd =
     (if cf \<noteq> 0 then Some (Inl multi_cf_error, b) else handler_add b key val kTypeValue tv rnd (touch_key key tv))"

definition DeleteCF :: "BatchHandler \<Rightarrow> u32 \<Rightarrow> bytes \<Rightarrow> u32 \<Rightarrow> draws \<Rightarrow> (unit zf_result \<times> BatchHandler) option" where
  "DeleteCF b cf key tv rnd =
     (if cf \<noteq> 0 then Some (Inl multi_cf_error, b) else handler_add b key [] kTypeDeletion tv rnd (touch_key key tv))"

definition SingleDeleteCF :: "BatchHandler \<Rightarrow> u32 \<Rightarrow> bytes \<Rightarrow> u32 \<Rightarrow> draws \<Rightarrow> (unit zf_result \<times> BatchHandler) option" where
  "SingleDeleteCF b cf key tv rnd =
     (if cf \<noteq> 0 then Some (Inl multi_cf_error, b) else handler_add b key [] kTypeSingleDeletion tv rnd (touch_key key tv))"

definition DeleteRangeCF :: "BatchHandler \<Rightarrow> bytes \<Rightarrow> bytes \<Rightarrow> u32 \<Rightarrow> draws \<Rightarrow> (unit zf_result \<times> BatchHandler) option" where
  "DeleteRangeCF b begin_key end_key tv rnd =
     handler_add b begin_key end_key kTypeRangeDeletion tv rnd (\<lambda>_ w. Inr (w OR push_bit 63 1))"

definition MergeCF :: "BatchHandler \<Rightarrow> bytes \<Rightarrow> bytes \<Rightarrow> u32 \<Rightarrow> draws \<Rightarrow> (unit zf_result \<times> BatchHandler) option" where
  "MergeCF b key val tv rnd = handler_add b key val kTypeMerge tv rnd (touch_key key tv)"

definition handle_op :: "BatchHandler \<Rightarrow> batch_op \<Rightarrow> u32 \<Rightarrow> draws \<Rightarrow> (unit zf_result \<times> BatchHandler) option" where
  "handle_op b op tv rnd =
     (case op of
        BPut cf key val \<Rightarrow> PutCF b cf key val tv rnd
      | BDelete cf key \<Rightarrow> DeleteCF b cf key tv rnd
      | BSingleDelete cf key \<Rightarrow> SingleDeleteCF b cf key tv rnd
      | BDeleteRange cf k1 k2 \<Rightarrow> DeleteRangeCF b k1 k2 tv rnd
      | BMerge cf key val \<Rightarrow> MergeCF b key val tv rnd
      | BLogData blob \<Rightarrow> Some (Inr (), b))"

text \<open>\<^verbatim>\<open>WriteBatch::Iterate\<close> stops at the first record whose handler fails. The draws are indexed by
  the sequence number of the record.\<close>

primrec iterate_batch :: "BatchHandler \<Rightarrow> batch_op list \<Rightarrow> u32 \<Rightarrow> (u64 \<Rightarrow> draws) \<Rightarrow> (unit zf_result \<times> BatchHandler) option" where
  "iterate_batch b [] tv rnd = Some (Inr (), b)"
| "iterate_batch b (op # ops) tv rnd =
     (case handle_op b op tv (rnd (bh_seq b)) of
        None \<Rightarrow> None
      | Some (Inl er, b) \<Rightarrow> Some (Inl er, b)
      | Some (Inr _, b) \<Rightarrow> iterate_batch b ops tv rnd)"

text \<open>The loop that turns the bitmap into the list of partitions to sync.\<close>

function touched_loop :: "nat \<Rightarrow> u64 \<Rightarrow> u32 list" where
  "touched_loop p w =
     (if p < 64 \<and> w \<noteq> 0
      then if bit w p
           then (if p = 63 then kRangeDelPartId else of_nat p) # touched_loop (p + 1) (w AND NOT (push_bit p 1))
           else touched_loop (p + 1) w
      else [])"
  by pat_completeness auto
termination by (relation "measure (\<lambda>(p, w). 64 - p)") auto

declare touched_loop.simps [simp del]

text \<open>The write group: each writer says whether it writes to the memtable and carries its batch.\<close>

primrec write_group_loop ::
    "BatchHandler \<Rightarrow> (bool \<times> batch_op list) list \<Rightarrow> u32 \<Rightarrow> (u64 \<Rightarrow> draws) \<Rightarrow> (unit zf_result \<times> BatchHandler) option" where
  "write_group_loop b [] tv rnd = Some (Inr (), b)"
| "write_group_loop b (w # ws) tv rnd =
     (if \<not> fst w then write_group_loop b ws tv rnd
      else case iterate_batch b (snd w) tv rnd of
             None \<Rightarrow> None
           | Some (Inl er, b) \<Rightarrow> Some (Inl er, b)
           | Some (Inr _, b) \<Rightarrow> write_group_loop b ws tv rnd)"

definition WriteGroupToPartitionWal ::
    "ZeroFlushContext \<Rightarrow> (bool \<times> batch_op list) list \<Rightarrow> u64 \<Rightarrow> u32 \<Rightarrow> (u64 \<Rightarrow> draws) \<Rightarrow> (u32 list zf_result \<times> ZeroFlushContext) option" where
  "WriteGroupToPartitionWal c wg first_seq tv rnd =
     (case write_group_loop \<lparr> bh_ctx = c, bh_seq = first_seq, bh_touched = 0 \<rparr> wg tv rnd of
        None \<Rightarrow> None
      | Some (Inl er, b) \<Rightarrow> Some (Inl er, bh_ctx b)
      | Some (Inr _, b) \<Rightarrow> Some (Inr (touched_loop 0 (bh_touched b)), bh_ctx b))"

definition SyncTouchedPartitions :: "ZeroFlushContext \<Rightarrow> u32 list \<Rightarrow> unit zf_result \<times> ZeroFlushContext" where
  "SyncTouchedPartitions c touched =
     (case sync_parts (zc_env c) (zc_wal c) touched of (r, e, m) \<Rightarrow> (r, c \<lparr> zc_env := e, zc_wal := m \<rparr>))"

definition InsertWriterToPartitionWal ::
    "ZeroFlushContext \<Rightarrow> batch_op list \<Rightarrow> u64 \<Rightarrow> bool \<Rightarrow> u32 \<Rightarrow> (u64 \<Rightarrow> draws) \<Rightarrow> (unit zf_result \<times> ZeroFlushContext) option" where
  "InsertWriterToPartitionWal c ops sequence sync tv rnd =
     (case iterate_batch \<lparr> bh_ctx = c, bh_seq = sequence, bh_touched = 0 \<rparr> ops tv rnd of
        None \<Rightarrow> None
      | Some (Inl er, b) \<Rightarrow> Some (Inl er, bh_ctx b)
      | Some (Inr _, b) \<Rightarrow>
          if sync \<and> bh_touched b \<noteq> 0 then Some (SyncTouchedPartitions (bh_ctx b) (touched_loop 0 (bh_touched b)))
          else Some (Inr (), bh_ctx b))"

section \<open>Reading\<close>

definition cache_value :: "bytes \<Rightarrow> bytes zf_result \<Rightarrow> ZeroFlushContext \<Rightarrow> ZeroFlushContext" where
  "cache_value loc r c =
     (case (r, zc_value_cache c) of
        (Inr v, Some vc) \<Rightarrow> c \<lparr> zc_value_cache := Some (zc_cache_policy c (AList.update loc v vc)) \<rparr>
      | _ \<Rightarrow> c)"

definition ReadValue :: "ZeroFlushContext \<Rightarrow> bytes \<Rightarrow> bytes zf_result \<times> ZeroFlushContext" where
  "ReadValue c loc =
     (if length loc \<noteq> 16 then (Inl (Corruption ''ZeroFlush: bad locator size in slim memtable entry''), c)
      else case Option.bind (zc_value_cache c) (\<lambda>vc. map_of vc loc) of
             Some v \<Rightarrow> (Inr v, c)
           | None \<Rightarrow>
               let ref = locator_ref loc
               in if \<not> HasPartition (zc_wal c) (r_part_id ref) then (Inl (Corruption ''ZeroFlush: bad part_id''), c)
                  else if r_gen ref = ActiveGen (zc_wal c) (r_part_id ref)
                  then let st = ReadRecord (zc_env c) (zc_wal c) ref in (st, cache_value loc st c)
                  else case Get (zc_env c) (zc_sealed c) (r_part_id ref) (r_gen ref) of
                         (Inl er, sf) \<Rightarrow> (Inl er, c \<lparr> zc_sealed := sf \<rparr>)
                       | (Inr f, sf) \<Rightarrow>
                           let s = ReadFromSealed (zc_env c) f ref
                           in (s, cache_value loc s (c \<lparr> zc_sealed := sf \<rparr>)))"

text \<open>The callback the index loops read values with; what it does to the caches is not carried
  from one call to the next.\<close>

definition read_callback :: "ZeroFlushContext \<Rightarrow> bytes \<Rightarrow> bytes zf_result" where
  "read_callback c loc = fst (ReadValue c loc)"

definition CheckRangeDelCover :: "ZeroFlushContext \<Rightarrow> bytes \<Rightarrow> u64 \<Rightarrow> bool option" where
  "CheckRangeDelCover c user_key snapshot =
     ix_GetRangeDelCover (zc_ucmp c) (zc_index c) kRangeDelPartId user_key snapshot (read_callback c)"

text \<open>What a lookup leaves behind: whether it is final, the status and the value when it set them,
  and the operands pushed to the merge context, newest first.\<close>

record GetResult =
  g_found :: bool
  g_status :: "unit zf_result option"
  g_value :: "bytes option"
  g_operands :: "bytes list"

definition get_miss :: GetResult where
  "get_miss = \<lparr> g_found = False, g_status = None, g_value = None, g_operands = [] \<rparr>"

definition get_not_found :: GetResult where
  "get_not_found = get_miss \<lparr> g_found := True, g_status := Some (Inl (NotFound [])) \<rparr>"

text \<open>The split of the collected versions into operands and the first plain value.\<close>

fun split_base :: "(bytes \<times> byte) list \<Rightarrow> bytes list \<times> bytes option" where
  "split_base [] = ([], None)"
| "split_base ((v, t) # vs) =
     (if t = kTypeValue then ([], Some v) else case split_base vs of (ops, base) \<Rightarrow> (v # ops, base))"

text \<open>A merge operator gets the key, the base value and the operands, oldest first, and returns a
  value or fails.\<close>

type_synonym merge_operator = "bytes \<Rightarrow> bytes \<Rightarrow> bytes list \<Rightarrow> bytes option"

definition finish_merge :: "bytes \<Rightarrow> bytes \<Rightarrow> (bytes \<times> byte) list \<Rightarrow> bytes list \<Rightarrow> merge_operator option \<Rightarrow> GetResult" where
  "finish_merge user_key newest versions operands0 merge_op =
     (case split_base versions of (pushed, base) \<Rightarrow>
        let operands = operands0 @ pushed;
            in_progress = \<lparr> g_found = False, g_status = Some (Inl MergeInProgress), g_value = Some newest, g_operands = operands \<rparr>
        in case (base, merge_op) of
             (Some b, Some f) \<Rightarrow>
               if operands \<noteq> []
               then case f user_key b (rev operands) of
                      Some v \<Rightarrow> \<lparr> g_found = True, g_status = Some (Inr ()), g_value = Some v, g_operands = operands \<rparr>
                    | None \<Rightarrow> in_progress
               else in_progress
           | _ \<Rightarrow> in_progress)"

definition GetFromPartitionIndex ::
    "ZeroFlushContext \<Rightarrow> bytes \<Rightarrow> u64 \<Rightarrow> bytes list option \<Rightarrow> merge_operator option \<Rightarrow> (GetResult \<times> ZeroFlushContext) option" where
  "GetFromPartitionIndex c user_key snapshot merge_context merge_op =
     (let part = ctx_Route c user_key
      in case ix_Get (zc_ucmp c) (zc_index c) part user_key snapshot of
           None \<Rightarrow> None
         | Some hit \<Rightarrow>
             (case CheckRangeDelCover c user_key snapshot of
                None \<Rightarrow> None
              | Some True \<Rightarrow> Some (get_not_found, c)
              | Some False \<Rightarrow>
                  (case hit of
                     None \<Rightarrow> Some (get_miss, c)
                   | Some (loc, t, seq) \<Rightarrow>
                       if t = kTypeDeletion \<or> t = kTypeSingleDeletion \<or> t = kTypeRangeDeletion then Some (get_not_found, c)
                       else
                        (case ReadValue c loc of
                           (Inl er, c) \<Rightarrow> Some (get_miss, c)
                         | (Inr v, c) \<Rightarrow>
                             (case (t = kTypeMerge, merge_context) of
                                (True, Some operands0) \<Rightarrow>
                                  (case ix_CollectVersions (zc_ucmp c) (zc_index c) part user_key snapshot (read_callback c) of
                                     None \<Rightarrow> None
                                   | Some versions \<Rightarrow> Some (finish_merge user_key v versions operands0 merge_op, c))
                              | _ \<Rightarrow> Some (\<lparr> g_found = True, g_status = Some (Inr ()), g_value = Some v, g_operands = [] \<rparr>, c))))))"

section \<open>Metadata\<close>

definition props_tables :: "ZeroFlushContext \<Rightarrow> PartitionTableSet \<Rightarrow> ZfPropsTableInfo list" where
  "props_tables c ts =
     \<lparr> ti_version = 0, ti_partitions = zo_partitions (zc_zfo c),
       ti_part_ids = map of_nat [0..<unat (zo_partitions (zc_zfo c))], ti_boundaries = [] \<rparr> #
     List.map_filter (\<lambda>v. map_option (\<lambda>tbl.
         \<lparr> ti_version = of_nat v, ti_partitions = partitions tbl, ti_part_ids = t_part_ids tbl,
           ti_boundaries = (if t_is_hash_mode tbl then []
                            else map (\<lambda>i. snd (RangeOf tbl i)) [0..<unat (partitions tbl) - 1]) \<rparr>)
         (set_Get ts (of_nat v)))
       [1..<unat (s_current_version ts) + 1]"

definition props_path :: "ZeroFlushContext \<Rightarrow> string" where "props_path c = zc_wal_dir c @ ''/ZFPROPS''"

text \<open>Write to the temporary file, sync, rename; on an error the temporary file is deleted. Closing
  the file does not fail in the store, and the result of syncing the directory is only logged.\<close>

definition write_props :: "env \<Rightarrow> string \<Rightarrow> bytes \<Rightarrow> unit zf_result \<times> env" where
  "write_props e path data =
     (let tmp = path @ ''.tmp''
      in case NewWritableFile e tmp of
           (Inl er, e) \<Rightarrow> (Inl er, e)
         | (Inr _, e) \<Rightarrow>
             (case file_Append e tmp data of
                (Inl er, e) \<Rightarrow> (Inl er, e)
              | (Inr _, e) \<Rightarrow>
                  (case file_Sync e tmp of
                     (Inl er, e) \<Rightarrow> (Inl er, e)
                   | (Inr _, e) \<Rightarrow> env_RenameFile e tmp path)))"

definition PersistZfProps :: "ZeroFlushContext \<Rightarrow> unit zf_result \<times> ZeroFlushContext" where
  "PersistZfProps c =
     (if \<not> zo_use_zfprops (zc_zfo c) then (Inr (), c)
      else case zc_tables c of
             None \<Rightarrow> (Inl (CppException ''null tables''), c)
           | Some ts \<Rightarrow>
               let data = EncodeZfPropsV2 (routing_mode_byte (zo_routing_mode (zc_zfo c))) (zc_ucmp_name c)
                            (props_tables c ts) (s_current_version ts)
               in case write_props (zc_env c) (props_path c) data of
                    (Inr _, e) \<Rightarrow> (Inr (), c \<lparr> zc_env := e \<rparr>)
                  | (Inl er, e) \<Rightarrow>
                      (Inl (IOError ''ZeroFlush: failed to write ZFPROPS v2: ''),
                       c \<lparr> zc_env := snd (env_DeleteFile e (props_path c @ ''.tmp'')) \<rparr>))"

section \<open>Sealing\<close>

definition ShouldSeal :: "ZeroFlushContext \<Rightarrow> bool" where
  "ShouldSeal c =
     (let zfo = zc_zfo c
      in if 0 < zo_index_mem_budget zfo \<and> zo_index_mem_budget zfo \<le> ix_total_mem_bytes (zc_index c) then True
         else zo_epoch_target_bytes zfo \<le> wm_total_active (zc_wal c) \<or> wm_any_over (zc_wal c))"

text \<open>The boundaries taken from the files of level 1, each with its largest user key and size.\<close>

fun l1_buckets :: "nat \<Rightarrow> u64 \<Rightarrow> (bytes \<times> u64) list \<Rightarrow> u64 \<Rightarrow> bytes list \<Rightarrow> bytes list" where
  "l1_buckets target target_bytes [] acc boundaries = boundaries"
| "l1_buckets target target_bytes ((largest, fsz) # fs) acc boundaries =
     (let acc = acc + fsz
      in if target_bytes \<le> acc \<and> fs \<noteq> [] \<and> length boundaries + 1 < target
         then l1_buckets target target_bytes fs 0 (boundaries @ [largest])
         else l1_buckets target target_bytes fs acc boundaries)"

definition l1_boundaries :: "u32 \<Rightarrow> (bytes \<times> u64) list \<Rightarrow> bytes list" where
  "l1_boundaries parts l1 =
     (let target = max 1 (unat parts)
      in if length l1 \<le> target then map fst (butlast l1)
         else l1_buckets target (sum_list (map snd l1) div of_nat target) l1 0 [])"

definition BuildL1AlignedTable :: "ZeroFlushContext \<Rightarrow> (bytes \<times> u64) list \<Rightarrow> PartitionTable option" where
  "BuildL1AlignedTable c l1 =
     (if l1 = [] then None
      else
       let boundaries = l1_boundaries (zo_partitions (zc_zfo c)) l1
       in if boundaries = [] then None
          else case Create (s_current_version (the (zc_tables c)) + 1) boundaries (Some (zc_ucmp c)) of
                 Inl _ \<Rightarrow> None
               | Inr t \<Rightarrow> Some t)"

definition install_table :: "PartitionTable \<Rightarrow> ZeroFlushContext \<Rightarrow> ZeroFlushContext" where
  "install_table t c = c \<lparr> zc_tables := map_option (\<lambda>ts. InstallNewVersion ts t) (zc_tables c) \<rparr>"

text \<open>The table learned from the sampler, and when it is learned: before the first version, in the
  first epoch, with samples.\<close>

definition learned_table :: "ZeroFlushContext \<Rightarrow> PartitionTable option" where
  "learned_table c =
     (case Option.bind (zc_sampler c) (\<lambda>s. BuildBoundaries s (zo_partitions (zc_zfo c))) of
        None \<Rightarrow> None
      | Some bs \<Rightarrow> (case Create 1 bs (Some (zc_ucmp c)) of Inl _ \<Rightarrow> None | Inr t \<Rightarrow> Some t))"

definition may_learn :: "ZeroFlushContext \<Rightarrow> u64 \<Rightarrow> bool" where
  "may_learn c epoch =
     (case (zc_sampler c, zc_tables c) of
        (Some s, Some ts) \<Rightarrow> s_current_version ts = 0 \<and> epoch = 1 \<and> \<not> sampler_empty s
      | _ \<Rightarrow> False)"

definition new_epoch :: "ZeroFlushContext \<Rightarrow> u64 \<Rightarrow> SealedEpoch" where
  "new_epoch c epoch =
     \<lparr> se_epoch = epoch, se_gens = [], se_total_bytes = 0, se_part_bytes = [], se_has_adopted_orphans = False,
       se_has_adopted_skips = False, se_sealed_at_micros = 0,
       se_table_version = (case zc_tables c of None \<Rightarrow> 0 | Some ts \<Rightarrow> s_current_version ts) \<rparr>"

definition epoch_add :: "u32 \<Rightarrow> FreezeResult \<Rightarrow> SealedEpoch \<Rightarrow> SealedEpoch" where
  "epoch_add pid fr se =
     (if fr_sealed_bytes fr > 0
      then se \<lparr> se_gens := se_gens se @ [(pid, fr_old_gen fr)],
                se_part_bytes := AList.update pid (of_nat (fr_sealed_bytes fr)) (se_part_bytes se),
                se_total_bytes := se_total_bytes se + of_nat (fr_sealed_bytes fr) \<rparr>
      else se)"

text \<open>Sealing a list of partitions. \<^verbatim>\<open>Freeze\<close> of a partition the manager does not know returns an
  uninitialised result; the loop skips it.\<close>

fun freeze_parts :: "ZeroFlushContext \<Rightarrow> u32 list \<Rightarrow> SealedEpoch \<Rightarrow> ZeroFlushContext \<times> SealedEpoch" where
  "freeze_parts c [] se = (c, se)"
| "freeze_parts c (pid # ids) se =
     (case Freeze (zc_env c) (zc_wal c) pid of
        (None, e, m) \<Rightarrow> freeze_parts (c \<lparr> zc_env := e, zc_wal := m \<rparr>) ids se
      | (Some fr, e, m) \<Rightarrow> freeze_parts (c \<lparr> zc_env := e, zc_wal := m \<rparr>) ids (epoch_add pid fr se))"

definition FreezeIndexes :: "ZeroFlushContext \<Rightarrow> (u32 \<times> u32) list \<Rightarrow> ZeroFlushContext" where
  "FreezeIndexes c gens = c \<lparr> zc_index := foldl (\<lambda>ix (part, gen). ix_Freeze ix part (gen + 1)) (zc_index c) gens \<rparr>"

definition clear_over :: "ZeroFlushContext \<Rightarrow> ZeroFlushContext" where
  "clear_over c = c \<lparr> zc_wal := ClearOverTargetFlag (zc_wal c) \<rparr>"

text \<open>The end of every seal: register the epoch with one reference, put it on the memtable and
  switch. \<open>sw\<close> is what the switch returns.\<close>

definition register_epoch :: "ZeroFlushContext \<Rightarrow> u64 \<Rightarrow> SealedEpoch \<Rightarrow> ZeroFlushContext" where
  "register_epoch c now se =
     c \<lparr> zc_sealed := AddEpochWithRecoveryAdoption (zc_sealed c) now se 1, zc_imm := zc_imm c @ [se_epoch se] \<rparr>"

definition seal_ids :: "ZeroFlushContext \<Rightarrow> u32 list" where
  "seal_ids c =
     (case current_table c of
        Some tbl \<Rightarrow> t_part_ids tbl
      | None \<Rightarrow> map of_nat [0..<unat (zo_partitions (zc_zfo c))])"

definition seal_learn :: "ZeroFlushContext \<Rightarrow> u64 \<Rightarrow> (bytes \<times> u64) list \<Rightarrow> ZeroFlushContext" where
  "seal_learn c epoch l1 =
     (let c = (if zo_routing_mode (zc_zfo c) = kSampled \<and> may_learn c epoch
               then (case learned_table c of None \<Rightarrow> c | Some t \<Rightarrow> snd (PersistZfProps (install_table t c)))
                      \<lparr> zc_sampler := map_option Clear (zc_sampler c) \<rparr>
               else c)
      in if zo_routing_mode (zc_zfo c) = kAlignL1 \<and> zc_tables c \<noteq> None
         then (case BuildL1AlignedTable c l1 of None \<Rightarrow> c | Some t \<Rightarrow> snd (PersistZfProps (install_table t c)))
         else c)"

definition SealEpochAndSwitch ::
    "ZeroFlushContext \<Rightarrow> u64 \<Rightarrow> (bytes \<times> u64) list \<Rightarrow> unit zf_result \<Rightarrow> unit zf_result \<times> ZeroFlushContext" where
  "SealEpochAndSwitch c now l1 sw =
     (let epoch = zc_epoch_counter c + 1;
          c = c \<lparr> zc_epoch_counter := epoch \<rparr>;
          (c, se) = freeze_parts c (seal_ids c) (new_epoch c epoch);
          c = FreezeIndexes (clear_over c) (se_gens se);
          c = seal_learn c epoch l1
      in (sw, register_epoch c now se))"

text \<open>The partitions of a batch: those over the target, then the largest others up to the limits.\<close>

definition size_greater :: "nat \<times> u32 \<Rightarrow> nat \<times> u32 \<Rightarrow> int" where
  "size_greater a b =
     (if fst b < fst a then -1 else if fst a < fst b then 1
      else if snd b < snd a then -1 else if snd a < snd b then 1 else 0)"

fun fill_batch :: "nat \<Rightarrow> nat \<Rightarrow> (nat \<times> u32) list \<Rightarrow> u32 list \<Rightarrow> nat \<Rightarrow> u32 list" where
  "fill_batch kMaxBatch target [] batch batch_bytes = batch"
| "fill_batch kMaxBatch target ((sz, p) # rest) batch batch_bytes =
     (if kMaxBatch \<le> length batch \<or> target \<le> batch_bytes then batch
      else fill_batch kMaxBatch target rest (batch @ [p]) (batch_bytes + sz))"

definition select_batch :: "ZeroFlushContext \<Rightarrow> u32 list" where
  "select_batch c =
     (let m = zc_wal c; zfo = zc_zfo c; kMaxBatch = max 1 (unat (zo_max_batch_partitions zfo));
          ids = AllPartitionIds m;
          batch = filter (\<lambda>p. unat (zo_partition_target_bytes zfo) \<le> ActiveSize m p) ids;
          batch_bytes = sum_list (map (ActiveSize m) batch)
      in if length batch < kMaxBatch \<and> batch_bytes < unat (zo_epoch_target_bytes zfo)
         then let rest = map (\<lambda>p. (ActiveSize m p, p)) (filter (\<lambda>p. p \<notin> set batch \<and> 0 < ActiveSize m p) ids)
              in fill_batch kMaxBatch (unat (zo_epoch_target_bytes zfo)) (sort_cmp size_greater rest) batch batch_bytes
         else batch)"

definition batch_learn :: "ZeroFlushContext \<Rightarrow> u64 \<Rightarrow> (bytes \<times> u64) list \<Rightarrow> ZeroFlushContext" where
  "batch_learn c epoch l1 =
     (if zo_routing_mode (zc_zfo c) = kSampled \<and> may_learn c epoch
      then (case learned_table c of None \<Rightarrow> c | Some t \<Rightarrow> install_table t c)
      else if zo_routing_mode (zc_zfo c) = kAlignL1 \<and> zc_tables c \<noteq> None
      then (case (case BuildL1AlignedTable c l1 of
                    Some t \<Rightarrow> Some t
                  | None \<Rightarrow> if may_learn c epoch then learned_table c else None) of
              None \<Rightarrow> c
            | Some t \<Rightarrow> install_table t c)
      else c)"

text \<open>The batch loop freezes the index of each partition with its log.\<close>

fun freeze_batch :: "ZeroFlushContext \<Rightarrow> u32 list \<Rightarrow> SealedEpoch \<Rightarrow> ZeroFlushContext \<times> SealedEpoch" where
  "freeze_batch c [] se = (c, se)"
| "freeze_batch c (p # ps) se =
     (case Freeze (zc_env c) (zc_wal c) p of
        (None, e, m) \<Rightarrow> freeze_batch (c \<lparr> zc_env := e, zc_wal := m \<rparr>) ps se
      | (Some fr, e, m) \<Rightarrow>
          freeze_batch (c \<lparr> zc_env := e, zc_wal := m, zc_index := ix_Freeze (zc_index c) p (fr_old_gen fr + 1) \<rparr>)
            ps (epoch_add p fr se))"

definition FreezeBatchPartitions ::
    "ZeroFlushContext \<Rightarrow> u64 \<Rightarrow> (bytes \<times> u64) list \<Rightarrow> unit zf_result \<Rightarrow> unit zf_result \<times> ZeroFlushContext" where
  "FreezeBatchPartitions c now l1 sw =
     (let batch = select_batch c
      in if batch = [] then (Inr (), clear_over c)
         else
          let epoch = zc_epoch_counter c + 1;
              c = c \<lparr> zc_epoch_counter := epoch \<rparr>;
              se = new_epoch c epoch;
              c = batch_learn c epoch l1;
              (c, se) = freeze_batch c batch se
          in (sw, register_epoch (clear_over c) now se))"

text \<open>The target of the single-partition seal: the first over the target, else the largest.\<close>

fun pick_target :: "nat \<Rightarrow> (u32 \<Rightarrow> nat) \<Rightarrow> u32 list \<Rightarrow> u32 \<times> nat \<Rightarrow> u32 \<times> nat" where
  "pick_target limit size_of [] best = best"
| "pick_target limit size_of (p # ps) best =
     (let sz = size_of p
      in if limit \<le> sz then (p, sz)
         else pick_target limit size_of ps (if snd best < sz then (p, sz) else best))"

definition FreezeOnePartition :: "ZeroFlushContext \<Rightarrow> u64 \<Rightarrow> unit zf_result \<Rightarrow> unit zf_result \<times> ZeroFlushContext" where
  "FreezeOnePartition c now sw =
     (case pick_target (unat (zo_partition_target_bytes (zc_zfo c))) (ActiveSize (zc_wal c))
             (AllPartitionIds (zc_wal c)) (0xFFFFFFFF, 0) of
        (target, max_bytes) \<Rightarrow>
          if target = 0xFFFFFFFF \<or> max_bytes = 0 then (Inr (), clear_over c)
          else
           let epoch = zc_epoch_counter c + 1;
               c = c \<lparr> zc_epoch_counter := epoch \<rparr>
           in case Freeze (zc_env c) (zc_wal c) target of
                (None, e, m) \<Rightarrow> (Inl (CppException ''uninitialised FreezeResult''), c \<lparr> zc_env := e, zc_wal := m \<rparr>)
              | (Some fr, e, m) \<Rightarrow>
                  let c = c \<lparr> zc_env := e, zc_wal := m, zc_index := ix_Freeze (zc_index c) target (fr_old_gen fr) \<rparr>
                  in (sw, register_epoch (clear_over c) now (epoch_add target fr (new_epoch c epoch))))"

section \<open>Release\<close>

definition ctx_HandOffSkippedToRecovery :: "ZeroFlushContext \<Rightarrow> u64 \<Rightarrow> u64 \<Rightarrow> (u32 \<times> u32) list \<Rightarrow> ZeroFlushContext" where
  "ctx_HandOffSkippedToRecovery c now epoch gens =
     (if gens = [] then c
      else
       let part_bytes =
             (case GetEpoch (zc_sealed c) epoch of
                None \<Rightarrow> []
              | Some se \<Rightarrow> foldl (\<lambda>pb (part, gen). case map_of (se_part_bytes se) part of
                                    None \<Rightarrow> pb | Some b \<Rightarrow> AList.update part b pb) [] gens)
       in c \<lparr> zc_sealed := HandOffSkippedToRecovery (zc_sealed c) now epoch gens part_bytes \<rparr>)"

fun release_indexes :: "PartitionIndexSet \<Rightarrow> (u32 \<times> u32) list \<Rightarrow> PartitionIndexSet option" where
  "release_indexes ix [] = Some ix"
| "release_indexes ix ((part, gen) # gens) = Option.bind (ReleaseFrozen ix part gen) (\<lambda>ix. release_indexes ix gens)"

definition ReleaseFrozenIndexes :: "ZeroFlushContext \<Rightarrow> u64 \<Rightarrow> ZeroFlushContext option" where
  "ReleaseFrozenIndexes c epoch =
     (case GetEpoch (zc_sealed c) epoch of
        None \<Rightarrow> Some c
      | Some se \<Rightarrow> map_option (\<lambda>ix. c \<lparr> zc_index := ix \<rparr>) (release_indexes (zc_index c) (se_gens se)))"

definition ctx_ReleaseEpoch :: "ZeroFlushContext \<Rightarrow> u64 \<Rightarrow> u64 \<Rightarrow> (u64 \<times> ZeroFlushContext) option" where
  "ctx_ReleaseEpoch c now epoch =
     map_option (\<lambda>c. case ReleaseEpoch (zc_sealed c) now epoch of (b, sf) \<Rightarrow> (b, c \<lparr> zc_sealed := sf \<rparr>))
       (ReleaseFrozenIndexes c epoch)"

definition PurgeSealedFiles :: "ZeroFlushContext \<Rightarrow> nat \<times> ZeroFlushContext" where
  "PurgeSealedFiles c =
     (case PurgePending (zc_env c) (zc_sealed c) of (n, e, sf) \<Rightarrow> (n, c \<lparr> zc_env := e, zc_sealed := sf \<rparr>))"

end
