(* ===== verification/ZfOpen.thy ===== *)
theory ZfOpen
  imports ZfContext
begin

text \<open>
  Opening and recovery of \<^verbatim>\<open>zeroflush/zeroflush_db.cc\<close>: \<^verbatim>\<open>ZeroFlushContext::Recover\<close>, which rebuilds the
  partition indexes from the WAL files, the part of \<^verbatim>\<open>zeroflush::Open\<close> that sets up the context
  (initial table, \<^verbatim>\<open>ZFPROPS\<close>, WAL manager, recovery), and \<^verbatim>\<open>DestroyDB\<close>. The native database is
  opened outside: its status, its latest sequence number and its write buffer size are arguments.
\<close>

section \<open>Recovery\<close>

text \<open>The partitions with a file or in the current table, ascending.\<close>

definition recover_parts :: "ZeroFlushContext \<Rightarrow> (u32 \<times> u32) list \<Rightarrow> u32 list" where
  "recover_parts c files = sorted_list_of_set (set (seal_ids c) \<union> fst ` set files)"

definition recover_orphans :: "u32 list \<Rightarrow> (u32 \<times> u32) list \<Rightarrow> (u32 \<times> u32) list" where
  "recover_orphans parts files = concat (map (\<lambda>p. filter (\<lambda>(pp, gg). pp = p \<and> gg < MaxGen p files) files) parts)"

definition first_seq :: "env \<Rightarrow> string \<Rightarrow> u32 \<times> u32 \<Rightarrow> u64" where
  "first_seq e dir pg =
     (case fst (Next e (new_WalScanner e dir (fst pg) (snd pg))) of None \<Rightarrow> 0 | Some (h, _, _) \<Rightarrow> h_seq h)"

text \<open>The order of replay: by the first sequence number of each file. \<^verbatim>\<open>std::sort\<close> leaves the order of
  files with the same number open; here they keep theirs.\<close>

definition seq_cmp :: "(u32 \<times> u32) \<times> u64 \<Rightarrow> (u32 \<times> u32) \<times> u64 \<Rightarrow> int" where
  "seq_cmp a b = (if snd a < snd b then -1 else if snd b < snd a then 1 else 0)"

definition replay_order :: "env \<Rightarrow> string \<Rightarrow> (u32 \<times> u32) list \<Rightarrow> (u32 \<times> u32) list" where
  "replay_order e dir files = map fst (sort_cmp seq_cmp (map (\<lambda>pg. (pg, first_seq e dir pg)) files))"

text \<open>One record: its locator names the file it lies in, its index the partition the current table
  routes its key to.\<close>

definition recover_record ::
    "ZeroFlushContext \<Rightarrow> u32 \<times> u32 \<Rightarrow> zf_rec \<Rightarrow> nat \<Rightarrow> u32 list \<Rightarrow> (u64 \<times> PartitionIndexSet) option" where
  "recover_record c pg r scan_offset rnd =
     (case r of (h, key, _) \<Rightarrow>
        let off = scan_offset - unat (ZfRecordLength (h_key_len h) (h_val_len h));
            loc = locator_bytes \<lparr> r_part_id = fst pg, r_gen = snd pg, r_offset = off \<rparr>;
            ik = key @ PutFixed64 (PackSequenceAndType (h_seq h) (h_type h));
            rpart = RouteWithVersion c key (s_current_version (the (zc_tables c)))
        in InsertCreate (zc_ucmp c) (zc_index c) rpart (snd pg) ik loc rnd)"

text \<open>The loop over one file, with the scanner's fuel; the running maximum of sequence numbers.\<close>

primrec recover_file ::
    "nat \<Rightarrow> ZeroFlushContext \<Rightarrow> u32 \<times> u32 \<Rightarrow> WalScanner \<Rightarrow> u64 \<Rightarrow> (u64 \<Rightarrow> u32 list) \<Rightarrow> (u64 \<times> ZeroFlushContext) option" where
  "recover_file 0 c pg s max_seq rnd = None"
| "recover_file (Suc n) c pg s max_seq rnd =
     (case Next (zc_env c) s of
        (None, _) \<Rightarrow> Some (max_seq, c)
      | (Some r, s) \<Rightarrow>
          (case recover_record c pg r (sc_offset s) (rnd (h_seq (fst r))) of
             None \<Rightarrow> None
           | Some (_, ix) \<Rightarrow> recover_file n (c \<lparr> zc_index := ix \<rparr>) pg s (max max_seq (h_seq (fst r))) rnd))"

fun recover_files ::
    "ZeroFlushContext \<Rightarrow> (u32 \<times> u32) list \<Rightarrow> u64 \<Rightarrow> (u64 \<Rightarrow> u32 list) \<Rightarrow> (u64 \<times> ZeroFlushContext) option" where
  "recover_files c [] max_seq rnd = Some (max_seq, c)"
| "recover_files c (pg # pgs) max_seq rnd =
     (let path = MakeFileName (zc_wal_dir c) (fst pg) (snd pg)
      in case recover_file (scan_fuel (zc_env c) path) c pg
                (new_WalScanner (zc_env c) (zc_wal_dir c) (fst pg) (snd pg)) max_seq rnd of
           None \<Rightarrow> None
         | Some (max_seq, c) \<Rightarrow> recover_files c pgs max_seq rnd)"

definition register_orphans :: "ZeroFlushContext \<Rightarrow> (u32 \<times> u32) list \<Rightarrow> ZeroFlushContext" where
  "register_orphans c files =
     (let orphans = recover_orphans (recover_parts c files) files;
          orphan_bytes = sum_list (map (\<lambda>(p, g). wal_GetFileSize (zc_env c) (zc_wal_dir c) p g) orphans)
      in if orphans = [] then c
         else c \<lparr> zc_sealed := AddRecoveryGens (zc_sealed c) orphans (of_nat orphan_bytes) \<rparr>)"

definition ensure_actives :: "ZeroFlushContext \<Rightarrow> (u32 \<times> u32) list \<Rightarrow> ZeroFlushContext" where
  "ensure_actives c files =
     c \<lparr> zc_index := foldl (\<lambda>ix p. EnsureActive ix p (MaxGen p files)) (zc_index c) (recover_parts c files) \<rparr>"

text \<open>The result carries the last sequence number the database is set to.\<close>

definition Recover :: "ZeroFlushContext \<Rightarrow> u64 \<Rightarrow> (u64 \<Rightarrow> u32 list) \<Rightarrow> (u64 zf_result \<times> ZeroFlushContext) option" where
  "Recover c latest_seq rnd =
     (case ListFiles (zc_env c) (zc_wal_dir c) of
        Inl er \<Rightarrow> Some (Inl er, c)
      | Inr files \<Rightarrow>
          let c = ensure_actives (register_orphans c files) files
          in map_option (\<lambda>(max_seq, c). (Inr (max latest_seq max_seq), c))
               (recover_files c (replay_order (zc_env c) (zc_wal_dir c) files) 0 rnd))"

section \<open>Open\<close>

definition initial_tables :: "ZeroFlushOptions \<Rightarrow> comparator \<Rightarrow> PartitionTableSet zf_result" where
  "initial_tables zfo ucmp =
     (if zo_routing_mode zfo = kStatic
      then if length (zo_static_boundaries zfo) \<noteq> unat (zo_partitions zfo - 1)
           then Inl (InvalidArgument ''ZeroFlush: static_boundaries size must be partitions - 1'')
           else res_bind (Create 0 (zo_static_boundaries zfo) (Some ucmp)) (\<lambda>pt. set_Init empty_table_set (Some pt))
      else set_Init empty_table_set (Some (CreateHash 0 (zo_partitions zfo))))"

definition initial_sampler :: "ZeroFlushOptions \<Rightarrow> comparator \<Rightarrow> KeySampler option" where
  "initial_sampler zfo ucmp =
     (if zo_routing_mode zfo = kSampled \<or> zo_routing_mode zfo = kAlignL1
      then Some (new_KeySampler (zo_sample_every_n_records zfo) ucmp) else None)"

text \<open>The tables a decoded \<^verbatim>\<open>ZFPROPS\<close> adds to the initial one; a table that cannot be rebuilt is
  skipped.\<close>

fun restore_tables :: "comparator \<Rightarrow> ZfPropsTableInfo list \<Rightarrow> PartitionTableSet \<Rightarrow> PartitionTableSet" where
  "restore_tables ucmp [] ts = ts"
| "restore_tables ucmp (ti # tis) ts =
     (if set_Get ts (ti_version ti) \<noteq> None then restore_tables ucmp tis ts
      else if ti_boundaries ti = []
      then restore_tables ucmp tis (InstallNewVersion ts (CreateHash (ti_version ti) (ti_partitions ti)))
      else case Create (ti_version ti) (ti_boundaries ti) (Some ucmp) of
             Inl _ \<Rightarrow> restore_tables ucmp tis ts
           | Inr t \<Rightarrow> restore_tables ucmp tis (InstallNewVersion ts t))"

definition check_props :: "ZeroFlushContext \<Rightarrow> ZfPropsV2 \<Rightarrow> unit zf_result" where
  "check_props c decoded =
     (let zfo = zc_zfo c; persisted_p = (case v2_tables decoded of [] \<Rightarrow> 0 | ti # _ \<Rightarrow> ti_partitions ti)
      in if persisted_p \<noteq> zo_partitions zfo
         then Inl (InvalidArgument (''ZeroFlush: ZFPROPS partitions mismatch (existing='' @ to_string (unat persisted_p) @
                '', requested='' @ to_string (unat (zo_partitions zfo)) @ ''); cannot change partitions across reopens''))
         else if v2_routing_mode decoded \<noteq> routing_mode_byte (zo_routing_mode zfo) \<and>
                 \<not> (v2_routing_mode decoded = 0 \<and> (zo_routing_mode zfo = kSampled \<or> zo_routing_mode zfo = kAlignL1))
         then Inl (InvalidArgument ''ZeroFlush: ZFPROPS routing_mode mismatch'')
         else if 2 \<le> v2_format_version decoded \<and> v2_comparator_name decoded \<noteq> [] \<and> v2_comparator_name decoded \<noteq> zc_ucmp_name c
         then Inl (InvalidArgument ''ZeroFlush: ZFPROPS comparator mismatch'')
         else Inr ())"

definition restores :: "ZfPropsTableInfo list \<Rightarrow> bool" where
  "restores tables = (case tables of [] \<Rightarrow> False | [ti] \<Rightarrow> 0 < ti_version ti | _ \<Rightarrow> True)"

text \<open>\<^verbatim>\<open>FileExists\<close> of the store; a directory exists when a file lies in it.\<close>

definition env_FileExists :: "env \<Rightarrow> string \<Rightarrow> bool" where
  "env_FileExists e path = (e_content e path \<noteq> None \<or> list_ex (\<lambda>(p, _). child_of path p \<noteq> None) (e_files e))"

definition load_props :: "ZeroFlushContext \<Rightarrow> ZeroFlushContext zf_result" where
  "load_props c =
     (if \<not> env_FileExists (zc_env c) (props_path c) then Inr c
      else
       res_bind (NewSequentialFile (zc_env c) (props_path c)) (\<lambda>_.
       res_bind (file_Read (zc_env c) (props_path c) 0 (4 * 1024 * 1024)) (\<lambda>buf.
         case DecodeZfPropsAuto buf of
           Inl er \<Rightarrow>
             if env_FileExists (zc_env c) (zc_wal_dir c) \<and>
                (case ListFiles (zc_env c) (zc_wal_dir c) of Inl _ \<Rightarrow> False | Inr files \<Rightarrow> files \<noteq> [])
             then Inl (Corruption ''ZeroFlush: ZFPROPS corrupt but zfwal non-empty'') else Inr c
         | Inr decoded \<Rightarrow>
             res_bind (check_props c decoded) (\<lambda>_.
               Inr (if restores (v2_tables decoded)
                    then c \<lparr> zc_tables := map_option (restore_tables (zc_ucmp c) (v2_tables decoded)) (zc_tables c) \<rparr>
                    else c)))))"

text \<open>The bound on memory that \<^verbatim>\<open>Open\<close> enforces, in 64-bit arithmetic.\<close>

definition memory_bound_exceeded :: "ZeroFlushOptions \<Rightarrow> u64 \<Rightarrow> bool" where
  "memory_bound_exceeded zfo write_buffer_size =
     (let k = max 1 (zo_materialize_parallelism zfo); wbs = max write_buffer_size (256 * 2 ^ 20)
      in 4 * wbs < ucast k * zo_partition_target_bytes zfo)"

definition open_props :: "ZeroFlushContext \<Rightarrow> unit zf_result \<times> ZeroFlushContext" where
  "open_props c =
     (if \<not> zo_use_zfprops (zc_zfo c) then (Inr (), c)
      else case env_CreateDirIfMissing (zc_env c) (zc_wal_dir c) of
             Inl er \<Rightarrow> (Inl er, c)
           | Inr _ \<Rightarrow> (case load_props c of Inl er \<Rightarrow> (Inl er, c) | Inr c \<Rightarrow> PersistZfProps c))"

definition open_wal :: "ZeroFlushContext \<Rightarrow> unit zf_result \<times> ZeroFlushContext" where
  "open_wal c =
     (case wal_Open (zc_env c) (zc_wal c) of
        (Inl er, m) \<Rightarrow> (Inl er, c \<lparr> zc_wal := m \<rparr>)
      | (Inr _, m) \<Rightarrow>
          (Inr (), c \<lparr> zc_wal := m,
                       zc_value_cache := (if 0 < zo_value_cache_bytes (zc_zfo c) then Some [] else zc_value_cache c) \<rparr>))"

definition zf_Open ::
    "ZeroFlushOptions \<Rightarrow> string \<Rightarrow> env \<Rightarrow> comparator \<Rightarrow> bytes \<Rightarrow> u64 \<Rightarrow> unit zf_result \<Rightarrow> u64 \<Rightarrow> (u64 \<Rightarrow> u32 list) \<Rightarrow>
     (u64 zf_result \<times> ZeroFlushContext) option" where
  "zf_Open zfo base_dir e ucmp ucmp_name write_buffer_size native latest_seq rnd =
     (let c = new_ZeroFlushContext zfo (base_dir @ ''/'' @ zo_wal_subdir zfo) e ucmp ucmp_name
      in if memory_bound_exceeded zfo write_buffer_size
         then Some (Inl (InvalidArgument (''ZeroFlush: materialize memory bound exceeded (K * '' @
                ''partition_target_bytes must be <= 4 * write_buffer_size)'')), c)
         else case native of
                Inl er \<Rightarrow> Some (Inl er, c)
              | Inr _ \<Rightarrow>
                  (case initial_tables zfo ucmp of
                     Inl er \<Rightarrow> Some (Inl er, c)
                   | Inr ts \<Rightarrow>
                       (case open_props (c \<lparr> zc_tables := Some ts, zc_sampler := initial_sampler zfo ucmp \<rparr>) of
                          (Inl er, c) \<Rightarrow> Some (Inl er, c)
                        | (Inr _, c) \<Rightarrow>
                            (case open_wal c of
                               (Inl er, c) \<Rightarrow> Some (Inl er, c)
                             | (Inr _, c) \<Rightarrow> Recover c latest_seq rnd))))"

section \<open>Destroy\<close>

text \<open>The WAL directory's part of \<^verbatim>\<open>DestroyDB\<close>: every file in it is deleted, whatever the native
  destruction returned; that status is the result.\<close>

definition zf_DestroyDB :: "string \<Rightarrow> ZeroFlushOptions \<Rightarrow> env \<Rightarrow> unit zf_result \<Rightarrow> unit zf_result \<times> env" where
  "zf_DestroyDB base_dir zfo e native =
     (let wal_dir = base_dir @ ''/'' @ zo_wal_subdir zfo
      in (native,
          case env_GetChildren e wal_dir of
            Inl _ \<Rightarrow> e
          | Inr children \<Rightarrow> foldl (\<lambda>e c. if c = ''.'' \<or> c = ''..'' then e else snd (env_DeleteFile e (wal_dir @ ''/'' @ c))) e children))"

end
