(* ===== verification/ZfContextInv.thy ===== *)
theory ZfContextInv
  imports ZfContext
begin

text \<open>
  What the context promises its users, with a fixed partition table, no I/O failures and no value
  cache: a lookup in the partition indexes returns the newest version of the key at or below the
  snapshot among the records that were written and not yet released, with its value read from the
  active log or from the sealed file, whatever writes, syncs, batch seals, hand-overs, releases,
  purges and lookups came in between; range deletions hide a key exactly as the cover test of
  \<open>ZfIndexHistory\<close> decides. The abstract state is the history of written records with
  their values; \<open>ctx_inv\<close> relates it to the context; the steps are \<open>ctx_reach\<close> of \<open>ZfContextSteps\<close>.
\<close>

section \<open>Locators\<close>

lemma length_locator [simp]: "length (locator_bytes ref) = 16"
  by (simp add: locator_bytes_def zf_len)

lemma locator_roundtrip: "r_offset ref < 2 ^ 64 \<Longrightarrow> locator_ref (locator_bytes ref) = ref"
  by (cases ref) (simp add: locator_ref_def locator_bytes_def zf_code unat_of_nat_small)

section \<open>The sealed-file cache seen from the context\<close>

lemma ex_upd:
  assumes "f k = None"
  shows "(\<exists>e G. (f(k \<mapsto> A)) e = Some G \<and> g \<in> G) \<longleftrightarrow> g \<in> A \<or> (\<exists>e G. f e = Some G \<and> g \<in> G)"
proof
  assume "g \<in> A \<or> (\<exists>e G. f e = Some G \<and> g \<in> G)"
  then show "\<exists>e G. (f(k \<mapsto> A)) e = Some G \<and> g \<in> G"
  proof
    assume "\<exists>e G. f e = Some G \<and> g \<in> G"
    then obtain e G where "f e = Some G" "g \<in> G" by blast
    then show ?thesis using assms by (intro exI [of _ e] exI [of _ G]) auto
  qed (intro exI [of _ k], simp)
qed (auto split: if_splits)

lemma AddEpoch_registered:
  assumes inv: "cache_inv s" and new: "map_of (sf_epochs s) (se_epoch e) = None"
    and fresh: "\<forall>g \<in> set (se_gens e). g \<notin> registered s \<and> sealed_FileName s (fst g) (snd g) \<notin> set (sf_pending s)"
  shows "registered (AddEpochWithRecoveryAdoption s now e n) = registered s \<union> set (se_gens e)"
    and "sf_pending (AddEpochWithRecoveryAdoption s now e n) = sf_pending s"
proof -
  obtain s1 m1 where ad: "adopt_skips (adopt_recovery (s, e)) = (s1, m1)" by fastforce
  note a = adopt_all [OF ad]
  let ?s' = "AddEpochWithRecoveryAdoption s now e n"
  let ?G = "set (se_gens e) \<union> (\<lambda>k. (key_part k, key_gen k)) ` waiting s"
  have s': "sf_epochs ?s' = sf_epochs s @ [(se_epoch e, m1\<lparr>se_sealed_at_micros := now\<rparr>)]" "sf_pending ?s' = sf_pending s" "waiting ?s' = {}"
    using new ad a by (simp_all add: AddEpochWithRecoveryAdoption_def waiting_def)
  show "sf_pending ?s' = sf_pending s" by (rule s'(2))
  have eg: "epoch_gens ?s' = (epoch_gens s)(se_epoch e \<mapsto> ?G)"
    using new a(1) by (auto simp: fun_eq_iff epoch_gens_def s' map_of_append map_add_def split: option.splits)
  have none: "epoch_gens s (se_epoch e) = None" using new by (simp add: epoch_gens_def)
  have key: "g \<in> (\<lambda>k. (key_part k, key_gen k)) ` waiting s \<longleftrightarrow> gkey g \<in> waiting s" for g
    by (cases g) force
  show "registered ?s' = registered s \<union> set (se_gens e)" (is "?L = ?R")
  proof (intro set_eqI)
    fix g
    have "g \<in> ?L \<longleftrightarrow> (\<exists>epoch G. epoch_gens ?s' epoch = Some G \<and> g \<in> G)"
      unfolding registered_alt [OF cache_invD(1) [OF AddEpoch_inv [OF inv fresh]]] by (simp add: s')
    also have "\<dots> \<longleftrightarrow> g \<in> ?G \<or> (\<exists>epoch G. epoch_gens s epoch = Some G \<and> g \<in> G)"
      unfolding eg by (rule ex_upd [of "epoch_gens s", OF none])
    also have "\<dots> \<longleftrightarrow> g \<in> ?R" unfolding registered_alt [OF cache_invD(1) [OF inv]] by (auto simp: key)
    finally show "g \<in> ?L \<longleftrightarrow> g \<in> ?R" .
  qed
qed

lemma Get_registered [simp]:
  "registered (snd (Get e s part gen)) = registered s" "sf_pending (snd (Get e s part gen)) = sf_pending s"
  "sf_epochs (snd (Get e s part gen)) = sf_epochs s"
  by (auto simp: Get_def Let_def registered_def gen_registered_def split: option.splits sum.splits prod.splits)

lemma Get_file:
  assumes "handles_inv s" "(part, gen) \<in> registered s" "e_content e (MakeFileName (sf_dir s) part gen) \<noteq> None"
    "\<forall>op. \<not> e_fail e op"
  shows "fst (Get e s part gen) = Inr (MakeFileName (sf_dir s) part gen)"
proof -
  have "f = MakeFileName (sf_dir s) part gen" if "map_of (sf_handles s) (MakeFileKey part gen) = Some f" for f
    using assms(1) that unfolding handles_inv_def sealed_FileName_def by (metis key_parts)
  then show ?thesis
    using assms(2-4) by (auto simp: Get_def Let_def registered_def NewRandomAccessFile_def sealed_FileName_def
        split: option.splits prod.splits)
qed

section \<open>The invariant\<close>

text \<open>The record behind an index entry is where its locator says: in the active log of its
  partition, or in a registered sealed file. \<open>X\<close> are the generations that a seal has frozen and
  not yet registered.\<close>

definition rec_stored :: "(u32 \<times> u32) set \<Rightarrow> ZeroFlushContext \<Rightarrow> u32 \<Rightarrow> u32 \<Rightarrow> nat \<Rightarrow> zf_rec \<Rightarrow> bool" where
  "rec_stored X c p g off rc \<longleftrightarrow>
     HasPartition (zc_wal c) p \<and>
     (if g = ActiveGen (zc_wal c) p then wal_has (zc_env c, zc_wal c) \<lparr> r_part_id = p, r_gen = g, r_offset = off \<rparr> rc
      else (p, g) \<in> registered (zc_sealed c) \<union> X \<and>
           (\<exists>data. e_content (zc_env c) (MakeFileName (zc_wal_dir c) p g) = Some data \<and> rec_at data off rc))"

definition entry_stored :: "(u32 \<times> u32) set \<Rightarrow> ZeroFlushContext \<Rightarrow> IndexEntry \<Rightarrow> bytes \<Rightarrow> bool" where
  "entry_stored X c r v \<longleftrightarrow>
     (\<exists>off rc. r_loc r = locator_bytes \<lparr> r_part_id = r_part r, r_gen = r_igen r, r_offset = off \<rparr> \<and> off < 2 ^ 64 \<and>
        read_value rc = v \<and> rec_stored X c (r_part r) (r_igen r) off rc)"

definition dirs_agree :: "ZeroFlushContext \<Rightarrow> bool" where
  "dirs_agree c \<longleftrightarrow> wm_dir (zc_wal c) = zc_wal_dir c \<and> sf_dir (zc_sealed c) = zc_wal_dir c"

definition gens_agree :: "ZeroFlushContext \<Rightarrow> bool" where
  "gens_agree c \<longleftrightarrow>
     (\<forall>p. list_all (\<lambda>idx. HasPartition (zc_wal c) p \<and> pi_gen idx = ActiveGen (zc_wal c) p) (active_of (zc_index c) p) \<and>
          list_all (\<lambda>idx. pi_gen idx < ActiveGen (zc_wal c) p) (frozen_of (zc_index c) p))"

definition gens_past :: "(u32 \<times> u32) set \<Rightarrow> ZeroFlushContext \<Rightarrow> bool" where
  "gens_past X c \<longleftrightarrow>
     (\<forall>(p, g) \<in> registered (zc_sealed c) \<union> X. HasPartition (zc_wal c) p \<and> g < ActiveGen (zc_wal c) p) \<and>
     (\<forall>f \<in> set (sf_pending (zc_sealed c)). \<exists>p g. f = MakeFileName (zc_wal_dir c) p g \<and> HasPartition (zc_wal c) p \<and> g < ActiveGen (zc_wal c) p)"

definition fixed_table :: "PartitionTable \<Rightarrow> ZeroFlushContext \<Rightarrow> bool" where
  "fixed_table t c \<longleftrightarrow> current_table c = Some t \<and> zc_ucmp c = Slice_compare \<and> zc_value_cache c = None \<and>
     zo_routing_mode (zc_zfo c) \<in> {kHash, kStatic} \<and> (\<forall>key. PT_Route t key \<noteq> kRangeDelPartId)"

text \<open>The partition of a record: range deletions have one of their own, to which no key is routed.\<close>

definition rec_part :: "PartitionTable \<Rightarrow> bytes \<Rightarrow> byte \<Rightarrow> u32" where
  "rec_part t key ty = (if ty = kTypeRangeDeletion then kRangeDelPartId else PT_Route t key)"

definition epochs_past :: "ZeroFlushContext \<Rightarrow> bool" where
  "epochs_past c \<longleftrightarrow> list_all (\<lambda>(ep, _). ep \<le> zc_epoch_counter c) (sf_epochs (zc_sealed c))"

type_synonym history = "(IndexEntry \<times> bytes) list"

definition hist_ok :: "PartitionTable \<Rightarrow> (u32 \<times> u32) set \<Rightarrow> history \<Rightarrow> ZeroFlushContext \<Rightarrow> bool" where
  "hist_ok t X H c \<longleftrightarrow> (\<forall>(r, v) \<in> set H. entry_stored X c r v \<and> r_part r = rec_part t (r_key r) (r_type r))"

definition ctx_inv :: "PartitionTable \<Rightarrow> (u32 \<times> u32) set \<Rightarrow> history \<Rightarrow> ZeroFlushContext \<Rightarrow> bool" where
  "ctx_inv t X H c \<longleftrightarrow>
     wal_inv (zc_env c, zc_wal c) \<and> ix_inv (map fst H) (zc_index c) \<and> cache_inv (zc_sealed c) \<and> handles_inv (zc_sealed c) \<and>
     dirs_agree c \<and> gens_agree c \<and> gens_past X c \<and> epochs_past c \<and> fixed_table t c \<and> hist_ok t X H c"

lemma ctx_invD:
  assumes "ctx_inv t X H c"
  shows "wal_inv (zc_env c, zc_wal c)" "ix_inv (map fst H) (zc_index c)" "cache_inv (zc_sealed c)" "handles_inv (zc_sealed c)"
    "dirs_agree c" "gens_agree c" "gens_past X c" "epochs_past c" "fixed_table t c" "hist_ok t X H c"
  using assms by (simp_all add: ctx_inv_def)

lemma hist_okD:
  assumes "hist_ok t X H c" "(r, v) \<in> set H"
  shows "entry_stored X c r v" "r_part r = rec_part t (r_key r) (r_type r)"
  using assms by (auto simp: hist_ok_def)

lemma gens_agreeD:
  assumes "gens_agree c"
  shows "idx \<in> set (active_of (zc_index c) p) \<Longrightarrow> HasPartition (zc_wal c) p"
    "idx \<in> set (active_of (zc_index c) p) \<Longrightarrow> pi_gen idx = ActiveGen (zc_wal c) p"
    "idx \<in> set (frozen_of (zc_index c) p) \<Longrightarrow> pi_gen idx < ActiveGen (zc_wal c) p"
  using assms unfolding gens_agree_def list_all_iff by blast+

lemma gens_pastD:
  assumes "gens_past X c"
  shows "(p, g) \<in> registered (zc_sealed c) \<union> X \<Longrightarrow> HasPartition (zc_wal c) p \<and> g < ActiveGen (zc_wal c) p"
    "f \<in> set (sf_pending (zc_sealed c)) \<Longrightarrow> \<exists>p g. f = MakeFileName (zc_wal_dir c) p g \<and> HasPartition (zc_wal c) p \<and> g < ActiveGen (zc_wal c) p"
  using assms unfolding gens_past_def by blast+

section \<open>Reading\<close>

lemma ReadValue_stored:
  assumes inv: "ctx_inv t {} H c" and mem: "(r, v) \<in> set H"
  shows "fst (ReadValue c (r_loc r)) = Inr v"
proof -
  obtain off rc where st: "r_loc r = locator_bytes \<lparr> r_part_id = r_part r, r_gen = r_igen r, r_offset = off \<rparr>" "off < 2 ^ 64"
    "read_value rc = v" and rs: "rec_stored {} c (r_part r) (r_igen r) off rc"
    using hist_okD(1) [OF ctx_invD(10) [OF inv] mem] unfolding entry_stored_def by blast
  have has: "HasPartition (zc_wal c) (r_part r)" using rs by (simp add: rec_stored_def)
  have ref: "locator_ref (r_loc r) = \<lparr> r_part_id = r_part r, r_gen = r_igen r, r_offset = off \<rparr>"
    using locator_roundtrip st(1,2) by simp
  have nc: "zc_value_cache c = None" using ctx_invD(9) [OF inv] by (simp add: fixed_table_def)
  have len: "length (r_loc r) = 16" by (simp add: st(1))
  have nf: "\<forall>op. \<not> e_fail (zc_env c) op" using ctx_invD(1) [OF inv] by (simp add: wal_inv_def)
  show ?thesis
  proof (cases "r_igen r = ActiveGen (zc_wal c) (r_part r)")
    case True
    then have "wal_has (zc_env c, zc_wal c) \<lparr> r_part_id = r_part r, r_gen = r_igen r, r_offset = off \<rparr> rc" using rs by (simp add: rec_stored_def)
    from wal.read_has [OF ctx_invD(1) [OF inv] this] show ?thesis
      using True st(3) has nc len ref by (simp add: ReadValue_def Let_def)
  next
    case False
    then obtain data where d: "(r_part r, r_igen r) \<in> registered (zc_sealed c)"
      "e_content (zc_env c) (MakeFileName (zc_wal_dir c) (r_part r) (r_igen r)) = Some data" "rec_at data off rc" using rs by (auto simp: rec_stored_def)
    have dir: "sf_dir (zc_sealed c) = zc_wal_dir c" using ctx_invD(5) [OF inv] by (simp add: dirs_agree_def)
    obtain g sf where get: "Get (zc_env c) (zc_sealed c) (r_part r) (r_igen r) = (g, sf)" by fastforce
    have "g = Inr (MakeFileName (zc_wal_dir c) (r_part r) (r_igen r))"
      using Get_file [OF ctx_invD(4) [OF inv] d(1) _ nf] d(2) get dir by simp
    moreover have "ReadFromSealed (zc_env c) (MakeFileName (zc_wal_dir c) (r_part r) (r_igen r))
        \<lparr> r_part_id = r_part r, r_gen = r_igen r, r_offset = off \<rparr> = Inr v"
      using ReadFromSealed_rec [OF d(2) _ d(3)] nf st(3) by simp
    ultimately show ?thesis using False has nc len ref get by (simp add: ReadValue_def Let_def)
  qed
qed

text \<open>The lookup, from the invariant: the newest version decides.\<close>

definition lookup_spec :: "(IndexEntry \<times> bytes) option \<Rightarrow> GetResult" where
  "lookup_spec newest =
     (case newest of
        None \<Rightarrow> get_miss
      | Some (r, v) \<Rightarrow>
          if r_type r = kTypeDeletion \<or> r_type r = kTypeSingleDeletion \<or> r_type r = kTypeRangeDeletion then get_not_found
          else \<lparr> g_found = True, g_status = Some (Inr ()), g_value = Some v, g_operands = [] \<rparr>)"

definition newest_version :: "history \<Rightarrow> bytes \<Rightarrow> u64 \<Rightarrow> (IndexEntry \<times> bytes) option" where
  "newest_version H user_key snapshot = 
     last_opt (filter (\<lambda>(r, _). r_type r \<noteq> kTypeRangeDeletion \<and> r_key r = user_key \<and> r_seq r \<le> snapshot) H)"

text \<open>Whether the range deletions of the history hide a key, as the code decides it: in each generation only the
  range deletion closest before the key counts, and its own sequence number does not.\<close>

definition range_covered :: "history \<Rightarrow> bytes \<Rightarrow> u64 \<Rightarrow> bool" where
  "range_covered H user_key snapshot \<longleftrightarrow>
     (\<exists>(r, v) \<in> set H. nearest_before (gen_entries (map fst H) kRangeDelPartId (r_igen r)) user_key snapshot r \<and> Slice_compare user_key v < 0)"

definition get_spec :: "history \<Rightarrow> bytes \<Rightarrow> u64 \<Rightarrow> GetResult" where
  "get_spec H user_key snapshot =
     (if range_covered H user_key snapshot then get_not_found else lookup_spec (newest_version H user_key snapshot))"

lemma last_opt_mem: "last_opt xs = Some x \<Longrightarrow> x \<in> set xs"
  by (auto simp: last_opt_def split: if_splits)

lemma last_opt_map: "last_opt (map f xs) = map_option f (last_opt xs)"
  by (simp add: last_opt_def last_map)

lemma range_del_check:
  assumes inv: "ctx_inv t {} H c" and uk: "length user_key + 8 < 2 ^ 32" and snap: "snapshot \<le> kMaxSequenceNumber"
  shows "CheckRangeDelCover c user_key snapshot = Some (range_covered H user_key snapshot)"
proof -
  have ucmp: "zc_ucmp c = Slice_compare" and route: "\<And>key. PT_Route t key \<noteq> kRangeDelPartId"
    using ctx_invD(9) [OF inv] by (simp_all add: fixed_table_def)
  have cov: "covers (read_callback c) user_key r \<longleftrightarrow> Slice_compare user_key v < 0" if "(r, v) \<in> set H" "r_part r = kRangeDelPartId" for r v
  proof -
    have "r_type r = kTypeRangeDeletion"
      using hist_okD(2) [OF ctx_invD(10) [OF inv] that(1)] that(2) route [of "r_key r"] by (auto simp: rec_part_def split: if_splits)
    then show ?thesis using ReadValue_stored [OF inv that(1)] by (simp add: covers_def read_callback_def)
  qed
  let ?N = "\<lambda>g. nearest_before (gen_entries (map fst H) kRangeDelPartId g) user_key snapshot"
  have mem: "(\<exists>v. (r, v) \<in> set H) \<and> r_part r = kRangeDelPartId \<and> r_igen r = g" if "?N g r" for g r
    using that by (force simp: nearest_before_def gen_entries_def)
  have "(\<exists>g r. ?N g r \<and> covers (read_callback c) user_key r) \<longleftrightarrow> range_covered H user_key snapshot"
  proof
    assume "\<exists>g r. ?N g r \<and> covers (read_callback c) user_key r"
    then obtain g r where gr: "?N g r" "covers (read_callback c) user_key r" by blast
    with mem [OF gr(1)] obtain v where "(r, v) \<in> set H" "r_part r = kRangeDelPartId" "r_igen r = g" by blast
    then show "range_covered H user_key snapshot" using gr cov unfolding range_covered_def by blast
  next
    assume "range_covered H user_key snapshot"
    then obtain r v where rv: "(r, v) \<in> set H" "?N (r_igen r) r" "Slice_compare user_key v < 0" by (auto simp: range_covered_def)
    then show "\<exists>g r. ?N g r \<and> covers (read_callback c) user_key r" using cov [OF rv(1)] mem [OF rv(2)] by blast
  qed
  then show ?thesis
    using ix_GetRangeDelCover_history [OF ctx_invD(2) [OF inv] uk snap] by (simp add: CheckRangeDelCover_def ucmp)
qed

lemma lookup_newest:
  assumes inv: "ctx_inv t {} H c" and uk: "length user_key + 8 < 2 ^ 32" and snap: "snapshot \<le> kMaxSequenceNumber"
    and nm: "\<forall>r v. newest_version H user_key snapshot = Some (r, v) \<longrightarrow> r_type r \<noteq> kTypeMerge"
  shows "\<exists>c'. GetFromPartitionIndex c user_key snapshot mc mo = Some (get_spec H user_key snapshot, c') \<and>
    (c' = c \<or> (\<exists>loc. c' = snd (ReadValue c loc)))"
proof -
  let ?p = "PT_Route t user_key"
  have ft: "ctx_Route c user_key = ?p" "zc_ucmp c = Slice_compare" "?p \<noteq> kRangeDelPartId"
    using ctx_invD(9) [OF inv] by (simp_all add: fixed_table_def ctx_Route_def)
  have iff: "r_part r = ?p \<and> r_key r = user_key \<and> r_seq r \<le> snapshot \<longleftrightarrow> r_type r \<noteq> kTypeRangeDeletion \<and> r_key r = user_key \<and> r_seq r \<le> snapshot"
    if "(r, v) \<in> set H" for r v
    using hist_okD(2) [OF ctx_invD(10) [OF inv] that] ft(3) by (auto simp: rec_part_def)
  have "filter (\<lambda>x. r_part (fst x) = ?p \<and> r_key (fst x) = user_key \<and> r_seq (fst x) \<le> snapshot) H =
      filter (\<lambda>(r, _). r_type r \<noteq> kTypeRangeDeletion \<and> r_key r = user_key \<and> r_seq r \<le> snapshot) H"
    by (rule filter_cong [OF refl]) (use iff [of "fst x" "snd x" for x] in \<open>simp only: split_def prod.collapse\<close>)
  then have "filter (\<lambda>r. r_part r = ?p \<and> r_key r = user_key \<and> r_seq r \<le> snapshot) (map fst H) =
      map fst (filter (\<lambda>(r, _). r_type r \<noteq> kTypeRangeDeletion \<and> r_key r = user_key \<and> r_seq r \<le> snapshot) H)"
    by (simp add: filter_map comp_def)
  then have get: "ix_Get Slice_compare (zc_index c) ?p user_key snapshot =
      Some (map_option (\<lambda>(r, v). (r_loc r, r_type r, r_seq r)) (newest_version H user_key snapshot))"
    using ix_Get_history [OF ctx_invD(2) [OF inv] uk snap, of ?p]
    by (simp add: newest_version_def last_opt_map option.map_comp comp_def split_def)
  note cover = range_del_check [OF inv uk snap]
  show ?thesis
  proof (cases "range_covered H user_key snapshot \<or> newest_version H user_key snapshot = None")
    case True
    then show ?thesis using get cover by (auto simp: GetFromPartitionIndex_def ft get_spec_def lookup_spec_def)
  next
    case False
    then obtain r v where rv: "newest_version H user_key snapshot = Some (r, v)" by auto
    then have mem: "(r, v) \<in> set H" unfolding newest_version_def by (auto dest: last_opt_mem)
    from ReadValue_stored [OF inv mem] obtain c' where rd: "ReadValue c (r_loc r) = (Inr v, c')" by (cases "ReadValue c (r_loc r)") auto
    then have c': "c' = snd (ReadValue c (r_loc r))" by simp
    have nm': "r_type r \<noteq> kTypeMerge" using nm rv by blast
    show ?thesis
    proof (cases "r_type r = kTypeDeletion \<or> r_type r = kTypeSingleDeletion \<or> r_type r = kTypeRangeDeletion")
      case True
      then show ?thesis using get cover False rv by (auto simp: GetFromPartitionIndex_def ft get_spec_def lookup_spec_def)
    next
      case nd: False
      then have "GetFromPartitionIndex c user_key snapshot mc mo = Some (get_spec H user_key snapshot, c')"
        using get rv rd nm' cover False by (simp add: GetFromPartitionIndex_def ft get_spec_def lookup_spec_def)
      then show ?thesis using c' by blast
    qed
  qed
qed

section \<open>Writing and syncing\<close>

lemma HasPartition_Some: "HasPartition m p \<longleftrightarrow> (\<exists>q. find_part m p = Some q)"
  by (simp add: HasPartition_def)

text \<open>What appends and syncs leave alone: directories, generations, partitions, and all files but
  the active one.\<close>

definition wal_frame :: "env \<Rightarrow> PartitionedWalManager \<Rightarrow> env \<Rightarrow> PartitionedWalManager \<Rightarrow> bool" where
  "wal_frame e m e' m' \<longleftrightarrow>
     wm_dir m' = wm_dir m \<and> (\<forall>p. ActiveGen m' p = ActiveGen m p) \<and> (\<forall>p. HasPartition m' p = HasPartition m p) \<and>
     (\<forall>p g. HasPartition m p \<and> g \<noteq> ActiveGen m p \<longrightarrow>
        e_content e' (MakeFileName (wm_dir m) p g) = e_content e (MakeFileName (wm_dir m) p g))"

lemma wal_frame_refl [simp]: "wal_frame e m e m"
  by (simp add: wal_frame_def)

lemma wal_frame_trans: "wal_frame e m e1 m1 \<Longrightarrow> wal_frame e1 m1 e2 m2 \<Longrightarrow> wal_frame e m e2 m2"
  by (simp add: wal_frame_def)

lemma wal_frame_part:
  assumes wf: "mgr_wf e m" and p: "find_part m part = Some p" "find_part m' part = Some p'" and gen: "pt_gen p' = pt_gen p"
    and of: "only_file (FileName (wm_dir m) p) e e'" and dir: "wm_dir m' = wm_dir m"
    and other: "\<And>q. q \<noteq> part \<Longrightarrow> find_part m' q = find_part m q"
  shows "wal_frame e m e' m'"
proof -
  have id: "pt_part_id p = part" using wf p(1) by (auto simp: mgr_wf_def)
  have "ActiveGen m' q = ActiveGen m q" "HasPartition m' q = HasPartition m q" for q
    using p gen other [of q] by (cases "q = part"; simp add: ActiveGen_def HasPartition_def)+
  moreover have "e_content e' (MakeFileName (wm_dir m) q g) = e_content e (MakeFileName (wm_dir m) q g)" if "g \<noteq> ActiveGen m q" for q g
  proof -
    have "MakeFileName (wm_dir m) q g \<noteq> FileName (wm_dir m) p" using that p(1) id by (auto simp: FileName_def ActiveGen_def)
    then show ?thesis using of by (simp add: only_file_def)
  qed
  ultimately show ?thesis using dir by (simp add: wal_frame_def)
qed

lemma Append_frame:
  assumes res: "Append e m part key v t seq = (res, e', m')" and inv: "wal_inv (e, m)" and has: "HasPartition m part"
  shows "wal_frame e m e' m'"
proof -
  have wf: "mgr_wf e m" using inv by (simp add: wal_inv_def)
  obtain p where p: "find_part m part = Some p" using has by (auto simp: HasPartition_Some)
  let ?rec = "EncodeZfRecord (append_header key v t seq) key v"
  have "append_to e m part p ?rec = (res, e', m')" using res p by (simp add: Append_def Let_def)
  then show ?thesis
    by (rule append_to_spec [OF _ wf _ disjI1 [OF p]]) (use inv in \<open>simp add: wal_inv_def\<close>, rule wal_frame_part [OF wf p])
qed

lemma Sync_frame:
  assumes res: "Sync e m part = (r, e', m')" and inv: "wal_inv (e, m)"
  shows "wal_frame e m e' m'"
proof (cases "find_part m part")
  case None
  then show ?thesis using res by (simp add: Sync_def)
next
  case (Some p)
  have wf: "mgr_wf e m" "whole_appends e" using inv by (auto simp: wal_inv_def)
  show ?thesis
  proof (rule Sync_spec [OF res wf(1) Some disjI1 [OF wf(2)]])
    fix p' assume "part_keeps (wm_dir m) e p e' p'" "m' = set_part m part p'"
    then show ?thesis by (intro wal_frame_part [OF wf(1) Some, of m' p']) (simp_all add: part_keeps_def)
  qed
qed

text \<open>A step of the log that keeps records and frame keeps what is stored.\<close>

lemma rec_stored_wal:
  assumes frame: "wal_frame (zc_env c) (zc_wal c) (zc_env c') (zc_wal c')" and dirs: "dirs_agree c" "zc_wal_dir c' = zc_wal_dir c"
    and sealed: "zc_sealed c' = zc_sealed c"
    and has: "\<And>ref r. wal_has (zc_env c, zc_wal c) ref r \<Longrightarrow> wal_has (zc_env c', zc_wal c') ref r"
    and st: "rec_stored X c p g off rc"
  shows "rec_stored X c' p g off rc"
  using assms by (auto simp: rec_stored_def wal_frame_def dirs_agree_def split: if_splits)

lemma ctx_inv_wal:
  assumes inv: "ctx_inv t X H c" and frame: "wal_frame (zc_env c) (zc_wal c) (zc_env c') (zc_wal c')"
    and wal: "wal_inv (zc_env c', zc_wal c')" and c': "c' = c\<lparr>zc_env := e', zc_wal := m'\<rparr>"
    and has: "\<And>ref r. wal_has (zc_env c, zc_wal c) ref r \<Longrightarrow> wal_has (zc_env c', zc_wal c') ref r"
  shows "ctx_inv t X H c'"
proof -
  have f: "ActiveGen m' p = ActiveGen (zc_wal c) p" "HasPartition m' p = HasPartition (zc_wal c) p" "wm_dir m' = wm_dir (zc_wal c)" for p
    using frame c' by (simp_all add: wal_frame_def)
  have "entry_stored X c' r v" if "entry_stored X c r v" for r v
    using that rec_stored_wal [OF frame ctx_invD(5) [OF inv] _ _ has] c' unfolding entry_stored_def by fastforce
  then have "hist_ok t X H c'" using ctx_invD(10) [OF inv] by (auto simp: hist_ok_def)
  moreover have "dirs_agree c'" "gens_agree c'" "gens_past X c'" "epochs_past c'" "fixed_table t c'"
    using ctx_invD(5-9) [OF inv] f by (simp_all add: c' dirs_agree_def gens_agree_def gens_past_def epochs_past_def fixed_table_def current_table_def)
  ultimately show ?thesis using ctx_invD [OF inv] wal f by (simp add: ctx_inv_def c')
qed

lemma Sync_ctx_inv:
  assumes inv: "ctx_inv t X H c" and res: "SyncTouchedPartitions c parts = (r, c')"
  shows "ctx_inv t X H c'"
proof -
  have "ctx_inv t X H (c\<lparr>zc_env := e', zc_wal := m'\<rparr>)" if "sync_parts (zc_env c) (zc_wal c) parts = (r, e', m')" "ctx_inv t X H c" for c r e' m'
    using that
  proof (induction parts arbitrary: c)
    case (Cons part parts)
    obtain r1 e1 m1 where s: "Sync (zc_env c) (zc_wal c) part = (r1, e1, m1)" by (metis prod_cases3)
    let ?c1 = "c\<lparr>zc_env := e1, zc_wal := m1\<rparr>"
    note w = ctx_invD(1) [OF Cons.prems(2)]
    have c1: "ctx_inv t X H ?c1"
      by (rule ctx_inv_wal [OF Cons.prems(2), where e' = e1 and m' = m1]) (use Sync_frame [OF s w] Sync_inv [OF s w] in simp_all)
    show ?case
    proof (cases r1)
      case (Inl er)
      then show ?thesis using Cons.prems(1) s c1 by simp
    next
      case (Inr u)
      then have "sync_parts (zc_env ?c1) (zc_wal ?c1) parts = (r, e', m')" using Cons.prems(1) s by simp
      from Cons.IH [OF this c1] show ?thesis by simp
    qed
  qed auto
  then show ?thesis using res inv by (auto simp: SyncTouchedPartitions_def split: prod.splits)
qed

text \<open>What a write brings: a record that fits, above all earlier sequence numbers, and room in the
  counters.\<close>

definition write_pre :: "PartitionTable \<Rightarrow> history \<Rightarrow> ZeroFlushContext \<Rightarrow> bytes \<Rightarrow> bytes \<Rightarrow> byte \<Rightarrow> u64 \<Rightarrow> bool" where
  "write_pre t H c key v ty seq \<longleftrightarrow>
     28 + length key + length v < 2 ^ 32 \<and> seq \<le> kMaxSequenceNumber \<and> list_all (\<lambda>(r, _). r_seq r < seq) H \<and>
     ActiveSize (zc_wal c) (rec_part t key ty) < 2 ^ 64 \<and>
     list_all (\<lambda>idx. unat (pi_mem_bytes idx) + length key + 64 < 2 ^ 64) (active_of (zc_index c) (rec_part t key ty))"

definition write_entry :: "PartitionTable \<Rightarrow> ZeroFlushContext \<Rightarrow> bytes \<Rightarrow> bytes \<Rightarrow> byte \<Rightarrow> u64 \<Rightarrow> IndexEntry \<times> bytes" where
  "write_entry t c key v ty seq =
     (let p = rec_part t key ty; g = ActiveGen (zc_wal c) p
      in (\<lparr> r_part = p, r_igen = g, r_key = key, r_seq = seq, r_type = ty,
            r_loc = locator_bytes \<lparr> r_part_id = p, r_gen = g, r_offset = ActiveSize (zc_wal c) p \<rparr> \<rparr>,
          if ty = kTypeDeletion then [] else v))"

lemma VarintLength_le: "unat v < 128 ^ Suc k \<Longrightarrow> VarintLength v \<le> Suc k"
proof (induction k arbitrary: v)
  case 0
  then have "\<not> 128 \<le> v" by (simp add: word_le_nat_alt)
  then show ?case by (subst VarintLength.simps) simp
next
  case (Suc k)
  have "unat (drop_bit 7 v) = unat v div 128" by (simp add: drop_bit_eq_div unat_div)
  then have "unat (drop_bit 7 v) < 128 ^ Suc k" using Suc.prems by (simp add: less_mult_imp_div_less mult.commute)
  from Suc.IH [OF this] show ?case by (subst VarintLength.simps) auto
qed

lemma VarintLength_u64: "VarintLength v \<le> 10"
  using VarintLength_le [of v 9] unat_u64_less [of v] by simp

lemma unat_of_nat_le: "unat (of_nat n :: 'a::len word) \<le> n"
  by (simp add: unat_of_nat take_bit_eq_mod)

lemma entry_bytes_le:
  assumes "entry_ok r"
  shows "entry_bytes (enc r) < length (r_key r) + 64"
proof -
  have len: "length (MakeInternalKey (r_key r) (r_seq r) (r_type r)) = length (r_key r) + 8" "length (r_loc r) = 16"
    using assms by (simp_all add: entry_ok_def)
  have "entry_bytes (enc r) = unat (entry_size (MakeInternalKey (r_key r) (r_seq r) (r_type r)) (r_loc r))"
    using enc_parts [OF assms] by (simp add: entry_bytes_def)
  also have "\<dots> \<le> VarintLength (ucast (of_nat (length (r_key r) + 8) :: u32)) + unat (of_nat (length (r_key r) + 8) :: u32) +
      VarintLength (ucast (of_nat 16 :: u32)) + unat (of_nat 16 :: u32)"
    unfolding entry_size_def Let_def len by (rule unat_of_nat_le)
  also have "\<dots> \<le> 10 + (length (r_key r) + 8) + 10 + 16"
    by (intro add_mono VarintLength_u64 unat_of_nat_le)
  finally show ?thesis by simp
qed

lemma pi_Insert_gen: "pi_Insert ucmp idx ik loc rnd = Some (ok, n, idx') \<Longrightarrow> pi_gen idx' = pi_gen idx"
  by (auto simp: pi_Insert_def Let_def split: option.splits if_splits)

lemma ix_Insert_gens:
  assumes ins: "ix_Insert ucmp s p gen ik loc rnd = Some (n, s')" and act: "list_all (\<lambda>idx. pi_gen idx = gen) (active_of s p)"
  shows "frozen_of s' q = frozen_of s q" "map pi_gen (active_of s' q) = (if q = p then [gen] else map pi_gen (active_of s q))"
proof -
  let ?idx = "case map_of (ix_active s) p of Some idx \<Rightarrow> idx | None \<Rightarrow> new_PartitionIndex p gen"
  let ?s0 = "case map_of (ix_active s) p of Some _ \<Rightarrow> s | None \<Rightarrow> emplace_bloom p (set_active p ?idx s)"
  have gen: "pi_gen ?idx = gen" using act by (auto simp: active_of_def new_PartitionIndex_def split: option.splits)
  have fi: "finish_insert ucmp ?s0 p ik loc rnd ?idx (set_active p) = Some (n, s')"
    using ins gen by (auto simp: ix_Insert_def Let_def split: option.splits)
  then obtain ok added idx' where pi: "pi_Insert ucmp ?idx ik loc rnd = Some (ok, added, idx')"
    by (auto simp: finish_insert_def split: option.splits)
  have s0: "frozen_of ?s0 q = frozen_of s q" "q \<noteq> p \<Longrightarrow> active_of ?s0 q = active_of s q"
    by (auto split: option.splits)
  have "frozen_of s' q = frozen_of (set_active p idx' ?s0) q \<and> active_of s' q = active_of (set_active p idx' ?s0) q"
    using fi pi by (auto simp: finish_insert_def Let_def split: if_splits)
  then show "frozen_of s' q = frozen_of s q" "map pi_gen (active_of s' q) = (if q = p then [gen] else map pi_gen (active_of s q))"
    using s0 pi_Insert_gen [OF pi] gen by auto
qed

lemma AddRecord_managed:
  assumes inv: "ctx_inv t {} H c" and pre: "write_pre t H c key v ty seq" and tv: "Option.bind (zc_tables c) (\<lambda>s. set_Get s tv) = Some t"
    and has: "HasPartition (zc_wal c) (rec_part t key ty)"
  shows "\<exists>c'. AddRecord c key v ty seq tv rnd = Some (Inr (), c') \<and> ctx_inv t {} (H @ [write_entry t c key v ty seq]) c'"
proof -
  let ?p = "rec_part t key ty" and ?m = "zc_wal c" and ?e = "zc_env c"
  let ?ref = "\<lparr> r_part_id = ?p, r_gen = ActiveGen ?m ?p, r_offset = ActiveSize ?m ?p \<rparr>"
  obtain r v' where we: "write_entry t c key v ty seq = (r, v')" by fastforce
  have r: "r = \<lparr> r_part = ?p, r_igen = ActiveGen ?m ?p, r_key = key, r_seq = seq, r_type = ty, r_loc = locator_bytes ?ref \<rparr>"
    and v': "v' = read_value (append_header key v ty seq, key, v)"
    using we by (auto simp: write_entry_def Let_def read_value_def append_header_def)
  have part: "record_part c key ty tv = ?p" using tv by (simp add: record_part_def rec_part_def RouteWithVersion_def)
  obtain res e1 m1 where ap: "Append ?e ?m ?p key v ty seq = (res, e1, m1)" by (metis prod_cases3)
  note w = ctx_invD(1) [OF inv]
  note sp = Append_spec [OF ap w]
  have "is_ok res" using sp(4) has by (simp add: HasPartition_def)
  then obtain ref where res: "res = Inr ref" by (cases res) auto
  have ref: "ref = ?ref" using sp(5) [OF res] by (cases ref) simp
  let ?c1 = "c\<lparr>zc_env := e1, zc_wal := m1\<rparr>"
  have fr: "wal_frame ?e ?m e1 m1" by (rule Append_frame [OF ap w has])
  have c1: "ctx_inv t {} H ?c1"
    by (rule ctx_inv_wal [OF inv, where e' = e1 and m' = m1]) (use fr sp(1,2) in simp_all)
  have len: "28 + length key + length v < 2 ^ 32" using pre by (simp add: write_pre_def)
  have stored: "rec_stored {} ?c1 ?p (ActiveGen ?m ?p) (ActiveSize ?m ?p) (append_header key v ty seq, key, v)"
    using sp(3) [OF len res] fr has ref by (simp add: rec_stored_def wal_frame_def)
  have ok: "entry_ok r" using pre len by (simp add: entry_ok_def r write_pre_def)
  have ipre: "insert_pre (map fst H) (zc_index c) r"
    unfolding insert_pre_def
  proof (intro conjI)
    show "list_all (\<lambda>r'. r_seq r' < r_seq r) (map fst H)" using pre by (auto simp: write_pre_def r list_all_iff)
    have "pi_gen idx = r_igen r \<and> unat (pi_mem_bytes idx) + entry_bytes (enc r) < 2 ^ 64" if "idx \<in> set (active_of (zc_index c) ?p)" for idx
    proof -
      have "unat (pi_mem_bytes idx) + length key + 64 < 2 ^ 64" using pre that by (auto simp: write_pre_def list_all_iff)
      then show ?thesis
        using gens_agreeD(2) [OF ctx_invD(6) [OF inv] that] entry_bytes_le [OF ok] by (simp add: r)
    qed
    then show "list_all (\<lambda>idx. pi_gen idx = r_igen r \<and> unat (pi_mem_bytes idx) + entry_bytes (enc r) < 2 ^ 64) (active_of (zc_index c) (r_part r))"
      by (simp add: list_all_iff r)
  qed (rule ok)
  obtain n ix where ix: "insert_entry (zc_index c) r (fst rnd) = Some (n, ix)" "ix_inv (map fst H @ [r]) ix"
    using insert_entry_inv [OF ctx_invD(2) [OF inv] ipre] by blast
  let ?c2 = "?c1\<lparr>zc_index := ix\<rparr>"
  have mode: "zo_routing_mode (zc_zfo c) \<noteq> kSampled" and ucmp: "zc_ucmp c = Slice_compare"
    using ctx_invD(9) [OF inv] by (auto simp: fixed_table_def)
  have "AddRecord c key v ty seq tv rnd = Some (Inr (), ?c2)"
    using ap res ref ix(1) mode ucmp by (simp add: AddRecord_def part Let_def insert_entry_def r MakeInternalKey_def)
  moreover have "ctx_inv t {} (H @ [(r, v')]) ?c2"
    unfolding ctx_inv_def
  proof (intro conjI)
    have act: "list_all (\<lambda>idx. pi_gen idx = r_igen r) (active_of (zc_index c) (r_part r))"
      using ipre by (auto simp: insert_pre_def list_all_iff)
    note g = ix_Insert_gens [OF ix(1) [unfolded insert_entry_def] act]
    show "gens_agree ?c2"
      unfolding gens_agree_def
    proof (intro allI conjI)
      fix q
      have all: "HasPartition m1 q \<and> pi_gen idx = ActiveGen m1 q" if "idx \<in> set (active_of ix q)" for idx
      proof -
        have "pi_gen idx \<in> set (map pi_gen (active_of ix q))" using that by simp
        then show ?thesis
          using g(2) [of q] gens_agreeD(1,2) [OF ctx_invD(6) [OF c1], of _ q] has fr by (auto simp: r wal_frame_def split: if_splits)
      qed
      then show "list_all (\<lambda>idx. HasPartition (zc_wal ?c2) q \<and> pi_gen idx = ActiveGen (zc_wal ?c2) q) (active_of (zc_index ?c2) q)"
        by (simp add: list_all_iff)
      show "list_all (\<lambda>idx. pi_gen idx < ActiveGen (zc_wal ?c2) q) (frozen_of (zc_index ?c2) q)"
        using gens_agreeD(3) [OF ctx_invD(6) [OF c1], of _ q] g(1) [of q] by (simp add: list_all_iff)
    qed
    have "rec_stored {} ?c2 p' g' off rc = rec_stored {} ?c1 p' g' off rc" for p' g' off rc by (simp add: rec_stored_def)
    then have es: "entry_stored {} ?c2 r' w = entry_stored {} ?c1 r' w" for r' w by (simp add: entry_stored_def)
    have "entry_stored {} ?c1 r v'"
      unfolding entry_stored_def using stored pre v' by (intro exI conjI) (simp_all add: r write_pre_def)
    then show "hist_ok t {} (H @ [(r, v')]) ?c2" using ctx_invD(10) [OF c1] by (auto simp: hist_ok_def es r)
  qed (use c1 ix(2) in \<open>simp_all add: ctx_inv_def dirs_agree_def gens_past_def epochs_past_def fixed_table_def current_table_def\<close>)
  ultimately show ?thesis using we by auto
qed

text \<open>The first range deletion creates its partition.\<close>

lemma ensure_simps [simp]:
  "HasPartition (EnsurePartition m p) q \<longleftrightarrow> q = p \<or> HasPartition m q" "ActiveGen (EnsurePartition m p) q = ActiveGen m q"
  "ActiveSize (EnsurePartition m p) q = ActiveSize m q" "wm_dir (EnsurePartition m p) = wm_dir m"
  by (auto simp: EnsurePartition_def HasPartition_def ActiveGen_def ActiveSize_def new_Partition_def split: option.splits)

lemma ensure_ctx_inv:
  assumes inv: "ctx_inv t X H c"
  shows "ctx_inv t X H (c\<lparr>zc_wal := EnsurePartition (zc_wal c) p\<rparr>)"
proof -
  let ?c = "c\<lparr>zc_wal := EnsurePartition (zc_wal c) p\<rparr>"
  note w = EnsurePartition_inv [OF ctx_invD(1) [OF inv], where part = p]
  have "rec_stored X ?c q g off rc" if "rec_stored X c q g off rc" for q g off rc
    using that w(2) by (auto simp: rec_stored_def split: if_splits)
  then have "entry_stored X ?c r v" if "entry_stored X c r v" for r v using that unfolding entry_stored_def by blast
  then have "hist_ok t X H ?c" using ctx_invD(10) [OF inv] by (auto simp: hist_ok_def)
  moreover have "gens_agree ?c" using ctx_invD(6) [OF inv] by (auto simp: gens_agree_def list_all_iff)
  moreover have "gens_past X ?c" using ctx_invD(7) [OF inv] by (fastforce simp: gens_past_def)
  ultimately show ?thesis
    using ctx_invD [OF inv] w(1) by (simp add: ctx_inv_def dirs_agree_def epochs_past_def fixed_table_def current_table_def)
qed

lemma AddRecord_ensure: "AddRecord (c\<lparr>zc_wal := EnsurePartition (zc_wal c) kRangeDelPartId\<rparr>) key v kTypeRangeDeletion seq tv rnd = AddRecord c key v kTypeRangeDeletion seq tv rnd"
proof -
  have "Append e (EnsurePartition m kRangeDelPartId) kRangeDelPartId key v t seq = Append e m kRangeDelPartId key v t seq" for e m t
    by (simp add: Append_def Let_def EnsurePartition_def split: option.splits)
  then show ?thesis by (auto simp: AddRecord_def record_part_def Let_def split: prod.split sum.split option.split)
qed

lemma AddRecord_ctx_inv:
  assumes inv: "ctx_inv t {} H c" and pre: "write_pre t H c key v ty seq" and tv: "Option.bind (zc_tables c) (\<lambda>s. set_Get s tv) = Some t"
    and has: "ty = kTypeRangeDeletion \<or> HasPartition (zc_wal c) (PT_Route t key)"
  shows "\<exists>c'. AddRecord c key v ty seq tv rnd = Some (Inr (), c') \<and> ctx_inv t {} (H @ [write_entry t c key v ty seq]) c'"
proof (cases "ty = kTypeRangeDeletion")
  case True
  let ?c = "c\<lparr>zc_wal := EnsurePartition (zc_wal c) kRangeDelPartId\<rparr>"
  have "write_pre t H ?c key v ty seq" "write_entry t ?c key v ty seq = write_entry t c key v ty seq"
    using pre by (simp_all add: write_pre_def write_entry_def Let_def)
  then show ?thesis
    using AddRecord_managed [OF ensure_ctx_inv [OF inv], of kRangeDelPartId key v ty seq tv rnd] tv True
    by (simp add: rec_part_def AddRecord_ensure)
next
  case False
  then show ?thesis using AddRecord_managed [OF inv pre tv] has by (simp add: rec_part_def)
qed

end
