(* ===== verification/ZfRecovery.thy ===== *)
theory ZfRecovery
  imports ZfOpen ZfContextInv
begin

text \<open>
  What recovery promises. A directory that a crash left behind holds, per partition and generation, a file
  of complete records followed by at most the front of one more record. Opening the manager and recovering
  rebuilds a context that satisfies the invariant of \<open>ZfContextInv\<close> with the records of the files as its
  history, so lookups see exactly what was on disk.
\<close>

section \<open>Scanning a file with a torn tail\<close>

text \<open>What a crash leaves behind the last complete record: a proper front part of a record, or nothing.\<close>

definition torn :: "bytes \<Rightarrow> bool" where
  "torn xs \<longleftrightarrow> xs = [] \<or> (\<exists>r ys. rec_ok r \<and> rec_bytes r = xs @ ys \<and> ys \<noteq> [])"

lemma torn_total:
  assumes "rec_ok r" "rec_bytes r = xs @ ys" "24 \<le> length p" "xs = p @ q"
  shows "record_total p = length (rec_bytes r)" "length (rec_bytes r) \<le> kScanChunkSize"
  using assms record_total_rec [of r p "[]" "q @ ys"] by (cases r, auto simp: rec_ok_def)+

lemma Next_body_torn:
  assumes ready: "scan_ready e s" and rem: "sc_rem e s = xs" and r: "rec_ok r" "rec_bytes r = xs @ ys" "ys \<noteq> []"
    and av: "24 \<le> length (sc_avail s)"
  shows "\<exists>s'. Next_body e s = (None, s')"
proof -
  have avail: "\<exists>q. xs = sc_avail s @ q" using rem by (auto simp: sc_rem_def)
  then have tot: "record_total (sc_avail s) = length (rec_bytes r)" using torn_total [OF r(1,2) av] by blast
  obtain pos where pos: "sc_file s = Some pos" using ready by (auto simp: scan_ready_def)
  obtain s1 where s1: "Refill e s = (True, s1)" "scan_ready e s1" by (rule Refill_ready [OF ready])
  note rf = Refill_True [OF s1(1) pos]
  have "sc_rem e s1 = xs" using rf(1) rem by simp
  then have "length (sc_buf s1) \<le> length xs" using rf(2) by (auto simp: sc_rem_def sc_avail_def)
  moreover have "length xs < length (rec_bytes r)" using r(2,3) by simp
  moreover have "length (sc_buf s) < sc_buf_pos s + length (rec_bytes r)"
    using avail r(2,3) ready by (auto simp: sc_avail_def scan_ready_def sc_ok_def)
  ultimately show ?thesis using s1(1) rf(2) tot unfolding sc_avail_def by (simp add: Next_body_def Let_def)
qed

lemma Next_torn:
  assumes ready: "scan_ready e s" and rem: "sc_rem e s = xs" and "torn xs"
  shows "\<exists>s'. Next e s = (None, s')"
proof (cases "xs = []")
  case True
  then show ?thesis using Next_end [OF ready] rem by blast
next
  case False
  then obtain r ys where r: "rec_ok r" "rec_bytes r = xs @ ys" "ys \<noteq> []" using assms(3) by (auto simp: torn_def)
  obtain pos where pos: "sc_file s = Some pos" using ready by (auto simp: scan_ready_def)
  show ?thesis
  proof (cases "length (sc_buf s) < sc_buf_pos s + 24")
    case True
    obtain s1 where s1: "Refill e s = (True, s1)" "scan_ready e s1" by (rule Refill_ready [OF ready])
    note rf = Refill_True [OF s1(1) pos]
    have rem1: "sc_rem e s1 = xs" using rf(1) rem by simp
    show ?thesis
    proof (cases "length (sc_buf s1) < 24")
      case True
      then show ?thesis using \<open>length (sc_buf s) < sc_buf_pos s + 24\<close> s1(1) pos by (simp add: Next_def)
    next
      case False
      then have "24 \<le> length (sc_avail s1)" using rf(2) by (simp add: sc_avail_def)
      from Next_body_torn [OF s1(2) rem1 r this] show ?thesis
        using \<open>length (sc_buf s) < sc_buf_pos s + 24\<close> False s1(1) pos by (simp add: Next_def)
    qed
  next
    case False
    then have "24 \<le> length (sc_avail s)" by (simp add: sc_avail_def)
    from Next_body_torn [OF ready rem r this] show ?thesis using False pos by (simp add: Next_def)
  qed
qed

section \<open>Inserting a recovered record\<close>

definition create_entry :: "PartitionIndexSet \<Rightarrow> IndexEntry \<Rightarrow> u32 list \<Rightarrow> (u64 \<times> PartitionIndexSet) option" where
  "create_entry s r rnd =
     InsertCreate Slice_compare s (r_part r) (r_igen r) (MakeInternalKey (r_key r) (r_seq r) (r_type r)) (r_loc r) rnd"

text \<open>The index set holds the entries \<open>H\<close>, each in the index of its generation, and the generations of every
  chain ascend. Unlike \<open>ix_inv\<close> this does not depend on the order in which the entries came.\<close>

definition chain_inv :: "IndexEntry list \<Rightarrow> u32 \<Rightarrow> PartitionIndex list \<Rightarrow> bool" where
  "chain_inv H p c \<longleftrightarrow>
     sorted_wrt (<) (map pi_gen c) \<and> (\<forall>idx \<in> set c. idx_inv idx (gen_entries H p (pi_gen idx))) \<and>
     (\<forall>r \<in> set H. r_part r = p \<longrightarrow> r_igen r \<in> pi_gen ` set c)"

definition rix_inv :: "IndexEntry list \<Rightarrow> PartitionIndexSet \<Rightarrow> bool" where
  "rix_inv H s \<longleftrightarrow> (\<forall>p. chain_inv H p (ix_chain s p)) \<and>
     (\<forall>p. map_of (ix_active s) p = None \<longrightarrow> frozen_of s p = []) \<and> blooms_ok H s"

lemma chain_inv_other: "chain_inv H p c \<Longrightarrow> r_part r \<noteq> p \<Longrightarrow> chain_inv (H @ [r]) p c"
  by (auto simp: chain_inv_def gen_entries_snoc)

lemma chain_inv_update:
  assumes inv: "chain_inv H p c" and j: "j < length c" and r: "r_part r = p" "r_igen r = pi_gen (c ! j)"
    and idx': "idx_inv idx' (insert r (gen_entries H p (pi_gen (c ! j))))" "pi_gen idx' = pi_gen (c ! j)"
  shows "chain_inv (H @ [r]) p (c[j := idx'])"
proof -
  have gens: "map pi_gen (c[j := idx']) = map pi_gen c" using j idx'(2) by (simp add: map_update list_update_same_conv)
  have sorted: "sorted_wrt (<) (map pi_gen c)" using inv by (simp add: chain_inv_def)
  have "idx_inv i (gen_entries (H @ [r]) p (pi_gen i))" if "i \<in> set (c[j := idx'])" for i
  proof -
    obtain k where k: "k < length c" "i = c[j := idx'] ! k" using \<open>i \<in> set (c[j := idx'])\<close> by (auto simp: in_set_conv_nth)
    show ?thesis
    proof (cases "k = j")
      case True
      then show ?thesis using k idx' r by (simp add: gen_entries_snoc)
    next
      case False
      then have i: "i = c ! k" "i \<in> set c" using k by auto
      have "pi_gen (c ! k) \<noteq> pi_gen (c ! j)"
        using sorted k(1) j False by (simp add: sorted_wrt_iff_nth_less) (metis less_irrefl linorder_neqE_nat)
      then show ?thesis using i inv r by (simp add: gen_entries_snoc chain_inv_def)
    qed
  qed
  moreover have "pi_gen ` set (c[j := idx']) = pi_gen ` set c" using gens by (metis set_map)
  moreover have "r_igen ra \<in> pi_gen ` set c" if "ra \<in> set (H @ [r])" "r_part ra = p" for ra
    using that inv r j by (auto simp: chain_inv_def)
  ultimately show ?thesis using sorted gens unfolding chain_inv_def by simp
qed

text \<open>The memory counter of an index is bounded by the entries of all.\<close>

lemma sum_list_image_le:
  fixes f :: "'b \<Rightarrow> nat"
  assumes "distinct ys" "set ys \<subseteq> g ` set xs"
  shows "sum_list (map f ys) \<le> sum_list (map (\<lambda>x. f (g x)) xs)"
  using assms
proof (induction xs arbitrary: ys)
  case (Cons x xs)
  have "sum_list (map f (filter (\<lambda>y. y \<noteq> g x) ys)) \<le> sum_list (map (\<lambda>x. f (g x)) xs)"
    by (rule Cons.IH) (use Cons.prems in auto)
  moreover have fl: "filter (\<lambda>y. y \<noteq> a) zs = zs" if "a \<notin> set zs" for a and zs :: "'b list"
    using that by (induction zs) auto
  have "sum_list (map f ys) \<le> f (g x) + sum_list (map f (filter (\<lambda>y. y \<noteq> g x) ys))"
    using Cons.prems(1) by (induction ys) (auto simp: fl)
  ultimately show ?case by simp
qed auto

definition index_bytes :: "IndexEntry list \<Rightarrow> nat" where
  "index_bytes H = sum_list (map (\<lambda>r. entry_bytes (enc r)) H)"

lemma idx_mem_le:
  assumes "idx_inv idx R" "R \<subseteq> set H"
  shows "unat (pi_mem_bytes idx) \<le> index_bytes H"
proof -
  have "sorted_wrt (\<lambda>a b. ZfKeyComparator Slice_compare a b < 0) (sl_elems (pi_list idx))"
    by (rule zfkey.sl.elems_sorted [OF idx_invD(1) [OF assms(1)]])
  then have "distinct (sl_elems (pi_list idx))" by (rule sorted_wrt_imp_distinct) simp
  moreover have "set (sl_elems (pi_list idx)) \<subseteq> enc ` set H" using idx_invD(3) [OF assms(1)] assms(2) by blast
  ultimately show ?thesis
    unfolding idx_invD(5) [OF assms(1)] index_bytes_def by (rule sum_list_image_le)
qed

text \<open>Where the code puts a recovered record: the chain has, or gets, an index of its generation.\<close>

lemma find_gen_SomeD: "find_gen c g = Some i \<Longrightarrow> i < length c \<and> pi_gen (c ! i) = g"
proof -
  have "find P xs = Some x \<Longrightarrow> x \<in> set xs \<and> P x" for P and xs :: "nat list" and x
    by (induction xs) (auto split: if_splits)
  then show "find_gen c g = Some i \<Longrightarrow> i < length c \<and> pi_gen (c ! i) = g" by (fastforce simp: find_gen_def)
qed

lemma find_gen_None: "find_gen c g = None \<longleftrightarrow> g \<notin> pi_gen ` set c"
  by (auto simp: find_gen_def find_None_iff in_set_conv_nth image_iff) (metis nth_mem)

lemma finish_insert_spec:
  assumes iinv: "idx_inv idx (gen_entries H (r_part r) (pi_gen idx))" and ok: "entry_ok r"
    and new: "\<forall>r' \<in> set H. r_seq r' \<noteq> r_seq r" and room: "index_bytes (H @ [r]) < 2 ^ 64"
  shows "\<exists>n idx' bs t. finish_insert Slice_compare s (r_part r) (MakeInternalKey (r_key r) (r_seq r) (r_type r)) (r_loc r) rnd idx put_back =
      Some (n, (put_back idx' s)\<lparr>ix_blooms := bs, ix_total_mem_bytes := t\<rparr>) \<and>
    idx_inv idx' (insert r (gen_entries H (r_part r) (pi_gen idx))) \<and> pi_gen idx' = pi_gen idx \<and>
    bs = AList.update (r_part r) (bloom_Add (bloom_of (put_back idx' s) (r_part r)) (r_key r)) (ix_blooms (put_back idx' s))"
proof -
  have "unat (pi_mem_bytes idx) \<le> index_bytes H" by (rule idx_mem_le [OF iinv]) (auto simp: gen_entries_def)
  then have "unat (pi_mem_bytes idx) + entry_bytes (enc r) < 2 ^ 64" using room by (simp add: index_bytes_def)
  moreover have "\<forall>r' \<in> gen_entries H (r_part r) (pi_gen idx). r_key r' = r_key r \<longrightarrow> r_seq r' \<noteq> r_seq r" using new by (simp add: gen_entries_def)
  ultimately obtain idx' where i: "pi_Insert Slice_compare idx (MakeInternalKey (r_key r) (r_seq r) (r_type r)) (r_loc r) rnd =
      Some (True, entry_size (MakeInternalKey (r_key r) (r_seq r) (r_type r)) (r_loc r), idx')"
    "idx_inv idx' (insert r (gen_entries H (r_part r) (pi_gen idx)))" "pi_gen idx' = pi_gen idx"
    using pi_Insert_spec [OF iinv ok, of rnd] by blast
  show ?thesis
    by (rule exI, rule exI [of _ idx'], rule exI, rule exI, rule conjI, simp add: finish_insert_def i(1) Let_def, intro conjI i(2,3)) simp
qed

lemma blooms_snoc:
  assumes ok: "blooms_ok H s" and same: "ix_blooms s1 = ix_blooms s"
  shows "blooms_ok (H @ [r]) (s1\<lparr>ix_blooms := AList.update (r_part r) (bloom_Add (bloom_of s1 (r_part r)) (r_key r)) (ix_blooms s1),
    ix_total_mem_bytes := t\<rparr>)"
  using ok MayContain_Add by (fastforce simp: blooms_ok_def update_conv' bloom_of_def same)

text \<open>A recovered record gets into its index: the active index of its partition exists, its generation is not
  above the active one, and a generation that has no index yet is above all frozen ones.\<close>

lemma create_entry_inv:
  assumes inv: "rix_inv H s" and ok: "entry_ok r" and new: "\<forall>r' \<in> set H. r_seq r' \<noteq> r_seq r"
    and room: "index_bytes (H @ [r]) < 2 ^ 64" and act: "map_of (ix_active s) (r_part r) = Some act"
    and gen: "r_igen r \<le> pi_gen act" and above: "r_igen r \<notin> pi_gen ` set (ix_chain s (r_part r)) \<Longrightarrow> \<forall>i \<in> set (frozen_of s (r_part r)). pi_gen i < r_igen r"
  shows "\<exists>n s'. create_entry s r rnd = Some (n, s') \<and> rix_inv (H @ [r]) s' \<and>
    (\<forall>q. map pi_gen (active_of s' q) = map pi_gen (active_of s q)) \<and>
    (\<forall>q. pi_gen ` set (frozen_of s' q) \<subseteq> pi_gen ` set (frozen_of s q) \<union> (if q = r_part r then {r_igen r} else {}))"
proof -
  let ?p = "r_part r"
  have ch: "chain_inv H q (ix_chain s q)" for q using inv by (simp add: rix_inv_def)
  have chain: "ix_chain s ?p = frozen_of s ?p @ [act]" using act by (simp add: ix_chain_def active_of_def)
  have idx: "idx_inv i (gen_entries H ?p (pi_gen i))" if "i \<in> set (ix_chain s ?p)" for i using ch [of ?p] that by (simp add: chain_inv_def)
  have bl: "blooms_ok H s" using inv by (simp add: rix_inv_def)
  have fin: ?thesis
    if eq: "create_entry s r rnd = Some (n, s')" and s1: "s' = s1\<lparr>ix_blooms := AList.update ?p (bloom_Add (bloom_of s1 ?p) (r_key r)) (ix_blooms s1), ix_total_mem_bytes := t\<rparr>"
      and b1: "ix_blooms s1 = ix_blooms s" and p1: "chain_inv (H @ [r]) ?p (ix_chain s1 ?p)" and q1: "\<And>q. q \<noteq> ?p \<Longrightarrow> active_of s1 q = active_of s q \<and> frozen_of s1 q = frozen_of s q"
      and a1: "map pi_gen (active_of s1 ?p) = map pi_gen (active_of s ?p)" "pi_gen ` set (frozen_of s1 ?p) \<subseteq> insert (r_igen r) (pi_gen ` set (frozen_of s ?p))" for n s' s1 t
  proof -
    have same: "active_of s' q = active_of s1 q" "frozen_of s' q = frozen_of s1 q" "ix_chain s' q = ix_chain s1 q" "ix_active s' = ix_active s1" for q
      by (simp_all add: s1 ix_chain_def)
    have "chain_inv (H @ [r]) q (ix_chain s' q)" for q
      using p1 q1 [of q] chain_inv_other [OF ch [of q], of r] unfolding same by (cases "q = ?p") (auto simp: ix_chain_def)
    moreover have "map_of (ix_active s') q = None \<longrightarrow> frozen_of s' q = []" for q
    proof (cases "q = ?p")
      case True
      have "active_of s1 ?p \<noteq> []" using a1(1) act by (auto simp: active_of_def)
      then show ?thesis using True unfolding same by (auto simp: active_of_def)
    next
      case False
      then have "active_of s1 q = active_of s q" "frozen_of s1 q = frozen_of s q" using q1 by simp_all
      moreover have "map_of (ix_active s) q = None \<longrightarrow> frozen_of s q = []" using inv by (simp add: rix_inv_def)
      ultimately show ?thesis unfolding same by (auto simp: active_of_def split: option.splits)
    qed
    moreover have "blooms_ok (H @ [r]) s'" unfolding s1 by (rule blooms_snoc [OF bl b1])
    ultimately have "rix_inv (H @ [r]) s'" by (simp add: rix_inv_def)
    moreover have "map pi_gen (active_of s' q) = map pi_gen (active_of s q)" for q using a1(1) q1 [of q] unfolding same by (cases "q = ?p") auto
    moreover have "pi_gen ` set (frozen_of s' q) \<subseteq> pi_gen ` set (frozen_of s q) \<union> (if q = ?p then {r_igen r} else {})" for q
      using a1(2) q1 [of q] unfolding same by (cases "q = ?p") auto
    ultimately show ?thesis using eq by blast
  qed
  show ?thesis
  proof (cases "pi_gen act = r_igen r")
    case True
    have mem: "act \<in> set (ix_chain s ?p)" by (simp add: chain)
    obtain n idx' bs t where f: "finish_insert Slice_compare s ?p (MakeInternalKey (r_key r) (r_seq r) (r_type r)) (r_loc r) rnd act (set_active ?p) =
        Some (n, (set_active ?p idx' s)\<lparr>ix_blooms := bs, ix_total_mem_bytes := t\<rparr>)"
      "idx_inv idx' (insert r (gen_entries H ?p (pi_gen act)))" "pi_gen idx' = pi_gen act"
      "bs = AList.update ?p (bloom_Add (bloom_of (set_active ?p idx' s) ?p) (r_key r)) (ix_blooms (set_active ?p idx' s))"
      using finish_insert_spec [OF idx [OF mem] ok new room, of s rnd "set_active ?p"] by blast
    have j: "length (frozen_of s ?p) < length (ix_chain s ?p)" "ix_chain s ?p ! length (frozen_of s ?p) = act" by (simp_all add: chain)
    have "chain_inv (H @ [r]) ?p ((ix_chain s ?p)[length (frozen_of s ?p) := idx'])"
      by (rule chain_inv_update [OF ch j(1)]) (use True f(2,3) j(2) in simp_all)
    moreover have "(ix_chain s ?p)[length (frozen_of s ?p) := idx'] = ix_chain (set_active ?p idx' s) ?p"
      unfolding chain by (simp add: ix_chain_def)
    ultimately have c1: "chain_inv (H @ [r]) ?p (ix_chain (set_active ?p idx' s) ?p)" by simp
    show ?thesis
    proof (rule fin [where ?s1.0 = "set_active ?p idx' s" and t = t])
      show "create_entry s r rnd = Some (n, (set_active ?p idx' s)\<lparr>ix_blooms := bs, ix_total_mem_bytes := t\<rparr>)"
        using f(1) act True by (simp add: create_entry_def InsertCreate_def)
    qed (use c1 f(3,4) act in \<open>auto simp: active_of_def\<close>)
  next
    case False
    show ?thesis
    proof (cases "find_gen (frozen_of s ?p) (r_igen r)")
      case (Some i)
      note i = find_gen_SomeD [OF Some]
      have mem: "frozen_of s ?p ! i \<in> set (ix_chain s ?p)" using i by (simp add: chain)
      let ?put = "\<lambda>idx s. set_frozen ?p ((frozen_of s ?p)[i := idx]) s"
      obtain n idx' bs t where f: "finish_insert Slice_compare s ?p (MakeInternalKey (r_key r) (r_seq r) (r_type r)) (r_loc r) rnd (frozen_of s ?p ! i) ?put =
          Some (n, (?put idx' s)\<lparr>ix_blooms := bs, ix_total_mem_bytes := t\<rparr>)"
        "idx_inv idx' (insert r (gen_entries H ?p (pi_gen (frozen_of s ?p ! i))))" "pi_gen idx' = pi_gen (frozen_of s ?p ! i)"
        "bs = AList.update ?p (bloom_Add (bloom_of (?put idx' s) ?p) (r_key r)) (ix_blooms (?put idx' s))"
        using finish_insert_spec [OF idx [OF mem] ok new room, of s rnd ?put] by blast
      have j: "i < length (ix_chain s ?p)" "ix_chain s ?p ! i = frozen_of s ?p ! i" using i by (simp_all add: chain nth_append)
      have "chain_inv (H @ [r]) ?p ((ix_chain s ?p)[i := idx'])"
        by (rule chain_inv_update [OF ch j(1)]) (use i f(2,3) j(2) in simp_all)
      then have c1: "chain_inv (H @ [r]) ?p (ix_chain (?put idx' s) ?p)" using i by (simp add: ix_chain_def list_update_append)
      have g: "pi_gen ` set ((frozen_of s ?p)[i := idx']) \<subseteq> insert (r_igen r) (pi_gen ` set (frozen_of s ?p))"
        using set_update_subset_insert [of "frozen_of s ?p" i idx'] f(3) i by auto
      show ?thesis
      proof (rule fin [where ?s1.0 = "?put idx' s" and t = t])
        show "create_entry s r rnd = Some (n, (?put idx' s)\<lparr>ix_blooms := bs, ix_total_mem_bytes := t\<rparr>)"
          using f(1) act False Some by (simp add: create_entry_def InsertCreate_def)
      qed (use c1 f(4) g in auto)
    next
      case None
      let ?ni = "SetFrozen (new_PartitionIndex ?p (r_igen r))"
      let ?put = "\<lambda>idx s'. set_frozen ?p (frozen_of s ?p @ [idx]) s'"
      have fresh: "r_igen r \<notin> pi_gen ` set (ix_chain s ?p)" using None False by (auto simp: find_gen_None chain)
      then have empty: "gen_entries H ?p (r_igen r) = {}" using ch [of ?p] unfolding chain_inv_def gen_entries_def by force
      have ni: "pi_gen ?ni = r_igen r" by (simp add: new_PartitionIndex_def)
      have "idx_inv ?ni (gen_entries H ?p (pi_gen ?ni))" using new_idx_inv empty ni by simp
      from finish_insert_spec [OF this ok new room, of s rnd ?put] obtain n idx' bs t where
        f: "finish_insert Slice_compare s ?p (MakeInternalKey (r_key r) (r_seq r) (r_type r)) (r_loc r) rnd ?ni ?put =
          Some (n, (?put idx' s)\<lparr>ix_blooms := bs, ix_total_mem_bytes := t\<rparr>)"
        "idx_inv idx' (insert r (gen_entries H ?p (pi_gen ?ni)))" "pi_gen idx' = pi_gen ?ni"
        "bs = AList.update ?p (bloom_Add (bloom_of (?put idx' s) ?p) (r_key r)) (ix_blooms (?put idx' s))" by blast
      have lt: "r_igen r < pi_gen act" using gen False by simp
      have "chain_inv H ?p (frozen_of s ?p @ [?ni, act])"
        using ch [of ?p] above [OF fresh] lt new_idx_inv empty unfolding chain chain_inv_def
        by (auto simp: sorted_wrt_append new_PartitionIndex_def)
      from chain_inv_update [OF this, of "length (frozen_of s ?p)" r idx'] f(2,3) ni
      have "chain_inv (H @ [r]) ?p (frozen_of s ?p @ [idx', act])" by (simp add: nth_append)
      then have c1: "chain_inv (H @ [r]) ?p (ix_chain (?put idx' s) ?p)" using act by (simp add: ix_chain_def active_of_def)
      show ?thesis
      proof (rule fin [where ?s1.0 = "?put idx' s" and t = t])
        show "create_entry s r rnd = Some (n, (?put idx' s)\<lparr>ix_blooms := bs, ix_total_mem_bytes := t\<rparr>)"
          using f(1) act False None by (simp add: create_entry_def InsertCreate_def Let_def)
      qed (use c1 f(3,4) ni in auto)
    qed
  qed
qed

section \<open>Replaying a file\<close>

text \<open>The history a file stands for: an index entry and a value per record, located where the record lies.\<close>

definition rec_entry :: "(bytes \<Rightarrow> u32) \<Rightarrow> u32 \<times> u32 \<Rightarrow> nat \<Rightarrow> zf_rec \<Rightarrow> IndexEntry \<times> bytes" where
  "rec_entry route pg off r = (case r of (h, k, v) \<Rightarrow>
     (\<lparr> r_part = route k, r_igen = snd pg, r_key = k, r_seq = h_seq h, r_type = h_type h,
        r_loc = locator_bytes \<lparr> r_part_id = fst pg, r_gen = snd pg, r_offset = off \<rparr> \<rparr>, read_value r))"

fun file_history :: "(bytes \<Rightarrow> u32) \<Rightarrow> u32 \<times> u32 \<Rightarrow> nat \<Rightarrow> zf_rec list \<Rightarrow> history" where
  "file_history route pg off [] = []"
| "file_history route pg off (r # rs) = rec_entry route pg off r # file_history route pg (off + length (rec_bytes r)) rs"

definition rec_seq :: "zf_rec \<Rightarrow> u64" where
  "rec_seq r = h_seq (fst r)"

lemma rec_entry_simps [simp]:
  "r_part (fst (rec_entry route pg off r)) = route (fst (snd r))" "r_igen (fst (rec_entry route pg off r)) = snd pg"
  "r_seq (fst (rec_entry route pg off r)) = rec_seq r" "r_key (fst (rec_entry route pg off r)) = fst (snd r)"
  "r_loc (fst (rec_entry route pg off r)) = locator_bytes \<lparr> r_part_id = fst pg, r_gen = snd pg, r_offset = off \<rparr>"
  "snd (rec_entry route pg off r) = read_value r"
  by (simp_all add: rec_entry_def rec_seq_def split: prod.splits)

lemma file_history_seqs: "map (\<lambda>x. r_seq (fst x)) (file_history route pg off rs) = map rec_seq rs"
  by (induction rs arbitrary: off) simp_all

lemma file_history_igen: "x \<in> set (file_history route pg off rs) \<Longrightarrow> r_igen (fst x) = snd pg \<and> (\<exists>r \<in> set rs. r_part (fst x) = route (fst (snd r)))"
  by (induction rs arbitrary: off) auto

definition replay_route :: "ZeroFlushContext \<Rightarrow> bytes \<Rightarrow> u32" where
  "replay_route c k = RouteWithVersion c k (s_current_version (the (zc_tables c)))"

lemma replay_route_index [simp]: "replay_route (c\<lparr>zc_index := ix\<rparr>) = replay_route c"
  by (auto simp: replay_route_def RouteWithVersion_def hash_route_def fun_eq_iff split: option.splits)

lemma recover_record_create:
  assumes "rec_ok r" "zc_ucmp c = Slice_compare"
  shows "recover_record c pg r (off + length (rec_bytes r)) rnd = create_entry (zc_index c) (fst (rec_entry (replay_route c) pg off r)) rnd"
proof -
  obtain h k v where r: "r = (h, k, v)" by (cases r)
  have "zf_frame_ok h k v" using assms(1) by (simp add: rec_ok_def r)
  then have "unat (ZfRecordLength (h_key_len h) (h_val_len h)) = length (rec_bytes r)" using zf_frame_body(4) [of h k v] by (simp add: r)
  then show ?thesis using assms(2)
    by (simp add: recover_record_def create_entry_def rec_entry_def r MakeInternalKey_def replay_route_def Let_def)
qed

text \<open>What the entries to come bring: admissible, with sequence numbers of their own, and room for all.\<close>

definition entries_fit :: "IndexEntry list \<Rightarrow> bool" where
  "entries_fit H \<longleftrightarrow> list_all entry_ok H \<and> distinct (map r_seq H) \<and> index_bytes H < 2 ^ 64"

lemma entries_fit_append: "entries_fit (H @ H') \<Longrightarrow> entries_fit H"
  by (auto simp: entries_fit_def index_bytes_def)

lemma entries_fit_snoc:
  assumes "entries_fit (H @ [x])"
  shows "entry_ok x" "\<forall>r \<in> set H. r_seq r \<noteq> r_seq x" "index_bytes (H @ [x]) < 2 ^ 64"
proof -
  have "r_seq x \<notin> set (map r_seq H)" using assms by (simp add: entries_fit_def)
  then show "\<forall>r \<in> set H. r_seq r \<noteq> r_seq x" by (metis in_set_conv_nth length_map nth_map nth_mem)
qed (use assms in \<open>simp_all add: entries_fit_def\<close>)

lemma recover_file_replay:
  assumes "scan_ready (zc_env c) s" "sc_rem (zc_env c) s = concat (map rec_bytes rs) @ tail" "torn tail" "\<forall>r \<in> set rs. rec_ok r"
    "sc_offset s = off" "length rs < n" "zc_ucmp c = Slice_compare" "rix_inv H (zc_index c)"
    "entries_fit (H @ map fst (file_history (replay_route c) pg off rs))" "\<forall>r \<in> set rs. replay_route c (fst (snd r)) = fst pg"
    "map pi_gen (active_of (zc_index c) (fst pg)) = [g]" "snd pg \<le> g" "rs \<noteq> [] \<longrightarrow> (\<forall>i \<in> set (frozen_of (zc_index c) (fst pg)). pi_gen i \<le> snd pg)"
  shows "\<exists>ix. recover_file n c pg s mx rnd = Some (foldl max mx (map rec_seq rs), c\<lparr>zc_index := ix\<rparr>) \<and>
    rix_inv (H @ map fst (file_history (replay_route c) pg off rs)) ix \<and>
    (\<forall>q. map pi_gen (active_of ix q) = map pi_gen (active_of (zc_index c) q)) \<and>
    (\<forall>q. pi_gen ` set (frozen_of ix q) \<subseteq> pi_gen ` set (frozen_of (zc_index c) q) \<union> (if q = fst pg \<and> rs \<noteq> [] then {snd pg} else {}))"
  using assms
proof (induction rs arbitrary: c s off n H mx)
  case Nil
  then obtain n' where n: "n = Suc n'" by (cases n) auto
  obtain s' where "Next (zc_env c) s = (None, s')" using Next_torn [OF Nil.prems(1) _ Nil.prems(3)] Nil.prems(2) by auto
  then show ?case using Nil.prems(8) by (intro exI [of _ "zc_index c"]) (simp add: n)
next
  case (Cons r rs)
  obtain h k v where r: "r = (h, k, v)" by (cases r)
  obtain n' where n: "n = Suc n'" using Cons.prems(6) by (cases n) auto
  have ok: "rec_ok r" "zf_frame_ok h k v" "28 + length k + length v \<le> kScanChunkSize" using Cons.prems(4) by (auto simp: rec_ok_def r)
  have rem: "sc_rem (zc_env c) s = EncodeZfRecord h k v @ (concat (map rec_bytes rs) @ tail)" using Cons.prems(2) by (simp add: r)
  obtain s' where s': "Next (zc_env c) s = (Some (h, k, v), s')" "scan_ready (zc_env c) s'" "sc_rem (zc_env c) s' = concat (map rec_bytes rs) @ tail"
    "sc_offset s' = off + length (rec_bytes r)"
    using Next_valid [OF Cons.prems(1) ok(2) rem ok(3)] Cons.prems(5) by (auto simp: r)
  let ?x = "fst (rec_entry (replay_route c) pg off r)" and ?off = "off + length (rec_bytes r)"
  let ?E = "map fst (file_history (replay_route c) pg ?off rs)"
  have fit: "entries_fit ((H @ [?x]) @ ?E)" using Cons.prems(9) by simp
  have fit1: "entries_fit (H @ [?x])" by (rule entries_fit_append [OF fit])
  have x: "entry_ok ?x" "\<forall>r' \<in> set H. r_seq r' \<noteq> r_seq ?x" "index_bytes (H @ [?x]) < 2 ^ 64"
    by (rule entries_fit_snoc [OF fit1])+
  have xp: "r_part ?x = fst pg" "r_igen ?x = snd pg" using Cons.prems(10) by simp_all
  obtain act where act: "map_of (ix_active (zc_index c)) (fst pg) = Some act" "pi_gen act = g"
    using Cons.prems(11) by (auto simp: active_of_def split: option.splits)
  have above: "\<forall>i \<in> set (frozen_of (zc_index c) (r_part ?x)). pi_gen i < r_igen ?x" if "r_igen ?x \<notin> pi_gen ` set (ix_chain (zc_index c) (r_part ?x))"
    using that Cons.prems(13) unfolding xp by (simp add: ix_chain_def le_less image_Un) (metis imageI)
  obtain m ix where ix: "create_entry (zc_index c) ?x (rnd (h_seq h)) = Some (m, ix)" "rix_inv (H @ [?x]) ix"
    "\<forall>q. map pi_gen (active_of ix q) = map pi_gen (active_of (zc_index c) q)"
    "\<forall>q. pi_gen ` set (frozen_of ix q) \<subseteq> pi_gen ` set (frozen_of (zc_index c) q) \<union> (if q = fst pg then {snd pg} else {})"
    using create_entry_inv [OF Cons.prems(8) x _ _ above, of act "rnd (h_seq h)"] act Cons.prems(12) unfolding xp by auto
  let ?c = "c\<lparr>zc_index := ix\<rparr>"
  have "\<exists>ix'. recover_file n' ?c pg s' (max mx (rec_seq r)) rnd = Some (foldl max (max mx (rec_seq r)) (map rec_seq rs), ?c\<lparr>zc_index := ix'\<rparr>) \<and>
    rix_inv ((H @ [?x]) @ map fst (file_history (replay_route ?c) pg ?off rs)) ix' \<and>
    (\<forall>q. map pi_gen (active_of ix' q) = map pi_gen (active_of (zc_index ?c) q)) \<and>
    (\<forall>q. pi_gen ` set (frozen_of ix' q) \<subseteq> pi_gen ` set (frozen_of (zc_index ?c) q) \<union> (if q = fst pg \<and> rs \<noteq> [] then {snd pg} else {}))"
  proof (rule Cons.IH)
    have "pi_gen ` set (frozen_of ix (fst pg)) \<subseteq> insert (snd pg) (pi_gen ` set (frozen_of (zc_index c) (fst pg)))" using ix(4) by (auto split: if_splits)
    then show "rs \<noteq> [] \<longrightarrow> (\<forall>i \<in> set (frozen_of (zc_index ?c) (fst pg)). pi_gen i \<le> snd pg)"
      using Cons.prems(13) by (auto simp: image_subset_iff)
  qed (use s' Cons.prems fit ix n in simp_all)
  then obtain ix' where ix': "recover_file n' ?c pg s' (max mx (rec_seq r)) rnd = Some (foldl max (max mx (rec_seq r)) (map rec_seq rs), ?c\<lparr>zc_index := ix'\<rparr>)"
    "rix_inv ((H @ [?x]) @ ?E) ix'" "\<forall>q. map pi_gen (active_of ix' q) = map pi_gen (active_of ix q)"
    "\<forall>q. pi_gen ` set (frozen_of ix' q) \<subseteq> pi_gen ` set (frozen_of ix q) \<union> (if q = fst pg \<and> rs \<noteq> [] then {snd pg} else {})" by auto
  have step: "recover_record c pg (h, k, v) (sc_offset s') (rnd (h_seq h)) = Some (m, ix)"
    using recover_record_create [OF ok(1) Cons.prems(7), of pg off] ix(1) s'(4) by (simp add: r)
  have res: "recover_file n c pg s mx rnd = Some (foldl max mx (map rec_seq (r # rs)), c\<lparr>zc_index := ix'\<rparr>)"
    using ix'(1) s'(1) step by (simp add: n r rec_seq_def)
  have fz: "pi_gen ` set (frozen_of ix' q) \<subseteq> pi_gen ` set (frozen_of (zc_index c) q) \<union> (if q = fst pg \<and> r # rs \<noteq> [] then {snd pg} else {})" for q
  proof -
    have "pi_gen ` set (frozen_of ix' q) \<subseteq> pi_gen ` set (frozen_of ix q) \<union> (if q = fst pg \<and> rs \<noteq> [] then {snd pg} else {})"
      "pi_gen ` set (frozen_of ix q) \<subseteq> pi_gen ` set (frozen_of (zc_index c) q) \<union> (if q = fst pg then {snd pg} else {})"
      using ix(4) ix'(4) by blast+
    then show ?thesis by (cases "q = fst pg"; cases "rs = []") auto
  qed
  show ?case using res ix'(2,3) ix(3) fz by (intro exI [of _ ix'] conjI) (simp_all del: foldl_Cons)
qed

section \<open>Replaying the directory\<close>

definition file_recs :: "ZeroFlushContext \<Rightarrow> u32 \<times> u32 \<Rightarrow> zf_rec list \<Rightarrow> bool" where
  "file_recs c pg rs \<longleftrightarrow> (\<forall>r \<in> set rs. rec_ok r) \<and>
     (\<exists>tail. torn tail \<and> e_content (zc_env c) (MakeFileName (zc_wal_dir c) (fst pg) (snd pg)) = Some (concat (map rec_bytes rs) @ tail))"

lemma length_concat_recs: "28 * length rs \<le> length (concat (map rec_bytes rs))"
proof (induction rs)
  case (Cons r rs)
  then show ?case using length_rec_bytes_ge [of r] by simp
qed simp

lemma new_scanner_ready:
  assumes "file_recs c pg rs" "\<forall>op. \<not> e_fail (zc_env c) op"
  obtains tail where "torn tail" "\<forall>r \<in> set rs. rec_ok r"
    "scan_ready (zc_env c) (new_WalScanner (zc_env c) (zc_wal_dir c) (fst pg) (snd pg))"
    "sc_rem (zc_env c) (new_WalScanner (zc_env c) (zc_wal_dir c) (fst pg) (snd pg)) = concat (map rec_bytes rs) @ tail"
    "sc_offset (new_WalScanner (zc_env c) (zc_wal_dir c) (fst pg) (snd pg)) = 0"
    "length rs < scan_fuel (zc_env c) (MakeFileName (zc_wal_dir c) (fst pg) (snd pg))"
proof -
  let ?f = "MakeFileName (zc_wal_dir c) (fst pg) (snd pg)"
  obtain tail where t: "torn tail" "e_content (zc_env c) ?f = Some (concat (map rec_bytes rs) @ tail)" using assms(1) by (auto simp: file_recs_def)
  have "28 * length rs \<le> length (concat (map rec_bytes rs) @ tail)" using length_concat_recs [of rs] by simp
  then have "length rs \<le> length (concat (map rec_bytes rs) @ tail) div 28" by (simp add: less_eq_div_iff_mult_less_eq mult.commute)
  then have "length rs < scan_fuel (zc_env c) ?f" unfolding scan_fuel_def t(2) by (simp del: length_append)
  then show thesis
    using that [OF t(1)] t assms by (simp add: file_recs_def scan_ready_def sc_ok_def new_WalScanner_def Let_def NewSequentialFile_def sc_rem_def sc_avail_def)
qed

lemma first_seq_recs:
  assumes "file_recs c pg (r # rs)" "\<forall>op. \<not> e_fail (zc_env c) op"
  shows "first_seq (zc_env c) (zc_wal_dir c) pg = rec_seq r"
proof -
  let ?s = "new_WalScanner (zc_env c) (zc_wal_dir c) (fst pg) (snd pg)"
  obtain h k v where r: "r = (h, k, v)" by (cases r)
  obtain tail where t: "\<forall>r \<in> set (r # rs). rec_ok r" "scan_ready (zc_env c) ?s" "sc_rem (zc_env c) ?s = concat (map rec_bytes (r # rs)) @ tail"
    using new_scanner_ready [OF assms] by metis
  have "zf_frame_ok h k v" "28 + length k + length v \<le> kScanChunkSize" using t(1) by (auto simp: rec_ok_def r)
  from Next_valid [OF t(2) this(1) _ this(2), of "concat (map rec_bytes rs) @ tail"] t(3) obtain s' where "Next (zc_env c) ?s = (Some (h, k, v), s')"
    by (auto simp: r)
  then show ?thesis by (simp add: first_seq_def r rec_seq_def)
qed

text \<open>The replay of a list of files in which, per partition, the generations with records ascend.\<close>

definition replay_ok :: "ZeroFlushContext \<Rightarrow> (u32 \<times> u32 \<Rightarrow> zf_rec list) \<Rightarrow> (u32 \<times> u32) list \<Rightarrow> bool" where
  "replay_ok c recs pgs \<longleftrightarrow>
     (\<forall>pg \<in> set pgs. file_recs c pg (recs pg) \<and> (\<forall>r \<in> set (recs pg). replay_route c (fst (snd r)) = fst pg) \<and>
        (\<exists>g. map pi_gen (active_of (zc_index c) (fst pg)) = [g] \<and> snd pg \<le> g) \<and>
        (recs pg \<noteq> [] \<longrightarrow> (\<forall>i \<in> set (frozen_of (zc_index c) (fst pg)). pi_gen i \<le> snd pg))) \<and>
     sorted_wrt (\<lambda>a b. fst a = fst b \<and> recs a \<noteq> [] \<and> recs b \<noteq> [] \<longrightarrow> snd a \<le> snd b) pgs"

definition dir_history :: "(bytes \<Rightarrow> u32) \<Rightarrow> (u32 \<times> u32 \<Rightarrow> zf_rec list) \<Rightarrow> (u32 \<times> u32) list \<Rightarrow> history" where
  "dir_history route recs pgs = concat (map (\<lambda>pg. file_history route pg 0 (recs pg)) pgs)"

lemma dir_history_simps [simp]:
  "dir_history route recs [] = []" "dir_history route recs (pg # pgs) = file_history route pg 0 (recs pg) @ dir_history route recs pgs"
  by (simp_all add: dir_history_def)

lemma recover_files_replay:
  assumes "replay_ok c recs pgs" "\<forall>op. \<not> e_fail (zc_env c) op" "zc_ucmp c = Slice_compare" "rix_inv H (zc_index c)"
    "entries_fit (H @ map fst (dir_history (replay_route c) recs pgs))"
  shows "\<exists>ix. recover_files c pgs mx rnd = Some (foldl max mx (map rec_seq (concat (map recs pgs))), c\<lparr>zc_index := ix\<rparr>) \<and>
    rix_inv (H @ map fst (dir_history (replay_route c) recs pgs)) ix \<and>
    (\<forall>q. map pi_gen (active_of ix q) = map pi_gen (active_of (zc_index c) q))"
  using assms
proof (induction pgs arbitrary: c H mx)
  case (Nil c H mx)
  then show ?case by (intro exI [of _ "zc_index c"]) simp
next
  case (Cons pg pgs)
  let ?F = "map fst (file_history (replay_route c) pg 0 (recs pg))" and ?D = "map fst (dir_history (replay_route c) recs pgs)"
  have fr: "file_recs c pg (recs pg)" and routed: "\<forall>r \<in> set (recs pg). replay_route c (fst (snd r)) = fst pg"
    and fz: "recs pg \<noteq> [] \<longrightarrow> (\<forall>i \<in> set (frozen_of (zc_index c) (fst pg)). pi_gen i \<le> snd pg)"
    using Cons.prems(1) by (auto simp: replay_ok_def)
  obtain g where g: "map pi_gen (active_of (zc_index c) (fst pg)) = [g]" "snd pg \<le> g" using Cons.prems(1) by (auto simp: replay_ok_def)
  let ?s = "new_WalScanner (zc_env c) (zc_wal_dir c) (fst pg) (snd pg)"
  obtain tail where t: "torn tail" "\<forall>r \<in> set (recs pg). rec_ok r" "scan_ready (zc_env c) ?s" "sc_rem (zc_env c) ?s = concat (map rec_bytes (recs pg)) @ tail"
    "sc_offset ?s = 0" "length (recs pg) < scan_fuel (zc_env c) (MakeFileName (zc_wal_dir c) (fst pg) (snd pg))"
    by (rule new_scanner_ready [OF fr Cons.prems(2)])
  have fit: "entries_fit ((H @ ?F) @ ?D)" using Cons.prems(5) by simp
  obtain ix where ix: "recover_file (scan_fuel (zc_env c) (MakeFileName (zc_wal_dir c) (fst pg) (snd pg))) c pg ?s mx rnd =
      Some (foldl max mx (map rec_seq (recs pg)), c\<lparr>zc_index := ix\<rparr>)" "rix_inv (H @ ?F) ix"
    "\<forall>q. map pi_gen (active_of ix q) = map pi_gen (active_of (zc_index c) q)"
    "\<forall>q. pi_gen ` set (frozen_of ix q) \<subseteq> pi_gen ` set (frozen_of (zc_index c) q) \<union> (if q = fst pg \<and> recs pg \<noteq> [] then {snd pg} else {})"
    using recover_file_replay [OF t(3,4,1,2,5,6) Cons.prems(3,4) entries_fit_append [OF fit] routed g fz, of mx rnd] by blast
  let ?c = "c\<lparr>zc_index := ix\<rparr>"
  have rok: "replay_ok ?c recs pgs"
    unfolding replay_ok_def
  proof (intro conjI ballI impI)
    fix b assume b: "b \<in> set pgs"
    have cb: "file_recs c b (recs b) \<and> (\<forall>r \<in> set (recs b). replay_route c (fst (snd r)) = fst b) \<and>
        (\<exists>g. map pi_gen (active_of (zc_index c) (fst b)) = [g] \<and> snd b \<le> g) \<and>
        (recs b \<noteq> [] \<longrightarrow> (\<forall>i \<in> set (frozen_of (zc_index c) (fst b)). pi_gen i \<le> snd b))"
      and ord: "fst pg = fst b \<and> recs pg \<noteq> [] \<and> recs b \<noteq> [] \<longrightarrow> snd pg \<le> snd b"
      using Cons.prems(1) b by (auto simp: replay_ok_def)
    show "file_recs ?c b (recs b)" using cb by (simp add: file_recs_def)
    show "replay_route ?c (fst (snd r)) = fst b" if "r \<in> set (recs b)" for r using cb that by simp
    show "\<exists>g. map pi_gen (active_of (zc_index ?c) (fst b)) = [g] \<and> snd b \<le> g" using cb ix(3) by simp
    fix i assume i: "recs b \<noteq> []" "i \<in> set (frozen_of (zc_index ?c) (fst b))"
    have "pi_gen i \<in> pi_gen ` set (frozen_of (zc_index c) (fst b)) \<union> (if fst b = fst pg \<and> recs pg \<noteq> [] then {snd pg} else {})"
      using ix(4) i(2) by (simp add: image_subset_iff)
    then show "pi_gen i \<le> snd b" using cb i(1) ord by (auto split: if_splits)
  next
    show "sorted_wrt (\<lambda>a b. fst a = fst b \<and> recs a \<noteq> [] \<and> recs b \<noteq> [] \<longrightarrow> snd a \<le> snd b) pgs" using Cons.prems(1) by (simp add: replay_ok_def)
  qed
  obtain ix' where ix': "recover_files ?c pgs (foldl max mx (map rec_seq (recs pg))) rnd =
      Some (foldl max (foldl max mx (map rec_seq (recs pg))) (map rec_seq (concat (map recs pgs))), ?c\<lparr>zc_index := ix'\<rparr>)"
    "rix_inv ((H @ ?F) @ ?D) ix'" "\<forall>q. map pi_gen (active_of ix' q) = map pi_gen (active_of ix q)"
    using Cons.IH [OF rok, of "H @ ?F" "foldl max mx (map rec_seq (recs pg))"] Cons.prems(2,3) ix(2) fit by auto
  have "recover_files c (pg # pgs) mx rnd = Some (foldl max mx (map rec_seq (concat (map recs (pg # pgs)))), c\<lparr>zc_index := ix'\<rparr>)"
    using ix(1) ix'(1) by (simp add: Let_def)
  then show ?case using ix'(2,3) ix(3) by (intro exI [of _ ix'] conjI) simp_all
qed

section \<open>Generations, active indexes and the order of replay\<close>

lemma MaxGen_alt: "MaxGen part all = foldl (\<lambda>mx x. if fst x = part then max mx (snd x) else mx) 0 all"
proof -
  have "foldl (\<lambda>(mx, found) p. if fst p = part \<and> snd p > mx then (snd p, True) else (mx, found)) (m, m \<noteq> 0) all =
      (let m' = foldl (\<lambda>mx x. if fst x = part then max mx (snd x) else mx) m all in (m', m' \<noteq> 0))" for m :: u32
  proof (induction all arbitrary: m)
    case (Cons x all)
    have "(if fst x = part \<and> snd x > m then (snd x, True) else (m, m \<noteq> 0)) =
        (let m' = (if fst x = part then max m (snd x) else m) in (m', m' \<noteq> 0))"
      by (auto simp: Let_def max_def not_less)
    then show ?case using Cons [of "if fst x = part then max m (snd x) else m"] by (simp only: foldl_Cons prod.case Let_def)
  qed simp
  from this [of 0] show ?thesis by (simp add: MaxGen_def Let_def)
qed

lemma MaxGen_ge: "(part, g) \<in> set all \<Longrightarrow> g \<le> MaxGen part all"
proof -
  have "m \<le> foldl (\<lambda>mx x. if fst x = part then max mx (snd x) else mx) m all \<and>
      ((part, g) \<in> set all \<longrightarrow> g \<le> foldl (\<lambda>mx x. if fst x = part then max mx (snd x) else mx) m all)" for m :: u32
  proof (induction all arbitrary: m)
    case (Cons x all)
    show ?case using Cons [of "if fst x = part then max m (snd x) else m"] by (cases x) (auto simp: max_def split: if_splits)
  qed simp
  then show "(part, g) \<in> set all \<Longrightarrow> g \<le> MaxGen part all" unfolding MaxGen_alt by blast
qed

lemma MaxGen_mem: "MaxGen part all = 0 \<or> (part, MaxGen part all) \<in> set all"
proof -
  have "foldl (\<lambda>mx x. if fst x = part then max mx (snd x) else mx) m all = m \<or>
      (part, foldl (\<lambda>mx x. if fst x = part then max mx (snd x) else mx) m all) \<in> set all" for m :: u32
  proof (induction all arbitrary: m)
    case (Cons x all)
    show ?case using Cons [of "if fst x = part then max m (snd x) else m"] by (auto simp: max_def prod_eq_iff split: if_splits)
  qed simp
  then show ?thesis unfolding MaxGen_alt by blast
qed

lemma EnsureActive_new:
  assumes "\<forall>q. active_of s q = [] \<or> active_of s q = [new_PartitionIndex q (g q)]" "\<forall>q. frozen_of s q = []"
  shows "\<forall>q. active_of (EnsureActive s p (g p)) q = (if q = p then [new_PartitionIndex q (g q)] else active_of s q)"
    "\<forall>q. frozen_of (EnsureActive s p (g p)) q = []"
proof -
  have "map_of (ix_active s) p = Some idx \<Longrightarrow> idx = new_PartitionIndex p (g p)" for idx
    using assms(1) [rule_format, of p] by (simp add: active_of_def)
  then show "\<forall>q. active_of (EnsureActive s p (g p)) q = (if q = p then [new_PartitionIndex q (g q)] else active_of s q)"
    "\<forall>q. frozen_of (EnsureActive s p (g p)) q = []"
    using assms(2) by (auto simp: EnsureActive_def new_PartitionIndex_def active_of_def split: option.splits)
qed

lemma ensure_fold:
  assumes "\<forall>q. active_of s q = [] \<or> active_of s q = [new_PartitionIndex q (g q)]" "\<forall>q. frozen_of s q = []"
  shows "(\<forall>q. active_of (foldl (\<lambda>ix p. EnsureActive ix p (g p)) s ps) q = (if q \<in> set ps then [new_PartitionIndex q (g q)] else active_of s q)) \<and>
    (\<forall>q. frozen_of (foldl (\<lambda>ix p. EnsureActive ix p (g p)) s ps) q = [])"
  using assms
proof (induction ps arbitrary: s)
  case (Cons p ps)
  note e = EnsureActive_new [OF Cons.prems, of p]
  show ?case using Cons.IH [OF _ e(2)] e(1) Cons.prems(1) by auto
qed simp

text \<open>The indexes recovery starts from: an empty active index per partition.\<close>

lemma ensure_actives_start:
  assumes "zc_index c = new_PartitionIndexSet"
  shows "rix_inv [] (zc_index (ensure_actives c files))"
    "active_of (zc_index (ensure_actives c files)) q = (if q \<in> set (recover_parts c files) then [new_PartitionIndex q (MaxGen q files)] else [])"
    "frozen_of (zc_index (ensure_actives c files)) q = []"
proof -
  let ?s = "zc_index (ensure_actives c files)"
  have "active_of new_PartitionIndexSet q = []" "frozen_of new_PartitionIndexSet q = []" for q
    by (simp_all add: active_of_def frozen_of_def new_PartitionIndexSet_def)
  then have e: "\<forall>q. active_of ?s q = (if q \<in> set (recover_parts c files) then [new_PartitionIndex q (MaxGen q files)] else [])"
    "\<forall>q. frozen_of ?s q = []"
    using ensure_fold [of new_PartitionIndexSet "\<lambda>q. MaxGen q files" "recover_parts c files"] assms by (simp_all add: ensure_actives_def)
  show "active_of ?s q = (if q \<in> set (recover_parts c files) then [new_PartitionIndex q (MaxGen q files)] else [])" "frozen_of ?s q = []"
    using e by simp_all
  have "chain_inv [] p (ix_chain ?s p)" for p using e new_idx_inv by (auto simp: chain_inv_def ix_chain_def gen_entries_def)
  then show "rix_inv [] ?s" using e by (simp add: rix_inv_def blooms_ok_def)
qed

interpretation seq_order: user_comparator seq_cmp
  by unfold_locales (auto simp: seq_cmp_def split: if_splits)

text \<open>Files are replayed by first sequence number; so the generations of a partition come in their order.\<close>

lemma replay_order_sorted:
  assumes "\<forall>pg \<in> set files. file_recs c pg (recs pg)" "\<forall>op. \<not> e_fail (zc_env c) op"
    and mono: "\<forall>a \<in> set files. \<forall>b \<in> set files. fst a = fst b \<and> snd a < snd b \<longrightarrow> (\<forall>r \<in> set (recs a). \<forall>r' \<in> set (recs b). rec_seq r < rec_seq r')"
  shows "sorted_wrt (\<lambda>a b. fst a = fst b \<and> recs a \<noteq> [] \<and> recs b \<noteq> [] \<longrightarrow> snd a \<le> snd b) (replay_order (zc_env c) (zc_wal_dir c) files)"
    "set (replay_order (zc_env c) (zc_wal_dir c) files) = set files" "mset (replay_order (zc_env c) (zc_wal_dir c) files) = mset files"
proof -
  let ?fs = "first_seq (zc_env c) (zc_wal_dir c)" and ?xs = "sort_cmp seq_cmp (map (\<lambda>pg. (pg, first_seq (zc_env c) (zc_wal_dir c) pg)) files)"
  show m: "mset (replay_order (zc_env c) (zc_wal_dir c) files) = mset files"
    by (simp add: replay_order_def multiset.map_comp comp_def)
  then show "set (replay_order (zc_env c) (zc_wal_dir c) files) = set files" by (metis set_mset_mset)
  have fs: "?fs pg = rec_seq (hd (recs pg))" if "pg \<in> set files" "recs pg \<noteq> []" for pg
    using first_seq_recs [of c pg "hd (recs pg)" "tl (recs pg)"] assms(1,2) that by simp
  have sorted: "sorted_wrt (\<lambda>a b. seq_cmp a b \<le> 0) ?xs" by (rule seq_order.sorted_sort_cmp)
  have "sorted_wrt (\<lambda>x y. fst (fst x) = fst (fst y) \<and> recs (fst x) \<noteq> [] \<and> recs (fst y) \<noteq> [] \<longrightarrow> snd (fst x) \<le> snd (fst y)) ?xs"
  proof (rule sorted_wrt_mono_rel [OF _ sorted])
    fix x y assume xy: "x \<in> set ?xs" "y \<in> set ?xs" "seq_cmp x y \<le> 0"
    obtain a b where ab: "x = (a, ?fs a)" "y = (b, ?fs b)" "a \<in> set files" "b \<in> set files" using xy(1,2) by auto
    have "snd a \<le> snd b" if "fst a = fst b" "recs a \<noteq> []" "recs b \<noteq> []"
    proof (rule ccontr)
      assume "\<not> snd a \<le> snd b"
      then have "rec_seq (hd (recs b)) < rec_seq (hd (recs a))" using mono ab(3,4) that by (auto simp: not_le)
      then show False using xy(3) fs ab that by (auto simp: seq_cmp_def split: if_splits)
    qed
    then show "fst (fst x) = fst (fst y) \<and> recs (fst x) \<noteq> [] \<and> recs (fst y) \<noteq> [] \<longrightarrow> snd (fst x) \<le> snd (fst y)" using ab(1,2) by simp
  qed
  then show "sorted_wrt (\<lambda>a b. fst a = fst b \<and> recs a \<noteq> [] \<and> recs b \<noteq> [] \<longrightarrow> snd a \<le> snd b) (replay_order (zc_env c) (zc_wal_dir c) files)"
    by (simp add: replay_order_def sorted_wrt_map)
qed

section \<open>Opening the manager\<close>

lemma mset_sort_any: "mset (sort_cmp cmp xs) = mset xs"
proof -
  have "mset (insort_cmp cmp x ys) = add_mset x (mset ys)" for x ys by (induction ys) auto
  then show ?thesis by (induction xs) auto
qed

lemma MaxGen_file: "(q, g) \<in> set all \<Longrightarrow> (q, MaxGen q all) \<in> set all"
  using MaxGen_mem [of q all] MaxGen_ge [of q g all] by auto

lemma ListFiles_complete:
  assumes "ListFiles e dir = Inr files" "e_content e (MakeFileName dir part gen) \<noteq> None"
  shows "(part, gen) \<in> set files"
proof -
  have parse: "parse_names ns = Inr out \<Longrightarrow> n \<in> set ns \<Longrightarrow> ParseFileName n = Inr (Some (p, g)) \<Longrightarrow> (p, g) \<in> set out" for ns n p g out
    by (induction ns arbitrary: out) (auto simp: res_bind_Inr split: option.splits)
  obtain children out where ch: "env_GetChildren e dir = Inr children" "parse_names children = Inr out" "files = sort_cmp pair_cmp out \<or> files = []"
    "env_GetChildren e dir = Inr children \<longrightarrow> files = sort_cmp pair_cmp out"
    using assms(1) by (auto simp: ListFiles_def env_GetChildren_def io_error_def res_bind_Inr split: if_splits)
  have "MakeFileName dir part gen \<in> fst ` set (e_files e)" using assms(2) by (auto simp: e_content_def map_of_eq_None_iff)
  then have "wal_name part gen \<in> set children"
    using ch(1) child_of_MakeFileName [of dir part gen]
    by (force simp: env_GetChildren_def List.map_filter_def image_iff split: if_splits)
  then have "(part, gen) \<in> set out" using parse [OF ch(2)] Parse_wal_name by blast
  then show ?thesis using ch(1,4) mset_sort_any [of pair_cmp out] by (metis set_mset_mset)
qed

definition opened_part :: "env \<Rightarrow> string \<Rightarrow> (u32 \<times> u32) list \<Rightarrow> u32 \<Rightarrow> Partition \<Rightarrow> bool" where
  "opened_part e dir all q p \<longleftrightarrow>
     pt_part_id p = q \<and> pt_gen p = MaxGen q all \<and> part_wf e dir p \<and> pt_wfile p = None \<and> pt_buf p = [] \<and>
     ((\<exists>g. (q, g) \<in> set all) \<longrightarrow> pt_rfile p \<noteq> None)"

lemma open_part_ok:
  assumes p: "find_part m i = Some (new_Partition i)" and nf: "\<forall>op. \<not> e_fail e op"
    and files: "\<forall>pg. pg \<in> set all \<longleftrightarrow> e_content e (MakeFileName (wm_dir m) (fst pg) (snd pg)) \<noteq> None"
  shows "\<exists>p'. open_part e m all i = (Inr (), (set_part m i p')\<lparr>wm_total_active := wm_total_active m + pt_active_bytes p'\<rparr>) \<and>
    opened_part e (wm_dir m) all i p'"
proof (cases "\<exists>g. (i, g) \<in> set all")
  case False
  have none: "e_content e (MakeFileName (wm_dir m) i g) = None" for g using files [rule_format, of "(i, g)"] False by auto
  have mg: "MaxGen i all = 0" using MaxGen_mem [of i all] False by blast
  have nl: "\<not> list_ex (\<lambda>fg. fst fg = i) all" using False by (force simp: list_ex_iff)
  let ?p = "(new_Partition i)\<lparr>pt_gen := 0, pt_flushed_size := 0, pt_total_size := 0, pt_buf := []\<rparr>"
  have "opened_part e (wm_dir m) all i ?p"
    using False none mg by (simp add: opened_part_def part_wf_def new_Partition_def FileName_def file_bytes_def)
  moreover have "(set_part m i ?p)\<lparr>wm_total_active := wm_total_active m + pt_active_bytes ?p\<rparr> = set_part m i ?p"
    by (simp add: new_Partition_def set_part_def)
  moreover have "open_part e m all i = (Inr (), set_part m i ?p)" using p nl by (simp add: open_part_def)
  ultimately show ?thesis by (intro exI [of _ ?p]) simp
next
  case True
  then obtain g where g: "(i, g) \<in> set all" by blast
  have l: "list_ex (\<lambda>fg. fst fg = i) all" using g by (force simp: list_ex_iff)
  let ?f = "MakeFileName (wm_dir m) i (MaxGen i all)"
  obtain content where c: "e_content e ?f = Some content" using files [rule_format, of "(i, MaxGen i all)"] MaxGen_file [OF g] by auto
  let ?p = "(new_Partition i)\<lparr>pt_gen := MaxGen i all, pt_rfile := Some ?f, pt_flushed_size := length content, pt_total_size := length content,
    pt_active_bytes := of_nat (length content), pt_buf := []\<rparr>"
  have "opened_part e (wm_dir m) all i ?p"
    using c by (simp add: opened_part_def part_wf_def new_Partition_def FileName_def file_bytes_def)
  moreover have "open_part e m all i = (Inr (), (set_part m i ?p)\<lparr>wm_total_active := wm_total_active m + pt_active_bytes ?p\<rparr>)"
    using p l c nf by (simp add: open_part_def Let_def NewRandomAccessFile_def env_GetFileSize_def)
  ultimately show ?thesis by blast
qed

lemma open_parts_ok:
  assumes "\<forall>i \<in> set is. find_part m i = Some (new_Partition i)" "distinct is" "\<forall>op. \<not> e_fail e op"
    "\<forall>pg. pg \<in> set all \<longleftrightarrow> e_content e (MakeFileName (wm_dir m) (fst pg) (snd pg)) \<noteq> None"
    "distinct (map fst (wm_parts m))" "wm_total_active m = wm_counter m"
  shows "\<exists>m'. open_parts e m all is = (Inr (), m') \<and> wm_dir m' = wm_dir m \<and> distinct (map fst (wm_parts m')) \<and> wm_total_active m' = wm_counter m' \<and>
    (\<forall>q. if q \<in> set is then \<exists>p. find_part m' q = Some p \<and> opened_part e (wm_dir m) all q p else find_part m' q = find_part m q)"
  using assms
proof (induction "is" arbitrary: m)
  case (Cons i "is")
  obtain p where p: "open_part e m all i = (Inr (), (set_part m i p)\<lparr>wm_total_active := wm_total_active m + pt_active_bytes p\<rparr>)"
    "opened_part e (wm_dir m) all i p"
    using open_part_ok [OF _ Cons.prems(3,4), of i] Cons.prems(1) by auto
  define m1 where "m1 = (set_part m i p)\<lparr>wm_total_active := wm_total_active m + pt_active_bytes p\<rparr>"
  have dir: "wm_dir m1 = wm_dir m" and find: "find_part m1 q = (if q = i then Some p else find_part m q)" for q by (simp_all add: m1_def)
  have "wm_total_active m1 = wm_counter m1"
    using wm_counter_set_part [OF Cons.prems(5), of i p] Cons.prems(1,6) by (simp add: new_Partition_def m1_def)
  moreover have "distinct (map fst (wm_parts m1))" using distinct_set_part [OF Cons.prems(5)] by (simp add: m1_def)
  moreover have "\<forall>j \<in> set is. find_part m1 j = Some (new_Partition j)" using Cons.prems(1,2) by (auto simp: find)
  ultimately obtain m' where m': "open_parts e m1 all is = (Inr (), m')" "wm_dir m' = wm_dir m" "distinct (map fst (wm_parts m'))" "wm_total_active m' = wm_counter m'"
    "\<forall>q. if q \<in> set is then \<exists>p. find_part m' q = Some p \<and> opened_part e (wm_dir m) all q p else find_part m' q = find_part m1 q"
    using Cons.IH [of m1] Cons.prems(2-4) unfolding dir by fastforce
  have "if q \<in> set (i # is) then \<exists>p. find_part m' q = Some p \<and> opened_part e (wm_dir m) all q p else find_part m' q = find_part m q" for q
    using m'(5) [rule_format, of q] p(2) Cons.prems(2) by (cases "q = i") (auto simp: find split: if_splits)
  then show ?case using p(1) m' by (simp add: m1_def)
qed simp

lemma wal_Open_recovers:
  assumes files: "ListFiles e dir = Inr files" "\<forall>pg \<in> set files. e_content e (MakeFileName dir (fst pg) (snd pg)) \<noteq> None"
    and nf: "\<forall>op. \<not> e_fail e op" and small: "\<forall>pg \<in> set files. fst pg < n"
  shows "\<exists>m. wal_Open e (new_WalManager dir n target) = (Inr (), m) \<and> wal_inv (e, m) \<and> wm_dir m = dir \<and>
    (\<forall>q. if q < n then \<exists>p. find_part m q = Some p \<and> opened_part e dir files q p else find_part m q = None)"
proof -
  let ?m = "new_WalManager dir n target" and ?is = "map of_nat [0..<unat n] :: u32 list"
  have dir: "wm_dir ?m = dir" "wm_partitions ?m = n" by (simp_all add: new_WalManager_def)
  have u: "unat (of_nat i :: u32) = i" if "i < unat n" for i by (rule unat_of_nat_small) (use that unat_u32_less [of n] in simp)
  have inj: "inj_on (\<lambda>i. of_nat i :: u32) {0..<unat n}" by (rule inj_onI) (metis atLeastLessThan_iff u)
  have ids: "set ?is = {q. q < n}"
  proof
    show "set ?is \<subseteq> {q. q < n}" using u by (auto simp: word_less_nat_alt)
    show "{q. q < n} \<subseteq> set ?is" by (auto simp: word_less_nat_alt intro!: image_eqI [where x = "unat q" for q])
  qed
  have d: "distinct (map fst (wm_parts ?m))" using inj by (simp add: new_WalManager_def comp_def distinct_map)
  have cnt: "wm_total_active ?m = wm_counter ?m" by (simp add: wm_counter_def new_WalManager_def new_Partition_def comp_def)
  have ex: "\<forall>pg. pg \<in> set files \<longleftrightarrow> e_content e (MakeFileName (wm_dir ?m) (fst pg) (snd pg)) \<noteq> None"
    using files ListFiles_complete [OF files(1)] unfolding dir by (metis prod.collapse)
  have new: "\<forall>i \<in> set ?is. find_part ?m i = Some (new_Partition i)" using ids by (simp add: find_new_manager word_less_nat_alt)
  have di: "distinct ?is" using inj by (simp add: distinct_map)
  obtain m where m: "open_parts e ?m files ?is = (Inr (), m)" "wm_dir m = dir" "distinct (map fst (wm_parts m))" "wm_total_active m = wm_counter m"
    "\<forall>q. if q \<in> set ?is then \<exists>p. find_part m q = Some p \<and> opened_part e dir files q p else find_part m q = find_part ?m q"
    using open_parts_ok [OF new di nf ex d cnt] unfolding dir by blast
  have parts: "if q < n then \<exists>p. find_part m q = Some p \<and> opened_part e dir files q p else find_part m q = None" for q
    using m(5) [rule_format, of q] unfolding ids by (simp add: find_new_manager word_less_nat_alt split: if_splits)
  have free: "wm_paths_free e m"
    unfolding wm_paths_free_def m(2)
  proof (intro allI impI)
    fix part gen assume "find_part m part = None"
    then have "\<not> part < n" using parts [of part] by auto
    then show "e_content e (MakeFileName dir part gen) = None" using ListFiles_complete [OF files(1), of part gen] small by force
  qed
  have "pt_part_id p = q \<and> part_wf e dir p \<and> pt_wfile p = None" if "find_part m q = Some p" for q p
    using parts [of q] that by (auto simp: opened_part_def split: if_splits)
  then have "wal_inv (e, m)" using free m nf unfolding wal_inv_def mgr_wf_def by auto
  moreover have "wal_Open e ?m = (Inr (), m)" using m(1) files(1) nf by (simp add: wal_Open_def dir env_CreateDirIfMissing_def)
  ultimately show ?thesis using m(2) parts by blast
qed

section \<open>The recovered context\<close>

text \<open>The context as \<^verbatim>\<open>Open\<close> has it before it opens the manager, with a fixed table.\<close>

definition fresh_context :: "PartitionTable \<Rightarrow> ZeroFlushContext \<Rightarrow> bool" where
  "fresh_context t c \<longleftrightarrow> fixed_table t c \<and> zo_value_cache_bytes (zc_zfo c) = 0 \<and>
     zc_wal c = new_WalManager (zc_wal_dir c) (zo_partitions (zc_zfo c)) (zo_partition_target_bytes (zc_zfo c)) \<and>
     zc_sealed c = new_SealedFileCache (zc_wal_dir c) (zo_max_open_sealed_files (zc_zfo c)) (zo_reclaim_sealed_files (zc_zfo c)) \<and>
     zc_index c = new_PartitionIndexSet \<and> list_all (\<lambda>p. p < zo_partitions (zc_zfo c)) (t_part_ids t)"

text \<open>The directory: every file belongs to a partition, holds complete records routed to it, no range deletions, and
  perhaps a torn tail; later generations of a partition have later sequence numbers; no sequence number occurs twice.\<close>

definition wal_directory :: "PartitionTable \<Rightarrow> ZeroFlushContext \<Rightarrow> (u32 \<times> u32) list \<Rightarrow> (u32 \<times> u32 \<Rightarrow> zf_rec list) \<Rightarrow> bool" where
  "wal_directory t c files recs \<longleftrightarrow>
     ListFiles (zc_env c) (zc_wal_dir c) = Inr files \<and> (\<forall>op. \<not> e_fail (zc_env c) op) \<and>
     (\<forall>pg \<in> set files. fst pg < zo_partitions (zc_zfo c) \<and> file_recs c pg (recs pg) \<and>
        (\<forall>r \<in> set (recs pg). PT_Route t (fst (snd r)) = fst pg \<and> h_type (fst r) \<noteq> kTypeRangeDeletion) \<and> length (concat (map rec_bytes (recs pg))) < 2 ^ 64) \<and>
     (\<forall>a \<in> set files. \<forall>b \<in> set files. fst a = fst b \<and> snd a < snd b \<longrightarrow> (\<forall>r \<in> set (recs a). \<forall>r' \<in> set (recs b). rec_seq r < rec_seq r')) \<and>
     entries_fit (map fst (dir_history (PT_Route t) recs files))"

definition recovered_history :: "PartitionTable \<Rightarrow> (u32 \<times> u32) list \<Rightarrow> (u32 \<times> u32 \<Rightarrow> zf_rec list) \<Rightarrow> history" where
  "recovered_history t files recs = sort_key (\<lambda>x. r_seq (fst x)) (dir_history (PT_Route t) recs files)"

lemma entries_fit_mset:
  assumes "entries_fit H" "mset H' = mset H"
  shows "entries_fit H'"
proof -
  have "set H' = set H" using assms(2) by (metis set_mset_mset)
  moreover have "mset (map r_seq H') = mset (map r_seq H)" using assms(2) by simp
  then have "distinct (map r_seq H') = distinct (map r_seq H)" by (metis mset_eq_imp_distinct_iff)
  moreover have "index_bytes H' = index_bytes H"
    unfolding index_bytes_def using assms(2) by (metis mset_map sum_mset_sum_list)
  ultimately show ?thesis using assms(1) by (simp add: entries_fit_def list_all_iff)
qed

lemma mset_dir_history:
  assumes "mset pgs = mset pgs'"
  shows "mset (dir_history route recs pgs) = mset (dir_history route recs pgs')"
proof -
  have "mset (dir_history route recs ps) = sum_mset (image_mset (\<lambda>pg. mset (file_history route pg 0 (recs pg))) (mset ps))" for ps
    by (induction ps) simp_all
  then show ?thesis using assms by simp
qed

text \<open>The order-free invariant gives the one of \<open>ZfIndexHistory\<close> for the entries in the order of their sequence
  numbers.\<close>

lemma chain_inv_part_inv:
  assumes inv: "chain_inv G p c" and set: "set H = set G"
    and mono: "\<forall>r \<in> set G. \<forall>r' \<in> set G. r_part r = r_part r' \<and> r_igen r < r_igen r' \<longrightarrow> r_seq r < r_seq r'"
  shows "part_inv H p c"
proof -
  have ge: "gen_entries H p g = gen_entries G p g" for g by (simp add: gen_entries_def set)
  have s: "sorted_wrt (\<lambda>i j. pi_gen i < pi_gen j) c" using inv by (simp add: chain_inv_def sorted_wrt_map)
  then have "sorted_wrt (\<lambda>i j. \<forall>r \<in> gen_entries H p (pi_gen i). \<forall>r' \<in> gen_entries H p (pi_gen j). r_seq r < r_seq r') c"
    by (rule sorted_wrt_mono_rel [rotated]) (use mono in \<open>auto simp: gen_entries_def set\<close>)
  moreover have "distinct (map pi_gen c)" by (rule sorted_wrt_imp_distinct [of "(<)"]) (use inv in \<open>simp_all add: chain_inv_def\<close>)
  ultimately show ?thesis using inv by (simp add: part_inv_def chain_inv_def ge set)
qed

lemma rix_inv_ix_inv:
  assumes inv: "rix_inv G s" and set: "set H = set G" and sorted: "sorted_wrt (\<lambda>a b. r_seq a < r_seq b) H"
    and mono: "\<forall>r \<in> set G. \<forall>r' \<in> set G. r_part r = r_part r' \<and> r_igen r < r_igen r' \<longrightarrow> r_seq r < r_seq r'"
  shows "ix_inv H s"
  using assms chain_inv_part_inv [OF _ set mono] by (simp add: ix_inv_def rix_inv_def blooms_ok_def)

lemma sort_key_strict:
  fixes f :: "'a \<Rightarrow> 'b::linorder"
  assumes "distinct (map f xs)"
  shows "sorted_wrt (\<lambda>a b. f a < f b) (sort_key f xs)"
proof -
  have "mset (map f (sort_key f xs)) = mset (map f xs)" by simp
  then have "distinct (map f (sort_key f xs))" using assms by (metis mset_eq_imp_distinct_iff)
  then have "sorted_wrt (<) (map f (sort_key f xs))" using sorted_sort_key [of f xs] strict_sorted_iff by blast
  then show ?thesis by (simp add: sorted_wrt_map)
qed

lemma file_history_mem:
  "x \<in> set (file_history route pg off rs) \<Longrightarrow>
   \<exists>ys r zs. rs = ys @ r # zs \<and> x = rec_entry route pg (off + length (concat (map rec_bytes ys))) r"
proof (induction rs arbitrary: off)
  case (Cons r rs)
  show ?case
  proof (cases "x = rec_entry route pg off r")
    case True
    then show ?thesis by (intro exI [of _ "[]"] exI) simp
  next
    case False
    then obtain ys r' zs where "rs = ys @ r' # zs" "x = rec_entry route pg (off + length (rec_bytes r) + length (concat (map rec_bytes ys))) r'"
      using Cons.IH [of "off + length (rec_bytes r)"] Cons.prems by auto
    then show ?thesis by (intro exI [of _ "r # ys"] exI [of _ r'] exI [of _ zs]) (simp add: add.assoc)
  qed
qed simp

lemma dir_history_mem:
  assumes "x \<in> set (dir_history route recs files)"
  obtains pg ys r zs where "pg \<in> set files" "recs pg = ys @ r # zs" "x = rec_entry route pg (length (concat (map rec_bytes ys))) r"
proof -
  obtain pg where pg: "pg \<in> set files" "x \<in> set (file_history route pg 0 (recs pg))" using assms by (auto simp: dir_history_def)
  then show thesis using file_history_mem [OF pg(2)] that [OF pg(1)] by auto
qed

lemma wal_directoryD:
  assumes "wal_directory t c files recs"
  shows "ListFiles (zc_env c) (zc_wal_dir c) = Inr files" "\<forall>op. \<not> e_fail (zc_env c) op"
    "pg \<in> set files \<Longrightarrow> fst pg < zo_partitions (zc_zfo c)" "pg \<in> set files \<Longrightarrow> file_recs c pg (recs pg)"
    "pg \<in> set files \<Longrightarrow> r \<in> set (recs pg) \<Longrightarrow> PT_Route t (fst (snd r)) = fst pg"
    "pg \<in> set files \<Longrightarrow> length (concat (map rec_bytes (recs pg))) < 2 ^ 64"
    "\<forall>a \<in> set files. \<forall>b \<in> set files. fst a = fst b \<and> snd a < snd b \<longrightarrow> (\<forall>r \<in> set (recs a). \<forall>r' \<in> set (recs b). rec_seq r < rec_seq r')"
    "entries_fit (map fst (dir_history (PT_Route t) recs files))"
    "pg \<in> set files \<Longrightarrow> r \<in> set (recs pg) \<Longrightarrow> h_type (fst r) \<noteq> kTypeRangeDeletion"
  using assms by (simp_all add: wal_directory_def)

lemma registered_orphans:
  assumes "zc_sealed c = new_SealedFileCache dir n b"
  shows "registered (zc_sealed (register_orphans c files)) = set (recover_orphans (recover_parts c files) files)"
    "sf_pending (zc_sealed (register_orphans c files)) = []" "sf_epochs (zc_sealed (register_orphans c files)) = []"
    "sf_dir (zc_sealed (register_orphans c files)) = dir"
    "cache_inv (zc_sealed (register_orphans c files))" "handles_inv (zc_sealed (register_orphans c files))"
proof -
  let ?s = "new_SealedFileCache dir n b"
  have reg0: "registered ?s = {}" by (simp add: registered_def gen_registered_def new_SealedFileCache_def)
  have inv0: "cache_inv ?s" "handles_inv ?s" by (auto simp: cache_inv_def handles_inv_def new_SealedFileCache_def epoch_gens_def epoch_refs_def waiting_def registered_def gen_registered_def)
  have reg: "registered (AddRecoveryGens ?s gens k) = set gens" for gens k
    by (auto simp: registered_def gen_registered_def AddRecoveryGens_def new_SealedFileCache_def)
  have "cache_inv (AddRecoveryGens ?s gens k)" for gens k
    by (rule AddRecoveryGens_inv [OF inv0(1)]) (simp add: reg0, simp add: new_SealedFileCache_def)
  moreover have "handles_inv (AddRecoveryGens ?s gens k)" for gens k
    using inv0(2) by (simp add: handles_inv_def AddRecoveryGens_def sealed_FileName_def)
  ultimately show "registered (zc_sealed (register_orphans c files)) = set (recover_orphans (recover_parts c files) files)"
    "sf_pending (zc_sealed (register_orphans c files)) = []" "sf_epochs (zc_sealed (register_orphans c files)) = []"
    "sf_dir (zc_sealed (register_orphans c files)) = dir"
    "cache_inv (zc_sealed (register_orphans c files))" "handles_inv (zc_sealed (register_orphans c files))"
    using assms reg0 reg inv0 by (auto simp: register_orphans_def Let_def AddRecoveryGens_def new_SealedFileCache_def)
qed

lemma set_recover_orphans:
  "set (recover_orphans (recover_parts c files) files) = {pg \<in> set files. snd pg < MaxGen (fst pg) files}"
  by (auto simp: recover_orphans_def recover_parts_def)

lemma replay_route_fixed: "fixed_table t c \<Longrightarrow> replay_route c = PT_Route t"
  by (auto simp: fun_eq_iff replay_route_def RouteWithVersion_def fixed_table_def current_table_def set_current_def bind_eq_Some_conv)

text \<open>The record of every entry is where its locator says.\<close>

lemma recovered_stored:
  assumes dir: "wal_directory t c files recs" and m: "\<forall>q. if q < zo_partitions (zc_zfo c) then \<exists>p. find_part m q = Some p \<and> opened_part (zc_env c) (zc_wal_dir c) files q p else find_part m q = None"
    and md: "wm_dir m = zc_wal_dir c" and x: "x \<in> set (dir_history (PT_Route t) recs files)"
    and c': "zc_env c' = zc_env c" "zc_wal c' = m" "zc_wal_dir c' = zc_wal_dir c" "registered (zc_sealed c') = {pg \<in> set files. snd pg < MaxGen (fst pg) files}"
  shows "entry_stored {} c' (fst x) (snd x) \<and> r_part (fst x) = rec_part t (r_key (fst x)) (r_type (fst x))"
proof -
  obtain pg ys r zs where pg: "pg \<in> set files" "recs pg = ys @ r # zs" "x = rec_entry (PT_Route t) pg (length (concat (map rec_bytes ys))) r"
    by (rule dir_history_mem [OF x])
  let ?off = "length (concat (map rec_bytes ys))"
  have part: "PT_Route t (fst (snd r)) = fst pg" using wal_directoryD(5) [OF dir pg(1), of r] pg(2) by simp
  obtain tail where content: "e_content (zc_env c) (MakeFileName (zc_wal_dir c) (fst pg) (snd pg)) = Some (concat (map rec_bytes (recs pg)) @ tail)"
    and ok: "rec_ok r" using wal_directoryD(4) [OF dir pg(1)] pg(2) by (auto simp: file_recs_def)
  have at: "rec_at (concat (map rec_bytes (recs pg)) @ tail) ?off r"
    unfolding rec_at_def
  proof (intro conjI exI)
    show "case r of (h, k, v) \<Rightarrow> zf_frame_ok h k v" using ok by (cases r) (simp add: rec_ok_def)
    show "concat (map rec_bytes (recs pg)) @ tail = concat (map rec_bytes ys) @ rec_bytes r @ (concat (map rec_bytes zs) @ tail)" using pg(2) by simp
  qed simp
  obtain p where p: "find_part m (fst pg) = Some p" "opened_part (zc_env c) (zc_wal_dir c) files (fst pg) p"
    using m [rule_format, of "fst pg"] wal_directoryD(3) [OF dir pg(1)] by auto
  have gen: "ActiveGen m (fst pg) = MaxGen (fst pg) files" using p by (simp add: ActiveGen_def opened_part_def)
  have "rec_stored {} c' (fst pg) (snd pg) ?off r"
  proof (cases "snd pg = MaxGen (fst pg) files")
    case True
    have f: "FileName (zc_wal_dir c) p = MakeFileName (zc_wal_dir c) (fst pg) (snd pg)" using p(2) True by (simp add: FileName_def opened_part_def)
    have wf: "part_wf (zc_env c) (zc_wal_dir c) p" "pt_buf p = []" "pt_rfile p \<noteq> None" using p(2) pg(1) by (auto simp: opened_part_def) (metis prod.collapse)+
    have log: "part_log (zc_env c) (zc_wal_dir c) p = concat (map rec_bytes (recs pg)) @ tail"
      using content f wf(2) by (simp add: part_log_def file_bytes_def)
    moreover have "?off + length (rec_bytes r) \<le> pt_flushed_size p"
      using wf(1) content f pg(2) by (simp add: part_wf_def file_bytes_def)
    ultimately have "wal_has (zc_env c, m) \<lparr> r_part_id = fst pg, r_gen = snd pg, r_offset = ?off \<rparr> r"
      using p at wf(3) True md by (simp add: wal_has_def opened_part_def)
    then show ?thesis using p(1) gen True c' by (simp add: rec_stored_def HasPartition_def)
  next
    case False
    then have "snd pg < MaxGen (fst pg) files" using MaxGen_ge [of "fst pg" "snd pg" files] pg(1) by simp
    then show ?thesis using p(1) gen False content at pg(1) c' by (auto simp: rec_stored_def HasPartition_def)
  qed
  moreover have "?off < 2 ^ 64" using wal_directoryD(6) [OF dir pg(1)] pg(2) by simp
  ultimately have "entry_stored {} c' (fst x) (snd x)"
    unfolding entry_stored_def using pg(3) part by (intro exI [of _ ?off] exI [of _ r]) simp
  moreover have "h_type (fst r) \<noteq> kTypeRangeDeletion" using wal_directoryD(9) [OF dir pg(1), of r] pg(2) by simp
  then have "r_type (fst x) \<noteq> kTypeRangeDeletion" using pg(3) by (cases r) (simp add: rec_entry_def)
  ultimately show ?thesis using pg(3) part by (simp add: rec_part_def)
qed

lemma recover_ctx_inv:
  assumes fresh: "fresh_context t c" and dir: "wal_directory t c files recs"
  shows "\<exists>c1 c'. open_wal c = (Inr (), c1) \<and>
    Recover c1 latest rnd = Some (Inr (max latest (foldl max 0 (map rec_seq (concat (map recs (replay_order (zc_env c) (zc_wal_dir c) files)))))), c') \<and>
    ctx_inv t {} (recovered_history t files recs) c' \<and> set (replay_order (zc_env c) (zc_wal_dir c) files) = set files"
proof -
  let ?P = "zo_partitions (zc_zfo c)" and ?e = "zc_env c" and ?d = "zc_wal_dir c"
  define ord where "ord = replay_order ?e ?d files"
  note D = wal_directoryD [OF dir]
  have fix_t: "fixed_table t c" "zc_ucmp c = Slice_compare" "zc_value_cache c = None" "current_table c = Some t"
    using fresh by (auto simp: fresh_context_def fixed_table_def)
  have files_ex: "\<forall>pg \<in> set files. e_content ?e (MakeFileName ?d (fst pg) (snd pg)) \<noteq> None"
  proof
    fix pg assume "pg \<in> set files"
    from D(4) [OF this] show "e_content ?e (MakeFileName ?d (fst pg) (snd pg)) \<noteq> None" by (auto simp: file_recs_def)
  qed
  have small: "\<forall>pg \<in> set files. fst pg < ?P" using D(3) by simp
  obtain m where m: "wal_Open ?e (zc_wal c) = (Inr (), m)" "wal_inv (?e, m)" "wm_dir m = ?d"
    "\<forall>q. if q < ?P then \<exists>p. find_part m q = Some p \<and> opened_part ?e ?d files q p else find_part m q = None"
    using wal_Open_recovers [OF D(1) files_ex D(2) small, of "zo_partition_target_bytes (zc_zfo c)"] fresh by (auto simp: fresh_context_def)
  define c1 where "c1 = c\<lparr>zc_wal := m\<rparr>"
  have open': "open_wal c = (Inr (), c1)" using m(1) fresh by (simp add: open_wal_def c1_def fresh_context_def)
  have c1: "zc_env c1 = ?e" "zc_wal_dir c1 = ?d" by (simp_all add: c1_def)
  define c2 where "c2 = ensure_actives (register_orphans c1 files) files"
  have c2: "zc_env c2 = ?e" "zc_wal_dir c2 = ?d" "zc_wal c2 = m" "zc_zfo c2 = zc_zfo c" "zc_tables c2 = zc_tables c" "zc_ucmp c2 = zc_ucmp c"
    "zc_value_cache c2 = zc_value_cache c" "zc_sealed c2 = zc_sealed (register_orphans c1 files)" "zc_epoch_counter c2 = zc_epoch_counter c"
    by (simp_all add: c2_def c1_def ensure_actives_def register_orphans_def Let_def)
  have sealed: "zc_sealed c1 = new_SealedFileCache ?d (zo_max_open_sealed_files (zc_zfo c)) (zo_reclaim_sealed_files (zc_zfo c))"
    using fresh by (simp add: c1_def fresh_context_def)
  note O = registered_orphans [OF sealed, of files]
  have idx0: "zc_index (register_orphans c1 files) = new_PartitionIndexSet" using fresh by (simp add: register_orphans_def Let_def c1_def fresh_context_def)
  note A = ensure_actives_start [OF idx0, of files, folded c2_def]
  have parts: "set (recover_parts (register_orphans c1 files) files) = set (t_part_ids t) \<union> fst ` set files"
  proof -
    have "seal_ids (register_orphans c1 files) = t_part_ids t" using fix_t(4) by (simp add: seal_ids_def current_table_def register_orphans_def Let_def c1_def)
    then show ?thesis by (simp add: recover_parts_def)
  qed
  have parts_small: "q < ?P" if "q \<in> set (recover_parts (register_orphans c1 files) files)" for q
    using that fresh small unfolding parts by (auto simp: fresh_context_def list_all_iff)
  have ft2: "fixed_table t c2" using fix_t fresh by (simp add: fixed_table_def current_table_def c2 fresh_context_def)
  note R = replay_order_sorted [of files c2 recs]
  have fr2: "file_recs c2 pg (recs pg)" if "pg \<in> set files" for pg using D(4) [OF that] by (simp add: file_recs_def c2)
  have ord: "sorted_wrt (\<lambda>a b. fst a = fst b \<and> recs a \<noteq> [] \<and> recs b \<noteq> [] \<longrightarrow> snd a \<le> snd b) ord" "set ord = set files" "mset ord = mset files"
    using R D(2,7) fr2 by (simp_all add: c2 ord_def)
  have rok: "replay_ok c2 recs ord"
    unfolding replay_ok_def replay_route_fixed [OF ft2]
  proof (intro conjI ballI ord(1))
    fix pg assume "pg \<in> set ord"
    then have pg: "pg \<in> set files" using ord(2) by simp
    show "file_recs c2 pg (recs pg)" by (rule fr2 [OF pg])
    show "PT_Route t (fst (snd r)) = fst pg" if "r \<in> set (recs pg)" for r by (rule D(5) [OF pg that])
    have "fst pg \<in> set (recover_parts (register_orphans c1 files) files)" using pg unfolding parts by simp
    then show "\<exists>g. map pi_gen (active_of (zc_index c2) (fst pg)) = [g] \<and> snd pg \<le> g"
      using MaxGen_ge [of "fst pg" "snd pg" files] pg by (simp add: A(2) new_PartitionIndex_def)
    show "recs pg \<noteq> [] \<longrightarrow> (\<forall>i \<in> set (frozen_of (zc_index c2) (fst pg)). pi_gen i \<le> snd pg)" by (simp add: A(3))
  qed
  let ?G = "dir_history (PT_Route t) recs ord" and ?H = "recovered_history t files recs"
  have mG: "mset ?G = mset (dir_history (PT_Route t) recs files)" by (rule mset_dir_history [OF ord(3)])
  have fit: "entries_fit (map fst ?G)" by (rule entries_fit_mset [OF D(8)]) (simp add: mG)
  obtain ix where ix: "recover_files c2 ord 0 rnd = Some (foldl max 0 (map rec_seq (concat (map recs ord))), c2\<lparr>zc_index := ix\<rparr>)"
    "rix_inv (map fst ?G) ix" "\<forall>q. map pi_gen (active_of ix q) = map pi_gen (active_of (zc_index c2) q)"
    using recover_files_replay [OF rok _ _ A(1), of 0 rnd] D(2) fix_t(2) fit unfolding replay_route_fixed [OF ft2] by (auto simp: c2)
  let ?c = "c2\<lparr>zc_index := ix\<rparr>"
  have rec: "Recover c1 latest rnd = Some (Inr (max latest (foldl max 0 (map rec_seq (concat (map recs ord))))), ?c)"
    unfolding Recover_def c1(1,2) D(1) sum.case Let_def c2_def [symmetric] c2(1,2) ord_def [symmetric] ix(1) by simp
  have sG: "set ?G = set (dir_history (PT_Route t) recs files)" using mG by (metis set_mset_mset)
  have sH: "set ?H = set (dir_history (PT_Route t) recs files)" by (simp add: recovered_history_def)
  have mono: "\<forall>r \<in> set (map fst ?G). \<forall>r' \<in> set (map fst ?G). r_part r = r_part r' \<and> r_igen r < r_igen r' \<longrightarrow> r_seq r < r_seq r'"
  proof (intro ballI impI)
    fix r r' assume "r \<in> set (map fst ?G)" "r' \<in> set (map fst ?G)" and lt: "r_part r = r_part r' \<and> r_igen r < r_igen r'"
    then obtain x x' where x: "x \<in> set (dir_history (PT_Route t) recs files)" "r = fst x" "x' \<in> set (dir_history (PT_Route t) recs files)" "r' = fst x'" using sG by auto
    obtain pg ys q zs where pg: "pg \<in> set files" "recs pg = ys @ q # zs" "x = rec_entry (PT_Route t) pg (length (concat (map rec_bytes ys))) q" by (rule dir_history_mem [OF x(1)])
    obtain pg' ys' q' zs' where pg': "pg' \<in> set files" "recs pg' = ys' @ q' # zs'" "x' = rec_entry (PT_Route t) pg' (length (concat (map rec_bytes ys'))) q'" by (rule dir_history_mem [OF x(3)])
    have "PT_Route t (fst (snd q)) = fst pg" "PT_Route t (fst (snd q')) = fst pg'" using D(5) [OF pg(1), of q] D(5) [OF pg'(1), of q'] pg(2) pg'(2) by simp_all
    then have "fst pg = fst pg'" "snd pg < snd pg'" using lt pg(3) pg'(3) x by simp_all
    then show "r_seq r < r_seq r'" using D(7) pg pg' x by simp
  qed
  have "distinct (map (\<lambda>x. r_seq (fst x)) (dir_history (PT_Route t) recs files))" using D(8) by (simp add: entries_fit_def comp_def)
  from sort_key_strict [OF this] have strict: "sorted_wrt (\<lambda>a b. r_seq a < r_seq b) (map fst ?H)" by (simp add: recovered_history_def sorted_wrt_map)
  have ixinv: "ix_inv (map fst ?H) ix" by (rule rix_inv_ix_inv [OF ix(2) _ strict mono]) (simp add: sH sG)
  have has: "HasPartition m q \<and> ActiveGen m q = MaxGen q files" if "q < ?P" for q
    using m(4) [rule_format, of q] that by (auto simp: HasPartition_def ActiveGen_def opened_part_def)
  have gens: "gens_agree ?c"
    unfolding gens_agree_def
  proof (intro allI conjI)
    fix q
    have act: "map pi_gen (active_of ix q) = (if q \<in> set (recover_parts (register_orphans c1 files) files) then [MaxGen q files] else [])"
      using ix(3) A(2) [of q] by (simp add: new_PartitionIndex_def)
    show "list_all (\<lambda>idx. HasPartition (zc_wal ?c) q \<and> pi_gen idx = ActiveGen (zc_wal ?c) q) (active_of (zc_index ?c) q)"
      using act has parts_small by (auto simp: list_all_iff c2 split: if_splits)
    have "chain_inv (map fst ?G) q (frozen_of ix q @ active_of ix q)" using ix(2) by (simp add: rix_inv_def ix_chain_def)
    moreover have "frozen_of ix q \<noteq> [] \<Longrightarrow> active_of ix q \<noteq> []" using ix(2) by (auto simp: rix_inv_def active_of_def split: option.splits)
    ultimately have "\<forall>i \<in> set (frozen_of ix q). \<exists>a \<in> set (active_of ix q). pi_gen i < pi_gen a"
      by (cases "active_of ix q") (auto simp: chain_inv_def sorted_wrt_append)
    moreover have "pi_gen a = MaxGen q files \<and> q < ?P" if "a \<in> set (active_of ix q)" for a
    proof -
      have "pi_gen a \<in> set (map pi_gen (active_of ix q))" using that by simp
      then show ?thesis using parts_small [of q] unfolding act by (auto split: if_splits)
    qed
    ultimately show "list_all (\<lambda>idx. pi_gen idx < ActiveGen (zc_wal ?c) q) (frozen_of (zc_index ?c) q)"
      using has [of q] by (fastforce simp: list_all_iff c2)
  qed
  have reg: "registered (zc_sealed ?c) = {pg \<in> set files. snd pg < MaxGen (fst pg) files}" using O(1) by (simp add: c2 set_recover_orphans)
  have past: "gens_past {} ?c" using reg small has O(2) by (auto simp: gens_past_def c2)
  have hist: "hist_ok t {} ?H ?c"
    using recovered_stored [OF dir m(4,3), of _ ?c] reg unfolding hist_ok_def sH by (fastforce simp: c2)
  have "ctx_inv t {} ?H ?c"
    using m(2,3) ixinv O(3-6) gens past hist ft2 unfolding ctx_inv_def
    by (simp add: c2 dirs_agree_def epochs_past_def fixed_table_def current_table_def)
  then show ?thesis using open' rec ord(2) unfolding ord_def by blast
qed

end
