(* ===== verification/ZfContextSteps.thy ===== *)
theory ZfContextSteps
  imports ZfRecovery
begin

text \<open>
  The remaining steps of the context keep the relation of \<open>ZfContextInv\<close>: sealing a batch of
  partitions, handing generations over, releasing an epoch, purging files and looking up a key.
  \<open>ctx_reach\<close> collects the steps, with an empty directory or a recovered one as the start; the
  properties that rest on it are in \<open>ZfContextProps\<close>.
\<close>

section \<open>Sealing a batch\<close>

lemma unat_inc: "(g :: u32) < 0xFFFFFFFF \<Longrightarrow> unat (g + 1) = unat g + 1"
  by (simp add: unat_plus_if' word_less_nat_alt)

lemma inc_greater: "(g :: u32) < 0xFFFFFFFF \<Longrightarrow> g < g + 1"
  by (simp add: word_less_nat_alt unat_inc)

lemma wal_has_length: "wal_has (e, m) ref r \<Longrightarrow> mgr_wf e m \<Longrightarrow> 0 < ActiveSize m (r_part_id ref)"
proof -
  assume has: "wal_has (e, m) ref r" and wf: "mgr_wf e m"
  then obtain p where p: "find_part m (r_part_id ref) = Some p" "rec_at (part_log e (wm_dir m) p) (r_offset ref) r"
    by (auto simp: wal_has_def)
  have "pt_total_size p = length (part_log e (wm_dir m) p)" using wf p(1) by (auto simp: mgr_wf_def part_wf_def part_log_def)
  then have "0 < pt_total_size p" using rec_at_length [OF p(2)] length_rec_bytes_ge [of r] by linarith
  then show ?thesis using p(1) by (simp add: ActiveSize_def)
qed

text \<open>One partition of the batch: its log and its index change generation together.\<close>

definition freeze_one :: "ZeroFlushContext \<Rightarrow> u32 \<Rightarrow> env \<Rightarrow> PartitionedWalManager \<Rightarrow> ZeroFlushContext" where
  "freeze_one c p e m =
     c\<lparr>zc_env := e, zc_wal := m, zc_index := ix_Freeze (zc_index c) p (ActiveGen (zc_wal c) p + 1)\<rparr>"

lemma freeze_one_stored:
  assumes inv: "ctx_inv t X H c" and fr: "Freeze (zc_env c) (zc_wal c) p = (fr, e', m')" and p: "find_part (zc_wal c) p = Some q"
    and room: "ActiveGen (zc_wal c) p < 0xFFFFFFFF" and st: "rec_stored X c p' g off rc"
    and X': "X' = X \<union> (if 0 < ActiveSize (zc_wal c) p then {(p, ActiveGen (zc_wal c) p)} else {})"
  shows "rec_stored X' (freeze_one c p e' m') p' g off rc"
proof -
  let ?m = "zc_wal c" and ?e = "zc_env c" and ?dir = "zc_wal_dir c"
  note w = ctx_invD(1) [OF inv]
  note sp = Freeze_spec [OF fr w p]
  have dir: "wm_dir ?m = ?dir" using ctx_invD(5) [OF inv] by (simp add: dirs_agree_def)
  have gen: "ActiveGen ?m p = pt_gen q" using p by (simp add: ActiveGen_def)
  have wf: "mgr_wf ?e ?m" using w by (simp add: wal_inv_def)
  show ?thesis
  proof (cases "p' = p")
    case False
    have f: "find_part m' p' = find_part ?m p'" using sp(7) [OF False] .
    have cont: "e_content e' (MakeFileName ?dir p' g') = e_content ?e (MakeFileName ?dir p' g')" for g'
      using sp(10) [of "MakeFileName ?dir p' g'"] False by (auto simp: dir)
    have log: "part_log e' (wm_dir m') w = part_log ?e (wm_dir ?m) w" if "find_part ?m p' = Some w" for w
      using that wf cont sp(9) dir by (auto simp: part_log_def file_bytes_def FileName_def mgr_wf_def)
    show ?thesis
      using st f cont log sp(9) by (auto simp: rec_stored_def freeze_one_def HasPartition_def ActiveGen_def wal_has_def X' split: if_splits)
  next
    case True
    have g': "ActiveGen m' p = pt_gen q + 1" by (rule sp(5))
    have "ActiveGen m' p \<noteq> 0" using g' gen inc_greater [OF room] by auto
    then have has: "HasPartition m' p" by (cases "find_part m' p") (auto simp: HasPartition_def ActiveGen_def)
    show ?thesis
    proof (cases "g = ActiveGen ?m p")
      case T: True
      then have wh: "wal_has (?e, ?m) \<lparr> r_part_id = p, r_gen = g, r_offset = off \<rparr> rc" using st True by (simp add: rec_stored_def)
      then have at: "rec_at (part_log ?e ?dir q) off rc" "pt_rfile q \<noteq> None" using p dir by (auto simp: wal_has_def)
      obtain data where d: "e_content e' (MakeFileName ?dir p g) = Some data" using sp(3) [OF at(2)] dir T gen by auto
      then have "data = part_log ?e ?dir q" using sp(2) dir T gen by (simp add: file_bytes_def)
      moreover have "0 < ActiveSize ?m p" using wal_has_length [OF wh wf] by simp
      moreover have "g \<noteq> ActiveGen m' p" using T g' gen inc_greater [OF room] by simp
      ultimately show ?thesis using True T d at(1) has by (simp add: rec_stored_def freeze_one_def X')
    next
      case F: False
      then obtain data where d: "(p, g) \<in> registered (zc_sealed c) \<union> X" "e_content ?e (MakeFileName ?dir p g) = Some data" "rec_at data off rc"
        using st True by (auto simp: rec_stored_def)
      have lt: "g < ActiveGen ?m p" using gens_pastD(1) [OF ctx_invD(7) [OF inv] d(1)] by simp
      have ne: "g \<noteq> ActiveGen ?m p + 1" "g \<noteq> ActiveGen m' p" using lt inc_greater [OF room] g' gen by auto
      have "e_content e' (MakeFileName ?dir p g) = e_content ?e (MakeFileName ?dir p g)"
        using sp(11) [of "MakeFileName ?dir p g"] F ne gen by (simp add: dir)
      then show ?thesis using True d has ne by (auto simp: rec_stored_def freeze_one_def X')
    qed
  qed
qed

lemma ix_Freeze_chain:
  "pi_gen ` set (active_of (ix_Freeze s p g) q) = (if q = p then {g} else pi_gen ` set (active_of s q))"
  "pi_gen ` set (frozen_of (ix_Freeze s p g) q) \<subseteq> pi_gen ` set (frozen_of s q) \<union> (if q = p then pi_gen ` set (active_of s p) else {})"
  by (auto simp: ix_Freeze_def Let_def new_PartitionIndex_def active_of_def split: option.splits if_splits)

lemma freeze_one_inv:
  assumes inv: "ctx_inv t X H c" and fr: "Freeze (zc_env c) (zc_wal c) p = (fr, e', m')" and p: "find_part (zc_wal c) p = Some q"
    and room: "ActiveGen (zc_wal c) p < 0xFFFFFFFF"
    and X': "X' = X \<union> (if 0 < ActiveSize (zc_wal c) p then {(p, ActiveGen (zc_wal c) p)} else {})"
  shows "ctx_inv t X' H (freeze_one c p e' m')"
    and "\<And>s. s \<noteq> p \<Longrightarrow> ActiveGen m' s = ActiveGen (zc_wal c) s \<and> ActiveSize m' s = ActiveSize (zc_wal c) s \<and> HasPartition m' s = HasPartition (zc_wal c) s"
    and "fr = Some \<lparr>fr_old_gen = ActiveGen (zc_wal c) p, fr_sealed_bytes = ActiveSize (zc_wal c) p,
      fr_sealed_path = MakeFileName (zc_wal_dir c) p (ActiveGen (zc_wal c) p)\<rparr>"
    and "HasPartition m' p" and "ActiveGen m' p = ActiveGen (zc_wal c) p + 1"
proof -
  let ?m = "zc_wal c" and ?g = "ActiveGen (zc_wal c) p" and ?c' = "freeze_one c p e' m'"
  note w = ctx_invD(1) [OF inv]
  note sp = Freeze_spec [OF fr w p]
  have dir: "wm_dir ?m = zc_wal_dir c" using ctx_invD(5) [OF inv] by (simp add: dirs_agree_def)
  have gen: "?g = pt_gen q" using p by (simp add: ActiveGen_def)
  have "part_wf (zc_env c) (wm_dir ?m) q" using w p by (auto simp: wal_inv_def mgr_wf_def)
  then have size: "ActiveSize ?m p = length (part_log (zc_env c) (wm_dir ?m) q)" using p by (simp add: ActiveSize_def part_wf_def part_log_def)
  show "fr = Some \<lparr>fr_old_gen = ?g, fr_sealed_bytes = ActiveSize ?m p, fr_sealed_path = MakeFileName (zc_wal_dir c) p ?g\<rparr>"
    using sp(1) gen size dir by simp
  show g': "ActiveGen m' p = ?g + 1" using sp(5) gen by simp
  have up: "?g < ?g + 1" by (rule inc_greater [OF room])
  have "ActiveGen m' p \<noteq> 0" using g' up by auto
  then show has: "HasPartition m' p" by (cases "find_part m' p") (auto simp: HasPartition_def ActiveGen_def)
  show other: "ActiveGen m' s = ActiveGen ?m s \<and> ActiveSize m' s = ActiveSize ?m s \<and> HasPartition m' s = HasPartition ?m s" if "s \<noteq> p" for s
    using sp(7) [OF that] by (simp add: ActiveGen_def ActiveSize_def HasPartition_def)
  have mono: "g < ActiveGen m' s" if "g < ActiveGen ?m s" for g s
    using that other [of s] g' up by (cases "s = p") auto
  have hmono: "HasPartition m' s" if "HasPartition ?m s" for s using that other [of s] has by (cases "s = p") auto
  note ag = gens_agreeD [OF ctx_invD(6) [OF inv]]
  show "ctx_inv t X' H ?c'"
    unfolding ctx_inv_def
  proof (intro conjI)
    show "wal_inv (zc_env ?c', zc_wal ?c')" using sp(4) by (simp add: freeze_one_def)
    have "list_all (\<lambda>idx. pi_gen idx \<noteq> ?g + 1) (ix_chain (zc_index c) p)"
      using ag(2,3) [of _ p] up by (fastforce simp: list_all_iff ix_chain_def)
    then show "ix_inv (map fst H) (zc_index ?c')"
      using ix_Freeze_inv [OF ctx_invD(2) [OF inv]] by (simp add: freeze_one_def)
    show "dirs_agree ?c'" using ctx_invD(5) [OF inv] sp(9) by (simp add: freeze_one_def dirs_agree_def)
    show "gens_agree ?c'"
      unfolding gens_agree_def
    proof (intro allI conjI)
      fix s
      have "HasPartition m' s \<and> pi_gen idx = ActiveGen m' s" if "idx \<in> set (active_of (zc_index ?c') s)" for idx
      proof -
        have "pi_gen idx \<in> pi_gen ` set (active_of (ix_Freeze (zc_index c) p (?g + 1)) s)" using that by (simp add: freeze_one_def)
        then show ?thesis using ag(1,2) [of _ s] other [of s] has g' by (cases "s = p") (auto simp: ix_Freeze_chain)
      qed
      then show "list_all (\<lambda>idx. HasPartition (zc_wal ?c') s \<and> pi_gen idx = ActiveGen (zc_wal ?c') s) (active_of (zc_index ?c') s)"
        by (simp add: list_all_iff freeze_one_def)
      have "pi_gen idx < ActiveGen m' s" if "idx \<in> set (frozen_of (zc_index ?c') s)" for idx
      proof -
        have "pi_gen idx \<in> pi_gen ` set (frozen_of (zc_index c) s) \<union> (if s = p then pi_gen ` set (active_of (zc_index c) p) else {})"
          using that ix_Freeze_chain(2) [of "zc_index c" p "?g + 1" s] by (auto simp: freeze_one_def)
        moreover have "x < ActiveGen m' s" if "x \<in> pi_gen ` set (frozen_of (zc_index c) s)" for x using that mono [OF ag(3)] by auto
        moreover have "x < ActiveGen m' p" if "x \<in> pi_gen ` set (active_of (zc_index c) p)" for x using that ag(2) [of _ p] g' up by auto
        ultimately show ?thesis by (auto split: if_splits)
      qed
      then show "list_all (\<lambda>idx. pi_gen idx < ActiveGen (zc_wal ?c') s) (frozen_of (zc_index ?c') s)"
        by (simp add: list_all_iff freeze_one_def)
    qed
    have "HasPartition m' s \<and> g < ActiveGen m' s" if "(s, g) \<in> registered (zc_sealed c) \<union> X'" for s g
      using that gens_pastD(1) [OF ctx_invD(7) [OF inv], of s g] mono hmono has g' up by (auto simp: X' split: if_splits)
    moreover have "\<exists>s g. f = MakeFileName (zc_wal_dir c) s g \<and> HasPartition m' s \<and> g < ActiveGen m' s" if "f \<in> set (sf_pending (zc_sealed c))" for f
      using gens_pastD(2) [OF ctx_invD(7) [OF inv] that] mono hmono by blast
    ultimately show "gens_past X' ?c'" by (auto simp: gens_past_def freeze_one_def)
    have "entry_stored X' ?c' r v" if "entry_stored X c r v" for r v
      using that freeze_one_stored [OF inv fr p room _ X'] unfolding entry_stored_def by blast
    then show "hist_ok t X' H ?c'" using ctx_invD(10) [OF inv] by (auto simp: hist_ok_def)
  qed (use ctx_invD [OF inv] in \<open>simp_all add: freeze_one_def epochs_past_def fixed_table_def current_table_def\<close>)
qed

text \<open>The generations a seal is about to register are new to the cache.\<close>

definition gens_fresh :: "(u32 \<times> u32) set \<Rightarrow> ZeroFlushContext \<Rightarrow> bool" where
  "gens_fresh X c \<longleftrightarrow> (\<forall>g \<in> X. g \<notin> registered (zc_sealed c) \<and> sealed_FileName (zc_sealed c) (fst g) (snd g) \<notin> set (sf_pending (zc_sealed c)))"

lemma active_gen_fresh:
  assumes "ctx_inv t X H c"
  shows "gens_fresh {(p, ActiveGen (zc_wal c) p)} c"
proof -
  have "(p, ActiveGen (zc_wal c) p) \<notin> registered (zc_sealed c)"
    using gens_pastD(1) [OF ctx_invD(7) [OF assms], of p "ActiveGen (zc_wal c) p"] by auto
  moreover have "MakeFileName (zc_wal_dir c) p (ActiveGen (zc_wal c) p) \<notin> set (sf_pending (zc_sealed c))"
    using gens_pastD(2) [OF ctx_invD(7) [OF assms]] by fastforce
  ultimately show ?thesis using ctx_invD(5) [OF assms] by (simp add: gens_fresh_def sealed_FileName_def dirs_agree_def)
qed

lemma freeze_batch_inv:
  assumes "freeze_batch c ps se = (c', se')" "ctx_inv t (set (se_gens se)) H c" "gens_fresh (set (se_gens se)) c" "distinct ps"
    "\<forall>p \<in> set ps. HasPartition (zc_wal c) p \<and> ActiveGen (zc_wal c) p < 0xFFFFFFFF"
  shows "ctx_inv t (set (se_gens se')) H c' \<and> gens_fresh (set (se_gens se')) c' \<and> se_epoch se' = se_epoch se \<and>
    zc_epoch_counter c' = zc_epoch_counter c \<and> zc_sealed c' = zc_sealed c"
  using assms
proof (induction ps arbitrary: c se)
  case (Cons p ps)
  obtain q where q: "find_part (zc_wal c) p = Some q" using Cons.prems(5) by (auto simp: HasPartition_def)
  have room: "ActiveGen (zc_wal c) p < 0xFFFFFFFF" using Cons.prems(5) by simp
  obtain fr e1 m1 where fr: "Freeze (zc_env c) (zc_wal c) p = (fr, e1, m1)" by (metis prod_cases3)
  let ?X = "set (se_gens se) \<union> (if 0 < ActiveSize (zc_wal c) p then {(p, ActiveGen (zc_wal c) p)} else {})"
  note one = freeze_one_inv [OF Cons.prems(2) fr q room refl]
  let ?fr = "\<lparr>fr_old_gen = ActiveGen (zc_wal c) p, fr_sealed_bytes = ActiveSize (zc_wal c) p,
      fr_sealed_path = MakeFileName (zc_wal_dir c) p (ActiveGen (zc_wal c) p)\<rparr>"
  let ?se = "epoch_add p ?fr se" and ?c = "freeze_one c p e1 m1"
  have gens: "set (se_gens ?se) = ?X" by (auto simp: epoch_add_def)
  have next_batch: "freeze_batch ?c ps ?se = (c', se')" using Cons.prems(1) fr one(3) by (simp add: freeze_one_def)
  have fresh: "gens_fresh (set (se_gens ?se)) ?c"
    unfolding gens using Cons.prems(3) active_gen_fresh [OF Cons.prems(2), of p] by (auto simp: gens_fresh_def freeze_one_def)
  have rest: "\<forall>s \<in> set ps. HasPartition (zc_wal ?c) s \<and> ActiveGen (zc_wal ?c) s < 0xFFFFFFFF"
  proof
    fix s assume s: "s \<in> set ps"
    then have "s \<noteq> p" using Cons.prems(4) by auto
    from one(2) [OF this] s Cons.prems(5) show "HasPartition (zc_wal ?c) s \<and> ActiveGen (zc_wal ?c) s < 0xFFFFFFFF"
      by (simp add: freeze_one_def)
  qed
  have "ctx_inv t (set (se_gens ?se)) H ?c" unfolding gens by (rule one(1))
  from Cons.IH [OF next_batch this fresh _ rest] Cons.prems(4) show ?case by (simp add: freeze_one_def epoch_add_def)
qed simp

lemma register_epoch_inv:
  assumes inv: "ctx_inv t (set (se_gens se)) H c" and fresh: "gens_fresh (set (se_gens se)) c"
    and new: "list_all (\<lambda>(ep, _). ep < se_epoch se) (sf_epochs (zc_sealed c))" and ep: "se_epoch se = zc_epoch_counter c"
  shows "ctx_inv t {} H (register_epoch c now se)"
proof -
  let ?c' = "register_epoch c now se" and ?s = "zc_sealed c" and ?s' = "AddEpochWithRecoveryAdoption (zc_sealed c) now se 1"
  have fr: "\<forall>g \<in> set (se_gens se). g \<notin> registered ?s \<and> sealed_FileName ?s (fst g) (snd g) \<notin> set (sf_pending ?s)"
    using fresh by (simp add: gens_fresh_def)
  have none: "map_of (sf_epochs ?s) (se_epoch se) = None"
    using new by (auto simp: map_of_eq_None_iff list_all_iff)
  note reg = AddEpoch_registered [OF ctx_invD(3) [OF inv] none fr, of now 1]
  have c': "zc_sealed ?c' = ?s'" "zc_wal ?c' = zc_wal c" "zc_env ?c' = zc_env c" "zc_wal_dir ?c' = zc_wal_dir c" "zc_index ?c' = zc_index c"
    by (simp_all add: register_epoch_def)
  have "rec_stored {} ?c' p g off rc = rec_stored (set (se_gens se)) c p g off rc" for p g off rc
    by (simp add: rec_stored_def c' reg)
  then have "entry_stored {} ?c' r v = entry_stored (set (se_gens se)) c r v" for r v by (simp add: entry_stored_def)
  then have "hist_ok t {} H ?c'" using ctx_invD(10) [OF inv] by (simp add: hist_ok_def)
  moreover have "gens_past {} ?c'" using ctx_invD(7) [OF inv] by (simp add: gens_past_def c' reg)
  moreover have "epochs_past ?c'"
  proof -
    obtain s1 m1 where ad: "adopt_skips (adopt_recovery (?s, se)) = (s1, m1)" by fastforce
    have "sf_epochs ?s' = sf_epochs ?s @ [(se_epoch se, m1\<lparr>se_sealed_at_micros := now\<rparr>)]"
      using none ad adopt_all [OF ad] by (simp add: AddEpochWithRecoveryAdoption_def)
    then show ?thesis using new ep by (auto simp: epochs_past_def register_epoch_def list_all_iff intro: order_less_imp_le)
  qed
  moreover have "handles_inv ?s'"
    by (rule handles_inv_cong [OF ctx_invD(4) [OF inv]]) (simp_all add: lru_fields fixed_fields)
  moreover have "dirs_agree ?c'" "gens_agree ?c'" "fixed_table t ?c'"
    using ctx_invD(5,6,9) [OF inv] by (simp_all add: dirs_agree_def gens_agree_def fixed_table_def current_table_def register_epoch_def fixed_fields)
  ultimately show ?thesis
    using ctx_invD [OF inv] AddEpoch_inv [OF ctx_invD(3) [OF inv] fr, of now 1] by (simp add: ctx_inv_def c')
qed

text \<open>The partitions of a batch are known and distinct.\<close>

lemma fill_batch_subset: "\<exists>ys. fill_batch k n rest batch b = batch @ ys \<and> (\<exists>zs. map snd rest = ys @ zs)"
proof (induction k n rest batch b rule: fill_batch.induct)
  case (2 k n sz p rest batch b)
  show ?case
  proof (cases "k \<le> length batch \<or> n \<le> b")
    case False
    then obtain ys zs where "fill_batch k n rest (batch @ [p]) (b + sz) = (batch @ [p]) @ ys" "map snd rest = ys @ zs" using 2 by blast
    then show ?thesis using False by (intro exI [of _ "p # ys"]) auto
  qed (intro exI [of _ "[]"], simp)
qed simp

lemma set_AllPartitionIds: "set (AllPartitionIds m) = {p. HasPartition m p}"
  by (auto simp: AllPartitionIds_def HasPartition_def find_part_def map_of_eq_None_iff simp flip: not_None_eq)

lemma distinct_AllPartitionIds: "mgr_wf e m \<Longrightarrow> distinct (AllPartitionIds m)"
  by (simp add: AllPartitionIds_def mgr_wf_def)

definition over_target :: "ZeroFlushContext \<Rightarrow> u32 list" where
  "over_target c = filter (\<lambda>p. unat (zo_partition_target_bytes (zc_zfo c)) \<le> ActiveSize (zc_wal c) p) (AllPartitionIds (zc_wal c))"

definition batch_rest :: "ZeroFlushContext \<Rightarrow> u32 list" where
  "batch_rest c = map snd (sort_cmp size_greater (map (\<lambda>p. (ActiveSize (zc_wal c) p, p))
     (filter (\<lambda>p. p \<notin> set (over_target c) \<and> 0 < ActiveSize (zc_wal c) p) (AllPartitionIds (zc_wal c)))))"

lemma mset_batch_rest:
  "mset (batch_rest c) = mset (filter (\<lambda>p. p \<notin> set (over_target c) \<and> 0 < ActiveSize (zc_wal c) p) (AllPartitionIds (zc_wal c)))"
  unfolding batch_rest_def mset_map mset_sort_any by (simp add: image_mset.compositionality comp_def)

lemma select_batch_alt:
  "select_batch c =
     (if length (over_target c) < max 1 (unat (zo_max_batch_partitions (zc_zfo c))) \<and>
         sum_list (map (ActiveSize (zc_wal c)) (over_target c)) < unat (zo_epoch_target_bytes (zc_zfo c))
      then fill_batch (max 1 (unat (zo_max_batch_partitions (zc_zfo c)))) (unat (zo_epoch_target_bytes (zc_zfo c)))
             (sort_cmp size_greater (map (\<lambda>p. (ActiveSize (zc_wal c) p, p))
               (filter (\<lambda>p. p \<notin> set (over_target c) \<and> 0 < ActiveSize (zc_wal c) p) (AllPartitionIds (zc_wal c)))))
             (over_target c) (sum_list (map (ActiveSize (zc_wal c)) (over_target c)))
      else over_target c)"
  unfolding select_batch_def over_target_def Let_def by (rule refl)

lemma select_batch_split: "\<exists>ys zs. select_batch c = over_target c @ ys \<and> batch_rest c = ys @ zs"
proof -
  let ?rest = "sort_cmp size_greater (map (\<lambda>p. (ActiveSize (zc_wal c) p, p))
     (filter (\<lambda>p. p \<notin> set (over_target c) \<and> 0 < ActiveSize (zc_wal c) p) (AllPartitionIds (zc_wal c))))"
  obtain ys zs where f: "fill_batch (max 1 (unat (zo_max_batch_partitions (zc_zfo c)))) (unat (zo_epoch_target_bytes (zc_zfo c)))
      ?rest (over_target c) (sum_list (map (ActiveSize (zc_wal c)) (over_target c))) = over_target c @ ys" "map snd ?rest = ys @ zs"
    using fill_batch_subset by blast
  have "select_batch c = over_target c \<or> select_batch c = over_target c @ ys"
    unfolding select_batch_alt f(1) by auto
  moreover have "batch_rest c = ys @ zs" using f(2) by (simp add: batch_rest_def)
  ultimately show ?thesis by auto
qed

lemma select_batch_parts:
  assumes "mgr_wf e (zc_wal c)"
  shows "distinct (select_batch c)" "\<forall>p \<in> set (select_batch c). HasPartition (zc_wal c) p"
proof -
  obtain ys zs where b: "select_batch c = over_target c @ ys" "batch_rest c = ys @ zs" using select_batch_split by blast
  have d: "distinct (AllPartitionIds (zc_wal c))" by (rule distinct_AllPartitionIds [OF assms])
  have "distinct (batch_rest c)" using mset_eq_imp_distinct_iff [OF mset_batch_rest [of c]] d by simp
  moreover have rest: "set (batch_rest c) = {p \<in> set (AllPartitionIds (zc_wal c)). p \<notin> set (over_target c) \<and> 0 < ActiveSize (zc_wal c) p}"
    using mset_eq_setD [OF mset_batch_rest [of c]] by simp
  ultimately have "distinct ys" "set ys \<inter> set (over_target c) = {}" "set ys \<subseteq> set (AllPartitionIds (zc_wal c))"
    using b(2) by auto
  moreover have "distinct (over_target c)" "set (over_target c) \<subseteq> set (AllPartitionIds (zc_wal c))" using d by (auto simp: over_target_def)
  ultimately show "distinct (select_batch c)" "\<forall>p \<in> set (select_batch c). HasPartition (zc_wal c) p"
    using b(1) by (auto simp: set_AllPartitionIds)
qed

lemma clear_over_inv: "ctx_inv t X H c \<Longrightarrow> ctx_inv t X H (clear_over c)"
proof -
  assume inv: "ctx_inv t X H c"
  let ?c' = "clear_over c" and ?m = "zc_wal c" and ?m' = "ClearOverTargetFlag (zc_wal c)"
  have f: "find_part ?m' p = find_part ?m p" "wm_dir ?m' = wm_dir ?m" for p by (simp_all add: ClearOverTargetFlag_def)
  have "mgr_wf (zc_env c) ?m' = mgr_wf (zc_env c) ?m"
    by (simp add: ClearOverTargetFlag_def mgr_wf_def wm_paths_free_def)
  then have "wal_inv (zc_env c, ?m')" using ctx_invD(1) [OF inv] unfolding wal_inv_def prod.case f by blast
  moreover have "wal_frame (zc_env c) ?m (zc_env c) ?m'" using f by (simp add: wal_frame_def ActiveGen_def HasPartition_def)
  moreover have "wal_has (zc_env c, ?m') ref r = wal_has (zc_env c, ?m) ref r" for ref r using f by (simp add: wal_has_def)
  moreover have "clear_over c = c\<lparr>zc_env := zc_env c, zc_wal := ?m'\<rparr>" by (simp add: clear_over_def)
  ultimately show ?thesis by (intro ctx_inv_wal [OF inv, where e' = "zc_env c" and m' = ?m']) simp_all
qed

text \<open>The counters must have room: the epoch counter, and the generations.\<close>

definition seal_room :: "ZeroFlushContext \<Rightarrow> bool" where
  "seal_room c \<longleftrightarrow> zc_epoch_counter c < 0xFFFFFFFFFFFFFFFF \<and>
     list_all (\<lambda>p. ActiveGen (zc_wal c) p < 0xFFFFFFFF) (AllPartitionIds (zc_wal c))"

lemma FreezeBatch_ctx_inv:
  assumes inv: "ctx_inv t {} H c" and room: "seal_room c" and res: "FreezeBatchPartitions c now l1 sw = (r, c')"
  shows "ctx_inv t {} H c'"
proof (cases "select_batch c = []")
  case True
  then show ?thesis using res clear_over_inv [OF inv] by (simp add: FreezeBatchPartitions_def Let_def)
next
  case False
  let ?ep = "zc_epoch_counter c + 1" and ?c1 = "c\<lparr>zc_epoch_counter := zc_epoch_counter c + 1\<rparr>"
  let ?se = "new_epoch ?c1 ?ep"
  have mode: "zo_routing_mode (zc_zfo c) \<noteq> kSampled" "zo_routing_mode (zc_zfo c) \<noteq> kAlignL1"
    using ctx_invD(9) [OF inv] by (auto simp: fixed_table_def)
  obtain c2 se2 where fb: "freeze_batch ?c1 (select_batch c) ?se = (c2, se2)" by fastforce
  have c': "c' = register_epoch (clear_over c2) now se2"
    using res False fb mode by (simp add: FreezeBatchPartitions_def Let_def batch_learn_def)
  have up: "zc_epoch_counter c < ?ep" using room by (simp add: seal_room_def word_less_nat_alt unat_plus_if')
  have ep: "list_all (\<lambda>(ep, _). ep < ?ep) (sf_epochs (zc_sealed c))"
    using ctx_invD(8) [OF inv] up unfolding epochs_past_def by (auto simp: list_all_iff)
  have "rec_stored X ?c1 p g off rc = rec_stored X c p g off rc" for X p g off rc by (simp add: rec_stored_def)
  then have es: "entry_stored X ?c1 r v = entry_stored X c r v" for X r v by (simp add: entry_stored_def)
  have "epochs_past ?c1" using ep by (auto simp: epochs_past_def list_all_iff intro: order_less_imp_le)
  then have inv1: "ctx_inv t (set (se_gens ?se)) H ?c1"
    using inv by (simp add: ctx_inv_def new_epoch_def dirs_agree_def gens_agree_def gens_past_def fixed_table_def current_table_def hist_ok_def es)
  have wf: "mgr_wf (zc_env c) (zc_wal c)" using ctx_invD(1) [OF inv] by (simp add: wal_inv_def)
  note sb = select_batch_parts [OF wf]
  have "\<forall>p \<in> set (select_batch c). HasPartition (zc_wal ?c1) p \<and> ActiveGen (zc_wal ?c1) p < 0xFFFFFFFF"
    using sb(2) room by (auto simp: seal_room_def list_all_iff set_AllPartitionIds)
  moreover have "gens_fresh (set (se_gens ?se)) ?c1" by (simp add: gens_fresh_def new_epoch_def)
  note freeze_batch_inv [OF fb inv1 this sb(1)]
  ultimately
  have f: "ctx_inv t (set (se_gens se2)) H c2" "gens_fresh (set (se_gens se2)) c2" "se_epoch se2 = ?ep"
    "zc_epoch_counter c2 = ?ep" "zc_sealed c2 = zc_sealed c"
    by (simp_all add: new_epoch_def)
  show ?thesis unfolding c'
    by (rule register_epoch_inv [OF clear_over_inv [OF f(1)]]) (use f ep in \<open>simp_all add: clear_over_def gens_fresh_def\<close>)
qed

section \<open>Changes of the sealed-file cache\<close>

text \<open>A change of the cache alone: what is still registered covers the history, and what is newly
  queued for deletion was registered before.\<close>

lemma ctx_inv_sealed:
  assumes inv: "ctx_inv t {} H c" and ci: "cache_inv s'" and hi: "handles_inv s'" and dir: "sf_dir s' = sf_dir (zc_sealed c)"
    and reg: "registered s' \<subseteq> registered (zc_sealed c)"
    and pend: "\<And>f. f \<in> set (sf_pending s') \<Longrightarrow> f \<in> set (sf_pending (zc_sealed c)) \<or>
      (\<exists>(p, g) \<in> registered (zc_sealed c). f = MakeFileName (zc_wal_dir c) p g)"
    and ep: "fst ` set (sf_epochs s') \<subseteq> fst ` set (sf_epochs (zc_sealed c))"
    and sub: "set H' \<subseteq> set H" and ix: "ix_inv (map fst H') (zc_index c')"
    and gens: "\<And>p. active_of (zc_index c') p = active_of (zc_index c) p" "\<And>p. set (frozen_of (zc_index c') p) \<subseteq> set (frozen_of (zc_index c) p)"
    and keep: "\<And>r v. (r, v) \<in> set H' \<Longrightarrow> (r_part r, r_igen r) \<in> registered (zc_sealed c) \<Longrightarrow> (r_part r, r_igen r) \<in> registered s'"
    and c': "c' = c\<lparr>zc_sealed := s', zc_index := zc_index c'\<rparr>"
  shows "ctx_inv t {} H' c'"
proof -
  have f: "zc_wal c' = zc_wal c" "zc_env c' = zc_env c" "zc_wal_dir c' = zc_wal_dir c" "zc_sealed c' = s'" "zc_epoch_counter c' = zc_epoch_counter c"
    by (subst c', simp)+
  have past: "gens_past {} c'"
    unfolding gens_past_def f
  proof (intro conjI ballI)
    fix pg assume "pg \<in> registered s' \<union> {}"
    then show "case pg of (p, g) \<Rightarrow> HasPartition (zc_wal c) p \<and> g < ActiveGen (zc_wal c) p"
      using reg gens_pastD(1) [OF ctx_invD(7) [OF inv]] by (cases pg) blast
  next
    fix n assume "n \<in> set (sf_pending s')"
    then show "\<exists>p g. n = MakeFileName (zc_wal_dir c) p g \<and> HasPartition (zc_wal c) p \<and> g < ActiveGen (zc_wal c) p"
      using pend [of n] gens_pastD [OF ctx_invD(7) [OF inv]] by blast
  qed
  have "hist_ok t {} H' c'"
    unfolding hist_ok_def
  proof (intro ballI)
    fix rv assume m: "rv \<in> set H'"
    obtain r v where rv: "rv = (r, v)" by fastforce
    have mem: "(r, v) \<in> set H" using m rv sub by blast
    have "rec_stored {} c' (r_part r) (r_igen r) off rc" if "rec_stored {} c (r_part r) (r_igen r) off rc" for off rc
      using that keep [of r v] m rv by (auto simp: rec_stored_def f split: if_splits)
    then have "entry_stored {} c' r v" using hist_okD(1) [OF ctx_invD(10) [OF inv] mem] unfolding entry_stored_def by blast
    then show "case rv of (r, v) \<Rightarrow> entry_stored {} c' r v \<and> r_part r = rec_part t (r_key r) (r_type r)"
      using hist_okD(2) [OF ctx_invD(10) [OF inv] mem] rv by simp
  qed
  moreover have "gens_agree c'"
    using ctx_invD(6) [OF inv] gens unfolding gens_agree_def f list_all_iff by (simp, blast)
  moreover have "epochs_past c'"
    using ctx_invD(8) [OF inv] ep unfolding epochs_past_def f list_all_iff by force
  moreover have "fixed_table t c'" using ctx_invD(9) [OF inv] by (subst c') (simp add: fixed_table_def current_table_def)
  moreover have "dirs_agree c'" using ctx_invD(5) [OF inv] dir unfolding dirs_agree_def f by simp
  ultimately show ?thesis using ctx_invD [OF inv] ci hi ix past by (simp add: ctx_inv_def f)
qed

lemma ReadValue_ctx:
  assumes inv: "ctx_inv t {} H c"
  shows "ctx_inv t {} H (snd (ReadValue c loc))"
proof -
  have nc: "zc_value_cache c = None" using ctx_invD(9) [OF inv] by (simp add: fixed_table_def)
  let ?ref = "locator_ref loc"
  let ?s = "snd (Get (zc_env c) (zc_sealed c) (r_part_id ?ref) (r_gen ?ref))"
  have "snd (ReadValue c loc) = c \<or> snd (ReadValue c loc) = c\<lparr>zc_sealed := ?s\<rparr>"
    using nc by (auto simp: ReadValue_def Let_def cache_value_def split: sum.splits prod.splits)
  moreover have "ctx_inv t {} H (c\<lparr>zc_sealed := ?s\<rparr>)"
    by (rule ctx_inv_sealed [OF inv, where s' = ?s])
      (use ctx_invD(2,3,4) [OF inv] in \<open>simp_all add: Get_inv Get_handles fixed_fields\<close>)
  ultimately show ?thesis using inv by auto
qed

lemma ReadValue_snd: "ReadValue c x = (y, c') \<Longrightarrow> \<exists>loc. c' = snd (ReadValue c loc)"
  by (metis snd_conv)

lemma lookup_ctx_inv:
  assumes inv: "ctx_inv t {} H c" and res: "GetFromPartitionIndex c user_key snapshot mc mo = Some (r, c')"
  shows "ctx_inv t {} H c'"
proof -
  have "c' = c \<or> (\<exists>loc. c' = snd (ReadValue c loc))"
    using res unfolding GetFromPartitionIndex_def Let_def
    by (auto split: option.splits prod.splits sum.splits if_splits bool.splits dest: ReadValue_snd)
  then show ?thesis using inv ReadValue_ctx [OF inv] by auto
qed

lemma cache_removal_pending:
  assumes "cache_removal s s' D W P" "f \<in> set (sf_pending s')"
  shows "f \<in> set (sf_pending s) \<or> (\<exists>g \<in> P. f = sealed_FileName s (fst g) (snd g))"
  using assms unfolding cache_removal_def by blast

lemma cache_removal_epochs:
  assumes "cache_removal s s' D W P"
  shows "fst ` set (sf_epochs s') \<subseteq> fst ` set (sf_epochs s)"
proof -
  have dom: "fst ` set (sf_epochs s) = dom (epoch_gens s)" for s
    by (auto simp: epoch_gens_def dom_def simp flip: dom_map_of_conv_image_fst)
  obtain epoch G keep where "epoch_gens s epoch = Some G" "epoch_gens s' = (epoch_gens s)(epoch := (if keep then Some (G - D) else None))"
    using assms unfolding cache_removal_def by (elim conjE exE) (rule that, assumption+)
  then show ?thesis unfolding dom by (auto split: if_splits)
qed

lemma HandOff_ctx_inv:
  assumes inv: "ctx_inv t {} H c" and ep: "GetEpoch (zc_sealed c) epoch = Some se" and sub: "set gens \<subseteq> set (se_gens se)"
  shows "ctx_inv t {} H (ctx_HandOffSkippedToRecovery c now epoch gens)"
proof (cases "gens = []")
  case True
  then show ?thesis using inv by (simp add: ctx_HandOffSkippedToRecovery_def)
next
  case False
  obtain pb where c': "ctx_HandOffSkippedToRecovery c now epoch gens = c\<lparr>zc_sealed := HandOffSkippedToRecovery (zc_sealed c) now epoch gens pb\<rparr>"
    using False by (simp add: ctx_HandOffSkippedToRecovery_def Let_def)
  let ?s' = "HandOffSkippedToRecovery (zc_sealed c) now epoch gens pb"
  have G: "epoch_gens (zc_sealed c) epoch = Some (set (se_gens se))" using ep by (simp add: epoch_gens_def GetEpoch_def)
  note rem = HandOff_removal [OF ctx_invD(3) [OF inv] G sub, of now pb]
  note ri = cache_removal_inv [OF ctx_invD(3) [OF inv] rem]
  note eps = cache_removal_epochs [OF rem]
  show ?thesis unfolding c'
  proof (rule ctx_inv_sealed [OF inv, where s' = ?s'])
    show "f \<in> set (sf_pending (zc_sealed c)) \<or> (\<exists>(p, g) \<in> registered (zc_sealed c). f = MakeFileName (zc_wal_dir c) p g)"
      if "f \<in> set (sf_pending ?s')" for f using cache_removal_pending [OF rem that] by simp
    show "handles_inv ?s'" by (rule handles_inv_cong [OF ctx_invD(4) [OF inv]]) (simp_all add: lru_fields fixed_fields)
    have "registered (zc_sealed c) \<subseteq> registered ?s'" using ri(3) by auto
    then show "(r_part r, r_igen r) \<in> registered ?s'" if "(r_part r, r_igen r) \<in> registered (zc_sealed c)" for r using that by blast
  qed (use ri eps ctx_invD(2) [OF inv] in \<open>simp_all add: fixed_fields\<close>)
qed

section \<open>Releasing an epoch\<close>

text \<open>The history without the records of the given generations.\<close>

definition released :: "(u32 \<times> u32) set \<Rightarrow> history \<Rightarrow> history" where
  "released G H = filter (\<lambda>(r, _). (r_part r, r_igen r) \<notin> G) H"

lemma ReleaseFrozen_chain:
  assumes "ReleaseFrozen s p g = Some s'"
  shows "active_of s' q = active_of s q" "set (frozen_of s' q) \<subseteq> set (frozen_of s q)"
  using assms by (auto simp: ReleaseFrozen_def RebuildBloom_def Let_def bind_eq_Some_conv split: if_splits)

lemma release_history_filter:
  assumes inv: "ix_inv H s" and past: "\<forall>idx \<in> set (active_of s p). pi_gen idx \<noteq> g"
  shows "release_history H s p g = filter (\<lambda>r. \<not> (r_part r = p \<and> r_igen r = g)) H"
proof (cases "GetFrozen s p g")
  case None
  then have "g \<notin> pi_gen ` set (frozen_of s p)" by (auto simp: GetFrozen_def find_None_iff)
  then have "g \<notin> pi_gen ` set (ix_chain s p)" using past by (auto simp: ix_chain_def)
  then have "\<not> (r_part r = p \<and> r_igen r = g)" if "r \<in> set H" for r
    using part_invD(3) [OF ix_invD(2) [OF inv, of p] that] by auto
  then show ?thesis using None by (simp add: release_history_def)
qed (simp add: release_history_def)

lemma release_indexes_inv:
  assumes "ix_inv H s" "\<forall>(p, g) \<in> set gens. \<forall>idx \<in> set (active_of s p). pi_gen idx \<noteq> g"
  shows "\<exists>s'. release_indexes s gens = Some s' \<and> ix_inv (filter (\<lambda>r. (r_part r, r_igen r) \<notin> set gens) H) s' \<and>
    (\<forall>q. active_of s' q = active_of s q \<and> set (frozen_of s' q) \<subseteq> set (frozen_of s q))"
  using assms
proof (induction gens arbitrary: H s)
  case (Cons pg gens)
  obtain p g where pg: "pg = (p, g)" by fastforce
  obtain s1 where s1: "ReleaseFrozen s p g = Some s1" "ix_inv (release_history H s p g) s1"
    using ReleaseFrozen_inv [OF Cons.prems(1)] by blast
  have "\<forall>idx \<in> set (active_of s p). pi_gen idx \<noteq> g" using Cons.prems(2) pg by simp
  note h = release_history_filter [OF Cons.prems(1) this]
  note ch = ReleaseFrozen_chain [OF s1(1)]
  have "\<forall>(p, g) \<in> set gens. \<forall>idx \<in> set (active_of s1 p). pi_gen idx \<noteq> g" using Cons.prems(2) ch(1) by simp
  from Cons.IH [OF s1(2) this] obtain s' where s': "release_indexes s1 gens = Some s'"
    "ix_inv (filter (\<lambda>r. (r_part r, r_igen r) \<notin> set gens) (release_history H s p g)) s'"
    "\<forall>q. active_of s' q = active_of s1 q \<and> set (frozen_of s' q) \<subseteq> set (frozen_of s1 q)" by blast
  have "filter (\<lambda>r. (r_part r, r_igen r) \<notin> set gens) (release_history H s p g) = filter (\<lambda>r. (r_part r, r_igen r) \<notin> set (pg # gens)) H"
    unfolding h by (auto simp: pg intro: filter_cong)
  moreover have "set (frozen_of s' q) \<subseteq> set (frozen_of s q)" for q using s'(3) ch(2) [of q] by blast
  ultimately show ?case using s' s1(1) ch(1) by (simp add: pg)
qed simp

lemma Release_ctx_inv:
  assumes inv: "ctx_inv t {} H c" and res: "ctx_ReleaseEpoch c now epoch = Some (b, c')"
  shows "ctx_inv t {} (released (case GetEpoch (zc_sealed c) epoch of None \<Rightarrow> {} | Some se \<Rightarrow> set (se_gens se)) H) c'"
proof (cases "GetEpoch (zc_sealed c) epoch")
  case None
  then have "c' = c" using res
    by (auto simp: ctx_ReleaseEpoch_def ReleaseFrozenIndexes_def ReleaseEpoch_def GetEpoch_def ReleaseGens_def)
  then show ?thesis using inv None by (simp add: released_def)
next
  case (Some se)
  let ?G = "set (se_gens se)" and ?s' = "snd (ReleaseGens (zc_sealed c) now epoch (se_gens se))"
  have regG: "?G \<subseteq> registered (zc_sealed c)"
  proof -
    have "epoch_gens (zc_sealed c) epoch = Some ?G" using Some by (simp add: epoch_gens_def GetEpoch_def)
    then show ?thesis unfolding registered_alt [OF cache_invD(1) [OF ctx_invD(3) [OF inv]]] by blast
  qed
  have "\<forall>(p, g) \<in> ?G. \<forall>idx \<in> set (active_of (zc_index c) p). pi_gen idx \<noteq> g"
    using gens_pastD(1) [OF ctx_invD(7) [OF inv]] gens_agreeD(2) [OF ctx_invD(6) [OF inv]] regG by fastforce
  from release_indexes_inv [OF ctx_invD(2) [OF inv] this] obtain ix where ix: "release_indexes (zc_index c) (se_gens se) = Some ix"
    "ix_inv (filter (\<lambda>r. (r_part r, r_igen r) \<notin> ?G) (map fst H)) ix"
    "\<forall>q. active_of ix q = active_of (zc_index c) q \<and> set (frozen_of ix q) \<subseteq> set (frozen_of (zc_index c) q)" by blast
  have H': "filter (\<lambda>r. (r_part r, r_igen r) \<notin> ?G) (map fst H) = map fst (released ?G H)"
    by (simp add: released_def filter_map comp_def split_def)
  have c': "c' = c\<lparr>zc_sealed := ?s', zc_index := ix\<rparr>"
    using res Some ix(1)
    by (auto simp: ctx_ReleaseEpoch_def ReleaseFrozenIndexes_def ReleaseEpoch_def GetEpoch_def split: prod.splits)
  have "ctx_inv t {} (released ?G H) c'"
  proof (rule ctx_inv_sealed [OF inv, where s' = ?s'])
    show "cache_inv ?s'" by (rule ReleaseGens_inv [OF ctx_invD(3) [OF inv]])
    show "handles_inv ?s'" by (rule handles_inv_cong [OF ctx_invD(4) [OF inv]]) (simp_all add: lru_fields fixed_fields)
    from ReleaseGens_removal [OF ctx_invD(3) [OF inv], of now epoch "se_gens se"]
    have "registered ?s' \<subseteq> registered (zc_sealed c) \<and> registered (zc_sealed c) \<subseteq> registered ?s' \<union> ?G \<and>
      (\<forall>f \<in> set (sf_pending ?s'). f \<in> set (sf_pending (zc_sealed c)) \<or> (\<exists>g \<in> ?G. f = sealed_FileName (zc_sealed c) (fst g) (snd g))) \<and>
      fst ` set (sf_epochs ?s') \<subseteq> fst ` set (sf_epochs (zc_sealed c))" (is ?P)
    proof
      assume "\<exists>D \<subseteq> ?G. cache_removal (zc_sealed c) ?s' D {} D"
      then obtain D where D: "D \<subseteq> ?G" "cache_removal (zc_sealed c) ?s' D {} D" by blast
      note ri = cache_removal_inv [OF ctx_invD(3) [OF inv] D(2)]
      have "\<forall>f \<in> set (sf_pending ?s'). f \<in> set (sf_pending (zc_sealed c)) \<or> (\<exists>g \<in> ?G. f = sealed_FileName (zc_sealed c) (fst g) (snd g))"
        using cache_removal_pending [OF D(2)] D(1) by blast
      then show ?P using ri(2,3) D(1) cache_removal_epochs [OF D(2)] by auto
    qed auto
    then have P: "registered ?s' \<subseteq> registered (zc_sealed c)" "registered (zc_sealed c) \<subseteq> registered ?s' \<union> ?G"
      "\<And>f. f \<in> set (sf_pending ?s') \<Longrightarrow> f \<in> set (sf_pending (zc_sealed c)) \<or> (\<exists>g \<in> ?G. f = sealed_FileName (zc_sealed c) (fst g) (snd g))"
      "fst ` set (sf_epochs ?s') \<subseteq> fst ` set (sf_epochs (zc_sealed c))" by blast+
    show "registered ?s' \<subseteq> registered (zc_sealed c)" "fst ` set (sf_epochs ?s') \<subseteq> fst ` set (sf_epochs (zc_sealed c))" by (fact P)+
    show "f \<in> set (sf_pending (zc_sealed c)) \<or> (\<exists>(p, g) \<in> registered (zc_sealed c). f = MakeFileName (zc_wal_dir c) p g)"
      if "f \<in> set (sf_pending ?s')" for f
      using P(3) [OF that] regG ctx_invD(5) [OF inv] by (fastforce simp: sealed_FileName_def dirs_agree_def)
    show "(r_part r, r_igen r) \<in> registered ?s'" if "(r, v) \<in> set (released ?G H)" "(r_part r, r_igen r) \<in> registered (zc_sealed c)" for r v
      using that P(2) by (auto simp: released_def)
    show "ix_inv (map fst (released ?G H)) (zc_index c')" using ix(2) H' by (simp add: c')
  qed (use ix(3) in \<open>simp_all add: c' fixed_fields released_def\<close>)
  then show ?thesis using Some by simp
qed

section \<open>Purging\<close>

lemma delete_fold_env:
  "(e_content (foldl (\<lambda>e f. snd (env_DeleteFile e f)) e fs) g = None \<or> e_content (foldl (\<lambda>e f. snd (env_DeleteFile e f)) e fs) g = e_content e g) \<and>
   e_fail (foldl (\<lambda>e f. snd (env_DeleteFile e f)) e fs) = e_fail e"
proof (induction fs arbitrary: e)
  case (Cons f fs)
  have "e_content (snd (env_DeleteFile e f)) g = None \<or> e_content (snd (env_DeleteFile e f)) g = e_content e g" "e_fail (snd (env_DeleteFile e f)) = e_fail e"
    by (auto simp: env_DeleteFile_def e_content_def delete_conv')
  then show ?case using Cons.IH [of "snd (env_DeleteFile e f)"] by auto
qed auto

lemmas delete_fold_less = conjunct1 [OF delete_fold_env] and delete_fold_fail = conjunct2 [OF delete_fold_env]

text \<open>Deleting files that are not the active file of a partition keeps the manager.\<close>

lemma wal_inv_delete:
  assumes inv: "wal_inv (e, m)" and fail: "e_fail e' = e_fail e"
    and less: "\<And>f. e_content e' f = None \<or> e_content e' f = e_content e f"
    and act: "\<And>p. HasPartition m p \<Longrightarrow> e_content e' (MakeFileName (wm_dir m) p (ActiveGen m p)) = e_content e (MakeFileName (wm_dir m) p (ActiveGen m p))"
  shows "wal_inv (e', m)" and "wal_has (e', m) ref r = wal_has (e, m) ref r"
proof -
  have wf: "mgr_wf e m" using inv by (simp add: wal_inv_def)
  have same: "e_content e' (FileName (wm_dir m) q) = e_content e (FileName (wm_dir m) q)" if "find_part m p = Some q" for p q
    using act [of p] that wf by (auto simp: HasPartition_def ActiveGen_def FileName_def mgr_wf_def)
  have log: "part_log e' (wm_dir m) q = part_log e (wm_dir m) q" "part_wf e' (wm_dir m) q = part_wf e (wm_dir m) q" if "find_part m p = Some q" for p q
    using same [OF that] by (simp_all add: part_log_def part_wf_def file_bytes_def)
  have "wm_paths_free e' m" using wf less unfolding mgr_wf_def wm_paths_free_def by metis
  then have "mgr_wf e' m" using wf log(2) unfolding mgr_wf_def by blast
  then show "wal_inv (e', m)" using inv fail by (simp add: wal_inv_def, blast)
  show "wal_has (e', m) ref r = wal_has (e, m) ref r" using log(1) by (auto simp: wal_has_def)
qed

lemma Purge_ctx_inv:
  assumes inv: "ctx_inv t {} H c" and res: "PurgeSealedFiles c = (n, c')"
  shows "ctx_inv t {} H c'"
proof -
  let ?s = "zc_sealed c" and ?e = "zc_env c"
  let ?e' = "foldl (\<lambda>e f. snd (env_DeleteFile e f)) ?e (sf_pending ?s)" and ?s' = "snd (snd (PurgePending ?e ?s))"
  have c': "c' = (c\<lparr>zc_env := ?e', zc_wal := zc_wal c\<rparr>)\<lparr>zc_sealed := ?s'\<rparr>"
    using res by (auto simp: PurgeSealedFiles_def PurgePending_def)
  have dir: "wm_dir (zc_wal c) = zc_wal_dir c" "sf_dir ?s = zc_wal_dir c" using ctx_invD(5) [OF inv] by (simp_all add: dirs_agree_def)
  have "MakeFileName (zc_wal_dir c) p (ActiveGen (zc_wal c) p) \<notin> set (sf_pending ?s)" for p
    using active_gen_fresh [OF inv, of p] dir by (simp add: gens_fresh_def sealed_FileName_def)
  note act = delete_fold_content [OF this]
  let ?c1 = "c\<lparr>zc_env := ?e', zc_wal := zc_wal c\<rparr>"
  note w = wal_inv_delete [OF ctx_invD(1) [OF inv] delete_fold_fail delete_fold_less, of "sf_pending ?s", unfolded dir, OF act]
  have reg: "e_content ?e' (MakeFileName (zc_wal_dir c) p g) = e_content ?e (MakeFileName (zc_wal_dir c) p g)" if "(p, g) \<in> registered ?s" for p g
    using cache_invD(5) [OF ctx_invD(3) [OF inv] that] dir by (intro delete_fold_content) (simp add: sealed_FileName_def)
  have "rec_stored {} ?c1 p g off rc" if "rec_stored {} c p g off rc" for p g off rc
    using that w(2) reg by (auto simp: rec_stored_def split: if_splits)
  then have "entry_stored {} ?c1 r v" if "entry_stored {} c r v" for r v using that unfolding entry_stored_def by blast
  then have "hist_ok t {} H ?c1" using ctx_invD(10) [OF inv] by (auto simp: hist_ok_def)
  then have inv1: "ctx_inv t {} H ?c1"
    using inv w(1) by (simp add: ctx_inv_def dirs_agree_def gens_agree_def gens_past_def epochs_past_def fixed_table_def current_table_def)
  have s': "registered ?s' = registered ?s" "sf_pending ?s' = []" "sf_epochs ?s' = sf_epochs ?s"
    by (simp_all add: PurgePending_def registered_def gen_registered_def)
  show ?thesis unfolding c'
  proof (rule ctx_inv_sealed [OF inv1, where s' = ?s'])
    show "handles_inv ?s'" by (rule handles_inv_cong [OF ctx_invD(4) [OF inv]]) (simp_all add: lru_fields fixed_fields)
    show "cache_inv ?s'" by (rule PurgePending_inv [OF ctx_invD(3) [OF inv]])
  qed (use ctx_invD(2) [OF inv] s' in \<open>simp_all add: fixed_fields\<close>)
qed

section \<open>Reachable contexts\<close>

text \<open>The states of a context with the table \<open>t\<close> and what was written and not released. A context starts
  with an empty directory, or is opened and recovers the records a crash left in the directory. A write of
  a key whose partition the manager does not know is refused and is no step.\<close>

inductive ctx_reach :: "PartitionTable \<Rightarrow> history \<Rightarrow> ZeroFlushContext \<Rightarrow> bool" for t where
  init: "fixed_table t c \<Longrightarrow> zc_wal c = new_WalManager (zc_wal_dir c) n target \<Longrightarrow>
    zc_sealed c = new_SealedFileCache (zc_wal_dir c) cap rec \<Longrightarrow> zc_index c = new_PartitionIndexSet \<Longrightarrow>
    e_files (zc_env c) = [] \<Longrightarrow> e_fail (zc_env c) = (\<lambda>_. False) \<Longrightarrow> ctx_reach t [] c"
| reopen: "fresh_context t c \<Longrightarrow> wal_directory t c files recs \<Longrightarrow> open_wal c = (Inr (), c1) \<Longrightarrow>
    Recover c1 latest rnd = Some (Inr seq, c') \<Longrightarrow> ctx_reach t (recovered_history t files recs) c'"
| write_rec: "ctx_reach t H c \<Longrightarrow> write_pre t H c key v ty seq \<Longrightarrow> ty = kTypeRangeDeletion \<or> HasPartition (zc_wal c) (PT_Route t key) \<Longrightarrow>
    Option.bind (zc_tables c) (\<lambda>s. set_Get s tv) = Some t \<Longrightarrow> AddRecord c key v ty seq tv rnd = Some (r, c') \<Longrightarrow>
    ctx_reach t (H @ [write_entry t c key v ty seq]) c'"
| sync: "ctx_reach t H c \<Longrightarrow> SyncTouchedPartitions c parts = (r, c') \<Longrightarrow> ctx_reach t H c'"
| seal: "ctx_reach t H c \<Longrightarrow> seal_room c \<Longrightarrow> FreezeBatchPartitions c now l1 sw = (r, c') \<Longrightarrow> ctx_reach t H c'"
| hand_off: "ctx_reach t H c \<Longrightarrow> GetEpoch (zc_sealed c) epoch = Some se \<Longrightarrow> list_all (\<lambda>g. g \<in> set (se_gens se)) gens \<Longrightarrow>
    ctx_reach t H (ctx_HandOffSkippedToRecovery c now epoch gens)"
| release: "ctx_reach t H c \<Longrightarrow> ctx_ReleaseEpoch c now epoch = Some (b, c') \<Longrightarrow>
    ctx_reach t (released (case GetEpoch (zc_sealed c) epoch of None \<Rightarrow> {} | Some se \<Rightarrow> set (se_gens se)) H) c'"
| purge: "ctx_reach t H c \<Longrightarrow> PurgeSealedFiles c = (m, c') \<Longrightarrow> ctx_reach t H c'"
| lookup: "ctx_reach t H c \<Longrightarrow> GetFromPartitionIndex c user_key snapshot mc mo = Some (g, c') \<Longrightarrow> ctx_reach t H c'"

lemma ctx_reach_inv: "ctx_reach t H c \<Longrightarrow> ctx_inv t {} H c"
proof (induction rule: ctx_reach.induct)
  case (init c n target cap rec)
  have wal: "wal_inv (zc_env c, zc_wal c)"
    unfolding init(2) by (rule new_WalManager_inv) (simp_all add: e_content_def init)
  have "cache_inv (zc_sealed c) \<and> handles_inv (zc_sealed c) \<and> sf_dir (zc_sealed c) = zc_wal_dir c"
    unfolding init(3) using cache_reach_inv [OF cache_reach.init] by blast
  moreover have "wm_dir (zc_wal c) = zc_wal_dir c" unfolding init(2) by (simp add: new_WalManager_def)
  moreover have "ix_inv [] (zc_index c)" unfolding init(4) by (rule ix_reach_inv [OF ix_reach.init])
  moreover have "gens_agree c" "epochs_past c" "gens_past {} c"
    by (simp_all add: gens_agree_def epochs_past_def gens_past_def init(3,4) new_PartitionIndexSet_def active_of_def frozen_of_def
        new_SealedFileCache_def registered_def gen_registered_def)
  ultimately show ?case using wal init(1) by (simp add: ctx_inv_def dirs_agree_def hist_ok_def)
next
  case (reopen c files recs c1 latest rnd seq c')
  then show ?case using recover_ctx_inv [OF reopen(1,2), of latest rnd] by auto
next
  case (write_rec H c key v ty seq tv rnd r c')
  then show ?case using AddRecord_ctx_inv [of t H c key v ty seq tv rnd] by auto
next
  case (hand_off H c epoch se gens now)
  then show ?case using HandOff_ctx_inv [of t H c epoch se gens now] by (auto simp: list_all_iff)
qed (auto intro: Sync_ctx_inv FreezeBatch_ctx_inv Release_ctx_inv Purge_ctx_inv lookup_ctx_inv)

end
