(* ===== verification/ZfWriteSync.thy ===== *)
theory ZfWriteSync
  imports ZfContext
begin

text \<open>
  The write path of the context from a group of batches to the disk: what \<^verbatim>\<open>ZfBatchHandler\<close> leaves in
  the partition logs, which partitions \<^verbatim>\<open>SyncTouchedPartitions\<close> is told to sync, and what of the
  group survives a crash.
\<close>

section \<open>Partitions that are durable\<close>

definition synced_part :: "env \<times> PartitionedWalManager \<Rightarrow> u32 \<Rightarrow> bool" where
  "synced_part s part \<longleftrightarrow> (case s of (e, m) \<Rightarrow>
     \<exists>p. find_part m part = Some p \<and> pt_buf p = [] \<and> e_durable e (FileName (wm_dir m) p) = length (part_log e (wm_dir m) p))"

lemma open_flush_durable:
  "EnsureOpenForWrite e dir p = (r, e', p') \<Longrightarrow> e_durable e' f = e_durable e f"
  "FlushBuf e p = (r, e', p') \<Longrightarrow> e_durable e' f = e_durable e f"
  "file_Sync e path = (Inl er, e') \<Longrightarrow> e_durable e' f = e_durable e f"
  by (auto simp: EnsureOpenForWrite_def ReopenWritableFile_def FlushBuf_def file_Append_def file_Sync_def Let_def
      split: option.splits prod.splits sum.splits if_splits)

lemma Sync_durable_other:
  assumes "Sync e m part = (r, e', m')" "find_part m part = Some p" "part_wf e (wm_dir m) p" "f \<noteq> FileName (wm_dir m) p"
  shows "e_durable e' f = e_durable e f"
proof -
  obtain r1 e1 p1 where o1: "EnsureOpenForWrite e (wm_dir m) p = (r1, e1, p1)" by (metis prod_cases3)
  note k1 = EnsureOpenForWrite_keeps [OF o1 assms(3)]
  have d1: "e_durable e1 f = e_durable e f" by (rule open_flush_durable(1) [OF o1])
  obtain r2 e2 p2 where o2: "FlushBuf e1 p1 = (r2, e2, p2)" by (metis prod_cases3)
  have d2: "e_durable e2 f = e_durable e1 f" by (rule open_flush_durable(2) [OF o2])
  have "is_ok r1 \<Longrightarrow> pt_wfile p2 = Some (FileName (wm_dir m) p)" using k1(2) FlushBuf_wfile [OF o2] by simp
  moreover have "e_durable e3 f = e_durable e2 f" if "file_Sync e2 (FileName (wm_dir m) p) = (r3, e3)" for r3 e3
    using that assms(4) by (auto simp: file_Sync_def e_durable_def update_conv' split: if_splits)
  ultimately show ?thesis
    using assms(1,2) o1 o2 d1 d2 by (auto simp: Sync_def is_ok_def split: sum.splits prod.splits)
qed

lemma Sync_failed_durable:
  assumes "Sync e m part = (r, e', m')" "\<not> is_ok r"
  shows "e_durable e' f = e_durable e f"
proof (cases "find_part m part")
  case (Some p)
  obtain r1 e1 p1 where o1: "EnsureOpenForWrite e (wm_dir m) p = (r1, e1, p1)" by (metis prod_cases3)
  obtain r2 e2 p2 where o2: "FlushBuf e1 p1 = (r2, e2, p2)" by (metis prod_cases3)
  obtain r3 e3 where o3: "file_Sync e2 (the (pt_wfile p2)) = (r3, e3)" by fastforce
  have "r3 = Inl er \<Longrightarrow> e_durable e3 f = e_durable e2 f" for er using open_flush_durable(3) o3 by blast
  then show ?thesis
    using assms Some o1 o2 o3 open_flush_durable(1) [OF o1, of f] open_flush_durable(2) [OF o2, of f]
    by (auto simp: Sync_def is_ok_def split: sum.splits)
qed (use assms in \<open>auto simp: Sync_def\<close>)

lemma Sync_synced:
  assumes res: "Sync e m part = (r, e', m')" and wf: "mgr_wf e m" and whole: "whole_appends e"
  shows "synced_part (e, m) q \<Longrightarrow> synced_part (e', m') q" and "is_ok r \<Longrightarrow> synced_part (e', m') part"
proof -
  have "(synced_part (e, m) q \<longrightarrow> synced_part (e', m') q) \<and> (is_ok r \<longrightarrow> synced_part (e', m') part)"
  proof (cases "find_part m part")
    case None
    then show ?thesis using res by (auto simp: Sync_def is_ok_def)
  next
    case (Some p)
    have wfp: "part_wf e (wm_dir m) p" "pt_part_id p = part" using wf Some by (auto simp: mgr_wf_def)
    obtain p' where s: "part_keeps (wm_dir m) e p e' p'" "m' = set_part m part p'"
      "is_ok r \<Longrightarrow> pt_buf p' = [] \<and> e_durable e' (FileName (wm_dir m) p) = length (part_log e (wm_dir m) p)"
      by (rule Sync_spec [OF res wf Some disjI1 [OF whole]]) (rule that; assumption)
    have f: "FileName (wm_dir m) p' = FileName (wm_dir m) p" by (rule part_keeps_FileName [OF s(1)])
    have log: "part_log e' (wm_dir m) p' = part_log e (wm_dir m) p" using s(1) by (simp add: part_keeps_def)
    have part: "is_ok r \<Longrightarrow> synced_part (e', m') part" using s(2,3) f log by (auto simp: synced_part_def)
    moreover have "synced_part (e', m') q" if q: "synced_part (e, m) q"
    proof (cases "q = part")
      case True
      show ?thesis
      proof (cases "is_ok r")
        case False
        have "pt_buf p = []" "e_durable e (FileName (wm_dir m) p) = length (part_log e (wm_dir m) p)"
          using q True Some by (auto simp: synced_part_def)
        moreover have "pt_buf p' = []"
        proof -
          have "length (pt_buf p') + pt_flushed_size p' = length (pt_buf p) + pt_flushed_size p"
            using s(1) wfp(1) by (simp add: part_keeps_def part_wf_def)
          then show ?thesis using s(1) \<open>pt_buf p = []\<close> by (auto simp: part_keeps_def)
        qed
        moreover have "e_durable e' (FileName (wm_dir m) p) = e_durable e (FileName (wm_dir m) p)"
          by (rule Sync_failed_durable [OF res False])
        ultimately show ?thesis using True s(2) f log by (auto simp: synced_part_def)
      qed (use part True in simp)
    next
      case False
      obtain w where w: "find_part m q = Some w" "pt_buf w = []" "e_durable e (FileName (wm_dir m) w) = length (part_log e (wm_dir m) w)"
        using q by (auto simp: synced_part_def)
      have "pt_part_id w = q" using wf w(1) by (auto simp: mgr_wf_def)
      then have ne: "FileName (wm_dir m) w \<noteq> FileName (wm_dir m) p" using False wfp(2) by (simp add: FileName_def)
      have "only_file (FileName (wm_dir m) p) e e'" using s(1) by (simp add: part_keeps_def)
      from part_wf_only_file(2) [OF this ne] Sync_durable_other [OF res Some wfp(1) ne] w
      show ?thesis using False s(2) by (auto simp: synced_part_def)
    qed
    ultimately show ?thesis by blast
  qed
  then show "synced_part (e, m) q \<Longrightarrow> synced_part (e', m') q" and "is_ok r \<Longrightarrow> synced_part (e', m') part" by blast+
qed

lemma sync_parts_synced:
  "sync_parts e m ps = (Inr (), e', m') \<Longrightarrow> wal_inv (e, m) \<Longrightarrow>
    wal_inv (e', m') \<and> (\<forall>ref rc. wal_has (e, m) ref rc \<longrightarrow> wal_has (e', m') ref rc) \<and>
    (\<forall>q. synced_part (e, m) q \<or> q \<in> set ps \<longrightarrow> synced_part (e', m') q) \<and> wm_dir m' = wm_dir m"
proof (induction ps arbitrary: e m)
  case (Cons part ps)
  obtain e1 m1 where s: "Sync e m part = (Inr (), e1, m1)" "sync_parts e1 m1 ps = (Inr (), e', m')"
    using Cons.prems(1) by (auto split: prod.splits sum.splits)
  note i = Sync_inv [OF s(1) Cons.prems(2)]
  have wf: "mgr_wf e m" "whole_appends e" using Cons.prems(2) by (auto simp: wal_inv_def)
  have dir: "wm_dir m1 = wm_dir m" using s(1) by (auto simp: Sync_def split: option.splits prod.splits sum.splits)
  from Cons.IH [OF s(2) i(1)] i(2) Sync_synced [OF s(1) wf] dir show ?case by (auto simp: is_ok_def)
qed simp

lemma synced_crash:
  assumes has: "wal_has (e, m) ref rc" and syn: "synced_part (e, m) (r_part_id ref)" and wf: "mgr_wf e m" and cr: "crash_of e e2"
  shows "rec_at (file_bytes e2 (MakeFileName (wm_dir m) (r_part_id ref) (r_gen ref))) (r_offset ref) rc"
proof -
  obtain p where p: "find_part m (r_part_id ref) = Some p" "pt_gen p = r_gen ref" "rec_at (part_log e (wm_dir m) p) (r_offset ref) rc"
    "pt_buf p = []" "e_durable e (FileName (wm_dir m) p) = length (part_log e (wm_dir m) p)"
    using has syn by (auto simp: wal_has_def synced_part_def)
  have f: "FileName (wm_dir m) p = MakeFileName (wm_dir m) (r_part_id ref) (r_gen ref)"
    using wf p(1,2) by (auto simp: mgr_wf_def FileName_def)
  have log: "part_log e (wm_dir m) p = file_bytes e (FileName (wm_dir m) p)" using p(4) by (simp add: part_log_def)
  have ne: "part_log e (wm_dir m) p \<noteq> []" using rec_at_length [OF p(3)] length_rec_bytes_ge [of rc] by auto
  then obtain c where c: "e_content e (FileName (wm_dir m) p) = Some c" "c = part_log e (wm_dir m) p"
    using log by (auto simp: file_bytes_def split: option.splits)
  obtain n where "length c \<le> n" "e_content e2 (FileName (wm_dir m) p) = Some (take n c)"
    using cr c p(5) ne unfolding crash_of_def by (metis length_0_conv)
  then show ?thesis using p(3) c(2) f by (simp add: file_bytes_def)
qed

section \<open>The bitmap of touched partitions\<close>

lemma touched_loop_bits:
  "(\<forall>i < p. \<not> bit w i) \<Longrightarrow>
    touched_loop p w = map (\<lambda>i. if i = 63 then kRangeDelPartId else of_nat i) (filter (bit w) [p..<64])"
proof (induction p w rule: touched_loop.induct)
  case (1 p w)
  show ?case
  proof (cases "p < 64 \<and> w \<noteq> 0")
    case True
    have up: "[p..<64] = p # [p + 1..<64]" using True by (simp add: upt_conv_Cons)
    show ?thesis
    proof (cases "bit w p")
      case b: True
      let ?w = "w AND NOT (push_bit p 1)"
      have low: "\<not> bit ?w i" if "i < p + 1" for i
        using that 1(3) by (cases "i = p") (auto simp: bit_simps)
      have "filter (bit ?w) [p + 1..<64] = filter (bit w) [p + 1..<64]"
        by (rule filter_cong) (auto simp: bit_simps)
      then show ?thesis using 1(1) [OF _ b] low True b up by (simp add: touched_loop.simps [of p w])
    next
      case b: False
      then have "\<forall>i < p + 1. \<not> bit w i" using 1(3) by (auto simp: less_Suc_eq)
      then show ?thesis using 1(2) [OF _ b] True b up by (simp add: touched_loop.simps [of p w])
    qed
  next
    case False
    then show ?thesis by (auto simp: touched_loop.simps [of p w])
  qed
qed

lemma set_touched: "set (touched_loop 0 w) = {if i = 63 then kRangeDelPartId else of_nat i | i. i < 64 \<and> bit w i}"
  by (subst touched_loop_bits) auto

section \<open>The records of a batch\<close>

definition op_record :: "batch_op \<Rightarrow> (bytes \<times> bytes \<times> byte) option" where
  "op_record op =
     (case op of
        BPut cf k v \<Rightarrow> Some (k, v, kTypeValue)
      | BDelete cf k \<Rightarrow> Some (k, [], kTypeDeletion)
      | BSingleDelete cf k \<Rightarrow> Some (k, [], kTypeSingleDeletion)
      | BDeleteRange cf k k' \<Rightarrow> Some (k, k', kTypeRangeDeletion)
      | BMerge cf k v \<Rightarrow> Some (k, v, kTypeMerge)
      | BLogData blob \<Rightarrow> None)"

text \<open>The records of a batch, each with the sequence number it gets.\<close>

fun batch_records :: "u64 \<Rightarrow> batch_op list \<Rightarrow> (bytes \<times> bytes \<times> byte \<times> u64) list" where
  "batch_records seq [] = []"
| "batch_records seq (op # ops) =
     (case op_record op of
        None \<Rightarrow> batch_records seq ops
      | Some (k, v, ty) \<Rightarrow> (k, v, ty, seq) # batch_records (seq + 1) ops)"

lemma batch_records_append:
  "batch_records seq (ops @ ops') = batch_records seq ops @ batch_records (seq + of_nat (length (batch_records seq ops))) ops'"
  by (induction seq ops rule: batch_records.induct) (auto simp: algebra_simps split: option.splits)

definition rec_bit :: "ZeroFlushContext \<Rightarrow> bytes \<Rightarrow> byte \<Rightarrow> u32 \<Rightarrow> nat" where
  "rec_bit c k ty tv = (if ty = kTypeRangeDeletion then 63 else unat (RouteWithVersion c k tv))"

definition ctx_wal :: "ZeroFlushContext \<Rightarrow> env \<times> PartitionedWalManager" where
  "ctx_wal c = (zc_env c, zc_wal c)"

text \<open>What a step of the write path keeps: routing, directory, and every record in the logs.\<close>

definition write_keeps :: "ZeroFlushContext \<Rightarrow> ZeroFlushContext \<Rightarrow> bool" where
  "write_keeps c c' \<longleftrightarrow> wal_inv (ctx_wal c') \<and> (\<forall>ref rc. wal_has (ctx_wal c) ref rc \<longrightarrow> wal_has (ctx_wal c') ref rc) \<and>
     zc_tables c' = zc_tables c \<and> zc_zfo c' = zc_zfo c \<and> wm_dir (zc_wal c') = wm_dir (zc_wal c)"

lemma write_keeps_trans: "write_keeps c c1 \<Longrightarrow> write_keeps c1 c2 \<Longrightarrow> write_keeps c c2"
  by (simp add: write_keeps_def)

lemma write_keeps_route:
  assumes "write_keeps c c'"
  shows "record_part c' k ty tv = record_part c k ty tv" "rec_bit c' k ty tv = rec_bit c k ty tv"
proof -
  have "hash_route c' = hash_route c" using assms by (simp add: fun_eq_iff hash_route_def write_keeps_def)
  then show "record_part c' k ty tv = record_part c k ty tv" "rec_bit c' k ty tv = rec_bit c k ty tv"
    using assms by (simp_all add: write_keeps_def record_part_def rec_bit_def RouteWithVersion_def split: option.splits)
qed

definition rec_logged :: "ZeroFlushContext \<Rightarrow> u32 \<Rightarrow> bytes \<Rightarrow> bytes \<Rightarrow> byte \<Rightarrow> u64 \<Rightarrow> bool" where
  "rec_logged c part k v ty seq \<longleftrightarrow> (\<exists>ref. r_part_id ref = part \<and> wal_has (ctx_wal c) ref (append_header k v ty seq, k, v))"

lemma Append_dir: "Append e m part key v t seq = (res, e', m') \<Longrightarrow> wm_dir m' = wm_dir m"
  by (auto simp: Append_def append_to_def append_buffer_def Let_def split: option.splits prod.splits sum.splits if_splits)

lemma AddRecord_logs:
  assumes add: "AddRecord c k v ty seq tv rnd = Some (r, c')" and inv: "wal_inv (ctx_wal c)"
  shows "write_keeps c c'" and "28 + length k + length v < 2 ^ 32 \<Longrightarrow> is_ok r \<Longrightarrow> rec_logged c' (record_part c k ty tv) k v ty seq"
proof -
  let ?part = "record_part c k ty tv"
  obtain res e1 m1 where ap: "Append (zc_env c) (zc_wal c) ?part k v ty seq = (res, e1, m1)" by (metis prod_cases3)
  have w: "wal_inv (zc_env c, zc_wal c)" using inv by (simp add: ctx_wal_def)
  note sp = Append_spec [OF ap w]
  have c': "zc_env c' = e1" "zc_wal c' = m1" "zc_tables c' = zc_tables c" "zc_zfo c' = zc_zfo c" "is_ok r \<Longrightarrow> is_ok res"
    using add ap by (auto simp: AddRecord_def Let_def is_ok_def split: sum.splits option.splits if_splits)
  show "write_keeps c c'" using c' sp(1,2) Append_dir [OF ap] by (simp add: write_keeps_def ctx_wal_def)
  show "rec_logged c' ?part k v ty seq" if len: "28 + length k + length v < 2 ^ 32" and ok: "is_ok r"
  proof -
    obtain ref where ref: "res = Inr ref" using c'(5) [OF ok] by (cases res) (auto simp: is_ok_def)
    from sp(3) [OF len ref] sp(5) [OF ref] show ?thesis using c' by (auto simp: rec_logged_def ctx_wal_def)
  qed
qed

lemma rec_logged_keeps: "rec_logged c part k v ty seq \<Longrightarrow> write_keeps c c' \<Longrightarrow> rec_logged c' part k v ty seq"
  by (auto simp: rec_logged_def write_keeps_def)

lemma bit_or_push: "n < 64 \<Longrightarrow> bit (w OR push_bit n 1 :: u64) i \<longleftrightarrow> bit w i \<or> i = n"
  by (auto simp: bit_simps)

lemma touch_bit_set:
  assumes "touch_bit w part = Inr w'"
  shows "unat part < 64" "bit w' i \<longleftrightarrow> bit w i \<or> i = unat part"
proof -
  show part: "unat part < 64" using assms by (simp add: touch_bit_def split: if_splits)
  have w': "w' = w OR push_bit (unat part) 1" using assms by (simp add: touch_bit_def split: if_splits)
  show "bit w' i \<longleftrightarrow> bit w i \<or> i = unat part" unfolding w' by (rule bit_or_push [OF part])
qed

text \<open>One handler call, on success: the record is logged under the current sequence number and its
  bit is set.\<close>

definition op_done :: "BatchHandler \<Rightarrow> batch_op \<Rightarrow> u32 \<Rightarrow> BatchHandler \<Rightarrow> bool" where
  "op_done b op tv b' \<longleftrightarrow>
     write_keeps (bh_ctx b) (bh_ctx b') \<and> bh_seq b' = bh_seq b + (if op_record op = None then 0 else 1) \<and>
     (\<forall>i. bit (bh_touched b) i \<longrightarrow> bit (bh_touched b') i) \<and>
     (\<forall>k v ty. op_record op = Some (k, v, ty) \<longrightarrow> rec_bit (bh_ctx b) k ty tv < 64 \<and> bit (bh_touched b') (rec_bit (bh_ctx b) k ty tv) \<and>
        (28 + length k + length v < 2 ^ 32 \<longrightarrow> rec_logged (bh_ctx b') (record_part (bh_ctx b) k ty tv) k v ty (bh_seq b)))"

lemma handler_add_done:
  assumes add: "handler_add b k v ty tv rnd touch = Some (Inr u, b')" and inv: "wal_inv (ctx_wal (bh_ctx b))"
    and op: "op_record op = Some (k, v, ty)"
    and touch: "\<And>c w w'. write_keeps (bh_ctx b) c \<Longrightarrow> touch c w = Inr w' \<Longrightarrow>
      rec_bit (bh_ctx b) k ty tv < 64 \<and> (\<forall>i. bit w' i \<longleftrightarrow> bit w i \<or> i = rec_bit (bh_ctx b) k ty tv)"
  shows "op_done b op tv b'"
proof -
  obtain c w where ok: "AddRecord (bh_ctx b) k v ty (bh_seq b) tv rnd = Some (Inr (), c)" "touch c (bh_touched b) = Inr w"
    and b': "b' = b\<lparr>bh_ctx := c, bh_seq := bh_seq b + 1, bh_touched := w\<rparr>"
    using add by (auto simp: handler_add_def split: option.splits sum.splits)
  note a = AddRecord_logs [OF ok(1) inv]
  from touch [OF a(1) ok(2)] a show ?thesis using op b' by (simp add: op_done_def is_ok_def)
qed

lemma touch_key_set:
  assumes "write_keeps c0 c" "touch_key k tv c w = Inr w'" "ty \<noteq> kTypeRangeDeletion"
  shows "rec_bit c0 k ty tv < 64 \<and> (\<forall>i. bit w' i \<longleftrightarrow> bit w i \<or> i = rec_bit c0 k ty tv)"
  using touch_bit_set [OF assms(2) [unfolded touch_key_def]] write_keeps_route(2) [OF assms(1), of k ty tv] assms(3)
  by (simp add: rec_bit_def)

lemma handle_op_done:
  assumes h: "handle_op b op tv rnd = Some (Inr u, b')" and inv: "wal_inv (ctx_wal (bh_ctx b))"
  shows "op_done b op tv b'"
proof -
  have ty: "kTypeValue \<noteq> kTypeRangeDeletion" "kTypeDeletion \<noteq> kTypeRangeDeletion" "kTypeSingleDeletion \<noteq> kTypeRangeDeletion"
    "kTypeMerge \<noteq> kTypeRangeDeletion"
    by (simp_all add: kTypeValue_def kTypeMerge_def kTypeDeletion_def kTypeSingleDeletion_def kTypeRangeDeletion_def)
  note keyed = handler_add_done [OF _ inv _ touch_key_set]
  show ?thesis
  proof (cases op)
    case (BPut cf k v)
    then show ?thesis using h ty by (intro keyed [where k = k and ty = kTypeValue and rnd = rnd]) (auto simp: handle_op_def PutCF_def op_record_def split: if_splits)
  next
    case (BDelete cf k)
    then show ?thesis using h ty by (intro keyed [where k = k and ty = kTypeDeletion and rnd = rnd]) (auto simp: handle_op_def DeleteCF_def op_record_def split: if_splits)
  next
    case (BSingleDelete cf k)
    then show ?thesis using h ty by (intro keyed [where k = k and ty = kTypeSingleDeletion and rnd = rnd]) (auto simp: handle_op_def SingleDeleteCF_def op_record_def split: if_splits)
  next
    case (BMerge cf k v)
    then show ?thesis using h ty by (intro keyed [where k = k and ty = kTypeMerge and rnd = rnd]) (auto simp: handle_op_def MergeCF_def op_record_def split: if_splits)
  next
    case (BDeleteRange cf k k')
    have "handler_add b k k' kTypeRangeDeletion tv rnd (\<lambda>_ w. Inr (w OR push_bit 63 1)) = Some (Inr u, b')"
      using h BDeleteRange by (simp add: handle_op_def DeleteRangeCF_def)
    then show ?thesis
      by (rule handler_add_done [OF _ inv]) (use bit_or_push [of 63] in \<open>auto simp: BDeleteRange op_record_def rec_bit_def\<close>)
  next
    case (BLogData blob)
    then show ?thesis using h inv by (auto simp: handle_op_def op_done_def op_record_def write_keeps_def)
  qed
qed

text \<open>A run over a batch, and over a group of writers.\<close>

definition run_done :: "BatchHandler \<Rightarrow> batch_op list \<Rightarrow> u32 \<Rightarrow> BatchHandler \<Rightarrow> bool" where
  "run_done b ops tv b' \<longleftrightarrow>
     write_keeps (bh_ctx b) (bh_ctx b') \<and> bh_seq b' = bh_seq b + of_nat (length (batch_records (bh_seq b) ops)) \<and>
     (\<forall>i. bit (bh_touched b) i \<longrightarrow> bit (bh_touched b') i) \<and>
     (\<forall>(k, v, ty, seq) \<in> set (batch_records (bh_seq b) ops).
        rec_bit (bh_ctx b) k ty tv < 64 \<and> bit (bh_touched b') (rec_bit (bh_ctx b) k ty tv) \<and>
        (28 + length k + length v < 2 ^ 32 \<longrightarrow> rec_logged (bh_ctx b') (record_part (bh_ctx b) k ty tv) k v ty seq))"

lemma run_done_append:
  assumes "run_done b ops tv b1" "run_done b1 ops' tv b2"
  shows "run_done b (ops @ ops') tv b2"
proof -
  have k: "write_keeps (bh_ctx b) (bh_ctx b1)" "write_keeps (bh_ctx b1) (bh_ctx b2)" using assms by (simp_all add: run_done_def)
  show ?thesis
    using assms write_keeps_trans [OF k] write_keeps_route [OF k(1)] rec_logged_keeps [OF _ k(2)]
    unfolding run_done_def batch_records_append by (auto split: prod.splits)
qed

lemma op_done_run: "op_done b op tv b' \<Longrightarrow> run_done b [op] tv b'"
  by (auto simp: op_done_def run_done_def split: option.splits)

lemma run_done_Nil: "wal_inv (ctx_wal (bh_ctx b)) \<Longrightarrow> run_done b [] tv b"
  by (simp add: run_done_def write_keeps_def)

lemma iterate_done:
  "iterate_batch b ops tv rnd = Some (Inr u, b') \<Longrightarrow> wal_inv (ctx_wal (bh_ctx b)) \<Longrightarrow> run_done b ops tv b'"
proof (induction ops arbitrary: b)
  case (Cons op ops)
  obtain b1 where h: "handle_op b op tv (rnd (bh_seq b)) = Some (Inr (), b1)" "iterate_batch b1 ops tv rnd = Some (Inr u, b')"
    using Cons.prems(1) by (auto split: option.splits sum.splits)
  note d = op_done_run [OF handle_op_done [OF h(1) Cons.prems(2)]]
  then have "wal_inv (ctx_wal (bh_ctx b1))" by (simp add: run_done_def write_keeps_def)
  from run_done_append [OF d Cons.IH [OF h(2) this]] show ?case by simp
qed (simp add: run_done_Nil)

lemma write_group_done:
  "write_group_loop b wg tv rnd = Some (Inr u, b') \<Longrightarrow> wal_inv (ctx_wal (bh_ctx b)) \<Longrightarrow>
    run_done b (concat (map snd (filter fst wg))) tv b'"
proof (induction wg arbitrary: b)
  case (Cons w ws)
  show ?case
  proof (cases "fst w")
    case True
    obtain b1 where h: "iterate_batch b (snd w) tv rnd = Some (Inr (), b1)" "write_group_loop b1 ws tv rnd = Some (Inr u, b')"
      using Cons.prems(1) True by (auto split: option.splits sum.splits)
    note d = iterate_done [OF h(1) Cons.prems(2)]
    then have "wal_inv (ctx_wal (bh_ctx b1))" by (simp add: run_done_def write_keeps_def)
    from run_done_append [OF d Cons.IH [OF h(2) this]] True show ?thesis by simp
  qed (use Cons in simp)
qed (simp add: run_done_Nil)

end
