(* ===== verification/ZfContextProps.thy ===== *)
theory ZfContextProps
  imports ZfContextSteps ZfWriteSync
begin

text \<open>
  The properties of the context: the lookup against the history of writes, a write followed by a
  lookup, the choice of the partitions to seal, the list of partitions a write syncs, and the
  places where the code does something else than its comments say.
\<close>

section \<open>Lookups\<close>


text \<open>A context with \<open>n\<close> hash partitions, before its first write.\<close>

definition hash_ctx :: "u32 \<Rightarrow> ZeroFlushContext" where
  "hash_ctx n = new_ZeroFlushContext (default_options \<lparr> zo_partitions := n \<rparr>) ''d''
     \<lparr> e_files = [], e_synced = [], e_fail = (\<lambda>_. False) \<rparr> Slice_compare []
     \<lparr> zc_tables := Some \<lparr> s_versions = [CreateHash 0 n], s_current_version = 0 \<rparr> \<rparr>"

lemma one_part_route: "PT_Route (CreateHash 0 1) key = 0"
  by (simp add: PT_Route_def CreateHash_def partitions_def)

lemma hash_route_less: "0 < n \<Longrightarrow> PT_Route (CreateHash 0 n) key < n"
  by (simp add: PT_Route_def CreateHash_def partitions_def word_less_nat_alt unat_mod)

lemma hash_ctx_reach:
  assumes "0 < n" "n < kRangeDelPartId"
  shows "ctx_reach (CreateHash 0 n) [] (hash_ctx n)"
proof -
  have "PT_Route (CreateHash 0 n) key \<noteq> kRangeDelPartId" for key using hash_route_less [OF assms(1), of key] assms(2) by auto
  then show ?thesis
    by (intro ctx_reach.init [where n = n])
      (auto simp: hash_ctx_def new_ZeroFlushContext_def fixed_table_def current_table_def set_current_def set_Get_def default_options_def)
qed

lemma hash_ctx_has: "HasPartition (zc_wal (hash_ctx n)) p \<longleftrightarrow> p < n"
  by (simp add: hash_ctx_def new_ZeroFlushContext_def HasPartition_def find_new_manager default_options_def word_less_nat_alt)

lemma hash_ctx_table: "Option.bind (zc_tables (hash_ctx n)) (\<lambda>s. set_Get s 0) = Some (CreateHash 0 n)"
  by (simp add: hash_ctx_def set_Get_def)

lemma hash_ctx_size: "ActiveSize (zc_wal (hash_ctx n)) p = 0"
  by (simp add: hash_ctx_def new_ZeroFlushContext_def ActiveSize_def find_new_manager new_Partition_def)

lemma hash_ctx_pre: "length key + length v < 100 \<Longrightarrow> seq \<le> kMaxSequenceNumber \<Longrightarrow> write_pre (CreateHash 0 n) [] (hash_ctx n) key v ty seq"
  by (simp add: write_pre_def hash_ctx_size) (simp add: hash_ctx_def new_ZeroFlushContext_def active_of_def new_PartitionIndexSet_def)

lemma one_part_small: "(1 :: u32) < kRangeDelPartId"
  by (simp add: kRangeDelPartId_def word_less_nat_alt)

lemma one_part_reach: "ctx_reach (CreateHash 0 1) [] (hash_ctx 1)"
  by (rule hash_ctx_reach [OF _ one_part_small]) simp

lemma small_seq: "seq < 100 \<Longrightarrow> (seq :: u64) \<le> kMaxSequenceNumber"
  by (simp add: kMaxSequenceNumber_def word_le_nat_alt word_less_nat_alt)

lemma hash_ctx_add:
  assumes "n < kRangeDelPartId" "PT_Route (CreateHash 0 n) [x] < n"
  obtains c where "AddRecord (hash_ctx n) [x] [98] kTypeValue 7 0 ([], 0) = Some (Inr (), c)"
    "ctx_reach (CreateHash 0 n) [write_entry (CreateHash 0 n) (hash_ctx n) [x] [98] kTypeValue 7] c"
proof -
  have has: "HasPartition (zc_wal (hash_ctx n)) (PT_Route (CreateHash 0 n) [x])" using assms(2) by (simp add: hash_ctx_has)
  have "0 < n" using assms(2) by (metis word_not_simps(1) word_gt_0)
  note r = hash_ctx_reach [OF this assms(1)]
  have pre: "write_pre (CreateHash 0 n) [] (hash_ctx n) [x] [98] kTypeValue 7" by (rule hash_ctx_pre) (simp_all add: small_seq word_less_nat_alt)
  obtain c where c: "AddRecord (hash_ctx n) [x] [98] kTypeValue 7 0 ([], 0) = Some (Inr (), c)"
    using AddRecord_ctx_inv [OF ctx_reach_inv [OF r] pre hash_ctx_table disjI2 [OF has]] by blast
  from that [OF c] ctx_reach.write_rec [OF r pre disjI2 [OF has] hash_ctx_table c] show ?thesis by simp
qed

text \<open>A write leaves the other partitions alone; so the next one can be made.\<close>

lemma AddRecord_other:
  assumes "AddRecord c key v ty seq tv rnd = Some (r, c')" "q \<noteq> record_part c key ty tv"
  shows "find_part (zc_wal c') q = find_part (zc_wal c) q"
proof -
  obtain res e m where a: "Append (zc_env c) (zc_wal c) (record_part c key ty tv) key v ty seq = (res, e, m)" by (metis prod_cases3)
  have "find_part m q = find_part (zc_wal c) q"
    using a assms(2) by (auto simp: Append_def append_to_def append_buffer_def Let_def split: option.splits sum.splits prod.splits if_splits)
  moreover have "zc_wal c' = m" using assms(1) a by (auto simp: AddRecord_def Let_def split: sum.splits option.splits)
  ultimately show ?thesis by simp
qed





text \<open>C3: a write is accepted and visible. In every reachable state a put, a deletion or a single deletion for a
  known partition is written to log and index, and a lookup at any snapshot from its sequence number on
  returns its value, or not-found when it is a deletion; keys that differ answer as before. The one
  exception is in the statement: when the code's cover test finds a range deletion over the key
  (\<open>range_covered\<close>), even one that is older than the write, the lookup answers not-found. Scope as
  for the lookup: a fixed hash or static table under the bytewise comparator, the value cache off, no
  I/O failures, increasing sequence numbers, records below 4 GiB.\<close>

theorem put_then_get:
  assumes "ctx_reach t H c" "write_pre t H c key v ty seq" "HasPartition (zc_wal c) (PT_Route t key)"
    "Option.bind (zc_tables c) (\<lambda>s. set_Get s tv) = Some t" "ty \<in> {kTypeValue, kTypeDeletion, kTypeSingleDeletion}"
    "seq \<le> snapshot" "snapshot \<le> kMaxSequenceNumber"
  shows "\<exists>c' c''. AddRecord c key v ty seq tv rnd = Some (Inr (), c') \<and>
    GetFromPartitionIndex c' key snapshot mc mo =
      Some (if ty = kTypeValue \<and> \<not> range_covered H key snapshot
            then \<lparr> g_found = True, g_status = Some (Inr ()), g_value = Some v, g_operands = [] \<rparr>
            else get_not_found, c'') \<and>
    (\<forall>k. k \<noteq> key \<longrightarrow> get_spec (H @ [write_entry t c key v ty seq]) k snapshot = get_spec H k snapshot)"
proof -
  let ?w = "write_entry t c key v ty seq"
  obtain c' where add: "AddRecord c key v ty seq tv rnd = Some (Inr (), c')"
    using AddRecord_ctx_inv [OF ctx_reach_inv [OF assms(1)] assms(2,4) disjI2 [OF assms(3)]] by blast
  have reach: "ctx_reach t (H @ [?w]) c'" by (rule ctx_reach.write_rec [OF assms(1,2) disjI2 [OF assms(3)] assms(4) add])
  have ne: "ty \<noteq> kTypeMerge" "ty \<noteq> kTypeRangeDeletion" "ty = kTypeValue \<longleftrightarrow> \<not> (ty = kTypeDeletion \<or> ty = kTypeSingleDeletion \<or> ty = kTypeRangeDeletion)"
    using assms(5) by (auto simp: kTypeValue_def kTypeMerge_def kTypeDeletion_def kTypeSingleDeletion_def kTypeRangeDeletion_def)
  have "PT_Route t key \<noteq> kRangeDelPartId" using ctx_invD(9) [OF ctx_reach_inv [OF assms(1)]] by (simp add: fixed_table_def)
  then have w: "r_key (fst ?w) = key" "r_seq (fst ?w) = seq" "r_type (fst ?w) = ty" "snd ?w = (if ty = kTypeDeletion then [] else v)"
    "r_part (fst ?w) \<noteq> kRangeDelPartId"
    using ne(2) by (simp_all add: write_entry_def Let_def rec_part_def)
  have n: "newest_version (H @ [?w]) key snapshot = Some ?w"
    using w assms(6) ne(2) by (auto simp: newest_version_def last_opt_def split: prod.splits)
  have cov: "range_covered (H @ [?w]) k snapshot = range_covered H k snapshot" for k
  proof -
    have g: "gen_entries (map fst (H @ [?w])) kRangeDelPartId g = gen_entries (map fst H) kRangeDelPartId g" for g
      using w(5) by (auto simp: gen_entries_def)
    moreover have "\<not> nearest_before (gen_entries (map fst H) kRangeDelPartId g) k snapshot (fst ?w)" for g
      using w(5) by (auto simp: nearest_before_def gen_entries_def)
    ultimately show ?thesis unfolding range_covered_def by (cases ?w) auto
  qed
  have len: "length key + 8 < 2 ^ 32" using assms(2) by (simp add: write_pre_def)
  have spec: "lookup_spec (Some ?w) =
      (if ty = kTypeValue then \<lparr> g_found = True, g_status = Some (Inr ()), g_value = Some v, g_operands = [] \<rparr> else get_not_found)"
    using w ne by (cases ?w) (auto simp: lookup_spec_def)
  have "\<exists>c''. GetFromPartitionIndex c' key snapshot mc mo = Some (get_spec (H @ [?w]) key snapshot, c'')"
    using lookup_newest [OF ctx_reach_inv [OF reach] len assms(7)] n w(3) ne(1) by fastforce
  moreover have "newest_version (H @ [?w]) k snapshot = newest_version H k snapshot" if "k \<noteq> key" for k
    using that w(1) by (auto simp: newest_version_def split: prod.splits)
  ultimately show ?thesis using add unfolding get_spec_def cov n spec by auto
qed

theorem put_then_get_witness:
  "\<exists>c' c''. AddRecord (hash_ctx 1) [97] [98] kTypeValue 7 0 ([], 0) = Some (Inr (), c') \<and>
    GetFromPartitionIndex c' [97] 8 None None =
      Some (\<lparr> g_found = True, g_status = Some (Inr ()), g_value = Some [98], g_operands = [] \<rparr>, c'')"
proof -
  have has: "HasPartition (zc_wal (hash_ctx 1)) (PT_Route (CreateHash 0 1) [97])" by (simp add: one_part_route hash_ctx_has)
  have pre: "write_pre (CreateHash 0 1) [] (hash_ctx 1) [97] [98] kTypeValue 7" by (rule hash_ctx_pre) (simp_all add: small_seq word_less_nat_alt)
  from put_then_get [OF one_part_reach pre has hash_ctx_table, of 8 "([], 0)" None None]
  obtain c' c'' where "AddRecord (hash_ctx 1) [97] [98] kTypeValue 7 0 ([], 0) = Some (Inr (), c')"
    "GetFromPartitionIndex c' [97] 8 None None =
      Some (\<lparr> g_found = True, g_status = Some (Inr ()), g_value = Some [98], g_operands = [] \<rparr>, c'')"
    by (auto simp: kMaxSequenceNumber_def word_le_nat_alt range_covered_def)
  then show ?thesis by blast
qed

section \<open>The partitions of a batch seal\<close>

interpretation size_order: exact_comparator size_greater
  by unfold_locales (auto simp: size_greater_def split: if_splits)

lemma fill_batch_limits:
  "fill_batch k n rest batch b = batch @ ys \<Longrightarrow> length batch < k \<Longrightarrow>
    length ys + length batch \<le> k \<and>
    (length ys < length rest \<longrightarrow> k \<le> length batch + length ys \<or> n \<le> b + sum_list (take (length ys) (map fst rest)))"
proof (induction k n rest batch b arbitrary: ys rule: fill_batch.induct)
  case (2 k n sz p rest batch b)
  show ?case
  proof (cases "k \<le> length batch \<or> n \<le> b")
    case False
    obtain zs where zs: "fill_batch k n rest (batch @ [p]) (b + sz) = (batch @ [p]) @ zs" using fill_batch_subset by blast
    then have ys: "ys = p # zs" using 2(2) False by auto
    show ?thesis
    proof (cases "length (batch @ [p]) < k")
      case True
      with 2(1) [OF False zs True] show ?thesis using ys by (auto simp: add.assoc)
    next
      case full: False
      then have "zs = []" using zs by (cases rest) auto
      then show ?thesis using ys full False by auto
    qed
  qed (use 2 in auto)
qed simp

lemma batch_rest_sorted: "sorted_wrt (\<lambda>p q. ActiveSize (zc_wal c) q \<le> ActiveSize (zc_wal c) p) (batch_rest c)"
proof -
  let ?f = "\<lambda>p. (ActiveSize (zc_wal c) p, p)"
  let ?xs = "map ?f (filter (\<lambda>p. p \<notin> set (over_target c) \<and> 0 < ActiveSize (zc_wal c) p) (AllPartitionIds (zc_wal c)))"
  have eq: "fst a = ActiveSize (zc_wal c) (snd a)" if "a \<in> set (sort_cmp size_greater ?xs)" for a
    using that unfolding size_order.set_sort_cmp by auto
  have "sorted_wrt (\<lambda>a b. fst b \<le> fst a) (sort_cmp size_greater ?xs)"
    by (rule sorted_wrt_mono_rel [OF _ size_order.sorted_sort_cmp]) (auto simp: size_greater_def split: if_splits)
  then have "sorted_wrt (\<lambda>a b. ActiveSize (zc_wal c) (snd b) \<le> ActiveSize (zc_wal c) (snd a)) (sort_cmp size_greater ?xs)"
    by (rule sorted_wrt_mono_rel [rotated]) (simp add: eq)
  then show ?thesis by (simp add: batch_rest_def sorted_wrt_map)
qed

lemma set_batch_rest:
  "set (batch_rest c) = {p. HasPartition (zc_wal c) p \<and> p \<notin> set (over_target c) \<and> 0 < ActiveSize (zc_wal c) p}"
  using mset_eq_setD [OF mset_batch_rest [of c]] by (auto simp: set_AllPartitionIds)

lemma select_batch_limits:
  assumes "select_batch c = over_target c @ ys"
  shows "length (over_target c @ ys) \<le> max (length (over_target c)) (max 1 (unat (zo_max_batch_partitions (zc_zfo c))))"
    and "length ys < length (batch_rest c) \<Longrightarrow>
      max 1 (unat (zo_max_batch_partitions (zc_zfo c))) \<le> length (over_target c @ ys) \<or>
      unat (zo_epoch_target_bytes (zc_zfo c)) \<le> sum_list (map (ActiveSize (zc_wal c)) (over_target c @ ys))"
proof -
  let ?k = "max 1 (unat (zo_max_batch_partitions (zc_zfo c)))" and ?n = "unat (zo_epoch_target_bytes (zc_zfo c))"
  let ?sum = "\<lambda>ps. sum_list (map (ActiveSize (zc_wal c)) ps)"
  let ?rest = "sort_cmp size_greater (map (\<lambda>p. (ActiveSize (zc_wal c) p, p))
     (filter (\<lambda>p. p \<notin> set (over_target c) \<and> 0 < ActiveSize (zc_wal c) p) (AllPartitionIds (zc_wal c))))"
  have len: "length (batch_rest c) = length ?rest" by (simp add: batch_rest_def)
  have fsts: "map fst ?rest = map (ActiveSize (zc_wal c)) (batch_rest c)"
    unfolding batch_rest_def map_map comp_def by (rule map_cong [OF refl]) (auto simp: size_order.set_sort_cmp)
  have "length (over_target c @ ys) \<le> max (length (over_target c)) ?k \<and>
    (length ys < length (batch_rest c) \<longrightarrow> ?k \<le> length (over_target c @ ys) \<or> ?n \<le> ?sum (over_target c @ ys))"
  proof (cases "length (over_target c) < ?k \<and> ?sum (over_target c) < ?n")
    case True
    then have f: "fill_batch ?k ?n ?rest (over_target c) (?sum (over_target c)) = over_target c @ ys"
      using assms by (simp add: select_batch_alt)
    obtain ys' zs where ys: "fill_batch ?k ?n ?rest (over_target c) (?sum (over_target c)) = over_target c @ ys'" "map snd ?rest = ys' @ zs"
      using fill_batch_subset by blast
    then have b: "batch_rest c = ys @ zs" using f by (simp add: batch_rest_def)
    then have "sum_list (take (length ys) (map fst ?rest)) = ?sum ys" unfolding fsts by simp
    with fill_batch_limits [OF f] True show ?thesis unfolding len by auto
  next
    case False
    then have "ys = []" using assms by (auto simp: select_batch_alt split: if_splits)
    then show ?thesis using False by auto
  qed
  then show "length (over_target c @ ys) \<le> max (length (over_target c)) ?k"
    and "length ys < length (batch_rest c) \<Longrightarrow> ?k \<le> length (over_target c @ ys) \<or> ?n \<le> ?sum (over_target c @ ys)"
    by blast+
qed

text \<open>C16: the batch of a seal. It holds each partition once, only known ones, and every partition at or over
  its target; the others in it are not empty and at least as large as every partition left out; it
  exceeds the limit on partitions only by partitions over their target; and while a partition with data
  is left out, the batch has reached the limit on partitions or on bytes. The limit is the option
  \<^verbatim>\<open>max_batch_partitions\<close>, and 1 when the option is 0, as the code has it (\<^verbatim>\<open>std::max(1, ...)\<close>); the comment
  at the option says that 0 stands for the default of 4.\<close>

theorem batch_selection:
  assumes "mgr_wf e (zc_wal c)"
  shows "distinct (select_batch c) \<and>
    (\<forall>p. HasPartition (zc_wal c) p \<and> unat (zo_partition_target_bytes (zc_zfo c)) \<le> ActiveSize (zc_wal c) p \<longrightarrow> p \<in> set (select_batch c)) \<and>
    (\<forall>p \<in> set (select_batch c). HasPartition (zc_wal c) p \<and>
       (unat (zo_partition_target_bytes (zc_zfo c)) \<le> ActiveSize (zc_wal c) p \<or>
        0 < ActiveSize (zc_wal c) p \<and>
        (\<forall>q. HasPartition (zc_wal c) q \<and> q \<notin> set (select_batch c) \<longrightarrow> ActiveSize (zc_wal c) q \<le> ActiveSize (zc_wal c) p))) \<and>
    length (select_batch c) \<le> max (length (over_target c)) (max 1 (unat (zo_max_batch_partitions (zc_zfo c)))) \<and>
    ((\<exists>q. HasPartition (zc_wal c) q \<and> q \<notin> set (select_batch c) \<and> 0 < ActiveSize (zc_wal c) q) \<longrightarrow>
       max 1 (unat (zo_max_batch_partitions (zc_zfo c))) \<le> length (select_batch c) \<or>
       unat (zo_epoch_target_bytes (zc_zfo c)) \<le> sum_list (map (ActiveSize (zc_wal c)) (select_batch c)))"
proof -
  obtain ys zs where b: "select_batch c = over_target c @ ys" "batch_rest c = ys @ zs" using select_batch_split by blast
  note parts = select_batch_parts [OF assms]
  have over: "set (over_target c) = {p. HasPartition (zc_wal c) p \<and> unat (zo_partition_target_bytes (zc_zfo c)) \<le> ActiveSize (zc_wal c) p}"
    by (auto simp: over_target_def set_AllPartitionIds)
  have out: "q \<in> set zs" if "HasPartition (zc_wal c) q" "q \<notin> set (select_batch c)" "0 < ActiveSize (zc_wal c) q" for q
    using that b set_batch_rest [of c] by auto
  have largest: "ActiveSize (zc_wal c) q \<le> ActiveSize (zc_wal c) p"
    if "p \<in> set ys" "HasPartition (zc_wal c) q" "q \<notin> set (select_batch c)" for p q
  proof (cases "ActiveSize (zc_wal c) q = 0")
    case False
    then have "q \<in> set zs" using out that by simp
    then show ?thesis using batch_rest_sorted [of c] that(1) b(2) by (simp add: sorted_wrt_append)
  qed simp
  have ys: "0 < ActiveSize (zc_wal c) p" if "p \<in> set ys" for p using that b(2) set_batch_rest [of c] by auto
  have len: "length ys < length (batch_rest c)"
    if "HasPartition (zc_wal c) q" "q \<notin> set (select_batch c)" "0 < ActiveSize (zc_wal c) q" for q
    using out [OF that] b(2) by (cases zs) auto
  have "p \<in> set (over_target c) \<or> p \<in> set ys" if "p \<in> set (select_batch c)" for p using that b(1) by auto
  then have mem: "HasPartition (zc_wal c) p \<and>
       (unat (zo_partition_target_bytes (zc_zfo c)) \<le> ActiveSize (zc_wal c) p \<or>
        0 < ActiveSize (zc_wal c) p \<and>
        (\<forall>q. HasPartition (zc_wal c) q \<and> q \<notin> set (select_batch c) \<longrightarrow> ActiveSize (zc_wal c) q \<le> ActiveSize (zc_wal c) p))"
    if "p \<in> set (select_batch c)" for p
    using that parts(2) over ys largest by blast
  have "\<forall>p. HasPartition (zc_wal c) p \<and> unat (zo_partition_target_bytes (zc_zfo c)) \<le> ActiveSize (zc_wal c) p \<longrightarrow> p \<in> set (select_batch c)"
    using over b(1) by simp
  then show ?thesis
    using parts(1) mem select_batch_limits [OF b(1)] len unfolding b(1) by blast
qed

text \<open>Three partitions with 50, 200 and 10 bytes, a target of 100 bytes and a limit of two partitions.\<close>

definition batch_part :: "u32 \<Rightarrow> nat \<Rightarrow> Partition" where
  "batch_part p n = \<lparr> pt_part_id = p, pt_wfile = None, pt_rfile = None, pt_buf = [], pt_flushed_size = n, pt_total_size = n,
     pt_active_bytes = of_nat n, pt_gen = 0 \<rparr>"

definition batch_ctx :: ZeroFlushContext where
  "batch_ctx = (hash_ctx 3)\<lparr>
     zc_env := \<lparr> e_files = [(MakeFileName ''d'' 0 0, replicate 50 0), (MakeFileName ''d'' 1 0, replicate 200 0), (MakeFileName ''d'' 2 0, replicate 10 0)],
       e_synced = [], e_fail = (\<lambda>_. False) \<rparr>,
     zc_wal := (new_WalManager ''d'' 3 100)\<lparr> wm_parts := [(0, batch_part 0 50), (1, batch_part 1 200), (2, batch_part 2 10)], wm_total_active := 260 \<rparr>,
     zc_zfo := default_options \<lparr> zo_partition_target_bytes := 100, zo_max_batch_partitions := 2, zo_epoch_target_bytes := 1000 \<rparr> \<rparr>"

lemma batch_ctx_simps:
  "find_part (zc_wal batch_ctx) q = (if q = 0 then Some (batch_part 0 50) else if q = 1 then Some (batch_part 1 200) else if q = 2 then Some (batch_part 2 10) else None)"
  "wm_dir (zc_wal batch_ctx) = ''d''" "AllPartitionIds (zc_wal batch_ctx) = [0, 1, 2]"
  "zc_zfo batch_ctx = default_options \<lparr> zo_partition_target_bytes := 100, zo_max_batch_partitions := 2, zo_epoch_target_bytes := 1000 \<rparr>"
  by (simp_all add: batch_ctx_def find_part_def new_WalManager_def AllPartitionIds_def)

lemma batch_ctx_wf: "mgr_wf (zc_env batch_ctx) (zc_wal batch_ctx)"
proof -
  have names: "MakeFileName ''d'' p 0 = MakeFileName ''d'' q 0 \<longleftrightarrow> p = q" for p q by auto
  have c: "e_content (zc_env batch_ctx) (MakeFileName ''d'' p g) =
      (if g \<noteq> 0 then None else if p = 0 then Some (replicate 50 0) else if p = 1 then Some (replicate 200 0) else if p = 2 then Some (replicate 10 0) else None)" for p g
    by (auto simp: batch_ctx_def e_content_def)
  have "distinct (map fst (wm_parts (zc_wal batch_ctx)))" "wm_total_active (zc_wal batch_ctx) = wm_counter (zc_wal batch_ctx)"
    by (simp_all add: batch_ctx_def wm_counter_def batch_part_def)
  then show ?thesis
    unfolding mgr_wf_def wm_paths_free_def batch_ctx_simps(2) using c
    by (auto simp: batch_ctx_simps(1) batch_part_def part_wf_def file_bytes_def FileName_def split: if_splits)
qed

theorem batch_selection_witness:
  "select_batch batch_ctx = [1, 0] \<and> ActiveSize (zc_wal batch_ctx) 2 \<le> ActiveSize (zc_wal batch_ctx) 0 \<and> 0 < ActiveSize (zc_wal batch_ctx) 2"
proof -
  have sz: "ActiveSize (zc_wal batch_ctx) 0 = 50" "ActiveSize (zc_wal batch_ctx) 1 = 200" "ActiveSize (zc_wal batch_ctx) 2 = 10"
    by (simp_all add: ActiveSize_def batch_ctx_simps batch_part_def)
  have sel: "select_batch batch_ctx = [1, 0]"
    by (simp add: select_batch_alt over_target_def batch_ctx_simps sz size_greater_def)
  have "HasPartition (zc_wal batch_ctx) 2" by (simp add: HasPartition_def batch_ctx_simps)
  moreover have "\<forall>p \<in> set (select_batch batch_ctx). HasPartition (zc_wal batch_ctx) p \<and>
       (unat (zo_partition_target_bytes (zc_zfo batch_ctx)) \<le> ActiveSize (zc_wal batch_ctx) p \<or>
        0 < ActiveSize (zc_wal batch_ctx) p \<and>
        (\<forall>q. HasPartition (zc_wal batch_ctx) q \<and> q \<notin> set (select_batch batch_ctx) \<longrightarrow> ActiveSize (zc_wal batch_ctx) q \<le> ActiveSize (zc_wal batch_ctx) p))"
    using batch_selection [OF batch_ctx_wf] by blast
  ultimately have "ActiveSize (zc_wal batch_ctx) 2 \<le> ActiveSize (zc_wal batch_ctx) 0" unfolding sel by (simp add: batch_ctx_simps sz)
  then show ?thesis using sel sz by simp
qed

section \<open>Synced writes\<close>

text \<open>C2: a synced write group survives a crash. When the group was written and the sync of its touched
  partitions succeeded, every record of the group is in the log of its partition under its sequence
  number, reads back, and is still at its place in the partition's file after any crash that keeps
  what was durable. Partition 63 is excluded: its bit stands for the range deletions.\<close>

theorem synced_group_durable:
  assumes "wal_inv (zc_env c, zc_wal c)"
    "WriteGroupToPartitionWal c wg seq0 tv rnd = Some (Inr touched, c1)"
    "SyncTouchedPartitions c1 touched = (Inr (), c2)"
    "(k, v, ty, seq) \<in> set (batch_records seq0 (concat (map snd (filter fst wg))))"
    "28 + length k + length v < 2 ^ 32" "ty = kTypeRangeDeletion \<or> RouteWithVersion c k tv \<noteq> 63"
    "crash_of (zc_env c2) e2"
  shows "\<exists>ref. r_part_id ref = record_part c k ty tv \<and>
    ReadRecord (zc_env c2) (zc_wal c2) ref = Inr (if ty = kTypeDeletion then [] else v) \<and>
    rec_at (file_bytes e2 (MakeFileName (wm_dir (zc_wal c)) (r_part_id ref) (r_gen ref))) (r_offset ref) (append_header k v ty seq, k, v)"
proof -
  let ?b = "\<lparr>bh_ctx = c, bh_seq = seq0, bh_touched = 0\<rparr>"
  obtain b' where g: "write_group_loop ?b wg tv rnd = Some (Inr (), b')" "touched = touched_loop 0 (bh_touched b')" "c1 = bh_ctx b'"
    using assms(2) by (auto simp: WriteGroupToPartitionWal_def split: option.splits sum.splits)
  have "wal_inv (ctx_wal (bh_ctx ?b))" using assms(1) by (simp add: ctx_wal_def)
  note d = write_group_done [OF g(1) this, unfolded run_done_def]
  have keeps: "write_keeps c c1" and bits: "rec_bit c k ty tv < 64" "bit (bh_touched b') (rec_bit c k ty tv)"
    and logged: "rec_logged c1 (record_part c k ty tv) k v ty seq"
    using d assms(4,5) g(3) by auto
  have touched: "record_part c k ty tv \<in> set touched"
  proof -
    have "(if rec_bit c k ty tv = 63 then kRangeDelPartId else of_nat (rec_bit c k ty tv)) = record_part c k ty tv"
      using assms(6) bits(1) by (auto simp: rec_bit_def record_part_def dest: arg_cong [where f = "of_nat :: nat \<Rightarrow> u32"])
    then show ?thesis unfolding g(2) set_touched using bits by (intro CollectI exI [of _ "rec_bit c k ty tv"]) simp
  qed
  obtain e2' m2' where sp: "sync_parts (zc_env c1) (zc_wal c1) touched = (Inr (), e2', m2')" "zc_env c2 = e2'" "zc_wal c2 = m2'"
    using assms(3) by (auto simp: SyncTouchedPartitions_def split: prod.splits)
  have inv1: "wal_inv (zc_env c1, zc_wal c1)" using keeps by (simp add: write_keeps_def ctx_wal_def)
  note s = sync_parts_synced [OF sp(1) inv1]
  obtain ref where ref: "r_part_id ref = record_part c k ty tv" "wal_has (zc_env c1, zc_wal c1) ref (append_header k v ty seq, k, v)"
    using logged by (auto simp: rec_logged_def ctx_wal_def)
  have has: "wal_has (e2', m2') ref (append_header k v ty seq, k, v)" and inv2: "wal_inv (e2', m2')"
    and syn: "synced_part (e2', m2') (r_part_id ref)" and dir: "wm_dir m2' = wm_dir (zc_wal c)"
    using s ref touched keeps by (auto simp: write_keeps_def)
  have "ReadRecord e2' m2' ref = Inr (if ty = kTypeDeletion then [] else v)"
    using wal.read_has [OF inv2 has] by (simp add: read_value_def append_header_def)
  moreover have "mgr_wf e2' m2'" using inv2 by (simp add: wal_inv_def)
  from synced_crash [OF has syn this assms(7) [unfolded sp(2)]]
  have "rec_at (file_bytes e2 (MakeFileName (wm_dir (zc_wal c)) (r_part_id ref) (r_gen ref))) (r_offset ref) (append_header k v ty seq, k, v)"
    by (simp add: dir)
  ultimately show ?thesis using ref(1) sp(2,3) by blast
qed

lemma crash_of_refl: "crash_of e e"
  unfolding crash_of_def by (metis nle_le order_refl take_all)

lemma sync_one_ok:
  assumes inv: "wal_inv (zc_env c, zc_wal c)" and has: "HasPartition (zc_wal c) p"
  shows "\<exists>c'. SyncTouchedPartitions c [p] = (Inr (), c')"
proof -
  obtain r e m where s: "Sync (zc_env c) (zc_wal c) p = (r, e, m)" by (metis prod_cases3)
  obtain q where q: "find_part (zc_wal c) p = Some q" using has by (auto simp: HasPartition_def)
  have wf: "mgr_wf (zc_env c) (zc_wal c)" and nf: "\<forall>op. \<not> e_fail (zc_env c) op" using inv by (simp_all add: wal_inv_def)
  have "is_ok r" by (rule Sync_spec [OF s wf q disjI1 [OF no_fail_whole [OF nf]]]) (use nf in blast)
  then show ?thesis using s by (cases r) (auto simp: SyncTouchedPartitions_def is_ok_def)
qed

theorem synced_group_durable_witness:
  "\<exists>c1 c2 (ref :: WalRecordRef). WriteGroupToPartitionWal (hash_ctx 1) [(True, [BPut 0 [97] [98]])] 7 0 (\<lambda>_. ([], 0)) = Some (Inr [0], c1) \<and>
     SyncTouchedPartitions c1 [0] = (Inr (), c2) \<and>
     rec_at (file_bytes (zc_env c2) (MakeFileName ''d'' 0 (r_gen ref))) (r_offset ref) (append_header [97] [98] kTypeValue 7, [97], [98])"
proof -
  let ?c = "hash_ctx 1" and ?wg = "[(True, [BPut 0 [97] [98]])]"
  obtain c where c: "AddRecord ?c [97] [98] kTypeValue 7 0 ([], 0) = Some (Inr (), c)"
    "ctx_reach (CreateHash 0 1) [write_entry (CreateHash 0 1) ?c [97] [98] kTypeValue 7] c"
    by (rule hash_ctx_add [OF one_part_small, of 97]) (simp_all add: one_part_route)
  have inv: "wal_inv (zc_env ?c, zc_wal ?c)" "wal_inv (zc_env c, zc_wal c)"
    using ctx_invD(1) [OF ctx_reach_inv [OF one_part_reach]] ctx_invD(1) [OF ctx_reach_inv [OF c(2)]] by simp_all
  have keeps: "write_keeps ?c c" by (rule AddRecord_logs(1) [OF c(1)]) (use inv(1) in \<open>simp add: ctx_wal_def\<close>)
  have route: "RouteWithVersion ?c [97] 0 = 0" using hash_ctx_table [of 1] by (simp add: RouteWithVersion_def one_part_route)
  have "zc_tables c = zc_tables ?c" using keeps by (simp add: write_keeps_def)
  then have route': "RouteWithVersion c [97] 0 = 0" using hash_ctx_table [of 1] by (simp add: RouteWithVersion_def one_part_route)
  have tl: "touched_loop 0 1 = [0]"
    by (subst touched_loop_bits) (simp_all add: upt_conv_Cons bit_1_iff)
  have g: "WriteGroupToPartitionWal ?c ?wg 7 0 (\<lambda>_. ([], 0)) = Some (Inr [0], c)"
    using c(1) route' tl by (simp add: WriteGroupToPartitionWal_def handle_op_def PutCF_def handler_add_def touch_key_def touch_bit_def)
  have has: "HasPartition (zc_wal c) 0"
  proof -
    obtain ref where "r_part_id ref = record_part ?c [97] kTypeValue 0" "wal_has (ctx_wal c) ref (append_header [97] [98] kTypeValue 7, [97], [98])"
      using AddRecord_logs(2) [OF c(1)] inv(1) by (auto simp: ctx_wal_def is_ok_def rec_logged_def)
    then show ?thesis
      by (auto simp: wal_has_def ctx_wal_def record_part_def route HasPartition_def kTypeValue_def kTypeRangeDeletion_def)
  qed
  obtain c2 where s: "SyncTouchedPartitions c [0] = (Inr (), c2)" using sync_one_ok [OF inv(2) has] by blast
  have "(([97] :: bytes), ([98] :: bytes), kTypeValue, 7) \<in> set (batch_records 7 (concat (map snd (filter fst ?wg))))"
    by (simp add: op_record_def)
  note rec = this
  have "\<exists>ref. r_part_id ref = record_part ?c [97] kTypeValue 0 \<and>
    ReadRecord (zc_env c2) (zc_wal c2) ref = Inr (if kTypeValue = kTypeDeletion then [] else [98]) \<and>
    rec_at (file_bytes (zc_env c2) (MakeFileName (wm_dir (zc_wal ?c)) (r_part_id ref) (r_gen ref))) (r_offset ref)
       (append_header [97] [98] kTypeValue 7, [97], [98])"
    by (rule synced_group_durable [OF inv(1) g s rec _ _ crash_of_refl]) (simp_all add: route)
  then obtain ref :: WalRecordRef where ref: "r_part_id ref = record_part ?c [97] kTypeValue 0"
    "rec_at (file_bytes (zc_env c2) (MakeFileName (wm_dir (zc_wal ?c)) (r_part_id ref) (r_gen ref))) (r_offset ref)
       (append_header [97] [98] kTypeValue 7, [97], [98])" by blast
  have "record_part ?c [97] kTypeValue 0 = 0" by (simp add: record_part_def route kTypeValue_def kTypeRangeDeletion_def)
  moreover have "wm_dir (zc_wal ?c) = ''d''" by (simp add: hash_ctx_def new_ZeroFlushContext_def new_WalManager_def)
  ultimately show ?thesis using g s ref by (intro exI [of _ c] exI [of _ c2] exI [of _ ref]) simp
qed

text \<open>C40: a synced write to partition 63 fails. The bit of partition 63 doubles as the bit of the range
  deletions, so the sync of a put that is routed there goes to the range-deletion partition, which
  is unknown until a range deletion was written: the write reports \<^verbatim>\<open>InvalidArgument\<close> although its record is in
  the log, and partition 63 itself is not synced.\<close>

theorem partition_63_sync_fails:
  assumes "RouteWithVersion c k tv = 63" "AddRecord c k v kTypeValue seq tv (rnd seq) = Some (Inr (), c1)"
    "zc_tables c1 = zc_tables c" "zc_zfo c1 = zc_zfo c" "\<not> HasPartition (zc_wal c1) kRangeDelPartId"
  shows "InsertWriterToPartitionWal c [BPut 0 k v] seq True tv rnd =
    Some (Inl (InvalidArgument (''ZF Sync: unknown partition '' @ to_string (unat kRangeDelPartId))), c1)"
proof -
  have r: "RouteWithVersion c1 k tv = 63"
    using assms(1,3,4) by (simp add: RouteWithVersion_def hash_route_def split: option.splits)
  let ?w = "push_bit 63 1 :: u64"
  have w: "bit ?w i \<longleftrightarrow> i = 63" for i using bit_or_push [of 63 0 i] by simp
  then have "filter (bit ?w) [0..<64] = [63]"
    by (simp add: upt_rec)
  then have tl: "touched_loop 0 ?w = [kRangeDelPartId]" by (subst touched_loop_bits) simp_all
  have "?w \<noteq> 0" using w [of 63] by (metis bit_0_eq bot_apply bot_bool_def)
  moreover have "sync_parts (zc_env c1) (zc_wal c1) [kRangeDelPartId] =
      (Inl (InvalidArgument (''ZF Sync: unknown partition '' @ to_string (unat kRangeDelPartId))), zc_env c1, zc_wal c1)"
    using assms(5) by (simp add: Sync_def HasPartition_def)
  moreover have "iterate_batch \<lparr>bh_ctx = c, bh_seq = seq, bh_touched = 0\<rparr> [BPut 0 k v] tv rnd =
      Some (Inr (), \<lparr>bh_ctx = c1, bh_seq = seq + 1, bh_touched = ?w\<rparr>)"
    using assms(2) r by (simp add: handle_op_def PutCF_def handler_add_def touch_key_def touch_bit_def)
  ultimately show ?thesis
    unfolding InsertWriterToPartitionWal_def using tl by (simp add: SyncTouchedPartitions_def)
qed

theorem partition_63_sync_fails_witness:
  "\<exists>c1. InsertWriterToPartitionWal (hash_ctx 64) [BPut 0 [78] [98]] 7 True 0 (\<lambda>_. ([], 0)) =
    Some (Inl (InvalidArgument (''ZF Sync: unknown partition '' @ to_string (unat kRangeDelPartId))), c1)"
proof -
  let ?c = "hash_ctx 64"
  have small: "(64 :: u32) < kRangeDelPartId" by (simp add: kRangeDelPartId_def word_less_nat_alt)
  have "Hash [78] 0 mod 64 = 63" by code_simp
  then have p: "PT_Route (CreateHash 0 64) [78] = 63" by (simp add: PT_Route_def CreateHash_def partitions_def)
  obtain c where c: "AddRecord ?c [78] [98] kTypeValue 7 0 ([], 0) = Some (Inr (), c)"
    "ctx_reach (CreateHash 0 64) [write_entry (CreateHash 0 64) ?c [78] [98] kTypeValue 7] c"
    by (rule hash_ctx_add [OF small, of 78]) (simp_all add: p word_less_nat_alt)
  have "wal_inv (ctx_wal ?c)" using ctx_invD(1) [OF ctx_reach_inv [OF hash_ctx_reach [OF _ small]]] by (simp add: ctx_wal_def)
  from AddRecord_logs(1) [OF c(1) this] have keeps: "zc_tables c = zc_tables ?c" "zc_zfo c = zc_zfo ?c" by (simp_all add: write_keeps_def)
  have route: "RouteWithVersion ?c [78] 0 = 63" using hash_ctx_table [of 64] by (simp add: RouteWithVersion_def p)
  then have "record_part ?c [78] kTypeValue 0 \<noteq> kRangeDelPartId" by (simp add: record_part_def kTypeValue_def kTypeRangeDeletion_def kRangeDelPartId_def)
  from AddRecord_other [OF c(1) this [symmetric]] have nr: "\<not> HasPartition (zc_wal c) kRangeDelPartId"
    using hash_ctx_has [of 64 kRangeDelPartId] small by (simp add: HasPartition_def)
  from partition_63_sync_fails [where rnd = "\<lambda>_. ([], 0)", OF route c(1) keeps nr]
  show ?thesis by blast
qed

end
