(* ===== verification/ZfWalFaults.thy ===== *)
theory ZfWalFaults
  imports ZfWalLog
begin

text \<open>
  The WAL manager under I/O failures. The failure predicate of the store may change before every operation,
  so failures come and go; an append may fail before it writes anything or after a part of its data. The
  counters stay exact in all cases, the reported sizes as long as an append writes all or nothing. What a
  retry after a partial write does to the log is stated as well.
\<close>

section \<open>Steps with failures\<close>

text \<open>An operation of the manager, or a change of what fails; with \<open>whole\<close> no append is cut short.\<close>

inductive faulty_step :: "bool \<Rightarrow> env \<times> PartitionedWalManager \<Rightarrow> env \<times> PartitionedWalManager \<Rightarrow> bool" for whole where
  oper: "wal_step s s' \<Longrightarrow> faulty_step whole s s'"
| fault: "whole \<longrightarrow> whole_appends (e\<lparr>e_fail := f\<rparr>) \<Longrightarrow> faulty_step whole (e, m) (e\<lparr>e_fail := f\<rparr>, m)"

lemma step_wf: "wal_step s s' \<Longrightarrow> mgr_wf (fst s) (snd s) \<Longrightarrow> whole_appends (fst s) \<Longrightarrow> mgr_wf (fst s') (snd s') \<and> whole_appends (fst s')"
proof (induction rule: wal_step.induct)
  case (step_append e m part key v t seq res e' m')
  have wf: "mgr_wf e m" and whole: "whole_appends e" using step_append.prems by simp_all
  show ?case
  proof (cases "find_part m part \<noteq> None \<or> part = kRangeDelPartId")
    case True
    let ?rec = "EncodeZfRecord (append_header key v t seq) key v"
    have ens: "mgr_wf e (EnsurePartition m part)" by (rule EnsurePartition_wf [OF wf])
    obtain p where p: "find_part (EnsurePartition m part) part = Some p"
      "append_to e (EnsurePartition m part) part p ?rec = (res, e', m')"
      using Append_managed [OF True, of e key v t seq] step_append.hyps by (metis rec_bytes_simp)
    show ?thesis
    proof (rule append_to_spec [OF p(2) ens whole disjI1 [OF p(1)]])
      fix p' assume "mgr_wf e' m'" "only_file (FileName (wm_dir (EnsurePartition m part)) p) e e'"
      then show ?thesis using whole by (simp add: only_file_def whole_appends_def)
    qed
  next
    case False
    then show ?thesis using Append_unknown [of m part e key v t seq] step_append by auto
  qed
next
  case (step_sync e m part r e' m')
  show ?case
  proof (cases "find_part m part")
    case None
    then show ?thesis using step_sync by (auto simp: Sync_def)
  next
    case (Some p)
    have wf: "mgr_wf e m" and whole: "whole_appends e" using step_sync.prems by simp_all
    show ?thesis
    proof (rule Sync_spec [OF step_sync.hyps wf Some disjI1 [OF whole]])
      fix p' assume "part_keeps (wm_dir m) e p e' p'" "mgr_wf e' m'"
      then show ?thesis using whole by (simp add: part_keeps_def only_file_def whole_appends_def)
    qed
  qed
next
  case (step_ensure e m part)
  then show ?case by (simp add: EnsurePartition_wf)
qed

lemma faulty_wf:
  assumes "(faulty_step True)\<^sup>*\<^sup>* s s'" "mgr_wf (fst s) (snd s)" "whole_appends (fst s)"
  shows "mgr_wf (fst s') (snd s') \<and> whole_appends (fst s')"
  using assms
proof (induction rule: rtranclp_induct)
  case (step s s')
  from step.hyps(2) show ?case
  proof (cases rule: faulty_step.cases)
    case oper
    then show ?thesis using step_wf step by blast
  next
    case (fault f e m)
    have "mgr_wf (e\<lparr>e_fail := f\<rparr>) m = mgr_wf e m"
      by (simp add: mgr_wf_def part_wf_def wm_paths_free_def file_bytes_def e_content_def)
    then show ?thesis using fault step by simp
  qed
qed simp

section \<open>What every failure keeps\<close>

text \<open>Without any condition on appends: the sizes a partition reports, its counter and the handle, and that
  the file is at least as long as what was flushed.\<close>

definition part_sizes :: "env \<Rightarrow> string \<Rightarrow> Partition \<Rightarrow> bool" where
  "part_sizes e dir p \<longleftrightarrow>
     (pt_wfile p \<noteq> None \<longrightarrow> pt_wfile p = Some (FileName dir p)) \<and> pt_total_size p = pt_flushed_size p + length (pt_buf p) \<and>
     pt_active_bytes p = of_nat (pt_total_size p) \<and> pt_flushed_size p \<le> length (file_bytes e (FileName dir p))"

definition mgr_sizes :: "env \<Rightarrow> PartitionedWalManager \<Rightarrow> bool" where
  "mgr_sizes e m \<longleftrightarrow>
     distinct (map fst (wm_parts m)) \<and> (\<forall>part p. find_part m part = Some p \<longrightarrow> pt_part_id p = part \<and> part_sizes e (wm_dir m) p) \<and>
     wm_total_active m = wm_counter m"

definition grows :: "env \<Rightarrow> env \<Rightarrow> bool" where
  "grows e e' \<longleftrightarrow> (\<forall>f. length (file_bytes e f) \<le> length (file_bytes e' f))"

lemma grows_refl [simp]: "grows e e" by (simp add: grows_def)

lemma grows_trans: "grows e e1 \<Longrightarrow> grows e1 e2 \<Longrightarrow> grows e e2"
  unfolding grows_def using order_trans by blast

lemma part_sizes_grows: "part_sizes e dir p \<Longrightarrow> grows e e' \<Longrightarrow> part_sizes e' dir p"
  unfolding part_sizes_def grows_def using order_trans by blast

lemma EnsureOpenForWrite_sizes:
  assumes "EnsureOpenForWrite e dir p = (r, e', p')" "part_sizes e dir p"
  shows "part_sizes e' dir p'" "grows e e'" "pt_part_id p' = pt_part_id p" "pt_active_bytes p' = pt_active_bytes p"
    "is_ok r \<Longrightarrow> pt_wfile p' = Some (FileName dir p')"
  using assms
  by (auto simp: EnsureOpenForWrite_def ReopenWritableFile_def Let_def part_sizes_def FileName_def grows_def file_bytes_def
      is_ok_def split: if_splits sum.splits option.splits)

lemma file_Append_grows:
  assumes "file_Append e f data = (r, e')"
  shows "grows e e'" "is_ok r \<Longrightarrow> file_bytes e' f = file_bytes e f @ data"
  using assms by (auto simp: file_Append_def Let_def grows_def file_bytes_def is_ok_def split: if_splits option.splits)

lemma FlushBuf_sizes:
  assumes "FlushBuf e p = (r, e', p')" "part_sizes e dir p"
  shows "part_sizes e' dir p'" "grows e e'" "pt_part_id p' = pt_part_id p" "pt_active_bytes p' = pt_active_bytes p" "pt_wfile p' = pt_wfile p"
proof -
  have "part_sizes e' dir p' \<and> grows e e' \<and> pt_part_id p' = pt_part_id p \<and> pt_active_bytes p' = pt_active_bytes p \<and> pt_wfile p' = pt_wfile p"
  proof (cases "pt_buf p = [] \<or> pt_wfile p = None")
    case True
    then show ?thesis using assms by (auto simp: FlushBuf_def split: if_splits)
  next
    case False
    then have f: "pt_wfile p = Some (FileName dir p)" "pt_buf p \<noteq> []" using assms(2) by (auto simp: part_sizes_def)
    obtain ra ea where a: "file_Append e (FileName dir p) (pt_buf p) = (ra, ea)" by fastforce
    note g = file_Append_grows [OF a]
    show ?thesis
    proof (cases ra)
      case (Inl er)
      then show ?thesis using assms f a g(1) part_sizes_grows [OF assms(2) g(1)] by (auto simp: FlushBuf_def)
    next
      case (Inr u)
      have p': "e' = ea" "p' = p\<lparr>pt_flushed_size := pt_total_size p, pt_buf := []\<rparr>" using assms(1) f a Inr by (auto simp: FlushBuf_def)
      have "length (file_bytes e' (FileName dir p)) = length (file_bytes e (FileName dir p)) + length (pt_buf p)" using g(2) Inr p'(1) by (simp add: is_ok_def)
      then show ?thesis using assms(2) g(1) p' f by (simp add: part_sizes_def FileName_def)
    qed
  qed
  then show "part_sizes e' dir p'" "grows e e'" "pt_part_id p' = pt_part_id p" "pt_active_bytes p' = pt_active_bytes p" "pt_wfile p' = pt_wfile p" by simp_all
qed

lemma mgr_sizes_set_part:
  assumes inv: "mgr_sizes e m" and p: "find_part m part = Some p \<or> find_part m part = None \<and> pt_active_bytes p = 0"
    and p': "pt_part_id p' = part" "part_sizes e' (wm_dir m) p'" and g: "grows e e'"
    and m': "m' = (set_part m part p')\<lparr>wm_total_active := wm_total_active m - pt_active_bytes p + pt_active_bytes p', wm_any_over := b\<rparr>"
  shows "mgr_sizes e' m'"
proof -
  have "wm_total_active m' = wm_counter m'" using inv p wm_counter_set_part [of m part p'] by (auto simp: mgr_sizes_def m')
  then show ?thesis using inv p' part_sizes_grows [OF _ g] distinct_set_part [of m part p'] by (auto simp: mgr_sizes_def m')
qed

lemma append_to_sizes:
  assumes res: "append_to e m part p rec = (r, e', m')" and inv: "mgr_sizes e m" and p: "find_part m part = Some p"
  shows "mgr_sizes e' m'"
proof -
  have sz: "part_sizes e (wm_dir m) p" "pt_part_id p = part" using inv p by (auto simp: mgr_sizes_def)
  obtain r1 e1 p1 where o: "EnsureOpenForWrite e (wm_dir m) p = (r1, e1, p1)" by (metis prod_cases3)
  note k1 = EnsureOpenForWrite_sizes [OF o sz(1)]
  show ?thesis
  proof (cases r1)
    case (Inl er)
    then have "e' = e1" "m' = set_part m part p1" using res o by (auto simp: append_to_def)
    then show ?thesis
      by (intro mgr_sizes_set_part [OF inv disjI1 [OF p], where p' = p1 and b = "wm_any_over m"]) (use k1 sz(2) in \<open>simp_all add: set_part_def\<close>)
  next
    case (Inr u)
    obtain m2 p2 where ab: "append_buffer m p1 rec = (m2, p2)" by fastforce
    note a = append_buffer_simps [OF ab]
    obtain b where m2: "m2 = m\<lparr>wm_total_active := wm_total_active m + of_nat (length rec), wm_any_over := b\<rparr>" using a(9) by blast
    have sz2: "part_sizes e1 (wm_dir m) p2" using k1(1) a by (simp add: part_sizes_def FileName_def)
    obtain r3 e3 p3 where fl: "FlushBuf e1 p2 = (r3, e3, p3)" by (metis prod_cases3)
    note k3 = FlushBuf_sizes [OF fl sz2]
    have "(e' = e3 \<and> m' = set_part m2 part p3) \<or> (e' = e1 \<and> m' = set_part m2 part p2)"
      using res o ab fl Inr by (auto simp: append_to_def Let_def split: sum.splits if_splits)
    then obtain q where q: "m' = set_part m2 part q" "part_sizes e' (wm_dir m) q" "pt_part_id q = part" "grows e e'"
      "pt_active_bytes q = pt_active_bytes p + of_nat (length rec)"
      using k1 k3 sz2 sz(2) a grows_trans [OF k1(2) k3(2)] by auto
    show ?thesis
      by (rule mgr_sizes_set_part [OF inv disjI1 [OF p] q(3,2,4), where b = b]) (simp add: q(1,5) m2 set_part_def)
  qed
qed

lemma Sync_sizes:
  assumes res: "Sync e m part = (r, e', m')" and inv: "mgr_sizes e m"
  shows "mgr_sizes e' m'"
proof (cases "find_part m part")
  case None
  then show ?thesis using res inv by (auto simp: Sync_def)
next
  case (Some p)
  have sz: "part_sizes e (wm_dir m) p" "pt_part_id p = part" using inv Some by (auto simp: mgr_sizes_def)
  obtain r1 e1 p1 where o1: "EnsureOpenForWrite e (wm_dir m) p = (r1, e1, p1)" by (metis prod_cases3)
  note k1 = EnsureOpenForWrite_sizes [OF o1 sz(1)]
  obtain r2 e2 p2 where o2: "FlushBuf e1 p1 = (r2, e2, p2)" by (metis prod_cases3)
  note k2 = FlushBuf_sizes [OF o2 k1(1)]
  obtain r3 e3 where o3: "file_Sync e2 (the (pt_wfile p2)) = (r3, e3)" by fastforce
  have g3: "grows e2 e3" using file_Sync_content(1) [OF o3] by (simp add: grows_def file_bytes_def)
  have "(e' = e1 \<and> m' = set_part m part p1) \<or> ((e' = e2 \<or> e' = e3) \<and> m' = set_part m part p2)"
    using res Some o1 o2 o3 by (auto simp: Sync_def split: sum.splits)
  then obtain q where q: "m' = set_part m part q" "part_sizes e' (wm_dir m) q" "pt_part_id q = part" "grows e e'" "pt_active_bytes q = pt_active_bytes p"
    using k1 k2 sz(2) grows_trans [OF k1(2) k2(2)] grows_trans [OF grows_trans [OF k1(2) k2(2)] g3] part_sizes_grows [OF k2(1) g3] by auto
  show ?thesis
    by (rule mgr_sizes_set_part [OF inv disjI1 [OF Some] q(3,2,4), where b = "wm_any_over m"]) (simp add: q(1,5) set_part_def)
qed

lemma EnsurePartition_sizes: "mgr_sizes e m \<Longrightarrow> mgr_sizes e (EnsurePartition m part)"
proof (cases "find_part m part")
  case None
  assume "mgr_sizes e m"
  then have "mgr_sizes e (set_part m part (new_Partition part))"
    by (rule mgr_sizes_set_part [where p = "new_Partition part" and p' = "new_Partition part" and b = "wm_any_over m"])
      (simp_all add: None new_Partition_def part_sizes_def set_part_def)
  then show ?thesis using None by (simp add: EnsurePartition_def)
qed (simp add: EnsurePartition_def)

lemma faulty_sizes:
  assumes "(faulty_step whole)\<^sup>*\<^sup>* s s'" "mgr_sizes (fst s) (snd s)"
  shows "mgr_sizes (fst s') (snd s')"
  using assms
proof (induction rule: rtranclp_induct)
  case (step s s')
  have inv: "mgr_sizes (fst s) (snd s)" using step by simp
  from step.hyps(2) show ?case
  proof (cases rule: faulty_step.cases)
    case oper
    from this inv show ?thesis
    proof (induction rule: wal_step.induct)
      case (step_append e m part key v t seq res e' m')
      show ?case
      proof (cases "find_part m part \<noteq> None \<or> part = kRangeDelPartId")
        case True
        obtain p where "find_part (EnsurePartition m part) part = Some p"
          "append_to e (EnsurePartition m part) part p (rec_bytes (append_header key v t seq, key, v)) = (res, e', m')"
          using Append_managed [OF True, of e key v t seq] step_append.hyps by metis
        then show ?thesis using append_to_sizes EnsurePartition_sizes step_append.prems by fastforce
      next
        case False
        then show ?thesis using Append_unknown [of m part e key v t seq] step_append by auto
      qed
    qed (auto intro: Sync_sizes EnsurePartition_sizes)
  next
    case (fault f e m)
    have "part_sizes (e\<lparr>e_fail := f\<rparr>) dir p = part_sizes e dir p" for dir p by (simp add: part_sizes_def file_bytes_def e_content_def)
    then show ?thesis using fault inv by (simp add: mgr_sizes_def)
  qed
qed simp

section \<open>Sizes and counters\<close>

lemma new_manager_sizes: "mgr_sizes e (new_WalManager dir n target)"
proof -
  let ?m = "new_WalManager dir n target" and ?e0 = "\<lparr>e_files = [], e_synced = [], e_fail = \<lambda>_. False\<rparr>"
  have "wal_inv (?e0, ?m)" by (rule new_WalManager_inv) (simp_all add: e_content_def)
  then have "distinct (map fst (wm_parts ?m))" "wm_total_active ?m = wm_counter ?m" by (simp_all add: wal_inv_def mgr_wf_def)
  then show ?thesis by (auto simp: mgr_sizes_def part_sizes_def find_new_manager new_Partition_def split: if_splits)
qed

text \<open>C32: sizes and counters under failures that come and go. From a new manager over an empty directory,
  after any sequence of appends, syncs and partition creations, between which the set of failing
  operations may change in any way, the total byte counter that decides sealing is the sum of the
  partitions' sizes, and no partition reports more than its file and its buffer hold. If no append
  is cut short (a failing one writes nothing), a partition's reported size is exactly the size of its
  file plus its buffer.\<close>

theorem wal_sizes_exact:
  assumes "\<And>part gen. e_content e (MakeFileName dir part gen) = None"
    "(faulty_step whole)\<^sup>*\<^sup>* (e, new_WalManager dir n target) (e', m')" "whole \<longrightarrow> whole_appends e"
  shows "wm_total_active m' = sum_list (map (\<lambda>(_, p). of_nat (pt_total_size p)) (wm_parts m')) \<and>
    (\<forall>part p. find_part m' part = Some p \<longrightarrow>
      (let stored = length (file_bytes e' (MakeFileName (wm_dir m') part (pt_gen p))) + length (pt_buf p)
       in ActiveSize m' part \<le> stored \<and> (whole \<longrightarrow> ActiveSize m' part = stored)))"
proof -
  have sz: "mgr_sizes e' m'" using faulty_sizes [OF assms(2)] new_manager_sizes by simp
  have "pt_active_bytes p = of_nat (pt_total_size p)" if "(part, p) \<in> set (wm_parts m')" for part p
  proof -
    have "find_part m' part = Some p" using sz that by (simp add: find_part_def mgr_sizes_def)
    then show ?thesis using sz by (simp add: mgr_sizes_def part_sizes_def)
  qed
  then have "map (\<lambda>(_, p). pt_active_bytes p) (wm_parts m') = map (\<lambda>(_, p). of_nat (pt_total_size p)) (wm_parts m')" by auto
  then have total: "wm_total_active m' = sum_list (map (\<lambda>(_, p). of_nat (pt_total_size p)) (wm_parts m'))"
    using sz unfolding mgr_sizes_def wm_counter_def by metis
  have exact: "ActiveSize m' part = length (file_bytes e' (MakeFileName (wm_dir m') part (pt_gen p))) + length (pt_buf p)"
    if "whole" "find_part m' part = Some p" for part p
  proof -
    let ?e0 = "e\<lparr>e_fail := \<lambda>_. False\<rparr>"
    have "wal_inv (?e0, new_WalManager dir n target)"
      by (rule new_WalManager_inv) (use assms(1) in \<open>simp_all add: e_content_def\<close>)
    then have "mgr_wf e (new_WalManager dir n target)"
      by (simp add: wal_inv_def mgr_wf_def wm_paths_free_def part_wf_def file_bytes_def e_content_def)
    then have "mgr_wf e' m'" using faulty_wf [of "(e, new_WalManager dir n target)" "(e', m')"] assms(2,3) that(1) by simp
    then show ?thesis using that(2) by (auto simp: mgr_wf_def ActiveSize_def part_wf_def FileName_def)
  qed
  have "ActiveSize m' part \<le> length (file_bytes e' (MakeFileName (wm_dir m') part (pt_gen p))) + length (pt_buf p)"
    if "find_part m' part = Some p" for part p
  proof -
    have "part_sizes e' (wm_dir m') p" "pt_part_id p = part" using sz that by (auto simp: mgr_sizes_def)
    then show ?thesis using that by (simp add: part_sizes_def ActiveSize_def FileName_def)
  qed
  then show ?thesis using total exact by (simp add: Let_def)
qed

text \<open>An append, a sync that fails because the device is full, and a sync after the failure has gone.\<close>

definition disk_full :: "env_op \<Rightarrow> bool" where
  "disk_full op = (case op of EnvAppend _ \<Rightarrow> True | _ \<Rightarrow> False)"

theorem wal_sizes_exact_witness:
  "\<exists>ref e1 m1 er e2 m2 e3 m3.
     Append \<lparr>e_files = [], e_synced = [], e_fail = \<lambda>_. False\<rparr> (new_WalManager ''d'' 1 100) 0 [97] [98] 1 7 = (Inr ref, e1, m1) \<and>
     Sync (e1\<lparr>e_fail := disk_full\<rparr>) m1 0 = (Inl er, e2, m2) \<and> ActiveSize m2 0 = 30 \<and>
     Sync (e2\<lparr>e_fail := \<lambda>_. False\<rparr>) m2 0 = (Inr (), e3, m3) \<and>
     ActiveSize m3 0 = length (file_bytes e3 (MakeFileName ''d'' 0 0)) + length (pt_buf (the (find_part m3 0))) \<and>
     wm_total_active m3 = 30"
proof -
  let ?e = "\<lparr>e_files = [], e_synced = [], e_fail = \<lambda>_. False\<rparr>" and ?m = "new_WalManager ''d'' 1 100" and ?f = "MakeFileName ''d'' 0 0"
  define rec where "rec = EncodeZfRecord (append_header [97] [98] 1 7) [97] [98]"
  let ?p = "\<lparr>pt_part_id = 0, pt_wfile = Some ?f, pt_rfile = Some ?f, pt_buf = rec, pt_flushed_size = 0,
     pt_total_size = 30, pt_active_bytes = 30, pt_gen = 0\<rparr>"
  have rec: "length rec = 30" "rec \<noteq> []" unfolding rec_def using length_EncodeZfRecord [of "append_header [97] [98] 1 7" "[97]" "[98]"] by (simp, force)
  let ?m1 = "?m\<lparr>wm_parts := [(0, ?p)], wm_total_active := 30, wm_any_over := False\<rparr>" and ?e1 = "\<lparr>e_files = [(?f, [])], e_synced = [], e_fail = \<lambda>_. False\<rparr>"
  let ?m3 = "?m\<lparr>wm_parts := [(0, ?p\<lparr>pt_flushed_size := 30, pt_buf := []\<rparr>)], wm_total_active := 30, wm_any_over := False\<rparr>"
  let ?e3 = "\<lparr>e_files = [(?f, rec)], e_synced = [(?f, 30)], e_fail = \<lambda>_. False\<rparr>"
  have m: "wm_parts ?m = [(0, new_Partition 0)]" "wm_dir ?m = ''d''" "wm_total_active ?m = 0" "wm_any_over ?m = False" "wm_target ?m = 100"
    by (simp_all add: new_WalManager_def)
  have a: "Append ?e ?m 0 [97] [98] 1 7 = (Inr \<lparr>r_part_id = 0, r_gen = 0, r_offset = 0\<rparr>, ?e1, ?m1)"
    using rec by (simp add: Append_def Let_def find_part_def m append_to_def EnsureOpenForWrite_def ReopenWritableFile_def NewRandomAccessFile_def
        e_content_def e_put_def new_Partition_def FileName_def append_buffer_def set_part_def word_le_nat_alt flip: rec_def)
  have b: "Sync (?e1\<lparr>e_fail := disk_full\<rparr>) ?m1 0 = (Inl io_error, ?e1\<lparr>e_fail := disk_full\<rparr>, ?m1)"
    using rec by (simp add: Sync_def find_part_def EnsureOpenForWrite_def FlushBuf_def file_Append_def disk_full_def set_part_def)
  have c: "Sync ?e1 ?m1 0 = (Inr (), ?e3, ?m3)"
    using rec by (simp add: Sync_def find_part_def EnsureOpenForWrite_def FlushBuf_def file_Append_whole file_Sync_def set_part_def e_content_def e_put_def)
  have e1: "(?e1\<lparr>e_fail := disk_full\<rparr>)\<lparr>e_fail := \<lambda>_. False\<rparr> = ?e1" by simp
  have w': "whole_appends (x\<lparr>e_fail := \<lambda>_. False\<rparr>)" for x :: env by (simp add: whole_appends_def)
  have s1: "(faulty_step True)\<^sup>*\<^sup>* (?e, ?m) (?e1, ?m1)" by (rule r_into_rtranclp, rule oper, rule step_append, rule a)
  have s2: "faulty_step True (?e1, ?m1) (?e1\<lparr>e_fail := disk_full\<rparr>, ?m1)" by (rule fault) (simp add: whole_appends_def disk_full_def)
  have s3: "faulty_step True (?e1\<lparr>e_fail := disk_full\<rparr>, ?m1) (?e1\<lparr>e_fail := disk_full\<rparr>, ?m1)" by (rule oper, rule step_sync, rule b)
  have s4: "faulty_step True (?e1\<lparr>e_fail := disk_full\<rparr>, ?m1) (?e1, ?m1)"
    using fault [of True "\<lambda>_. False" "?e1\<lparr>e_fail := disk_full\<rparr>" ?m1] w' unfolding e1 by simp
  have s5: "faulty_step True (?e1, ?m1) (?e3, ?m3)" by (rule oper, rule step_sync, rule c)
  have run: "(faulty_step True)\<^sup>*\<^sup>* (?e, ?m) (?e3, ?m3)"
    using s1 s2 s3 s4 s5 by (meson rtranclp.rtrancl_into_rtrancl)
  have "find_part ?m3 0 = Some (?p\<lparr>pt_flushed_size := 30, pt_buf := []\<rparr>)" by (simp add: find_part_def)
  with wal_sizes_exact [OF _ run] have "ActiveSize ?m3 0 = length (file_bytes ?e3 (MakeFileName ''d'' 0 0)) + length (pt_buf (the (find_part ?m3 0)))"
    by (simp add: e_content_def m whole_appends_def Let_def)
  moreover have "ActiveSize ?m1 0 = 30" by (simp add: ActiveSize_def find_part_def)
  ultimately show ?thesis using a b c e1 by fastforce
qed

section \<open>A retry after a partial write\<close>

text \<open>A flush that fails after a partial write corrupts the log when it is retried. The first sync of a
  partition writes \<open>n\<close> bytes of the buffer and fails; the buffer is kept. The next sync, with nothing
  failing, reports success, but it has written the whole buffer behind the fragment: the file holds
  the \<open>n\<close> bytes twice, every buffered record lies \<open>n\<close> bytes behind the offset its reference names, and
  the manager's flushed size is \<open>n\<close> less than the file.\<close>

theorem partial_write_then_retry:
  assumes "find_part m part = Some p" "pt_wfile p = Some f" "e_content e f = Some old" "pt_flushed_size p = length old"
    "pt_total_size p = length old + length (pt_buf p)" "\<not> e_fail e (EnvAppend f)" "short_write e f (pt_buf p) = Some n"
    "Sync e m part = (r, e1, m1)" "Sync (e1\<lparr>e_fail := \<lambda>_. False\<rparr>) m1 part = (r2, e2, m2)"
  shows "0 < n \<and> r = Inl io_error \<and> r2 = Inr () \<and> e_content e2 f = Some (old @ take n (pt_buf p) @ pt_buf p) \<and>
    (\<exists>p2. find_part m2 part = Some p2 \<and> pt_buf p2 = [] \<and> pt_flushed_size p2 = length old + length (pt_buf p) \<and>
      length (file_bytes e2 f) = pt_flushed_size p2 + n)"
proof -
  have "find P xs = Some x \<Longrightarrow> x \<in> set xs" for P and xs :: "nat list" and x by (induction xs) (auto split: if_splits)
  then have n: "0 < n" "n < length (pt_buf p)" using assms(7) by (force simp: short_write_def)+
  then have ne: "pt_buf p \<noteq> []" by auto
  let ?e1 = "e_put e f (old @ take n (pt_buf p))"
  have 1: "r = Inl io_error" "e1 = ?e1" "m1 = set_part m part p"
    using assms(1,2,3,6,7,8) ne by (simp_all add: Sync_def EnsureOpenForWrite_def FlushBuf_def file_Append_def Let_def)
  have 2: "r2 = Inr ()" "e_content e2 f = Some (old @ take n (pt_buf p) @ pt_buf p)"
    "m2 = set_part m part (p\<lparr>pt_flushed_size := pt_total_size p, pt_buf := []\<rparr>)"
    using assms(2,9) ne unfolding 1(2,3)
    by (auto simp: Sync_def EnsureOpenForWrite_def FlushBuf_def file_Append_whole whole_appends_def file_Sync_def e_put_def e_content_def update_conv')
  show ?thesis using n 1(1) 2 assms(5) by (simp add: file_bytes_def)
qed

theorem partial_write_then_retry_witness:
  "\<exists>r e1 m1 r2 e2 m2 e m. pt_buf (the (find_part m 0)) = [1, 2, 3] \<and> Sync e m 0 = (r, e1, m1) \<and>
     Sync (e1\<lparr>e_fail := \<lambda>_. False\<rparr>) m1 0 = (r2, e2, m2) \<and> r2 = Inr () \<and> e_content e2 ''d/f'' = Some [1, 2, 1, 2, 3]"
proof -
  let ?e = "\<lparr>e_files = [(''d/f'', [])], e_synced = [], e_fail = \<lambda>op. op = EnvShort ''d/f'' 2\<rparr>"
  let ?p = "\<lparr>pt_part_id = 0, pt_wfile = Some ''d/f'', pt_rfile = None, pt_buf = [1, 2, 3], pt_flushed_size = 0, pt_total_size = 3, pt_active_bytes = 3, pt_gen = 0\<rparr>"
  let ?m = "\<lparr>wm_dir = ''d'', wm_partitions = 1, wm_target = 100, wm_parts = [(0, ?p)], wm_total_active = 3, wm_any_over = False\<rparr>"
  obtain r e1 m1 where a: "Sync ?e ?m 0 = (r, e1, m1)" by (metis prod_cases3)
  obtain r2 e2 m2 where b: "Sync (e1\<lparr>e_fail := \<lambda>_. False\<rparr>) m1 0 = (r2, e2, m2)" by (metis prod_cases3)
  have p: "find_part ?m 0 = Some ?p" by (simp add: find_part_def)
  have "short_write ?e ''d/f'' (pt_buf ?p) = Some 2" by (simp add: short_write_def upt_rec)
  from partial_write_then_retry [OF p _ _ _ _ _ this a b] have "r2 = Inr ()" "e_content e2 ''d/f'' = Some [1, 2, 1, 2, 3]"
    by (simp_all add: e_content_def)
  then show ?thesis using a b p by (metis option.sel Partition.select_convs(4))
qed

end
