(* ===== verification/ZfAside.thy ===== *)
theory ZfAside
  imports ZfContextInv
begin

text \<open>
  The sorted input of materialisation, its "A side": \<^verbatim>\<open>zeroflush/materialize_aside.h\<close> (whole-file read
  of a sealed generation, draining of a frozen index, the scan-and-sort reference) and the part of
  \<^verbatim>\<open>materialize_job.cc\<close> that builds it (\<^verbatim>\<open>BuildSortKeys\<close>, \<^verbatim>\<open>ReorderBySortKeys\<close>,
  \<^verbatim>\<open>BuildAsideFromFrozenIndex\<close>). Keys and values, two vectors in the source, are a list of pairs.

  The theorems: draining the frozen index returns what the scan of the file followed by a sort
  returns, the merge of several generations is the sort of their union, and the memcmp-able sort
  keys give the internal order for user keys of one length.
\<close>

type_synonym kvs = "(bytes \<times> bytes) list"

section \<open>The whole file in memory\<close>

text \<open>\<^verbatim>\<open>ReadFileToString\<close>: chunks of 8192 bytes until an empty one.\<close>

function read_chunks :: "env \<Rightarrow> string \<Rightarrow> nat \<Rightarrow> bytes zf_result" where
  "read_chunks e f pos =
     (case file_Read e f pos 8192 of
        Inl er \<Rightarrow> Inl er
      | Inr fragment \<Rightarrow>
          if fragment = [] then Inr []
          else res_bind (read_chunks e f (pos + length fragment)) (\<lambda>rest. Inr (fragment @ rest)))"
  by pat_completeness auto
termination
  by (relation "measure (\<lambda>(e, f, pos). length (the (e_content e f)) - pos)")
    (auto simp: file_Read_def slice_def split: if_splits option.splits)

declare read_chunks.simps [simp del]

definition ReadFileToString :: "env \<Rightarrow> string \<Rightarrow> bytes zf_result" where
  "ReadFileToString e f = res_bind (NewSequentialFile e f) (\<lambda>_. read_chunks e f 0)"

text \<open>\<^verbatim>\<open>SealedGenBuffer\<close>: the start offset and the value of every frame, in file order.\<close>

record SealedGenBuffer =
  gb_offsets :: "nat list"
  gb_values :: "bytes list"

lemma DecodeZfRecord_take_pos: "DecodeZfRecord (take n xs) = Inr r \<Longrightarrow> 0 < n \<and> xs \<noteq> []"
  using DecodeZfRecord_len [of "take n xs" r] by auto

function load_frames :: "nat \<Rightarrow> bytes \<Rightarrow> (nat \<times> bytes) list zf_result" where
  "load_frames pos rest =
     (if rest = [] then Inr []
      else if length rest < unat kZfHeaderSize + unat kZfCrcSize
      then Inl (Corruption (''ZF D1 buffer: truncated record header at offset '' @ to_string pos))
      else if DecodeFixed32 rest \<noteq> kZfMagic
      then Inl (Corruption (''ZF D1 buffer: bad magic at offset '' @ to_string pos))
      else
       let total = unat (ZfRecordLength (DecodeFixed32 (drop 8 rest)) (DecodeFixed32 (drop 12 rest)))
       in if length rest < total
          then Inl (Corruption (''ZF D1 buffer: truncated record at offset '' @ to_string pos))
          else case DecodeZfRecord (take total rest) of
                 Inl er \<Rightarrow> Inl er
               | Inr (h, k, v) \<Rightarrow>
                   res_bind (load_frames (pos + total) (drop total rest)) (\<lambda>frames. Inr ((pos, v) # frames)))"
  by pat_completeness auto
termination
  by (relation "measure (\<lambda>(pos, rest). length rest)") (auto dest: DecodeZfRecord_take_pos)

declare load_frames.simps [simp del]

definition gb_Load :: "env \<Rightarrow> string \<Rightarrow> u32 \<Rightarrow> u32 \<Rightarrow> SealedGenBuffer zf_result" where
  "gb_Load e dir part gen =
     res_bind (ReadFileToString e (MakeFileName dir part gen)) (\<lambda>buf.
     res_bind (load_frames 0 buf) (\<lambda>frames.
       Inr \<lparr> gb_offsets = map fst frames, gb_values = map snd frames \<rparr>))"

text \<open>The lookup by \<^verbatim>\<open>std::lower_bound\<close> in the ascending offsets.\<close>

definition gb_GetValue :: "SealedGenBuffer \<Rightarrow> nat \<Rightarrow> bytes option" where
  "gb_GetValue buf off =
     (let i = length (takeWhile (\<lambda>x. x < off) (gb_offsets buf))
      in if i = length (gb_offsets buf) \<or> gb_offsets buf ! i \<noteq> off then None else Some (gb_values buf ! i))"

section \<open>Draining a frozen index\<close>

text \<open>One entry of the enumeration: its key, its value behind the locator, or the integrity flag
  goes down. \<open>min\<close> starts at the maximum of 64 bits.\<close>

definition drain_entry :: "SealedGenBuffer \<Rightarrow> u32 \<Rightarrow> u32 \<Rightarrow> bytes \<times> bytes \<Rightarrow> (bytes \<times> bytes) option" where
  "drain_entry buf expect_part expect_gen entry =
     (case entry of (ik, locator) \<Rightarrow>
        if length locator \<noteq> 16 then None
        else
         let loc = locator_ref locator
         in if r_part_id loc \<noteq> expect_part \<or> r_gen loc \<noteq> expect_gen then None
            else map_option (\<lambda>v. (ik, v)) (gb_GetValue buf (r_offset loc)))"

definition min_seq_of :: "u64 list \<Rightarrow> u64" where
  "min_seq_of seqs = foldl (\<lambda>mn seq. if seq < mn then seq else mn) 0xFFFFFFFFFFFFFFFF seqs"

definition expect_msg :: "u32 \<Rightarrow> u32 \<Rightarrow> string" where
  "expect_msg part gen = ''part='' @ to_string (unat part) @ '' gen='' @ to_string (unat gen)"

definition DrainPartitionAside ::
    "PartitionIndex \<Rightarrow> SealedGenBuffer \<Rightarrow> u32 \<Rightarrow> u32 \<Rightarrow> (kvs \<times> u64) zf_result option" where
  "DrainPartitionAside idx buf expect_part expect_gen =
     map_option (\<lambda>entries.
       case those (map (drain_entry buf expect_part expect_gen) entries) of
         None \<Rightarrow> Inl (Corruption (''ZF aside drain integrity mismatch: '' @ expect_msg expect_part expect_gen))
       | Some kvs \<Rightarrow>
           if length kvs \<noteq> length (gb_offsets buf) 
           then Inl (Corruption (''ZF aside drain count mismatch: idx='' @ to_string (length kvs) @ '' wal='' @
                  to_string (length (gb_offsets buf)) @ '' '' @ expect_msg expect_part expect_gen))
           else Inr (kvs, min_seq_of (map (\<lambda>kv. GetInternalKeySeqno (fst kv)) kvs)))
     (ForEachEntry idx)"

section \<open>The reference: scan and sort\<close>

definition scanned_kv :: "zf_rec \<Rightarrow> bytes \<times> bytes" where
  "scanned_kv r = (case r of (h, key, v) \<Rightarrow> (MakeInternalKey key (h_seq h) (h_type h), v))"

text \<open>\<^verbatim>\<open>Status::ToString\<close> for the statuses of the model; the last two are none of the engine's.\<close>

fun Status_ToString :: "zf_error \<Rightarrow> string" where
  "Status_ToString (NotFound msg) = ''NotFound: '' @ msg"
| "Status_ToString (Corruption msg) = ''Corruption: '' @ msg"
| "Status_ToString (NotSupported msg) = ''Not implemented: '' @ msg"
| "Status_ToString (InvalidArgument msg) = ''Invalid argument: '' @ msg"
| "Status_ToString (IOError msg) = ''IO error: '' @ msg"
| "Status_ToString MergeInProgress = ''Merge in progress: ''"
| "Status_ToString OutOfBounds = []"
| "Status_ToString (CppException msg) = msg"

definition BuildWalSortedAside :: "env \<Rightarrow> string \<Rightarrow> u32 \<Rightarrow> u32 \<Rightarrow> comparator \<Rightarrow> (kvs \<times> u64) zf_result option" where
  "BuildWalSortedAside e dir part gen ucmp =
     map_option (\<lambda>(recs, s).
       case sc_status s of
         Inl er \<Rightarrow> Inl (Corruption (''ZF WAL scan failed: '' @ Status_ToString er))
       | Inr _ \<Rightarrow> Inr (sort_cmp (\<lambda>a b. CompareKeySeq ucmp (fst a) (fst b)) (map scanned_kv recs), min_seq_of (map (\<lambda>r. h_seq (fst r)) recs)))
     (scan_file e dir part gen)"

section \<open>Merging generations\<close>

text \<open>The run whose head is smallest, the first of them on a tie.\<close>

definition best_run :: "(bytes \<Rightarrow> bytes \<Rightarrow> int) \<Rightarrow> kvs list \<Rightarrow> nat option" where
  "best_run cmp runs =
     foldl (\<lambda>best i.
         if runs ! i = [] then best
         else case best of
                None \<Rightarrow> Some i
              | Some j \<Rightarrow> if cmp (fst (hd (runs ! i))) (fst (hd (runs ! j))) < 0 then Some i else best)
       None [0..<length runs]"

lemma best_run_bound: "best_run cmp runs = Some i \<Longrightarrow> i < length runs \<and> runs ! i \<noteq> []"
proof -
  have "foldl (\<lambda>best i. if runs ! i = [] then best
         else case best of None \<Rightarrow> Some i | Some j \<Rightarrow> if cmp (fst (hd (runs ! i))) (fst (hd (runs ! j))) < 0 then Some i else best)
       None [0..<n] = Some i \<Longrightarrow> i < n \<and> runs ! i \<noteq> []" for n
    by (induction n) (auto split: if_splits option.splits)
  then show "best_run cmp runs = Some i \<Longrightarrow> i < length runs \<and> runs ! i \<noteq> []" by (simp add: best_run_def)
qed

lemma sum_length_update:
  "i < length runs \<Longrightarrow> runs ! i \<noteq> [] \<Longrightarrow> sum_list (map length (runs[i := tl (runs ! i)])) < sum_list (map length runs)"
  by (induction runs arbitrary: i) (auto simp: nth_Cons split: nat.splits)

function merge_runs :: "(bytes \<Rightarrow> bytes \<Rightarrow> int) \<Rightarrow> kvs list \<Rightarrow> kvs" where
  "merge_runs cmp runs =
     (case best_run cmp runs of
        None \<Rightarrow> []
      | Some i \<Rightarrow> hd (runs ! i) # merge_runs cmp (runs[i := tl (runs ! i)]))"
  by pat_completeness auto
termination
  by (relation "measure (\<lambda>(cmp, runs). sum_list (map length runs))")
    (auto dest: best_run_bound intro: sum_length_update)

declare merge_runs.simps [simp del]

text \<open>One generation: its frozen index drained against its file; a missing index, an unreadable
  file or a failed integrity check ends the attempt.\<close>

definition drain_gen :: "ZeroFlushContext \<Rightarrow> u32 \<times> u32 \<Rightarrow> kvs option option" where
  "drain_gen c pg =
     (case GetFrozen (zc_index c) (fst pg) (snd pg) of
        None \<Rightarrow> Some None
      | Some idx \<Rightarrow>
          (case gb_Load (zc_env c) (zc_wal_dir c) (fst pg) (snd pg) of
             Inl _ \<Rightarrow> Some None
           | Inr buf \<Rightarrow>
               map_option (\<lambda>r. case r of Inl _ \<Rightarrow> None | Inr (kvs, _) \<Rightarrow> Some kvs)
                 (DrainPartitionAside idx buf (fst pg) (snd pg))))"

fun drain_gens :: "ZeroFlushContext \<Rightarrow> (u32 \<times> u32) list \<Rightarrow> kvs list option option" where
  "drain_gens c [] = Some (Some [])"
| "drain_gens c (pg # pgs) =
     (case drain_gen c pg of
        None \<Rightarrow> None
      | Some None \<Rightarrow> Some None
      | Some (Some run) \<Rightarrow> map_option (map_option (\<lambda>runs. if run = [] then runs else run # runs)) (drain_gens c pgs))"

definition BuildAsideFromFrozenIndex :: "ZeroFlushContext \<Rightarrow> (u32 \<times> u32) list \<Rightarrow> kvs option option" where
  "BuildAsideFromFrozenIndex c gens =
     (if \<not> zo_materialize_sort_assist (zc_zfo c) then Some None
      else map_option (map_option (\<lambda>runs.
             case runs of [] \<Rightarrow> [] | [run] \<Rightarrow> run | _ \<Rightarrow> merge_runs (InternalKeyCompare (zc_ucmp c)) runs))
           (drain_gens c gens))"

section \<open>Sort keys\<close>

text \<open>Length of the user key in four bytes, high byte first, the user key, and the inverted footer,
  high byte first. The buffer and the offsets of the source, and the segment two offsets
  delimit.\<close>

definition sort_key :: "bytes \<Rightarrow> bytes" where
  "sort_key ik =
     (let n = length ik - 8
      in [of_nat (n div 2 ^ 24), of_nat (n div 2 ^ 16), of_nat (n div 2 ^ 8), of_nat n] @ take n ik @ map NOT (rev (drop n ik)))"

definition BuildSortKeys :: "bytes list \<Rightarrow> bool \<Rightarrow> (bytes \<times> nat list) option" where
  "BuildSortKeys keys bytewise =
     (if \<not> bytewise then None
      else Some (foldl (\<lambda>(buf, off) ik. (buf @ sort_key ik, off @ [length buf])) ([], []) keys))"

definition sort_seg :: "bytes \<Rightarrow> nat list \<Rightarrow> nat \<Rightarrow> bytes" where
  "sort_seg buf off a = take ((if a + 1 < length off then off ! (a + 1) else length buf) - off ! a) (drop (off ! a) buf)"

definition seg_less :: "bytes \<Rightarrow> nat list \<Rightarrow> nat \<Rightarrow> nat \<Rightarrow> bool" where
  "seg_less buf off a b =
     (let pa = sort_seg buf off a; pb = sort_seg buf off b; m = min (length pa) (length pb); r = memcmp (take m pa) (take m pb)
      in r < 0 \<or> r = 0 \<and> length pa < length pb)"

text \<open>\<^verbatim>\<open>std::sort\<close> leaves the order of equal sort keys open; here they keep theirs. Two records have equal sort keys
  only if their internal keys, sequence number included, are equal.\<close>

definition ReorderBySortKeys :: "kvs \<Rightarrow> bytes \<Rightarrow> nat list \<Rightarrow> kvs" where
  "ReorderBySortKeys kvs buf off =
     map (\<lambda>i. kvs ! i)
       (sort_cmp (\<lambda>a b. if seg_less buf off a b then -1 else if seg_less buf off b a then 1 else 0) [0..<length kvs])"

section \<open>Reading a file of records\<close>

lemma read_chunks_content:
  assumes "e_content e f = Some c" "\<not> e_fail e (EnvRead f)" "pos \<le> length c"
  shows "read_chunks e f pos = Inr (drop pos c)"
  using assms
proof (induction e f pos rule: read_chunks.induct)
  case (1 e f pos)
  have read: "file_Read e f pos 8192 = Inr (take 8192 (drop pos c))" using 1 by (simp add: file_Read_def slice_def)
  show ?case
  proof (cases "drop pos c = []")
    case True
    then show ?thesis using read by (simp add: read_chunks.simps [of e f pos])
  next
    case False
    let ?fr = "take 8192 (drop pos c)"
    have "?fr \<noteq> []" using False by simp
    moreover have "read_chunks e f (pos + length ?fr) = Inr (drop (pos + length ?fr) c)"
      by (rule 1(1) [OF read calculation]) (use 1 in auto)
    moreover have "?fr @ drop (pos + length ?fr) c = drop pos c"
    proof -
      have "drop (pos + length ?fr) c = drop (length ?fr) (drop pos c)" by (simp only: drop_drop add.commute)
      also have "\<dots> = drop 8192 (drop pos c)" by (cases "length (drop pos c) \<le> 8192") auto
      finally show ?thesis by (simp only: append_take_drop_id)
    qed
    ultimately show ?thesis using read by (simp add: read_chunks.simps [of e f pos])
  qed
qed

lemma ReadFileToString_content:
  assumes "e_content e f = Some c" "\<forall>op. \<not> e_fail e op"
  shows "ReadFileToString e f = Inr c"
  using assms read_chunks_content [of e f c 0] by (simp add: ReadFileToString_def NewSequentialFile_def)

primrec rec_offsets :: "nat \<Rightarrow> zf_rec list \<Rightarrow> nat list" where
  "rec_offsets pos [] = []"
| "rec_offsets pos (r # rs) = pos # rec_offsets (pos + length (rec_bytes r)) rs"

lemma length_rec_offsets [simp]: "length (rec_offsets pos rs) = length rs"
  by (induction rs arbitrary: pos) auto

definition rec_value :: "zf_rec \<Rightarrow> bytes" where
  "rec_value r = snd (snd r)"

lemma DecodeZfRecord_magic: "DecodeZfRecord data = Inr r \<Longrightarrow> DecodeFixed32 data = kZfMagic"
  by (auto simp: DecodeZfRecord_def Let_def zf_header_of_def split: if_splits)

lemma load_frames_step:
  assumes "28 \<le> length bs" "DecodeFixed32 (bs @ rest) = kZfMagic" "record_total (bs @ rest) = length bs"
    "DecodeZfRecord bs = Inr (h, k, v)"
  shows "load_frames pos (bs @ rest) = res_bind (load_frames (pos + length bs) rest) (\<lambda>frames. Inr ((pos, v) # frames))"
proof -
  have tot: "unat (ZfRecordLength (DecodeFixed32 (drop 8 (bs @ rest))) (DecodeFixed32 (drop 12 (bs @ rest)))) = length bs"
    using assms(3) by (simp only: record_total_def DecodeKeyValLen_def prod.case split: prod.split)
  have "bs @ rest \<noteq> []" "\<not> length (bs @ rest) < unat kZfHeaderSize + unat kZfCrcSize"
    using assms(1) by (auto simp: kZfHeaderSize_def kZfCrcSize_def)
  then show ?thesis
    using assms(2,4) by (subst load_frames.simps) (auto simp add: Let_def tot simp del: drop_append)
qed

lemma load_frames_valid:
  "\<forall>r \<in> set recs. (case r of (h, k, v) \<Rightarrow> zf_frame_ok h k v) \<Longrightarrow>
    load_frames pos (concat (map rec_bytes recs)) = Inr (zip (rec_offsets pos recs) (map rec_value recs))"
proof (induction recs arbitrary: pos)
  case Nil
  then show ?case by (simp add: load_frames.simps)
next
  case (Cons r recs)
  obtain h k v where r: "r = (h, k, v)" by (cases r)
  let ?rest = "concat (map rec_bytes recs)"
  have ok: "case r of (h, k, v) \<Rightarrow> zf_frame_ok h k v" using Cons.prems by simp
  have len: "28 \<le> length (rec_bytes r)" by (rule length_rec_bytes_ge)
  have tot: "record_total (rec_bytes r @ ?rest) = length (rec_bytes r)"
    by (rule record_total_rec [OF ok, where q = "[]" and rest = ?rest]) (use len in simp_all)
  have dec: "DecodeZfRecord (rec_bytes r) = Inr (h, k, v)" using ok r by (simp add: Decode_EncodeZfRecord)
  have magic: "DecodeFixed32 (rec_bytes r @ ?rest) = kZfMagic"
    using DecodeZfRecord_magic [OF dec] len by (simp add: DecodeFixed_prefix)
  have "load_frames (pos + length (rec_bytes r)) ?rest =
      Inr (zip (rec_offsets (pos + length (rec_bytes r)) recs) (map rec_value recs))"
    by (rule Cons.IH) (use Cons.prems in simp)
  then show ?case
    using load_frames_step [OF len magic tot dec, of pos] by (simp add: r rec_value_def [of "(h, k, v)"] del: rec_bytes_simp)
qed

lemma rec_offsets_bounds: "x \<in> set (rec_offsets pos rs) \<Longrightarrow> pos \<le> x"
proof (induction rs arbitrary: pos)
  case (Cons r rs)
  then show ?case using Cons.IH [of "pos + length (rec_bytes r)"] by (auto simp del: rec_bytes_simp intro: add_leD1)
qed simp

lemma rec_offsets_sorted: "sorted_wrt (<) (rec_offsets pos rs)"
proof (induction rs arbitrary: pos)
  case (Cons r rs)
  then show ?case using rec_offsets_bounds [of _ "pos + length (rec_bytes r)" rs] length_rec_bytes_ge [of r] by fastforce
qed simp

lemma takeWhile_sorted_nth:
  fixes xs :: "nat list"
  shows "sorted_wrt (<) xs \<Longrightarrow> i < length xs \<Longrightarrow> length (takeWhile (\<lambda>x. x < xs ! i) xs) = i"
proof (induction xs arbitrary: i)
  case (Cons x xs)
  then show ?case by (cases i) auto
qed simp

lemma gb_GetValue_nth:
  assumes "sorted_wrt (<) (gb_offsets buf)" "i < length (gb_offsets buf)"
  shows "gb_GetValue buf (gb_offsets buf ! i) = Some (gb_values buf ! i)"
  using assms takeWhile_sorted_nth [OF assms] by (simp add: gb_GetValue_def Let_def)

definition rec_buffer :: "zf_rec list \<Rightarrow> SealedGenBuffer" where
  "rec_buffer recs = \<lparr> gb_offsets = rec_offsets 0 recs, gb_values = map rec_value recs \<rparr>"

lemma gb_Load_valid:
  assumes "e_content e (MakeFileName dir part gen) = Some (concat (map rec_bytes recs))" "\<forall>op. \<not> e_fail e op"
    "\<forall>r \<in> set recs. (case r of (h, k, v) \<Rightarrow> zf_frame_ok h k v)"
  shows "gb_Load e dir part gen = Inr (rec_buffer recs)"
  using ReadFileToString_content [OF assms(1,2)] load_frames_valid [OF assms(3), of 0]
  by (simp add: gb_Load_def rec_buffer_def)

section \<open>An index that has one entry for each record\<close>

definition rec_entry :: "u32 \<Rightarrow> u32 \<Rightarrow> zf_rec \<Rightarrow> nat \<Rightarrow> IndexEntry" where
  "rec_entry part gen r off =
     \<lparr> r_part = part, r_igen = gen, r_key = fst (snd r), r_seq = h_seq (fst r), r_type = h_type (fst r),
       r_loc = locator_bytes \<lparr> r_part_id = part, r_gen = gen, r_offset = off \<rparr> \<rparr>"

definition rec_entries :: "u32 \<Rightarrow> u32 \<Rightarrow> zf_rec list \<Rightarrow> IndexEntry list" where
  "rec_entries part gen recs = map2 (rec_entry part gen) recs (rec_offsets 0 recs)"

lemma length_rec_entries [simp]: "length (rec_entries part gen recs) = length recs"
  by (simp add: rec_entries_def)

lemma rec_entries_nth:
  "i < length recs \<Longrightarrow> rec_entries part gen recs ! i = rec_entry part gen (recs ! i) (rec_offsets 0 recs ! i)"
  by (simp add: rec_entries_def)

lemma those_map_Some: "(\<And>x. x \<in> set xs \<Longrightarrow> f x = Some (g x)) \<Longrightarrow> those (map f xs) = Some (map g xs)"
  by (induction xs) auto

lemma scanned_kv_entry: "fst (scanned_kv r) = MakeInternalKey (fst (snd r)) (h_seq (fst r)) (h_type (fst r))" "snd (scanned_kv r) = rec_value r"
  by (simp_all add: scanned_kv_def rec_value_def split: prod.splits)

lemma CompareKeySeq_Make:
  assumes "s \<le> kMaxSequenceNumber" "s' \<le> kMaxSequenceNumber"
  shows "CompareKeySeq Slice_compare (MakeInternalKey k s t) (MakeInternalKey k' s' t') = key_seq_cmp k s k' s'"
  using MakeInternalKey_seqno(1) [OF assms(1), of k t] MakeInternalKey_seqno(1) [OF assms(2), of k' t']
  by (auto simp: CompareKeySeq_def key_seq_cmp_def Let_def GetInternalKeySeqno_def)

lemma CompareKeySeq_internal:
  assumes "CompareKeySeq ucmp a b < 0"
  shows "InternalKeyCompare ucmp a b < 0"
proof -
  have "ExtractInternalKeyFooter b < ExtractInternalKeyFooter a"
    if "drop_bit 8 (ExtractInternalKeyFooter b) < drop_bit 8 (ExtractInternalKeyFooter a)"
  proof (rule ccontr)
    assume "\<not> ExtractInternalKeyFooter b < ExtractInternalKeyFooter a"
    then have "unat (ExtractInternalKeyFooter a) div 256 \<le> unat (ExtractInternalKeyFooter b) div 256"
      by (intro div_le_mono) (simp add: word_less_nat_alt not_less)
    then show False using that by (simp add: word_less_nat_alt drop_bit_eq_div unat_div)
  qed
  then show ?thesis using assms by (auto simp: CompareKeySeq_def InternalKeyCompare_def Let_def split: if_splits)
qed

text \<open>The entry enumeration of an index, over its contents.\<close>

lemma ForEachEntry_elems:
  assumes "idx_inv idx R"
  shows "ForEachEntry idx = Some (map (\<lambda>e. (entry_ik e, entry_loc e)) (sl_elems (pi_list idx)))"
proof -
  have "filter has_ik (sl_elems (pi_list idx)) = sl_elems (pi_list idx)"
    using idx_invD(3,4) [OF assms] enc_parts(3) by (auto simp: filter_id_conv)
  then show ?thesis using pi_entries_elems [OF idx_invD(1) [OF assms]] by (simp add: ForEachEntry_def)
qed

definition aside_cmp :: "(bytes \<Rightarrow> bytes \<Rightarrow> int) \<Rightarrow> bytes \<times> bytes \<Rightarrow> bytes \<times> bytes \<Rightarrow> int" where
  "aside_cmp cmp a b = cmp (fst a) (fst b)"

lemma aside_comparator: "user_comparator cmp \<Longrightarrow> user_comparator (aside_cmp cmp)"
  unfolding user_comparator_def aside_cmp_def by blast

context user_comparator
begin

lemma strict_sort_unique:
  assumes "sorted_wrt (\<lambda>a b. cmp a b < 0) ys" "mset ys = mset xs"
  shows "ys = sort_cmp cmp xs"
proof -
  have "sorted_wrt (\<lambda>a b. cmp a b \<le> 0) zs \<Longrightarrow> mset ys = mset zs \<Longrightarrow> ys = zs" for zs
    using assms(1)
  proof (induction ys arbitrary: zs)
    case (Cons y ys)
    obtain z zs' where zs: "zs = z # zs'" using Cons.prems(2) by (cases zs) auto
    have eq: "set (y # ys) = set (z # zs')" using Cons.prems(2) zs by (metis mset_eq_setD)
    have "z = y"
    proof (rule ccontr)
      assume ne: "z \<noteq> y"
      then have "z \<in> set ys" "y \<in> set zs'" using eq by auto
      then have "cmp y z < 0" "cmp z y \<le> 0" using Cons.prems(1,3) zs by auto
      then show False using cmp_swap [of y z] by simp
    qed
    then show ?case using Cons zs by auto
  qed simp
  then show ?thesis using assms(2) sorted_sort_cmp [of xs] by simp
qed

end

lemma drain_entry_fst: "drain_entry buf part gen (ik, loc) = Some kv \<Longrightarrow> fst kv = ik"
  by (auto simp: drain_entry_def Let_def split: if_splits)

lemma drain_entry_rec:
  assumes "i < length recs" "rec_offsets 0 recs ! i < 2 ^ 64" "entry_ok (rec_entries part gen recs ! i)"
  shows "drain_entry (rec_buffer recs) part gen (entry_ik (enc (rec_entries part gen recs ! i)), entry_loc (enc (rec_entries part gen recs ! i))) =
    Some (scanned_kv (recs ! i))"
proof -
  let ?off = "rec_offsets 0 recs ! i"
  have "gb_GetValue (rec_buffer recs) ?off = Some (rec_value (recs ! i))"
    using gb_GetValue_nth [of "rec_buffer recs" i] assms(1) rec_offsets_sorted [of 0 recs] by (simp add: rec_buffer_def)
  moreover have "entry_loc (enc (rec_entries part gen recs ! i)) = locator_bytes \<lparr> r_part_id = part, r_gen = gen, r_offset = ?off \<rparr>"
    "entry_ik (enc (rec_entries part gen recs ! i)) = fst (scanned_kv (recs ! i))"
    using enc_parts [OF assms(3)] assms(1) by (simp_all add: rec_entries_nth rec_entry_def scanned_kv_entry)
  ultimately show ?thesis
    using locator_roundtrip [of "\<lparr> r_part_id = part, r_gen = gen, r_offset = ?off \<rparr>"] assms(2) scanned_kv_entry(2) [of "recs ! i"]
    by (simp add: drain_entry_def Let_def prod_eq_iff)
qed

lemma rec_offsets_le: "x \<in> set (rec_offsets pos rs) \<Longrightarrow> x \<le> pos + length (concat (map rec_bytes rs))"
proof (induction rs arbitrary: pos)
  case (Cons r rs)
  then show ?case using Cons.IH [of "pos + length (rec_bytes r)"] by (auto simp: add.assoc simp del: rec_bytes_simp)
qed simp

lemma CompareKeySeq_comparator: "user_comparator (CompareKeySeq Slice_compare)"
proof -
  have "CompareKeySeq Slice_compare = (\<lambda>a b. let r = Slice_compare (ExtractUserKey a) (ExtractUserKey b) in
      if r = 0 then (if GetInternalKeySeqno a > GetInternalKeySeqno b then -1
                     else if GetInternalKeySeqno a < GetInternalKeySeqno b then 1 else r) else r)"
    by (simp add: fun_eq_iff CompareKeySeq_def GetInternalKeySeqno_def Let_def)
  then show ?thesis using lex_comparator [OF bytewise.user_comparator_axioms, of ExtractUserKey GetInternalKeySeqno] by simp
qed

text \<open>Draining equals scanning and sorting.\<close>

lemma drain_sorted:
  assumes idx: "idx_inv idx (set (rec_entries part gen recs))" and seqs: "distinct (map (\<lambda>r. h_seq (fst r)) recs)"
    and small: "length (concat (map rec_bytes recs)) < 2 ^ 64"
  shows "\<exists>mn. DrainPartitionAside idx (rec_buffer recs) part gen =
      Some (Inr (sort_cmp (aside_cmp (CompareKeySeq Slice_compare)) (map scanned_kv recs), mn)) \<and>
    sorted_wrt (\<lambda>a b. aside_cmp (CompareKeySeq Slice_compare) a b < 0) (sort_cmp (aside_cmp (CompareKeySeq Slice_compare)) (map scanned_kv recs))"
proof -
  let ?E = "rec_entries part gen recs" and ?es = "sl_elems (pi_list idx)" and ?cmp = "aside_cmp (CompareKeySeq Slice_compare)"
  define g where "g = (\<lambda>e. the (drain_entry (rec_buffer recs) part gen (entry_ik e, entry_loc e)))"
  have ok: "entry_ok (?E ! i)" if "i < length recs" for i
    using idx_invD(4) [OF idx] that by (metis length_rec_entries nth_mem)
  have off: "rec_offsets 0 recs ! i < 2 ^ 64" if "i < length recs" for i
    using rec_offsets_le [of "rec_offsets 0 recs ! i" 0 recs] that small by simp
  have dr: "drain_entry (rec_buffer recs) part gen (entry_ik (enc (?E ! i)), entry_loc (enc (?E ! i))) = Some (scanned_kv (recs ! i))"
    if "i < length recs" for i by (rule drain_entry_rec [OF that off [OF that] ok [OF that]])
  have set: "set ?es = enc ` set ?E" by (rule idx_invD(3) [OF idx])
  have sorted: "sorted_wrt (\<lambda>a b. ZfKeyComparator Slice_compare a b < 0) ?es" by (rule zfkey.sl_elems_sorted [OF idx_invD(1) [OF idx]])
  have dr_es: "drain_entry (rec_buffer recs) part gen (entry_ik e, entry_loc e) = Some (g e)" if "e \<in> set ?es" for e
    using that set dr by (fastforce simp: g_def in_set_conv_nth)
  have genc: "map (\<lambda>r. g (enc r)) ?E = map scanned_kv recs"
    by (rule nth_equalityI) (simp_all add: g_def dr)
  have "distinct (map (\<lambda>r. GetInternalKeySeqno (entry_ik (enc r))) ?E)"
  proof -
    have "map (\<lambda>r. GetInternalKeySeqno (entry_ik (enc r))) ?E = map (\<lambda>r. h_seq (fst r)) recs"
      by (rule nth_equalityI) (use ok enc_parts(1) in \<open>auto simp: entry_ok_def rec_entries_nth rec_entry_def\<close>)
    then show ?thesis using seqs by simp
  qed
  then have "distinct (map enc ?E)" by (auto simp: distinct_map inj_on_def)
  moreover have "distinct ?es" by (rule sorted_wrt_imp_distinct [OF sorted]) simp
  ultimately have ms: "mset ?es = mset (map enc ?E)" using set_eq_iff_mset_eq_distinct [of ?es "map enc ?E"] set by simp
  have "mset (map g ?es) = mset (map (\<lambda>r. g (enc r)) ?E)"
    using arg_cong [OF ms, of "image_mset g"] by (simp add: image_mset.compositionality comp_def)
  then have perm: "mset (map g ?es) = mset (map scanned_kv recs)" unfolding genc .
  have fst: "fst (g e) = entry_ik e" if "e \<in> set ?es" for e
    by (rule drain_entry_fst [OF dr_es [OF that]])
  have srt: "sorted_wrt (\<lambda>a b. ?cmp a b < 0) (map g ?es)"
    unfolding sorted_wrt_map
    by (rule sorted_wrt_mono_rel [OF _ sorted]) (simp add: aside_cmp_def fst ZfKeyComparator_def)
  have eq: "map g ?es = sort_cmp ?cmp (map scanned_kv recs)"
    by (rule user_comparator.strict_sort_unique [OF aside_comparator [OF CompareKeySeq_comparator] srt perm])
  have "those (map (drain_entry (rec_buffer recs) part gen) (map (\<lambda>e. (entry_ik e, entry_loc e)) ?es)) = Some (map g ?es)"
    unfolding map_map comp_def by (rule those_map_Some) (rule dr_es)
  moreover have "length (map g ?es) = length (gb_offsets (rec_buffer recs))"
    using arg_cong [OF perm, of size] by (simp add: rec_buffer_def)
  ultimately show ?thesis using ForEachEntry_elems [OF idx] srt eq by (simp add: DrainPartitionAside_def)
qed

section \<open>The merge of several runs\<close>

lemma best_run_prefix:
  fixes runs :: "kvs list"
  assumes "user_comparator cmp"
  shows "(case foldl (\<lambda>best i. if runs ! i = [] then best
         else case best of None \<Rightarrow> Some i | Some j \<Rightarrow> if cmp (fst (hd (runs ! i))) (fst (hd (runs ! j))) < 0 then Some i else best)
       None [0..<n] of
      None \<Rightarrow> \<forall>j < n. runs ! j = []
    | Some i \<Rightarrow> \<forall>j < n. runs ! j \<noteq> [] \<longrightarrow> cmp (fst (hd (runs ! i))) (fst (hd (runs ! j))) \<le> 0)"
proof (induction n)
  case (Suc n)
  note laws = user_comparator.cmp_trans [OF assms] user_comparator.cmp_le_iff [OF assms] user_comparator.cmp_refl [OF assms]
  let ?f = "\<lambda>best i. if runs ! i = [] then best
         else case best of None \<Rightarrow> Some i | Some j \<Rightarrow> if cmp (fst (hd (runs ! i))) (fst (hd (runs ! j))) < 0 then Some i else best"
  let ?key = "\<lambda>i. fst (hd (runs ! i))"
  show ?case
  proof (cases "foldl ?f None [0..<n]")
    case None
    then show ?thesis using Suc laws(3) by (auto simp: less_Suc_eq)
  next
    case (Some i)
    then have IH: "\<forall>j < n. runs ! j \<noteq> [] \<longrightarrow> cmp (?key i) (?key j) \<le> 0" using Suc by simp
    show ?thesis
    proof (cases "runs ! n \<noteq> [] \<and> cmp (?key n) (?key i) < 0")
      case True
      then have "cmp (?key n) (?key j) \<le> 0" if "j < n" "runs ! j \<noteq> []" for j
        using IH that laws(1) [of "?key n" "?key i" "?key j"] by simp
      then show ?thesis using Some True laws(3) by (auto simp: less_Suc_eq)
    next
      case False
      then show ?thesis using Some IH laws(2) [of "?key i" "?key n"] by (auto simp: less_Suc_eq not_less)
    qed
  qed
qed simp

lemma best_run_spec:
  assumes "user_comparator cmp"
  shows "best_run cmp runs = None \<Longrightarrow> concat runs = []"
    and "best_run cmp runs = Some i \<Longrightarrow> j < length runs \<Longrightarrow> runs ! j \<noteq> [] \<Longrightarrow> cmp (fst (hd (runs ! i))) (fst (hd (runs ! j))) \<le> 0"
proof -
  note p = best_run_prefix [OF assms, of "length runs" runs, folded best_run_def]
  show "concat runs = []" if "best_run cmp runs = None" using p that by (auto simp: in_set_conv_nth)
  show "cmp (fst (hd (runs ! i))) (fst (hd (runs ! j))) \<le> 0"
    if "best_run cmp runs = Some i" "j < length runs" "runs ! j \<noteq> []" using p that by simp
qed

lemma mset_concat_update:
  "i < length runs \<Longrightarrow> runs ! i \<noteq> [] \<Longrightarrow> add_mset (hd (runs ! i)) (mset (concat (runs[i := tl (runs ! i)]))) = mset (concat runs)"
proof (induction runs arbitrary: i)
  case (Cons r runs)
  show ?case
  proof (cases i)
    case 0
    then show ?thesis using Cons.prems by (cases r) auto
  next
    case (Suc k)
    then show ?thesis using Cons by (simp flip: union_mset_add_mset_right)
  qed
qed simp

lemma mset_merge_runs:
  assumes "user_comparator cmp"
  shows "mset (merge_runs cmp runs) = mset (concat runs)"
  using assms
proof (induction cmp runs rule: merge_runs.induct)
  case (1 cmp runs)
  show ?case
  proof (cases "best_run cmp runs")
    case None
    then show ?thesis using best_run_spec(1) [OF 1(2)] by (simp add: merge_runs.simps [of cmp runs])
  next
    case (Some i)
    then show ?thesis using 1(1) [OF Some 1(2)] mset_concat_update [of i runs] best_run_bound [OF Some] by (simp add: merge_runs.simps [of cmp runs])
  qed
qed

lemma sorted_merge_runs:
  assumes "user_comparator cmp" "\<forall>run \<in> set runs. sorted_wrt (\<lambda>a b. aside_cmp cmp a b \<le> 0) run"
  shows "sorted_wrt (\<lambda>a b. aside_cmp cmp a b \<le> 0) (merge_runs cmp runs)"
  using assms
proof (induction cmp runs rule: merge_runs.induct)
  case (1 cmp runs)
  show ?case
  proof (cases "best_run cmp runs")
    case None
    then show ?thesis by (simp add: merge_runs.simps [of cmp runs])
  next
    case (Some i)
    note b = best_run_bound [OF Some]
    let ?runs = "runs[i := tl (runs ! i)]"
    have sorted_i: "sorted_wrt (\<lambda>a b. aside_cmp cmp a b \<le> 0) (runs ! j)" if "j < length runs" for j using 1(3) that by simp
    have "\<forall>run \<in> set ?runs. sorted_wrt (\<lambda>a b. aside_cmp cmp a b \<le> 0) run"
    proof
      fix run assume "run \<in> set ?runs"
      then have "run = tl (runs ! i) \<or> run \<in> set runs" using set_update_subset_insert [of runs i "tl (runs ! i)"] by auto
      then show "sorted_wrt (\<lambda>a b. aside_cmp cmp a b \<le> 0) run"
        using 1(3) sorted_i [of i] b by (cases "runs ! i") auto
    qed
    from 1(1) [OF Some 1(2) this] have tail: "sorted_wrt (\<lambda>a b. aside_cmp cmp a b \<le> 0) (merge_runs cmp ?runs)" .
    have "aside_cmp cmp (hd (runs ! i)) x \<le> 0" if "x \<in> set (merge_runs cmp ?runs)" for x
    proof -
      have "x \<in> set (concat ?runs)" using that mset_eq_setD [OF mset_merge_runs [OF 1(2), of ?runs]] by simp
      then have "x \<in> set (concat runs)"
        using mset_eq_setD [of "hd (runs ! i) # concat ?runs" "concat runs"] mset_concat_update [of i runs] b by auto
      then obtain j where j: "j < length runs" "x \<in> set (runs ! j)" by (auto simp: in_set_conv_nth [of _ runs])
      then have "runs ! j \<noteq> []" by auto
      then obtain y ys where y: "runs ! j = y # ys" by (cases "runs ! j") auto
      then have "aside_cmp cmp (hd (runs ! i)) y \<le> 0" using best_run_spec(2) [OF 1(2) Some j(1)] by (simp add: aside_cmp_def)
      moreover have "aside_cmp cmp y x \<le> 0"
        using sorted_i [OF j(1)] j(2) y user_comparator.cmp_refl [OF 1(2)] by (auto simp: aside_cmp_def)
      ultimately show ?thesis using user_comparator.cmp_trans [OF 1(2)] unfolding aside_cmp_def by blast
    qed
    then show ?thesis using Some tail by (simp add: merge_runs.simps [of cmp runs])
  qed
qed

section \<open>The sorted input\<close>

text \<open>A sealed generation that is complete: its file holds these records, and its frozen index has one
  entry for each.\<close>

definition gen_complete :: "ZeroFlushContext \<Rightarrow> (u32 \<times> u32) \<times> zf_rec list \<Rightarrow> bool" where
  "gen_complete c g \<longleftrightarrow> (case g of ((part, gen), recs) \<Rightarrow>
     e_content (zc_env c) (MakeFileName (zc_wal_dir c) part gen) = Some (concat (map rec_bytes recs)) \<and>
     length (concat (map rec_bytes recs)) < 2 ^ 64 \<and> (\<forall>r \<in> set recs. rec_ok r) \<and>
     (\<exists>idx. GetFrozen (zc_index c) part gen = Some idx \<and> idx_inv idx (set (rec_entries part gen recs))))"

abbreviation key_sorted :: "kvs \<Rightarrow> bool" where
  "key_sorted \<equiv> sorted_wrt (\<lambda>a b. aside_cmp (InternalKeyCompare Slice_compare) a b < 0)"

lemma drain_gen_complete:
  assumes "gen_complete c ((part, gen), recs)" "\<forall>op. \<not> e_fail (zc_env c) op" "distinct (map (\<lambda>r. h_seq (fst r)) recs)"
  shows "\<exists>run. drain_gen c (part, gen) = Some (Some run) \<and> mset run = mset (map scanned_kv recs) \<and> key_sorted run"
proof -
  obtain idx where idx: "GetFrozen (zc_index c) part gen = Some idx" "idx_inv idx (set (rec_entries part gen recs))"
    and cont: "e_content (zc_env c) (MakeFileName (zc_wal_dir c) part gen) = Some (concat (map rec_bytes recs))"
    and small: "length (concat (map rec_bytes recs)) < 2 ^ 64" and ok: "\<forall>r \<in> set recs. rec_ok r"
    using assms(1) by (auto simp: gen_complete_def)
  have load: "gb_Load (zc_env c) (zc_wal_dir c) part gen = Inr (rec_buffer recs)"
    by (rule gb_Load_valid [OF cont assms(2)]) (use ok in \<open>auto simp: rec_ok_def\<close>)
  let ?run = "sort_cmp (aside_cmp (CompareKeySeq Slice_compare)) (map scanned_kv recs)"
  obtain mn where d: "DrainPartitionAside idx (rec_buffer recs) part gen = Some (Inr (?run, mn))"
    and srt: "sorted_wrt (\<lambda>a b. aside_cmp (CompareKeySeq Slice_compare) a b < 0) ?run"
    using drain_sorted [OF idx(2) assms(3) small] by blast
  have "key_sorted ?run"
    by (rule sorted_wrt_mono_rel [OF _ srt]) (simp add: aside_cmp_def CompareKeySeq_internal)
  moreover have "mset ?run = mset (map scanned_kv recs)"
    by (rule user_comparator.mset_sort_cmp [OF aside_comparator [OF CompareKeySeq_comparator]])
  moreover have "drain_gen c (part, gen) = Some (Some ?run)" using idx(1) load d by (simp add: drain_gen_def)
  ultimately show ?thesis by blast
qed

lemma drain_gens_complete:
  assumes "\<forall>op. \<not> e_fail (zc_env c) op" "\<forall>g \<in> set gs. gen_complete c g"
    "distinct (map (\<lambda>r. h_seq (fst r)) (concat (map snd gs)))"
  shows "\<exists>runs. drain_gens c (map fst gs) = Some (Some runs) \<and> mset (concat runs) = mset (map scanned_kv (concat (map snd gs))) \<and>
    (\<forall>run \<in> set runs. key_sorted run)"
  using assms(2,3)
proof (induction gs)
  case (Cons g gs)
  obtain part gen recs where g: "g = ((part, gen), recs)" by (metis prod.collapse)
  obtain run where run: "drain_gen c (part, gen) = Some (Some run)" "mset run = mset (map scanned_kv recs)" "key_sorted run"
    using drain_gen_complete [of c part gen recs] assms(1) Cons.prems g by auto
  obtain runs where runs: "drain_gens c (map fst gs) = Some (Some runs)" "mset (concat runs) = mset (map scanned_kv (concat (map snd gs)))"
    "\<forall>run \<in> set runs. key_sorted run"
    using Cons.IH Cons.prems by auto
  show ?case using run runs by (intro exI [of _ "if run = [] then runs else run # runs"]) (auto simp: g)
qed simp

lemma InternalKeyCompare_distinct_seq:
  assumes "s \<noteq> s'" "s \<le> kMaxSequenceNumber" "s' \<le> kMaxSequenceNumber"
  shows "InternalKeyCompare Slice_compare (MakeInternalKey k s t) (MakeInternalKey k' s' t') \<noteq> 0"
proof -
  have "PackSequenceAndType s t \<noteq> PackSequenceAndType s' t'"
    using UnPack_PackSequenceAndType [OF assms(2), of t] UnPack_PackSequenceAndType [OF assms(3), of t'] assms(1) by auto
  then show ?thesis by (auto simp: InternalKeyCompare_def Let_def)
qed

lemma merged_strict:
  assumes "sorted_wrt (\<lambda>a b. aside_cmp cmp a b \<le> 0) ys" "distinct (map key ys)"
    "\<And>a b. a \<in> set ys \<Longrightarrow> b \<in> set ys \<Longrightarrow> key a \<noteq> key b \<Longrightarrow> aside_cmp cmp a b \<noteq> 0"
  shows "sorted_wrt (\<lambda>a b. aside_cmp cmp a b < 0) ys"
  using assms
proof (induction ys)
  case (Cons y ys)
  have "aside_cmp cmp y b < 0" if "b \<in> set ys" for b
    using Cons.prems(1,2) Cons.prems(3) [of y b] that by fastforce
  then show ?case using Cons by auto
qed simp

lemma merge_result:
  assumes "\<forall>run \<in> set runs. key_sorted run"
  shows "sorted_wrt (\<lambda>a b. aside_cmp (InternalKeyCompare Slice_compare) a b \<le> 0)
      (case runs of [] \<Rightarrow> [] | [run] \<Rightarrow> run | _ \<Rightarrow> merge_runs (InternalKeyCompare Slice_compare) runs)"
    and "mset (case runs of [] \<Rightarrow> [] | [run] \<Rightarrow> run | _ \<Rightarrow> merge_runs (InternalKeyCompare Slice_compare) runs) = mset (concat runs)"
proof -
  note icmp = bytewise_key.ikey.user_comparator_axioms
  have weak: "\<forall>run \<in> set runs. sorted_wrt (\<lambda>a b. aside_cmp (InternalKeyCompare Slice_compare) a b \<le> 0) run"
    using assms by (auto intro: sorted_wrt_mono_rel [rotated])
  show "sorted_wrt (\<lambda>a b. aside_cmp (InternalKeyCompare Slice_compare) a b \<le> 0)
      (case runs of [] \<Rightarrow> [] | [run] \<Rightarrow> run | _ \<Rightarrow> merge_runs (InternalKeyCompare Slice_compare) runs)"
    using sorted_merge_runs [OF icmp weak] weak by (auto split: list.split)
  show "mset (case runs of [] \<Rightarrow> [] | [run] \<Rightarrow> run | _ \<Rightarrow> merge_runs (InternalKeyCompare Slice_compare) runs) = mset (concat runs)"
    using mset_merge_runs [OF icmp, of runs] by (auto split: list.split)
qed

lemma gen_complete_seqs:
  assumes "gen_complete c ((part, gen), recs)" "r \<in> set recs"
  shows "h_seq (fst r) \<le> kMaxSequenceNumber"
proof -
  obtain idx where idx: "idx_inv idx (set (rec_entries part gen recs))" using assms(1) by (auto simp: gen_complete_def)
  obtain i where i: "i < length recs" "r = recs ! i" using assms(2) by (auto simp: in_set_conv_nth)
  then have "rec_entries part gen recs ! i \<in> set (rec_entries part gen recs)" by simp
  from idx_invD(4) [OF idx this] show ?thesis using i by (simp add: entry_ok_def rec_entries_nth rec_entry_def)
qed

lemma aside_sorted_input:
  assumes "zo_materialize_sort_assist (zc_zfo c)" "zc_ucmp c = Slice_compare" "\<forall>op. \<not> e_fail (zc_env c) op"
    "\<forall>g \<in> set gs. gen_complete c g" "distinct (map (\<lambda>r. h_seq (fst r)) (concat (map snd gs)))"
  shows "BuildAsideFromFrozenIndex c (map fst gs) =
      Some (Some (sort_cmp (aside_cmp (InternalKeyCompare Slice_compare)) (map scanned_kv (concat (map snd gs)))))"
proof -
  let ?recs = "concat (map snd gs)" and ?cmp = "InternalKeyCompare Slice_compare" and ?seq = "\<lambda>kv :: bytes \<times> bytes. GetInternalKeySeqno (fst kv)"
  obtain runs where runs: "drain_gens c (map fst gs) = Some (Some runs)" "mset (concat runs) = mset (map scanned_kv ?recs)"
    "\<forall>run \<in> set runs. key_sorted run"
    using drain_gens_complete [OF assms(3-5)] by blast
  define res where "res = (case runs of [] \<Rightarrow> [] | [run] \<Rightarrow> run | _ \<Rightarrow> merge_runs ?cmp runs)"
  have res: "sorted_wrt (\<lambda>a b. aside_cmp ?cmp a b \<le> 0) res" "mset res = mset (map scanned_kv ?recs)"
    unfolding res_def using merge_result [OF runs(3)] runs(2) by simp_all
  have le: "h_seq (fst r) \<le> kMaxSequenceNumber" if r: "r \<in> set ?recs" for r
  proof -
    obtain g where g: "g \<in> set gs" "r \<in> set (snd g)" using r unfolding set_concat set_map by blast
    obtain part gen recs where eq: "g = ((part, gen), recs)" by (metis prod.collapse)
    show ?thesis by (rule gen_complete_seqs [of c part gen recs]) (use assms(4) g eq in auto)
  qed
  have seq: "?seq (scanned_kv r) = h_seq (fst r)" if "r \<in> set ?recs" for r
    using le [OF that] by (simp add: scanned_kv_entry)
  have "mset (map ?seq res) = mset (map ?seq (map scanned_kv ?recs))" using arg_cong [OF res(2), of "image_mset ?seq"] by (simp only: mset_map)
  also have "map ?seq (map scanned_kv ?recs) = map (\<lambda>r. h_seq (fst r)) ?recs" unfolding map_map by (rule map_cong [OF refl]) (simp only: comp_def seq)
  finally have dist: "distinct (map ?seq res)" using assms(5) mset_eq_imp_distinct_iff by blast
  have ne: "aside_cmp ?cmp a b \<noteq> 0" if ab: "a \<in> set res" "b \<in> set res" "?seq a \<noteq> ?seq b" for a b
  proof -
    obtain r r' where r: "a = scanned_kv r" "b = scanned_kv r'" "r \<in> set ?recs" "r' \<in> set ?recs"
      using ab(1,2) mset_eq_setD [OF res(2)] unfolding set_map by blast
    then have "h_seq (fst r) \<noteq> h_seq (fst r')" using ab(3) seq by metis
    from InternalKeyCompare_distinct_seq [OF this le [OF r(3)] le [OF r(4)]] show ?thesis by (simp add: aside_cmp_def r scanned_kv_entry)
  qed
  have "key_sorted res" by (rule merged_strict [OF res(1) dist ne])
  from user_comparator.strict_sort_unique [OF aside_comparator [OF bytewise_key.ikey.user_comparator_axioms] this res(2)]
  show ?thesis
    unfolding BuildAsideFromFrozenIndex_def assms(2) runs(1) using assms(1) by (simp add: res_def)
qed

lemma wal_sorted_scan:
  assumes "gen_complete c ((part, gen), recs)" "\<forall>op. \<not> e_fail (zc_env c) op"
  shows "BuildWalSortedAside (zc_env c) (zc_wal_dir c) part gen Slice_compare =
      Some (Inr (sort_cmp (aside_cmp (CompareKeySeq Slice_compare)) (map scanned_kv recs), min_seq_of (map (\<lambda>r. h_seq (fst r)) recs)))"
proof -
  have g: "e_content (zc_env c) (MakeFileName (zc_wal_dir c) part gen) = Some (concat (map rec_bytes recs))" "\<forall>r \<in> set recs. rec_ok r"
    using assms(1) by (auto simp: gen_complete_def)
  obtain s where "scan_file (zc_env c) (zc_wal_dir c) part gen = Some (recs, s)" "sc_status s = Inr ()"
    using scan_file_valid [OF g] assms(2) by blast
  then show ?thesis by (simp add: BuildWalSortedAside_def aside_cmp_def [abs_def])
qed

text \<open>C11: the sorted input of materialisation. Under the bytewise comparator, with the sort
  assist on (the default) and without I/O failures, for sealed generations whose files are complete and
  whose frozen indexes have one entry for each record, the path without sorting (drain the indexes,
  merge the runs) succeeds and returns the records of all files in the order of the internal
  comparator, exactly what scanning the files and sorting gives; and for each generation the
  scan-and-sort reference succeeds as well.\<close>

theorem aside_is_sorted_scan:
  assumes "zo_materialize_sort_assist (zc_zfo c)" "zc_ucmp c = Slice_compare" "\<forall>op. \<not> e_fail (zc_env c) op"
    "\<forall>g \<in> set gs. gen_complete c g" "distinct (map (\<lambda>r. h_seq (fst r)) (concat (map snd gs)))"
  shows "BuildAsideFromFrozenIndex c (map fst gs) =
      Some (Some (sort_cmp (aside_cmp (InternalKeyCompare Slice_compare)) (map scanned_kv (concat (map snd gs))))) \<and>
    (\<forall>((part, gen), recs) \<in> set gs. BuildWalSortedAside (zc_env c) (zc_wal_dir c) part gen Slice_compare =
      Some (Inr (sort_cmp (aside_cmp (CompareKeySeq Slice_compare)) (map scanned_kv recs), min_seq_of (map (\<lambda>r. h_seq (fst r)) recs))))"
  using aside_sorted_input [OF assms] wal_sorted_scan [OF _ assms(3)] assms(4) by fastforce

definition sample_rec :: "byte \<Rightarrow> byte \<Rightarrow> u64 \<Rightarrow> zf_rec" where
  "sample_rec k v s =
     (\<lparr> h_magic = kZfMagic, h_cf_id = 0, h_type = kTypeValue, h_flags = 0, h_key_len = 1, h_val_len = 1, h_seq = s \<rparr>, [k], [v])"

lemma sample_rec_ok: "rec_ok (sample_rec k v s)" "length (rec_bytes (sample_rec k v s)) < 2 ^ 64"
  by (simp_all add: rec_ok_def sample_rec_def zf_frame_ok_def kScanChunkSize_def)

lemma sample_index: "s \<le> kMaxSequenceNumber \<Longrightarrow> \<exists>idx. pi_gen idx = gen \<and> idx_inv idx (set (rec_entries 0 gen [sample_rec k v s]))"
proof -
  let ?e = "rec_entry 0 gen (sample_rec k v s) 0"
  assume s: "s \<le> kMaxSequenceNumber"
  have ok: "entry_ok ?e" using s by (simp add: entry_ok_def rec_entry_def sample_rec_def locator_bytes_def)
  have "unat (pi_mem_bytes (new_PartitionIndex 0 gen)) + entry_bytes (enc ?e) < 2 ^ 64" 
    using unsigned_less [of "entry_size (entry_ik (enc ?e)) (entry_loc (enc ?e))", where ?'a = nat]
    by (simp add: new_PartitionIndex_def entry_bytes_def)
  from pi_Insert_spec [OF new_idx_inv ok _ this] show ?thesis by (auto simp: rec_entries_def new_PartitionIndex_def)
qed


definition sample_ctx :: "PartitionIndex list \<Rightarrow> (u32 \<times> zf_rec) list \<Rightarrow> ZeroFlushContext" where
  "sample_ctx idxs gens =
     (new_ZeroFlushContext default_options ''d''
       \<lparr> e_files = map (\<lambda>(gen, r). (MakeFileName ''d'' 0 gen, rec_bytes r)) gens, e_synced = [], e_fail = (\<lambda>_. False) \<rparr> Slice_compare [])
     \<lparr> zc_index := new_PartitionIndexSet \<lparr> ix_frozen := [(0, idxs)] \<rparr> \<rparr>"

lemma sample_complete:
  "\<exists>c. zc_ucmp c = Slice_compare \<and> (\<forall>op. \<not> e_fail (zc_env c) op) \<and> zc_zfo c = default_options \<and> zc_tables c = None \<and>
    (\<forall>g \<in> set [((0, 5), [sample_rec 98 1 7]), ((0, 6), [sample_rec 97 2 8])]. gen_complete c g)"
proof -
  let ?r1 = "sample_rec 98 1 7" and ?r2 = "sample_rec 97 2 8"
  obtain i1 i2 where i: "pi_gen i1 = 5" "idx_inv i1 (set (rec_entries 0 5 [?r1]))" "pi_gen i2 = 6" "idx_inv i2 (set (rec_entries 0 6 [?r2]))"
    using sample_index [of 7 5 98 1] sample_index [of 8 6 97 2] by (auto simp: kMaxSequenceNumber_def)
  let ?c = "sample_ctx [i1, i2] [(5, ?r1), (6, ?r2)]"
  have "gen_complete ?c ((0, 5), [?r1])" "gen_complete ?c ((0, 6), [?r2])"
    using i sample_rec_ok
    by (auto simp: gen_complete_def sample_ctx_def new_ZeroFlushContext_def e_content_def GetFrozen_def frozen_of_def new_PartitionIndexSet_def
        simp del: rec_bytes_simp)
  then show ?thesis by (intro exI [of _ ?c]) (simp add: sample_ctx_def new_ZeroFlushContext_def)
qed

lemma sample_sorted:
  "sort_cmp (aside_cmp (InternalKeyCompare Slice_compare)) (map scanned_kv [sample_rec 98 1 7, sample_rec 97 2 8]) =
     [(MakeInternalKey [97] 8 kTypeValue, [2]), (MakeInternalKey [98] 7 kTypeValue, [1])]"
  by (simp add: scanned_kv_def sample_rec_def aside_cmp_def InternalKeyCompare_def)

theorem aside_is_sorted_scan_witness:
  "\<exists>c. BuildAsideFromFrozenIndex c [(0, 5), (0, 6)] =
      Some (Some [(MakeInternalKey [97] 8 kTypeValue, [2]), (MakeInternalKey [98] 7 kTypeValue, [1])]) \<and>
    BuildWalSortedAside (zc_env c) (zc_wal_dir c) 0 6 Slice_compare = Some (Inr ([(MakeInternalKey [97] 8 kTypeValue, [2])], 8))"
proof -
  let ?gs = "[((0, 5), [sample_rec 98 1 7]), ((0, 6), [sample_rec 97 2 8])]"
  obtain c where c: "zc_ucmp c = Slice_compare" "\<forall>op. \<not> e_fail (zc_env c) op" "zc_zfo c = default_options" "\<forall>g \<in> set ?gs. gen_complete c g"
    using sample_complete by blast
  from aside_is_sorted_scan [OF _ c(1,2,4)]
  have "BuildAsideFromFrozenIndex c [(0, 5), (0, 6)] = Some (Some (sort_cmp (aside_cmp (InternalKeyCompare Slice_compare)) (map scanned_kv [sample_rec 98 1 7, sample_rec 97 2 8])))"
    "BuildWalSortedAside (zc_env c) (zc_wal_dir c) 0 6 Slice_compare = Some (Inr ([scanned_kv (sample_rec 97 2 8)], 8))"
    by (simp_all add: sample_rec_def min_seq_of_def c(3) default_options_def)
  then show ?thesis unfolding sample_sorted by (intro exI [of _ c]) (simp add: scanned_kv_def sample_rec_def)
qed

section \<open>The order of the sort keys\<close>

primrec le_nat :: "bytes \<Rightarrow> nat" where
  "le_nat [] = 0"
| "le_nat (b # bs) = unat b + 256 * le_nat bs"

lemma unat_byte: "unat (b :: byte) < 256"
  using unsigned_less [of b, where ?'a = nat] by simp

lemma le_nat_bound: "le_nat bs < 256 ^ length bs"
proof (induction bs)
  case (Cons b bs)
  have "unat b < 256" using unat_byte [of b] by simp
  then show ?case using Cons by simp
qed simp

lemma le_nat_append: "le_nat (xs @ ys) = le_nat xs + 256 ^ length xs * le_nat ys"
  by (induction xs) (auto simp: algebra_simps)

lemma unat_le_word:
  "8 * length bs \<le> LENGTH('a::len) \<Longrightarrow> unat (le_word bs :: 'a word) = le_nat bs"
proof (induction bs)
  case (Cons b bs)
  have or: "(le_word (b # bs) :: 'a word) = ucast b + push_bit 8 (le_word bs)"
  proof -
    have "(ucast b AND push_bit 8 (le_word bs) :: 'a word) = 0" by (rule bit_word_eqI) (auto simp: bit_simps dest: bit_imp_le_length)
    then show ?thesis by (simp add: disjunctive_add_eq_or)
  qed
  have b: "unat b < 256" using unat_byte [of b] by simp
  have w: "8 + 8 * length bs \<le> LENGTH('a)" using Cons.prems by simp
  have "256 * 256 ^ length bs = (2 :: nat) ^ (8 + 8 * length bs)" by (simp add: power_add power_mult)
  also have "\<dots> \<le> 2 ^ LENGTH('a)" by (rule power_increasing [OF w]) simp
  finally have lt: "unat b + 256 * le_nat bs < 2 ^ LENGTH('a)"
    using le_nat_bound [of bs] b by linarith
  have ub: "unat (ucast b :: 'a word) = unat b" using lt by (simp add: unsigned_ucast_eq take_bit_nat_eq_self_iff)
  have "unat (push_bit 8 (le_word bs) :: 'a word) = 256 * le_nat bs"
    using lt Cons by (subst unsigned_push_bit_eq) (simp add: push_bit_eq_mult take_bit_nat_eq_self mult.commute)
  then show ?case using lt ub by (simp only: or le_nat.simps) (subst unat_add_no_overflow; simp)
qed simp

lemma memcmp_append:
  "length as = length bs \<Longrightarrow> memcmp (as @ cs) (bs @ ds) = (if memcmp as bs = 0 then memcmp cs ds else memcmp as bs)"
  by (induction as bs rule: list_induct2) auto

lemma memcmp_Slice: "length as = length bs \<Longrightarrow> memcmp as bs = Slice_compare as bs"
  by (simp add: Slice_compare_def Let_def)

lemma memcmp_be:
  "length xs = length ys \<Longrightarrow>
    memcmp (rev xs) (rev ys) = (if le_nat xs < le_nat ys then -1 else if le_nat ys < le_nat xs then 1 else 0)"
proof (induction xs ys rule: list_induct2)
  case (Cons x xs y ys)
  have b: "unat x < 256" "unat y < 256" using unat_byte [of x] unat_byte [of y] by simp_all
  show ?case
    using b unfolding rev.simps memcmp_append [of "rev xs" "rev ys" "[x]" "[y]", simplified length_rev, OF Cons.hyps]
    by (auto simp: Cons.IH word_less_nat_alt)
qed simp

lemma memcmp_NOT: "length xs = length ys \<Longrightarrow> memcmp (map NOT xs) (map NOT ys) = memcmp ys xs"
proof (induction xs ys rule: list_induct2)
  case (Cons x xs y ys)
  have "NOT x < NOT y \<longleftrightarrow> y < x" for x y :: byte
  proof -
    have "unat (NOT w) = 255 - unat w" for w :: byte
    proof -
      have "w \<le> 255" using unat_byte [of w] by (simp add: word_le_nat_alt)
      moreover have "NOT w = 255 - w" by (simp add: not_eq_complement)
      ultimately show ?thesis by (simp add: unat_sub)
    qed
    then show ?thesis using unat_byte [of x] unat_byte [of y] by (simp add: word_less_nat_alt) linarith
  qed
  then show ?case using Cons by simp
qed simp

text \<open>Shorter user keys first; the internal order among user keys of one length.\<close>

definition shortlex_cmp :: "bytes \<Rightarrow> bytes \<Rightarrow> int" where
  "shortlex_cmp a b =
     (if length a < length b then -1 else if length b < length a then 1 else InternalKeyCompare Slice_compare a b)"

lemma length_prefix_le_nat:
  assumes "n < 2 ^ 32"
  shows "le_nat [of_nat n, of_nat (n div 2 ^ 8), of_nat (n div 2 ^ 16), of_nat (n div 2 ^ 24)] = n"
proof -
  have "n div 2 ^ 24 < 256" using assms by (simp add: less_mult_imp_div_less)
  moreover have "m mod 256 + 256 * (m div 256) = m" for m :: nat by simp
  moreover have "n div 2 ^ 16 = n div 2 ^ 8 div 256" "n div 2 ^ 24 = n div 2 ^ 16 div 256" by (simp_all flip: div_mult2_eq)
  ultimately show ?thesis by (simp add: unat_of_nat take_bit_eq_mod)
qed

lemma length_sort_key: "8 \<le> length ik \<Longrightarrow> length (sort_key ik) = length ik + 4"
  by (simp add: sort_key_def Let_def)

lemma memcmp_sort_key:
  assumes "8 \<le> length a" "8 \<le> length b" "length a < 2 ^ 32" "length b < 2 ^ 32"
  shows "memcmp (sort_key a) (sort_key b) = (if length a = length b then InternalKeyCompare Slice_compare a b
      else if length a < length b then -1 else 1)"
proof -
  let ?p = "\<lambda>n. [of_nat n, of_nat (n div 2 ^ 8), of_nat (n div 2 ^ 16), of_nat (n div 2 ^ 24)] :: bytes"
  let ?n = "\<lambda>a :: bytes. length a - 8"
  have key: "sort_key a = rev (?p (?n a)) @ take (?n a) a @ map NOT (rev (drop (?n a) a))" for a by (simp add: sort_key_def Let_def)
  have pre: "memcmp (rev (?p (?n a))) (rev (?p (?n b))) = (if length a < length b then -1 else if length b < length a then 1 else 0)"
  proof -
    have v: "le_nat (?p (?n a)) = ?n a" "le_nat (?p (?n b)) = ?n b" by (rule length_prefix_le_nat; use assms in linarith)+
    show ?thesis unfolding memcmp_be [of "?p (?n a)" "?p (?n b)", simplified length_Cons list.size, OF refl] v using assms by auto
  qed
  have foot: "memcmp (map NOT (rev (drop (?n a) a))) (map NOT (rev (drop (?n b) b))) =
      (if ExtractInternalKeyFooter b < ExtractInternalKeyFooter a then -1 else if ExtractInternalKeyFooter a < ExtractInternalKeyFooter b then 1 else 0)"
  proof -
    have "unat (ExtractInternalKeyFooter x) = le_nat (drop (?n x) x)" if "8 \<le> length x" for x
      using that unat_le_word [of "drop (?n x) x", where ?'a = 64] by (simp add: ExtractInternalKeyFooter_def DecodeFixed64_def)
    then show ?thesis using assms by (simp add: memcmp_NOT memcmp_be word_less_nat_alt)
  qed
  have "length (rev (?p (?n a))) = length (rev (?p (?n b)))" by simp
  note split = memcmp_append [OF this]
  show ?thesis
  proof (cases "length a = length b")
    case True
    then have "length (take (?n a) a) = length (take (?n b) b)" by simp
    note split2 = memcmp_append [OF this] memcmp_Slice [OF this]
    show ?thesis unfolding key split pre split2 foot InternalKeyCompare_def ExtractUserKey_def Let_def using True by simp
  next
    case False
    then show ?thesis unfolding key split pre by simp
  qed
qed


lemma BuildSortKeys_eq:
  "BuildSortKeys keys True =
     Some (concat (map sort_key keys), map (\<lambda>i. length (concat (map sort_key (take i keys)))) [0..<length keys])"
  by (induction keys rule: rev_induct) (simp_all add: BuildSortKeys_def)

lemma sort_seg_key:
  assumes "i < length keys"
  shows "sort_seg (concat (map sort_key keys)) (map (\<lambda>i. length (concat (map sort_key (take i keys)))) [0..<length keys]) i = sort_key (keys ! i)"
proof -
  let ?c = "\<lambda>ks. concat (map sort_key ks)"
  have keys: "keys = take i keys @ keys ! i # drop (Suc i) keys" using id_take_nth_drop [OF assms] .
  have next_off: "(if i + 1 < length keys then length (?c (take (i + 1) keys)) else length (?c keys)) = length (?c (take (Suc i) keys))"
    using assms by auto
  have "drop (length (?c (take i keys))) (?c keys) = ?c (keys ! i # drop (Suc i) keys)"
    using arg_cong [OF keys, of ?c] unfolding map_append concat_append by (metis append_eq_conv_conj)
  then show ?thesis using assms next_off by (simp add: sort_seg_def take_Suc_conv_app_nth cong: if_cong)
qed

lemma sort_cmp_map:
  assumes "\<And>i j. i \<in> set xs \<Longrightarrow> j \<in> set xs \<Longrightarrow> c i j \<le> 0 \<longleftrightarrow> d (f i) (f j) \<le> 0"
  shows "map f (sort_cmp c xs) = sort_cmp d (map f xs)"
proof -
  have set: "set (sort_cmp c ys) = set ys" for ys :: "'a list"
  proof -
    have "set (insort_cmp c y zs) = insert y (set zs)" for y zs by (induction zs) auto
    then show ?thesis by (induction ys) auto
  qed
  have ins: "map f (insort_cmp c x ys) = insort_cmp d (f x) (map f ys)" if "x \<in> set xs" "set ys \<subseteq> set xs" for x ys
    using that assms by (induction ys) auto
  have "set ys \<subseteq> set xs \<Longrightarrow> map f (sort_cmp c ys) = sort_cmp d (map f ys)" for ys
    by (induction ys) (auto simp: ins set)
  then show ?thesis by blast
qed

lemma memcmp_take_min: "memcmp (take (min (length as) (length bs)) as) (take (min (length as) (length bs)) bs) = memcmp as bs"
  by (induction as bs rule: memcmp.induct) auto

lemma shortlex_comparator: "user_comparator shortlex_cmp"
proof
  fix a b c :: bytes
  note laws = bytewise_key.ikey.cmp_swap bytewise_key.ikey.cmp_trans
  show "shortlex_cmp a b < 0 \<longleftrightarrow> shortlex_cmp b a > 0" using laws(1) [of a b] by (simp add: shortlex_cmp_def)
  show "shortlex_cmp a b \<le> 0 \<Longrightarrow> shortlex_cmp b c \<le> 0 \<Longrightarrow> shortlex_cmp a c \<le> 0"
    using laws(2) [of a b c] by (auto simp: shortlex_cmp_def split: if_splits)
qed

text \<open>C19: the memcmp-able sort keys. Reordering a vector by its sort keys returns it sorted, shorter
  user keys first and in the order of the internal comparator among user keys of one length;
  so for user keys that all have one length the result is the sort by the internal comparator.\<close>

theorem sort_keys_order:
  assumes "BuildSortKeys (map fst kvs) True = Some (buf, off)" "\<forall>kv \<in> set kvs. 8 \<le> length (fst kv) \<and> length (fst kv) < 2 ^ 32"
  shows "ReorderBySortKeys kvs buf off = sort_cmp (aside_cmp shortlex_cmp) kvs \<and>
    ((\<forall>kv \<in> set kvs. length (fst kv) = n) \<longrightarrow> ReorderBySortKeys kvs buf off = sort_cmp (aside_cmp (InternalKeyCompare Slice_compare)) kvs)"
proof -
  let ?c = "\<lambda>a b. if seg_less buf off a b then -1 else if seg_less buf off b a then 1 else 0 :: int"
  let ?k = "\<lambda>i. fst (kvs ! i)"
  have seg: "sort_seg buf off i = sort_key (?k i)" if "i < length kvs" for i
    using sort_seg_key [of i "map fst kvs"] assms(1) that unfolding BuildSortKeys_eq by auto
  have len: "8 \<le> length (?k i)" "length (?k i) < 2 ^ 32" if "i < length kvs" for i using assms(2) that by auto
  have less: "seg_less buf off i j \<longleftrightarrow> shortlex_cmp (?k i) (?k j) < 0" if "i < length kvs" "j < length kvs" for i j
    using len [OF that(1)] len [OF that(2)]
    by (simp add: seg_less_def seg that Let_def memcmp_take_min memcmp_sort_key length_sort_key shortlex_cmp_def)
  note sl = shortlex_comparator
  have le: "?c i j \<le> 0 \<longleftrightarrow> aside_cmp shortlex_cmp (kvs ! i) (kvs ! j) \<le> 0" if "i \<in> set [0..<length kvs]" "j \<in> set [0..<length kvs]" for i j
    using that less [of i j] less [of j i] user_comparator.cmp_swap [OF sl, of "?k i" "?k j"] user_comparator.cmp_swap [OF sl, of "?k j" "?k i"]
    by (auto simp: aside_cmp_def)
  have eq: "ReorderBySortKeys kvs buf off = sort_cmp (aside_cmp shortlex_cmp) kvs"
    unfolding ReorderBySortKeys_def using sort_cmp_map [of "[0..<length kvs]" ?c "aside_cmp shortlex_cmp" "(!) kvs", OF le] by (simp add: map_nth)
  have "sort_cmp (aside_cmp shortlex_cmp) kvs = sort_cmp (aside_cmp (InternalKeyCompare Slice_compare)) kvs" if "\<forall>kv \<in> set kvs. length (fst kv) = n"
    using sort_cmp_map [of kvs "aside_cmp shortlex_cmp" "aside_cmp (InternalKeyCompare Slice_compare)" "\<lambda>x. x"] that
    by (simp add: aside_cmp_def shortlex_cmp_def)
  then show ?thesis using eq by simp
qed


theorem sort_keys_order_witness:
  "let kvs = [(MakeInternalKey [98] 7 kTypeValue, [1]), (MakeInternalKey [97, 97] 8 kTypeValue, [2])]
   in ReorderBySortKeys kvs (fst (the (BuildSortKeys (map fst kvs) True))) (snd (the (BuildSortKeys (map fst kvs) True))) = kvs \<and>
     InternalKeyCompare Slice_compare (fst (kvs ! 1)) (fst (kvs ! 0)) < 0"
proof -
  let ?kvs = "[(MakeInternalKey [98] 7 kTypeValue, [1]), (MakeInternalKey [97, 97] 8 kTypeValue, [2])] :: kvs"
  have "BuildSortKeys (map fst ?kvs) True = Some (fst (the (BuildSortKeys (map fst ?kvs) True)), snd (the (BuildSortKeys (map fst ?kvs) True)))"
    by (simp add: BuildSortKeys_def)
  note conjunct1 [OF sort_keys_order [OF this]]
  moreover have "sort_cmp (aside_cmp shortlex_cmp) ?kvs = ?kvs" by (simp add: aside_cmp_def shortlex_cmp_def)
  ultimately show ?thesis by (simp add: InternalKeyCompare_def)
qed

end
