(* ===== verification/ZfVersion.thy ===== *)
theory ZfVersion
  imports ZfPartitionTable ZfEnv
begin

text \<open>
  The parts of the host engine's LSM tree that materialisation reads and writes: file metadata and
  levels (\<^verbatim>\<open>db/version_edit.h\<close>, \<^verbatim>\<open>db/version_set.cc\<close>), the search for a file that overlaps a range, running
  compactions and their registration (\<^verbatim>\<open>db/compaction/compaction.cc\<close>,
  \<^verbatim>\<open>db/compaction/compaction_picker.cc\<close>), and the application of an edit with its consistency check
  (\<^verbatim>\<open>db/version_builder.cc\<close>). An \<^verbatim>\<open>InternalKey\<close> is its bytes. A file of a version is identified by its
  number, as the pointers of the source are.

  The lemmas: the binary search for an overlapping file finds one exactly when there is one, and a
  level whose files are disjoint passes the consistency check after disjoint files are added.
\<close>

section \<open>Files and levels\<close>

record FileMetaData =
  fm_number :: u64
  fm_file_size :: u64
  fm_smallest_seqno :: u64
  fm_largest_seqno :: u64
  fm_smallest :: bytes
  fm_largest :: bytes
  fm_being_compacted :: bool
  fm_epoch_number :: u64

abbreviation fm_lo :: "FileMetaData \<Rightarrow> bytes" where
  "fm_lo f \<equiv> ExtractUserKey (fm_smallest f)"

abbreviation fm_hi :: "FileMetaData \<Rightarrow> bytes" where
  "fm_hi f \<equiv> ExtractUserKey (fm_largest f)"

record VersionStorageInfo =
  vs_files :: "FileMetaData list list"
  vs_base_level :: nat

definition LevelFiles :: "VersionStorageInfo \<Rightarrow> nat \<Rightarrow> FileMetaData list" where
  "LevelFiles v l = (if l < length (vs_files v) then vs_files v ! l else [])"

primrec UpdateNumNonEmptyLevels :: "FileMetaData list list \<Rightarrow> nat \<Rightarrow> nat" where
  "UpdateNumNonEmptyLevels files 0 = 0"
| "UpdateNumNonEmptyLevels files (Suc i) = (if files ! i \<noteq> [] then Suc i else UpdateNumNonEmptyLevels files i)"

definition num_non_empty_levels :: "VersionStorageInfo \<Rightarrow> nat" where
  "num_non_empty_levels v = UpdateNumNonEmptyLevels (vs_files v) (length (vs_files v))"

section \<open>Overlap with a range\<close>

text \<open>A missing key stands for a null pointer.\<close>

definition AfterFile :: "comparator \<Rightarrow> bytes option \<Rightarrow> FileMetaData \<Rightarrow> bool" where
  "AfterFile ucmp user_key f = (case user_key of None \<Rightarrow> False | Some k \<Rightarrow> ucmp k (fm_hi f) > 0)"

definition BeforeFile :: "comparator \<Rightarrow> bytes option \<Rightarrow> FileMetaData \<Rightarrow> bool" where
  "BeforeFile ucmp user_key f = (case user_key of None \<Rightarrow> False | Some k \<Rightarrow> ucmp k (fm_lo f) < 0)"

text \<open>\<^verbatim>\<open>std::lower_bound\<close>: the halving loop of \<^const>\<open>upper_bound_loop\<close>, stopping at the first element
  that is not below the key.\<close>

definition lower_bound :: "('a \<Rightarrow> bool) \<Rightarrow> 'a list \<Rightarrow> nat" where
  "lower_bound less_key xs = upper_bound_loop (\<lambda>m. \<not> less_key (xs ! m)) 0 (length xs)"

definition FindFile :: "comparator \<Rightarrow> FileMetaData list \<Rightarrow> bytes \<Rightarrow> nat" where
  "FindFile ucmp files key = lower_bound (\<lambda>f. InternalKeyCompare ucmp (fm_largest f) key < 0) files"

definition kValueTypeForSeek :: byte where "kValueTypeForSeek = 0x18"

definition SetMinPossibleForUserKey :: "bytes \<Rightarrow> bytes" where
  "SetMinPossibleForUserKey user_key = MakeInternalKey user_key kMaxSequenceNumber kValueTypeForSeek"

definition SomeFileOverlapsRange :: "comparator \<Rightarrow> bool \<Rightarrow> FileMetaData list \<Rightarrow> bytes option \<Rightarrow> bytes option \<Rightarrow> bool" where
  "SomeFileOverlapsRange ucmp disjoint_sorted_files files smallest largest =
     (if \<not> disjoint_sorted_files
      then \<exists>f \<in> set files. \<not> (AfterFile ucmp smallest f \<or> BeforeFile ucmp largest f)
      else
       let index = (case smallest of None \<Rightarrow> 0 | Some k \<Rightarrow> FindFile ucmp files (SetMinPossibleForUserKey k))
       in if index \<ge> length files then False else \<not> BeforeFile ucmp largest (files ! index))"

definition OverlapInLevel :: "comparator \<Rightarrow> VersionStorageInfo \<Rightarrow> nat \<Rightarrow> bytes option \<Rightarrow> bytes option \<Rightarrow> bool" where
  "OverlapInLevel ucmp v level smallest largest =
     (if level \<ge> num_non_empty_levels v then False
      else SomeFileOverlapsRange ucmp (level > 0) (LevelFiles v level) smallest largest)"

section \<open>Compactions\<close>

text \<open>\<open>cp_id\<close> is the address of the object. The proximal level of a compaction and its key range come
  from options of tiered storage.\<close>

record Compaction =
  cp_id :: nat
  cp_start_level :: nat
  cp_output_level :: nat
  cp_inputs :: "(nat \<times> FileMetaData list) list"
  cp_smallest_user_key :: bytes
  cp_largest_user_key :: bytes
  cp_proximal_level :: "nat option"
  cp_proximal_smallest :: bytes
  cp_proximal_largest :: bytes

definition widen_keys :: "comparator \<Rightarrow> (bytes \<times> bytes) option \<Rightarrow> FileMetaData \<Rightarrow> FileMetaData \<Rightarrow> (bytes \<times> bytes) option" where
  "widen_keys ucmp acc f g =
     (case acc of
        None \<Rightarrow> Some (fm_lo f, fm_hi g)
      | Some (s, l) \<Rightarrow> Some (if ucmp (fm_lo f) s < 0 then fm_lo f else s, if ucmp (fm_hi g) l > 0 then fm_hi g else l))"

definition GetBoundaryKeys :: "comparator \<Rightarrow> (nat \<times> FileMetaData list) list \<Rightarrow> (bytes \<times> bytes) option" where
  "GetBoundaryKeys ucmp inputs =
     foldl (\<lambda>acc (level, files).
         if files = [] then acc
         else if level = 0 then foldl (\<lambda>acc f. widen_keys ucmp acc f f) acc files
         else widen_keys ucmp acc (hd files) (last files))
       None inputs"

definition input_numbers :: "Compaction \<Rightarrow> u64 list" where
  "input_numbers c = map fm_number (concat (map snd (cp_inputs c)))"

definition MarkFilesBeingCompacted :: "bool \<Rightarrow> u64 list \<Rightarrow> VersionStorageInfo \<Rightarrow> VersionStorageInfo" where
  "MarkFilesBeingCompacted b nums v =
     v \<lparr> vs_files := map (map (\<lambda>f. if fm_number f \<in> set nums then f \<lparr> fm_being_compacted := b \<rparr> else f)) (vs_files v) \<rparr>"

record CompactionPicker =
  cpk_in_progress :: "Compaction list"
  cpk_level0 :: "Compaction list"

definition RegisterCompaction :: "Compaction \<Rightarrow> CompactionPicker \<Rightarrow> CompactionPicker" where
  "RegisterCompaction c p =
     p \<lparr> cpk_level0 := (if cp_start_level c = 0 then c # cpk_level0 p else cpk_level0 p), cpk_in_progress := c # cpk_in_progress p \<rparr>"

definition UnregisterCompaction :: "Compaction \<Rightarrow> CompactionPicker \<Rightarrow> CompactionPicker" where
  "UnregisterCompaction c p =
     p \<lparr> cpk_level0 := (if cp_start_level c = 0 then filter (\<lambda>x. cp_id x \<noteq> cp_id c) (cpk_level0 p) else cpk_level0 p),
         cpk_in_progress := filter (\<lambda>x. cp_id x \<noteq> cp_id c) (cpk_in_progress p) \<rparr>"

definition OverlapProximalLevelOutputRange :: "comparator \<Rightarrow> Compaction \<Rightarrow> bytes \<Rightarrow> bytes \<Rightarrow> bool" where
  "OverlapProximalLevelOutputRange ucmp c smallest largest =
     (if cp_proximal_level c = None then False
      else if cp_proximal_smallest c = [] \<or> cp_proximal_largest c = [] then False
      else ucmp smallest (ExtractUserKey (cp_proximal_largest c)) \<le> 0 \<and> ucmp largest (ExtractUserKey (cp_proximal_smallest c)) \<ge> 0)"

definition RangeOverlapWithCompaction :: "comparator \<Rightarrow> CompactionPicker \<Rightarrow> bytes \<Rightarrow> bytes \<Rightarrow> nat \<Rightarrow> bool" where
  "RangeOverlapWithCompaction ucmp p smallest largest level =
     (\<exists>c \<in> set (cpk_in_progress p).
        cp_output_level c = level \<and> ucmp smallest (cp_largest_user_key c) \<le> 0 \<and> ucmp largest (cp_smallest_user_key c) \<ge> 0 \<or>
        cp_proximal_level c \<noteq> None \<and> OverlapProximalLevelOutputRange ucmp c smallest largest)"

section \<open>Edits\<close>

text \<open>The deleted and new files of an edit, in the order in which they are recorded. (The deleted files
  are an ordered set in the source; with each number deleted at most once, the order decides only
  which of several errors is reported.)\<close>

record VersionEdit =
  ve_deleted :: "(nat \<times> u64) list"
  ve_new_files :: "(nat \<times> FileMetaData) list"

record LevelState =
  ls_deleted_files :: "u64 list"
  ls_added_files :: "(u64 \<times> FileMetaData) list"

text \<open>The builder over a base version. \<open>vb_table_file_levels\<close> overrides the location in the base
  version; \<^const>\<open>None\<close> is the invalid level.\<close>

record VersionBuilder =
  vb_base :: VersionStorageInfo
  vb_levels :: "LevelState list"
  vb_table_file_levels :: "(u64 \<times> nat option) list"
  vb_has_invalid_levels :: bool
  vb_invalid_level_sizes :: "(nat \<times> nat) list"

definition new_VersionBuilder :: "VersionStorageInfo \<Rightarrow> VersionBuilder" where
  "new_VersionBuilder v =
     \<lparr> vb_base = v, vb_levels = map (\<lambda>_. \<lparr> ls_deleted_files = [], ls_added_files = [] \<rparr>) (vs_files v),
       vb_table_file_levels = [], vb_has_invalid_levels = False, vb_invalid_level_sizes = [] \<rparr>"

definition GetFileLocation :: "VersionStorageInfo \<Rightarrow> u64 \<Rightarrow> nat option" where
  "GetFileLocation v num = find (\<lambda>l. num \<in> fm_number ` set (LevelFiles v l)) [0..<length (vs_files v)]"

definition GetCurrentLevelForTableFile :: "VersionBuilder \<Rightarrow> u64 \<Rightarrow> nat option" where
  "GetCurrentLevelForTableFile b num =
     (case map_of (vb_table_file_levels b) num of Some l \<Rightarrow> l | None \<Rightarrow> GetFileLocation (vb_base b) num)"

definition num_levels :: "VersionBuilder \<Rightarrow> nat" where
  "num_levels b = length (vb_levels b)"

definition invalid_size :: "VersionBuilder \<Rightarrow> nat \<Rightarrow> nat" where
  "invalid_size b l = (case map_of (vb_invalid_level_sizes b) l of None \<Rightarrow> 0 | Some n \<Rightarrow> n)"

definition ApplyFileDeletion :: "VersionBuilder \<Rightarrow> nat \<Rightarrow> u64 \<Rightarrow> unit zf_result \<times> VersionBuilder" where
  "ApplyFileDeletion b level num =
     (let current = GetCurrentLevelForTableFile b num
      in if Some level \<noteq> current
         then
          let b = (if level \<ge> num_levels b then b \<lparr> vb_has_invalid_levels := True \<rparr> else b)
          in (case current of
                None \<Rightarrow> (Inr (), b)
              | Some cur \<Rightarrow> (Inl (Corruption (''VersionBuilder: Cannot delete table file #'' @ to_string (unat num) @ '' from level '' @
                                to_string level @ '' since it is on level '' @ to_string cur)), b))
         else if level \<ge> num_levels b
         then (Inr (), b \<lparr> vb_invalid_level_sizes := (level, invalid_size b level - 1) # vb_invalid_level_sizes b,
                           vb_table_file_levels := (num, None) # vb_table_file_levels b \<rparr>)
         else
          let ls = vb_levels b ! level
          in (Inr (), b \<lparr> vb_levels := (vb_levels b)[level := ls \<lparr> ls_added_files := filter (\<lambda>a. fst a \<noteq> num) (ls_added_files ls),
                                                               ls_deleted_files := num # ls_deleted_files ls \<rparr>],
                          vb_table_file_levels := (num, None) # vb_table_file_levels b \<rparr>))"

definition ApplyFileAddition :: "VersionBuilder \<Rightarrow> nat \<Rightarrow> FileMetaData \<Rightarrow> unit zf_result \<times> VersionBuilder" where
  "ApplyFileAddition b level meta =
     (let num = fm_number meta; current = GetCurrentLevelForTableFile b num
      in case current of
           Some cur \<Rightarrow>
            (Inl (Corruption (''VersionBuilder: Cannot add table file #'' @ to_string (unat num) @ '' to level '' @ to_string level @
               '' since it is already in the LSM tree on level '' @ to_string cur)),
             if level \<ge> num_levels b then b \<lparr> vb_has_invalid_levels := True \<rparr> else b)
         | None \<Rightarrow> if level \<ge> num_levels b
         then (Inr (), b \<lparr> vb_invalid_level_sizes := (level, invalid_size b level + 1) # vb_invalid_level_sizes b,
                           vb_table_file_levels := (num, Some level) # vb_table_file_levels b \<rparr>)
         else
          let ls = vb_levels b ! level
          in (Inr (), b \<lparr> vb_levels := (vb_levels b)[level := ls \<lparr> ls_deleted_files := filter (\<lambda>n. n \<noteq> num) (ls_deleted_files ls),
                                                               ls_added_files := (num, meta) # ls_added_files ls \<rparr>],
                          vb_table_file_levels := (num, Some level) # vb_table_file_levels b \<rparr>))"

fun apply_deletions :: "VersionBuilder \<Rightarrow> (nat \<times> u64) list \<Rightarrow> unit zf_result \<times> VersionBuilder" where
  "apply_deletions b [] = (Inr (), b)"
| "apply_deletions b ((level, num) # ds) =
     (case ApplyFileDeletion b level num of (Inl er, b') \<Rightarrow> (Inl er, b') | (Inr _, b') \<Rightarrow> apply_deletions b' ds)"

fun apply_additions :: "VersionBuilder \<Rightarrow> (nat \<times> FileMetaData) list \<Rightarrow> unit zf_result \<times> VersionBuilder" where
  "apply_additions b [] = (Inr (), b)"
| "apply_additions b ((level, meta) # as) =
     (case ApplyFileAddition b level meta of (Inl er, b') \<Rightarrow> (Inl er, b') | (Inr _, b') \<Rightarrow> apply_additions b' as)"

section \<open>The new version\<close>

definition NewestFirstBySeqNo :: "FileMetaData \<Rightarrow> FileMetaData \<Rightarrow> bool" where
  "NewestFirstBySeqNo l r =
     (if fm_largest_seqno l \<noteq> fm_largest_seqno r then fm_largest_seqno l > fm_largest_seqno r
      else if fm_smallest_seqno l \<noteq> fm_smallest_seqno r then fm_smallest_seqno l > fm_smallest_seqno r
      else fm_number l > fm_number r)"

definition NewestFirstByEpochNumber :: "FileMetaData \<Rightarrow> FileMetaData \<Rightarrow> bool" where
  "NewestFirstByEpochNumber l r =
     (if fm_epoch_number l \<noteq> fm_epoch_number r then fm_epoch_number l > fm_epoch_number r else NewestFirstBySeqNo l r)"

definition BySmallestKey :: "comparator \<Rightarrow> FileMetaData \<Rightarrow> FileMetaData \<Rightarrow> bool" where
  "BySmallestKey ucmp l r =
     (let c = InternalKeyCompare ucmp (fm_smallest l) (fm_smallest r) in if c \<noteq> 0 then c < 0 else fm_number l < fm_number r)"

text \<open>\<^verbatim>\<open>std::sort\<close> with a strict order.\<close>

definition sort_less :: "('a \<Rightarrow> 'a \<Rightarrow> bool) \<Rightarrow> 'a list \<Rightarrow> 'a list" where
  "sort_less lt xs = sort_cmp (\<lambda>a b. if lt a b then -1 else if lt b a then 1 else 0) xs"

fun merge_files :: "(FileMetaData \<Rightarrow> FileMetaData \<Rightarrow> bool) \<Rightarrow> FileMetaData list \<Rightarrow> FileMetaData list \<Rightarrow> FileMetaData list" where
  "merge_files lt [] added = added"
| "merge_files lt base [] = base"
| "merge_files lt (f # base) (a # added) =
     (if lt a f then a # merge_files lt (f # base) added else f # merge_files lt base (a # added))"

definition MaybeAddFile :: "LevelState \<Rightarrow> FileMetaData \<Rightarrow> bool" where
  "MaybeAddFile ls f \<longleftrightarrow>
     fm_number f \<notin> set (ls_deleted_files ls) \<and>
     (case map_of (ls_added_files ls) (fm_number f) of None \<Rightarrow> True | Some g \<Rightarrow> g = f)"

definition SaveSSTFilesTo :: "comparator \<Rightarrow> VersionBuilder \<Rightarrow> VersionStorageInfo" where
  "SaveSSTFilesTo ucmp b =
     (vb_base b) \<lparr> vs_files :=
       map (\<lambda>level.
           let ls = vb_levels b ! level; lt = (if level = 0 then NewestFirstByEpochNumber else BySmallestKey ucmp)
           in filter (MaybeAddFile ls) (merge_files lt (LevelFiles (vb_base b) level) (sort_less lt (map snd (ls_added_files ls)))))
         [0..<num_levels b] \<rparr>"

text \<open>The check that neighbours are in order and do not overlap, with epoch numbers present and no
  blob files; of its error only the code is kept, not the text.\<close>

definition l0_checker :: "comparator \<Rightarrow> FileMetaData \<Rightarrow> FileMetaData \<Rightarrow> bool" where
  "l0_checker ucmp l r \<longleftrightarrow>
     \<not> (fm_epoch_number l = fm_epoch_number r \<and>
        InternalKeyCompare ucmp (fm_smallest l) (fm_largest r) \<le> 0 \<and> InternalKeyCompare ucmp (fm_largest l) (fm_smallest r) \<ge> 0) \<and>
     NewestFirstByEpochNumber l r"

definition ln_checker :: "comparator \<Rightarrow> FileMetaData \<Rightarrow> FileMetaData \<Rightarrow> bool" where
  "ln_checker ucmp l r \<longleftrightarrow> BySmallestKey ucmp l r \<and> InternalKeyCompare ucmp (fm_largest l) (fm_smallest r) < 0"

fun check_neighbours :: "('a \<Rightarrow> 'a \<Rightarrow> bool) \<Rightarrow> 'a list \<Rightarrow> bool" where
  "check_neighbours ok (x # y # xs) = (ok x y \<and> check_neighbours ok (y # xs))"
| "check_neighbours ok _ = True"

definition CheckConsistencyDetails :: "comparator \<Rightarrow> VersionStorageInfo \<Rightarrow> bool" where
  "CheckConsistencyDetails ucmp v =
     (\<forall>level \<in> set [0..<length (vs_files v)].
        check_neighbours (if level = 0 then l0_checker ucmp else ln_checker ucmp) (vs_files v ! level))"

definition vb_Apply :: "comparator \<Rightarrow> VersionBuilder \<Rightarrow> VersionEdit \<Rightarrow> unit zf_result \<times> VersionBuilder" where
  "vb_Apply ucmp b edit =
     (if \<not> CheckConsistencyDetails ucmp (vb_base b) then (Inl (Corruption ''VersionBuilder''), b)
      else case apply_deletions b (ve_deleted edit) of
             (Inl er, b') \<Rightarrow> (Inl er, b')
           | (Inr _, b') \<Rightarrow> apply_additions b' (ve_new_files edit))"

section \<open>The search for an overlapping file\<close>

text \<open>A range and a file that share a user key.\<close>

definition file_overlaps :: "comparator \<Rightarrow> bytes \<Rightarrow> bytes \<Rightarrow> FileMetaData \<Rightarrow> bool" where
  "file_overlaps ucmp lo hi f \<longleftrightarrow> ucmp lo (fm_hi f) \<le> 0 \<and> ucmp hi (fm_lo f) \<ge> 0"

text \<open>A file whose bounds are in order; its largest key is no younger than any seek key.\<close>

definition file_ok :: "comparator \<Rightarrow> FileMetaData \<Rightarrow> bool" where
  "file_ok ucmp f \<longleftrightarrow> InternalKeyCompare ucmp (fm_smallest f) (fm_largest f) \<le> 0 \<and>
     ExtractInternalKeyFooter (fm_largest f) \<le> PackSequenceAndType kMaxSequenceNumber kValueTypeForSeek"

text \<open>A level above level 0: files in order of their keys, without overlap.\<close>

definition level_ok :: "comparator \<Rightarrow> FileMetaData list \<Rightarrow> bool" where
  "level_ok ucmp files \<longleftrightarrow> (\<forall>f \<in> set files. file_ok ucmp f) \<and>
     sorted_wrt (\<lambda>f g. InternalKeyCompare ucmp (fm_largest f) (fm_smallest g) < 0) files"


lemma lower_bound_spec:
  assumes "\<forall>i j. i \<le> j \<and> j < length xs \<and> lt (xs ! j) \<longrightarrow> lt (xs ! i)"
  shows "lower_bound lt xs \<le> length xs" "\<forall>i < lower_bound lt xs. lt (xs ! i)"
    "\<forall>i. lower_bound lt xs \<le> i \<and> i < length xs \<longrightarrow> \<not> lt (xs ! i)"
proof -
  have "\<not> lt (xs ! j)" if "i \<le> j" "j < length xs" "\<not> lt (xs ! i)" for i j using assms that by blast
  note spec = upper_bound_loop_spec [of 0 "length xs" "length xs" "\<lambda>m. \<not> lt (xs ! m)", OF _ this, folded lower_bound_def]
  have "lower_bound lt xs \<le> length xs \<and> (\<forall>i < lower_bound lt xs. \<not> \<not> lt (xs ! i)) \<and>
      (\<forall>i. lower_bound lt xs \<le> i \<and> i < length xs \<longrightarrow> \<not> lt (xs ! i))"
    by (rule spec) auto
  then show "lower_bound lt xs \<le> length xs" "\<forall>i < lower_bound lt xs. lt (xs ! i)"
    "\<forall>i. lower_bound lt xs \<le> i \<and> i < length xs \<longrightarrow> \<not> lt (xs ! i)" by blast+
qed

context user_key_comparator
begin

abbreviation icmp :: "bytes \<Rightarrow> bytes \<Rightarrow> int" where
  "icmp \<equiv> InternalKeyCompare cmp"

lemma icmp_user: "icmp a b \<le> 0 \<Longrightarrow> cmp (ExtractUserKey a) (ExtractUserKey b) \<le> 0"
  "cmp (ExtractUserKey a) (ExtractUserKey b) < 0 \<Longrightarrow> icmp a b < 0"
  by (auto simp: InternalKeyCompare_def Let_def split: if_splits)

lemma ExtractUserKey_Make [simp]: "ExtractUserKey (MakeInternalKey k s t) = k"
  by (simp add: ExtractUserKey_def MakeInternalKey_def PutFixed64_def)

lemma footer_Make [simp]: "ExtractInternalKeyFooter (MakeInternalKey k s t) = PackSequenceAndType s t"
  by (simp add: ExtractInternalKeyFooter_def MakeInternalKey_def)

lemma before_seek_key:
  assumes "file_ok cmp f"
  shows "icmp (fm_largest f) (SetMinPossibleForUserKey k) < 0 \<longleftrightarrow> cmp (fm_hi f) k < 0"
  using assms by (auto simp: InternalKeyCompare_def Let_def SetMinPossibleForUserKey_def file_ok_def)

lemma level_order:
  assumes "level_ok cmp files" "i \<le> j" "j < length files"
  shows "icmp (fm_largest (files ! i)) (fm_largest (files ! j)) \<le> 0" "icmp (fm_smallest (files ! i)) (fm_smallest (files ! j)) \<le> 0"
proof -
  have ok: "icmp (fm_smallest (files ! m)) (fm_largest (files ! m)) \<le> 0" if "m < length files" for m
    using assms(1) that by (auto simp: level_ok_def file_ok_def)
  have lt: "icmp (fm_largest (files ! i)) (fm_smallest (files ! j)) < 0" if "i < j"
    using assms(1,3) that by (auto simp: level_ok_def sorted_wrt_iff_nth_less)
  show "icmp (fm_largest (files ! i)) (fm_largest (files ! j)) \<le> 0"
    using lt ok [OF assms(3)] assms(2) ikey.cmp_trans by (cases "i = j") (auto intro: less_imp_le)
  show "icmp (fm_smallest (files ! i)) (fm_smallest (files ! j)) \<le> 0"
    using lt ok [of i] assms(2,3) ikey.cmp_trans [of "fm_smallest (files ! i)" "fm_largest (files ! i)"] by (cases "i = j") auto
qed

lemma SomeFileOverlapsRange_sorted:
  assumes "level_ok cmp files"
  shows "SomeFileOverlapsRange cmp True files (Some lo) (Some hi) \<longleftrightarrow> (\<exists>f \<in> set files. file_overlaps cmp lo hi f)"
proof -
  let ?lt = "\<lambda>f. icmp (fm_largest f) (SetMinPossibleForUserKey lo) < 0" and ?i = "FindFile cmp files (SetMinPossibleForUserKey lo)"
  have mono: "\<forall>i j. i \<le> j \<and> j < length files \<and> ?lt (files ! j) \<longrightarrow> ?lt (files ! i)"
    using level_order(1) [OF assms] ikey.cmp_le_lt_trans by blast
  note lb = lower_bound_spec [of files ?lt, OF mono, folded FindFile_def]
  have seek: "?lt (files ! m) \<longleftrightarrow> cmp (fm_hi (files ! m)) lo < 0" if "m < length files" for m
    by (rule before_seek_key) (use assms that in \<open>auto simp: level_ok_def\<close>)
  have "(\<exists>f \<in> set files. file_overlaps cmp lo hi f) \<longleftrightarrow> ?i < length files \<and> cmp hi (fm_lo (files ! ?i)) \<ge> 0"
  proof
    assume "\<exists>f \<in> set files. file_overlaps cmp lo hi f"
    then obtain j where j: "j < length files" "file_overlaps cmp lo hi (files ! j)" by (auto simp: in_set_conv_nth)
    then have "\<not> ?lt (files ! j)" using seek [OF j(1)] cmp_swap [of "fm_hi (files ! j)" lo] by (simp add: file_overlaps_def)
    then have le: "?i \<le> j" using lb(2) by (metis not_le)
    have "cmp (fm_lo (files ! ?i)) (fm_lo (files ! j)) \<le> 0" by (rule icmp_user(1) [OF level_order(2) [OF assms le j(1)]])
    moreover have "cmp (fm_lo (files ! j)) hi \<le> 0" using j(2) cmp_le_iff by (simp add: file_overlaps_def)
    ultimately show "?i < length files \<and> cmp hi (fm_lo (files ! ?i)) \<ge> 0"
      using cmp_trans cmp_le_iff le j(1) by (meson le_less_trans)
  next
    assume i: "?i < length files \<and> cmp hi (fm_lo (files ! ?i)) \<ge> 0"
    then have "cmp lo (fm_hi (files ! ?i)) \<le> 0" using lb(3) seek [of ?i] cmp_le_iff [of lo "fm_hi (files ! ?i)"] by (auto simp: not_less)
    then show "\<exists>f \<in> set files. file_overlaps cmp lo hi f" using i by (auto simp: file_overlaps_def intro!: bexI [of _ "files ! ?i"])
  qed
  then show ?thesis by (auto simp: SomeFileOverlapsRange_def Let_def BeforeFile_def not_less)
qed

lemma SomeFileOverlapsRange_unsorted:
  "SomeFileOverlapsRange cmp False files (Some lo) (Some hi) \<longleftrightarrow> (\<exists>f \<in> set files. file_overlaps cmp lo hi f)"
  by (auto simp: SomeFileOverlapsRange_def AfterFile_def BeforeFile_def file_overlaps_def not_less)

end

lemma num_non_empty_spec: "n \<le> l \<Longrightarrow> UpdateNumNonEmptyLevels files n \<le> l" "UpdateNumNonEmptyLevels files n \<le> l \<Longrightarrow> l < n \<Longrightarrow> files ! l = []"
  by (induction n) (auto split: if_splits simp: less_Suc_eq)

text \<open>Two files without a common key, and the order by the smallest key.\<close>

definition files_apart :: "comparator \<Rightarrow> FileMetaData \<Rightarrow> FileMetaData \<Rightarrow> bool" where
  "files_apart ucmp f g \<longleftrightarrow>
     InternalKeyCompare ucmp (fm_largest f) (fm_smallest g) < 0 \<or> InternalKeyCompare ucmp (fm_largest g) (fm_smallest f) < 0"

definition smallest_le :: "comparator \<Rightarrow> FileMetaData \<Rightarrow> FileMetaData \<Rightarrow> bool" where
  "smallest_le ucmp f g \<longleftrightarrow> InternalKeyCompare ucmp (fm_smallest f) (fm_smallest g) \<le> 0"

definition version_ok :: "comparator \<Rightarrow> VersionStorageInfo \<Rightarrow> bool" where
  "version_ok ucmp v \<longleftrightarrow> (\<forall>l \<ge> 1. level_ok ucmp (LevelFiles v l))"

context user_key_comparator
begin

lemma OverlapInLevel_iff:
  assumes "version_ok cmp v"
  shows "OverlapInLevel cmp v l (Some lo) (Some hi) \<longleftrightarrow> (\<exists>f \<in> set (LevelFiles v l). file_overlaps cmp lo hi f)"
proof (cases "l \<ge> num_non_empty_levels v")
  case True
  then have "LevelFiles v l = []"
    using num_non_empty_spec(2) [of "vs_files v" "length (vs_files v)" l] by (simp add: LevelFiles_def num_non_empty_levels_def)
  then show ?thesis using True by (simp add: OverlapInLevel_def)
next
  case False
  then show ?thesis
    using SomeFileOverlapsRange_sorted [of "LevelFiles v l"] SomeFileOverlapsRange_unsorted assms
    by (cases "l = 0") (auto simp: OverlapInLevel_def version_ok_def)
qed

lemma apart_of_user:
  assumes "\<not> file_overlaps cmp lo hi f" "ExtractUserKey (fm_smallest g) = lo" "ExtractUserKey (fm_largest g) = hi"
  shows "files_apart cmp f g"
  using assms icmp_user(2) [of "fm_largest f" "fm_smallest g"] icmp_user(2) [of "fm_largest g" "fm_smallest f"] cmp_swap [of "fm_hi f" lo]
  by (auto simp: file_overlaps_def files_apart_def not_le)

lemma file_ok_not_apart: "file_ok cmp f \<Longrightarrow> \<not> files_apart cmp f f"
  using ikey.cmp_swap [of "fm_largest f" "fm_smallest f"] by (auto simp: file_ok_def files_apart_def)

lemma level_ok_apart:
  assumes "level_ok cmp files"
  shows "distinct files" "f \<in> set files \<Longrightarrow> g \<in> set files \<Longrightarrow> f \<noteq> g \<Longrightarrow> files_apart cmp f g"
proof -
  have s: "sorted_wrt (\<lambda>f g. icmp (fm_largest f) (fm_smallest g) < 0) files" and ok: "\<forall>f \<in> set files. file_ok cmp f"
    using assms by (auto simp: level_ok_def)
  show "distinct files"
    using s ok file_ok_not_apart by (induction files) (auto simp: files_apart_def)
  show "files_apart cmp f g" if fg: "f \<in> set files" "g \<in> set files" "f \<noteq> g"
  proof -
    obtain i j where ij: "i < length files" "files ! i = f" "j < length files" "files ! j = g" using fg(1,2) by (metis in_set_conv_nth)
    then have "i < j \<or> j < i" using fg(3) by (metis nat_neq_iff)
    then show ?thesis using s ij by (auto simp: sorted_wrt_iff_nth_less files_apart_def)
  qed
qed

lemma level_okI:
  assumes "\<forall>f \<in> set files. file_ok cmp f" "distinct files" "\<And>f g. f \<in> set files \<Longrightarrow> g \<in> set files \<Longrightarrow> f \<noteq> g \<Longrightarrow> files_apart cmp f g"
    "sorted_wrt (smallest_le cmp) files"
  shows "level_ok cmp files"
proof -
  have "icmp (fm_largest f) (fm_smallest g) < 0" if "f \<in> set files" "g \<in> set files" "f \<noteq> g" "smallest_le cmp f g" for f g
  proof (rule ccontr)
    assume "\<not> ?thesis"
    then have "icmp (fm_largest g) (fm_smallest f) < 0" using assms(3) [OF that(1-3)] by (simp add: files_apart_def)
    moreover have "icmp (fm_smallest f) (fm_largest g) \<le> 0"
      using that(2,4) assms(1) ikey.cmp_trans by (auto simp: smallest_le_def file_ok_def)
    ultimately show False using ikey.cmp_swap [of "fm_largest g" "fm_smallest f"] by simp
  qed
  then have "sorted_wrt (\<lambda>f g. icmp (fm_largest f) (fm_smallest g) < 0) files"
    using assms(2,4) by (induction files) auto
  then show ?thesis using assms(1) by (simp add: level_ok_def)
qed

lemma BySmallestKey_le: "BySmallestKey cmp f g \<Longrightarrow> smallest_le cmp f g" "\<not> BySmallestKey cmp f g \<Longrightarrow> smallest_le cmp g f"
  using ikey.cmp_swap [of "fm_smallest g" "fm_smallest f"] ikey.cmp_refl ikey.cmp_eq_sym [of "fm_smallest f" "fm_smallest g"]
  by (auto simp: BySmallestKey_def smallest_le_def Let_def split: if_splits)

lemma smallest_le_trans: "smallest_le cmp f g \<Longrightarrow> smallest_le cmp g h \<Longrightarrow> smallest_le cmp f h"
  unfolding smallest_le_def by (rule ikey.cmp_trans)

lemma BySmallestKey_comparator:
  "user_comparator (\<lambda>a b. if BySmallestKey cmp a b then -1 else if BySmallestKey cmp b a then 1 else (0 :: int))"
proof
  fix a b c :: FileMetaData
  note sw = ikey.cmp_swap ikey.cmp_eq_sym
  have asym: "\<not> (BySmallestKey cmp a b \<and> BySmallestKey cmp b a)" for a b
    using sw(1) [of "fm_smallest a" "fm_smallest b"] sw(2) [of "fm_smallest a" "fm_smallest b"]
    by (auto simp: BySmallestKey_def Let_def split: if_splits)
  then show "((if BySmallestKey cmp a b then -1 else if BySmallestKey cmp b a then 1 else (0 :: int)) < 0) =
      (0 < (if BySmallestKey cmp b a then -1 else if BySmallestKey cmp a b then 1 else (0 :: int)))" by auto
  have nt: "\<not> BySmallestKey cmp c a" if "\<not> BySmallestKey cmp b a" "\<not> BySmallestKey cmp c b"
  proof
    assume ca: "BySmallestKey cmp c a"
    have "smallest_le cmp a b" "smallest_le cmp b c" using BySmallestKey_le(2) that by blast+
    moreover have "smallest_le cmp c a" using BySmallestKey_le(1) ca .
    ultimately have "smallest_le cmp b a" "smallest_le cmp c b" "smallest_le cmp a c" using smallest_le_trans by blast+
    with \<open>smallest_le cmp a b\<close> \<open>smallest_le cmp b c\<close> \<open>smallest_le cmp c a\<close>
    have "icmp (fm_smallest b) (fm_smallest a) = 0" "icmp (fm_smallest c) (fm_smallest b) = 0" "icmp (fm_smallest c) (fm_smallest a) = 0"
      using ikey.cmp_le_iff by (auto simp: smallest_le_def intro: antisym)
    then show False using that ca by (auto simp: BySmallestKey_def Let_def)
  qed
  then show "(if BySmallestKey cmp a b then -1 else if BySmallestKey cmp b a then 1 else (0 :: int)) \<le> 0 \<Longrightarrow>
      (if BySmallestKey cmp b c then -1 else if BySmallestKey cmp c b then 1 else (0 :: int)) \<le> 0 \<Longrightarrow>
      (if BySmallestKey cmp a c then -1 else if BySmallestKey cmp c a then 1 else (0 :: int)) \<le> 0"
    using asym [of a b] asym [of b c] by (auto split: if_splits)
qed

lemma sort_less_smallest: "mset (sort_less (BySmallestKey cmp) xs) = mset xs" "sorted_wrt (smallest_le cmp) (sort_less (BySmallestKey cmp) xs)"
proof -
  note c = BySmallestKey_comparator
  show "mset (sort_less (BySmallestKey cmp) xs) = mset xs" unfolding sort_less_def by (rule user_comparator.mset_sort_cmp [OF c])
  show "sorted_wrt (smallest_le cmp) (sort_less (BySmallestKey cmp) xs)"
    unfolding sort_less_def
    by (rule sorted_wrt_mono_rel [OF _ user_comparator.sorted_sort_cmp [OF c]]) (auto intro: BySmallestKey_le split: if_splits)
qed

lemma mset_merge_files: "mset (merge_files lt base added) = mset base + mset added"
  by (induction lt base added rule: merge_files.induct) auto

lemma sorted_merge_files:
  "sorted_wrt (smallest_le cmp) base \<Longrightarrow> sorted_wrt (smallest_le cmp) added \<Longrightarrow> sorted_wrt (smallest_le cmp) (merge_files (BySmallestKey cmp) base added)"
proof (induction "BySmallestKey cmp" base added rule: merge_files.induct)
  case (3 f base a added)
  have set: "set (merge_files lt xs ys) = set xs \<union> set ys" for lt xs ys
    using mset_merge_files [of lt xs ys] by (metis mset_append mset_eq_setD set_append)
  show ?case
  proof (cases "BySmallestKey cmp a f")
    case True
    then have "smallest_le cmp a x" if "x \<in> set (f # base) \<union> set added" for x
      using that 3(3,4) smallest_le_trans [OF BySmallestKey_le(1) [OF True]] BySmallestKey_le(1) [OF True] by auto
    then show ?thesis using 3 True by (auto simp: set)
  next
    case False
    then have "smallest_le cmp f x" if "x \<in> set base \<union> set (a # added)" for x
      using that 3(3,4) smallest_le_trans [OF BySmallestKey_le(2) [OF False]] BySmallestKey_le(2) [OF False] by auto
    then show ?thesis using 3 False by (auto simp: set)
  qed
qed auto

lemma merged_level_ok:
  assumes base: "level_ok cmp base" and ok: "\<forall>a \<in> set added. file_ok cmp a" and dist: "distinct (base @ added)"
    and apart: "\<And>f a. f \<in> set (base @ added) \<Longrightarrow> a \<in> set added \<Longrightarrow> f \<noteq> a \<Longrightarrow> files_apart cmp f a"
  shows "level_ok cmp (merge_files (BySmallestKey cmp) base (sort_less (BySmallestKey cmp) added))"
proof -
  let ?m = "merge_files (BySmallestKey cmp) base (sort_less (BySmallestKey cmp) added)"
  have ms: "mset ?m = mset (base @ added)" using sort_less_smallest(1) by (simp add: mset_merge_files)
  have set: "set ?m = set (base @ added)" by (rule mset_eq_setD [OF ms])
  have "distinct ?m" using dist mset_eq_imp_distinct_iff [OF ms] by blast
  moreover have "files_apart cmp f g" if "f \<in> set ?m" "g \<in> set ?m" "f \<noteq> g" for f g
    using that level_ok_apart(2) [OF base] apart [of f g] apart [of g f] unfolding set by (auto simp: files_apart_def)
  moreover have "sorted_wrt (smallest_le cmp) base"
    using level_order(2) [OF base] by (auto simp: sorted_wrt_iff_nth_less smallest_le_def)
  ultimately show ?thesis
    by (intro level_okI sorted_merge_files sort_less_smallest(2)) (use base ok set in \<open>auto simp: level_ok_def\<close>)
qed

lemma level_ok_check:
  assumes "level_ok cmp files"
  shows "check_neighbours (ln_checker cmp) files"
proof -
  have "ln_checker cmp f g" if "icmp (fm_largest f) (fm_smallest g) < 0" "file_ok cmp f" for f g
    using that ikey.cmp_le_lt_trans [of "fm_smallest f" "fm_largest f" "fm_smallest g"]
    by (auto simp: ln_checker_def BySmallestKey_def file_ok_def Let_def)
  then show ?thesis using assms unfolding level_ok_def by (induction files rule: induct_list012) auto
qed

end

end
