(* ===== verification/ZfMaterialize.thy ===== *)
theory ZfMaterialize
  imports ZfAside ZfVersion
begin

text \<open>
  The materialisation of a sealed epoch, \<^verbatim>\<open>zeroflush/materialize_job.cc\<close>: the decision for each partition
  and the registration of merges with the compaction picker (\<^verbatim>\<open>PlanLocked\<close>), the tasks of the pool, the
  building of a partition's tables (\<^verbatim>\<open>MaterializePartition\<close>), the choice of the level and the bookkeeping of
  replaced files (\<^verbatim>\<open>FinalizeLocked\<close>, \<^verbatim>\<open>PickInstallLevel\<close>), and the edit that installs the outputs
  (\<^verbatim>\<open>FlushJob::ZfMaterializeAllEpochs\<close> of \<^verbatim>\<open>db/flush_job.cc\<close>).

  \<^verbatim>\<open>BuildTable\<close>, the merge of a partition with base-level files and the device path are arguments of
  the definitions that call them; the proximal level, an option of tiered storage, is another. The
  statistics counters and the log are left out. The size ratio, a \<^verbatim>\<open>double\<close> in the source, is an
  exact quotient; a division by zero there gives no number or infinity and is not below the bound.
\<close>

section \<open>Data\<close>

datatype MaterializeDecision = kDirect | kMergeBase | kFallback | kSkip

record MaterializeOutput =
  mo_level :: nat
  mo_meta :: FileMetaData
  mo_part_id :: u32
  mo_decision :: MaterializeDecision
  mo_replaced_inputs :: "FileMetaData list"
  mo_rewritten_bytes :: u64
  mo_replaced_file_numbers :: "u64 list"
  mo_replaced_l0_file_numbers :: "u64 list"
  mo_superseded :: bool

definition new_output :: "FileMetaData \<Rightarrow> MaterializeOutput" where
  "new_output meta =
     \<lparr> mo_level = 0, mo_meta = meta, mo_part_id = 0, mo_decision = kDirect, mo_replaced_inputs = [], mo_rewritten_bytes = 0,
       mo_replaced_file_numbers = [], mo_replaced_l0_file_numbers = [], mo_superseded = False \<rparr>"

record PartitionPlan =
  pp_part_id :: u32
  pp_decision :: MaterializeDecision
  pp_overlap :: "FileMetaData list"
  pp_overlap_bytes :: u64
  pp_compaction :: "Compaction option"
  pp_overlap_all :: "FileMetaData list"
  pp_lo :: bytes
  pp_hi :: bytes
  pp_force_replace :: bool
  pp_base_level :: nat
  pp_l0_overlap :: "FileMetaData list"

definition new_plan :: "u32 \<Rightarrow> PartitionPlan" where
  "new_plan pid =
     \<lparr> pp_part_id = pid, pp_decision = kDirect, pp_overlap = [], pp_overlap_bytes = 0, pp_compaction = None, pp_overlap_all = [],
       pp_lo = [], pp_hi = [], pp_force_replace = False, pp_base_level = 0, pp_l0_overlap = [] \<rparr>"

record ZfMaterializeJob =
  mj_epoch :: u64
  mj_se :: SealedEpoch
  mj_table :: "PartitionTable option"
  mj_part_ids :: "u32 list"
  mj_plans :: "PartitionPlan list"
  mj_skipped_gens :: "(u32 \<times> u32) list"
  mj_batch_registered_files :: "u64 list"
  mj_outputs :: "MaterializeOutput list"
  mj_orphan_files :: "u64 list"

definition new_ZfMaterializeJob :: "u64 \<Rightarrow> SealedEpoch \<Rightarrow> PartitionTable option \<Rightarrow> ZfMaterializeJob" where
  "new_ZfMaterializeJob epoch se table =
     \<lparr> mj_epoch = epoch, mj_se = se, mj_table = table, mj_part_ids = [], mj_plans = [], mj_skipped_gens = [],
       mj_batch_registered_files = [], mj_outputs = [], mj_orphan_files = [] \<rparr>"

text \<open>What the jobs of a flush share: the version the flush started from, the current version, the
  compaction picker, the address of the next compaction object, the outputs placed so far. The
  flag of a file is one object in both versions.\<close>

record MatDb =
  md_base :: VersionStorageInfo
  md_current :: VersionStorageInfo
  md_picker :: "CompactionPicker option"
  md_next_id :: nat
  md_batch :: "MaterializeOutput list"

definition kMaxSkipGenerations :: nat where "kMaxSkipGenerations = 2"

definition PendingGenCount :: "SealedEpoch \<Rightarrow> u32 \<Rightarrow> nat" where
  "PendingGenCount se pid = length (filter (\<lambda>g. fst g = pid) (se_gens se))"

definition FindPlan :: "PartitionPlan list \<Rightarrow> u32 \<Rightarrow> PartitionPlan option" where
  "FindPlan plans pid =
     (let i = lower_bound (\<lambda>p. pp_part_id p < pid) plans
      in if i < length plans \<and> pp_part_id (plans ! i) = pid then Some (plans ! i) else None)"

section \<open>Overlapping files of the base level\<close>

record ScanResult =
  sr_out :: "FileMetaData list"
  sr_bytes :: u64
  sr_ok :: bool
  sr_batch_skipped :: bool
  sr_has_oob :: bool

fun scan_overlap_loop :: "comparator \<Rightarrow> u64 list \<Rightarrow> bytes \<Rightarrow> bytes \<Rightarrow> ScanResult \<Rightarrow> FileMetaData list \<Rightarrow> ScanResult" where
  "scan_overlap_loop ucmp reg lo hi r [] = r"
| "scan_overlap_loop ucmp reg lo hi r (f # fs) =
     (if ucmp (fm_hi f) lo < 0 \<or> ucmp (fm_lo f) hi \<ge> 0 then scan_overlap_loop ucmp reg lo hi r fs
      else
       let r = (if ucmp (fm_lo f) lo < 0 \<or> ucmp (fm_hi f) hi \<ge> 0 then r \<lparr> sr_has_oob := True \<rparr> else r)
       in if fm_being_compacted f
          then if fm_number f \<in> set reg
               then scan_overlap_loop ucmp reg lo hi (r \<lparr> sr_batch_skipped := True \<rparr>) fs
               else r \<lparr> sr_ok := False \<rparr>
          else scan_overlap_loop ucmp reg lo hi (r \<lparr> sr_out := sr_out r @ [f], sr_bytes := sr_bytes r + fm_file_size f \<rparr>) fs)"

definition scan_overlap :: "comparator \<Rightarrow> u64 list \<Rightarrow> bytes \<Rightarrow> bytes \<Rightarrow> FileMetaData list \<Rightarrow> ScanResult" where
  "scan_overlap ucmp reg lo hi files =
     scan_overlap_loop ucmp reg lo hi
       \<lparr> sr_out = [], sr_bytes = 0, sr_ok = True, sr_batch_skipped = False, sr_has_oob = False \<rparr> files"

definition upper_files :: "VersionStorageInfo \<Rightarrow> FileMetaData list" where
  "upper_files v = concat (map (LevelFiles v) [0..<vs_base_level v])"

section \<open>The decision without merging\<close>

definition in_range :: "comparator \<Rightarrow> bytes \<Rightarrow> bytes \<Rightarrow> FileMetaData \<Rightarrow> bool" where
  "in_range ucmp lo hi f \<longleftrightarrow> ucmp (fm_hi f) lo \<ge> 0 \<and> ucmp (fm_lo f) hi < 0"

definition may_skip :: "ZeroFlushContext \<Rightarrow> SealedEpoch \<Rightarrow> u32 \<Rightarrow> bool" where
  "may_skip c se pid \<longleftrightarrow> zo_skip_batching (zc_zfo c) \<and> PendingGenCount se pid < kMaxSkipGenerations"

definition range_mode :: "PartitionTable option \<Rightarrow> bool" where
  "range_mode table = (case table of None \<Rightarrow> False | Some t \<Rightarrow> \<not> t_is_hash_mode t)"

definition with_range :: "PartitionTable option \<Rightarrow> PartitionPlan \<Rightarrow> PartitionPlan" where
  "with_range table plan =
     (case table of
        None \<Rightarrow> plan
      | Some t \<Rightarrow> plan \<lparr> pp_lo := fst (RangeOf t (unat (pp_part_id plan))), pp_hi := snd (RangeOf t (unat (pp_part_id plan))) \<rparr>)"

definition plan_no_merge :: "ZeroFlushContext \<Rightarrow> ZfMaterializeJob \<Rightarrow> MatDb \<Rightarrow> u32 \<Rightarrow> PartitionPlan" where
  "plan_no_merge c j db pid =
     (let plan = new_plan pid; merge = zo_merge_into_base_level (zc_zfo c)
      in if merge \<and> may_skip c (mj_se j) pid then plan \<lparr> pp_decision := kSkip \<rparr>
         else if merge \<and> se_has_adopted_orphans (mj_se j) \<and> range_mode (mj_table j)
         then
          let plan = with_range (mj_table j) plan;
              sr = scan_overlap (zc_ucmp c) (mj_batch_registered_files j) (pp_lo plan) (pp_hi plan)
                     (LevelFiles (md_base db) (vs_base_level (md_base db)));
              l0_shadow = (\<exists>f \<in> set (upper_files (md_base db)). \<not> fm_being_compacted f \<and> in_range (zc_ucmp c) (pp_lo plan) (pp_hi plan) f)
          in if sr_ok sr \<and> sr_out sr \<noteq> [] \<and> \<not> sr_batch_skipped sr \<and> \<not> l0_shadow
             then plan \<lparr> pp_force_replace := True, pp_base_level := vs_base_level (md_base db), pp_overlap := sr_out sr,
                         pp_overlap_bytes := sr_bytes sr \<rparr>
             else plan
         else plan)"

section \<open>The decision with merging\<close>

text \<open>The files of the upper levels in the partition's range; the second result says that the scan met
  one that cannot be replaced.\<close>

fun l0_scan :: "comparator \<Rightarrow> bytes \<Rightarrow> bytes \<Rightarrow> FileMetaData list \<Rightarrow> FileMetaData list \<times> bool" where
  "l0_scan ucmp lo hi [] = ([], False)"
| "l0_scan ucmp lo hi (f # fs) =
     (if ucmp (fm_hi f) lo < 0 \<or> ucmp (fm_lo f) hi \<ge> 0 then l0_scan ucmp lo hi fs
      else if ucmp (fm_lo f) lo < 0 \<or> ucmp (fm_hi f) hi \<ge> 0 then ([], True)
      else if fm_being_compacted f then ([], True)
      else case l0_scan ucmp lo hi fs of (out, busy) \<Rightarrow> (f # out, busy))"

definition sealed_of :: "SealedEpoch \<Rightarrow> u32 \<Rightarrow> u64" where
  "sealed_of se pid = (case map_of (se_part_bytes se) pid of None \<Rightarrow> 0 | Some b \<Rightarrow> b)"

definition below_ratio :: "u64 \<Rightarrow> u64 \<Rightarrow> rat \<Rightarrow> bool" where
  "below_ratio num den r \<longleftrightarrow> den \<noteq> 0 \<and> of_nat (unat num) / of_nat (unat den) < r"

definition shadow_wait :: "ZeroFlushContext \<Rightarrow> MaterializeDecision" where
  "shadow_wait c = (if skipped_bytes (zc_sealed c) < zo_partition_target_bytes (zc_zfo c) * 32 then kSkip else kFallback)"

text \<open>The step over the upper levels: either the plan is final, or the files to merge from there.\<close>

definition plan_l0 :: "ZeroFlushContext \<Rightarrow> ZfMaterializeJob \<Rightarrow> MatDb \<Rightarrow> PartitionPlan \<Rightarrow> u64 \<Rightarrow> MaterializeDecision + FileMetaData list" where
  "plan_l0 c j db plan overlap_bytes =
     (let ucmp = zc_ucmp c; (l0, busy) = l0_scan ucmp (pp_lo plan) (pp_hi plan) (upper_files (md_base db))
      in if l0 \<noteq> []
         then if \<exists>x \<in> set (md_batch db). \<not> mo_superseded x \<and> mo_level x = 0 \<and> in_range ucmp (pp_lo plan) (pp_hi plan) (mo_meta x)
              then Inl (shadow_wait c)
              else
               let total = sealed_of (mj_se j) (pp_part_id plan) + sum_list (map fm_file_size l0); r = zo_base_merge_min_ratio (zc_zfo c)
               in if (if overlap_bytes > 0 then below_ratio total overlap_bytes r else 1 < r) then Inl kFallback else Inr l0
         else if busy then Inl (shadow_wait c)
         else Inr [])"

definition find_last_batch :: "comparator \<Rightarrow> nat \<Rightarrow> bytes \<Rightarrow> bytes \<Rightarrow> MaterializeOutput list \<Rightarrow> MaterializeOutput option" where
  "find_last_batch ucmp base lo hi batch =
     find (\<lambda>x. \<not> mo_superseded x \<and> mo_level x = base \<and> in_range ucmp lo hi (mo_meta x) \<and>
               ucmp (fm_lo (mo_meta x)) lo \<ge> 0 \<and> ucmp (fm_hi (mo_meta x)) hi < 0)
       (rev batch)"

definition picker_overlap :: "ZeroFlushContext \<Rightarrow> MatDb \<Rightarrow> bytes \<Rightarrow> bytes \<Rightarrow> nat \<Rightarrow> bool" where
  "picker_overlap c db lo hi level =
     (case md_picker db of None \<Rightarrow> False | Some p \<Rightarrow> RangeOverlapWithCompaction (zc_ucmp c) p lo hi level)"

definition b_side :: "FileMetaData list \<Rightarrow> MaterializeOutput option \<Rightarrow> FileMetaData list" where
  "b_side overlap last_batch =
     (case last_batch of
        None \<Rightarrow> overlap
      | Some x \<Rightarrow> if mo_decision x = kMergeBase then [mo_meta x] else overlap @ [mo_meta x])"

definition new_Compaction :: "comparator \<Rightarrow> nat \<Rightarrow> nat \<Rightarrow> (nat \<times> FileMetaData list) list \<Rightarrow> nat option \<Rightarrow> Compaction" where
  "new_Compaction ucmp i output_level inputs proximal =
     (let (s, l) = (case GetBoundaryKeys ucmp inputs of None \<Rightarrow> ([], []) | Some k \<Rightarrow> k)
      in \<lparr> cp_id = i, cp_start_level = fst (hd inputs), cp_output_level = output_level, cp_inputs = inputs, cp_smallest_user_key = s,
           cp_largest_user_key = l, cp_proximal_level = proximal, cp_proximal_smallest = [], cp_proximal_largest = [] \<rparr>)"

definition mark_db :: "bool \<Rightarrow> Compaction \<Rightarrow> MatDb \<Rightarrow> MatDb" where
  "mark_db b cpn db =
     db \<lparr> md_base := MarkFilesBeingCompacted b (input_numbers cpn) (md_base db),
          md_current := MarkFilesBeingCompacted b (input_numbers cpn) (md_current db) \<rparr>"

text \<open>The registration of a merge. With a proximal level the object is dropped, its files stay marked.\<close>

definition register_merge ::
    "ZeroFlushContext \<Rightarrow> nat option \<Rightarrow> ZfMaterializeJob \<Rightarrow> MatDb \<Rightarrow> PartitionPlan \<Rightarrow> ScanResult \<Rightarrow> MaterializeOutput option \<Rightarrow>
     PartitionPlan \<times> ZfMaterializeJob \<times> MatDb" where
  "register_merge c proximal j db plan sr last_batch =
     (let base = vs_base_level (md_base db); plan = plan \<lparr> pp_overlap_all := b_side (sr_out sr) last_batch \<rparr>;
          cpn = new_Compaction (zc_ucmp c) (md_next_id db) base [(0, pp_l0_overlap plan), (base, pp_overlap_all plan)] proximal;
          db = mark_db True cpn (db \<lparr> md_next_id := Suc (md_next_id db) \<rparr>)
      in if proximal \<noteq> None then (plan, j, db)
         else (plan \<lparr> pp_decision := kMergeBase, pp_overlap := sr_out sr, pp_overlap_bytes := sr_bytes sr, pp_compaction := Some cpn \<rparr>,
               j \<lparr> mj_batch_registered_files := mj_batch_registered_files j @ map fm_number (sr_out sr) \<rparr>,
               db \<lparr> md_picker := map_option (RegisterCompaction cpn) (md_picker db) \<rparr>))"

definition plan_merge :: "ZeroFlushContext \<Rightarrow> nat option \<Rightarrow> ZfMaterializeJob \<Rightarrow> MatDb \<Rightarrow> u32 \<Rightarrow> PartitionPlan \<times> ZfMaterializeJob \<times> MatDb" where
  "plan_merge c proximal j db pid =
     (let plan = with_range (mj_table j) (new_plan pid); lo = pp_lo plan; hi = pp_hi plan;
          base = vs_base_level (md_base db); se = mj_se j; skip = may_skip c se pid;
          sr = scan_overlap (zc_ucmp c) (mj_batch_registered_files j) lo hi (LevelFiles (md_base db) base);
          skip_plan = (if skip then plan \<lparr> pp_decision := kSkip \<rparr> else plan)
      in if \<not> sr_ok sr then (skip_plan, j, db)
         else case plan_l0 c j db plan (sr_bytes sr) of
                Inl d \<Rightarrow> (plan \<lparr> pp_decision := d \<rparr>, j, db)
              | Inr l0 \<Rightarrow>
                  let last_batch = find_last_batch (zc_ucmp c) base lo hi (md_batch db);
                      plan' = plan \<lparr> pp_l0_overlap := l0 \<rparr>
                  in if sr_out sr = [] \<and> \<not> sr_batch_skipped sr \<and> l0 = []
                     then (if picker_overlap c db lo hi base then skip_plan else plan, j, db)
                     else if sr_batch_skipped sr \<and> (case last_batch of None \<Rightarrow> True | Some x \<Rightarrow> mo_decision x \<noteq> kMergeBase)
                     then (skip_plan \<lparr> pp_l0_overlap := l0 \<rparr>, j, db)
                     else if sr_out sr \<noteq> [] \<and> l0 = [] \<and> below_ratio (sealed_of se pid) (sr_bytes sr) (zo_base_merge_min_ratio (zc_zfo c)) \<and>
                             (skip \<or> \<not> zo_skip_batching (zc_zfo c))
                     then (skip_plan, j, db)
                     else if md_picker db = None \<or> picker_overlap c db lo hi base
                     then (plan', j, db)
                     else register_merge c proximal j db plan' sr last_batch)"

section \<open>Phase 0\<close>

definition merge_enabled :: "ZeroFlushContext \<Rightarrow> ZfMaterializeJob \<Rightarrow> bool" where
  "merge_enabled c j \<longleftrightarrow> zo_merge_into_base_level (zc_zfo c) \<and> \<not> se_has_adopted_orphans (mj_se j) \<and> range_mode (mj_table j)"

definition plan_partition :: "ZeroFlushContext \<Rightarrow> nat option \<Rightarrow> ZfMaterializeJob \<Rightarrow> MatDb \<Rightarrow> u32 \<Rightarrow> PartitionPlan \<times> ZfMaterializeJob \<times> MatDb" where
  "plan_partition c proximal j db pid =
     (if merge_enabled c j then plan_merge c proximal j db pid else (plan_no_merge c j db pid, j, db))"

fun plan_loop :: "ZeroFlushContext \<Rightarrow> nat option \<Rightarrow> ZfMaterializeJob \<Rightarrow> MatDb \<Rightarrow> u32 list \<Rightarrow> ZfMaterializeJob \<times> MatDb" where
  "plan_loop c proximal j db [] = (j, db)"
| "plan_loop c proximal j db (pid # pids) =
     (case plan_partition c proximal j db pid of
        (plan, j', db') \<Rightarrow> plan_loop c proximal (j' \<lparr> mj_plans := mj_plans j' @ [plan] \<rparr>) db' pids)"

definition skipped_of :: "SealedEpoch \<Rightarrow> PartitionPlan list \<Rightarrow> (u32 \<times> u32) list" where
  "skipped_of se plans =
     concat (map (\<lambda>p. filter (\<lambda>g. fst g = pp_part_id p) (se_gens se)) (filter (\<lambda>p. pp_decision p = kSkip) plans))"

definition PlanLocked :: "ZeroFlushContext \<Rightarrow> nat option \<Rightarrow> ZfMaterializeJob \<Rightarrow> MatDb \<Rightarrow> ZfMaterializeJob \<times> MatDb" where
  "PlanLocked c proximal j db =
     (let ids = remdups_adj (sort (map fst (se_gens (mj_se j))));
          (j, db) = plan_loop c proximal (j \<lparr> mj_part_ids := ids, mj_plans := [] \<rparr>) db ids
      in (j \<lparr> mj_skipped_gens := mj_skipped_gens j @ skipped_of (mj_se j) (mj_plans j) \<rparr>, db))"

definition release_plan :: "PartitionPlan \<Rightarrow> MatDb \<Rightarrow> PartitionPlan \<times> MatDb" where
  "release_plan p db =
     (case (pp_decision p, pp_compaction p) of
        (kMergeBase, Some cpn) \<Rightarrow>
          (p \<lparr> pp_compaction := None, pp_decision := kDirect \<rparr>,
           mark_db False cpn (db \<lparr> md_picker := map_option (UnregisterCompaction cpn) (md_picker db) \<rparr>))
      | _ \<Rightarrow> (p, db))"

fun release_plans :: "PartitionPlan list \<Rightarrow> MatDb \<Rightarrow> PartitionPlan list \<times> MatDb" where
  "release_plans [] db = ([], db)"
| "release_plans (p # ps) db =
     (case release_plan p db of (p', db') \<Rightarrow> case release_plans ps db' of (ps', db'') \<Rightarrow> (p' # ps', db''))"

definition FinishPlansLocked :: "ZfMaterializeJob \<Rightarrow> MatDb \<Rightarrow> ZfMaterializeJob \<times> MatDb" where
  "FinishPlansLocked j db = (case release_plans (mj_plans j) db of (ps, db') \<Rightarrow> (j \<lparr> mj_plans := ps \<rparr>, db'))"

section \<open>Phase 1: the tables of a partition\<close>

definition CollectTasks :: "ZfMaterializeJob \<Rightarrow> u32 list" where
  "CollectTasks j =
     filter (\<lambda>pid. case FindPlan (mj_plans j) pid of None \<Rightarrow> True | Some p \<Rightarrow> pp_decision p \<noteq> kSkip) (mj_part_ids j)"

definition gens_of :: "SealedEpoch \<Rightarrow> u32 \<Rightarrow> (u32 \<times> u32) list" where
  "gens_of se pid = filter (\<lambda>g. fst g = pid) (se_gens se)"

text \<open>The fall-back input: the records of the files, in the order of the generations.\<close>

fun scan_gens :: "ZeroFlushContext \<Rightarrow> (u32 \<times> u32) list \<Rightarrow> kvs zf_result option" where
  "scan_gens c [] = Some (Inr [])"
| "scan_gens c ((p, gen) # gens) =
     (case scan_file (zc_env c) (zc_wal_dir c) p gen of
        None \<Rightarrow> None
      | Some (recs, s) \<Rightarrow>
          (case sc_status s of
             Inl er \<Rightarrow> Some (Inl (Corruption (''ZF sealed WAL scan failed: '' @ Status_ToString er)))
           | Inr _ \<Rightarrow> map_option (\<lambda>r. res_bind r (\<lambda>kvs. Inr (map scanned_kv recs @ kvs))) (scan_gens c gens)))"

definition kBytewiseName :: bytes where
  "kBytewiseName = map (\<lambda>ch. of_nat (of_char ch)) ''leveldb.BytewiseComparator''"

text \<open>The input of a partition and whether it is sorted.\<close>

definition partition_input :: "ZeroFlushContext \<Rightarrow> (u32 \<times> u32) list \<Rightarrow> (kvs \<times> bool) zf_result option" where
  "partition_input c gens =
     (case BuildAsideFromFrozenIndex c gens of
        None \<Rightarrow> None
      | Some (Some kvs) \<Rightarrow> Some (Inr (kvs, True))
      | Some None \<Rightarrow>
          map_option (\<lambda>r. res_bind r (\<lambda>kvs.
              case BuildSortKeys (map fst kvs) (zc_ucmp_name c = kBytewiseName) of
                None \<Rightarrow> Inr (kvs, False)
              | Some (buf, off) \<Rightarrow> Inr (ReorderBySortKeys kvs buf off, True)))
            (scan_gens c gens))"

text \<open>The slices at the upper bounds of the table's partitions; what is left is the last slice.\<close>

fun slice_kvs :: "comparator \<Rightarrow> bytes list \<Rightarrow> kvs \<Rightarrow> kvs list" where
  "slice_kvs ucmp [] kvs = (if kvs = [] then [] else [kvs])"
| "slice_kvs ucmp (hi # his) kvs =
     (let k = takeWhile (\<lambda>kv. ucmp (ExtractUserKey (fst kv)) hi < 0) kvs
      in if k = [] then slice_kvs ucmp his kvs else k # slice_kvs ucmp his (drop (length k) kvs))"

definition slice_bounds :: "PartitionTable \<Rightarrow> bytes list" where
  "slice_bounds t = map (\<lambda>i. snd (RangeOf t i)) [0..<unat (partitions t)]"

text \<open>\<^verbatim>\<open>build_one\<close>: \<open>build i kvs\<close> is the table builder, the \<open>i\<close>-th call of the partition. A table of size 0
  has been deleted by the builder and is no output.\<close>

type_synonym table_builder = "nat \<Rightarrow> kvs \<Rightarrow> FileMetaData zf_result"

definition vector_iterator :: "comparator \<Rightarrow> bool \<Rightarrow> kvs \<Rightarrow> kvs" where
  "vector_iterator ucmp is_sorted kvs = (if is_sorted then kvs else sort_cmp (aside_cmp (InternalKeyCompare ucmp)) kvs)"

fun build_tables :: "table_builder \<Rightarrow> nat \<Rightarrow> kvs list \<Rightarrow> unit zf_result \<times> MaterializeOutput list" where
  "build_tables build i [] = (Inr (), [])"
| "build_tables build i (kvs # rest) =
     (case build i kvs of
        Inl er \<Rightarrow> (Inl er, [])
      | Inr meta \<Rightarrow>
          (case build_tables build (Suc i) rest of
             (r, outs) \<Rightarrow> (r, if fm_file_size meta = 0 then outs else new_output meta # outs)))"

definition slice_table :: "ZeroFlushContext \<Rightarrow> PartitionTable option \<Rightarrow> PartitionTable option" where
  "slice_table c table = (if range_mode table then table else current_table c)"

definition oob_data :: "comparator \<Rightarrow> bytes \<Rightarrow> bytes \<Rightarrow> kvs \<Rightarrow> bool" where
  "oob_data ucmp lo hi kvs \<longleftrightarrow>
     lo \<noteq> [] \<and> ucmp (ExtractUserKey (fst (hd kvs))) lo < 0 \<or> hi \<noteq> [] \<and> ucmp (ExtractUserKey (fst (last kvs))) hi \<ge> 0"

definition do_slice :: "ZeroFlushContext \<Rightarrow> PartitionTable option \<Rightarrow> bytes \<Rightarrow> bytes \<Rightarrow> kvs \<Rightarrow> bool" where
  "do_slice c table lo hi kvs \<longleftrightarrow>
     (oob_data (zc_ucmp c) lo hi kvs \<or> table \<noteq> None \<and> \<not> range_mode table \<and> lo = [] \<and> hi = []) \<and>
     (case slice_table c table of None \<Rightarrow> False | Some t \<Rightarrow> \<not> t_is_hash_mode t \<and> partitions t > 1)"

text \<open>The inputs of the tables: the slices, or everything.\<close>

definition table_inputs :: "ZeroFlushContext \<Rightarrow> PartitionTable option \<Rightarrow> bytes \<Rightarrow> bytes \<Rightarrow> kvs \<Rightarrow> kvs list" where
  "table_inputs c table lo hi kvs =
     (if do_slice c table lo hi kvs then slice_kvs (zc_ucmp c) (slice_bounds (the (slice_table c table))) kvs else [kvs])"

definition MaterializePartition ::
    "ZeroFlushContext \<Rightarrow> ZfMaterializeJob \<Rightarrow> table_builder \<Rightarrow> (kvs \<Rightarrow> MaterializeOutput option) \<Rightarrow> u32 \<Rightarrow> (u32 \<times> u32) list \<Rightarrow> bytes \<Rightarrow> bytes \<Rightarrow>
     (unit zf_result \<times> MaterializeOutput list) option" where
  "MaterializePartition c j build csd part_id gens lo hi =
     map_option (\<lambda>r. case r of
         Inl er \<Rightarrow> (Inl er, [])
       | Inr (kvs, is_sorted) \<Rightarrow>
           if kvs = [] then (Inr (), [])
           else if do_slice c (mj_table j) lo hi kvs
           then build_tables build 0 (map (vector_iterator (zc_ucmp c) is_sorted) (table_inputs c (mj_table j) lo hi kvs))
           else if range_mode (mj_table j) \<and> oob_data (zc_ucmp c) lo hi kvs \<and> \<not> se_table_version (mj_se j) > 0
           then (Inl (Corruption (''ZF partition '' @ to_string (unat part_id) @ '' materialized range outside table bounds'')), [])
           else
            case (if zo_csd_materialize (zc_zfo c) \<and> is_sorted \<and> length gens = 1 then csd kvs else None) of
              Some out \<Rightarrow> (Inr (), [out])
            | None \<Rightarrow> build_tables build 0 [vector_iterator (zc_ucmp c) is_sorted kvs])
       (partition_input c gens)"

text \<open>\<open>merge\<close> stands for the merge of a partition with files of the base level.\<close>

definition ExecutePartition ::
    "ZeroFlushContext \<Rightarrow> table_builder \<Rightarrow> (kvs \<Rightarrow> MaterializeOutput option) \<Rightarrow>
     (PartitionPlan \<Rightarrow> (u32 \<times> u32) list \<Rightarrow> bytes \<Rightarrow> bytes \<Rightarrow> (unit zf_result \<times> MaterializeOutput list) option) \<Rightarrow>
     ZfMaterializeJob \<Rightarrow> u32 \<Rightarrow> (unit zf_result \<times> ZfMaterializeJob) option" where
  "ExecutePartition c build csd merge j pid =
     (let gens = gens_of (mj_se j) pid; plan = FindPlan (mj_plans j) pid;
          decision = (case plan of None \<Rightarrow> kDirect | Some p \<Rightarrow> pp_decision p);
          add = (\<lambda>(r, outs). (r, j \<lparr> mj_outputs := mj_outputs j @ outs \<rparr>))
      in if gens = [] \<or> decision = kSkip then Some (Inr (), j)
         else
          let (lo, hi) = (if range_mode (mj_table j)
                          then if decision = kMergeBase then (pp_lo (the plan), pp_hi (the plan)) else RangeOf (the (mj_table j)) (unat pid)
                          else ([], []))
          in map_option add
               (if decision = kMergeBase then merge (the plan) gens lo hi else MaterializePartition c j build csd pid gens lo hi))"

section \<open>Phase 2: levels and replaced files\<close>

definition PickInstallLevel :: "ZeroFlushContext \<Rightarrow> MatDb \<Rightarrow> bytes \<Rightarrow> bytes \<Rightarrow> nat" where
  "PickInstallLevel c db smallest largest =
     (let lo = ExtractUserKey smallest; hi = ExtractUserKey largest; v = md_current db; base = vs_base_level v
      in if picker_overlap c db lo hi base then 0
         else if \<exists>l \<in> set [0..<Suc base].
                OverlapInLevel (zc_ucmp c) v l (Some lo) (Some hi) \<or>
                (\<exists>x \<in> set (md_batch db). mo_level x = l \<and>
                   zc_ucmp c hi (fm_lo (mo_meta x)) \<ge> 0 \<and> zc_ucmp c (fm_hi (mo_meta x)) lo \<ge> 0)
              then 0
         else base)"

definition outputs_overlap :: "comparator \<Rightarrow> MaterializeOutput \<Rightarrow> MaterializeOutput \<Rightarrow> bool" where
  "outputs_overlap ucmp out0 x \<longleftrightarrow>
     ucmp (fm_lo (mo_meta out0)) (fm_hi (mo_meta x)) \<le> 0 \<and> ucmp (fm_lo (mo_meta x)) (fm_hi (mo_meta out0)) \<le> 0"

text \<open>A merged output: the level and the replaced files of its plan, and the earlier outputs of the
  batch it takes over.\<close>

definition finalize_merge :: "ZeroFlushContext \<Rightarrow> MatDb \<Rightarrow> PartitionPlan \<Rightarrow> Compaction \<Rightarrow> MaterializeOutput \<Rightarrow> MaterializeOutput \<times> MaterializeOutput list \<times> u64 list" where
  "finalize_merge c db plan cpn out0 =
     (let lv = cp_output_level cpn;
          out0 = (if picker_overlap c db (fm_lo (mo_meta out0)) (fm_hi (mo_meta out0)) lv
               then out0 \<lparr> mo_level := 0, mo_replaced_inputs := [], mo_replaced_file_numbers := [], mo_replaced_l0_file_numbers := [] \<rparr>
               else out0 \<lparr> mo_level := lv \<rparr>);
          out0 = out0 \<lparr> mo_replaced_inputs := pp_overlap plan, mo_rewritten_bytes := pp_overlap_bytes plan,
                  mo_replaced_file_numbers := mo_replaced_file_numbers out0 @ map fm_number (pp_overlap plan),
                  mo_replaced_l0_file_numbers := mo_replaced_l0_file_numbers out0 @ map fm_number (pp_l0_overlap plan) \<rparr>;
          hit = (\<lambda>x. \<not> mo_superseded x \<and> mo_level x = mo_level out0 \<and> outputs_overlap (zc_ucmp c) out0 x);
          hits = filter hit (md_batch db)
      in (out0 \<lparr> mo_replaced_file_numbers := remdups_adj (sort (mo_replaced_file_numbers out0 @ concat (map mo_replaced_file_numbers hits))) \<rparr>,
          map (\<lambda>x. if hit x then x \<lparr> mo_superseded := True \<rparr> else x) (md_batch db),
          map (\<lambda>x. fm_number (mo_meta x)) hits))"

definition finalize_output :: "ZeroFlushContext \<Rightarrow> ZfMaterializeJob \<Rightarrow> MatDb \<Rightarrow> MaterializeOutput \<Rightarrow> (ZfMaterializeJob \<times> MatDb) zf_result" where
  "finalize_output c j db out0 =
     (let plan = FindPlan (mj_plans j) (mo_part_id out0)
      in if mo_decision out0 = kMergeBase
         then case plan of
                None \<Rightarrow> Inl (CppException ''null plan'')
              | Some p \<Rightarrow>
                  (case pp_compaction p of
                     None \<Rightarrow> Inl (CppException ''null compaction'')
                   | Some cpn \<Rightarrow>
                       (case finalize_merge c db p cpn out0 of
                          (out1, batch, orphans) \<Rightarrow>
                            Inr (j \<lparr> mj_orphan_files := mj_orphan_files j @ orphans \<rparr>, db \<lparr> md_batch := batch @ [out1] \<rparr>)))
         else
          let out1 = (case plan of
                      Some p \<Rightarrow>
                        if pp_force_replace p
                        then out0 \<lparr> mo_level := pp_base_level p, mo_replaced_file_numbers := mo_replaced_file_numbers out0 @ map fm_number (pp_overlap p) \<rparr>
                        else out0 \<lparr> mo_level := PickInstallLevel c db (fm_smallest (mo_meta out0)) (fm_largest (mo_meta out0)) \<rparr>
                    | None \<Rightarrow> out0 \<lparr> mo_level := PickInstallLevel c db (fm_smallest (mo_meta out0)) (fm_largest (mo_meta out0)) \<rparr>)
          in Inr (j, db \<lparr> md_batch := md_batch db @ [out1] \<rparr>))"

fun finalize_loop :: "ZeroFlushContext \<Rightarrow> ZfMaterializeJob \<Rightarrow> MatDb \<Rightarrow> MaterializeOutput list \<Rightarrow> (ZfMaterializeJob \<times> MatDb) zf_result" where
  "finalize_loop c j db [] = Inr (j, db)"
| "finalize_loop c j db (out0 # outs) = res_bind (finalize_output c j db out0) (\<lambda>(j', db'). finalize_loop c j' db' outs)"

definition FinalizeLocked :: "ZeroFlushContext \<Rightarrow> ZfMaterializeJob \<Rightarrow> MatDb \<Rightarrow> (ZfMaterializeJob \<times> MatDb) zf_result" where
  "FinalizeLocked c j db =
     res_bind (finalize_loop c (j \<lparr> mj_outputs := [] \<rparr>) db (mj_outputs j)) (\<lambda>(j', db'). Inr (FinishPlansLocked j' db'))"

definition DrainOutputs :: "ZfMaterializeJob \<Rightarrow> MaterializeOutput list \<Rightarrow> ZfMaterializeJob \<times> MaterializeOutput list" where
  "DrainOutputs j out = (j \<lparr> mj_outputs := [] \<rparr>, out @ mj_outputs j)"

definition HandOffSkipped :: "ZeroFlushContext \<Rightarrow> u64 \<Rightarrow> ZfMaterializeJob \<Rightarrow> ZeroFlushContext" where
  "HandOffSkipped c now j =
     (if mj_skipped_gens j = [] then c else ctx_HandOffSkippedToRecovery c now (mj_epoch j) (mj_skipped_gens j))"

section \<open>The edit\<close>

text \<open>\<^verbatim>\<open>DeleteFileIfPresent\<close>: once for each number, at the level where the current version has the file.\<close>

definition DeleteFileIfPresent :: "VersionStorageInfo \<Rightarrow> u64 list \<times> VersionEdit \<Rightarrow> u64 \<Rightarrow> u64 list \<times> VersionEdit" where
  "DeleteFileIfPresent v st num =
     (case st of (deleted, edit) \<Rightarrow>
        if num \<in> set deleted then (deleted, edit)
        else (num # deleted,
              case GetFileLocation v num of
                None \<Rightarrow> edit
              | Some l \<Rightarrow> edit \<lparr> ve_deleted := ve_deleted edit @ [(l, num)] \<rparr>))"

definition install_output :: "VersionStorageInfo \<Rightarrow> u64 list \<times> VersionEdit \<Rightarrow> MaterializeOutput \<Rightarrow> u64 list \<times> VersionEdit" where
  "install_output v st out0 =
     (if mo_superseded out0 then st
      else case foldl (DeleteFileIfPresent v) st (mo_replaced_l0_file_numbers out0 @ mo_replaced_file_numbers out0) of
             (deleted, edit) \<Rightarrow> (deleted, edit \<lparr> ve_new_files := ve_new_files edit @ [(mo_level out0, mo_meta out0)] \<rparr>))"

definition install_edit :: "VersionStorageInfo \<Rightarrow> MaterializeOutput list \<Rightarrow> VersionEdit" where
  "install_edit v batch = snd (foldl (install_output v) ([], \<lparr> ve_deleted = [], ve_new_files = [] \<rparr>) batch)"

end
