(* ===== verification/ZfMaterializeProps.thy ===== *)
theory ZfMaterializeProps
  imports ZfMaterialize
begin

text \<open>
  The properties of planning and of the tables: every sealed generation is either a task or handed
  over, and the tables of a partition hold exactly the records of its generations. The lemmas
  include what the flush relies on: a released plan leaves no registration and no mark behind.
\<close>

section \<open>The plans\<close>

lemma with_range_simps [simp]:
  "pp_part_id (with_range t p) = pp_part_id p" "pp_decision (with_range t p) = pp_decision p"
  "pp_compaction (with_range t p) = pp_compaction p" "pp_force_replace (with_range t p) = pp_force_replace p"
  by (simp_all add: with_range_def split: option.splits)

lemma new_plan_simps [simp]:
  "pp_part_id (new_plan pid) = pid" "pp_decision (new_plan pid) = kDirect" "pp_compaction (new_plan pid) = None"
  "\<not> pp_force_replace (new_plan pid)"
  by (simp_all add: new_plan_def)

text \<open>What a step of the planning can do: a plan without a registration, or one registered merge of
  files that are not being compacted.\<close>

definition plain_step :: "ZfMaterializeJob \<Rightarrow> MatDb \<Rightarrow> u32 \<Rightarrow> PartitionPlan \<times> ZfMaterializeJob \<times> MatDb \<Rightarrow> bool" where
  "plain_step j db pid r \<longleftrightarrow>
     (case r of (plan, j', db') \<Rightarrow> pp_part_id plan = pid \<and> pp_decision plan \<noteq> kMergeBase \<and> pp_compaction plan = None \<and> j' = j \<and> db' = db)"

lemma plain_step_simp [simp]:
  "plain_step j db pid (plan, j, db) \<longleftrightarrow> pp_part_id plan = pid \<and> pp_decision plan \<noteq> kMergeBase \<and> pp_compaction plan = None"
  by (simp add: plain_step_def)

definition merge_step :: "ZeroFlushContext \<Rightarrow> nat option \<Rightarrow> ZfMaterializeJob \<Rightarrow> MatDb \<Rightarrow> u32 \<Rightarrow> PartitionPlan \<times> ZfMaterializeJob \<times> MatDb \<Rightarrow> bool" where
  "merge_step c proximal j db pid r \<longleftrightarrow>
     (let plan = with_range (mj_table j) (new_plan pid);
          sr = scan_overlap (zc_ucmp c) (mj_batch_registered_files j) (pp_lo plan) (pp_hi plan) (LevelFiles (md_base db) (vs_base_level (md_base db)))
      in \<exists>l0. plan_l0 c j db plan (sr_bytes sr) = Inr l0 \<and> md_picker db \<noteq> None \<and>
           r = register_merge c proximal j db (plan \<lparr> pp_l0_overlap := l0 \<rparr>) sr
             (find_last_batch (zc_ucmp c) (vs_base_level (md_base db)) (pp_lo plan) (pp_hi plan) (md_batch db)))"

lemma plan_l0_not_merge: "plan_l0 c j db plan n = Inl d \<Longrightarrow> d \<noteq> kMergeBase"
  by (auto simp: plan_l0_def shadow_wait_def Let_def split: prod.splits if_splits)

lemma plan_merge_step: "plain_step j db pid (plan_merge c proximal j db pid) \<or> merge_step c proximal j db pid (plan_merge c proximal j db pid)"
proof -
  define plan where "plan = with_range (mj_table j) (new_plan pid)"
  define sr where "sr = scan_overlap (zc_ucmp c) (mj_batch_registered_files j) (pp_lo plan) (pp_hi plan) (LevelFiles (md_base db) (vs_base_level (md_base db)))"
  have plain: "pp_part_id plan = pid" "pp_decision plan = kDirect" "pp_compaction plan = None" by (simp_all add: plan_def)
  show ?thesis
  proof (cases "plan_l0 c j db plan (sr_bytes sr)")
    case (Inl d)
    then show ?thesis
      using plain plan_l0_not_merge [OF Inl] unfolding plan_merge_def Let_def plan_def [symmetric] sr_def [symmetric] by simp
  next
    case (Inr l0)
    then show ?thesis
      unfolding plan_merge_def merge_step_def Let_def plan_def [symmetric] sr_def [symmetric]
      by (simp add: plain split: if_split)
  qed
qed

lemma register_merge_frame:
  assumes "register_merge c proximal j db plan sr last_batch = (plan', j', db')"
  shows "pp_part_id plan' = pp_part_id plan" "mj_plans j' = mj_plans j" "mj_se j' = mj_se j" "mj_part_ids j' = mj_part_ids j"
    "mj_table j' = mj_table j" "mj_skipped_gens j' = mj_skipped_gens j" "mj_outputs j' = mj_outputs j" "md_batch db' = md_batch db"
  using assms by (auto simp: register_merge_def Let_def mark_db_def split: if_splits)

lemma plan_merge_frame:
  assumes "plan_merge c proximal j db pid = (plan, j', db')"
  shows "pp_part_id plan = pid" "mj_plans j' = mj_plans j" "mj_se j' = mj_se j" "mj_part_ids j' = mj_part_ids j"
    "mj_table j' = mj_table j" "mj_skipped_gens j' = mj_skipped_gens j" "mj_outputs j' = mj_outputs j" "md_batch db' = md_batch db"
proof -
  consider "plain_step j db pid (plan, j', db')" | "merge_step c proximal j db pid (plan, j', db')"
    using plan_merge_step [of j db pid c proximal] assms by auto
  then have "pp_part_id plan = pid \<and> mj_plans j' = mj_plans j \<and> mj_se j' = mj_se j \<and> mj_part_ids j' = mj_part_ids j \<and>
    mj_table j' = mj_table j \<and> mj_skipped_gens j' = mj_skipped_gens j \<and> mj_outputs j' = mj_outputs j \<and> md_batch db' = md_batch db"
  proof cases
    case 1
    then show ?thesis by (simp add: plain_step_def)
  next
    case 2
    then show ?thesis using register_merge_frame [OF sym] by (auto simp: merge_step_def Let_def)
  qed
  then show "pp_part_id plan = pid" "mj_plans j' = mj_plans j" "mj_se j' = mj_se j" "mj_part_ids j' = mj_part_ids j"
    "mj_table j' = mj_table j" "mj_skipped_gens j' = mj_skipped_gens j" "mj_outputs j' = mj_outputs j" "md_batch db' = md_batch db" by simp_all
qed

lemma plan_no_merge_id: "pp_part_id (plan_no_merge c j db pid) = pid" "pp_decision (plan_no_merge c j db pid) \<in> {kDirect, kSkip}"
  "pp_compaction (plan_no_merge c j db pid) = None"
  by (simp_all add: plan_no_merge_def Let_def)

lemma plan_partition_frame:
  assumes "plan_partition c proximal j db pid = (plan, j', db')"
  shows "pp_part_id plan = pid" "mj_plans j' = mj_plans j" "mj_se j' = mj_se j" "mj_part_ids j' = mj_part_ids j"
    "mj_table j' = mj_table j" "mj_skipped_gens j' = mj_skipped_gens j" "mj_outputs j' = mj_outputs j" "md_batch db' = md_batch db"
  using assms plan_merge_frame [of c proximal j db pid plan j' db']
  by (auto simp: plan_partition_def plan_no_merge_id split: if_splits)

lemma plan_loop_frame:
  assumes "plan_loop c proximal j db pids = (j', db')"
  shows "map pp_part_id (mj_plans j') = map pp_part_id (mj_plans j) @ pids \<and> mj_se j' = mj_se j \<and> mj_part_ids j' = mj_part_ids j \<and>
    mj_table j' = mj_table j \<and> mj_skipped_gens j' = mj_skipped_gens j \<and> mj_outputs j' = mj_outputs j \<and> md_batch db' = md_batch db"
  using assms
proof (induction pids arbitrary: j db)
  case (Cons pid pids)
  obtain plan j1 db1 where p: "plan_partition c proximal j db pid = (plan, j1, db1)" by (cases "plan_partition c proximal j db pid") auto
  then have "plan_loop c proximal (j1 \<lparr> mj_plans := mj_plans j1 @ [plan] \<rparr>) db1 pids = (j', db')" using Cons.prems by simp
  from Cons.IH [OF this] plan_partition_frame [OF p] show ?case by simp
qed simp

definition job_ids :: "ZfMaterializeJob \<Rightarrow> u32 list" where
  "job_ids j = remdups_adj (sort (map fst (se_gens (mj_se j))))"

lemma strict_sorted_remdups_adj: "sorted xs \<Longrightarrow> sorted_wrt (<) (remdups_adj xs)" for xs :: "'a::linorder list"
  by (induction xs rule: remdups_adj.induct) (auto simp: order.strict_iff_order)

lemma job_ids: "set (job_ids j) = fst ` set (se_gens (mj_se j))" "sorted_wrt (<) (job_ids j)"
  by (simp_all add: job_ids_def strict_sorted_remdups_adj)

lemma PlanLocked_frame:
  assumes "PlanLocked c proximal j db = (j', db')"
  shows "map pp_part_id (mj_plans j') = job_ids j" "mj_part_ids j' = job_ids j" "mj_se j' = mj_se j" "mj_table j' = mj_table j"
    "mj_skipped_gens j' = mj_skipped_gens j @ skipped_of (mj_se j) (mj_plans j')" "md_batch db' = md_batch db" "mj_outputs j' = mj_outputs j"
proof -
  obtain j1 where p: "plan_loop c proximal (j \<lparr> mj_part_ids := job_ids j, mj_plans := [] \<rparr>) db (job_ids j) = (j1, db')"
    and j': "j' = j1 \<lparr> mj_skipped_gens := mj_skipped_gens j1 @ skipped_of (mj_se j1) (mj_plans j1) \<rparr>"
    using assms by (auto simp: PlanLocked_def Let_def job_ids_def split: prod.splits)
  from plan_loop_frame [OF p] j'
  show "map pp_part_id (mj_plans j') = job_ids j" "mj_part_ids j' = job_ids j" "mj_se j' = mj_se j" "mj_table j' = mj_table j"
    "mj_skipped_gens j' = mj_skipped_gens j @ skipped_of (mj_se j) (mj_plans j')" "md_batch db' = md_batch db" "mj_outputs j' = mj_outputs j"
    by simp_all
qed

lemma FindPlan_sorted:
  assumes "sorted_wrt (<) (map pp_part_id plans)"
  shows "FindPlan plans pid = Some p \<longleftrightarrow> p \<in> set plans \<and> pp_part_id p = pid"
proof -
  let ?lt = "\<lambda>p. pp_part_id p < pid" and ?i = "lower_bound (\<lambda>p. pp_part_id p < pid) plans"
  have mono: "\<forall>i j. i \<le> j \<and> j < length plans \<and> ?lt (plans ! j) \<longrightarrow> ?lt (plans ! i)"
  proof clarify
    fix i j assume ij: "i \<le> j" "j < length plans" "pp_part_id (plans ! j) < pid"
    show "pp_part_id (plans ! i) < pid"
    proof (cases "i = j")
      case False
      then have "pp_part_id (plans ! i) < pp_part_id (plans ! j)" using assms ij by (simp add: sorted_wrt_iff_nth_less)
      then show ?thesis using ij(3) by (rule less_trans)
    qed (use ij in simp)
  qed
  note lb = lower_bound_spec [OF mono]
  show ?thesis
  proof
    assume "p \<in> set plans \<and> pp_part_id p = pid"
    then obtain k where k: "k < length plans" "plans ! k = p" "pp_part_id p = pid" by (auto simp: in_set_conv_nth)
    have "?i \<le> k" using lb(2) k by (metis not_le order.irrefl)
    moreover have "\<not> ?i < k"
    proof
      assume "?i < k"
      then have "pp_part_id (plans ! ?i) < pid" using assms k by (auto simp: sorted_wrt_iff_nth_less)
      then show False using lb(3) \<open>?i < k\<close> k(1) by auto
    qed
    ultimately have "?i = k" by simp
    then show "FindPlan plans pid = Some p" using k by (simp add: FindPlan_def Let_def)
  next
    assume "FindPlan plans pid = Some p"
    then have "?i < length plans" "plans ! ?i = p" "pp_part_id p = pid" by (auto simp: FindPlan_def Let_def split: if_splits)
    then show "p \<in> set plans \<and> pp_part_id p = pid" using nth_mem by metis
  qed
qed

lemma plan_of_id:
  assumes "PlanLocked c proximal j db = (j', db')" "pid \<in> set (job_ids j)"
  shows "\<exists>p. FindPlan (mj_plans j') pid = Some p \<and> p \<in> set (mj_plans j') \<and> pp_part_id p = pid"
proof -
  note f = PlanLocked_frame [OF assms(1)]
  have "pid \<in> pp_part_id ` set (mj_plans j')" using assms(2) unfolding f(1) [symmetric] by simp
  then show ?thesis using FindPlan_sorted [of "mj_plans j'" pid] job_ids(2) [of j] f(1) by auto
qed

lemma skipped_of_iff:
  "g \<in> set (skipped_of se plans) \<longleftrightarrow> g \<in> set (se_gens se) \<and> (\<exists>p \<in> set plans. pp_decision p = kSkip \<and> pp_part_id p = fst g)"
  by (auto simp: skipped_of_def)

text \<open>C9: nothing sealed is forgotten. After the planning of an epoch every generation of the epoch
  is either among the generations that are handed over to the recovery set or belongs to a
  partition with a task, and never both; and nothing else is handed over.\<close>

theorem plan_covers_epoch:
  assumes "PlanLocked c proximal j db = (j', db')" "mj_skipped_gens j = []"
  shows "(\<forall>g \<in> set (se_gens (mj_se j)). g \<in> set (mj_skipped_gens j') \<longleftrightarrow> fst g \<notin> set (CollectTasks j')) \<and>
    set (mj_skipped_gens j') \<subseteq> set (se_gens (mj_se j)) \<and> distinct (CollectTasks j')"
proof (intro conjI ballI)
  note f = PlanLocked_frame [OF assms(1)]
  have skipped: "mj_skipped_gens j' = skipped_of (mj_se j) (mj_plans j')" using f(5) assms(2) by simp
  show "g \<in> set (mj_skipped_gens j') \<longleftrightarrow> fst g \<notin> set (CollectTasks j')" if g: "g \<in> set (se_gens (mj_se j))" for g
  proof -
    have id: "fst g \<in> set (job_ids j)" using g job_ids(1) by auto
    then obtain p where p: "FindPlan (mj_plans j') (fst g) = Some p" "p \<in> set (mj_plans j')" "pp_part_id p = fst g"
      using plan_of_id [OF assms(1)] by blast
    have uniq: "q = p" if "q \<in> set (mj_plans j')" "pp_part_id q = fst g" for q
      using FindPlan_sorted [of "mj_plans j'" "fst g" q] job_ids(2) [of j] f(1) p(1) that by auto
    have "g \<in> set (mj_skipped_gens j') \<longleftrightarrow> pp_decision p = kSkip"
      using g p(2,3) uniq unfolding skipped skipped_of_iff by blast
    then show ?thesis using id p(1) by (simp add: CollectTasks_def f(2))
  qed
  show "set (mj_skipped_gens j') \<subseteq> set (se_gens (mj_se j))" unfolding skipped using skipped_of_iff by blast
  show "distinct (CollectTasks j')" using job_ids(2) [of j] by (simp add: CollectTasks_def f(2) strict_sorted_iff)
qed

section \<open>Registrations are released\<close>

definition mark_file :: "bool \<Rightarrow> u64 list \<Rightarrow> FileMetaData \<Rightarrow> FileMetaData" where
  "mark_file b nums f = (if fm_number f \<in> set nums then f \<lparr> fm_being_compacted := b \<rparr> else f)"

lemma Mark_files: "MarkFilesBeingCompacted b nums v = v \<lparr> vs_files := map (map (mark_file b nums)) (vs_files v) \<rparr>"
  by (simp add: MarkFilesBeingCompacted_def mark_file_def [abs_def])

lemma mark_file_simps [simp]: "fm_number (mark_file b nums f) = fm_number f"
  "fm_being_compacted (mark_file b nums f) = (if fm_number f \<in> set nums then b else fm_being_compacted f)"
  by (simp_all add: mark_file_def)

lemma mark_file_mark_file: "mark_file b ms (mark_file b ns f) = mark_file b (ns @ ms) f" "mark_file b [] = (\<lambda>f. f)"
  by (simp_all add: mark_file_def fun_eq_iff)

lemma mark_mark: "MarkFilesBeingCompacted b ms (MarkFilesBeingCompacted b ns v) = MarkFilesBeingCompacted b (ns @ ms) v"
  "MarkFilesBeingCompacted b [] v = v"
  by (simp_all add: Mark_files comp_def mark_file_mark_file)

definition version_files :: "VersionStorageInfo \<Rightarrow> FileMetaData set" where
  "version_files v = (\<Union>fs \<in> set (vs_files v). set fs)"

lemma unmark_mark:
  assumes "\<forall>f \<in> version_files v. fm_number f \<in> set nums \<longrightarrow> \<not> fm_being_compacted f"
  shows "MarkFilesBeingCompacted False nums (MarkFilesBeingCompacted True nums v) = v"
proof -
  have "mark_file False nums (mark_file True nums f) = f" if "fm_number f \<in> set nums \<longrightarrow> \<not> fm_being_compacted f" for f
    using that by (cases f) (auto simp: mark_file_def)
  then have "map (map (mark_file False nums \<circ> mark_file True nums)) (vs_files v) = vs_files v"
    using assms by (intro map_idI) (auto simp: version_files_def)
  then show ?thesis by (simp add: Mark_files comp_def)
qed

lemma LevelFiles_mark: "LevelFiles (MarkFilesBeingCompacted b nums v) l = map (mark_file b nums) (LevelFiles v l)"
  by (simp add: LevelFiles_def Mark_files)

lemma LevelFiles_version: "f \<in> set (LevelFiles v l) \<Longrightarrow> f \<in> version_files v"
  by (auto simp: LevelFiles_def version_files_def split: if_splits)

lemma marked_free:
  assumes "f \<in> version_files (MarkFilesBeingCompacted True nums v)" "\<not> fm_being_compacted f"
  shows "f \<in> version_files v"
  using assms by (auto simp: version_files_def Mark_files mark_file_def split: if_splits)

lemma scan_overlap_free:
  assumes "\<forall>f \<in> set (sr_out r). f \<in> S \<and> \<not> fm_being_compacted f" "set files \<subseteq> S"
  shows "\<forall>f \<in> set (sr_out (scan_overlap_loop ucmp reg lo hi r files)). f \<in> S \<and> \<not> fm_being_compacted f"
  using assms
proof (induction files arbitrary: r)
  case (Cons f fs)
  let ?P = "\<lambda>r. \<forall>f \<in> set (sr_out r). f \<in> S \<and> \<not> fm_being_compacted f" and ?loop = "\<lambda>r. scan_overlap_loop ucmp reg lo hi r fs"
  define r1 where "r1 = (if ucmp (fm_lo f) lo < 0 \<or> ucmp (fm_hi f) hi \<ge> 0 then r \<lparr> sr_has_oob := True \<rparr> else r)"
  have "sr_out r1 = sr_out r" by (simp add: r1_def)
  then have r1: "?P r1" using Cons.prems(1) by simp
  have loop: "?P (?loop r')" if "?P r'" for r' using Cons.IH [OF that] Cons.prems(2) by simp
  have eq: "scan_overlap_loop ucmp reg lo hi r (f # fs) =
      (if ucmp (fm_hi f) lo < 0 \<or> ucmp (fm_lo f) hi \<ge> 0 then ?loop r
       else if fm_being_compacted f
       then if fm_number f \<in> set reg then ?loop (r1 \<lparr> sr_batch_skipped := True \<rparr>) else r1 \<lparr> sr_ok := False \<rparr>
       else ?loop (r1 \<lparr> sr_out := sr_out r1 @ [f], sr_bytes := sr_bytes r1 + fm_file_size f \<rparr>))"
    by (simp only: scan_overlap_loop.simps Let_def r1_def)
  consider "scan_overlap_loop ucmp reg lo hi r (f # fs) = ?loop r"
    | "scan_overlap_loop ucmp reg lo hi r (f # fs) = ?loop (r1 \<lparr> sr_batch_skipped := True \<rparr>)"
    | "scan_overlap_loop ucmp reg lo hi r (f # fs) = r1 \<lparr> sr_ok := False \<rparr>"
    | "\<not> fm_being_compacted f" "scan_overlap_loop ucmp reg lo hi r (f # fs) = ?loop (r1 \<lparr> sr_out := sr_out r1 @ [f], sr_bytes := sr_bytes r1 + fm_file_size f \<rparr>)"
    unfolding eq by metis
  then show ?case
  proof cases
    case 1
    then show ?thesis using loop [OF Cons.prems(1)] by (simp only:)
  next
    case 2
    have "?P (r1 \<lparr> sr_batch_skipped := True \<rparr>)" using r1 by simp
    from loop [OF this] 2 show ?thesis by (simp only:)
  next
    case 3
    then show ?thesis using r1 by (simp only: ScanResult.simps) simp
  next
    case 4
    have "?P (r1 \<lparr> sr_out := sr_out r1 @ [f], sr_bytes := sr_bytes r1 + fm_file_size f \<rparr>)" using r1 4(1) Cons.prems(2) by simp
    from loop [OF this] 4(2) show ?thesis by (simp only:)
  qed
qed simp

lemma l0_scan_free: "f \<in> set (fst (l0_scan ucmp lo hi files)) \<Longrightarrow> f \<in> set files \<and> \<not> fm_being_compacted f"
  by (induction files) (auto split: if_splits prod.splits)

lemma plan_l0_free:
  assumes "plan_l0 c j db plan n = Inr l0" "f \<in> set l0"
  shows "f \<in> version_files (md_base db) \<and> \<not> fm_being_compacted f"
proof -
  obtain out busy where sc: "l0_scan (zc_ucmp c) (pp_lo plan) (pp_hi plan) (upper_files (md_base db)) = (out, busy)" by (meson surj_pair)
  then have "l0 = out" using assms(1) by (simp add: plan_l0_def Let_def split: if_split_asm)
  then have "l0 = fst (l0_scan (zc_ucmp c) (pp_lo plan) (pp_hi plan) (upper_files (md_base db)))" using sc by simp
  then have "f \<in> set (upper_files (md_base db))" "\<not> fm_being_compacted f" using l0_scan_free assms(2) by blast+
  then show ?thesis by (auto simp: upper_files_def dest: LevelFiles_version)
qed

definition plan_comps :: "PartitionPlan list \<Rightarrow> Compaction list" where
  "plan_comps ps = concat (map (\<lambda>p. if pp_decision p = kMergeBase then (case pp_compaction p of None \<Rightarrow> [] | Some cpn \<Rightarrow> [cpn]) else []) ps)"

lemma plan_comps_simps [simp]: "plan_comps [] = []" "plan_comps (ps @ qs) = plan_comps ps @ plan_comps qs"
  "plan_comps (p # ps) = (if pp_decision p = kMergeBase then (case pp_compaction p of None \<Rightarrow> [] | Some cpn \<Rightarrow> [cpn]) else []) @ plan_comps ps"
  by (simp_all add: plan_comps_def)

lemma plan_comps_mem: "p \<in> set ps \<Longrightarrow> pp_decision p = kMergeBase \<Longrightarrow> pp_compaction p = Some cpn \<Longrightarrow> cpn \<in> set (plan_comps ps)"
  by (force simp: plan_comps_def)

text \<open>The state while planning: the compactions of the plans are registered on top of the picker's, and
  exactly their files, free before, are marked.\<close>

definition planning :: "MatDb \<Rightarrow> ZfMaterializeJob \<Rightarrow> MatDb \<Rightarrow> bool" where
  "planning db0 j db \<longleftrightarrow>
     (let cs = plan_comps (mj_plans j); nums = concat (map input_numbers cs)
      in md_picker db = map_option (\<lambda>p. p \<lparr> cpk_level0 := rev cs @ cpk_level0 p, cpk_in_progress := rev cs @ cpk_in_progress p \<rparr>) (md_picker db0) \<and>
         md_base db = MarkFilesBeingCompacted True nums (md_base db0) \<and> md_current db = MarkFilesBeingCompacted True nums (md_current db0) \<and>
         (\<forall>f \<in> version_files (md_base db0) \<union> version_files (md_current db0). fm_number f \<in> set nums \<longrightarrow> \<not> fm_being_compacted f) \<and>
         (\<forall>cpn \<in> set cs. cp_start_level cpn = 0 \<and> md_next_id db0 \<le> cp_id cpn) \<and> md_next_id db0 \<le> md_next_id db \<and> md_batch db = [])"

definition flags_agree :: "MatDb \<Rightarrow> bool" where
  "flags_agree db \<longleftrightarrow>
     (\<forall>f \<in> version_files (md_base db) \<union> version_files (md_current db). \<forall>g \<in> version_files (md_base db) \<union> version_files (md_current db).
        fm_number f = fm_number g \<longrightarrow> fm_being_compacted f = fm_being_compacted g)"

lemma plain_planning:
  assumes "planning db0 j db" "plain_step j db pid (plan, j', db')"
  shows "planning db0 (j' \<lparr> mj_plans := mj_plans j' @ [plan] \<rparr>) db'"
  using assms by (simp add: planning_def plain_step_def)

lemma merge_planning:
  assumes inv: "planning db0 j db" and agree: "flags_agree db0" and step: "merge_step c None j db pid (plan, j', db')"
  shows "planning db0 (j' \<lparr> mj_plans := mj_plans j' @ [plan] \<rparr>) db'"
proof -
  define plan0 where "plan0 = with_range (mj_table j) (new_plan pid)"
  define sr where "sr = scan_overlap (zc_ucmp c) (mj_batch_registered_files j) (pp_lo plan0) (pp_hi plan0) (LevelFiles (md_base db) (vs_base_level (md_base db)))"
  have batch: "md_batch db = []" using inv by (simp add: planning_def Let_def)
  obtain l0 where l0: "plan_l0 c j db plan0 (sr_bytes sr) = Inr l0"
    and reg: "(plan, j', db') = register_merge c None j db (plan0 \<lparr> pp_l0_overlap := l0 \<rparr>) sr None"
    using step unfolding merge_step_def Let_def plan0_def [symmetric] sr_def [symmetric] by (auto simp: batch find_last_batch_def)
  define cpn where "cpn = new_Compaction (zc_ucmp c) (md_next_id db) (vs_base_level (md_base db)) [(0, l0), (vs_base_level (md_base db), sr_out sr)] None"
  have cpn: "cp_id cpn = md_next_id db" "cp_start_level cpn = 0" "input_numbers cpn = map fm_number (l0 @ sr_out sr)"
    by (simp_all add: cpn_def new_Compaction_def input_numbers_def Let_def split: prod.splits)
  have plan: "pp_decision plan = kMergeBase" "pp_compaction plan = Some cpn" "mj_plans j' = mj_plans j"
    and db': "md_picker db' = map_option (RegisterCompaction cpn) (md_picker db)" "md_base db' = MarkFilesBeingCompacted True (input_numbers cpn) (md_base db)"
    "md_current db' = MarkFilesBeingCompacted True (input_numbers cpn) (md_current db)" "md_next_id db' = Suc (md_next_id db)" "md_batch db' = []"
    using reg by (simp_all add: register_merge_def Let_def mark_db_def b_side_def cpn_def batch)
  define cs where "cs = plan_comps (mj_plans j)"
  define nums where "nums = concat (map input_numbers cs)"
  have inv': "md_picker db = map_option (\<lambda>p. p \<lparr> cpk_level0 := rev cs @ cpk_level0 p, cpk_in_progress := rev cs @ cpk_in_progress p \<rparr>) (md_picker db0)"
    "md_base db = MarkFilesBeingCompacted True nums (md_base db0)" "md_current db = MarkFilesBeingCompacted True nums (md_current db0)"
    "\<forall>f \<in> version_files (md_base db0) \<union> version_files (md_current db0). fm_number f \<in> set nums \<longrightarrow> \<not> fm_being_compacted f"
    "\<forall>cpn \<in> set cs. cp_start_level cpn = 0 \<and> md_next_id db0 \<le> cp_id cpn" "md_next_id db0 \<le> md_next_id db"
    using inv by (simp_all add: planning_def Let_def cs_def nums_def)
  have "set (LevelFiles (md_base db) l) \<subseteq> version_files (md_base db)" for l using LevelFiles_version by blast
  then have "\<forall>f \<in> set (sr_out sr). f \<in> version_files (md_base db) \<and> \<not> fm_being_compacted f"
    unfolding sr_def scan_overlap_def by (intro scan_overlap_free) auto
  then have free: "f \<in> version_files (md_base db0) \<and> \<not> fm_being_compacted f" if "f \<in> set (l0 @ sr_out sr)" for f
    using that plan_l0_free [OF l0, of f] marked_free [of f nums "md_base db0"] inv'(2) by auto
  have "\<not> fm_being_compacted f" if f: "f \<in> version_files (md_base db0) \<union> version_files (md_current db0)" "fm_number f \<in> set (input_numbers cpn)" for f
  proof -
    obtain g where "g \<in> set (l0 @ sr_out sr)" "fm_number f = fm_number g" using f(2) unfolding cpn(3) by auto
    then show ?thesis using free [of g] agree f(1) unfolding flags_agree_def by blast
  qed
  then have "\<forall>f \<in> version_files (md_base db0) \<union> version_files (md_current db0). fm_number f \<in> set (nums @ input_numbers cpn) \<longrightarrow> \<not> fm_being_compacted f"
    using inv'(4) by auto
  moreover have "md_picker db' = map_option (\<lambda>p. p \<lparr> cpk_level0 := rev (cs @ [cpn]) @ cpk_level0 p,
      cpk_in_progress := rev (cs @ [cpn]) @ cpk_in_progress p \<rparr>) (md_picker db0)"
    unfolding db'(1) inv'(1) option.map_comp by (rule option.map_cong0) (simp add: RegisterCompaction_def cpn(2))
  moreover have "md_base db' = MarkFilesBeingCompacted True (nums @ input_numbers cpn) (md_base db0)"
    "md_current db' = MarkFilesBeingCompacted True (nums @ input_numbers cpn) (md_current db0)"
    unfolding db'(2,3) inv'(2,3) by (rule mark_mark)+
  moreover have "plan_comps (mj_plans j' @ [plan]) = cs @ [cpn]" using plan by (simp add: cs_def)
  ultimately show ?thesis
    using inv'(5,6) cpn(1,2) db'(4,5) by (simp add: planning_def Let_def nums_def)
qed

lemma plan_loop_planning:
  assumes "planning db0 j db" "flags_agree db0" "plan_loop c None j db pids = (j', db')"
  shows "planning db0 j' db'"
  using assms(1,3)
proof (induction pids arbitrary: j db)
  case (Cons pid pids)
  obtain plan j1 db1 where p: "plan_partition c None j db pid = (plan, j1, db1)" by (cases "plan_partition c None j db pid") auto
  have "plain_step j db pid (plan, j1, db1) \<or> merge_step c None j db pid (plan, j1, db1)"
  proof (cases "merge_enabled c j")
    case True
    then show ?thesis using p plan_merge_step [of j db pid c None] by (simp add: plan_partition_def)
  next
    case False
    then show ?thesis using p plan_no_merge_id [of c j db pid] by (auto simp: plan_partition_def plain_step_def)
  qed
  then have "planning db0 (j1 \<lparr> mj_plans := mj_plans j1 @ [plan] \<rparr>) db1"
    using plain_planning [OF Cons.prems(1)] merge_planning [OF Cons.prems(1) assms(2)] by blast
  then show ?case using Cons.IH Cons.prems(2) p by simp
qed simp

text \<open>Releasing plans undoes their compactions, one after the other.\<close>

lemma release_plans_effect:
  assumes "release_plans ps db = (ps', db')" "\<forall>cpn \<in> set (plan_comps ps). cp_start_level cpn = 0"
  shows "md_picker db' = map_option (\<lambda>p. p \<lparr> cpk_level0 := filter (\<lambda>x. cp_id x \<notin> cp_id ` set (plan_comps ps)) (cpk_level0 p),
      cpk_in_progress := filter (\<lambda>x. cp_id x \<notin> cp_id ` set (plan_comps ps)) (cpk_in_progress p) \<rparr>) (md_picker db) \<and>
    md_base db' = MarkFilesBeingCompacted False (concat (map input_numbers (plan_comps ps))) (md_base db) \<and>
    md_current db' = MarkFilesBeingCompacted False (concat (map input_numbers (plan_comps ps))) (md_current db) \<and>
    md_batch db' = md_batch db \<and> plan_comps ps' = [] \<and> map pp_part_id ps' = map pp_part_id ps"
  using assms
proof (induction ps arbitrary: db ps')
  case Nil
  then show ?case by (simp add: mark_mark option.map_ident)
next
  case (Cons p ps)
  obtain p1 db1 where r1: "release_plan p db = (p1, db1)" by (cases "release_plan p db")
  obtain ps1 where r2: "release_plans ps db1 = (ps1, db')" "ps' = p1 # ps1" using Cons.prems(1) r1 by (auto split: prod.splits)
  note IH = Cons.IH [OF r2(1)]
  show ?case
  proof (cases "pp_decision p = kMergeBase \<and> pp_compaction p \<noteq> None")
    case True
    then obtain cpn where cpn: "pp_compaction p = Some cpn" by blast
    have s0: "cp_start_level cpn = 0" using Cons.prems(2) True cpn by simp
    have db1: "md_picker db1 = map_option (UnregisterCompaction cpn) (md_picker db)" "md_base db1 = MarkFilesBeingCompacted False (input_numbers cpn) (md_base db)"
      "md_current db1 = MarkFilesBeingCompacted False (input_numbers cpn) (md_current db)" "md_batch db1 = md_batch db"
      "pp_decision p1 = kDirect" "pp_part_id p1 = pp_part_id p"
      using r1 True cpn by (auto simp: release_plan_def mark_db_def)
    have pc: "plan_comps (p # ps) = cpn # plan_comps ps" using True cpn by simp
    have start: "\<forall>cpn \<in> set (plan_comps ps). cp_start_level cpn = 0" using Cons.prems(2) unfolding pc by simp
    show ?thesis
      using IH [OF start] unfolding pc db1 r2(2)
      by (simp add: mark_mark option.map_comp comp_def UnregisterCompaction_def s0 db1)
  next
    case False
    then have same: "p1 = p" "db1 = db" using r1 by (auto simp: release_plan_def split: MaterializeDecision.splits option.splits)
    have pc: "plan_comps (p # ps) = plan_comps ps" "plan_comps [p] = []" using False by (auto split: option.splits)
    show ?thesis using IH Cons.prems(2) unfolding pc same r2(2) using pc by auto
  qed
qed

lemma filter_foreign:
  assumes "\<forall>x \<in> set xs. cp_id x < n" "\<forall>cpn \<in> set cs. n \<le> cp_id cpn"
  shows "filter (\<lambda>x. cp_id x \<notin> cp_id ` set cs) (rev cs @ xs) = xs"
proof -
  have "filter (\<lambda>x. cp_id x \<notin> cp_id ` set cs) xs = xs" using assms by (fastforce simp: filter_id_conv)
  moreover have "filter (\<lambda>x. cp_id x \<notin> cp_id ` set cs) (rev cs) = []" by (simp add: filter_empty_conv)
  ultimately show ?thesis by simp
qed

definition picker_ids_below :: "MatDb \<Rightarrow> bool" where
  "picker_ids_below db \<longleftrightarrow>
     (\<forall>p cpn. md_picker db = Some p \<and> cpn \<in> set (cpk_in_progress p) \<union> set (cpk_level0 p) \<longrightarrow> cp_id cpn < md_next_id db)"

lemma release_restores:
  assumes "planning db0 j db" "picker_ids_below db0" "release_plans (mj_plans j) db = (ps, db2)"
  shows "md_picker db2 = md_picker db0 \<and> md_base db2 = md_base db0 \<and> md_current db2 = md_current db0 \<and> md_batch db2 = [] \<and>
    (\<forall>p \<in> set ps. pp_decision p = kMergeBase \<longrightarrow> pp_compaction p = None)"
proof -
  define cs where "cs = plan_comps (mj_plans j)"
  have inv: "md_picker db = map_option (\<lambda>p. p \<lparr> cpk_level0 := rev cs @ cpk_level0 p, cpk_in_progress := rev cs @ cpk_in_progress p \<rparr>) (md_picker db0)"
    "md_base db = MarkFilesBeingCompacted True (concat (map input_numbers cs)) (md_base db0)"
    "md_current db = MarkFilesBeingCompacted True (concat (map input_numbers cs)) (md_current db0)"
    "\<forall>f \<in> version_files (md_base db0) \<union> version_files (md_current db0). fm_number f \<in> set (concat (map input_numbers cs)) \<longrightarrow> \<not> fm_being_compacted f"
    "md_batch db = []"
    and start: "\<forall>cpn \<in> set cs. cp_start_level cpn = 0" and ids: "\<forall>cpn \<in> set cs. md_next_id db0 \<le> cp_id cpn"
    using assms(1) by (simp_all add: planning_def Let_def cs_def)
  have eff: "md_picker db2 = map_option (\<lambda>p. p \<lparr> cpk_level0 := filter (\<lambda>x. cp_id x \<notin> cp_id ` set cs) (cpk_level0 p),
      cpk_in_progress := filter (\<lambda>x. cp_id x \<notin> cp_id ` set cs) (cpk_in_progress p) \<rparr>) (md_picker db) \<and>
    md_base db2 = MarkFilesBeingCompacted False (concat (map input_numbers cs)) (md_base db) \<and>
    md_current db2 = MarkFilesBeingCompacted False (concat (map input_numbers cs)) (md_current db) \<and>
    md_batch db2 = md_batch db \<and> plan_comps ps = [] \<and> map pp_part_id ps = map pp_part_id (mj_plans j)"
    using release_plans_effect [OF assms(3)] start unfolding cs_def by blast
  have "md_picker db2 = md_picker db0"
  proof (cases "md_picker db0")
    case (Some p)
    then have "\<forall>x \<in> set (cpk_level0 p). cp_id x < md_next_id db0" "\<forall>x \<in> set (cpk_in_progress p). cp_id x < md_next_id db0"
      using assms(2) by (auto simp: picker_ids_below_def)
    then show ?thesis using eff inv(1) Some filter_foreign [OF _ ids] by simp
  qed (use eff inv(1) in simp)
  moreover have "md_base db2 = md_base db0" "md_current db2 = md_current db0" "md_batch db2 = []"
    using eff inv(2-5) by (simp_all add: unmark_mark)
  moreover have "pp_compaction p = None" if "p \<in> set ps" "pp_decision p = kMergeBase" for p
    using eff plan_comps_mem [OF that] by (cases "pp_compaction p") auto
  ultimately show ?thesis by blast
qed

lemma PlanLocked_planning:
  assumes "PlanLocked c None j db = (j1, db1)" "md_batch db = []" "flags_agree db"
  shows "planning db j1 db1"
proof -
  obtain j0 where p: "plan_loop c None (j \<lparr> mj_part_ids := job_ids j, mj_plans := [] \<rparr>) db (job_ids j) = (j0, db1)" and j1: "mj_plans j1 = mj_plans j0"
    using assms(1) by (auto simp: PlanLocked_def Let_def job_ids_def split: prod.splits)
  have "planning db (j \<lparr> mj_part_ids := job_ids j, mj_plans := [] \<rparr>) db"
    using assms(2) by (simp add: planning_def mark_mark option.map_ident)
  from plan_loop_planning [OF this assms(3) p] show ?thesis by (simp add: planning_def j1)
qed

text \<open>A flush with one sealed generation of partition 0 and one file of the base level in its range.\<close>

definition sample_file :: "u64 \<Rightarrow> byte \<Rightarrow> byte \<Rightarrow> FileMetaData" where
  "sample_file n lo hi =
     \<lparr> fm_number = n, fm_file_size = 100, fm_smallest_seqno = 1, fm_largest_seqno = 2, fm_smallest = MakeInternalKey [lo] 1 kTypeValue,
       fm_largest = MakeInternalKey [hi] 2 kTypeValue, fm_being_compacted = False, fm_epoch_number = 1 \<rparr>"

definition sample_db :: MatDb where
  "sample_db =
     (let v = \<lparr> vs_files = [[], [sample_file 7 97 98]], vs_base_level = 1 \<rparr>
      in \<lparr> md_base = v, md_current = v, md_picker = Some \<lparr> cpk_in_progress = [], cpk_level0 = [] \<rparr>, md_next_id = 0, md_batch = [] \<rparr>)"

definition sample_job :: ZfMaterializeJob where
  "sample_job = new_ZfMaterializeJob 1
     \<lparr> se_epoch = 1, se_gens = [(0, 3)], se_total_bytes = 100, se_part_bytes = [(0, 100)], se_has_adopted_orphans = False,
       se_has_adopted_skips = False, se_sealed_at_micros = 0, se_table_version = 1 \<rparr>
     (Some \<lparr> t_version = 1, t_is_hash_mode = False, t_boundaries = [[109]], t_part_ids = [0, 1], t_ucmp = Some Slice_compare \<rparr>)"

definition sample_zf :: "bool \<Rightarrow> ZeroFlushContext" where
  "sample_zf merge =
     new_ZeroFlushContext (default_options \<lparr> zo_merge_into_base_level := merge \<rparr>) ''d''
       \<lparr> e_files = [], e_synced = [], e_fail = (\<lambda>_. False) \<rparr> Slice_compare []"

lemma sample_keys [simp]: "ExtractUserKey (fm_smallest (sample_file n lo hi)) = [lo]" "ExtractUserKey (fm_largest (sample_file n lo hi)) = [hi]"
  "fm_file_size (sample_file n lo hi) = 100" "\<not> fm_being_compacted (sample_file n lo hi)" "fm_number (sample_file n lo hi) = n"
  by (simp_all add: sample_file_def ExtractUserKey_def MakeInternalKey_def)

lemma sample_plan:
  assumes "zc_zfo c = default_options \<lparr> zo_merge_into_base_level := True \<rparr>" "zc_ucmp c = Slice_compare"
  shows "\<exists>j1 db1. PlanLocked c None sample_job sample_db = (j1, db1) \<and> md_picker db1 \<noteq> md_picker sample_db"
  by (simp add: PlanLocked_def assms sample_job_def new_ZfMaterializeJob_def Let_def plan_partition_def plan_merge_def merge_enabled_def
      default_options_def range_mode_def with_range_def new_plan_def RangeOf_def sample_db_def LevelFiles_def scan_overlap_def
      plan_l0_def upper_files_def picker_overlap_def RangeOverlapWithCompaction_def find_last_batch_def below_ratio_def sealed_of_def register_merge_def mark_db_def RegisterCompaction_def)

lemma sample_zf_simps: "zc_zfo (sample_zf m) = default_options \<lparr> zo_merge_into_base_level := m \<rparr>" "zc_ucmp (sample_zf m) = Slice_compare"
  by (simp_all add: sample_zf_def new_ZeroFlushContext_def)

theorem plan_covers_epoch_witness:
  "\<exists>j1 db1. PlanLocked (sample_zf True) None sample_job sample_db = (j1, db1) \<and> set (mj_skipped_gens j1) \<subseteq> {(0, 3)} \<and>
    ((0, 3) \<in> set (mj_skipped_gens j1) \<longleftrightarrow> 0 \<notin> set (CollectTasks j1))"
proof -
  obtain j1 db1 where p: "PlanLocked (sample_zf True) None sample_job sample_db = (j1, db1)" using sample_plan [of "sample_zf True"] by (auto simp: sample_zf_simps)
  have "mj_skipped_gens sample_job = []" "se_gens (mj_se sample_job) = [(0, 3)]" by (simp_all add: sample_job_def new_ZfMaterializeJob_def)
  with plan_covers_epoch [OF p] show ?thesis using p by auto
qed

section \<open>The tables of a partition\<close>

lemma takeWhile_drop: "takeWhile P xs @ drop (length (takeWhile P xs)) xs = xs"
  by (simp flip: dropWhile_eq_drop)

lemma concat_slice_kvs: "concat (slice_kvs ucmp his kvs) = kvs"
  by (induction his arbitrary: kvs) (simp_all add: Let_def takeWhile_drop)

lemma slice_kvs_nonempty: "[] \<notin> set (slice_kvs ucmp his kvs)"
  by (induction ucmp his kvs rule: slice_kvs.induct) (auto simp: Let_def)

definition between :: "comparator \<Rightarrow> bytes list \<Rightarrow> nat \<Rightarrow> bytes \<Rightarrow> bool" where
  "between ucmp bs p key \<longleftrightarrow> (p = 0 \<or> ucmp (bs ! (p - 1)) key \<le> 0) \<and> (p = length bs \<or> ucmp key (bs ! p) < 0)"

lemma slice_kvs_between:
  assumes "user_comparator ucmp" "sorted_wrt (\<lambda>a b. ucmp (ExtractUserKey (fst a)) (ExtractUserKey (fst b)) \<le> 0) kvs"
    "i \<le> length bs" "\<forall>kv \<in> set kvs. i = 0 \<or> ucmp (bs ! (i - 1)) (ExtractUserKey (fst kv)) \<le> 0" "sl \<in> set (slice_kvs ucmp (drop i bs @ [x]) kvs)"
  shows "\<exists>p \<le> length bs. \<forall>kv \<in> set sl. between ucmp bs p (ExtractUserKey (fst kv))"
  using assms(2-)
proof (induction "length bs - i" arbitrary: i kvs)
  case 0
  then have i: "i = length bs" by simp
  have "set sl \<subseteq> set kvs" using 0 by (auto simp: Let_def dest: set_takeWhileD in_set_dropD split: if_splits)
  then show ?case using 0 i by (intro exI [of _ i]) (auto simp: between_def)
next
  case (Suc n)
  then have i: "i < length bs" by simp
  let ?lt = "\<lambda>kv. ucmp (ExtractUserKey (fst kv)) (bs ! i) < 0"
  define k where "k = takeWhile ?lt kvs"
  have rest: "drop (length k) kvs = dropWhile ?lt kvs" by (simp add: k_def dropWhile_eq_drop)
  have d: "drop i bs = bs ! i # drop (Suc i) bs" using Cons_nth_drop_Suc [OF i] by simp
  have "sl = k \<and> k \<noteq> [] \<or> sl \<in> set (slice_kvs ucmp (drop (Suc i) bs @ [x]) (dropWhile ?lt kvs))"
    using Suc.prems(4) rest unfolding d by (auto simp: Let_def k_def split: if_splits)
  then show ?case
  proof
    assume "sl = k \<and> k \<noteq> []"
    then have "\<forall>kv \<in> set sl. between ucmp bs i (ExtractUserKey (fst kv))"
      using Suc.prems(3) by (auto simp: between_def k_def dest: set_takeWhileD)
    then show ?thesis using i by (intro exI [of _ i]) simp
  next
    assume sl: "sl \<in> set (slice_kvs ucmp (drop (Suc i) bs @ [x]) (dropWhile ?lt kvs))"
    let ?r = "dropWhile ?lt kvs"
    have srt: "sorted_wrt (\<lambda>a b. ucmp (ExtractUserKey (fst a)) (ExtractUserKey (fst b)) \<le> 0) ?r"
      using Suc.prems(1) by (simp flip: rest add: sorted_wrt_drop)
    have "ucmp (bs ! i) (ExtractUserKey (fst kv)) \<le> 0" if kv: "kv \<in> set ?r" for kv
    proof -
      obtain y ys where r: "?r = y # ys" using kv by (cases ?r) auto
      have "\<not> ?lt y" using hd_dropWhile [of ?lt kvs] r by simp
      then have "ucmp (bs ! i) (ExtractUserKey (fst y)) \<le> 0" using user_comparator.cmp_le_iff [OF assms(1)] by simp
      moreover have "ucmp (ExtractUserKey (fst y)) (ExtractUserKey (fst kv)) \<le> 0"
        using kv srt user_comparator.cmp_refl [OF assms(1)] unfolding r by auto
      ultimately show ?thesis by (rule user_comparator.cmp_trans [OF assms(1)])
    qed
    then show ?thesis using Suc.hyps(1) [OF _ srt _ _ sl] Suc.hyps(2) i by simp
  qed
qed

lemma user_sorted:
  "sorted_wrt (\<lambda>a b. Slice_compare (ExtractUserKey (fst a)) (ExtractUserKey (fst b)) \<le> 0)
     (sort_cmp (aside_cmp (InternalKeyCompare Slice_compare)) xs)"
  by (rule sorted_wrt_mono_rel [OF _ user_comparator.sorted_sort_cmp [OF aside_comparator [OF bytewise_key.ikey.user_comparator_axioms]]])
    (auto simp: aside_cmp_def intro: bytewise_key.icmp_user(1))

lemma build_tables_ok:
  assumes "\<And>i kvs. \<exists>m. build i kvs = Inr m \<and> fm_file_size m \<noteq> 0"
  shows "build_tables build i inputs = (Inr (), map2 (\<lambda>n kvs. new_output (projr (build n kvs))) [i..<i + length inputs] inputs)"
proof (induction inputs arbitrary: i)
  case (Cons kvs inputs)
  obtain m where "build i kvs = Inr m" "fm_file_size m \<noteq> 0" using assms by blast
  then show ?case using Cons [of "Suc i"] by (simp add: upt_conv_Cons del: upt_Suc)
qed simp

text \<open>C6: materialisation loses nothing and invents nothing. Under the bytewise comparator, with the
  sort assist on (the default) and without I/O failures, for sealed generations whose files and
  frozen indexes are complete, the materialisation of a partition without the device succeeds
  whenever the builder does, and the inputs of the tables it builds are, one after the other, all
  records of the generations in the order of the internal comparator. When it slices, the keys of
  every table belong to one partition of the table of ranges.\<close>

theorem materialized_tables:
  assumes "zo_materialize_sort_assist (zc_zfo c)" "\<not> zo_csd_materialize (zc_zfo c)" "zc_ucmp c = Slice_compare" "\<forall>op. \<not> e_fail (zc_env c) op"
    "\<forall>g \<in> set gs. gen_complete c g" "distinct (map (\<lambda>r. h_seq (fst r)) (concat (map snd gs)))"
    "\<forall>i kvs. \<exists>m. build i kvs = Inr m \<and> fm_file_size m \<noteq> 0"
    "se_table_version (mj_se j) > 0 \<or> \<not> range_mode (mj_table j)"
    "\<forall>t. slice_table c (mj_table j) = Some t \<longrightarrow> table_wf t \<and> (\<not> t_is_hash_mode t \<longrightarrow> t_ucmp t = Some Slice_compare)"
  shows "\<exists>inputs. MaterializePartition c j build csd pid (map fst gs) lo hi =
      Some (Inr (), map2 (\<lambda>i kvs. new_output (projr (build i kvs))) [0..<length inputs] inputs) \<and>
    concat inputs = sort_cmp (aside_cmp (InternalKeyCompare Slice_compare)) (map scanned_kv (concat (map snd gs))) \<and> [] \<notin> set inputs \<and>
    (do_slice c (mj_table j) lo hi (concat inputs) \<longrightarrow>
      (\<forall>kvs \<in> set inputs. \<exists>p. \<forall>kv \<in> set kvs. PT_Route (the (slice_table c (mj_table j))) (ExtractUserKey (fst kv)) = p))"
proof -
  define kvs where "kvs = sort_cmp (aside_cmp (InternalKeyCompare Slice_compare)) (map scanned_kv (concat (map snd gs)))"
  have inp: "partition_input c (map fst gs) = Some (Inr (kvs, True))"
    using aside_sorted_input [OF assms(1,3-6)] by (simp add: partition_input_def kvs_def)
  note ok = build_tables_ok [of build 0, simplified]
  have built: "build_tables build 0 inputs = (Inr (), map2 (\<lambda>n kvs. new_output (projr (build n kvs))) [0..<length inputs] inputs)" for inputs
    by (rule ok) (use assms(7) in blast)
  let ?inputs = "if kvs = [] then [] else table_inputs c (mj_table j) lo hi kvs"
  have conc: "concat ?inputs = kvs" by (simp add: table_inputs_def concat_slice_kvs)
  have "[] \<notin> set ?inputs" by (simp add: table_inputs_def slice_kvs_nonempty)
  moreover have "MaterializePartition c j build csd pid (map fst gs) lo hi =
      Some (Inr (), map2 (\<lambda>i kvs. new_output (projr (build i kvs))) [0..<length ?inputs] ?inputs)"
  proof (cases "kvs = []")
    case False
    have "vector_iterator (zc_ucmp c) True = (\<lambda>kvs. kvs)" by (simp add: vector_iterator_def fun_eq_iff)
    then show ?thesis
      using False inp assms(2,8) built [of "[kvs]"] built [of "table_inputs c (mj_table j) lo hi kvs"]
      by (auto simp: MaterializePartition_def table_inputs_def simp del: build_tables.simps)
  qed (simp add: MaterializePartition_def inp)
  moreover have "\<exists>p. \<forall>kv \<in> set sl. PT_Route (the (slice_table c (mj_table j))) (ExtractUserKey (fst kv)) = p"
    if sl: "do_slice c (mj_table j) lo hi kvs" "sl \<in> set ?inputs" for sl
  proof -
    obtain t where t: "slice_table c (mj_table j) = Some t" "\<not> t_is_hash_mode t" using sl(1) by (auto simp: do_slice_def split: option.splits)
    have wf: "table_wf t" "t_ucmp t = Some Slice_compare" using assms(9) t by auto
    have len: "length (t_part_ids t) = length (t_boundaries t) + 1" "length (t_part_ids t) < 2 ^ 32" using wf(1) t(2) by (auto simp: table_wf_def)
    have "unat (partitions t) = length (t_part_ids t)" using len(2) by (simp add: partitions_def unat_of_nat_small)
    then have "unat (partitions t) = length (t_boundaries t) + 1" using len(1) by simp
    then have "slice_bounds t = map (\<lambda>i. snd (RangeOf t i)) [0..<length (t_boundaries t)] @ [[]]"
      by (simp add: slice_bounds_def RangeOf_def)
    also have "map (\<lambda>i. snd (RangeOf t i)) [0..<length (t_boundaries t)] = drop 0 (t_boundaries t)"
      by (rule nth_equalityI) (simp_all add: RangeOf_def)
    finally have bounds: "slice_bounds t = drop 0 (t_boundaries t) @ [[]]" .
    have "sl \<in> set (slice_kvs Slice_compare (drop 0 (t_boundaries t) @ [[]]) kvs)"
      using sl t assms(3) unfolding bounds [symmetric] by (simp add: table_inputs_def split: if_splits)
    from slice_kvs_between [OF bytewise.user_comparator_axioms user_sorted [of "map scanned_kv (concat (map snd gs))", folded kvs_def] _ _ this]
    obtain p where p: "p \<le> length (t_boundaries t)" "\<forall>kv \<in> set sl. between Slice_compare (t_boundaries t) p (ExtractUserKey (fst kv))" by auto
    have "PT_Route t (ExtractUserKey (fst kv)) = of_nat p" if kv: "kv \<in> set sl" for kv
    proof -
      have "owns t p (ExtractUserKey (fst kv))" using p kv t(2) wf(2) by (auto simp: owns_def RangeOf_def between_def)
      then have "unat (PT_Route t (ExtractUserKey (fst kv))) = p" using tables.route_owner [OF wf(1)] p(1) len by simp
      then show ?thesis by (metis of_nat_unat ucast_id)
    qed
    then show ?thesis using t(1) by auto
  qed
  ultimately show ?thesis using conc unfolding kvs_def [symmetric] by (intro exI [of _ ?inputs]) metis
qed

theorem materialized_tables_witness:
  "\<exists>c (inputs :: kvs list). MaterializePartition c (new_ZfMaterializeJob 1 (mj_se sample_job) None) (\<lambda>i kvs. Inr (sample_file (of_nat i) 97 98)) (\<lambda>_. None) 0
      [(0, 5), (0, 6)] [] [] = Some (Inr (), map2 (\<lambda>i kvs. new_output (sample_file (of_nat i) 97 98)) [0..<length inputs] inputs) \<and>
    concat inputs = [(MakeInternalKey [97] 8 kTypeValue, [2]), (MakeInternalKey [98] 7 kTypeValue, [1])] \<and> [] \<notin> set inputs"
proof -
  let ?gs = "[((0, 5), [sample_rec 98 1 7]), ((0, 6), [sample_rec 97 2 8])]" and ?build = "\<lambda>i kvs. Inr (sample_file (of_nat i) 97 98)"
  let ?j = "new_ZfMaterializeJob 1 (mj_se sample_job) None"
  obtain c where c: "zc_ucmp c = Slice_compare" "\<forall>op. \<not> e_fail (zc_env c) op" "zc_zfo c = default_options" "zc_tables c = None"
    "\<forall>g \<in> set ?gs. gen_complete c g"
    using sample_complete by blast
  have "zo_materialize_sort_assist (zc_zfo c)" "\<not> zo_csd_materialize (zc_zfo c)" by (simp_all add: c(3) default_options_def)
  note th = materialized_tables [OF this c(1,2,5), of ?build ?j "\<lambda>_. None" 0 "[]" "[]"]
  have "distinct (map (\<lambda>r. h_seq (fst r)) (concat (map snd ?gs)))" by (simp add: sample_rec_def)
  moreover have "\<forall>t. slice_table c (mj_table ?j) = Some t \<longrightarrow> table_wf t \<and> (\<not> t_is_hash_mode t \<longrightarrow> t_ucmp t = Some Slice_compare)"
    by (simp add: new_ZfMaterializeJob_def slice_table_def range_mode_def current_table_def c(4))
  moreover have "\<not> range_mode (mj_table ?j)" by (simp add: new_ZfMaterializeJob_def range_mode_def)
  ultimately obtain inputs where "MaterializePartition c ?j ?build (\<lambda>_. None) 0 (map fst ?gs) [] [] =
      Some (Inr (), map2 (\<lambda>i kvs. new_output (projr (?build i kvs))) [0..<length inputs] inputs)" "[] \<notin> set inputs"
    "concat inputs = sort_cmp (aside_cmp (InternalKeyCompare Slice_compare)) (map scanned_kv (concat (map snd ?gs)))"
    using th by auto
  then show ?thesis using sample_sorted by (intro exI [of _ c] exI [of _ inputs]) simp
qed

end
