(* ===== verification/ZfInstall.thy ===== *)
theory ZfInstall
  imports ZfMaterializeProps
begin

text \<open>
  The installation of outputs without merging: the level chosen for each of them, the edit, and the
  version the edit gives. The result: every level of the new version passes the engine's
  consistency check, no file is lost and every output is installed.
\<close>

section \<open>The level\<close>

lemma PickInstallLevel_cases:
  assumes "user_key_comparator (zc_ucmp c)" "version_ok (zc_ucmp c) (md_current db)" "l = PickInstallLevel c db smallest largest" "l \<noteq> 0"
  shows "l = vs_base_level (md_current db)"
    and "f \<in> set (LevelFiles (md_current db) l) \<Longrightarrow> \<not> file_overlaps (zc_ucmp c) (ExtractUserKey smallest) (ExtractUserKey largest) f"
    and "x \<in> set (md_batch db) \<Longrightarrow> mo_level x = l \<Longrightarrow> \<not> file_overlaps (zc_ucmp c) (ExtractUserKey smallest) (ExtractUserKey largest) (mo_meta x)"
proof -
  let ?lo = "ExtractUserKey smallest" and ?hi = "ExtractUserKey largest" and ?base = "vs_base_level (md_current db)"
  have u: "user_comparator (zc_ucmp c)" using assms(1) by (simp add: user_key_comparator_def)
  note ov = user_key_comparator.OverlapInLevel_iff [OF assms(1,2)]
  have none: "\<not> (\<exists>k \<in> set [0..<Suc ?base]. OverlapInLevel (zc_ucmp c) (md_current db) k (Some ?lo) (Some ?hi) \<or>
      (\<exists>x \<in> set (md_batch db). mo_level x = k \<and> zc_ucmp c ?hi (fm_lo (mo_meta x)) \<ge> 0 \<and> zc_ucmp c (fm_hi (mo_meta x)) ?lo \<ge> 0))"
    and l: "l = ?base" using assms(3,4) by (auto simp: PickInstallLevel_def Let_def split: if_splits)
  show "l = ?base" by (rule l)
  have in_levels: "l \<in> set [0..<Suc ?base]" using l by simp
  show "\<not> file_overlaps (zc_ucmp c) ?lo ?hi f" if "f \<in> set (LevelFiles (md_current db) l)"
    using none in_levels that unfolding ov by blast
  show "\<not> file_overlaps (zc_ucmp c) ?lo ?hi (mo_meta x)" if "x \<in> set (md_batch db)" "mo_level x = l"
  proof
    assume "file_overlaps (zc_ucmp c) ?lo ?hi (mo_meta x)"
    then have "zc_ucmp c ?hi (fm_lo (mo_meta x)) \<ge> 0" "zc_ucmp c (fm_hi (mo_meta x)) ?lo \<ge> 0"
      using user_comparator.cmp_le_iff [OF u] by (auto simp: file_overlaps_def)
    then show False using none in_levels that by blast
  qed
qed

section \<open>The batch\<close>

text \<open>An output of \<^const>\<open>MaterializePartition\<close>: no merge, nothing replaced.\<close>

definition direct_output :: "comparator \<Rightarrow> MaterializeOutput \<Rightarrow> bool" where
  "direct_output ucmp out \<longleftrightarrow> mo_decision out \<noteq> kMergeBase \<and> \<not> mo_superseded out \<and> mo_replaced_file_numbers out = [] \<and>
     mo_replaced_l0_file_numbers out = [] \<and> file_ok ucmp (mo_meta out)"

definition level_added :: "MaterializeOutput list \<Rightarrow> nat \<Rightarrow> FileMetaData list" where
  "level_added batch l = map mo_meta (filter (\<lambda>x. mo_level x = l) batch)"

lemma level_added_simps [simp]: "level_added [] l = []" "level_added (xs @ ys) l = level_added xs l @ level_added ys l"
  "level_added (x # xs) l = (if mo_level x = l then mo_meta x # level_added xs l else level_added xs l)"
  by (simp_all add: level_added_def)

definition batch_apart :: "comparator \<Rightarrow> VersionStorageInfo \<Rightarrow> MaterializeOutput list \<Rightarrow> bool" where
  "batch_apart ucmp v batch \<longleftrightarrow>
     (\<forall>x \<in> set batch. direct_output ucmp x \<and> (mo_level x = 0 \<or> mo_level x = vs_base_level v)) \<and>
     (\<forall>l \<ge> 1. \<forall>a \<in> set (level_added batch l). \<forall>f \<in> set (LevelFiles v l @ level_added batch l). f \<noteq> a \<longrightarrow> files_apart ucmp f a)"

lemma files_apart_sym: "files_apart ucmp f g \<longleftrightarrow> files_apart ucmp g f"
  by (auto simp: files_apart_def)

lemma FindPlan_mem:
  assumes "FindPlan plans pid = Some p"
  shows "p \<in> set plans"
proof -
  let ?i = "lower_bound (\<lambda>p. pp_part_id p < pid) plans"
  have "?i < length plans" "plans ! ?i = p" using assms by (auto simp: FindPlan_def Let_def split: if_splits)
  then show ?thesis using nth_mem by metis
qed

lemma finalize_direct:
  assumes cmp: "user_key_comparator (zc_ucmp c)" and v: "version_ok (zc_ucmp c) (md_current db)" and out: "direct_output (zc_ucmp c) out"
    and plans: "\<forall>p \<in> set (mj_plans j). \<not> pp_force_replace p" and batch: "batch_apart (zc_ucmp c) (md_current db) (md_batch db)"
  shows "\<exists>l. finalize_output c j db out = Inr (j, db \<lparr> md_batch := md_batch db @ [out \<lparr> mo_level := l \<rparr>] \<rparr>) \<and>
    batch_apart (zc_ucmp c) (md_current db) (md_batch db @ [out \<lparr> mo_level := l \<rparr>])"
proof -
  let ?m = "mo_meta out" and ?ucmp = "zc_ucmp c"
  define l where "l = PickInstallLevel c db (fm_smallest ?m) (fm_largest ?m)"
  have "finalize_output c j db out = Inr (j, db \<lparr> md_batch := md_batch db @ [out \<lparr> mo_level := l \<rparr>] \<rparr>)"
    using out plans FindPlan_mem [of "mj_plans j" "mo_part_id out"]
    by (auto simp: finalize_output_def direct_output_def Let_def l_def split: option.splits)
  moreover have "batch_apart ?ucmp (md_current db) (md_batch db @ [out \<lparr> mo_level := l \<rparr>])"
  proof -
    have lv: "l = 0 \<or> l = vs_base_level (md_current db)"
      using PickInstallLevel_cases(1) [OF cmp v] l_def by blast
    have new: "files_apart ?ucmp f ?m" if "l \<noteq> 0" "f \<in> set (LevelFiles (md_current db) l @ level_added (md_batch db) l)" for f
    proof -
      note c = PickInstallLevel_cases [OF cmp v l_def that(1)]
      have "\<not> file_overlaps ?ucmp (fm_lo ?m) (fm_hi ?m) f" using that(2) c(2,3) by (auto simp: level_added_def)
      then show ?thesis by (rule user_key_comparator.apart_of_user [OF cmp]) simp_all
    qed
    have "files_apart ?ucmp f a"
      if k: "1 \<le> k" "a \<in> set (level_added (md_batch db @ [out \<lparr> mo_level := l \<rparr>]) k)"
        "f \<in> set (LevelFiles (md_current db) k @ level_added (md_batch db @ [out \<lparr> mo_level := l \<rparr>]) k)" "f \<noteq> a" for k a f
    proof (cases "k = l")
      case True
      have old: "files_apart ?ucmp f a" if "a \<in> set (level_added (md_batch db) l)" "f \<in> set (LevelFiles (md_current db) l @ level_added (md_batch db) l)"
        using batch that k(1,4) True unfolding batch_apart_def by blast
      have l0: "l \<noteq> 0" using k(1) True by simp
      consider "a = ?m" | "a \<in> set (level_added (md_batch db) l)" using k(2) True by auto
      then show ?thesis
      proof cases
        case 1
        then show ?thesis using new [OF l0, of f] k(3,4) True by auto
      next
        case 2
        have "files_apart ?ucmp a ?m" using new [OF l0, of a] 2 by simp
        then show ?thesis using old [OF 2] k(3) True files_apart_sym by auto
      qed
    next
      case False
      then have "a \<in> set (level_added (md_batch db) k)" "f \<in> set (LevelFiles (md_current db) k @ level_added (md_batch db) k)" using k(2,3) by auto
      then show ?thesis using batch k(1,4) unfolding batch_apart_def by blast
    qed
    moreover have "direct_output ?ucmp (out \<lparr> mo_level := l \<rparr>)" using out by (simp add: direct_output_def)
    ultimately show ?thesis using batch lv unfolding batch_apart_def by auto
  qed
  ultimately show ?thesis by blast
qed

lemma finalize_loop_direct:
  assumes cmp: "user_key_comparator (zc_ucmp c)" and v: "version_ok (zc_ucmp c) (md_current db)" and out: "\<forall>out \<in> set outs. direct_output (zc_ucmp c) out"
    and plans: "\<forall>p \<in> set (mj_plans j). \<not> pp_force_replace p" and batch: "batch_apart (zc_ucmp c) (md_current db) (md_batch db)"
  shows "\<exists>batch. finalize_loop c j db outs = Inr (j, db \<lparr> md_batch := batch \<rparr>) \<and> batch_apart (zc_ucmp c) (md_current db) batch \<and>
    map mo_meta batch = map mo_meta (md_batch db @ outs)"
  using v out batch
proof (induction outs arbitrary: db)
  case Nil
  then show ?case by (intro exI [of _ "md_batch db"]) simp
next
  case (Cons out outs)
  obtain l where l: "finalize_output c j db out = Inr (j, db \<lparr> md_batch := md_batch db @ [out \<lparr> mo_level := l \<rparr>] \<rparr>)"
    "batch_apart (zc_ucmp c) (md_current db) (md_batch db @ [out \<lparr> mo_level := l \<rparr>])"
    using finalize_direct [OF cmp Cons.prems(1) _ plans Cons.prems(3), of out] Cons.prems(2) by auto
  let ?db = "db \<lparr> md_batch := md_batch db @ [out \<lparr> mo_level := l \<rparr>] \<rparr>"
  obtain batch where "finalize_loop c j ?db outs = Inr (j, ?db \<lparr> md_batch := batch \<rparr>)" "batch_apart (zc_ucmp c) (md_current db) batch"
    "map mo_meta batch = map mo_meta (md_batch ?db @ outs)"
    using Cons.IH [of ?db] Cons.prems l(2) by auto
  then show ?case using l(1) by (intro exI [of _ batch]) simp
qed

section \<open>The edit and the new version\<close>

lemma install_edit_direct:
  assumes "\<forall>x \<in> set batch. direct_output ucmp x"
  shows "install_edit v batch = \<lparr> ve_deleted = [], ve_new_files = map (\<lambda>x. (mo_level x, mo_meta x)) batch \<rparr>"
proof -
  have "foldl (install_output v) (ds, \<lparr> ve_deleted = [], ve_new_files = nf \<rparr>) batch =
      (ds, \<lparr> ve_deleted = [], ve_new_files = nf @ map (\<lambda>x. (mo_level x, mo_meta x)) batch \<rparr>)" for ds nf
    using assms by (induction batch arbitrary: nf) (auto simp: install_output_def direct_output_def)
  then show ?thesis by (simp add: install_edit_def)
qed

lemma GetFileLocation_None: "GetFileLocation v num = None \<longleftrightarrow> num \<notin> fm_number ` version_files v"
proof -
  have "f \<in> version_files v \<longleftrightarrow> (\<exists>l < length (vs_files v). f \<in> set (LevelFiles v l))" for f
    unfolding version_files_def LevelFiles_def by (auto simp: in_set_conv_nth [of _ "vs_files v"]) (metis nth_mem)
  then show ?thesis by (auto simp: GetFileLocation_def find_None_iff image_iff)
qed

definition added_level :: "(nat \<times> FileMetaData) list \<Rightarrow> nat \<Rightarrow> FileMetaData list" where
  "added_level as l = map snd (filter (\<lambda>a. fst a = l) as)"

lemma apply_additions_fresh:
  assumes "distinct (map (\<lambda>a. fm_number (snd a)) as)" "\<forall>a \<in> set as. fst a < num_levels b"
    "\<forall>a \<in> set as. GetCurrentLevelForTableFile b (fm_number (snd a)) = None"
  shows "\<exists>b'. apply_additions b as = (Inr (), b') \<and> vb_base b' = vb_base b \<and> num_levels b' = num_levels b \<and>
    (\<forall>l < num_levels b. ls_added_files (vb_levels b' ! l) = rev (map (\<lambda>f. (fm_number f, f)) (added_level as l)) @ ls_added_files (vb_levels b ! l) \<and>
       set (ls_deleted_files (vb_levels b' ! l)) \<subseteq> set (ls_deleted_files (vb_levels b ! l)))"
  using assms
proof (induction as arbitrary: b)
  case Nil
  then show ?case by (simp add: added_level_def)
next
  case (Cons a as)
  obtain l m where a: "a = (l, m)" by (cases a)
  let ?ls = "vb_levels b ! l"
  define b1 where "b1 = b \<lparr> vb_levels := (vb_levels b)[l := ?ls \<lparr> ls_deleted_files := filter (\<lambda>n. n \<noteq> fm_number m) (ls_deleted_files ?ls),
      ls_added_files := (fm_number m, m) # ls_added_files ?ls \<rparr>], vb_table_file_levels := (fm_number m, Some l) # vb_table_file_levels b \<rparr>"
  have l: "l < num_levels b" "GetCurrentLevelForTableFile b (fm_number m) = None" using Cons.prems(2,3) a by simp_all
  then have step: "ApplyFileAddition b l m = (Inr (), b1)" by (simp add: ApplyFileAddition_def Let_def b1_def)
  have b1: "vb_base b1 = vb_base b" "num_levels b1 = num_levels b" "vb_table_file_levels b1 = (fm_number m, Some l) # vb_table_file_levels b"
    by (simp_all add: b1_def num_levels_def)
  have "\<forall>x \<in> set as. GetCurrentLevelForTableFile b1 (fm_number (snd x)) = None"
  proof
    fix x assume x: "x \<in> set as"
    have "fm_number m \<notin> (\<lambda>a. fm_number (snd a)) ` set as" using Cons.prems(1) a by simp
    then have "fm_number (snd x) \<noteq> fm_number m" using x by (metis (mono_tags, lifting) imageI)
    then have "GetCurrentLevelForTableFile b1 (fm_number (snd x)) = GetCurrentLevelForTableFile b (fm_number (snd x))"
      unfolding GetCurrentLevelForTableFile_def b1(1,3) by simp
    then show "GetCurrentLevelForTableFile b1 (fm_number (snd x)) = None" using Cons.prems(3) x by simp
  qed
  then obtain b' where b': "apply_additions b1 as = (Inr (), b')" "vb_base b' = vb_base b" "num_levels b' = num_levels b"
    "\<forall>k < num_levels b. ls_added_files (vb_levels b' ! k) = rev (map (\<lambda>f. (fm_number f, f)) (added_level as k)) @ ls_added_files (vb_levels b1 ! k) \<and>
       set (ls_deleted_files (vb_levels b' ! k)) \<subseteq> set (ls_deleted_files (vb_levels b1 ! k))"
    using Cons.IH [of b1] Cons.prems(1,2) b1 by auto
  have lev: "ls_added_files (vb_levels b1 ! k) = (if k = l then [(fm_number m, m)] else []) @ ls_added_files (vb_levels b ! k)"
    "set (ls_deleted_files (vb_levels b1 ! k)) \<subseteq> set (ls_deleted_files (vb_levels b ! k))" if "k < num_levels b" for k
    using that l(1) by (auto simp: b1_def num_levels_def nth_list_update)
  have "ls_added_files (vb_levels b' ! k) = rev (map (\<lambda>f. (fm_number f, f)) (added_level (a # as) k)) @ ls_added_files (vb_levels b ! k) \<and>
      set (ls_deleted_files (vb_levels b' ! k)) \<subseteq> set (ls_deleted_files (vb_levels b ! k))" if "k < num_levels b" for k
    using b'(4) lev [OF that] that a by (fastforce simp: added_level_def)
  then show ?case using b'(1-3) step a by simp
qed

lemma set_sort_less: "set (sort_less lt xs) = set xs"
proof -
  have "set (insort_cmp cmp y zs) = insert y (set zs)" for cmp :: "'a \<Rightarrow> 'a \<Rightarrow> int" and y zs by (induction zs) auto
  then have "set (sort_cmp cmp ys) = set ys" for cmp :: "'a \<Rightarrow> 'a \<Rightarrow> int" and ys by (induction ys) auto
  then show ?thesis by (simp add: sort_less_def)
qed

lemma set_merge_files: "set (merge_files lt base added) = set base \<union> set added"
  by (induction lt base added rule: merge_files.induct) auto

lemma SaveSSTFilesTo_level:
  assumes "l < num_levels b" "ls_deleted_files (vb_levels b ! l) = []" "ls_added_files (vb_levels b ! l) = rev (map (\<lambda>f. (fm_number f, f)) added)"
    "distinct (map fm_number added)" "\<forall>f \<in> set (LevelFiles (vb_base b) l). fm_number f \<notin> fm_number ` set added"
  shows "LevelFiles (SaveSSTFilesTo ucmp b) l =
    (let lt = (if l = 0 then NewestFirstByEpochNumber else BySmallestKey ucmp) in merge_files lt (LevelFiles (vb_base b) l) (sort_less lt (rev added)))"
proof -
  let ?ls = "vb_levels b ! l"
  have "MaybeAddFile ?ls f" if "f \<in> set (LevelFiles (vb_base b) l) \<union> set added" for f
  proof -
    have "map_of (rev (map (\<lambda>f. (fm_number f, f)) added)) (fm_number f) = Some f" if "f \<in> set added"
      using that assms(4) by (intro map_of_is_SomeI) (auto simp: comp_def rev_map [symmetric] simp flip: rev_map)
    moreover have "map_of (rev (map (\<lambda>f. (fm_number f, f)) added)) (fm_number f) = None" if "f \<in> set (LevelFiles (vb_base b) l)"
      using that assms(5) by (auto simp: map_of_eq_None_iff image_iff)
    ultimately show ?thesis using that assms(2,3) by (auto simp: MaybeAddFile_def)
  qed
  then have "filter (MaybeAddFile ?ls) xs = xs" if "set xs = set (LevelFiles (vb_base b) l) \<union> set added" for xs
    using that by (simp add: filter_id_conv)
  moreover have "set (merge_files lt (LevelFiles (vb_base b) l) (sort_less lt (map snd (ls_added_files ?ls)))) = set (LevelFiles (vb_base b) l) \<union> set added" for lt
    by (simp add: set_merge_files set_sort_less assms(3) rev_map image_image)
  moreover have "map snd (ls_added_files ?ls) = rev added" by (simp add: assms(3) rev_map comp_def)
  ultimately show ?thesis using assms(1) by (simp add: SaveSSTFilesTo_def LevelFiles_def [of "_ \<lparr> vs_files := _ \<rparr>"] Let_def)
qed

lemma plans_plain:
  assumes "PlanLocked c proximal j db = (j', db')" "\<not> zo_merge_into_base_level (zc_zfo c)"
  shows "\<forall>p \<in> set (mj_plans j'). pp_decision p = kDirect \<and> \<not> pp_force_replace p" "db' = db"
proof -
  have step: "plan_partition c proximal j db pid = (new_plan pid, j, db)" for j db pid
    using assms(2) by (simp add: plan_partition_def merge_enabled_def plan_no_merge_def Let_def)
  have loop: "plan_loop c proximal j db pids = (j', db') \<Longrightarrow> \<forall>p \<in> set (mj_plans j). pp_decision p = kDirect \<and> \<not> pp_force_replace p \<Longrightarrow>
      (\<forall>p \<in> set (mj_plans j'). pp_decision p = kDirect \<and> \<not> pp_force_replace p) \<and> db' = db" for pids j j' db'
  proof (induction pids arbitrary: j)
    case (Cons pid pids)
    have "plan_loop c proximal (j \<lparr> mj_plans := mj_plans j @ [new_plan pid] \<rparr>) db pids = (j', db')" using Cons.prems(1) by (simp add: step)
    from Cons.IH [OF this] Cons.prems(2) show ?case by simp
  qed simp
  obtain j0 where "plan_loop c proximal (j \<lparr> mj_part_ids := job_ids j, mj_plans := [] \<rparr>) db (job_ids j) = (j0, db')" "mj_plans j' = mj_plans j0"
    using assms(1) by (auto simp: PlanLocked_def Let_def job_ids_def split: prod.splits)
  from loop [OF this(1)] this(2) show "\<forall>p \<in> set (mj_plans j'). pp_decision p = kDirect \<and> \<not> pp_force_replace p" "db' = db" by simp_all
qed

lemma release_plain: "\<forall>p \<in> set ps. pp_decision p \<noteq> kMergeBase \<Longrightarrow> release_plans ps db = (ps, db)"
  by (induction ps) (auto simp: release_plan_def split: MaterializeDecision.splits)

lemma install_version:
  assumes cmp: "user_key_comparator ucmp" and v: "version_ok ucmp v" "CheckConsistencyDetails ucmp v" "vs_base_level v < length (vs_files v)"
    and batch: "batch_apart ucmp v batch" and nums: "distinct (map (\<lambda>x. fm_number (mo_meta x)) batch)"
    and fresh: "\<forall>x \<in> set batch. fm_number (mo_meta x) \<notin> fm_number ` version_files v"
  shows "\<exists>b. vb_Apply ucmp (new_VersionBuilder v) (install_edit v batch) = (Inr (), b) \<and> num_levels b = length (vs_files v) \<and>
    (\<forall>l < length (vs_files v). set (LevelFiles (SaveSSTFilesTo ucmp b) l) = set (LevelFiles v l) \<union> set (level_added batch l) \<and>
       (1 \<le> l \<longrightarrow> level_ok ucmp (LevelFiles (SaveSSTFilesTo ucmp b) l)))"
proof -
  let ?b0 = "new_VersionBuilder v" and ?as = "map (\<lambda>x. (mo_level x, mo_meta x)) batch"
  have n0: "num_levels ?b0 = length (vs_files v)" "vb_base ?b0 = v" by (simp_all add: num_levels_def new_VersionBuilder_def)
  have ls0: "vb_levels ?b0 ! l = \<lparr> ls_deleted_files = [], ls_added_files = [] \<rparr>" if "l < length (vs_files v)" for l
    using that by (simp add: new_VersionBuilder_def)
  have lev: "\<forall>a \<in> set ?as. fst a < num_levels ?b0"
    using batch v(3) unfolding batch_apart_def n0 by (fastforce simp: image_iff)
  have loc: "\<forall>a \<in> set ?as. GetCurrentLevelForTableFile ?b0 (fm_number (snd a)) = None"
    using fresh by (auto simp: GetCurrentLevelForTableFile_def new_VersionBuilder_def GetFileLocation_None)
  have dist: "distinct (map (\<lambda>a. fm_number (snd a)) ?as)" using nums by (simp add: comp_def)
  have al: "added_level ?as l = level_added batch l" for l by (simp add: added_level_def level_added_def filter_map comp_def)
  obtain b where b: "apply_additions ?b0 ?as = (Inr (), b)" "vb_base b = v" "num_levels b = length (vs_files v)"
    "\<forall>l < length (vs_files v). ls_added_files (vb_levels b ! l) = rev (map (\<lambda>f. (fm_number f, f)) (level_added batch l)) @ ls_added_files (vb_levels ?b0 ! l) \<and>
       set (ls_deleted_files (vb_levels b ! l)) \<subseteq> set (ls_deleted_files (vb_levels ?b0 ! l))"
    using apply_additions_fresh [OF dist lev loc] unfolding n0 al by blast
  have "install_edit v batch = \<lparr> ve_deleted = [], ve_new_files = ?as \<rparr>"
    by (rule install_edit_direct) (use batch in \<open>auto simp: batch_apart_def\<close>)
  then have app: "vb_Apply ucmp ?b0 (install_edit v batch) = (Inr (), b)" using b(1) v(2) by (simp add: vb_Apply_def n0)
  have "set (LevelFiles (SaveSSTFilesTo ucmp b) l) = set (LevelFiles v l) \<union> set (level_added batch l) \<and>
       (1 \<le> l \<longrightarrow> level_ok ucmp (LevelFiles (SaveSSTFilesTo ucmp b) l))" if l: "l < length (vs_files v)" for l
  proof -
    let ?A = "level_added batch l" and ?lt = "if l = 0 then NewestFirstByEpochNumber else BySmallestKey ucmp"
    have numA: "distinct (map fm_number ?A)" using nums unfolding level_added_def by (simp add: comp_def distinct_map_filter)
    have sub: "set ?A \<subseteq> mo_meta ` set batch" by (auto simp: level_added_def)
    have freshA: "\<forall>f \<in> set (LevelFiles v l). fm_number f \<notin> fm_number ` set ?A"
    proof (intro ballI notI)
      fix f assume f: "f \<in> set (LevelFiles v l)" "fm_number f \<in> fm_number ` set ?A"
      then obtain x where "x \<in> set batch" "fm_number f = fm_number (mo_meta x)" using sub by auto
      moreover have "fm_number f \<in> fm_number ` version_files v" using LevelFiles_version [OF f(1)] by simp
      ultimately show False using fresh by simp
    qed
    have save: "LevelFiles (SaveSSTFilesTo ucmp b) l = merge_files ?lt (LevelFiles v l) (sort_less ?lt (rev ?A))"
    proof -
      have "ls_deleted_files (vb_levels b ! l) = []" "ls_added_files (vb_levels b ! l) = rev (map (\<lambda>f. (fm_number f, f)) ?A)"
        using b(4) [rule_format, OF l] unfolding ls0 [OF l] by simp_all
      from SaveSSTFilesTo_level [OF _ this numA, of ucmp] show ?thesis using l freshA unfolding Let_def b(2,3) by blast
    qed
    have "level_ok ucmp (merge_files (BySmallestKey ucmp) (LevelFiles v l) (sort_less (BySmallestKey ucmp) (rev ?A)))" if "1 \<le> l"
    proof (rule user_key_comparator.merged_level_ok [OF cmp])
      show "level_ok ucmp (LevelFiles v l)" using v(1) that by (simp add: version_ok_def)
      show "\<forall>a \<in> set (rev ?A). file_ok ucmp a" using batch sub by (auto simp: batch_apart_def direct_output_def)
      have "set (LevelFiles v l) \<inter> set ?A = {}" using freshA by auto
      moreover have "distinct ?A" using numA by (simp add: distinct_map)
      moreover have "distinct (LevelFiles v l)"
        by (rule user_key_comparator.level_ok_apart(1) [OF cmp]) (use v(1) that in \<open>simp add: version_ok_def\<close>)
      ultimately show "distinct (LevelFiles v l @ rev ?A)" by simp
      show "files_apart ucmp f a" if "f \<in> set (LevelFiles v l @ rev ?A)" "a \<in> set (rev ?A)" "f \<noteq> a" for f a
        using batch that \<open>1 \<le> l\<close> unfolding batch_apart_def by simp
    qed
    then show ?thesis unfolding save by (auto simp: set_merge_files set_sort_less)
  qed
  then show ?thesis using app b(3) by blast
qed

text \<open>The edit of a batch is accepted; the new version has the files of the old one and of the batch, and
  above level 0 only levels in order.\<close>

lemma install_files:
  assumes cmp: "user_key_comparator ucmp" and v: "version_ok ucmp v" "CheckConsistencyDetails ucmp v" "vs_base_level v < length (vs_files v)"
    and ba: "batch_apart ucmp v batch" and nums: "distinct (map (\<lambda>x. fm_number (mo_meta x)) batch)"
    and fresh: "\<forall>x \<in> set batch. fm_number (mo_meta x) \<notin> fm_number ` version_files v"
  shows "\<exists>b. vb_Apply ucmp (new_VersionBuilder v) (install_edit v batch) = (Inr (), b) \<and>
    version_files (SaveSSTFilesTo ucmp b) = version_files v \<union> mo_meta ` set batch \<and>
    (\<forall>l < length (vs_files v). 1 \<le> l \<longrightarrow> level_ok ucmp (LevelFiles (SaveSSTFilesTo ucmp b) l) \<and>
       check_neighbours (ln_checker ucmp) (LevelFiles (SaveSSTFilesTo ucmp b) l))"
proof -
  obtain b where b: "vb_Apply ucmp (new_VersionBuilder v) (install_edit v batch) = (Inr (), b)" "num_levels b = length (vs_files v)"
    "\<forall>l < length (vs_files v). set (LevelFiles (SaveSSTFilesTo ucmp b) l) = set (LevelFiles v l) \<union> set (level_added batch l) \<and>
       (1 \<le> l \<longrightarrow> level_ok ucmp (LevelFiles (SaveSSTFilesTo ucmp b) l))"
    using install_version [OF cmp v ba nums fresh] by blast
  let ?w = "SaveSSTFilesTo ucmp b"
  have len: "length (vs_files ?w) = length (vs_files v)" using b(2) by (simp add: SaveSSTFilesTo_def)
  have added: "(\<Union>l < length (vs_files v). set (level_added batch l)) = mo_meta ` set batch"
  proof -
    have "mo_level x < length (vs_files v)" if "x \<in> set batch" for x
      using bspec [OF conjunct1 [OF ba [unfolded batch_apart_def]] that] v(3) by auto
    then show ?thesis by (auto simp: level_added_def)
  qed
  have vf: "version_files u = (\<Union>l < length (vs_files u). set (LevelFiles u l))" for u
    by (auto simp: version_files_def LevelFiles_def in_set_conv_nth [of _ "vs_files u"]) (metis nth_mem)
  have "version_files ?w = (\<Union>l < length (vs_files v). set (LevelFiles v l) \<union> set (level_added batch l))"
    unfolding vf [of ?w] len using b(3) by auto
  also have "\<dots> = version_files v \<union> mo_meta ` set batch" unfolding vf [of v] added [symmetric] by auto
  finally show ?thesis using b user_key_comparator.level_ok_check [OF cmp] by blast
qed

end
