(* ===== verification/ZfTaskPool.thy ===== *)
theory ZfTaskPool
  imports ZfPrelude "HOL-Library.Sublist"
begin

text \<open>
  The pool of \<^verbatim>\<open>zeroflush/materialize_job.cc\<close> that runs the partition tasks of a flush
  (\<^verbatim>\<open>RunMaterializeTaskPool\<close>): a sequential loop for one worker, and otherwise threads that share an
  atomic task counter, an atomic stop flag and the first error.

  A thread is a program counter and a step of the pool is one shared-memory action of one thread, in
  every interleaving; the relaxed load of the stop flag may return an older value, so a thread may
  go on after the flag is set. A task is given by what \<^verbatim>\<open>ExecutePartition\<close> returns and by the outputs
  it hands over, one at a time, under the job's mutex. The counter is a natural number: it is
  bounded by the number of tasks plus the number of threads.

  The lemmas: an invariant of the threads, by rule induction over the steps, and a measure that every
  step decreases. The properties: whatever the interleaving, the pool returns, it reports success
  exactly when every task succeeds, and a task has handed over all its outputs or none.
\<close>

section \<open>Threads\<close>

datatype 'out Worker =
    At_Load
  | At_FetchAdd
  | At_Execute nat
  | At_Push nat "'out list"
  | At_Lock zf_error
  | At_Store
  | At_End

text \<open>\<open>po_outputs\<close> are the outputs in the order in which they arrive, with the number of their task;
  \<open>po_finished\<close> is a history variable, the tasks that have returned.\<close>

record 'out Pool =
  po_next :: nat
  po_stop :: bool
  po_first_error :: "zf_error option"
  po_workers :: "'out Worker list"
  po_outputs :: "(nat \<times> 'out) list"
  po_finished :: "nat list"

definition new_Pool :: "nat \<Rightarrow> 'out Pool" where
  "new_Pool W = \<lparr> po_next = 0, po_stop = False, po_first_error = None, po_workers = replicate W At_Load, po_outputs = [], po_finished = [] \<rparr>"

definition goto :: "'out Pool \<Rightarrow> nat \<Rightarrow> 'out Worker \<Rightarrow> 'out Pool" where
  "goto s w pc = s \<lparr> po_workers := (po_workers s)[w := pc] \<rparr>"

definition at :: "'out Pool \<Rightarrow> nat \<Rightarrow> 'out Worker \<Rightarrow> bool" where
  "at s w pc \<longleftrightarrow> w < length (po_workers s) \<and> po_workers s ! w = pc"

inductive pool_step :: "('task \<Rightarrow> unit zf_result \<times> 'out list) \<Rightarrow> 'task list \<Rightarrow> 'out Pool \<Rightarrow> 'out Pool \<Rightarrow> bool"
  for exec :: "'task \<Rightarrow> unit zf_result \<times> 'out list" and tasks :: "'task list"
  where
    load_go: "at s w At_Load \<Longrightarrow> pool_step exec tasks s (goto s w At_FetchAdd)"
  | load_stop: "at s w At_Load \<Longrightarrow> po_stop s \<Longrightarrow> pool_step exec tasks s (goto s w At_End)"
  | fetch_task: "at s w At_FetchAdd \<Longrightarrow> po_next s < length tasks \<Longrightarrow>
      pool_step exec tasks s (goto (s \<lparr> po_next := po_next s + 1 \<rparr>) w (At_Execute (po_next s)))"
  | fetch_end: "at s w At_FetchAdd \<Longrightarrow> po_next s \<ge> length tasks \<Longrightarrow>
      pool_step exec tasks s (goto (s \<lparr> po_next := po_next s + 1 \<rparr>) w At_End)"
  | execute: "at s w (At_Execute i) \<Longrightarrow> pool_step exec tasks s (goto s w (At_Push i (snd (exec (tasks ! i)))))"
  | push: "at s w (At_Push i (x # xs)) \<Longrightarrow>
      pool_step exec tasks s (goto (s \<lparr> po_outputs := po_outputs s @ [(i, x)] \<rparr>) w (At_Push i xs))"
  | return_ok: "at s w (At_Push i []) \<Longrightarrow> fst (exec (tasks ! i)) = Inr () \<Longrightarrow>
      pool_step exec tasks s (goto (s \<lparr> po_finished := i # po_finished s \<rparr>) w At_Load)"
  | return_error: "at s w (At_Push i []) \<Longrightarrow> fst (exec (tasks ! i)) = Inl er \<Longrightarrow>
      pool_step exec tasks s (goto (s \<lparr> po_finished := i # po_finished s \<rparr>) w (At_Lock er))"
  | first_error: "at s w (At_Lock er) \<Longrightarrow> po_first_error s = None \<Longrightarrow>
      pool_step exec tasks s (goto (s \<lparr> po_first_error := Some er \<rparr>) w At_Store)"
  | later_error: "at s w (At_Lock er) \<Longrightarrow> po_first_error s \<noteq> None \<Longrightarrow> pool_step exec tasks s (goto s w At_End)"
  | store: "at s w At_Store \<Longrightarrow> pool_step exec tasks s (goto (s \<lparr> po_stop := True \<rparr>) w At_End)"

section \<open>The pool\<close>

text \<open>The loop for a single worker, which stops at the first error.\<close>

fun run_tasks :: "('task \<Rightarrow> unit zf_result \<times> 'out list) \<Rightarrow> nat \<Rightarrow> 'task list \<Rightarrow> unit zf_result \<times> (nat \<times> 'out) list" where
  "run_tasks exec i [] = (Inr (), [])"
| "run_tasks exec i (t # ts) =
     (case exec t of
        (Inl er, outs) \<Rightarrow> (Inl er, map (Pair i) outs)
      | (Inr _, outs) \<Rightarrow> (case run_tasks exec (Suc i) ts of (r, rest) \<Rightarrow> (r, map (Pair i) outs @ rest)))"

definition pool_width :: "'task list \<Rightarrow> u32 \<Rightarrow> u32" where
  "pool_width tasks workers = min (max workers 1) (of_nat (length tasks))"

definition first_error_status :: "'out Pool \<Rightarrow> unit zf_result" where
  "first_error_status s = (case po_first_error s of None \<Rightarrow> Inr () | Some er \<Rightarrow> Inl er)"

inductive RunMaterializeTaskPool :: "('task \<Rightarrow> unit zf_result \<times> 'out list) \<Rightarrow> 'task list \<Rightarrow> u32 \<Rightarrow> unit zf_result \<Rightarrow> (nat \<times> 'out) list \<Rightarrow> bool"
  for exec :: "'task \<Rightarrow> unit zf_result \<times> 'out list"
  where
    no_task: "RunMaterializeTaskPool exec [] workers (Inr ()) []"
  | sequential: "tasks \<noteq> [] \<Longrightarrow> pool_width tasks workers \<le> 1 \<Longrightarrow> run_tasks exec 0 tasks = (r, outs) \<Longrightarrow>
      RunMaterializeTaskPool exec tasks workers r outs"
  | threads: "tasks \<noteq> [] \<Longrightarrow> pool_width tasks workers > 1 \<Longrightarrow>
      (pool_step exec tasks)\<^sup>*\<^sup>* (new_Pool (unat (pool_width tasks workers))) s \<Longrightarrow>
      list_all (\<lambda>pc. pc = At_End) (po_workers s) \<Longrightarrow>
      RunMaterializeTaskPool exec tasks workers (first_error_status s) (po_outputs s)"

inductive_cases RunMaterializeTaskPool_cases: "RunMaterializeTaskPool exec tasks workers r outs"

section \<open>The invariant of the threads\<close>

definition of_task :: "nat \<Rightarrow> (nat \<times> 'out) list \<Rightarrow> 'out list" where
  "of_task i outs = map snd (filter (\<lambda>x. fst x = i) outs)"

lemma of_task_simps [simp]: "of_task i [] = []" "of_task i (xs @ ys) = of_task i xs @ of_task i ys"
  "of_task i ((k, x) # xs) = (if k = i then x # of_task i xs else of_task i xs)"
  by (simp_all add: of_task_def)

lemma of_task_pair [simp]: "of_task i (map (Pair k) xs) = (if i = k then xs else [])"
  by (induction xs) auto

fun claims :: "'out Worker \<Rightarrow> nat option" where
  "claims (At_Execute i) = Some i"
| "claims (At_Push i xs) = Some i"
| "claims _ = None"

text \<open>A number below the counter belongs to one thread or to a task that has returned.\<close>

definition claim :: "'out Pool \<Rightarrow> nat \<Rightarrow> nat option" where
  "claim s w = (if w < length (po_workers s) then claims (po_workers s ! w) else None)"

definition claims_ok :: "'task list \<Rightarrow> 'out Pool \<Rightarrow> bool" where
  "claims_ok tasks s \<longleftrightarrow>
     (\<forall>i. i < po_next s \<and> i < length tasks \<longleftrightarrow> i \<in> set (po_finished s) \<or> (\<exists>w. claim s w = Some i)) \<and>
     (\<forall>w i. claim s w = Some i \<longrightarrow> i \<notin> set (po_finished s) \<and> (\<forall>v. claim s v = Some i \<longrightarrow> v = w))"

fun pushed_ok :: "('task \<Rightarrow> unit zf_result \<times> 'out list) \<Rightarrow> 'task list \<Rightarrow> (nat \<times> 'out) list \<Rightarrow> 'out Worker \<Rightarrow> bool" where
  "pushed_ok exec tasks outs (At_Execute i) = (of_task i outs = [])"
| "pushed_ok exec tasks outs (At_Push i xs) = (of_task i outs @ xs = snd (exec (tasks ! i)))"
| "pushed_ok exec tasks outs _ = True"

definition outputs_ok :: "('task \<Rightarrow> unit zf_result \<times> 'out list) \<Rightarrow> 'task list \<Rightarrow> 'out Pool \<Rightarrow> bool" where
  "outputs_ok exec tasks s \<longleftrightarrow>
     (\<forall>i. \<not> (i < po_next s \<and> i < length tasks) \<longrightarrow> of_task i (po_outputs s) = []) \<and>
     (\<forall>i \<in> set (po_finished s). of_task i (po_outputs s) = snd (exec (tasks ! i))) \<and>
     (\<forall>w < length (po_workers s). pushed_ok exec tasks (po_outputs s) (po_workers s ! w))"

definition failed :: "('task \<Rightarrow> unit zf_result \<times> 'out list) \<Rightarrow> 'task list \<Rightarrow> 'out Pool \<Rightarrow> zf_error \<Rightarrow> bool" where
  "failed exec tasks s er \<longleftrightarrow> (\<exists>i \<in> set (po_finished s). fst (exec (tasks ! i)) = Inl er)"

definition errors_ok :: "('task \<Rightarrow> unit zf_result \<times> 'out list) \<Rightarrow> 'task list \<Rightarrow> 'out Pool \<Rightarrow> bool" where
  "errors_ok exec tasks s \<longleftrightarrow>
     (\<forall>er. po_first_error s = Some er \<or> At_Lock er \<in> set (po_workers s) \<longrightarrow> failed exec tasks s er) \<and>
     (\<forall>er. failed exec tasks s er \<longrightarrow> po_first_error s \<noteq> None \<or> (\<exists>er'. At_Lock er' \<in> set (po_workers s))) \<and>
     (po_stop s \<or> At_Store \<in> set (po_workers s) \<longrightarrow> po_first_error s \<noteq> None) \<and>
     (At_End \<in> set (po_workers s) \<longrightarrow> po_next s \<ge> length tasks \<or> po_first_error s \<noteq> None)"

lemma goto_simps [simp]:
  "po_next (goto s w pc) = po_next s" "po_stop (goto s w pc) = po_stop s" "po_first_error (goto s w pc) = po_first_error s"
  "po_workers (goto s w pc) = (po_workers s)[w := pc]" "po_outputs (goto s w pc) = po_outputs s" "po_finished (goto s w pc) = po_finished s"
  by (simp_all add: goto_def)

lemma new_Pool_simps [simp]:
  "po_next (new_Pool W) = 0" "po_stop (new_Pool W) = False" "po_first_error (new_Pool W) = None"
  "po_workers (new_Pool W) = replicate W At_Load" "po_outputs (new_Pool W) = []" "po_finished (new_Pool W) = []"
  by (simp_all add: new_Pool_def)

lemma at_mem: "at s w pc \<Longrightarrow> pc \<in> set (po_workers s)"
  by (auto simp: at_def)

lemma goto_mem: "at s w pc0 \<Longrightarrow> pc \<in> set ((po_workers s)[w := pc])"
  by (auto simp: at_def set_update_memI)

lemma goto_other: "at s w pc0 \<Longrightarrow> pc' \<noteq> pc0 \<Longrightarrow> pc' \<noteq> pc \<Longrightarrow> pc' \<in> set ((po_workers s)[w := pc]) \<longleftrightarrow> pc' \<in> set (po_workers s)"
  by (auto simp: at_def in_set_conv_nth nth_list_update)

lemmas worker_mem = at_mem goto_mem goto_other

lemma atD: "at s w pc \<Longrightarrow> w < length (po_workers s)" "at s w pc \<Longrightarrow> po_workers s ! w = pc"
  by (simp_all add: at_def)

lemma claim_goto: "at s w pc0 \<Longrightarrow> po_workers s' = po_workers s \<Longrightarrow> claim (goto s' w pc) = (claim s)(w := claims pc)"
  by (auto simp: claim_def at_def fun_eq_iff)

lemma claim_at: "at s w pc \<Longrightarrow> claim s w = claims pc"
  by (simp add: claim_def at_def)

lemma claims_same: "at s w pc0 \<Longrightarrow> claims pc = claims pc0 \<Longrightarrow> po_workers s' = po_workers s \<Longrightarrow> claim (goto s' w pc) = claim s"
  using claim_at [of s w pc0] by (simp add: claim_goto fun_upd_idem)

lemma claims_step:
  assumes "pool_step exec tasks s s'" "claims_ok tasks s"
  shows "claims_ok tasks s'"
  using assms
proof (induction rule: pool_step.induct)
  case (fetch_task s w)
  then have c: "claim (goto (s \<lparr> po_next := po_next s + 1 \<rparr>) w (At_Execute (po_next s))) = (claim s)(w := Some (po_next s))" "claim s w = None"
    by (simp_all add: claim_goto claim_at)
  have new: "po_next s \<notin> set (po_finished s)" "claim s v \<noteq> Some (po_next s)" for v
    using fetch_task.prems unfolding claims_ok_def by blast+
  have ex: "(\<exists>v. ((claim s)(w := Some (po_next s))) v = Some i) \<longleftrightarrow> i = po_next s \<or> (\<exists>v. claim s v = Some i)" for i
    using c(2) by (metis fun_upd_apply option.distinct(1) option.inject)
  show ?case
    using fetch_task.prems fetch_task.hyps(2) new c(2) unfolding claims_ok_def c(1) goto_simps Pool.simps ex
    by (intro conjI allI) (auto simp: less_Suc_eq split: if_splits)
next
  case (fetch_end s w)
  then show ?case unfolding claims_ok_def by (simp add: claims_same) (meson less_Suc_eq less_le_trans not_less)
next
  case (return_ok s w i)
  then have c: "claim (goto (s \<lparr> po_finished := i # po_finished s \<rparr>) w At_Load) = (claim s)(w := None)" "claim s w = Some i"
    by (simp_all add: claim_goto claim_at)
  then show ?case using return_ok.prems unfolding claims_ok_def by simp (metis option.inject)
next
  case (return_error s w i er)
  then have c: "claim (goto (s \<lparr> po_finished := i # po_finished s \<rparr>) w (At_Lock er)) = (claim s)(w := None)" "claim s w = Some i"
    by (simp_all add: claim_goto claim_at)
  then show ?case using return_error.prems unfolding claims_ok_def by simp (metis option.inject)
qed (simp_all add: claims_ok_def claims_same)

lemma of_task_pushed: "pushed_ok exec tasks (outs @ [(i, x)]) pc = pushed_ok exec tasks outs pc" if "claims pc \<noteq> Some i"
  using that by (cases pc) auto

lemma outputs_step:
  assumes "pool_step exec tasks s s'" "claims_ok tasks s" "outputs_ok exec tasks s"
  shows "outputs_ok exec tasks s'"
  using assms
proof (induction rule: pool_step.induct)
  case (fetch_task s w)
  then show ?case by (auto simp: outputs_ok_def at_def nth_list_update)
next
  case (execute s w i)
  then show ?case by (auto simp: outputs_ok_def at_def nth_list_update dest: spec [of _ w])
next
  case (push s w i x xs)
  have c: "claim s w = Some i" using push.hyps by (simp add: claim_at)
  then have i: "i < po_next s \<and> i < length tasks" "i \<notin> set (po_finished s)" using push.prems(1) unfolding claims_ok_def by blast+
  have other: "claims (po_workers s ! v) \<noteq> Some i" if "v < length (po_workers s)" "v \<noteq> w" for v
    using push.prems(1) c that unfolding claims_ok_def by (metis claim_def)
  have "pushed_ok exec tasks (po_outputs s) (At_Push i (x # xs))" using push unfolding outputs_ok_def at_def by metis
  then show ?case using push.prems(2) push.hyps i other
    by (auto simp: outputs_ok_def at_def nth_list_update of_task_pushed simp del: pushed_ok.simps(1,3-) split: if_split)
next
  case (return_ok s w i)
  then have "pushed_ok exec tasks (po_outputs s) (At_Push i [])" unfolding outputs_ok_def at_def by metis
  with return_ok show ?case by (auto simp: outputs_ok_def at_def nth_list_update)
next
  case (return_error s w i er)
  then have "pushed_ok exec tasks (po_outputs s) (At_Push i [])" unfolding outputs_ok_def at_def by metis
  with return_error show ?case by (auto simp: outputs_ok_def at_def nth_list_update)
qed (auto simp: outputs_ok_def at_def nth_list_update)

lemma failed_goto [simp]: "failed exec tasks (goto s w pc) er = failed exec tasks s er"
  by (simp add: failed_def)

lemma failed_finished: "failed exec tasks (s \<lparr> po_finished := i # po_finished s \<rparr>) er \<longleftrightarrow> fst (exec (tasks ! i)) = Inl er \<or> failed exec tasks s er"
  by (auto simp: failed_def)

lemma failed_same [simp]:
  "failed exec tasks (s \<lparr> po_next := n \<rparr>) er = failed exec tasks s er" "failed exec tasks (s \<lparr> po_outputs := outs \<rparr>) er = failed exec tasks s er"
  "failed exec tasks (s \<lparr> po_first_error := fe \<rparr>) er = failed exec tasks s er" "failed exec tasks (s \<lparr> po_stop := b \<rparr>) er = failed exec tasks s er"
  by (simp_all add: failed_def)

lemma errors_step:
  assumes "pool_step exec tasks s s'" "errors_ok exec tasks s"
  shows "errors_ok exec tasks s'"
  using assms
proof (induction rule: pool_step.induct)
  case (return_error s w i er)
  have "At_Lock e \<in> set ((po_workers s)[w := At_Lock er]) \<longleftrightarrow> e = er \<or> At_Lock e \<in> set (po_workers s)" for e
    using goto_other [OF return_error.hyps(1), of "At_Lock e" "At_Lock er"] goto_mem [OF return_error.hyps(1), of "At_Lock er"] by auto
  with return_error show ?case by (auto simp: errors_ok_def failed_finished worker_mem)
next
  case (first_error s w er)
  then show ?case
    using set_update_subset_insert [of "po_workers s" w At_Store] at_mem [OF first_error.hyps(1)]
    by (auto simp: errors_ok_def worker_mem) 
next
  case (later_error s w er)
  then show ?case
    using set_update_subset_insert [of "po_workers s" w At_End] at_mem [OF later_error.hyps(1)]
    by (auto simp: errors_ok_def worker_mem)
qed (simp_all add: errors_ok_def failed_finished worker_mem)

lemma pool_reachable:
  assumes "(pool_step exec tasks)\<^sup>*\<^sup>* (new_Pool W) s"
  shows "claims_ok tasks s \<and> outputs_ok exec tasks s \<and> errors_ok exec tasks s \<and> length (po_workers s) = W"
  using assms
proof (induction rule: rtranclp_induct)
  case base
  then show ?case by (auto simp: claims_ok_def outputs_ok_def errors_ok_def failed_def claim_def)
next
  case (step s s')
  have "length (po_workers s') = length (po_workers s)" using step.hyps(2) by (cases rule: pool_step.cases) simp_all
  then show ?case using step claims_step outputs_step errors_step by metis
qed

section \<open>Every run ends\<close>

fun weight :: "'out Worker \<Rightarrow> ('task \<Rightarrow> unit zf_result \<times> 'out list) \<Rightarrow> 'task list \<Rightarrow> nat" where
  "weight At_Load exec tasks = 2"
| "weight At_FetchAdd exec tasks = 1"
| "weight (At_Execute i) exec tasks = length (snd (exec (tasks ! i))) + 6"
| "weight (At_Push i xs) exec tasks = length xs + 5"
| "weight (At_Lock er) exec tasks = 4"
| "weight At_Store exec tasks = 3"
| "weight At_End exec tasks = 0"

definition pool_weight :: "('task \<Rightarrow> unit zf_result \<times> 'out list) \<Rightarrow> 'task list \<Rightarrow> 'out Pool \<Rightarrow> nat" where
  "pool_weight exec tasks s = sum_list (map (\<lambda>pc. weight pc exec tasks) (po_workers s)) +
     (\<Sum>i = po_next s..<length tasks. length (snd (exec (tasks ! i))) + 7)"

lemma weight_goto:
  assumes "at s w pc0"
  shows "sum_list (map (\<lambda>pc. weight pc exec tasks) ((po_workers s)[w := pc])) + weight pc0 exec tasks =
    sum_list (map (\<lambda>pc. weight pc exec tasks) (po_workers s)) + weight pc exec tasks"
proof -
  have "weight pc0 exec tasks \<le> sum_list (map (\<lambda>pc. weight pc exec tasks) (po_workers s))"
    using at_mem [OF assms] by (intro member_le_sum_list) auto
  then show ?thesis using assms by (simp add: at_def map_update sum_list_update)
qed

lemma weight_step:
  assumes "pool_step exec tasks s s'"
  shows "pool_weight exec tasks s' < pool_weight exec tasks s"
  using assms
proof (cases rule: pool_step.cases)
  case (fetch_task w)
  then show ?thesis using weight_goto [OF fetch_task(2), of exec tasks "At_Execute (po_next s)"]
    by (simp add: pool_weight_def sum.atLeast_Suc_lessThan)
next
  case (fetch_end w)
  then show ?thesis using weight_goto [OF fetch_end(2), of exec tasks At_End] by (simp add: pool_weight_def)
next
  case (push w i x xs)
  then show ?thesis using weight_goto [OF push(2), of exec tasks "At_Push i xs"] by (simp add: pool_weight_def)
next
  case (execute w i)
  then show ?thesis using weight_goto [OF execute(2), of exec tasks "At_Push i (snd (exec (tasks ! i)))"] by (simp add: pool_weight_def)
next
  case (load_go w)
  then show ?thesis using weight_goto [OF load_go(2), of exec tasks At_FetchAdd] by (simp add: pool_weight_def)
next
  case (load_stop w)
  then show ?thesis using weight_goto [OF load_stop(2), of exec tasks At_End] by (simp add: pool_weight_def)
next
  case (return_ok w i)
  then show ?thesis using weight_goto [OF return_ok(2), of exec tasks At_Load] by (simp add: pool_weight_def)
next
  case (return_error w i er)
  then show ?thesis using weight_goto [OF return_error(2), of exec tasks "At_Lock er"] by (simp add: pool_weight_def)
next
  case (first_error w er)
  then show ?thesis using weight_goto [OF first_error(2), of exec tasks At_Store] by (simp add: pool_weight_def)
next
  case (later_error w er)
  then show ?thesis using weight_goto [OF later_error(2), of exec tasks At_End] by (simp add: pool_weight_def)
next
  case (store w)
  then show ?thesis using weight_goto [OF store(2), of exec tasks At_End] by (simp add: pool_weight_def)
qed

lemma pool_progress:
  assumes "pc \<in> set (po_workers s)" "pc \<noteq> At_End"
  shows "\<exists>s'. pool_step exec tasks s s'"
proof -
  obtain w where w: "at s w pc" using assms(1) by (auto simp: at_def in_set_conv_nth)
  show ?thesis
  proof (cases pc)
    case At_FetchAdd
    then show ?thesis using w pool_step.fetch_task pool_step.fetch_end by (metis not_less)
  next
    case (At_Push i xs)
    show ?thesis
    proof (cases xs)
      case Nil
      then have w: "at s w (At_Push i [])" using w At_Push by simp
      show ?thesis
      proof (cases "fst (exec (tasks ! i))")
        case (Inl er)
        then show ?thesis using pool_step.return_error [OF w] by blast
      next
        case (Inr u)
        then show ?thesis using pool_step.return_ok [OF w, of exec tasks] by auto
      qed
    next
      case (Cons x ys)
      then show ?thesis using w At_Push pool_step.push by metis
    qed
  next
    case (At_Lock er)
    then show ?thesis using w pool_step.first_error pool_step.later_error by metis
  qed (use w assms(2) pool_step.load_go pool_step.execute pool_step.store in metis)+
qed

lemma pool_finishes: "\<exists>s'. (pool_step exec tasks)\<^sup>*\<^sup>* s s' \<and> list_all (\<lambda>pc. pc = At_End) (po_workers s')"
proof (induction "pool_weight exec tasks s" arbitrary: s rule: less_induct)
  case less
  show ?case
  proof (cases "list_all (\<lambda>pc. pc = At_End) (po_workers s)")
    case False
    then obtain pc where "pc \<in> set (po_workers s)" "pc \<noteq> At_End" by (auto simp: list_all_iff)
    from pool_progress [OF this] obtain s1 where s1: "pool_step exec tasks s s1" by blast
    obtain s' where "(pool_step exec tasks)\<^sup>*\<^sup>* s1 s'" "list_all (\<lambda>pc. pc = At_End) (po_workers s')"
      using less [OF weight_step [OF s1]] by blast
    then show ?thesis using converse_rtranclp_into_rtranclp [of "pool_step exec tasks", OF s1] by blast
  qed blast
qed

lemma pool_returns: "\<exists>r outs. RunMaterializeTaskPool exec tasks workers r outs"
proof (cases "tasks = [] \<or> pool_width tasks workers \<le> 1")
  case True
  then show ?thesis using no_task sequential by (metis surj_pair)
next
  case False
  then show ?thesis
    using pool_finishes [of exec tasks "new_Pool (unat (pool_width tasks workers))"] threads [of tasks workers exec] by (auto simp: not_le)
qed

lemma run_tasks_outcome:
  assumes "run_tasks exec k tasks = (r, outs)"
  shows "\<exists>m \<le> length tasks. (\<forall>i. of_task i outs = (if k \<le> i \<and> i < k + m then snd (exec (tasks ! (i - k))) else [])) \<and>
    (case r of Inr _ \<Rightarrow> m = length tasks \<and> (\<forall>t \<in> set tasks. fst (exec t) = Inr ()) | Inl er \<Rightarrow> (\<exists>t \<in> set tasks. fst (exec t) = Inl er))"
  using assms
proof (induction exec k tasks arbitrary: r outs rule: run_tasks.induct)
  case (2 exec k t ts)
  obtain r0 os where t: "exec t = (r0, os)" by (meson surj_pair)
  show ?case
  proof (cases r0)
    case (Inl er)
    have "of_task i outs = (if k \<le> i \<and> i < k + 1 then snd (exec ((t # ts) ! (i - k))) else [])" for i
      using 2(2) t Inl by auto
    moreover have "r = Inl er" using 2(2) t Inl by auto
    ultimately show ?thesis using t Inl by (intro exI [of _ 1]) simp
  next
    case (Inr u)
    obtain r1 rest where rest: "run_tasks exec (Suc k) ts = (r1, rest)" by (meson surj_pair)
    have eq: "r = r1" "outs = map (Pair k) os @ rest" using 2(2) t Inr rest by auto
    obtain m where m: "m \<le> length ts" "\<And>i. of_task i rest = (if Suc k \<le> i \<and> i < Suc k + m then snd (exec (ts ! (i - Suc k))) else [])"
      "case r1 of Inr _ \<Rightarrow> m = length ts \<and> (\<forall>t \<in> set ts. fst (exec t) = Inr ()) | Inl er \<Rightarrow> (\<exists>t \<in> set ts. fst (exec t) = Inl er)"
      using 2(1) [OF t [symmetric] Inr rest] by blast
    have "of_task i outs = (if k \<le> i \<and> i < k + Suc m then snd (exec ((t # ts) ! (i - k))) else [])" for i
      unfolding eq of_task_simps of_task_pair m(2) using t by (cases "i = k") (auto simp: nth_Cons' diff_diff_left Suc_le_eq)
    moreover have "case r of Inr _ \<Rightarrow> Suc m = length (t # ts) \<and> (\<forall>t \<in> set (t # ts). fst (exec t) = Inr ())
        | Inl er \<Rightarrow> (\<exists>t \<in> set (t # ts). fst (exec t) = Inl er)"
      using m(3) t Inr unfolding eq by (cases r1) auto
    ultimately show ?thesis using m(1) by (intro exI [of _ "Suc m"]) simp
  qed
qed auto

lemma threads_outcome:
  assumes "(pool_step exec tasks)\<^sup>*\<^sup>* (new_Pool W) s" "list_all (\<lambda>pc. pc = At_End) (po_workers s)" "0 < W"
  shows "(first_error_status s = Inr () \<longrightarrow> set (po_finished s) = {..<length tasks} \<and> (\<forall>er. \<not> failed exec tasks s er)) \<and>
    (\<forall>er. first_error_status s = Inl er \<longrightarrow> failed exec tasks s er) \<and> set (po_finished s) \<subseteq> {..<length tasks} \<and>
    (\<forall>i. of_task i (po_outputs s) = (if i \<in> set (po_finished s) then snd (exec (tasks ! i)) else []))"
proof -
  have inv: "claims_ok tasks s" "outputs_ok exec tasks s" "errors_ok exec tasks s" "length (po_workers s) = W"
    using pool_reachable [OF assms(1)] by blast+
  have ended: "\<forall>pc \<in> set (po_workers s). pc = At_End" using assms(2) by (simp add: list_all_iff)
  then have "claim s w = None" for w by (metis claim_def claims.simps(7) nth_mem)
  then have fin: "i < po_next s \<and> i < length tasks \<longleftrightarrow> i \<in> set (po_finished s)" for i using inv(1) by (simp add: claims_ok_def)
  have "At_End \<in> set (po_workers s)" using ended inv(4) assms(3) by (metis length_greater_0_conv list.set_sel(1))
  then have over: "po_next s \<ge> length tasks \<or> po_first_error s \<noteq> None" using inv(3) by (simp add: errors_ok_def)
  have nolock: "At_Lock er \<notin> set (po_workers s)" for er using ended by blast
  have ok: "set (po_finished s) = {..<length tasks} \<and> (\<forall>er. \<not> failed exec tasks s er)" if "po_first_error s = None"
  proof
    show "set (po_finished s) = {..<length tasks}" using over fin that by (metis lessThan_iff less_le_trans subsetI subset_antisym)
    show "\<forall>er. \<not> failed exec tasks s er" using inv(3) nolock that by (simp add: errors_ok_def)
  qed
  have er: "failed exec tasks s er" if "po_first_error s = Some er" for er using inv(3) that by (simp add: errors_ok_def)
  have "of_task i (po_outputs s) = (if i \<in> set (po_finished s) then snd (exec (tasks ! i)) else [])" for i
    using inv(2) fin [of i] by (auto simp: outputs_ok_def)
  with ok er show ?thesis using fin by (auto simp: first_error_status_def split: option.splits)
qed

lemma pool_outcome_cases:
  assumes "RunMaterializeTaskPool exec tasks workers r outs"
  shows "\<exists>done \<subseteq> {..<length tasks}. (\<forall>i. of_task i outs = (if i \<in> done then snd (exec (tasks ! i)) else [])) \<and>
    (case r of Inr _ \<Rightarrow> done = {..<length tasks} \<and> (\<forall>i < length tasks. fst (exec (tasks ! i)) = Inr ())
             | Inl er \<Rightarrow> (\<exists>i < length tasks. fst (exec (tasks ! i)) = Inl er))"
  using assms
proof (induction rule: RunMaterializeTaskPool.induct)
  case (no_task workers)
  then show ?case by simp
next
  case (sequential tasks workers r outs)
  from run_tasks_outcome [OF sequential(3)] obtain m where m: "m \<le> length tasks"
    "\<And>i. of_task i outs = (if i < m then snd (exec (tasks ! i)) else [])"
    "case r of Inr _ \<Rightarrow> m = length tasks \<and> (\<forall>t \<in> set tasks. fst (exec t) = Inr ()) | Inl er \<Rightarrow> (\<exists>t \<in> set tasks. fst (exec t) = Inl er)" by auto
  have "case r of Inr _ \<Rightarrow> {..<m} = {..<length tasks} \<and> (\<forall>i < length tasks. fst (exec (tasks ! i)) = Inr ())
     | Inl er \<Rightarrow> (\<exists>i < length tasks. fst (exec (tasks ! i)) = Inl er)"
    using m(3) nth_mem [of _ tasks] by (cases r) (auto simp: in_set_conv_nth)
  with m(1,2) show ?case by (intro exI [of _ "{..<m}"]) auto
next
  case (threads tasks workers s)
  have "0 < unat (pool_width tasks workers)" using threads(2) by (simp add: unat_gt_0) (auto simp: word_less_def)
  from threads_outcome [OF threads(3,4) this] have o: "first_error_status s = Inr () \<longrightarrow> set (po_finished s) = {..<length tasks} \<and> (\<forall>er. \<not> failed exec tasks s er)"
    "\<forall>er. first_error_status s = Inl er \<longrightarrow> failed exec tasks s er" "set (po_finished s) \<subseteq> {..<length tasks}"
    "\<forall>i. of_task i (po_outputs s) = (if i \<in> set (po_finished s) then snd (exec (tasks ! i)) else [])" by blast+
  show ?case
  proof (intro exI [of _ "set (po_finished s)"] conjI)
    show "case first_error_status s of Inr _ \<Rightarrow> set (po_finished s) = {..<length tasks} \<and> (\<forall>i < length tasks. fst (exec (tasks ! i)) = Inr ())
             | Inl er \<Rightarrow> (\<exists>i < length tasks. fst (exec (tasks ! i)) = Inl er)"
    proof (cases "first_error_status s")
      case (Inl er)
      then show ?thesis using o(2,3) by (auto simp: failed_def)
    next
      case (Inr u)
      then have fin: "set (po_finished s) = {..<length tasks}" "\<not> failed exec tasks s er" for er using o(1) by auto
      have "fst (exec (tasks ! i)) = Inr ()" if "i < length tasks" for i
        using fin that by (cases "fst (exec (tasks ! i))") (auto simp: failed_def)
      then show ?thesis using fin Inr by simp
    qed
  qed (use o(3,4) in auto)
qed

section \<open>Properties\<close>

text \<open>C7: the outcome of the task pool, for every number of workers and every interleaving of the
  threads. It reports success exactly when every task succeeds, and then every task has handed over
  exactly its outputs, in its order; an error it reports is the error of one of the tasks; and in
  every case a task has handed over all of its outputs or none, and nothing else is handed over.\<close>

theorem pool_outcome:
  assumes "RunMaterializeTaskPool exec tasks workers r outs"
  shows "(r = Inr () \<longleftrightarrow> (\<forall>t \<in> set tasks. fst (exec t) = Inr ())) \<and> (\<forall>er. r = Inl er \<longrightarrow> (\<exists>t \<in> set tasks. fst (exec t) = Inl er)) \<and>
    (r = Inr () \<longrightarrow> (\<forall>i < length tasks. of_task i outs = snd (exec (tasks ! i)))) \<and>
    (\<forall>i. of_task i outs = [] \<or> i < length tasks \<and> of_task i outs = snd (exec (tasks ! i)))"
proof (cases r)
  case (Inl er)
  with pool_outcome_cases [OF assms] show ?thesis by simp (metis (no_types, lifting) Inl_Inr_False lessThan_iff nth_mem subsetD)
next
  case (Inr u)
  with pool_outcome_cases [OF assms] show ?thesis by (auto simp: in_set_conv_nth)
qed

text \<open>Two tasks, the second of which fails, on two threads.\<close>

definition sample_exec :: "nat \<Rightarrow> unit zf_result \<times> nat list" where
  "sample_exec t = (if t = 5 then (Inr (), [50, 51]) else (Inl (Corruption ''bad''), []))"

theorem pool_outcome_witness:
  "\<exists>r outs. RunMaterializeTaskPool sample_exec [5, 6] 2 r outs \<and> r = Inl (Corruption ''bad'') \<and> (of_task 0 outs = [] \<or> of_task 0 outs = [50, 51])"
proof -
  obtain r outs where "RunMaterializeTaskPool sample_exec [5, 6] 2 r outs" using pool_returns by blast
  with pool_outcome [OF this] show ?thesis
    by (intro exI [of _ r] exI [of _ outs], cases r) (auto simp: sample_exec_def dest: spec [of _ 0])
qed

text \<open>C8: the task pool returns. There is no infinite run of its threads, in no state before the end are
  all threads stuck, and so every call has an outcome.\<close>

theorem pool_terminates:
  "wfP (\<lambda>s' s. pool_step exec tasks s s') \<and>
   (\<forall>s. list_all (\<lambda>pc. pc = At_End) (po_workers s) \<or> (\<exists>s'. pool_step exec tasks s s')) \<and>
   (\<exists>r outs. RunMaterializeTaskPool exec tasks workers r outs)"
proof (intro conjI allI)
  have "wfP (\<lambda>s' s. pool_weight exec tasks s' < pool_weight exec tasks s)" by (simp add: wfp_on_inv_imagep wfp_if_convertible_to_nat)
  then show "wfP (\<lambda>s' s. pool_step exec tasks s s')" by (rule wfp_subset) (use weight_step in blast)
  show "list_all (\<lambda>pc. pc = At_End) (po_workers s) \<or> (\<exists>s'. pool_step exec tasks s s')" for s
    using pool_progress [of _ s exec tasks] by (auto simp: list_all_iff)
  show "\<exists>r outs. RunMaterializeTaskPool exec tasks workers r outs" by (rule pool_returns)
qed

end
