(* ===== verification/ZfFlushJob.thy ===== *)
theory ZfFlushJob
  imports ZfInstall ZfTaskPool
begin

text \<open>
  The flush of ZeroFlush memtables (\<^verbatim>\<open>FlushJob::ZfMaterializeAllEpochs\<close> of \<^verbatim>\<open>db/flush_job.cc\<close>): it plans the
  epochs of its memtables in order, runs the tasks of all of them in the pool, places the outputs,
  hands over what was skipped, and writes one edit; when planning or a task fails it takes back what
  it has done.

  The pool's outcome is an argument; \<open>pool_ran\<close> says that it is an outcome of
  \<^const>\<open>RunMaterializeTaskPool\<close> on the tasks. The database mutex is released while the pool runs: another
  argument is what other threads do to the shared state in the meantime. The lemmas: plans of
  several jobs are released together, and the outputs of several jobs are placed without overlap.
  The properties: a flush that fails leaves no trace, and a flush without merging installs every
  table of every task, in a consistent tree, whatever the schedule.
\<close>

section \<open>The phases\<close>

record FlushState =
  fl_ctx :: ZeroFlushContext
  fl_last_materialized_epoch :: u64
  fl_db :: MatDb
  fl_deleted_tables :: "u64 list"

definition epoch_table :: "ZeroFlushContext \<Rightarrow> SealedEpoch \<Rightarrow> PartitionTable option" where
  "epoch_table c se = (case zc_tables c of None \<Rightarrow> None | Some ts \<Rightarrow> set_Get ts (se_table_version se))"

text \<open>Phase 0, for the epochs of the memtables.\<close>

fun plan_epochs :: "ZeroFlushContext \<Rightarrow> nat option \<Rightarrow> u64 list \<Rightarrow> ZfMaterializeJob list \<Rightarrow> MatDb \<Rightarrow> unit zf_result \<times> ZfMaterializeJob list \<times> MatDb" where
  "plan_epochs c proximal [] jobs db = (Inr (), jobs, db)"
| "plan_epochs c proximal (epoch # epochs) jobs db =
     (if epoch = 0 then (Inl (Corruption ''ZeroFlush: immutable memtable without epoch in zf flush''), jobs, db)
      else case GetEpoch (zc_sealed c) epoch of
             None \<Rightarrow> (Inl (Corruption (''ZeroFlush: sealed epoch '' @ to_string (unat epoch) @ '' not registered'')), jobs, db)
           | Some se \<Rightarrow>
               (case PlanLocked c proximal (new_ZfMaterializeJob epoch se (epoch_table c se)) db of
                  (j, db') \<Rightarrow> plan_epochs c proximal epochs (jobs @ [j]) db'))"

fun release_jobs :: "ZfMaterializeJob list \<Rightarrow> MatDb \<Rightarrow> ZfMaterializeJob list \<times> MatDb" where
  "release_jobs [] db = ([], db)"
| "release_jobs (j # js) db =
     (case FinishPlansLocked j db of (j', db') \<Rightarrow> (case release_jobs js db' of (js', db'') \<Rightarrow> (j' # js', db'')))"

text \<open>Phase 1: the tasks, by the number of their job.\<close>

definition collect_tasks :: "ZfMaterializeJob list \<Rightarrow> (nat \<times> u32) list" where
  "collect_tasks jobs = concat (map (\<lambda>k. map (Pair k) (CollectTasks (jobs ! k))) [0..<length jobs])"

definition task_result ::
    "ZeroFlushContext \<Rightarrow> (nat \<times> u32 \<Rightarrow> table_builder) \<Rightarrow> (kvs \<Rightarrow> MaterializeOutput option) \<Rightarrow>
     (PartitionPlan \<Rightarrow> (u32 \<times> u32) list \<Rightarrow> bytes \<Rightarrow> bytes \<Rightarrow> (unit zf_result \<times> MaterializeOutput list) option) \<Rightarrow>
     ZfMaterializeJob list \<Rightarrow> nat \<times> u32 \<Rightarrow> (unit zf_result \<times> MaterializeOutput list) option" where
  "task_result c build csd merge jobs t =
     map_option (\<lambda>(r, j). (r, mj_outputs j)) (ExecutePartition c (build t) csd merge ((jobs ! fst t) \<lparr> mj_outputs := [] \<rparr>) (snd t))"

definition pool_ran ::
    "ZeroFlushContext \<Rightarrow> (nat \<times> u32 \<Rightarrow> table_builder) \<Rightarrow> (kvs \<Rightarrow> MaterializeOutput option) \<Rightarrow>
     (PartitionPlan \<Rightarrow> (u32 \<times> u32) list \<Rightarrow> bytes \<Rightarrow> bytes \<Rightarrow> (unit zf_result \<times> MaterializeOutput list) option) \<Rightarrow>
     ZfMaterializeJob list \<Rightarrow> unit zf_result \<times> (nat \<times> MaterializeOutput) list \<Rightarrow> bool" where
  "pool_ran c build csd merge jobs pool \<longleftrightarrow>
     (\<exists>exec. (\<forall>t \<in> set (collect_tasks jobs). task_result c build csd merge jobs t = Some (exec t)) \<and>
        RunMaterializeTaskPool exec (collect_tasks jobs) (max 1 (zo_materialize_parallelism (zc_zfo c))) (fst pool) (snd pool))"

text \<open>The outputs arrive in the list of their job, in the order of arrival.\<close>

definition deliver :: "(nat \<times> u32) list \<Rightarrow> (nat \<times> MaterializeOutput) list \<Rightarrow> ZfMaterializeJob list \<Rightarrow> ZfMaterializeJob list" where
  "deliver tasks outs jobs =
     map (\<lambda>k. (jobs ! k) \<lparr> mj_outputs := mj_outputs (jobs ! k) @ map snd (filter (\<lambda>x. fst (tasks ! fst x) = k) outs) \<rparr>) [0..<length jobs]"

fun drain_jobs :: "ZfMaterializeJob list \<Rightarrow> MaterializeOutput list \<Rightarrow> ZfMaterializeJob list \<times> MaterializeOutput list" where
  "drain_jobs [] out = ([], out)"
| "drain_jobs (j # js) out =
     (case DrainOutputs j out of (j', out') \<Rightarrow> (case drain_jobs js out' of (js', out'') \<Rightarrow> (j' # js', out'')))"

text \<open>Phase 2.\<close>

fun finalize_jobs :: "ZeroFlushContext \<Rightarrow> ZfMaterializeJob list \<Rightarrow> u64 \<Rightarrow> MatDb \<Rightarrow> (ZfMaterializeJob list \<times> u64 \<times> MatDb) zf_result" where
  "finalize_jobs c [] lst db = Inr ([], lst, db)"
| "finalize_jobs c (j # js) lst db =
     res_bind (FinalizeLocked c j db) (\<lambda>(j', db').
       res_bind (finalize_jobs c js (mj_epoch j') db') (\<lambda>(js', lst', db''). Inr (j' # js', lst', db'')))"

definition table_number :: "MaterializeOutput \<Rightarrow> u64" where
  "table_number x = fm_number (mo_meta x)"

text \<open>The error of phase 2 stands for a null pointer: the state after it is of no use.\<close>

definition ZfMaterializeAllEpochs ::
    "nat option \<Rightarrow> unit zf_result \<times> (nat \<times> MaterializeOutput) list \<Rightarrow> (MatDb \<Rightarrow> MatDb) \<Rightarrow> u64 \<Rightarrow> u64 list \<Rightarrow> FlushState \<Rightarrow> VersionEdit zf_result \<times> FlushState" where
  "ZfMaterializeAllEpochs proximal pool others now epochs st =
     (let c = fl_ctx st; last_before = fl_last_materialized_epoch st
      in case plan_epochs c proximal epochs [] (fl_db st) of
           (Inl er, jobs, db) \<Rightarrow>
             (Inl er, st \<lparr> fl_db := snd (release_jobs jobs db), fl_last_materialized_epoch := last_before \<rparr>)
         | (Inr _, jobs, db) \<Rightarrow>
             let jobs = deliver (collect_tasks jobs) (snd pool) jobs; db = others db
             in case fst pool of
                  Inl er \<Rightarrow>
                    (case drain_jobs jobs [] of
                       (jobs, outs) \<Rightarrow>
                         (Inl er, st \<lparr> fl_deleted_tables := fl_deleted_tables st @ map table_number outs,
                                       fl_db := snd (release_jobs jobs db), fl_last_materialized_epoch := last_before \<rparr>))
                | Inr _ \<Rightarrow>
                    (case finalize_jobs c jobs last_before db of
                       Inl er \<Rightarrow> (Inl er, st \<lparr> fl_last_materialized_epoch := last_before \<rparr>)
                     | Inr (jobs, last', db) \<Rightarrow>
                         (Inr (install_edit (md_current db) (md_batch db)),
                          st \<lparr> fl_ctx := foldl (\<lambda>c j. HandOffSkipped c now j) c jobs, fl_last_materialized_epoch := last', fl_db := db,
                               fl_deleted_tables := fl_deleted_tables st @ concat (map mj_orphan_files jobs) \<rparr>)))"

section \<open>A flush that fails\<close>

lemma release_plans_append:
  "release_plans (ps @ qs) db = (case release_plans ps db of (ps', db') \<Rightarrow> (case release_plans qs db' of (qs', db'') \<Rightarrow> (ps' @ qs', db'')))"
  by (induction ps arbitrary: db) (auto split: prod.splits)

lemma release_jobs_plans: "snd (release_jobs jobs db) = snd (release_plans (concat (map mj_plans jobs)) db)"
proof (induction jobs arbitrary: db)
  case (Cons j jobs)
  have "snd (case release_jobs jobs db1 of (js, db2) \<Rightarrow> (j1 # js, db2)) =
    snd (case release_plans (concat (map mj_plans jobs)) db1 of (qs, db2) \<Rightarrow> (ps @ qs, db2))" for j1 ps db1
    using Cons.IH [of db1] by (simp add: case_prod_beta)
  then show ?case by (simp add: release_plans_append FinishPlansLocked_def split: prod.splits)
qed simp

lemma planning_cong: "mj_plans j = mj_plans j' \<Longrightarrow> planning db0 j db = planning db0 j' db"
  by (simp add: planning_def)

lemma mark_version_files: "version_files (MarkFilesBeingCompacted b nums v) = mark_file b nums ` version_files v"
  by (auto simp: version_files_def Mark_files)

lemma planning_agree:
  assumes "planning db0 j db" "flags_agree db0"
  shows "flags_agree db"
proof -
  obtain nums where "md_base db = MarkFilesBeingCompacted True nums (md_base db0)" "md_current db = MarkFilesBeingCompacted True nums (md_current db0)"
    using assms(1) unfolding planning_def Let_def by blast
  then show ?thesis using assms(2) unfolding flags_agree_def by (auto simp: mark_version_files; metis Un_iff)
qed

lemma planning_trans:
  assumes "planning db0 j1 db1" "planning db1 j2 db2"
  shows "planning db0 (j \<lparr> mj_plans := mj_plans j1 @ mj_plans j2 \<rparr>) db2"
proof -
  define cs1 cs2 where "cs1 = plan_comps (mj_plans j1)" and "cs2 = plan_comps (mj_plans j2)"
  define n1 n2 where "n1 = concat (map input_numbers cs1)" and "n2 = concat (map input_numbers cs2)"
  note d = assms [unfolded planning_def Let_def, folded cs1_def cs2_def, folded n1_def n2_def]
  have "\<not> fm_being_compacted f" if f: "f \<in> version_files (md_base db0) \<union> version_files (md_current db0)" "fm_number f \<in> set n1 \<union> set n2" for f
  proof (cases "fm_number f \<in> set n1")
    case False
    have "mark_file True n1 f \<in> version_files (md_base db1) \<union> version_files (md_current db1)"
      using f(1) d(1) by (auto simp: mark_version_files)
    moreover have "fm_number (mark_file True n1 f) \<in> set n2" using f(2) False by simp
    ultimately have "\<not> fm_being_compacted (mark_file True n1 f)" using d(2) by blast
    then show ?thesis using False by simp
  qed (use d(1) f(1) in blast)
  moreover have "md_picker db2 = map_option (\<lambda>p. p \<lparr> cpk_level0 := rev (cs1 @ cs2) @ cpk_level0 p, cpk_in_progress := rev (cs1 @ cs2) @ cpk_in_progress p \<rparr>) (md_picker db0)"
    using d by (cases "md_picker db0") simp_all
  moreover have "md_base db2 = MarkFilesBeingCompacted True (n1 @ n2) (md_base db0)" "md_current db2 = MarkFilesBeingCompacted True (n1 @ n2) (md_current db0)"
    using d by (simp_all add: mark_mark)
  moreover have "\<forall>cpn \<in> set (cs1 @ cs2). cp_start_level cpn = 0 \<and> md_next_id db0 \<le> cp_id cpn" using d by fastforce
  moreover have "md_next_id db0 \<le> md_next_id db2" "md_batch db2 = []" using d by linarith+
  ultimately show ?thesis unfolding planning_def Let_def
    by (simp add: cs1_def [symmetric] cs2_def [symmetric] n1_def [symmetric] n2_def [symmetric])
qed

text \<open>The plans of the jobs of a flush, as those of one job.\<close>

definition all_plans :: "ZfMaterializeJob \<Rightarrow> ZfMaterializeJob list \<Rightarrow> ZfMaterializeJob" where
  "all_plans j0 jobs = j0 \<lparr> mj_plans := concat (map mj_plans jobs) \<rparr>"

lemma plan_epochs_planning:
  assumes "plan_epochs c None epochs jobs db = (r, jobs', db')" "planning db0 (all_plans j0 jobs) db" "flags_agree db0"
  shows "planning db0 (all_plans j0 jobs') db'"
  using assms
proof (induction epochs arbitrary: jobs db)
  case (Cons epoch epochs)
  show ?case
  proof (cases "epoch = 0 \<or> GetEpoch (zc_sealed c) epoch = None")
    case False
    then obtain se where se: "epoch \<noteq> 0" "GetEpoch (zc_sealed c) epoch = Some se" by auto
    obtain j db1 where p: "PlanLocked c None (new_ZfMaterializeJob epoch se (epoch_table c se)) db = (j, db1)" by (meson surj_pair)
    have "md_batch db = []" using Cons.prems(2) by (simp add: planning_def Let_def)
    from PlanLocked_planning [OF p this planning_agree [OF Cons.prems(2,3)]]
    have "planning db0 (all_plans j0 (jobs @ [j])) db1"
      using planning_trans [OF Cons.prems(2), of j db1] planning_cong [of "all_plans j0 (jobs @ [j])" _ db0 db1] by (simp add: all_plans_def)
    moreover have "plan_epochs c None epochs (jobs @ [j]) db1 = (r, jobs', db')" using Cons.prems(1) se p by simp
    ultimately show ?thesis using Cons.IH Cons.prems(3) by blast
  qed (use Cons.prems in \<open>auto split: if_splits\<close>)
qed simp

lemma jobs_released:
  assumes "planning db0 (all_plans j0 jobs) db" "picker_ids_below db0" "map mj_plans jobs' = map mj_plans jobs"
  shows "md_picker (snd (release_jobs jobs' db)) = md_picker db0 \<and> md_base (snd (release_jobs jobs' db)) = md_base db0 \<and>
    md_current (snd (release_jobs jobs' db)) = md_current db0 \<and> md_batch (snd (release_jobs jobs' db)) = []"
proof -
  obtain ps db2 where r: "release_plans (mj_plans (all_plans j0 jobs)) db = (ps, db2)" by (meson surj_pair)
  have "snd (release_jobs jobs' db) = db2" using r by (simp add: release_jobs_plans assms(3) all_plans_def)
  then show ?thesis using release_restores [OF assms(1,2) r] by simp
qed

lemma drain_jobs_simp: "drain_jobs jobs out = (map (\<lambda>j. j \<lparr> mj_outputs := [] \<rparr>) jobs, out @ concat (map mj_outputs jobs))"
  by (induction jobs arbitrary: out) (simp_all add: DrainOutputs_def)

lemma deliver_plans: "map mj_plans (deliver tasks outs jobs) = map mj_plans jobs" "length (deliver tasks outs jobs) = length jobs"
  "map mj_epoch (deliver tasks outs jobs) = map mj_epoch jobs"
  by (auto intro!: nth_equalityI simp: deliver_def)

lemma collect_tasks_job: "t \<in> set (collect_tasks jobs) \<Longrightarrow> fst t < length jobs"
  by (auto simp: collect_tasks_def)

lemma deliver_outputs:
  assumes "\<forall>j \<in> set jobs. mj_outputs j = []" "\<forall>x \<in> set outs. fst x < length tasks" "\<forall>t \<in> set tasks. fst t < length jobs"
  shows "mset (concat (map mj_outputs (deliver tasks outs jobs))) = mset (map snd outs)"
proof -
  have "mj_outputs (jobs ! k) = []" if "k < length jobs" for k using assms(1) that by simp
  then have "concat (map mj_outputs (deliver tasks outs jobs)) = concat (map (\<lambda>k. map snd (filter (\<lambda>x. fst (tasks ! fst x) = k) outs)) [0..<length jobs])"
    unfolding deliver_def map_map comp_def by (intro arg_cong [of _ _ concat] map_cong) simp_all
  moreover have "mset (concat (map (\<lambda>k. map snd (filter (\<lambda>x. g x = k) ys)) [0..<n])) = mset (map snd (filter (\<lambda>x. g x < n) ys))"
    for g :: "nat \<times> MaterializeOutput \<Rightarrow> nat" and ys n
  proof (induction n)
    case (Suc n)
    have "mset (map snd (filter (\<lambda>x. g x < Suc n) ys)) = mset (map snd (filter (\<lambda>x. g x < n) ys)) + mset (map snd (filter (\<lambda>x. g x = n) ys))"
      by (induction ys) auto
    then show ?case using Suc by simp
  qed simp
  moreover have "filter (\<lambda>x. fst (tasks ! fst x) < length jobs) outs = outs"
    using assms(2,3) by (intro filter_True ballI) (meson nth_mem)
  ultimately show ?thesis by metis
qed

lemma plan_epochs_jobs:
  assumes "plan_epochs c proximal epochs jobs db = (r, jobs', db')" "\<forall>j \<in> set jobs. mj_outputs j = []"
  shows "\<forall>j \<in> set jobs'. mj_outputs j = []"
  using assms
proof (induction epochs arbitrary: jobs db)
  case (Cons epoch epochs)
  show ?case
  proof (cases "epoch = 0 \<or> GetEpoch (zc_sealed c) epoch = None")
    case False
    then obtain se where se: "epoch \<noteq> 0" "GetEpoch (zc_sealed c) epoch = Some se" by auto
    obtain j db1 where p: "PlanLocked c proximal (new_ZfMaterializeJob epoch se (epoch_table c se)) db = (j, db1)" by (meson surj_pair)
    have "mj_outputs j = []" using PlanLocked_frame(7) [OF p] by (simp add: new_ZfMaterializeJob_def)
    moreover have "plan_epochs c proximal epochs (jobs @ [j]) db1 = (r, jobs', db')" using Cons.prems(1) se p by simp
    ultimately show ?thesis using Cons.prems(2) by (intro Cons.IH [of "jobs @ [j]" db1]) auto
  qed (use Cons.prems in \<open>auto split: if_splits\<close>)
qed simp

lemma of_task_bound:
  assumes "\<forall>i. of_task i outs = [] \<or> i < n" "x \<in> set outs"
  shows "fst x < n"
proof -
  have "snd x \<in> set (of_task (fst x) outs)" using assms(2) by (force simp: of_task_def)
  then show ?thesis using assms(1) by (metis empty_iff empty_set)
qed

lemma pool_ran_outputs:
  assumes "pool_ran c build csd merge jobs pool"
  shows "\<forall>x \<in> set (snd pool). fst x < length (collect_tasks jobs)"
proof -
  obtain exec where "RunMaterializeTaskPool exec (collect_tasks jobs) (max 1 (zo_materialize_parallelism (zc_zfo c))) (fst pool) (snd pool)"
    using assms by (auto simp: pool_ran_def)
  from pool_outcome_cases [OF this] have "\<forall>i. of_task i (snd pool) = [] \<or> i < length (collect_tasks jobs)" by (metis lessThan_iff subsetD)
  then show ?thesis using of_task_bound by blast
qed

text \<open>C5: a flush that fails leaves no trace. When the planning of an epoch fails or the pool reports an
  error, the flush returns an error; the picker and both versions are as before, with every
  registration and every mark taken back for all epochs of the flush; the context, the last
  materialised epoch and the batch are as before, and every table the pool has produced is deleted.
  Scope: no proximal level is configured (with one, planning drops the compaction object and the marks
  of its files stay), and no other thread changes the shared state while the tasks run without the
  mutex (\<open>others db1 = db1\<close>).\<close>

theorem flush_failure_undone:
  assumes "plan_epochs (fl_ctx st) None epochs [] (fl_db st) = (r, jobs, db1)" "r \<noteq> Inr () \<or> fst pool \<noteq> Inr ()"
    "r = Inr () \<longrightarrow> pool_ran (fl_ctx st) build csd merge jobs pool" "others db1 = db1"
    "md_batch (fl_db st) = []" "flags_agree (fl_db st)" "picker_ids_below (fl_db st)"
  shows "\<exists>er st'. ZfMaterializeAllEpochs None pool others now epochs st = (Inl er, st') \<and>
    md_picker (fl_db st') = md_picker (fl_db st) \<and> md_base (fl_db st') = md_base (fl_db st) \<and> md_current (fl_db st') = md_current (fl_db st) \<and>
    md_batch (fl_db st') = [] \<and> fl_ctx st' = fl_ctx st \<and> fl_last_materialized_epoch st' = fl_last_materialized_epoch st \<and>
    mset (fl_deleted_tables st') = mset (fl_deleted_tables st) + (if r = Inr () then mset (map (\<lambda>x. table_number (snd x)) (snd pool)) else {#})"
proof -
  have "planning (fl_db st) (all_plans (new_ZfMaterializeJob 0 undefined None) []) (fl_db st)"
    using assms(5) by (simp add: planning_def mark_mark option.map_ident all_plans_def)
  from plan_epochs_planning [OF assms(1) this assms(6)]
  have inv: "planning (fl_db st) (all_plans (new_ZfMaterializeJob 0 undefined None) jobs) db1" .
  show ?thesis
  proof (cases r)
    case (Inl er)
    then show ?thesis using jobs_released [OF inv assms(7) refl] by (simp add: ZfMaterializeAllEpochs_def assms(1))
  next
    case (Inr u)
    let ?jobs = "deliver (collect_tasks jobs) (snd pool) jobs"
    obtain er where er: "fst pool = Inl er" using assms(2) Inr by (cases "fst pool") auto
    have run: "\<forall>x \<in> set (snd pool). fst x < length (collect_tasks jobs)" using assms(3) Inr by (intro pool_ran_outputs) simp
    have "mset (concat (map mj_outputs ?jobs)) = mset (map snd (snd pool))"
      using plan_epochs_jobs [OF assms(1)] run collect_tasks_job by (intro deliver_outputs) auto
    then have "mset (map table_number (concat (map mj_outputs ?jobs))) = mset (map (\<lambda>x. table_number (snd x)) (snd pool))"
      using arg_cong [of _ _ "image_mset table_number"] by (simp add: comp_def multiset.map_comp)
    then show ?thesis
      using Inr er jobs_released [OF inv assms(7), of "map (\<lambda>j. j \<lparr> mj_outputs := [] \<rparr>) ?jobs"]
      by (simp add: ZfMaterializeAllEpochs_def Let_def assms(1,4) drain_jobs_simp comp_def deliver_plans)
  qed
qed

section \<open>A flush without merging\<close>

text \<open>The jobs of a flush without merging: nothing is registered, and every partition of every epoch has a
  task.\<close>

definition plain_job :: "ZfMaterializeJob \<Rightarrow> bool" where
  "plain_job j \<longleftrightarrow> (\<forall>p \<in> set (mj_plans j). pp_decision p = kDirect \<and> \<not> pp_force_replace p) \<and> mj_outputs j = [] \<and>
     set (CollectTasks j) = fst ` set (se_gens (mj_se j))"

lemma PlanLocked_plain:
  assumes "PlanLocked c proximal j db = (j', db')" "\<not> zo_merge_into_base_level (zc_zfo c)" "mj_outputs j = []"
  shows "plain_job j' \<and> mj_epoch j' = mj_epoch j \<and> mj_se j' = mj_se j \<and> db' = db"
proof -
  note f = PlanLocked_frame [OF assms(1)] and pl = plans_plain [OF assms(1,2)]
  have "(case FindPlan (mj_plans j') pid of None \<Rightarrow> True | Some p \<Rightarrow> pp_decision p \<noteq> kSkip)" for pid
    using pl(1) FindPlan_mem [of "mj_plans j'" pid] by (auto split: option.splits)
  then have "set (CollectTasks j') = fst ` set (se_gens (mj_se j'))" using job_ids(1) [of j] by (simp add: CollectTasks_def f(2,3))
  moreover have "mj_epoch j' = mj_epoch j"
  proof -
    have step: "plan_partition c proximal j db pid = (new_plan pid, j, db)" for j db pid
      using assms(2) by (simp add: plan_partition_def merge_enabled_def plan_no_merge_def Let_def)
    have "plan_loop c proximal i db pids = (i', d) \<Longrightarrow> mj_epoch i' = mj_epoch i" for pids i i' d
      by (induction pids arbitrary: i) (auto simp: step)
    then show ?thesis using assms(1) by (auto simp: PlanLocked_def Let_def split: prod.splits)
  qed
  ultimately show ?thesis using pl f(3,7) assms(3) by (simp add: plain_job_def)
qed

lemma plan_epochs_plain:
  assumes "plan_epochs c proximal epochs jobs db = (Inr (), jobs', db')" "\<not> zo_merge_into_base_level (zc_zfo c)" "\<forall>j \<in> set jobs. plain_job j"
  shows "(\<forall>j \<in> set jobs'. plain_job j) \<and> db' = db \<and>
    map (\<lambda>j. (mj_epoch j, Some (mj_se j))) jobs' = map (\<lambda>j. (mj_epoch j, Some (mj_se j))) jobs @ map (\<lambda>ep. (ep, GetEpoch (zc_sealed c) ep)) epochs"
  using assms
proof (induction epochs arbitrary: jobs)
  case (Cons epoch epochs)
  then obtain se where se: "epoch \<noteq> 0" "GetEpoch (zc_sealed c) epoch = Some se" by (auto split: if_splits option.splits)
  let ?j = "new_ZfMaterializeJob epoch se (epoch_table c se)"
  obtain j db1 where p: "PlanLocked c proximal ?j db = (j, db1)" by (meson surj_pair)
  have j: "plain_job j" "mj_epoch j = epoch" "mj_se j = se" "db1 = db"
    using PlanLocked_plain [OF p Cons.prems(2)] by (simp_all add: new_ZfMaterializeJob_def)
  have "plan_epochs c proximal epochs (jobs @ [j]) db = (Inr (), jobs', db')" using Cons.prems(1) se p j(4) by simp
  from Cons.IH [OF this Cons.prems(2)] show ?case using Cons.prems(3) j se(2) by simp
qed simp

lemma plan_epochs_registered:
  assumes "\<forall>ep \<in> set epochs. ep \<noteq> 0 \<and> GetEpoch (zc_sealed c) ep \<noteq> None"
  shows "\<exists>jobs' db'. plan_epochs c proximal epochs jobs db = (Inr (), jobs', db')"
  using assms by (induction epochs arbitrary: jobs db) (auto split: prod.splits)

lemma FinalizeLocked_direct:
  assumes "user_key_comparator (zc_ucmp c)" "version_ok (zc_ucmp c) (md_current db)" "\<forall>x \<in> set (mj_outputs j). direct_output (zc_ucmp c) x"
    "\<forall>p \<in> set (mj_plans j). pp_decision p = kDirect \<and> \<not> pp_force_replace p" "batch_apart (zc_ucmp c) (md_current db) (md_batch db)"
  shows "\<exists>j' batch. FinalizeLocked c j db = Inr (j', db \<lparr> md_batch := batch \<rparr>) \<and> mj_epoch j' = mj_epoch j \<and>
    batch_apart (zc_ucmp c) (md_current db) batch \<and> map mo_meta batch = map mo_meta (md_batch db @ mj_outputs j)"
proof -
  obtain batch where b: "finalize_loop c (j \<lparr> mj_outputs := [] \<rparr>) db (mj_outputs j) = Inr (j \<lparr> mj_outputs := [] \<rparr>, db \<lparr> md_batch := batch \<rparr>)"
    "batch_apart (zc_ucmp c) (md_current db) batch" "map mo_meta batch = map mo_meta (md_batch db @ mj_outputs j)"
    using finalize_loop_direct [OF assms(1-3), of "j \<lparr> mj_outputs := [] \<rparr>"] assms(4,5) by auto
  have "release_plans (mj_plans j) (db \<lparr> md_batch := batch \<rparr>) = (mj_plans j, db \<lparr> md_batch := batch \<rparr>)"
    by (rule release_plain) (use assms(4) in auto)
  with b have "FinalizeLocked c j db = Inr (j \<lparr> mj_outputs := [] \<rparr>, db \<lparr> md_batch := batch \<rparr>)" by (simp add: FinalizeLocked_def FinishPlansLocked_def)
  with b(2,3) show ?thesis by (intro exI [of _ "j \<lparr> mj_outputs := [] \<rparr>"] exI [of _ batch]) simp
qed

lemma finalize_jobs_direct:
  assumes "user_key_comparator (zc_ucmp c)" "version_ok (zc_ucmp c) (md_current db)" "batch_apart (zc_ucmp c) (md_current db) (md_batch db)"
    "\<forall>j \<in> set jobs. (\<forall>x \<in> set (mj_outputs j). direct_output (zc_ucmp c) x) \<and> (\<forall>p \<in> set (mj_plans j). pp_decision p = kDirect \<and> \<not> pp_force_replace p)"
  shows "\<exists>js batch. finalize_jobs c jobs lst db = Inr (js, last (lst # map mj_epoch jobs), db \<lparr> md_batch := batch \<rparr>) \<and>
    batch_apart (zc_ucmp c) (md_current db) batch \<and> map mo_meta batch = map mo_meta (md_batch db @ concat (map mj_outputs jobs))"
  using assms(2-)
proof (induction jobs arbitrary: db lst)
  case Nil
  then show ?case by (intro exI [of _ "[]"] exI [of _ "md_batch db"]) simp
next
  case (Cons j jobs)
  obtain j' b1 where j: "FinalizeLocked c j db = Inr (j', db \<lparr> md_batch := b1 \<rparr>)" "mj_epoch j' = mj_epoch j"
    "batch_apart (zc_ucmp c) (md_current db) b1" "map mo_meta b1 = map mo_meta (md_batch db @ mj_outputs j)"
    using FinalizeLocked_direct [OF assms(1) Cons.prems(1), of j] Cons.prems(2,3) by auto
  obtain js batch where "finalize_jobs c jobs (mj_epoch j') (db \<lparr> md_batch := b1 \<rparr>) = Inr (js, last (mj_epoch j' # map mj_epoch jobs), db \<lparr> md_batch := batch \<rparr>)"
    "batch_apart (zc_ucmp c) (md_current db) batch" "map mo_meta batch = map mo_meta (b1 @ concat (map mj_outputs jobs))"
    using Cons.IH [of "db \<lparr> md_batch := b1 \<rparr>" "mj_epoch j'"] Cons.prems j(3) by auto
  then show ?case using j by (intro exI [of _ "j' # js"] exI [of _ batch]) simp
qed

lemma pool_ran_success:
  assumes "pool_ran c build csd merge jobs pool" "\<forall>t \<in> set (collect_tasks jobs). \<exists>outs. task_result c build csd merge jobs t = Some (Inr (), outs)"
  shows "fst pool = Inr () \<and> snd ` set (snd pool) = (\<Union>t \<in> set (collect_tasks jobs). set (snd (the (task_result c build csd merge jobs t))))"
proof -
  let ?tasks = "collect_tasks jobs"
  obtain exec where ex: "\<And>t. t \<in> set ?tasks \<Longrightarrow> task_result c build csd merge jobs t = Some (exec t)"
    and run: "RunMaterializeTaskPool exec ?tasks (max 1 (zo_materialize_parallelism (zc_zfo c))) (fst pool) (snd pool)"
    using assms(1) by (auto simp: pool_ran_def)
  have ok: "fst (exec (?tasks ! i)) = Inr ()" if "i < length ?tasks" for i
    using bspec [OF assms(2) nth_mem [OF that]] ex [OF nth_mem [OF that]] by auto
  obtain d where d: "\<forall>i. of_task i (snd pool) = (if i \<in> d then snd (exec (?tasks ! i)) else [])"
    "case fst pool of Inr _ \<Rightarrow> d = {..<length ?tasks} \<and> (\<forall>i < length ?tasks. fst (exec (?tasks ! i)) = Inr ())
             | Inl er \<Rightarrow> (\<exists>i < length ?tasks. fst (exec (?tasks ! i)) = Inl er)"
    using pool_outcome_cases [OF run] by blast
  then have r: "fst pool = Inr ()" "d = {..<length ?tasks}" using ok by (auto split: sum.splits)
  have "snd ` set (snd pool) = (\<Union>i. set (of_task i (snd pool)))" by (force simp: of_task_def)
  also have "\<dots> = (\<Union>i < length ?tasks. set (snd (exec (?tasks ! i))))" using d(1) r(2) by (auto split: if_splits)
  also have "\<dots> = (\<Union>t \<in> set ?tasks. set (snd (exec t)))"
  proof -
    have "set ?tasks = (!) ?tasks ` {..<length ?tasks}" by (auto simp: set_conv_nth)
    then show ?thesis by simp
  qed
  also have "\<dots> = (\<Union>t \<in> set ?tasks. set (snd (the (task_result c build csd merge jobs t))))" using ex by simp
  finally show ?thesis using r(1) by blast
qed

lemma plain_tasks:
  assumes "\<forall>j \<in> set jobs. plain_job j" "k < length jobs" "g \<in> set (se_gens (mj_se (jobs ! k)))"
  shows "(k, fst g) \<in> set (collect_tasks jobs)"
proof -
  have "fst g \<in> set (CollectTasks (jobs ! k))" using assms by (simp add: plain_job_def)
  then show ?thesis using assms(2) by (auto simp: collect_tasks_def)
qed

text \<open>C4: a flush without merging installs everything, whatever the schedule of the pool and whatever
  consistent version other threads have installed in the meantime. With merging switched off,
  which is the default, when every task succeeds with sound metadata and fresh file numbers, the
  flush succeeds; its edit is accepted by the engine; the new version has exactly the files of the
  version it is applied to and the tables of all tasks; its levels above level 0 are in order and
  pass the consistency check; every sealed generation of every epoch belongs to a task; and the
  last epoch is recorded as materialised.\<close>

theorem flush_installs_all:
  assumes "user_key_comparator (zc_ucmp (fl_ctx st))" "\<not> zo_merge_into_base_level (zc_zfo (fl_ctx st))"
    "plan_epochs (fl_ctx st) proximal epochs [] (fl_db st) = (Inr (), jobs, db1)"
    "pool_ran (fl_ctx st) build csd merge jobs pool" "db2 = others (fl_db st)" "md_batch db2 = []"
    "version_ok (zc_ucmp (fl_ctx st)) (md_current db2)" "CheckConsistencyDetails (zc_ucmp (fl_ctx st)) (md_current db2)"
    "vs_base_level (md_current db2) < length (vs_files (md_current db2))"
    "\<forall>t \<in> set (collect_tasks jobs). \<exists>outs. task_result (fl_ctx st) build csd merge jobs t = Some (Inr (), outs) \<and>
       (\<forall>x \<in> set outs. direct_output (zc_ucmp (fl_ctx st)) x \<and> table_number x \<notin> fm_number ` version_files (md_current db2))"
    "distinct (map (\<lambda>x. table_number (snd x)) (snd pool))"
  shows "\<exists>edit st' b. ZfMaterializeAllEpochs proximal pool others now epochs st = (Inr edit, st') \<and>
    fl_last_materialized_epoch st' = last (fl_last_materialized_epoch st # epochs) \<and>
    vb_Apply (zc_ucmp (fl_ctx st)) (new_VersionBuilder (md_current db2)) edit = (Inr (), b) \<and>
    version_files (SaveSSTFilesTo (zc_ucmp (fl_ctx st)) b) = version_files (md_current db2) \<union>
      mo_meta ` (\<Union>t \<in> set (collect_tasks jobs). set (snd (the (task_result (fl_ctx st) build csd merge jobs t)))) \<and>
    (\<forall>l < length (vs_files (md_current db2)). 1 \<le> l \<longrightarrow> level_ok (zc_ucmp (fl_ctx st)) (LevelFiles (SaveSSTFilesTo (zc_ucmp (fl_ctx st)) b) l) \<and>
       check_neighbours (ln_checker (zc_ucmp (fl_ctx st))) (LevelFiles (SaveSSTFilesTo (zc_ucmp (fl_ctx st)) b) l)) \<and>
    map (\<lambda>j. (mj_epoch j, Some (mj_se j))) jobs = map (\<lambda>ep. (ep, GetEpoch (zc_sealed (fl_ctx st)) ep)) epochs \<and>
    (\<forall>k < length jobs. \<forall>g \<in> set (se_gens (mj_se (jobs ! k))). (k, fst g) \<in> set (collect_tasks jobs))"
proof -
  let ?c = "fl_ctx st" and ?u = "zc_ucmp (fl_ctx st)" and ?v = "md_current db2" and ?tasks = "collect_tasks jobs"
  let ?tables = "\<Union>t \<in> set ?tasks. set (snd (the (task_result ?c build csd merge jobs t)))" and ?jobs = "deliver ?tasks (snd pool) jobs"
  have plain: "\<forall>j \<in> set jobs. plain_job j" "db1 = fl_db st"
    and ep: "map (\<lambda>j. (mj_epoch j, Some (mj_se j))) jobs = map (\<lambda>ep. (ep, GetEpoch (zc_sealed ?c) ep)) epochs"
    using plan_epochs_plain [OF assms(3,2)] by simp_all
  have pool: "fst pool = Inr ()" "snd ` set (snd pool) = ?tables" using pool_ran_success [OF assms(4)] assms(10) by blast+
  have good: "direct_output ?u x \<and> table_number x \<notin> fm_number ` version_files ?v" if "x \<in> ?tables" for x
    using that assms(10) by fastforce
  have outs: "mset (concat (map mj_outputs ?jobs)) = mset (map snd (snd pool))"
    using plain(1) pool_ran_outputs [OF assms(4)] collect_tasks_job by (intro deliver_outputs) (auto simp: plain_job_def)
  then have outset: "set (concat (map mj_outputs ?jobs)) = ?tables" using pool(2) by (metis list.set_map mset_eq_setD)
  have jobs: "\<forall>j \<in> set ?jobs. (\<forall>x \<in> set (mj_outputs j). direct_output ?u x) \<and> (\<forall>p \<in> set (mj_plans j). pp_decision p = kDirect \<and> \<not> pp_force_replace p)"
  proof (intro ballI conjI)
    fix j assume j: "j \<in> set ?jobs"
    show "direct_output ?u x" if "x \<in> set (mj_outputs j)" for x
    proof -
      have "x \<in> set (concat (map mj_outputs ?jobs))" using that j by auto
      then show ?thesis using good unfolding outset by blast
    qed
    fix p assume "p \<in> set (mj_plans j)"
    moreover have "mj_plans j \<in> mj_plans ` set jobs" using j deliver_plans(1) [of ?tasks "snd pool" jobs] by (metis image_eqI list.set_map)
    ultimately show "pp_decision p = kDirect" "\<not> pp_force_replace p" using plain(1) by (auto simp: plain_job_def)
  qed
  have "batch_apart ?u ?v (md_batch db2)" by (simp add: assms(6) batch_apart_def)
  then obtain js batch where fin: "finalize_jobs ?c ?jobs (fl_last_materialized_epoch st) db2 =
      Inr (js, last (fl_last_materialized_epoch st # map mj_epoch ?jobs), db2 \<lparr> md_batch := batch \<rparr>)"
    and ba: "batch_apart ?u ?v batch" and metas: "map mo_meta batch = map mo_meta (concat (map mj_outputs ?jobs))"
    using finalize_jobs_direct [OF assms(1,7) _ jobs] assms(6) by fastforce
  have bset: "mo_meta ` set batch = mo_meta ` ?tables" using arg_cong [OF metas, of set] outset by simp
  have "mset (map (\<lambda>x. fm_number (mo_meta x)) batch) = mset (map (\<lambda>x. table_number (snd x)) (snd pool))"
  proof -
    have "map (\<lambda>x. fm_number (mo_meta x)) batch = map table_number (concat (map mj_outputs ?jobs))"
      using arg_cong [OF metas, of "map fm_number"] unfolding map_map comp_def table_number_def .
    moreover have "mset (map table_number (concat (map mj_outputs ?jobs))) = mset (map table_number (map snd (snd pool)))"
      unfolding mset_map [of table_number] outs ..
    ultimately show ?thesis unfolding map_map comp_def by (rule arg_cong [of _ _ mset, THEN trans])
  qed
  then have nums: "distinct (map (\<lambda>x. fm_number (mo_meta x)) batch)" using assms(11) mset_eq_imp_distinct_iff by blast
  have fresh: "\<forall>x \<in> set batch. fm_number (mo_meta x) \<notin> fm_number ` version_files ?v"
  proof
    fix x assume "x \<in> set batch"
    then have "mo_meta x \<in> mo_meta ` ?tables" unfolding bset [symmetric] by (rule imageI)
    then obtain y where "y \<in> ?tables" "mo_meta x = mo_meta y" by (rule imageE) blast
    then show "fm_number (mo_meta x) \<notin> fm_number ` version_files ?v" using good by (simp add: table_number_def)
  qed
  obtain b where b: "vb_Apply ?u (new_VersionBuilder ?v) (install_edit ?v batch) = (Inr (), b)"
    "version_files (SaveSSTFilesTo ?u b) = version_files ?v \<union> mo_meta ` set batch"
    "\<forall>l < length (vs_files ?v). 1 \<le> l \<longrightarrow> level_ok ?u (LevelFiles (SaveSSTFilesTo ?u b) l) \<and> check_neighbours (ln_checker ?u) (LevelFiles (SaveSSTFilesTo ?u b) l)"
    using install_files [OF assms(1,7-9) ba nums fresh] by blast
  have epl: "map mj_epoch ?jobs = epochs"
    using arg_cong [OF ep, of "map fst"] by (simp add: deliver_plans comp_def)
  obtain st' where "ZfMaterializeAllEpochs proximal pool others now epochs st = (Inr (install_edit ?v batch), st')"
    "fl_last_materialized_epoch st' = last (fl_last_materialized_epoch st # epochs)"
    using fin unfolding epl by (simp add: ZfMaterializeAllEpochs_def Let_def assms(3) plain(2) pool(1) assms(5))
  then show ?thesis using b ep plain_tasks [OF plain(1)] unfolding bset by blast
qed

section \<open>Witnesses\<close>

text \<open>A flush of two memtables: the first epoch is planned as a merge, the second memtable has no epoch.\<close>

definition sample_sealed :: "(u64 \<times> SealedEpoch) list \<Rightarrow> ZeroFlushContext \<Rightarrow> ZeroFlushContext" where
  "sample_sealed ses c = c \<lparr> zc_sealed := (zc_sealed c) \<lparr> sf_epochs := ses \<rparr> \<rparr>"

text \<open>A flush of one epoch with two generations of partition 0.\<close>

definition sample_epoch :: SealedEpoch where
  "sample_epoch = \<lparr> se_epoch = 1, se_gens = [(0, 5), (0, 6)], se_total_bytes = 100, se_part_bytes = [(0, 100)], se_has_adopted_orphans = False,
     se_has_adopted_skips = False, se_sealed_at_micros = 0, se_table_version = 1 \<rparr>"

definition sample_build :: "nat \<times> u32 \<Rightarrow> table_builder" where
  "sample_build t i kvs = Inr (sample_file 9 120 121)"

text \<open>An epoch of partition 0, without a table of its own: its job has one task, which builds one table.\<close>

lemma sample_job_task:
  assumes c: "zc_ucmp c = Slice_compare" "\<forall>op. \<not> e_fail (zc_env c) op" "zc_tables c = None" "zo_materialize_sort_assist (zc_zfo c)"
      "\<not> zo_merge_into_base_level (zc_zfo c)" "\<not> zo_csd_materialize (zc_zfo c)"
    and gs: "\<forall>g \<in> set gs. gen_complete c g" "distinct (map (\<lambda>r. h_seq (fst r)) (concat (map snd gs)))" "se_gens se = map fst gs"
      "gs \<noteq> []" "\<forall>g \<in> set gs. fst (fst g) = 0 \<and> snd g \<noteq> []"
    and p: "PlanLocked c None (new_ZfMaterializeJob ep se None) db = (j, db')"
  shows "db' = db" "CollectTasks j = [0]"
    "i < length js \<Longrightarrow> js ! i = j \<Longrightarrow>
       task_result c build (\<lambda>_. None) (\<lambda>_ _ _ _. None) js (i, 0) =
         Some (case build (i, 0) 0 (sort_cmp (aside_cmp (InternalKeyCompare Slice_compare)) (map scanned_kv (concat (map snd gs)))) of
                 Inl er \<Rightarrow> (Inl er, []) | Inr f \<Rightarrow> (Inr (), if fm_file_size f = 0 then [] else [new_output f]))"
proof -
  let ?kvs = "sort_cmp (aside_cmp (InternalKeyCompare Slice_compare)) (map scanned_kv (concat (map snd gs)))"
  note f = PlanLocked_frame [OF p] and pl = PlanLocked_plain [OF p c(5)] and plans = plans_plain [OF p c(5)]
  show db: "db' = db" using pl by (simp add: new_ZfMaterializeJob_def)
  have j: "mj_table j = None" "mj_se j = se" using f(4,3) by (simp_all add: new_ZfMaterializeJob_def)
  have "map fst (se_gens se) = replicate (length gs) 0" using gs(5) by (intro replicate_eqI) (auto simp: gs(3))
  then have ids: "mj_part_ids j = [0]"
    using f(2) gs(4) by (simp add: new_ZfMaterializeJob_def job_ids_def sorted_sort_id remdups_adj_replicate)
  have noskip: "FindPlan (mj_plans j) pid = Some q \<Longrightarrow> pp_decision q = kDirect" for pid q using FindPlan_mem plans(1) by blast
  show "CollectTasks j = [0]" using noskip by (auto simp: CollectTasks_def ids split: option.splits)
  have ne: "?kvs \<noteq> []"
  proof -
    have "map scanned_kv (concat (map snd gs)) \<noteq> []" using gs(4,5) by (cases gs) auto
    moreover have "insort_cmp cmp x xs \<noteq> []" for cmp :: "bytes \<times> bytes \<Rightarrow> bytes \<times> bytes \<Rightarrow> int" and x xs by (cases xs) auto
    ultimately show ?thesis by (cases "map scanned_kv (concat (map snd gs))") simp_all
  qed
  have inp: "partition_input c (map fst gs) = Some (Inr (?kvs, True))"
    using aside_sorted_input [OF c(4,1,2) gs(1,2)] by (simp add: partition_input_def)
  have gens: "gens_of se 0 = map fst gs"
    using gs(5) by (simp add: gens_of_def gs(3) filter_id_conv split_def)
  show "task_result c build (\<lambda>_. None) (\<lambda>_ _ _ _. None) js (i, 0) =
         Some (case build (i, 0) 0 ?kvs of Inl er \<Rightarrow> (Inl er, []) | Inr f \<Rightarrow> (Inr (), if fm_file_size f = 0 then [] else [new_output f]))" if "i < length js" "js ! i = j"
  proof -
    have "MaterializePartition c (j \<lparr> mj_outputs := [] \<rparr>) (build (i, 0)) (\<lambda>_. None) 0 (map fst gs) [] [] =
        Some (case build (i, 0) 0 ?kvs of Inl er \<Rightarrow> (Inl er, []) | Inr f \<Rightarrow> (Inr (), if fm_file_size f = 0 then [] else [new_output f]))"
      using ne by (simp add: MaterializePartition_def inp do_slice_def oob_data_def j(1) range_mode_def vector_iterator_def c(6) split: sum.split)
    then show ?thesis
      using noskip [of 0] gs(4) that by (auto simp: task_result_def ExecutePartition_def j gens range_mode_def Let_def split: option.splits sum.splits)
  qed
qed

lemma sample_flush:
  obtains c j where "zc_ucmp c = Slice_compare" "zc_zfo c = default_options" "plan_epochs c None [1] [] sample_db = (Inr (), [j], sample_db)"
    "collect_tasks [j] = [(0, 0)]"
    "task_result c sample_build (\<lambda>_. None) (\<lambda>_ _ _ _. None) [j] (0, 0) = Some (Inr (), [new_output (sample_file 9 120 121)])"
proof -
  let ?gs = "[((0, 5), [sample_rec 98 1 7]), ((0, 6), [sample_rec 97 2 8])]"
  obtain c0 where c0: "zc_ucmp c0 = Slice_compare" "\<forall>op. \<not> e_fail (zc_env c0) op" "zc_zfo c0 = default_options" "zc_tables c0 = None"
    "\<forall>g \<in> set ?gs. gen_complete c0 g"
    using sample_complete by blast
  define c where "c = sample_sealed [(1, sample_epoch)] c0"
  have c: "zc_ucmp c = Slice_compare" "\<forall>op. \<not> e_fail (zc_env c) op" "zc_zfo c = default_options" "zc_tables c = None"
    "\<forall>g \<in> set ?gs. gen_complete c g" "GetEpoch (zc_sealed c) 1 = Some sample_epoch"
    using c0 by (simp_all add: c_def sample_sealed_def gen_complete_def GetEpoch_def)
  obtain j db1 where p: "PlanLocked c None (new_ZfMaterializeJob 1 sample_epoch None) sample_db = (j, db1)" by (meson surj_pair)
  have "epoch_table c sample_epoch = None" by (simp add: epoch_table_def c(4))
  note t = sample_job_task [OF c(1,2,4) _ _ _ c(5) _ _ _ _ p]
  have t1: "db1 = sample_db" "CollectTasks j = [0]"
    by (rule t(1,2); simp add: c(3) default_options_def sample_rec_def sample_epoch_def)+
  have t3: "task_result c sample_build (\<lambda>_. None) (\<lambda>_ _ _ _. None) [j] (0, 0) = Some (Inr (), [new_output (sample_file 9 120 121)])"
    by (subst t(3)) (simp_all add: c(3) default_options_def sample_rec_def sample_epoch_def sample_build_def sample_file_def)
  have "plan_epochs c None [1] [] sample_db = (Inr (), [j], sample_db)" using p t1 \<open>epoch_table c sample_epoch = None\<close> by (simp add: c(6))
  moreover have "collect_tasks [j] = [(0, 0)]" using t1 by (simp add: collect_tasks_def)
  ultimately show thesis using that c(1,3) t3 by blast
qed

text \<open>A flush of two epochs by one worker: the table of the first is built, the second build fails.\<close>

definition one_epoch :: "u64 \<Rightarrow> u32 \<Rightarrow> SealedEpoch" where
  "one_epoch ep gen = sample_epoch \<lparr> se_epoch := ep, se_gens := [(0, gen)] \<rparr>"

definition failing_build :: "nat \<times> u32 \<Rightarrow> table_builder" where
  "failing_build t i kvs = (if fst t = 0 then Inr (sample_file 9 120 121) else Inl io_error)"

lemma sample_two_epochs:
  obtains c j1 j2 where "plan_epochs c None [1, 2] [] sample_db = (Inr (), [j1, j2], sample_db)" "collect_tasks [j1, j2] = [(0, 0), (1, 0)]"
    "pool_ran c failing_build (\<lambda>_. None) (\<lambda>_ _ _ _. None) [j1, j2] (Inl io_error, [(0, new_output (sample_file 9 120 121))])"
proof -
  let ?g1 = "((0, 5), [sample_rec 98 1 7]) :: (u32 \<times> u32) \<times> zf_rec list" and ?g2 = "((0, 6), [sample_rec 97 2 8]) :: (u32 \<times> u32) \<times> zf_rec list"
  let ?x = "new_output (sample_file 9 120 121)"
  obtain c0 where c0: "zc_ucmp c0 = Slice_compare" "\<forall>op. \<not> e_fail (zc_env c0) op" "zc_tables c0 = None" "\<forall>g \<in> set [?g1, ?g2]. gen_complete c0 g"
    using sample_complete by blast
  define c where "c = sample_sealed [(1, one_epoch 1 5), (2, one_epoch 2 6)] c0 \<lparr> zc_zfo := default_options \<lparr> zo_materialize_parallelism := 1 \<rparr> \<rparr>"
  have c: "zc_ucmp c = Slice_compare" "\<forall>op. \<not> e_fail (zc_env c) op" "zc_tables c = None"
    "gen_complete c ?g1" "gen_complete c ?g2" "GetEpoch (zc_sealed c) 1 = Some (one_epoch 1 5)" "GetEpoch (zc_sealed c) 2 = Some (one_epoch 2 6)"
    "zc_zfo c = default_options \<lparr> zo_materialize_parallelism := 1 \<rparr>"
    using c0 by (simp_all add: c_def sample_sealed_def gen_complete_def GetEpoch_def)
  have e: "epoch_table c se = None" for se by (simp add: epoch_table_def c(3))
  obtain j1 db1 where p1: "PlanLocked c None (new_ZfMaterializeJob 1 (one_epoch 1 5) None) sample_db = (j1, db1)" by (meson surj_pair)
  obtain j2 db2 where p2: "PlanLocked c None (new_ZfMaterializeJob 2 (one_epoch 2 6) None) sample_db = (j2, db2)" by (meson surj_pair)
  note t1 = sample_job_task [where gs = "[?g1]", OF c(1,2,3) _ _ _ _ _ _ _ _ p1] and t2 = sample_job_task [where gs = "[?g2]", OF c(1,2,3) _ _ _ _ _ _ _ _ p2]
  have d: "db1 = sample_db" "CollectTasks j1 = [0]" "db2 = sample_db" "CollectTasks j2 = [0]"
    by (rule t1(1,2) t2(1,2); simp add: c(4,5,8) default_options_def one_epoch_def)+
  have r1: "task_result c failing_build (\<lambda>_. None) (\<lambda>_ _ _ _. None) [j1, j2] (0, 0) = Some (Inr (), [?x])"
    by (subst t1(3)) (simp_all add: c(4,8) default_options_def one_epoch_def failing_build_def sample_file_def)
  have r2: "task_result c failing_build (\<lambda>_. None) (\<lambda>_ _ _ _. None) [j1, j2] (1, 0) = Some (Inl io_error, [])"
    by (subst t2(3)) (simp_all add: c(5,8) default_options_def one_epoch_def failing_build_def sample_file_def)
  have plan: "plan_epochs c None [1, 2] [] sample_db = (Inr (), [j1, j2], sample_db)" using p1 p2 d by (simp add: c(6,7) e)
  have tasks: "collect_tasks [j1, j2] = [(0, 0), (1, 0)]" using d by (simp add: collect_tasks_def)
  let ?exec = "\<lambda>t :: nat \<times> u32. if fst t = 0 then (Inr () :: unit zf_result, [?x]) else (Inl io_error, [])"
  have "RunMaterializeTaskPool ?exec [(0, 0), (1, 0)] (max 1 (zo_materialize_parallelism (zc_zfo c))) (Inl io_error) [(0, ?x)]"
    by (rule RunMaterializeTaskPool.sequential) (simp_all add: pool_width_def c(8))
  then have "pool_ran c failing_build (\<lambda>_. None) (\<lambda>_ _ _ _. None) [j1, j2] (Inl io_error, [(0, ?x)])"
    unfolding pool_ran_def tasks by (intro exI [of _ ?exec]) (simp add: r1 r2 [simplified])
  from that [OF plan tasks this] show thesis .
qed

theorem flush_failure_undone_witness:
  "(\<exists>st er st' j db1. fl_db st = sample_db \<and> plan_epochs (fl_ctx st) None [1, 0] [] sample_db =
      (Inl (Corruption ''ZeroFlush: immutable memtable without epoch in zf flush''), [j], db1) \<and> md_picker db1 \<noteq> md_picker sample_db \<and>
    ZfMaterializeAllEpochs None (Inr (), []) id 0 [1, 0] st = (Inl er, st') \<and> md_picker (fl_db st') = md_picker sample_db) \<and>
   (\<exists>st er st'. fl_db st = sample_db \<and> fl_deleted_tables st = [] \<and>
    ZfMaterializeAllEpochs None (Inl io_error, [(0, new_output (sample_file 9 120 121))]) id 0 [1, 2] st = (Inl er, st') \<and>
    fl_deleted_tables st' = [9] \<and> md_current (fl_db st') = md_current sample_db)"
proof (intro conjI)
  have db: "md_batch sample_db = []" "flags_agree sample_db" "picker_ids_below sample_db"
    by (auto simp: sample_db_def Let_def flags_agree_def version_files_def picker_ids_below_def)
  define c where "c = sample_sealed [(1, mj_se sample_job)] (sample_zf True \<lparr> zc_tables :=
      Some \<lparr> s_versions = [the (mj_table sample_job), the (mj_table sample_job)], s_current_version = 1 \<rparr> \<rparr>)"
  let ?st = "\<lparr> fl_ctx = c, fl_last_materialized_epoch = 0, fl_db = sample_db, fl_deleted_tables = [] \<rparr>"
  have c: "GetEpoch (zc_sealed c) 1 = Some (mj_se sample_job)" "zc_zfo c = default_options \<lparr> zo_merge_into_base_level := True \<rparr>" "zc_ucmp c = Slice_compare"
    by (simp_all add: c_def sample_sealed_def GetEpoch_def sample_zf_simps)
  have job: "new_ZfMaterializeJob 1 (mj_se sample_job) (epoch_table c (mj_se sample_job)) = sample_job"
    by (simp add: sample_job_def new_ZfMaterializeJob_def epoch_table_def c_def sample_sealed_def set_Get_def)
  obtain j db1 where j: "PlanLocked c None sample_job sample_db = (j, db1)" "md_picker db1 \<noteq> md_picker sample_db"
    using sample_plan [OF c(2,3)] by blast
  have p: "plan_epochs (fl_ctx ?st) None [1, 0] [] (fl_db ?st) = (Inl (Corruption ''ZeroFlush: immutable memtable without epoch in zf flush''), [j], db1)"
    using j(1) by (simp add: c(1) job)
  from flush_failure_undone [OF p, of "(Inr (), [])" undefined undefined undefined id 0] db
  obtain er st' where "ZfMaterializeAllEpochs None (Inr (), []) id 0 [1, 0] ?st = (Inl er, st')" "md_picker (fl_db st') = md_picker (fl_db ?st)" by auto
  then show "\<exists>st er st' j db1. fl_db st = sample_db \<and> plan_epochs (fl_ctx st) None [1, 0] [] sample_db =
      (Inl (Corruption ''ZeroFlush: immutable memtable without epoch in zf flush''), [j], db1) \<and> md_picker db1 \<noteq> md_picker sample_db \<and>
    ZfMaterializeAllEpochs None (Inr (), []) id 0 [1, 0] st = (Inl er, st') \<and> md_picker (fl_db st') = md_picker sample_db"
    using p j(2) by (intro exI [of _ ?st] exI [of _ er] exI [of _ st'] exI [of _ j] exI [of _ db1]) simp
  obtain c2 j1 j2 where t: "plan_epochs c2 None [1, 2] [] sample_db = (Inr (), [j1, j2], sample_db)"
    "pool_ran c2 failing_build (\<lambda>_. None) (\<lambda>_ _ _ _. None) [j1, j2] (Inl io_error, [(0, new_output (sample_file 9 120 121))])"
    by (rule sample_two_epochs)
  let ?pool = "(Inl io_error, [(0, new_output (sample_file 9 120 121))]) :: unit zf_result \<times> (nat \<times> MaterializeOutput) list"
  let ?s2 = "\<lparr> fl_ctx = c2, fl_last_materialized_epoch = 0, fl_db = sample_db, fl_deleted_tables = [] \<rparr>"
  have p2: "plan_epochs (fl_ctx ?s2) None [1, 2] [] (fl_db ?s2) = (Inr (), [j1, j2], sample_db)" using t(1) by simp
  from flush_failure_undone [OF p2, of ?pool failing_build "\<lambda>_. None" "\<lambda>_ _ _ _. None" id 0] t(2) db
  obtain er2 st2 where r: "ZfMaterializeAllEpochs None ?pool id 0 [1, 2] ?s2 = (Inl er2, st2)" "md_current (fl_db st2) = md_current sample_db"
    "mset (fl_deleted_tables st2) = {# table_number (new_output (sample_file 9 120 121)) #}" by auto
  have "table_number (new_output (sample_file 9 120 121)) = 9" by (simp add: table_number_def new_output_def sample_file_def)
  then have "fl_deleted_tables st2 = [9]" using r(3) by simp
  then show "\<exists>st er st'. fl_db st = sample_db \<and> fl_deleted_tables st = [] \<and>
    ZfMaterializeAllEpochs None ?pool id 0 [1, 2] st = (Inl er, st') \<and> fl_deleted_tables st' = [9] \<and> md_current (fl_db st') = md_current sample_db"
    using r by (intro exI [of _ ?s2] exI [of _ er2] exI [of _ st2]) simp
qed

theorem flush_installs_all_witness:
  "\<exists>st pool edit st' b. ZfMaterializeAllEpochs None pool id 0 [1] st = (Inr edit, st') \<and> fl_last_materialized_epoch st' = 1 \<and>
    vb_Apply Slice_compare (new_VersionBuilder (md_current sample_db)) edit = (Inr (), b) \<and>
    version_files (SaveSSTFilesTo Slice_compare b) = {sample_file 7 97 98, sample_file 9 120 121}"
proof -
  obtain c j where c: "zc_ucmp c = Slice_compare" "zc_zfo c = default_options" "plan_epochs c None [1] [] sample_db = (Inr (), [j], sample_db)"
    and t: "collect_tasks [j] = [(0, 0)]"
      "task_result c sample_build (\<lambda>_. None) (\<lambda>_ _ _ _. None) [j] (0, 0) = Some (Inr (), [new_output (sample_file 9 120 121)])"
    by (rule sample_flush)
  let ?st = "\<lparr> fl_ctx = c, fl_last_materialized_epoch = 0, fl_db = sample_db, fl_deleted_tables = [] \<rparr>" and ?x = "new_output (sample_file 9 120 121)"
  let ?exec = "\<lambda>t :: nat \<times> u32. (Inr () :: unit zf_result, [?x])"
  have "RunMaterializeTaskPool ?exec [(0, 0)] (max 1 (zo_materialize_parallelism (zc_zfo c))) (Inr ()) [(0, ?x)]"
    by (rule RunMaterializeTaskPool.sequential) (simp_all add: pool_width_def)
  then have pool: "pool_ran (fl_ctx ?st) sample_build (\<lambda>_. None) (\<lambda>_ _ _ _. None) [j] (Inr (), [(0, ?x)])"
    using t by (auto simp: pool_ran_def)
  have x: "mo_meta ?x = sample_file 9 120 121" by (simp add: new_output_def)
  have files: "vs_files (md_current sample_db) = [[], [sample_file 7 97 98]]" "vs_base_level (md_current sample_db) = 1" "md_batch sample_db = []"
    by (simp_all add: sample_db_def Let_def)
  have lv: "LevelFiles (md_current sample_db) l = (if l = 1 then [sample_file 7 97 98] else [])" for l
    by (simp add: LevelFiles_def files nth_Cons split: nat.splits)
  have vf: "version_files (md_current sample_db) = {sample_file 7 97 98}" by (simp add: version_files_def files)
  have ok: "file_ok Slice_compare (sample_file n lo hi)" if "lo < hi" for n lo hi
    using bytewise_key.footer_Make [of "[hi]" 2 kTypeValue] that
    by (simp add: file_ok_def InternalKeyCompare_def Let_def sample_file_def)
      (simp add: PackSequenceAndType_def kMaxSequenceNumber_def kTypeValue_def kValueTypeForSeek_def)
  have h: "version_ok Slice_compare (md_current sample_db)" "CheckConsistencyDetails Slice_compare (md_current sample_db)"
    "vs_base_level (md_current sample_db) < length (vs_files (md_current sample_db))"
    using ok [of 97 98 7] by (simp_all add: version_ok_def lv level_ok_def CheckConsistencyDetails_def files)
  have tasks: "\<forall>t \<in> set (collect_tasks [j]). \<exists>outs. task_result c sample_build (\<lambda>_. None) (\<lambda>_ _ _ _. None) [j] t = Some (Inr (), outs) \<and>
       (\<forall>x \<in> set outs. direct_output Slice_compare x \<and> table_number x \<notin> fm_number ` version_files (md_current sample_db))"
    using ok [of 120 121 9] by (simp add: t direct_output_def table_number_def vf new_output_def)
  have cmp: "user_key_comparator (zc_ucmp (fl_ctx ?st))" using bytewise_key.user_key_comparator_axioms by (simp add: c(1))
  have "\<not> zo_merge_into_base_level (zc_zfo (fl_ctx ?st))" by (simp add: c(2) default_options_def)
  from flush_installs_all [OF cmp this, of None "[1]" "[j]" sample_db sample_build "\<lambda>_. None" "\<lambda>_ _ _ _. None" "(Inr (), [(0, ?x)])" sample_db id 0, OF _ pool]
  obtain edit st' b where "ZfMaterializeAllEpochs None (Inr (), [(0, ?x)]) id 0 [1] ?st = (Inr edit, st')" "fl_last_materialized_epoch st' = 1"
    "vb_Apply Slice_compare (new_VersionBuilder (md_current sample_db)) edit = (Inr (), b)"
    "version_files (SaveSSTFilesTo Slice_compare b) = {sample_file 7 97 98} \<union> mo_meta ` {?x}"
    using c(3) h tasks files(3) by (auto simp: c(1) t vf)
  moreover have "{sample_file 7 97 98} \<union> mo_meta ` {?x} = {sample_file 7 97 98, sample_file 9 120 121}" using x by auto
  ultimately show ?thesis by metis
qed

end
