(* ===== verification/ZfHostFormat.thy ===== *)
theory ZfHostFormat
  imports ZfWalFormat ZfKeyFormat
begin

text \<open>
  The byte formats of the accelerator's host side (\<^verbatim>\<open>AcceleratorKernelSstV2/host/zf_format.h\<close>), which are
  written independently of the engine: little-endian and variable-length integers, the CRC, the
  internal key, the WAL frame, and the staged input of a kernel port, a WAL region followed by the
  sorted slim entries that point into it. The records are an argument; their random generation is
  not modelled.

  The lemmas: the host's integers, CRC, keys and frames are those of the engine, and variable-length
  integers are read back. The property: every slim entry of a port points to a frame that the
  engine decodes to the entry's record.
\<close>

unbundle bit_operations_syntax

section \<open>Integers\<close>

definition kUserKeyLength :: nat where "kUserKeyLength = 24"
definition kInternalKeyLength :: u32 where "kInternalKeyLength = 32"
definition kValueLength :: nat where "kValueLength = 1024"

definition PutFixed32LE :: "u32 \<Rightarrow> bytes" where
  "PutFixed32LE v = [ucast v, ucast (drop_bit 8 v), ucast (drop_bit 16 v), ucast (drop_bit 24 v)]"

definition PutFixed64LE :: "u64 \<Rightarrow> bytes" where
  "PutFixed64LE v = map (\<lambda>i. ucast (drop_bit (8 * i) v)) [0..<8]"

function PutVarint32 :: "u32 \<Rightarrow> bytes" where
  "PutVarint32 v = (if v \<ge> 0x80 then (ucast v OR 0x80) # PutVarint32 (drop_bit 7 v) else [ucast v])"
  by auto
termination
proof (relation "measure unat")
  fix v :: u32 assume "v \<ge> 0x80"
  then show "(drop_bit 7 v, v) \<in> measure unat" by (simp add: word_le_nat_alt drop_bit_eq_div unat_div_distrib)
qed simp

declare PutVarint32.simps [simp del]

text \<open>\<^verbatim>\<open>Varint32\<close> and \<^verbatim>\<open>Varint64\<close> of \<^verbatim>\<open>host/zf_sst_decode.h\<close>, which differ in the width and the limit of the shift.\<close>

function varint_loop :: "nat \<Rightarrow> string \<Rightarrow> nat \<Rightarrow> 'a::len word \<Rightarrow> bytes \<Rightarrow> nat \<Rightarrow> ('a word \<times> nat) zf_result" where
  "varint_loop lim msg sh r b p =
     (if p < length b
      then
       let x = b ! p; r = r OR push_bit sh (ucast (x AND 0x7f))
       in if x AND 0x80 = 0 then Inr (r, p + 1)
          else if sh + 7 \<ge> lim then Inl (CppException msg)
          else varint_loop lim msg (sh + 7) r b (p + 1)
      else Inl (CppException ''vector::_M_range_check''))"
  by auto
termination by (relation "measure (\<lambda>(lim, msg, sh, r, b, p). length b - p)") auto

declare varint_loop.simps [simp del]

definition Varint32 :: "bytes \<Rightarrow> nat \<Rightarrow> (u32 \<times> nat) zf_result" where
  "Varint32 b p = varint_loop 35 ''varint32 overflow'' 0 0 b p"

definition Varint64 :: "bytes \<Rightarrow> nat \<Rightarrow> (u64 \<times> nat) zf_result" where
  "Varint64 b p = varint_loop 70 ''varint64 overflow'' 0 0 b p"

section \<open>The checksum\<close>

definition crc_entry_bit :: "u32 \<Rightarrow> u32" where
  "crc_entry_bit c = (if c AND 1 \<noteq> 0 then 0x82F63B78 XOR drop_bit 1 c else drop_bit 1 c)"

definition crc_table :: "u32 list" where
  "crc_table = map (\<lambda>i. (crc_entry_bit ^^ 8) (of_nat i)) [0..<256]"

definition Crc32c :: "bytes \<Rightarrow> u32" where
  "Crc32c data = foldl (\<lambda>crc d. crc_table ! unat ((crc XOR ucast d) AND 0xFF) XOR drop_bit 8 crc) 0xFFFFFFFF data XOR 0xFFFFFFFF"

section \<open>Records\<close>

record KRec =
  kr_user :: bytes
  kr_seq :: u64
  kr_type :: byte
  kr_value :: bytes

definition InternalKey :: "bytes \<Rightarrow> u64 \<Rightarrow> byte \<Rightarrow> bytes" where
  "InternalKey user seq t = user @ PutFixed64LE (push_bit 8 seq OR ucast t)"

definition krec_less :: "KRec \<Rightarrow> KRec \<Rightarrow> bool" where
  "krec_less a b =
     (let c = Slice_compare (kr_user a) (kr_user b)
      in if c \<noteq> 0 then c < 0 else if kr_seq a \<noteq> kr_seq b then kr_seq a > kr_seq b
         else if kr_type a \<noteq> kr_type b then kr_type a > kr_type b else False)"

definition SameUser :: "KRec \<Rightarrow> KRec \<Rightarrow> bool" where
  "SameUser a b \<longleftrightarrow> kr_user a = kr_user b"

definition BuildZfRecord :: "u16 \<Rightarrow> byte \<Rightarrow> byte \<Rightarrow> bytes \<Rightarrow> bytes \<Rightarrow> u64 \<Rightarrow> bytes" where
  "BuildZfRecord cf_id t flags user value seq =
     (let f = PutFixed32LE kZfMagic @ [ucast cf_id, ucast (drop_bit 8 cf_id), t, flags] @
              PutFixed32LE (of_nat (length user)) @ PutFixed32LE (of_nat (length value)) @ PutFixed64LE seq @ user @ value
      in f @ PutFixed32LE (Crc32c f))"

section \<open>Ports\<close>

record Port =
  pt_part :: u32
  pt_gen :: u32
  pt_entries :: "(KRec \<times> u64) list"
  pt_wal :: bytes
  pt_slim :: bytes

text \<open>\<^verbatim>\<open>std::stable_sort\<close>, \<^verbatim>\<open>std::unique\<close>.\<close>

definition krec_sort :: "KRec list \<Rightarrow> KRec list" where
  "krec_sort rs = sort_cmp (\<lambda>a b. if krec_less a b then -1 else if krec_less b a then 1 else 0) rs"

fun unique_users :: "KRec list \<Rightarrow> KRec list" where
  "unique_users (a # b # rs) = (if SameUser a b then unique_users (a # rs) else a # unique_users (b # rs))"
| "unique_users rs = rs"

definition krec_frame :: "u32 \<Rightarrow> KRec \<Rightarrow> bytes" where
  "krec_frame part r = BuildZfRecord (ucast part) (kr_type r) 0 (kr_user r) (kr_value r) (kr_seq r)"

fun place_frames :: "u32 \<Rightarrow> u64 \<Rightarrow> KRec list \<Rightarrow> (KRec \<times> u64) list \<times> bytes" where
  "place_frames part off [] = ([], [])"
| "place_frames part off (r # rs) =
     (let fr = krec_frame part r
      in case place_frames part (off + of_nat (length fr)) rs of (es, wal) \<Rightarrow> ((r, off) # es, fr @ wal))"

definition slim_entry :: "u32 \<Rightarrow> u32 \<Rightarrow> KRec \<times> u64 \<Rightarrow> bytes" where
  "slim_entry part gen en =
     PutVarint32 kInternalKeyLength @ InternalKey (kr_user (fst en)) (kr_seq (fst en)) (kr_type (fst en)) @
     PutVarint32 16 @ PutFixed32LE part @ PutFixed32LE gen @ PutFixed64LE (snd en)"

text \<open>The part of \<^verbatim>\<open>GenWorkload\<close> that builds a port from its records.\<close>

definition build_port :: "u32 \<Rightarrow> u32 \<Rightarrow> KRec list \<Rightarrow> Port" where
  "build_port part gen rs =
     (case place_frames part 0 (unique_users (krec_sort rs)) of
        (es, wal) \<Rightarrow>
          \<lparr> pt_part = part, pt_gen = gen, pt_entries = es, pt_wal = wal, pt_slim = concat (map (slim_entry part gen) es) \<rparr>)"

definition Staged :: "Port \<Rightarrow> bytes" where
  "Staged p = pt_wal p @ pt_slim p"

section \<open>The host formats are those of the engine\<close>

lemma PutFixed32LE_eq: "PutFixed32LE v = PutFixed32 v"
  by (rule nth_equalityI) (auto simp: PutFixed32LE_def PutFixed32_def le_bytes_nth nth_Cons' less_Suc_eq numeral_eq_Suc)

lemma PutFixed64LE_eq: "PutFixed64LE v = PutFixed64 v"
  by (rule nth_equalityI) (simp_all add: PutFixed64LE_def PutFixed64_def le_bytes_nth)

lemma InternalKey_eq: "InternalKey user seq t = MakeInternalKey user seq t"
  by (simp add: InternalKey_def MakeInternalKey_def PackSequenceAndType_def PutFixed64LE_eq)

lemma crc_entry_bit_eq: "crc_entry_bit = crc_bit"
proof
  fix c :: u32
  have "c AND 1 = 0 \<or> c AND 1 = 1" by (simp add: and_one_eq mod2_eq_if)
  then show "crc_entry_bit c = crc_bit c" by (auto simp: crc_entry_bit_def crc_bit_def kPoly_def xor.commute)
qed

lemma Crc32c_eq: "Crc32c data = Value data"
proof -
  have "crc_table = Table" by (simp add: crc_table_def Table_def crc_bits8_def crc_entry_bit_eq)
  moreover have "(l XOR ucast d) AND 0xff = (l AND 0xff) XOR ucast d" for l :: u32 and d :: byte
    by (rule bit_word_eqI) (auto simp: and_ff bit_simps dest: bit_imp_le_length)
  ultimately show ?thesis by (simp add: Crc32c_def Value_def Extend_def crc_step_def [abs_def])
qed

lemma BuildZfRecord_eq:
  "BuildZfRecord cf t fl user value seq =
     EncodeZfRecord \<lparr> h_magic = kZfMagic, h_cf_id = cf, h_type = t, h_flags = fl, h_key_len = of_nat (length user),
       h_val_len = of_nat (length value), h_seq = seq \<rparr> user value"
  by (simp add: BuildZfRecord_def EncodeZfRecord_def zf_header_bytes_def PutFixed32LE_eq PutFixed64LE_eq Crc32c_eq Let_def PutFixed16_def numeral_eq_Suc)

section \<open>Variable-length integers\<close>

fun varint_bytes :: "nat \<Rightarrow> bytes" where
  "varint_bytes n = (if n < 128 then [of_nat n] else of_nat (n mod 128 + 128) # varint_bytes (n div 128))"

declare varint_bytes.simps [simp del]

lemma byte_and_7f: "unat ((x :: byte) AND 0x7f) = unat x mod 128"
proof -
  have "x AND 0x7f = x mod 0x80" using take_bit_eq_mask [of 7 x] by (simp add: mask_eq_exp_minus_1 take_bit_eq_mod)
  then show ?thesis by (simp add: unat_mod_distrib)
qed

lemma byte_and_80: "(x :: byte) AND 0x80 = 0 \<longleftrightarrow> unat x < 128"
proof -
  have "x AND 0x80 = 0 \<longleftrightarrow> \<not> bit x 7" by (simp add: bit_iff_and_push_bit_not_eq_0)
  also have "bit x 7 \<longleftrightarrow> bit (unat x) 7" by (simp add: bit_unsigned_iff)
  also have "\<dots> \<longleftrightarrow> odd (unat x div 128)" by (simp add: bit_iff_odd)
  also have "odd (unat x div 128) \<longleftrightarrow> \<not> unat x < 128"
  proof -
    have "unat x < 256" using unsigned_less [of x] by simp
    then have "unat x div 128 = 0 \<or> unat x div 128 = 1" by auto
    then show ?thesis by (auto simp: div_eq_0_iff)
  qed
  finally show ?thesis by simp
qed

lemma varint_join: "push_bit sh (of_nat (n mod 128)) OR push_bit (sh + 7) (of_nat (n div 128)) = push_bit sh (of_nat n :: 'a::len word)"
proof -
  have "n = take_bit 7 n OR push_bit 7 (drop_bit 7 n)" by (rule bit_eqI) (auto simp: bit_simps intro: ccontr)
  then have "(of_nat n :: 'a word) = of_nat (take_bit 7 n OR push_bit 7 (drop_bit 7 n))" by simp
  also have "\<dots> = of_nat (take_bit 7 n) OR push_bit 7 (of_nat (drop_bit 7 n))" by (simp only: of_nat_or_eq of_nat_push_bit)
  finally have "(of_nat n :: 'a word) = of_nat (n mod 128) OR push_bit 7 (of_nat (n div 128))" by (simp add: take_bit_eq_mod drop_bit_eq_div)
  then show ?thesis by (simp add: push_bit_or ac_simps)
qed

lemma ucast_unat: "unat (y :: byte) = n \<Longrightarrow> ucast y = (of_nat n :: 'a::len word)"
  by (metis of_nat_unat)

lemma varint_loop_bytes:
  assumes "n < 2 ^ (LENGTH('a) - sh)" "sh < LENGTH('a)" "LENGTH('a) \<le> lim"
  shows "varint_loop lim msg sh (r :: 'a::len word) (pre @ varint_bytes n @ post) (length pre) =
    Inr (r OR push_bit sh (of_nat n), length pre + length (varint_bytes n))"
  using assms
proof (induction n arbitrary: sh r pre rule: varint_bytes.induct)
  case (1 n)
  show ?case
  proof (cases "n < 128")
    case True
    have u: "unat (of_nat n :: byte) = n" using True by (simp add: unat_of_nat_small)
    then have "ucast ((of_nat n :: byte) AND 0x7f) = (of_nat n :: 'a word)" "(of_nat n :: byte) AND 0x80 = 0"
      using True byte_and_7f [of "of_nat n"] by (auto intro!: ucast_unat simp: byte_and_80)
    then show ?thesis using True by (simp add: varint_bytes.simps [of n] varint_loop.simps [of _ _ sh] nth_append Let_def)
  next
    case False
    let ?x = "of_nat (n mod 128 + 128) :: byte"
    have u: "unat ?x = n mod 128 + 128" by (rule unat_of_nat_small) simp
    then have x: "ucast (?x AND 0x7f) = (of_nat (n mod 128) :: 'a word)" "?x AND 0x80 \<noteq> 0"
      using byte_and_7f [of ?x] by (auto intro!: ucast_unat simp: byte_and_80 simp del: of_nat_add)
    have len: "7 < LENGTH('a) - sh"
    proof (rule ccontr)
      assume "\<not> 7 < LENGTH('a) - sh"
      then have "(2 :: nat) ^ (LENGTH('a) - sh) \<le> 2 ^ 7" by (intro power_increasing) auto
      then show False using "1.prems"(1) False by simp
    qed
    have "n div 128 < 2 ^ (LENGTH('a) - (sh + 7))"
    proof -
      have "LENGTH('a) - sh = (LENGTH('a) - (sh + 7)) + 7" using len by simp
      then have "2 ^ (LENGTH('a) - sh) = 2 ^ (LENGTH('a) - (sh + 7)) * (128 :: nat)" by (simp only: power_add) simp
      then show ?thesis using "1.prems"(1) div_less_iff_less_mult [of 128 n "2 ^ (LENGTH('a) - (sh + 7))"] by linarith
    qed
    from "1.IH" [OF False this, of "r OR push_bit sh (of_nat (n mod 128))" "pre @ [?x]"] len "1.prems"(3)
    show ?thesis using False x len "1.prems"(3)
      by (simp add: varint_bytes.simps [of n] varint_loop.simps [of _ _ sh] nth_append Let_def varint_join or.assoc)
  qed
qed

lemma PutVarint32_eq: "PutVarint32 v = varint_bytes (unat v)"
proof (induction v rule: PutVarint32.induct)
  case (1 v)
  show ?case
  proof (cases "v \<ge> 0x80")
    case True
    have "ucast v OR 0x80 = (of_nat (unat v mod 128 + 128) :: byte)"
    proof -
      have "x OR 0x80 = (x AND 0x7f) + 0x80" for x :: byte
      proof -
        have "(x AND m) OR k = (x OR k) AND (m OR k)" for m k by (rule bit_word_eqI) (auto simp: bit_simps)
        then have "(x AND 0x7f) OR 0x80 = (x OR 0x80) AND (0x7f OR 0x80)" .
        also have "(0x7f :: byte) OR 0x80 = - 1" by simp
        finally show ?thesis using disjunctive_add_eq_or [of "x AND 0x7f" "0x80"] by (simp add: and.assoc)
      qed
      then have "(ucast v :: byte) OR 0x80 = (ucast v AND 0x7f) + 0x80" .
      also have "(ucast v :: byte) AND 0x7f = of_nat (unat (ucast v :: byte) mod 128)" using byte_and_7f [of "ucast v"] by (metis of_nat_unat ucast_id)
      also have "unat (ucast v :: byte) mod 128 = unat v mod 128" by (simp add: unsigned_ucast_eq take_bit_eq_mod mod_mod_cancel)
      finally show ?thesis by simp
    qed
    then show ?thesis using 1 [OF True] True
      by (simp add: PutVarint32.simps [of v] varint_bytes.simps [of "unat v"] word_le_nat_alt drop_bit_eq_div unat_div_distrib del: of_nat_add)
  next
    case False
    then have "unat v < 128" by (simp add: word_le_nat_alt)
    then show ?thesis using False by (simp add: PutVarint32.simps [of v] varint_bytes.simps [of "unat v"])
  qed
qed

lemma Varint32_read: "n < 2 ^ 32 \<Longrightarrow> Varint32 (pre @ varint_bytes n @ post) (length pre) = Inr (of_nat n, length pre + length (varint_bytes n))"
  using varint_loop_bytes [where 'a = 32, of n 0 35] by (simp add: Varint32_def)

lemma Varint64_read: "n < 2 ^ 64 \<Longrightarrow> Varint64 (pre @ varint_bytes n @ post) (length pre) = Inr (of_nat n, length pre + length (varint_bytes n))"
  using varint_loop_bytes [where 'a = 64, of n 0 70] by (simp add: Varint64_def)

lemma u32_of_nat: "n < 2 ^ 32 \<Longrightarrow> unat (of_nat n :: u32) = n"
  by (rule unat_of_nat_small) simp

lemma u64_of_nat: "n < 2 ^ 64 \<Longrightarrow> unat (of_nat n :: u64) = n"
  by (rule unat_of_nat_small) simp

lemma ucast_u32_u64:
  assumes "n < 2 ^ 32"
  shows "ucast (of_nat n :: u32) = (of_nat n :: u64)" "ucast (of_nat n :: u64) = (of_nat n :: u32)"
proof -
  have "ucast (of_nat n :: u32) = (of_nat (unat (of_nat n :: u32)) :: u64)" by (simp only: of_nat_unat)
  then show "ucast (of_nat n :: u32) = (of_nat n :: u64)" unfolding u32_of_nat [OF assms] .
  have n: "n < 2 ^ 64" using assms by simp
  have "ucast (of_nat n :: u64) = (of_nat (unat (of_nat n :: u64)) :: u32)" by (simp only: of_nat_unat)
  then show "ucast (of_nat n :: u64) = (of_nat n :: u32)" unfolding u64_of_nat [OF n] .
qed

section \<open>Slim entries point to their frames\<close>

definition krec_ok :: "KRec \<Rightarrow> bool" where
  "krec_ok r \<longleftrightarrow> length (kr_user r) = kUserKeyLength \<and> length (kr_value r) \<le> kValueLength"

definition krec_header :: "u32 \<Rightarrow> KRec \<Rightarrow> ZfRecordHeader" where
  "krec_header part r = \<lparr> h_magic = kZfMagic, h_cf_id = ucast part, h_type = kr_type r, h_flags = 0, h_key_len = of_nat (length (kr_user r)),
     h_val_len = of_nat (length (kr_value r)), h_seq = kr_seq r \<rparr>"

lemma krec_frame_eq: "krec_frame part r = EncodeZfRecord (krec_header part r) (kr_user r) (kr_value r)"
  by (simp add: krec_frame_def BuildZfRecord_eq krec_header_def)

lemma krec_frame_ok:
  assumes "krec_ok r"
  shows "DecodeZfRecord (krec_frame part r) = Inr (krec_header part r, kr_user r, kr_value r)" "length (krec_frame part r) = 52 + length (kr_value r)"
proof -
  have "zf_frame_ok (krec_header part r) (kr_user r) (kr_value r)"
    using assms by (simp add: zf_frame_ok_def krec_header_def krec_ok_def kUserKeyLength_def kValueLength_def unat_of_nat_small)
  then show "DecodeZfRecord (krec_frame part r) = Inr (krec_header part r, kr_user r, kr_value r)"
    unfolding krec_frame_eq by (rule Decode_EncodeZfRecord)
  show "length (krec_frame part r) = 52 + length (kr_value r)" using assms by (simp add: krec_frame_eq krec_ok_def kUserKeyLength_def)
qed

lemma place_frames_layout:
  "place_frames part off rs =
     (map (\<lambda>i. (rs ! i, off + of_nat (length (concat (map (krec_frame part) (take i rs)))))) [0..<length rs], concat (map (krec_frame part) rs))"
proof (induction rs arbitrary: off)
  case (Cons r rs)
  have "[0..<length (r # rs)] = 0 # map Suc [0..<length rs]" by (simp add: map_Suc_upt upt_conv_Cons del: upt_Suc)
  then show ?case by (simp add: Cons Let_def comp_def add.assoc del: upt_Suc)
qed simp

lemma mset_krec_sort: "mset (krec_sort rs) = mset rs"
proof -
  have "mset (insort_cmp cmp x xs) = add_mset x (mset xs)" for cmp and x :: KRec and xs by (induction xs) auto
  then have "mset (sort_cmp cmp rs) = mset rs" for cmp by (induction rs) simp_all
  then show ?thesis by (simp add: krec_sort_def)
qed

lemma set_krec_sort: "set (krec_sort rs) = set rs" "length (krec_sort rs) = length rs"
  by (rule mset_eq_setD mset_eq_length; rule mset_krec_sort)+

lemma set_unique_users: "set (unique_users rs) \<subseteq> set rs" "length (unique_users rs) \<le> length rs"
  by (induction rs rule: unique_users.induct) auto

lemma concat_uniform_nth:
  assumes "\<forall>x \<in> set xs. length (f x) = n" "i < length xs"
  shows "take n (drop (n * i) (concat (map f xs))) = f (xs ! i)"
  using assms
proof (induction xs arbitrary: i)
  case (Cons x xs)
  then show ?case by (cases i) simp_all
qed simp

lemma slim_entry_eq:
  "slim_entry part gen en = [32] @ MakeInternalKey (kr_user (fst en)) (kr_seq (fst en)) (kr_type (fst en)) @ [16] @
     PutFixed32 part @ PutFixed32 gen @ PutFixed64 (snd en)"
  by (simp add: slim_entry_def InternalKey_eq PutFixed32LE_eq PutFixed64LE_eq kInternalKeyLength_def PutVarint32.simps)

text \<open>C26: a staged port is consistent. For records with 24-byte keys and values of at most 1024 bytes, the
  entries of a port are its records, sorted and without repeated user keys; the \<open>i\<close>-th slim entry
  of the staged buffer has the internal key of the \<open>i\<close>-th record and a locator, and at the offset of
  the locator the engine's WAL decoder reads exactly this record.\<close>

theorem port_entries_located:
  assumes "\<forall>r \<in> set rs. length (kr_user r) = kUserKeyLength \<and> length (kr_value r) \<le> kValueLength" "1076 * length rs < 2 ^ 64"
  shows "map fst (pt_entries (build_port part gen rs)) = unique_users (krec_sort rs) \<and>
    (\<forall>i < length (unique_users (krec_sort rs)). \<exists>off.
       take 50 (drop (length (pt_wal (build_port part gen rs)) + 50 * i) (Staged (build_port part gen rs))) =
         [32] @ MakeInternalKey (kr_user (unique_users (krec_sort rs) ! i)) (kr_seq (unique_users (krec_sort rs) ! i)) (kr_type (unique_users (krec_sort rs) ! i)) @
         [16] @ PutFixed32 part @ PutFixed32 gen @ PutFixed64 off \<and>
       DecodeZfRecord (take (52 + length (kr_value (unique_users (krec_sort rs) ! i))) (drop (unat off) (Staged (build_port part gen rs)))) =
         Inr (krec_header part (unique_users (krec_sort rs) ! i), kr_user (unique_users (krec_sort rs) ! i), kr_value (unique_users (krec_sort rs) ! i)))"
proof (intro conjI allI impI)
  define us where "us = unique_users (krec_sort rs)"
  define wal where "wal = concat (map (krec_frame part) us)"
  define off where "off i = (of_nat (length (concat (map (krec_frame part) (take i us)))) :: u64)" for i
  have port: "pt_entries (build_port part gen rs) = map (\<lambda>i. (us ! i, off i)) [0..<length us]" "pt_wal (build_port part gen rs) = wal"
    "pt_slim (build_port part gen rs) = concat (map (slim_entry part gen) (map (\<lambda>i. (us ! i, off i)) [0..<length us]))"
    using place_frames_layout [of part 0 us] by (simp_all add: build_port_def us_def [symmetric] wal_def off_def case_prod_beta)
  show "map fst (pt_entries (build_port part gen rs)) = unique_users (krec_sort rs)"
    unfolding port us_def [symmetric] by (simp add: comp_def map_nth)
  have ok: "krec_ok r" if "r \<in> set us" for r
    using that assms(1) set_unique_users(1) [of "krec_sort rs"] unfolding us_def krec_ok_def set_krec_sort by blast
  have len: "length us \<le> length rs" using set_unique_users(2) [of "krec_sort rs"] by (simp add: us_def set_krec_sort)
  fix i assume "i < length (unique_users (krec_sort rs))"
  then have i: "i < length us" by (simp add: us_def)
  let ?r = "us ! i"
  have "length (concat (map (krec_frame part) (take i us))) \<le> 1076 * length (take i us)"
  proof -
    have "length (concat (map (krec_frame part) vs)) \<le> 1076 * length vs" if "set vs \<subseteq> set us" for vs
      using that by (induction vs) (auto simp: krec_frame_ok(2) ok dest: ok simp: krec_ok_def kValueLength_def)
    then show ?thesis using set_take_subset by metis
  qed
  also have "\<dots> < 2 ^ 64" using i len assms(2) by simp
  finally have off: "unat (off i) = length (concat (map (krec_frame part) (take i us)))" unfolding off_def using unat_of_nat_small [where 'a = 64] by simp
  have "us = take i us @ ?r # drop (Suc i) us" using i by (rule id_take_nth_drop)
  then have w: "wal = concat (map (krec_frame part) (take i us)) @ krec_frame part ?r @ concat (map (krec_frame part) (drop (Suc i) us))"
    unfolding wal_def by (metis concat_append concat.simps(2) list.simps(9) map_append)
  have fr: "take (52 + length (kr_value ?r)) (drop (unat (off i)) (Staged (build_port part gen rs))) = krec_frame part ?r"
    unfolding Staged_def port(2) w off using krec_frame_ok(2) [OF ok [OF nth_mem [OF i]], of part] by simp
  have slim: "take 50 (drop (length wal + 50 * i) (Staged (build_port part gen rs))) = slim_entry part gen (us ! i, off i)"
  proof -
    have "length (slim_entry part gen (us ! k, off k)) = 50" if "k < length us" for k
      using ok [OF nth_mem [OF that]] by (simp add: slim_entry_eq MakeInternalKey_def krec_ok_def kUserKeyLength_def)
    then have "take 50 (drop (50 * i) (pt_slim (build_port part gen rs))) = slim_entry part gen (us ! i, off i)"
      unfolding port(3) using concat_uniform_nth [of "map (\<lambda>i. (us ! i, off i)) [0..<length us]" "slim_entry part gen" 50 i] i by auto
    then show ?thesis by (simp add: Staged_def port(2))
  qed
  show "\<exists>off. take 50 (drop (length (pt_wal (build_port part gen rs)) + 50 * i) (Staged (build_port part gen rs))) =
         [32] @ MakeInternalKey (kr_user (unique_users (krec_sort rs) ! i)) (kr_seq (unique_users (krec_sort rs) ! i)) (kr_type (unique_users (krec_sort rs) ! i)) @
         [16] @ PutFixed32 part @ PutFixed32 gen @ PutFixed64 off \<and>
       DecodeZfRecord (take (52 + length (kr_value (unique_users (krec_sort rs) ! i))) (drop (unat off) (Staged (build_port part gen rs)))) =
         Inr (krec_header part (unique_users (krec_sort rs) ! i), kr_user (unique_users (krec_sort rs) ! i), kr_value (unique_users (krec_sort rs) ! i))"
    unfolding us_def [symmetric] port(2)
    using slim fr krec_frame_ok(1) [OF ok [OF nth_mem [OF i]], of part] by (intro exI [of _ "off i"]) (simp add: slim_entry_eq)
qed

definition sample_krec :: "byte \<Rightarrow> u64 \<Rightarrow> KRec" where
  "sample_krec k s = \<lparr> kr_user = k # replicate 23 0, kr_seq = s, kr_type = 1, kr_value = [k, k] \<rparr>"

theorem port_entries_located_witness:
  "unique_users (krec_sort [sample_krec 9 3, sample_krec 5 4, sample_krec 9 7]) = [sample_krec 5 4, sample_krec 9 7] \<and>
   map fst (pt_entries (build_port 1000 300 [sample_krec 9 3, sample_krec 5 4, sample_krec 9 7])) = [sample_krec 5 4, sample_krec 9 7]"
proof -
  let ?rs = "[sample_krec 9 3, sample_krec 5 4, sample_krec 9 7]"
  have u: "unique_users (krec_sort ?rs) = [sample_krec 5 4, sample_krec 9 7]"
    by (simp add: krec_sort_def krec_less_def sample_krec_def SameUser_def Let_def)
  have "\<forall>r \<in> set ?rs. length (kr_user r) = kUserKeyLength \<and> length (kr_value r) \<le> kValueLength" "1076 * length ?rs < 2 ^ 64"
    by (simp_all add: sample_krec_def kUserKeyLength_def kValueLength_def)
  from port_entries_located [OF this, of 1000 300] u show ?thesis by metis
qed

end
