(* ===== verification/ZfSstDecode.thy ===== *)
theory ZfSstDecode
  imports ZfHostFormat
begin

text \<open>
  The host's decoder for the tables the accelerator writes (\<^verbatim>\<open>AcceleratorKernelSstV2/host/zf_sst_decode.h\<close>):
  blocks of prefix-compressed records with restart offsets, a five-byte trailer with a masked CRC
  after each block, and an index block with one handle for each data block. The position in a buffer
  is a natural number; the offsets that come from the file are 64-bit numbers and their sums wrap.
  A read outside the buffer is \<^const>\<open>OutOfBounds\<close>, an exception is \<^const>\<open>CppException\<close>; the numbers in the
  message about a wrong checksum are left out.

  A reference layout, written from the format description at the head of the file, says what a table
  for given records is. The properties: the decoder returns the records of every laid out table, for
  every choice of blocks, shared prefixes and restart offsets, and it rejects a table in which one
  byte of the data region has changed.
\<close>

unbundle bit_operations_syntax

section \<open>The decoder\<close>

definition U32LE :: "bytes \<Rightarrow> nat \<Rightarrow> u32" where
  "U32LE b i = ucast (b ! i) OR push_bit 8 (ucast (b ! (i + 1))) OR push_bit 16 (ucast (b ! (i + 2))) OR push_bit 24 (ucast (b ! (i + 3)))"

definition VerifyBlockTrailer :: "bytes \<Rightarrow> u64 \<Rightarrow> u64 \<Rightarrow> unit zf_result" where
  "VerifyBlockTrailer b off sz =
     (if unat (off + sz + 5) > length b then Inl (CppException ''block+trailer out of region'')
      else if unat off + unat sz + 5 > length b then Inl OutOfBounds
      else if b ! (unat off + unat sz) \<noteq> 0 then Inl (CppException ''block trailer type != kNoCompression'')
      else if U32LE b (unat off + unat sz + 1) \<noteq> BlockChecksum (slice (unat off) (unat sz) b) then Inl (CppException ''block checksum mismatch'')
      else Inr ())"

record OutRec =
  or_rec :: KRec
  or_ik :: bytes

text \<open>An entry of the index block: the handle and the position after it.\<close>

definition parse_handle :: "bytes \<Rightarrow> nat \<Rightarrow> ((u64 \<times> u32) \<times> nat) zf_result" where
  "parse_handle idx p =
     res_bind (Varint32 idx p) (\<lambda>(shared, p).
     res_bind (Varint32 idx p) (\<lambda>(unshared, p).
     res_bind (Varint32 idx p) (\<lambda>(vlen, p).
       if unshared \<noteq> 32 then Inl (CppException ''index key len != 32 (not v2 full key)'')
       else
        let vstart = p + unat unshared
        in res_bind (Varint64 idx vstart) (\<lambda>(off, p).
           res_bind (Varint64 idx p) (\<lambda>(sz, p).
             if p - vstart \<noteq> unat vlen then Inl (CppException ''index value length != parsed block handle bytes'')
             else Inr ((off, ucast sz), p))))))"

primrec parse_handles :: "nat \<Rightarrow> bytes \<Rightarrow> u64 \<Rightarrow> nat \<Rightarrow> ((u64 \<times> u32) list \<times> nat) zf_result" where
  "parse_handles 0 idx entries_end p = Inr ([], p)"
| "parse_handles (Suc n) idx entries_end p =
     (if p \<ge> unat entries_end then Inl (CppException ''index entries ran out early'')
      else res_bind (parse_handle idx p) (\<lambda>(h, p). res_bind (parse_handles n idx entries_end p) (\<lambda>(hs, p). Inr (h # hs, p))))"

definition ParseIndexHandles :: "bytes \<Rightarrow> nat \<Rightarrow> (u64 \<times> u32) list zf_result" where
  "ParseIndexHandles idx num_blocks =
     (if length idx < 9 then Inl (CppException ''index region too small'')
      else
       let nrest = U32LE idx (length idx - 9); entries_end = of_nat (length idx) - 5 - 4 - 4 * ucast nrest
       in res_bind (parse_handles num_blocks idx entries_end 0) (\<lambda>(out, p).
            if p > unat entries_end then Inl (CppException ''index entries overran restart area'') else Inr out))"

definition out_rec :: "bytes \<Rightarrow> bytes \<Rightarrow> OutRec" where
  "out_rec key value =
     (let footer = foldl (\<lambda>footer i. push_bit 8 footer OR ucast (key ! (24 + i))) (0 :: u64) [7, 6, 5, 4, 3, 2, 1, 0]
      in \<lparr> or_rec = \<lparr> kr_user = take 24 key, kr_seq = drop_bit 8 footer, kr_type = ucast (footer AND 0xff), kr_value = value \<rparr>, or_ik = key \<rparr>)"

text \<open>A record of a data block: its key, its value and the position after it.\<close>

definition decode_record :: "bytes \<Rightarrow> bytes \<Rightarrow> nat \<Rightarrow> (bytes \<times> bytes \<times> nat) zf_result" where
  "decode_record block runkey p =
     res_bind (Varint32 block p) (\<lambda>(shared, p).
     res_bind (Varint32 block p) (\<lambda>(unshared, p).
     res_bind (Varint32 block p) (\<lambda>(vlen, p).
       if p + unat unshared + unat vlen > length block then Inl OutOfBounds
       else
        let key = take (unat shared) runkey @ slice p (unat unshared) block
        in if length key \<noteq> 32 then Inl (CppException ''unexpected key length in data block'')
           else Inr (key, slice (p + unat unshared) (unat vlen) block, p + unat unshared + unat vlen))))"

lemma varint_loop_bounds: "varint_loop lim msg sh r b p = Inr (v, q) \<Longrightarrow> p < q \<and> q \<le> length b"
proof (induction lim msg sh r b p rule: varint_loop.induct)
  case (1 lim msg sh r b p)
  show ?case
  proof (cases "p < length b \<and> b ! p AND 0x80 \<noteq> 0 \<and> sh + 7 < lim")
    case True
    then have "varint_loop lim msg (sh + 7) (r OR push_bit sh (ucast (b ! p AND 0x7f))) b (p + 1) = Inr (v, q)"
      using 1(2) by (simp add: varint_loop.simps [of lim msg sh] Let_def)
    then show ?thesis using 1(1) [OF _ refl refl] True by fastforce
  next
    case False
    then show ?thesis using 1(2) by (auto simp: varint_loop.simps [of lim msg sh] Let_def split: if_splits)
  qed
qed

lemma decode_record_progress: "decode_record block runkey p = Inr (key, value, q) \<Longrightarrow> p < q \<and> q \<le> length block"
  by (auto simp: decode_record_def res_bind_Inr Let_def Varint32_def split: if_splits dest!: varint_loop_bounds)

function decode_records :: "bytes \<Rightarrow> nat \<Rightarrow> bytes \<Rightarrow> nat \<Rightarrow> (OutRec list \<times> nat) zf_result" where
  "decode_records block end_pos runkey p =
     (if p < end_pos
      then case decode_record block runkey p of
             Inl er \<Rightarrow> Inl er
           | Inr (key, value, q) \<Rightarrow> res_bind (decode_records block end_pos key q) (\<lambda>(recs, q'). Inr (out_rec key value # recs, q'))
      else Inr ([], p))"
  by auto
termination
  by (relation "measure (\<lambda>(block, end_pos, runkey, p). length block + 1 - p)") (auto dest!: decode_record_progress)

declare decode_records.simps [simp del]

definition DecodeBlock :: "bytes \<Rightarrow> OutRec list zf_result" where
  "DecodeBlock block =
     (if length block < 4 then Inl OutOfBounds
      else
       let nrest = U32LE block (length block - 4); end_pos = of_nat (length block) - (1 + ucast nrest) * 4 :: u64
       in res_bind (decode_records block (unat end_pos) [] 0) (\<lambda>(recs, p).
            if p \<noteq> unat end_pos then Inl (CppException ''data block decode did not reach block end'') else Inr recs))"

primrec decode_blocks :: "bytes \<Rightarrow> u64 \<Rightarrow> (u64 \<times> u32) list \<Rightarrow> OutRec list zf_result" where
  "decode_blocks data top_sst [] = Inr []"
| "decode_blocks data top_sst (h # hs) =
     (let off = fst h; sz = ucast (snd h)
      in if off + sz + 5 > top_sst \<or> data \<noteq> [] \<and> unat (off + sz + 5) > length data then Inl (CppException ''block handle out of data region'')
         else res_bind (VerifyBlockTrailer data off sz) (\<lambda>_.
              res_bind (DecodeBlock (slice (unat off) (unat sz) data)) (\<lambda>recs.
              res_bind (decode_blocks data top_sst hs) (\<lambda>rest. Inr (recs @ rest)))))"

text \<open>\<open>pps\<close> is the table of properties the kernel returns.\<close>

definition DecodeSST :: "bytes \<Rightarrow> bytes \<Rightarrow> u64 list \<Rightarrow> u64 \<Rightarrow> OutRec list zf_result" where
  "DecodeSST data idx pps top_sst =
     res_bind (if length idx \<ge> 5 then VerifyBlockTrailer idx 0 (of_nat (length idx - 5)) else Inr ()) (\<lambda>_.
     res_bind (ParseIndexHandles idx (unat (pps ! 0))) (\<lambda>handles. decode_blocks data top_sst handles))"

section \<open>The layout\<close>

text \<open>A record with its shared prefix, a block, its trailer, an index entry.\<close>

definition record_layout :: "nat \<times> bytes \<times> bytes \<Rightarrow> bytes" where
  "record_layout e = (case e of (s, k, v) \<Rightarrow> varint_bytes s @ varint_bytes (length k - s) @ varint_bytes (length v) @ drop s k @ v)"

definition restart_area :: "u32 list \<Rightarrow> bytes" where
  "restart_area restarts = concat (map PutFixed32 restarts) @ PutFixed32 (of_nat (length restarts))"

definition block_layout :: "(nat \<times> bytes \<times> bytes) list \<times> u32 list \<Rightarrow> bytes" where
  "block_layout b = concat (map record_layout (fst b)) @ restart_area (snd b)"

definition with_trailer :: "bytes \<Rightarrow> bytes" where
  "with_trailer c = c @ 0 # PutFixed32 (BlockChecksum c)"

definition data_layout :: "bytes list \<Rightarrow> bytes" where
  "data_layout blocks = concat (map with_trailer blocks)"

definition index_entry :: "bytes \<Rightarrow> nat \<Rightarrow> nat \<Rightarrow> bytes" where
  "index_entry key off sz =
     (let v = varint_bytes off @ varint_bytes sz in varint_bytes 0 @ varint_bytes 32 @ varint_bytes (length v) @ key @ v)"

fun index_entries :: "nat \<Rightarrow> (bytes \<times> bytes) list \<Rightarrow> bytes" where
  "index_entries off [] = []"
| "index_entries off ((key, block) # bs) = index_entry key off (length block) @ index_entries (off + length block + 5) bs"

definition index_layout :: "(bytes \<times> bytes) list \<Rightarrow> u32 list \<Rightarrow> bytes" where
  "index_layout bs restarts = with_trailer (index_entries 0 bs @ restart_area restarts)"

text \<open>Records whose prefix is indeed shared with the key before.\<close>

fun records_ok :: "bytes \<Rightarrow> (nat \<times> bytes \<times> bytes) list \<Rightarrow> bool" where
  "records_ok prev [] = True"
| "records_ok prev ((s, k, v) # es) =
     (length k = 32 \<and> length v < 2 ^ 32 \<and> s \<le> length prev \<and> s \<le> 32 \<and> take s prev = take s k \<and> records_ok k es)"

lemma length_restart_area: "length (restart_area rs) = 4 * length rs + 4"
  by (simp add: restart_area_def)

lemma length_with_trailer [simp]: "length (with_trailer c) = length c + 5"
  by (simp add: with_trailer_def)

lemma U32LE_eq: "i + 4 \<le> length b \<Longrightarrow> U32LE b i = DecodeFixed32 (drop i b)"
proof -
  assume i: "i + 4 \<le> length b"
  then have "take 4 (drop i b) = [b ! i, b ! (i + 1), b ! (i + 2), b ! (i + 3)]"
    by (intro nth_equalityI) (auto simp: nth_Cons' less_Suc_eq numeral_eq_Suc)
  then show ?thesis by (simp add: U32LE_def DecodeFixed32_def push_bit_or or.assoc)
qed

lemma U32LE_append: "length pre = i \<Longrightarrow> U32LE (pre @ PutFixed32 v @ post) i = v"
  by (subst U32LE_eq) (simp_all add: DecodeFixed_prefix)

lemma decode_record_layout:
  assumes "records_ok prev [(s, k, v)]"
  shows "decode_record (pre @ record_layout (s, k, v) @ post) prev (length pre) = Inr (k, v, length pre + length (record_layout (s, k, v)))"
proof -
  have h: "length k = 32" "length v < 2 ^ 32" "s \<le> length prev" "s \<le> 32" "take s prev = take s k" using assms by auto
  let ?b = "pre @ record_layout (s, k, v) @ post"
  have p1: "Varint32 ?b (length pre) = Inr (of_nat s, length (pre @ varint_bytes s))"
    using Varint32_read [of s pre] h(4) by (simp add: record_layout_def)
  have p2: "Varint32 ?b (length (pre @ varint_bytes s)) = Inr (of_nat (length k - s), length (pre @ varint_bytes s @ varint_bytes (length k - s)))"
    using Varint32_read [of "length k - s" "pre @ varint_bytes s"] h(1) by (simp add: record_layout_def)
  have p3: "Varint32 ?b (length (pre @ varint_bytes s @ varint_bytes (length k - s))) =
      Inr (of_nat (length v), length (pre @ varint_bytes s @ varint_bytes (length k - s) @ varint_bytes (length v)))"
    using Varint32_read [of "length v" "pre @ varint_bytes s @ varint_bytes (length k - s)"] h(2) by (simp add: record_layout_def)
  let ?p = "pre @ varint_bytes s @ varint_bytes (length k - s) @ varint_bytes (length v)"
  have u: "unat (of_nat s :: u32) = s" "unat (of_nat (length k - s) :: u32) = length k - s" "unat (of_nat (length v) :: u32) = length v"
    by (rule unat_of_nat_small, use h in simp)+
  have b: "?b = ?p @ drop s k @ v @ post" by (simp add: record_layout_def)
  have key: "slice (length ?p) (length k - s) ?b = drop s k" unfolding b by (rule slice_append_mid) simp_all
  have val: "slice (length ?p + (length k - s)) (length v) ?b = v"
    using slice_append_mid [of "?p @ drop s k" "length ?p + (length k - s)" v "length v" post] unfolding b by simp
  show ?thesis
    unfolding decode_record_def p1 res_bind_simps prod.case p2 p3 u key val Let_def
    using h by (auto simp: record_layout_def)
qed

lemma decode_records_layout:
  assumes "records_ok prev es"
  shows "decode_records (pre @ concat (map record_layout es) @ post) (length pre + length (concat (map record_layout es))) prev (length pre) =
    Inr (map (\<lambda>(s, k, v). out_rec k v) es, length pre + length (concat (map record_layout es)))"
  using assms
proof (induction prev es arbitrary: pre rule: records_ok.induct)
  case (1 prev)
  then show ?case by (simp add: decode_records.simps)
next
  case (2 prev s k v es)
  let ?e = "record_layout (s, k, v)" and ?rest = "concat (map record_layout es)"
  have pos: "length ?e > 0" by (simp add: record_layout_def varint_bytes.simps [of s])
  have one: "decode_record (pre @ ?e @ ?rest @ post) prev (length pre) = Inr (k, v, length (pre @ ?e))"
    using decode_record_layout [of prev s k v pre "?rest @ post"] 2(2) by simp
  have rest: "decode_records ((pre @ ?e) @ ?rest @ post) (length (pre @ ?e) + length ?rest) k (length (pre @ ?e)) =
      Inr (map (\<lambda>(s, k, v). out_rec k v) es, length (pre @ ?e) + length ?rest)"
    by (rule "2.IH") (use "2.prems" in simp)
  have "decode_records (pre @ ?e @ ?rest @ post) (length pre + length ?e + length ?rest) prev (length pre) =
      Inr (out_rec k v # map (\<lambda>(s, k, v). out_rec k v) es, length pre + length ?e + length ?rest)"
    by (subst decode_records.simps) (use pos one rest in \<open>simp add: add.assoc\<close>)
  then show ?case by (simp add: add.assoc)
qed

lemma DecodeBlock_layout:
  assumes "records_ok [] (fst b)" "length (block_layout b) < 2 ^ 32"
  shows "DecodeBlock (block_layout b) = Inr (map (\<lambda>(s, k, v). out_rec k v) (fst b))"
proof -
  let ?R = "concat (map record_layout (fst b))" and ?n = "length (snd b)"
  have len: "length (block_layout b) = length ?R + 4 * ?n + 4" by (simp add: block_layout_def length_restart_area)
  have n: "?n < 2 ^ 32" using assms(2) len by simp
  have nrest: "U32LE (block_layout b) (length (block_layout b) - 4) = of_nat ?n"
    using U32LE_append [of "?R @ concat (map PutFixed32 (snd b))" "length (block_layout b) - 4" "of_nat ?n" "[]"] len
    by (simp add: block_layout_def restart_area_def)
  have "ucast (of_nat ?n :: u32) = (of_nat ?n :: u64)" using n by (rule ucast_u32_u64(1))
  then have "of_nat (length (block_layout b)) - (1 + ucast (of_nat ?n :: u32)) * 4 = (of_nat (length ?R) :: u64)"
    unfolding len by (simp add: algebra_simps)
  moreover have "unat (of_nat (length ?R) :: u64) = length ?R" using assms(2) len by (intro unat_of_nat_small) simp
  ultimately have e: "unat (of_nat (length (block_layout b)) - (1 + ucast (U32LE (block_layout b) (length (block_layout b) - 4))) * 4 :: u64) = length ?R"
    unfolding nrest by simp
  have "decode_records (block_layout b) (length ?R) [] 0 = Inr (map (\<lambda>(s, k, v). out_rec k v) (fst b), length ?R)"
    using decode_records_layout [OF assms(1), of "[]" "restart_area (snd b)"] by (simp add: block_layout_def)
  then show ?thesis unfolding DecodeBlock_def Let_def e using len by simp
qed

lemma Mask_inj: "Mask a = Mask b \<longleftrightarrow> a = b"
  by (metis Unmask_Mask)

lemma BlockChecksum_update: "i < length c \<Longrightarrow> BlockChecksum (c[i := x]) = BlockChecksum c \<longleftrightarrow> x = c ! i"
  by (simp add: BlockChecksum_def Mask_inj ExtendByte_def Extend_def crc_step_inj_state Value_update)

text \<open>The check of a trailer at a known place.\<close>

lemma VerifyBlockTrailer_at:
  assumes "length pre + length c + 5 + length post < 2 ^ 64" "length c' = length c" "length t = 4"
  shows "VerifyBlockTrailer (pre @ c' @ y # t @ post) (of_nat (length pre)) (of_nat (length c)) =
    (if y \<noteq> 0 then Inl (CppException ''block trailer type != kNoCompression'')
     else if DecodeFixed32 t \<noteq> BlockChecksum c' then Inl (CppException ''block checksum mismatch'') else Inr ())"
proof -
  let ?b = "pre @ c' @ y # t @ post"
  have u: "unat (of_nat (length pre) :: u64) = length pre" "unat (of_nat (length c) :: u64) = length c" using assms(1) by (simp_all add: u64_of_nat)
  have "of_nat (length pre) + of_nat (length c) + 5 = (of_nat (length pre + length c + 5) :: u64)" by simp
  then have sum: "unat (of_nat (length pre) + of_nat (length c) + 5 :: u64) = length pre + length c + 5"
    using u64_of_nat [of "length pre + length c + 5"] assms(1) by simp
  have y: "?b ! (length pre + length c) = y" using assms(2) by (simp add: nth_append)
  have "drop (length pre + length c + 1) ?b = t @ post" using assms(2) by simp
  then have crc: "U32LE ?b (length pre + length c + 1) = DecodeFixed32 t" using assms(2,3) by (subst U32LE_eq) (simp_all add: DecodeFixed_prefix)
  have c: "slice (length pre) (length c) ?b = c'" using assms(2) by (intro slice_append_mid) simp_all
  have l: "length ?b = length pre + length c + 5 + length post" using assms(2,3) by simp
  show ?thesis unfolding VerifyBlockTrailer_def u sum y crc c l by simp
qed

lemma VerifyBlockTrailer_layout:
  assumes "length pre + length c + 5 + length post < 2 ^ 64"
  shows "VerifyBlockTrailer (pre @ with_trailer c @ post) (of_nat (length pre)) (of_nat (length c)) = Inr ()"
  using VerifyBlockTrailer_at [OF assms refl, of "PutFixed32 (BlockChecksum c)" 0] by (simp add: with_trailer_def)

lemma VerifyBlockTrailer_changed:
  assumes "length pre + length c + 5 + length post < 2 ^ 64" "i < length c + 5" "x \<noteq> with_trailer c ! i"
  shows "\<exists>er. VerifyBlockTrailer (pre @ (with_trailer c)[i := x] @ post) (of_nat (length pre)) (of_nat (length c)) = Inl er"
proof -
  let ?t = "PutFixed32 (BlockChecksum c)"
  consider "i < length c" | "i = length c" | "length c < i" by linarith
  then show ?thesis
  proof cases
    case 1
    then have "(with_trailer c)[i := x] = c[i := x] @ 0 # ?t" "with_trailer c ! i = c ! i" by (simp_all add: with_trailer_def list_update_append nth_append)
    then show ?thesis using VerifyBlockTrailer_at [OF assms(1), of "c[i := x]" ?t 0] 1 assms(3) BlockChecksum_update [of i c x] by simp
  next
    case 2
    then have "(with_trailer c)[i := x] = c @ x # ?t" "x \<noteq> 0" using assms(3) by (simp_all add: with_trailer_def)
    then show ?thesis using VerifyBlockTrailer_at [OF assms(1) refl, of ?t x] by simp
  next
    case 3
    define k where "k = i - length c - 1"
    have i: "i = length c + Suc k" "k < 4" using 3 assms(2) by (simp_all add: k_def)
    then have "(with_trailer c)[i := x] = c @ 0 # ?t[k := x]" "with_trailer c ! i = ?t ! k"
      by (simp_all add: with_trailer_def list_update_append nth_append)
    moreover have "DecodeFixed32 (?t[k := x]) \<noteq> BlockChecksum c"
      using DecodeFixed32_update [of ?t k x] i assms(3) calculation(2) by simp
    ultimately show ?thesis using VerifyBlockTrailer_at [OF assms(1) refl, of "?t[k := x]" 0] by simp
  qed
qed

section \<open>The index\<close>

lemma length_varint_bytes: "n < 128 ^ k \<Longrightarrow> 0 < k \<Longrightarrow> length (varint_bytes n) \<le> k"
proof (induction n arbitrary: k rule: varint_bytes.induct)
  case (1 n)
  show ?case
  proof (cases "n < 128")
    case False
    then obtain m where m: "k = Suc m" "0 < m" using "1.prems" by (cases k; cases "k = 1") auto
    then have "n div 128 < 128 ^ m" using "1.prems"(1) by (simp add: div_less_iff_less_mult mult.commute)
    from "1.IH" [OF False this m(2)] show ?thesis using False m(1) by (simp add: varint_bytes.simps [of n])
  qed (use "1.prems" in \<open>simp add: varint_bytes.simps [of n]\<close>)
qed

lemma parse_handle_entry:
  assumes "length key = 32" "off < 2 ^ 64" "sz < 2 ^ 32"
  shows "parse_handle (pre @ index_entry key off sz @ post) (length pre) = Inr ((of_nat off, of_nat sz), length pre + length (index_entry key off sz))"
proof -
  let ?v = "varint_bytes off @ varint_bytes sz" and ?b = "pre @ index_entry key off sz @ post"
  let ?p1 = "pre @ varint_bytes 0" and ?p2 = "pre @ varint_bytes 0 @ varint_bytes 32"
  let ?p3 = "pre @ varint_bytes 0 @ varint_bytes 32 @ varint_bytes (length ?v)"
  have vlen: "length ?v < 2 ^ 32" using length_varint_bytes [of off 10] length_varint_bytes [of sz 10] assms(2,3) by simp
  have p: "Varint32 ?b (length pre) = Inr (of_nat 0, length ?p1)" "Varint32 ?b (length ?p1) = Inr (of_nat 32, length ?p2)"
    "Varint32 ?b (length ?p2) = Inr (of_nat (length ?v), length ?p3)"
    using Varint32_read [of 0 pre] Varint32_read [of 32 ?p1] Varint32_read [of "length ?v" ?p2] vlen by (simp_all add: index_entry_def Let_def)
  have q: "Varint64 ?b (length ?p3 + unat (of_nat 32 :: u32)) = Inr (of_nat off, length (?p3 @ key @ varint_bytes off))"
    "Varint64 ?b (length (?p3 @ key @ varint_bytes off)) = Inr (of_nat sz, length (?p3 @ key @ ?v))"
    using Varint64_read [of off "?p3 @ key"] Varint64_read [of sz "?p3 @ key @ varint_bytes off"] assms by (simp_all add: index_entry_def Let_def add.assoc)
  have "ucast (of_nat sz :: u64) = (of_nat sz :: u32)" using assms(3) by (rule ucast_u32_u64(2))
  then show ?thesis
    unfolding parse_handle_def p res_bind_simps prod.case Let_def q u32_of_nat [OF vlen]
    using assms(1) by (simp add: index_entry_def Let_def)
qed

fun handles_of :: "nat \<Rightarrow> bytes list \<Rightarrow> (u64 \<times> u32) list" where
  "handles_of off [] = []"
| "handles_of off (c # cs) = (of_nat off, of_nat (length c)) # handles_of (off + length c + 5) cs"

lemma parse_handles_layout:
  assumes "\<forall>b \<in> set bs. length (fst b) = 32 \<and> length (snd b) < 2 ^ 32" "off + length (data_layout (map snd bs)) < 2 ^ 64"
    "unat entries_end = length pre + length (index_entries off bs)"
  shows "parse_handles (length bs) (pre @ index_entries off bs @ post) entries_end (length pre) =
    Inr (handles_of off (map snd bs), length pre + length (index_entries off bs))"
  using assms
proof (induction off bs arbitrary: pre rule: index_entries.induct)
  case (2 off key c bs)
  let ?e = "index_entry key off (length c)" and ?rest = "index_entries (off + length c + 5) bs"
  have pos: "length ?e > 0" by (simp add: index_entry_def Let_def varint_bytes.simps [of 0])
  have one: "parse_handle (pre @ ?e @ ?rest @ post) (length pre) = Inr ((of_nat off, of_nat (length c)), length (pre @ ?e))"
    using parse_handle_entry [of key off "length c" pre "?rest @ post"] "2.prems"(1,2) by simp
  have rest: "parse_handles (length bs) ((pre @ ?e) @ ?rest @ post) entries_end (length (pre @ ?e)) =
      Inr (handles_of (off + length c + 5) (map snd bs), length (pre @ ?e) + length ?rest)"
    by (rule "2.IH") (use "2.prems" in \<open>simp_all add: data_layout_def add.assoc\<close>)
  show ?case using one rest pos "2.prems"(3) by (simp add: add.assoc)
qed simp

lemma ParseIndexHandles_layout:
  assumes "\<forall>b \<in> set bs. length (fst b) = 32 \<and> length (snd b) < 2 ^ 32" "length (data_layout (map snd bs)) < 2 ^ 64"
    "length (index_layout bs restarts) < 2 ^ 32"
  shows "ParseIndexHandles (index_layout bs restarts) (length bs) = Inr (handles_of 0 (map snd bs))"
proof -
  let ?E = "index_entries 0 bs" and ?n = "length restarts" and ?idx = "index_layout bs restarts"
  let ?c = "?E @ restart_area restarts"
  have len: "length ?idx = length ?E + 4 * ?n + 9" by (simp add: index_layout_def length_restart_area)
  have idx: "?idx = (?E @ concat (map PutFixed32 restarts)) @ PutFixed32 (of_nat ?n) @ 0 # PutFixed32 (BlockChecksum ?c)"
    by (simp add: index_layout_def with_trailer_def restart_area_def)
  have nrest: "U32LE ?idx (length ?idx - 9) = of_nat ?n" unfolding idx by (rule U32LE_append) simp
  have "ucast (of_nat ?n :: u32) = (of_nat ?n :: u64)" using len assms(3) by (intro ucast_u32_u64(1)) simp
  then have "of_nat (length ?idx) - 5 - 4 - 4 * ucast (U32LE ?idx (length ?idx - 9)) = (of_nat (length ?E) :: u64)"
    unfolding nrest unfolding len by (simp add: algebra_simps)
  moreover have "unat (of_nat (length ?E) :: u64) = length ?E" using assms(3) len by (intro u64_of_nat) simp
  ultimately have e: "unat (of_nat (length ?idx) - 5 - 4 - 4 * ucast (U32LE ?idx (length ?idx - 9)) :: u64) = length ?E" by simp
  have "parse_handles (length bs) ?idx (of_nat (length ?idx) - 5 - 4 - 4 * ucast (U32LE ?idx (length ?idx - 9))) 0 = Inr (handles_of 0 (map snd bs), length ?E)"
    using parse_handles_layout [OF assms(1), of 0 _ "[]" "restart_area restarts @ 0 # PutFixed32 (BlockChecksum ?c)"] assms(2) e
    by (simp add: index_layout_def with_trailer_def)
  then show ?thesis unfolding ParseIndexHandles_def Let_def using e len by simp
qed

section \<open>The table\<close>

lemma decode_blocks_layout:
  assumes "\<forall>b \<in> set blocks. records_ok [] (fst b) \<and> length (block_layout b) < 2 ^ 32" "length pre + length (data_layout (map block_layout blocks)) < 2 ^ 64"
  shows "decode_blocks (pre @ data_layout (map block_layout blocks)) (of_nat (length pre + length (data_layout (map block_layout blocks))))
      (handles_of (length pre) (map block_layout blocks)) = Inr (map (\<lambda>(s, k, v). out_rec k v) (concat (map fst blocks)))"
  using assms
proof (induction blocks arbitrary: pre)
  case (Cons b blocks)
  let ?c = "block_layout b" and ?rest = "data_layout (map block_layout blocks)"
  have c: "length ?c < 2 ^ 32" "records_ok [] (fst b)" using Cons.prems(1) by simp_all
  have data: "data_layout (?c # map block_layout blocks) = with_trailer ?c @ ?rest" by (simp add: data_layout_def)
  have tot: "length pre + length ?c + 5 + length ?rest < 2 ^ 64" using Cons.prems(2) unfolding list.map data by simp
  have sum: "of_nat (length pre) + of_nat (length ?c) + 5 = (of_nat (length pre + length ?c + 5) :: u64)" by simp
  have bound: "unat (of_nat (length pre + length ?c + 5) :: u64) = length pre + length ?c + 5"
    "unat (of_nat (length pre + length (with_trailer ?c @ ?rest)) :: u64) = length pre + length ?c + 5 + length ?rest"
    using tot u64_of_nat [of "length pre + length ?c + 5"] u64_of_nat [of "length pre + length (with_trailer ?c @ ?rest)"] by simp_all
  have ver: "VerifyBlockTrailer (pre @ with_trailer ?c @ ?rest) (of_nat (length pre)) (of_nat (length ?c)) = Inr ()"
    using tot by (rule VerifyBlockTrailer_layout)
  have sl: "slice (unat (of_nat (length pre) :: u64)) (unat (of_nat (length ?c) :: u64)) (pre @ with_trailer ?c @ ?rest) = ?c"
    using tot c(1) slice_append_mid [of pre "length pre" ?c "length ?c" "0 # PutFixed32 (BlockChecksum ?c) @ ?rest"] by (simp add: u64_of_nat with_trailer_def)
  have rest: "decode_blocks (pre @ with_trailer ?c @ ?rest) (of_nat (length pre + length (with_trailer ?c @ ?rest)))
      (handles_of (length pre + length ?c + 5) (map block_layout blocks)) = Inr (map (\<lambda>(s, k, v). out_rec k v) (concat (map fst blocks)))"
    using Cons.IH [of "pre @ with_trailer ?c"] Cons.prems(1) tot by (simp add: add.assoc)
  have small: "\<not> of_nat (length pre) + of_nat (length ?c) + 5 > (of_nat (length pre + length (with_trailer ?c @ ?rest)) :: u64)"
    unfolding sum word_less_nat_alt bound by simp
  show ?case
    unfolding data list.map handles_of.simps decode_blocks.simps Let_def fst_conv snd_conv ucast_u32_u64(1) [OF c(1)] ver sl
      DecodeBlock_layout [OF c(2,1)] rest
    using small bound(1) unfolding sum by simp
qed (simp add: data_layout_def)

lemma DecodeSST_index:
  assumes "\<forall>b \<in> set bs. length (fst b) = 32 \<and> length (snd b) < 2 ^ 32" "length (data_layout (map snd bs)) < 2 ^ 64"
    "length (index_layout bs restarts) < 2 ^ 32" "pps ! 0 = of_nat (length bs)"
  shows "DecodeSST data (index_layout bs restarts) pps top_sst = decode_blocks data top_sst (handles_of 0 (map snd bs))"
proof -
  let ?c = "index_entries 0 bs @ restart_area restarts"
  have "VerifyBlockTrailer ([] @ with_trailer ?c @ []) (of_nat (length ([] :: bytes))) (of_nat (length ?c)) = Inr ()"
    by (rule VerifyBlockTrailer_layout) (use assms(3) in \<open>simp add: index_layout_def\<close>)
  moreover have "length bs \<le> length (data_layout (map snd bs))" by (induction bs) (auto simp: data_layout_def)
  then have "unat (pps ! 0) = length bs" using assms(2,4) by (simp add: u64_of_nat)
  ultimately show ?thesis
    unfolding DecodeSST_def using ParseIndexHandles_layout [OF assms(1-3)] by (simp add: index_layout_def)
qed

lemma decode_blocks_changed:
  assumes "\<forall>b \<in> set blocks. records_ok [] (fst b) \<and> length (block_layout b) < 2 ^ 32" "length pre + length (data_layout (map block_layout blocks)) < 2 ^ 64"
    "i < length (data_layout (map block_layout blocks))" "x \<noteq> data_layout (map block_layout blocks) ! i"
  shows "\<exists>er. decode_blocks (pre @ (data_layout (map block_layout blocks))[i := x]) top_sst (handles_of (length pre) (map block_layout blocks)) = Inl er"
  using assms
proof (induction blocks arbitrary: pre i)
  case (Cons b blocks)
  let ?c = "block_layout b" and ?rest = "data_layout (map block_layout blocks)"
  have c: "length ?c < 2 ^ 32" "records_ok [] (fst b)" using Cons.prems(1) by simp_all
  have data: "data_layout (?c # map block_layout blocks) = with_trailer ?c @ ?rest" by (simp add: data_layout_def)
  have tot: "length pre + length ?c + 5 + length ?rest < 2 ^ 64" using Cons.prems(2) unfolding list.map data by simp
  show ?case
  proof (cases "i < length ?c + 5")
    case True
    then have upd: "(with_trailer ?c @ ?rest)[i := x] = (with_trailer ?c)[i := x] @ ?rest" by (simp add: list_update_append)
    have "x \<noteq> with_trailer ?c ! i" using Cons.prems(4) True unfolding list.map data by (simp add: nth_append)
    from VerifyBlockTrailer_changed [OF tot True this]
    obtain er where er: "VerifyBlockTrailer (pre @ (with_trailer ?c)[i := x] @ ?rest) (of_nat (length pre)) (of_nat (length ?c)) = Inl er" by blast
    show ?thesis unfolding list.map data upd handles_of.simps decode_blocks.simps Let_def fst_conv snd_conv ucast_u32_u64(1) [OF c(1)] er by simp
  next
    case False
    define k where "k = i - (length ?c + 5)"
    have i: "i = length (with_trailer ?c) + k" using False by (simp add: k_def)
    then have upd: "(with_trailer ?c @ ?rest)[i := x] = with_trailer ?c @ ?rest[k := x]" by (simp add: list_update_append)
    have ver: "VerifyBlockTrailer (pre @ with_trailer ?c @ ?rest[k := x]) (of_nat (length pre)) (of_nat (length ?c)) = Inr ()"
      by (rule VerifyBlockTrailer_layout) (use tot in simp)
    have sl: "slice (unat (of_nat (length pre) :: u64)) (unat (of_nat (length ?c) :: u64)) (pre @ with_trailer ?c @ ?rest[k := x]) = ?c"
      using tot c(1) slice_append_mid [of pre "length pre" ?c "length ?c" "0 # PutFixed32 (BlockChecksum ?c) @ ?rest[k := x]"] by (simp add: u64_of_nat with_trailer_def)
    have "k < length ?rest" "x \<noteq> ?rest ! k" using Cons.prems(3,4) i unfolding list.map data by (simp_all add: nth_append)
    then obtain er where "decode_blocks ((pre @ with_trailer ?c) @ ?rest[k := x]) top_sst (handles_of (length (pre @ with_trailer ?c)) (map block_layout blocks)) = Inl er"
      using Cons.IH [of "pre @ with_trailer ?c" k] Cons.prems(1) tot by auto
    then have rest: "decode_blocks (pre @ with_trailer ?c @ ?rest[k := x]) top_sst (handles_of (length pre + length ?c + 5) (map block_layout blocks)) = Inl er"
      by (simp add: add.assoc)
    show ?thesis
      unfolding list.map data upd handles_of.simps decode_blocks.simps Let_def fst_conv snd_conv ucast_u32_u64(1) [OF c(1)] ver sl
        DecodeBlock_layout [OF c(2,1)] rest by simp
  qed
qed (simp add: data_layout_def)

text \<open>A table: blocks of records with their shared prefixes and restart offsets, and for each block the
  32-byte key of its index entry.\<close>

definition krec_entry :: "nat \<times> KRec \<Rightarrow> nat \<times> bytes \<times> bytes" where
  "krec_entry e = (fst e, MakeInternalKey (kr_user (snd e)) (kr_seq (snd e)) (kr_type (snd e)), kr_value (snd e))"

definition table_block :: "(nat \<times> KRec) list \<times> u32 list \<Rightarrow> bytes" where
  "table_block b = block_layout (map krec_entry (fst b), snd b)"

definition table_ok :: "(bytes \<times> (nat \<times> KRec) list \<times> u32 list) list \<Rightarrow> u32 list \<Rightarrow> bool" where
  "table_ok t restarts \<longleftrightarrow>
     (\<forall>b \<in> set t. length (fst b) = 32 \<and> records_ok [] (map krec_entry (fst (snd b))) \<and> length (table_block (snd b)) < 2 ^ 32 \<and>
        (\<forall>e \<in> set (fst (snd b)). length (kr_user (snd e)) = kUserKeyLength \<and> kr_seq (snd e) \<le> kMaxSequenceNumber)) \<and>
     length (data_layout (map (\<lambda>b. table_block (snd b)) t)) < 2 ^ 64 \<and>
     length (index_layout (map (\<lambda>b. (fst b, table_block (snd b))) t) restarts) < 2 ^ 32"

definition table_data :: "(bytes \<times> (nat \<times> KRec) list \<times> u32 list) list \<Rightarrow> bytes" where
  "table_data t = data_layout (map (\<lambda>b. table_block (snd b)) t)"

definition table_index :: "(bytes \<times> (nat \<times> KRec) list \<times> u32 list) list \<Rightarrow> u32 list \<Rightarrow> bytes" where
  "table_index t restarts = index_layout (map (\<lambda>b. (fst b, table_block (snd b))) t) restarts"

lemma foldl_footer:
  assumes "length xs = 8"
  shows "foldl (\<lambda>footer i. push_bit 8 footer OR ucast (xs ! i)) (0 :: u64) [7, 6, 5, 4, 3, 2, 1, 0] = DecodeFixed64 xs"
proof -
  obtain a b c d e f g h where "xs = [a, b, c, d, e, f, g, h]"
    using assms by (auto simp: length_Suc_conv numeral_eq_Suc)
  then show ?thesis by (simp add: DecodeFixed64_def or.commute)
qed

lemma out_rec_key:
  assumes "length (kr_user r) = kUserKeyLength" "kr_seq r \<le> kMaxSequenceNumber"
  shows "out_rec (MakeInternalKey (kr_user r) (kr_seq r) (kr_type r)) (kr_value r) =
    \<lparr> or_rec = r, or_ik = MakeInternalKey (kr_user r) (kr_seq r) (kr_type r) \<rparr>"
proof -
  let ?k = "MakeInternalKey (kr_user r) (kr_seq r) (kr_type r)" and ?f = "PutFixed64 (PackSequenceAndType (kr_seq r) (kr_type r))"
  have n: "?k ! (24 + i) = ?f ! i" for i using assms(1) by (simp add: MakeInternalKey_def nth_append kUserKeyLength_def)
  have "foldl (\<lambda>footer i. push_bit 8 footer OR ucast (?k ! (24 + i))) (0 :: u64) [7, 6, 5, 4, 3, 2, 1, 0] = PackSequenceAndType (kr_seq r) (kr_type r)"
    unfolding n using foldl_footer [of ?f] by simp
  moreover have "take 24 ?k = kr_user r" using assms(1) by (simp add: MakeInternalKey_def kUserKeyLength_def)
  ultimately show ?thesis using UnPack_PackSequenceAndType [OF assms(2), of "kr_type r"] by (simp add: out_rec_def Let_def UnPackSequenceAndType_def)
qed

lemma map_out_rec:
  assumes "\<forall>e \<in> set es. length (kr_user (snd e)) = kUserKeyLength \<and> kr_seq (snd e) \<le> kMaxSequenceNumber"
  shows "map (\<lambda>e. or_rec (case krec_entry e of (s, k, v) \<Rightarrow> out_rec k v)) es = map snd es"
  using assms by (intro map_cong) (simp_all add: krec_entry_def out_rec_key)

text \<open>The decoder reads back every table, for every choice of blocks, shared prefixes, restart offsets
  and index keys.\<close>

lemma DecodeSST_table:
  assumes "table_ok t restarts" "pps ! 0 = of_nat (length t)"
  shows "\<exists>recs. DecodeSST (table_data t) (table_index t restarts) pps (of_nat (length (table_data t))) = Inr recs \<and>
    map or_rec recs = concat (map (\<lambda>b. map snd (fst (snd b))) t)"
proof -
  let ?blocks = "map (\<lambda>b. (map krec_entry (fst (snd b)), snd (snd b))) t" and ?bs = "map (\<lambda>b. (fst b, table_block (snd b))) t"
  have lay: "map snd ?bs = map block_layout ?blocks" "table_data t = data_layout (map block_layout ?blocks)"
    by (simp_all add: table_block_def table_data_def comp_def)
  have "DecodeSST (table_data t) (table_index t restarts) pps (of_nat (length (table_data t))) =
      decode_blocks (table_data t) (of_nat (length (table_data t))) (handles_of 0 (map snd ?bs))"
    unfolding table_index_def by (rule DecodeSST_index) (use assms in \<open>auto simp: table_ok_def comp_def\<close>)
  also have "\<dots> = Inr (map (\<lambda>(s, k, v). out_rec k v) (concat (map fst ?blocks)))"
    using decode_blocks_layout [of ?blocks "[]"] assms(1) unfolding lay by (simp add: table_ok_def table_block_def comp_def)
  finally have "DecodeSST (table_data t) (table_index t restarts) pps (of_nat (length (table_data t))) =
      Inr (map (\<lambda>(s, k, v). out_rec k v) (concat (map fst ?blocks)))" .
  moreover have "map or_rec (map (\<lambda>(s, k, v). out_rec k v) (concat (map fst ?blocks))) = concat (map (\<lambda>b. map snd (fst (snd b))) t)"
  proof -
    have "map (\<lambda>b. map (\<lambda>e. or_rec (case krec_entry e of (s, k, v) \<Rightarrow> out_rec k v)) (fst (snd b))) t = map (\<lambda>b. map snd (fst (snd b))) t"
      by (rule map_cong [OF refl]) (rule map_out_rec, use assms(1) in \<open>simp add: table_ok_def\<close>)
    then show ?thesis by (simp add: map_concat comp_def del: map_eq_conv)
  qed
  ultimately show ?thesis by blast
qed

definition sample_table :: "(bytes \<times> (nat \<times> KRec) list \<times> u32 list) list" where
  "sample_table = [(replicate 32 0, [(0, sample_krec 5 4), (1, sample_krec 5 3)], [0]), (replicate 32 1, [(0, sample_krec 9 7)], [0])]"

lemma sample_table_ok: "table_ok sample_table [0, 1]"
  by (simp add: table_ok_def sample_table_def table_block_def krec_entry_def sample_krec_def block_layout_def record_layout_def restart_area_def
      data_layout_def index_layout_def index_entry_def Let_def kUserKeyLength_def kMaxSequenceNumber_def varint_bytes.simps MakeInternalKey_def)

text \<open>C25: the host decoder detects a changed byte. When one byte of the data region of a table is
  overwritten with another value, in a record, a restart offset or a trailer, the decoder reports an
  error instead of returning records.\<close>

theorem sst_decode_detects_byte:
  assumes "table_ok t restarts" "pps ! 0 = of_nat (length t)" "i < length (table_data t)" "x \<noteq> table_data t ! i"
  shows "\<exists>er. DecodeSST ((table_data t)[i := x]) (table_index t restarts) pps (of_nat (length (table_data t))) = Inl er"
proof -
  let ?blocks = "map (\<lambda>b. (map krec_entry (fst (snd b)), snd (snd b))) t" and ?bs = "map (\<lambda>b. (fst b, table_block (snd b))) t"
  have lay: "map snd ?bs = map block_layout ?blocks" "table_data t = data_layout (map block_layout ?blocks)"
    by (simp_all add: table_block_def table_data_def comp_def)
  have "DecodeSST ((table_data t)[i := x]) (table_index t restarts) pps (of_nat (length (table_data t))) =
      decode_blocks ((table_data t)[i := x]) (of_nat (length (table_data t))) (handles_of 0 (map snd ?bs))"
    unfolding table_index_def by (rule DecodeSST_index) (use assms in \<open>auto simp: table_ok_def comp_def\<close>)
  moreover have "\<exists>er. decode_blocks ([] @ (table_data t)[i := x]) (of_nat (length (table_data t))) (handles_of (length ([] :: bytes)) (map block_layout ?blocks)) = Inl er"
    unfolding lay(2) by (rule decode_blocks_changed) (use assms in \<open>auto simp: table_ok_def table_block_def table_data_def comp_def\<close>)
  ultimately show ?thesis unfolding lay(1) by simp
qed

theorem sst_decode_detects_byte_witness:
  "table_data sample_table ! 0 \<noteq> 1 \<and>
   (\<exists>er. DecodeSST ((table_data sample_table)[0 := 1]) (table_index sample_table [0, 1]) [2] (of_nat (length (table_data sample_table))) = Inl er)"
proof -
  have first: "table_data sample_table ! 0 = 0" "0 < length (table_data sample_table)"
    by (simp_all add: table_data_def sample_table_def data_layout_def with_trailer_def table_block_def block_layout_def krec_entry_def record_layout_def varint_bytes.simps [of 0])
  then show ?thesis using sst_decode_detects_byte [OF sample_table_ok, of "[2]" 0 1] by (simp add: sample_table_def)
qed

end
