(* ===== verification/ZfHostOracle.thy ===== *)
theory ZfHostOracle
  imports ZfSstDecode
begin

text \<open>
  The test oracle of the accelerator's host side: the records that are expected after merging and
  removing shadowed versions (steps 3 and 4 of \<^verbatim>\<open>GenWorkload\<close> in
  \<^verbatim>\<open>AcceleratorKernelSstV2/host/zf_format.h\<close>) and the comparison of the kernel's output with them
  (\<^verbatim>\<open>CompareWorkload\<close> in \<^verbatim>\<open>host/zf_sst_decode.h\<close>). The records that the generator draws at random are
  an argument. An error message is a constructor that carries the numbers and records of its text.
  A failed assertion is \<^const>\<open>CppException\<close>.

  The properties: the oracle keeps exactly the newest version of every user key, in key order; the
  comparison accepts a table if and only if it holds exactly the expected records and the returned
  table properties are those of these records.
\<close>

unbundle bit_operations_syntax

section \<open>The oracle\<close>

record Workload =
  wl_port :: "Port list"
  wl_expected :: "KRec list"

definition EqualKey :: "KRec \<Rightarrow> KRec \<Rightarrow> bool" where
  "EqualKey a b \<longleftrightarrow> kr_user a = kr_user b \<and> kr_seq a = kr_seq b \<and> kr_type a = kr_type b"

definition expect_step :: "KRec list \<Rightarrow> KRec \<Rightarrow> KRec list" where
  "expect_step expect r = (if expect = [] \<or> \<not> SameUser (last expect) r then expect @ [r] else expect)"

text \<open>The inputs are partition, generation and records of each port.\<close>

definition build_workload :: "(u32 \<times> u32 \<times> KRec list) list \<Rightarrow> Workload zf_result" where
  "build_workload inputs =
     (let ports = map (\<lambda>(part, gen, rs). build_port part gen rs) inputs;
          all = krec_sort (concat (map (\<lambda>p. map fst (pt_entries p)) ports));
          expect = foldl expect_step [] all
      in if all = [] then Inl (CppException ''assertion !all.empty()'')
         else if \<not> EqualKey (last all) (last expect) then Inl (CppException ''assertion: global-max user must be unique in workload'')
         else Inr \<lparr> wl_port = ports, wl_expected = expect \<rparr>)"

section \<open>The comparison\<close>

datatype compare_error =
    RecordCount nat nat
  | RecMismatch nat KRec KRec
  | PpsEntries u64 nat
  | ExpectedEmpty
  | SmallestKeyMismatch
  | LargestKeyMismatch
  | MinMaxSeqMismatch u64 u64 u64 u64
  | RawKeySizeMismatch
  | RawValueSizeMismatch

fun compare_records :: "nat \<Rightarrow> KRec list \<Rightarrow> KRec list \<Rightarrow> compare_error list \<Rightarrow> compare_error list" where
  "compare_records i (e # es) (g # gs) errs =
     (if e = g then compare_records (Suc i) es gs errs
      else if length (errs @ [RecMismatch i e g]) > 8 then errs @ [RecMismatch i e g]
      else compare_records (Suc i) es gs (errs @ [RecMismatch i e g]))"
| "compare_records i es gs errs = errs"

definition pps_key :: "u64 list \<Rightarrow> nat \<Rightarrow> bytes" where
  "pps_key pps k = concat (map (\<lambda>i. map (\<lambda>b. ucast (drop_bit (8 * b) (pps ! (k + i)))) [0..<8]) [0..<4])"

definition krec_pack :: "KRec \<Rightarrow> u64" where
  "krec_pack r = push_bit 8 (kr_seq r) OR ucast (kr_type r)"

definition krec_key :: "KRec \<Rightarrow> bytes" where
  "krec_key r = InternalKey (kr_user r) (kr_seq r) (kr_type r)"

definition compare_pps :: "KRec list \<Rightarrow> u64 list \<Rightarrow> compare_error list" where
  "compare_pps expected pps =
     (let expect_min = foldl (\<lambda>m e. min m (krec_pack e)) (krec_pack (hd expected)) expected;
          expect_max = foldl (\<lambda>m e. max m (krec_pack e)) (krec_pack (last expected)) expected;
          rawk = foldl (\<lambda>n e. n + 32) 0 expected; rawv = foldl (\<lambda>n e. n + of_nat (length (kr_value e))) 0 expected
      in (if pps_key pps 10 \<noteq> krec_key (hd expected) then [SmallestKeyMismatch] else []) @
         (if pps_key pps 14 \<noteq> krec_key (last expected) then [LargestKeyMismatch] else []) @
         (if pps ! 6 \<noteq> expect_min \<or> pps ! 7 \<noteq> expect_max then [MinMaxSeqMismatch (pps ! 6) (pps ! 7) expect_min expect_max] else []) @
         (if pps ! 3 \<noteq> rawk then [RawKeySizeMismatch] else []) @
         (if pps ! 4 \<noteq> rawv then [RawValueSizeMismatch] else []))"

text \<open>\<open>pps\<close> is an array of 128 numbers.\<close>

definition CompareWorkload :: "Workload \<Rightarrow> bytes \<Rightarrow> bytes \<Rightarrow> u64 list \<Rightarrow> u64 \<Rightarrow> compare_error list zf_result" where
  "CompareWorkload wl data idx pps top_sst =
     res_bind (DecodeSST data idx pps top_sst) (\<lambda>got.
       let expected = wl_expected wl;
           errs = (if length got \<noteq> length expected then [RecordCount (length got) (length expected)] else []);
           errs = compare_records 0 expected (map or_rec got) errs;
           errs = errs @ (if pps ! 1 \<noteq> of_nat (length expected) then [PpsEntries (pps ! 1) (length expected)] else [])
       in if expected = [] then Inr (errs @ [ExpectedEmpty]) else Inr (errs @ compare_pps expected pps))"

section \<open>The order of records\<close>

definition krec_cmp :: "KRec \<Rightarrow> KRec \<Rightarrow> int" where
  "krec_cmp a b = (if krec_less a b then -1 else if krec_less b a then 1 else 0)"

lemma krec_less_alt:
  "krec_less a b \<longleftrightarrow> Slice_compare (kr_user a) (kr_user b) < 0 \<or>
     kr_user a = kr_user b \<and> (kr_seq a > kr_seq b \<or> kr_seq a = kr_seq b \<and> kr_type a > kr_type b)"
  using bytewise.cmp_eq_iff [of "kr_user a" "kr_user b"] by (auto simp: krec_less_def Let_def)

interpretation krec_order: user_comparator krec_cmp
proof
  show "krec_cmp a b < 0 \<longleftrightarrow> 0 < krec_cmp b a" for a b
    using bytewise.cmp_swap [of "kr_user a" "kr_user b"] by (auto simp: krec_cmp_def krec_less_alt)
  show "krec_cmp a c \<le> 0" if "krec_cmp a b \<le> 0" "krec_cmp b c \<le> 0" for a b c
  proof -
    have le: "krec_cmp x y \<le> 0 \<longleftrightarrow> \<not> krec_less y x" for x y
      using bytewise.cmp_swap [of "kr_user x" "kr_user y"] by (auto simp: krec_cmp_def krec_less_alt)
    show ?thesis
    proof (rule ccontr)
      assume "\<not> krec_cmp a c \<le> 0"
      then have ca: "krec_less c a" using le by simp
      have ab: "\<not> krec_less b a" "\<not> krec_less c b" using that le by auto
      have u: "Slice_compare (kr_user a) (kr_user b) \<le> 0" "Slice_compare (kr_user b) (kr_user c) \<le> 0"
        using ab bytewise.cmp_le_iff by (auto simp: krec_less_alt not_less)
      then have "Slice_compare (kr_user a) (kr_user c) \<le> 0" by (rule bytewise.cmp_trans)
      then have ac: "kr_user c = kr_user a" using ca bytewise.cmp_swap [of "kr_user c" "kr_user a"] by (auto simp: krec_less_alt)
      then have "kr_user a = kr_user b"
        using u bytewise.cmp_le_iff [of "kr_user b" "kr_user a"] bytewise.cmp_eq_iff [of "kr_user a" "kr_user b"] by simp
      then show False using ca ab ac by (auto simp: krec_less_alt)
    qed
  qed
qed

lemma krec_cmp_le: "krec_cmp a b \<le> 0 \<longleftrightarrow> \<not> krec_less b a"
  using krec_order.cmp_swap [of b a] by (auto simp: krec_cmp_def)

lemma newer_same_user:
  "kr_user e = kr_user r \<Longrightarrow> \<not> krec_less r e \<Longrightarrow> kr_seq r < kr_seq e \<or> kr_seq r = kr_seq e \<and> kr_type r \<le> kr_type e"
  by (auto simp: krec_less_alt not_less)

lemma krec_le_user: "\<not> krec_less b a \<Longrightarrow> Slice_compare (kr_user a) (kr_user b) \<le> 0"
  using bytewise.cmp_le_iff [of "kr_user a" "kr_user b"] by (simp add: krec_less_alt not_less)

lemma krec_sort_eq: "krec_sort rs = sort_cmp krec_cmp rs"
  by (simp add: krec_sort_def krec_cmp_def [abs_def])

text \<open>\<open>newest_of es rs\<close>: the newest version of every user key of \<open>rs\<close>, in key order.\<close>

definition newest_of :: "KRec list \<Rightarrow> KRec list \<Rightarrow> bool" where
  "newest_of es rs \<longleftrightarrow> sorted_wrt (\<lambda>a b. Slice_compare (kr_user a) (kr_user b) < 0) es \<and> set es \<subseteq> set rs \<and>
     (\<forall>r \<in> set rs. \<exists>e \<in> set es. kr_user e = kr_user r \<and> \<not> krec_less r e)"

lemma newest_of_unique_users:
  "sorted_wrt (\<lambda>a b. krec_cmp a b \<le> 0) rs \<Longrightarrow> newest_of (unique_users rs) rs"
proof (induction rs rule: unique_users.induct)
  case (1 a b rs)
  show ?case
  proof (cases "SameUser a b")
    case True
    have n: "newest_of (unique_users (a # rs)) (a # rs)" using "1.IH"(1) [OF True] "1.prems" by simp
    then obtain e where "e \<in> set (unique_users (a # rs))" "kr_user e = kr_user a" "\<not> krec_less a e" by (auto simp: newest_of_def)
    moreover have "\<not> krec_less b a" using "1.prems" by (simp add: krec_cmp_le)
    ultimately have "\<exists>e \<in> set (unique_users (a # rs)). kr_user e = kr_user b \<and> \<not> krec_less b e"
      using True krec_order.cmp_trans [of e a b] unfolding krec_cmp_le SameUser_def by metis
    then show ?thesis using n True by (auto simp: newest_of_def)
  next
    case False
    have n: "newest_of (unique_users (b # rs)) (b # rs)" using "1.IH"(2) [OF False] "1.prems" by simp
    have ab: "Slice_compare (kr_user a) (kr_user b) < 0"
    proof -
      have "Slice_compare (kr_user a) (kr_user b) \<le> 0" by (rule krec_le_user) (use "1.prems" in \<open>simp add: krec_cmp_le\<close>)
      moreover have "Slice_compare (kr_user a) (kr_user b) \<noteq> 0" using False unfolding bytewise.cmp_eq_iff SameUser_def .
      ultimately show ?thesis by linarith
    qed
    have "Slice_compare (kr_user a) (kr_user x) < 0" if "x \<in> set (b # rs)" for x
    proof -
      have "Slice_compare (kr_user b) (kr_user x) \<le> 0" using that "1.prems" krec_le_user [of x b] by (auto simp: krec_cmp_le)
      with ab show ?thesis by (rule bytewise.cmp_lt_le_trans)
    qed
    moreover have "\<not> krec_less a a" by (simp add: krec_less_alt)
    ultimately show ?thesis using n False unfolding newest_of_def unique_users.simps if_not_P by (simp add: subset_iff)
  qed
qed (simp_all add: newest_of_def krec_less_alt)

lemma newest_of_sort: "newest_of (unique_users (krec_sort rs)) rs"
  using newest_of_unique_users [OF krec_order.sorted_sort_cmp, of rs] by (simp add: newest_of_def krec_sort_eq)

lemma foldl_expect_step: "foldl expect_step (acc @ [a]) rs = acc @ unique_users (a # rs)"
proof (induction rs arbitrary: acc a)
  case (Cons r rs)
  have "foldl expect_step ((acc @ [a]) @ [r]) rs = (acc @ [a]) @ unique_users (r # rs)" by (rule Cons)
  then show ?case using Cons [of acc a] by (simp add: expect_step_def [of "acc @ [a]" r])
qed simp

lemma foldl_expect_step_Nil: "foldl expect_step [] rs = unique_users rs"
  using foldl_expect_step [of "[]"] by (cases rs) (simp_all add: expect_step_def)

lemma build_port_entries: "map fst (pt_entries (build_port part gen rs)) = unique_users (krec_sort rs)"
  using place_frames_layout [of part 0 "unique_users (krec_sort rs)"] by (simp add: build_port_def comp_def map_nth)

lemma set_ports_subset:
  fixes inputs :: "(u32 \<times> u32 \<times> KRec list) list"
  shows "set (concat (map (\<lambda>x. unique_users (krec_sort (snd (snd x)))) inputs)) \<subseteq> set (concat (map (\<lambda>x. snd (snd x)) inputs))"
proof -
  have "set (unique_users (krec_sort (snd (snd x)))) \<subseteq> set (snd (snd x))" for x :: "u32 \<times> u32 \<times> KRec list"
    using set_unique_users(1) [of "krec_sort (snd (snd x))"] unfolding set_krec_sort(1) .
  then show ?thesis unfolding set_concat set_map image_image by (intro UN_mono) simp_all
qed

lemma newest_of_ports:
  fixes inputs :: "(u32 \<times> u32 \<times> KRec list) list"
  shows "newest_of es (concat (map (\<lambda>x. unique_users (krec_sort (snd (snd x)))) inputs)) \<Longrightarrow> newest_of es (concat (map (\<lambda>x. snd (snd x)) inputs))"
proof -
  assume n: "newest_of es (concat (map (\<lambda>x. unique_users (krec_sort (snd (snd x)))) inputs))"
  have "\<exists>e \<in> set es. kr_user e = kr_user r \<and> \<not> krec_less r e" if x: "x \<in> set inputs" "r \<in> set (snd (snd x))" for x r
  proof -
    obtain r' where r': "r' \<in> set (unique_users (krec_sort (snd (snd x))))" "kr_user r' = kr_user r" "\<not> krec_less r r'"
      using newest_of_sort [of "snd (snd x)"] x(2) unfolding newest_of_def by metis
    have "r' \<in> set (concat (map (\<lambda>x. unique_users (krec_sort (snd (snd x)))) inputs))" using r'(1) x(1) by auto
    then obtain e where "e \<in> set es" "kr_user e = kr_user r'" "\<not> krec_less r' e" using n unfolding newest_of_def by blast
    then show ?thesis using r' krec_order.cmp_trans [of e r' r] unfolding krec_cmp_le by metis
  qed
  moreover have "set es \<subseteq> set (concat (map (\<lambda>x. snd (snd x)) inputs))"
    using n set_ports_subset [of inputs] unfolding newest_of_def by blast
  ultimately show ?thesis using n unfolding newest_of_def by auto
qed

text \<open>With one newest user key, the assertion about the last records holds.\<close>

lemma last_EqualKey:
  assumes "m \<in> set rs" "\<forall>r \<in> set rs. Slice_compare (kr_user r) (kr_user m) < 0 \<or> EqualKey r m" "newest_of es rs"
    "all = krec_sort rs"
  shows "EqualKey (last all) (last es)"
proof -
  have ne: "all \<noteq> []" "set all = set rs" using assms(1,4) by (auto simp: set_krec_sort dest: arg_cong [of _ _ set])
  have "sorted_wrt (\<lambda>a b. \<not> krec_less b a) all" using krec_order.sorted_sort_cmp [of rs] assms(4) by (simp add: krec_sort_eq krec_cmp_le)
  moreover have "all = butlast all @ [last all]" using ne by simp
  ultimately have "\<forall>r \<in> set (butlast all). \<not> krec_less (last all) r" by (metis sorted_wrt_append list.set_intros(1))
  moreover have "m \<in> set (butlast all) \<or> m = last all" using ne assms(1) \<open>all = butlast all @ [last all]\<close> by (metis Un_iff set_append set_ConsD list.set(1) empty_iff)
  ultimately have "\<not> krec_less (last all) m" by (auto simp: krec_less_alt)
  then have 1: "EqualKey (last all) m" using assms(2) last_in_set [OF ne(1)] ne(2) by (auto simp: krec_less_alt)
  obtain e where e: "e \<in> set es" "kr_user e = kr_user m" using assms(1,3) unfolding newest_of_def by blast
  have es: "es \<noteq> []" using e(1) by auto
  have bl: "es = butlast es @ [last es]" using es by simp
  have "\<forall>r \<in> set (butlast es). Slice_compare (kr_user r) (kr_user (last es)) < 0"
    using assms(3) bl unfolding newest_of_def by (metis sorted_wrt_append list.set_intros(1))
  moreover have "e \<in> set (butlast es) \<or> e = last es" using e(1) bl by (metis Un_iff set_append set_ConsD list.set(1) empty_iff)
  ultimately have "\<not> Slice_compare (kr_user (last es)) (kr_user m) < 0"
    using e(2) bytewise.cmp_swap [of "kr_user m" "kr_user (last es)"] bytewise.cmp_refl [of "kr_user m"] by auto
  moreover have "last es \<in> set rs" using last_in_set [OF es] assms(3) unfolding newest_of_def by blast
  ultimately show ?thesis using 1 assms(2) by (auto simp: EqualKey_def)
qed

text \<open>C24: the oracle keeps exactly the newest versions. When the records of the ports have one greatest
  user key that is not shadowed, the construction of a workload succeeds, and the expected records
  are taken from the inputs, ascend strictly by user key and contain for every record of the inputs
  a record with the same user key that is at least as new.\<close>

theorem oracle_newest:
  assumes "m \<in> set (concat (map (\<lambda>x. snd (snd x)) inputs))"
    "\<forall>r \<in> set (concat (map (\<lambda>x. snd (snd x)) inputs)). Slice_compare (kr_user r) (kr_user m) < 0 \<or> EqualKey r m"
  shows "\<exists>w. build_workload inputs = Inr w \<and>
    sorted_wrt (\<lambda>a b. Slice_compare (kr_user a) (kr_user b) < 0) (wl_expected w) \<and>
    set (wl_expected w) \<subseteq> set (concat (map (\<lambda>x. snd (snd x)) inputs)) \<and>
    (\<forall>r \<in> set (concat (map (\<lambda>x. snd (snd x)) inputs)). \<exists>e \<in> set (wl_expected w). kr_user e = kr_user r \<and>
       (kr_seq r < kr_seq e \<or> kr_seq r = kr_seq e \<and> kr_type r \<le> kr_type e))"
proof -
  let ?rs = "concat (map (\<lambda>x. unique_users (krec_sort (snd (snd x)))) inputs)" and ?in = "concat (map (\<lambda>x. snd (snd x)) inputs)"
  define es where "es = unique_users (krec_sort ?rs)"
  have n: "newest_of es ?rs" "newest_of es ?in"
    unfolding es_def using newest_of_sort newest_of_ports by blast+
  have sub: "set ?rs \<subseteq> set ?in"
    by (rule set_ports_subset)
  obtain m' where m': "m' \<in> set ?rs" "EqualKey m' m"
  proof -
    obtain e where e: "e \<in> set es" "kr_user e = kr_user m" using n(2) assms(1) unfolding newest_of_def by blast
    then have "e \<in> set ?rs" using n(1) unfolding newest_of_def by blast
    moreover have "EqualKey e m" using assms(2) subsetD [OF sub \<open>e \<in> set ?rs\<close>] e(2) bytewise.cmp_refl [of "kr_user m"] by fastforce
    ultimately show ?thesis using that by blast
  qed
  have "\<forall>r \<in> set ?rs. Slice_compare (kr_user r) (kr_user m') < 0 \<or> EqualKey r m'"
  proof
    fix r assume "r \<in> set ?rs"
    from bspec [OF assms(2) subsetD [OF sub this]] m'(2) show "Slice_compare (kr_user r) (kr_user m') < 0 \<or> EqualKey r m'" unfolding EqualKey_def by metis
  qed
  from last_EqualKey [OF m'(1) this n(1) refl] have last: "EqualKey (last (krec_sort ?rs)) (last es)" .
  have ne: "krec_sort ?rs \<noteq> []" using m'(1) set_krec_sort(1) [of ?rs] by (metis empty_iff empty_set)
  have ports: "concat (map (\<lambda>p. map fst (pt_entries p)) (map (\<lambda>(part, gen, rs). build_port part gen rs) inputs)) = ?rs"
    by (simp add: comp_def case_prod_beta build_port_entries)
  have "build_workload inputs = Inr \<lparr> wl_port = map (\<lambda>(part, gen, rs). build_port part gen rs) inputs, wl_expected = es \<rparr>"
    unfolding build_workload_def Let_def ports foldl_expect_step_Nil es_def [symmetric] using ne last by simp
  moreover have "\<forall>r \<in> set ?in. \<exists>e \<in> set es. kr_user e = kr_user r \<and> (kr_seq r < kr_seq e \<or> kr_seq r = kr_seq e \<and> kr_type r \<le> kr_type e)"
    using n(2) newer_same_user unfolding newest_of_def by metis
  ultimately show ?thesis using n(2) unfolding newest_of_def by simp
qed

theorem oracle_newest_witness:
  "\<exists>w. build_workload [(1000, 300, [sample_krec 9 3, sample_krec 5 4]), (1001, 301, [sample_krec 5 8])] = Inr w \<and>
     set (wl_expected w) \<subseteq> {sample_krec 9 3, sample_krec 5 4, sample_krec 5 8} \<and>
     (\<exists>e \<in> set (wl_expected w). kr_user e = kr_user (sample_krec 5 4) \<and> kr_seq e \<ge> 4)"
proof -
  let ?in = "[(1000, 300, [sample_krec 9 3, sample_krec 5 4]), (1001, 301, [sample_krec 5 8])] :: (u32 \<times> u32 \<times> KRec list) list"
  have "sample_krec 9 3 \<in> set (concat (map (\<lambda>x. snd (snd x)) ?in))"
    "\<forall>r \<in> set (concat (map (\<lambda>x. snd (snd x)) ?in)). Slice_compare (kr_user r) (kr_user (sample_krec 9 3)) < 0 \<or> EqualKey r (sample_krec 9 3)"
    by (simp_all add: sample_krec_def EqualKey_def)
  from oracle_newest [OF this] obtain w where w: "build_workload ?in = Inr w" "set (wl_expected w) \<subseteq> set (concat (map (\<lambda>x. snd (snd x)) ?in))"
    "\<forall>r \<in> set (concat (map (\<lambda>x. snd (snd x)) ?in)). \<exists>e \<in> set (wl_expected w). kr_user e = kr_user r \<and>
       (kr_seq r < kr_seq e \<or> kr_seq r = kr_seq e \<and> kr_type r \<le> kr_type e)" by blast
  have "sample_krec 5 4 \<in> set (concat (map (\<lambda>x. snd (snd x)) ?in))" by simp
  then obtain e where "e \<in> set (wl_expected w)" "kr_user e = kr_user (sample_krec 5 4)" "kr_seq (sample_krec 5 4) \<le> kr_seq e"
    using w(3) by (metis less_imp_le order_refl)
  then show ?thesis using w(1,2) by (auto simp: sample_krec_def)
qed

section \<open>The comparison accepts exactly the expected tables\<close>

lemma compare_records_app: "\<exists>more. compare_records i es gs errs = errs @ more"
proof (induction i es gs errs rule: compare_records.induct)
  case (1 i e es g gs errs)
  then show ?case by (cases "e = g") auto
qed simp_all

lemma compare_records_clean: "length es = length gs \<Longrightarrow> compare_records i es gs [] = [] \<longleftrightarrow> es = gs"
proof (induction es gs arbitrary: i rule: list_induct2)
  case (Cons e es g gs)
  show ?case
  proof (cases "e = g")
    case False
    then show ?thesis using compare_records_app [of "Suc i" es gs "[RecMismatch i e g]"] by auto
  qed (use Cons in simp)
qed simp

lemma foldl_min_pack: "foldl (\<lambda>m e. min m (krec_pack e)) a es = Min (insert a (krec_pack ` set es))"
proof (induction es arbitrary: a)
  case (Cons e es)
  then show ?case by (cases "es = []") (simp_all add: min.assoc)
qed simp

lemma foldl_max_pack: "foldl (\<lambda>m e. max m (krec_pack e)) a es = Max (insert a (krec_pack ` set es))"
proof (induction es arbitrary: a)
  case (Cons e es)
  then show ?case by (cases "es = []") (simp_all add: max.assoc)
qed simp

lemma foldl_rawk: "foldl (\<lambda>n e. n + 32) a es = a + 32 * of_nat (length es)" for a :: u64
  by (induction es arbitrary: a) (simp_all add: algebra_simps)

lemma foldl_rawv: "foldl (\<lambda>n e. n + of_nat (length (kr_value e))) a es = a + of_nat (sum_list (map (\<lambda>e. length (kr_value e)) es))" for a :: u64
  by (induction es arbitrary: a) (simp_all add: algebra_simps)

lemma concat_unfold4: "concat (map f [0..<4]) = f 0 @ f 1 @ f 2 @ f 3"
  by (simp add: numeral_eq_Suc)

text \<open>The table properties that the comparison expects.\<close>

definition pps_for :: "KRec list \<Rightarrow> u64 list \<Rightarrow> bool" where
  "pps_for es pps \<longleftrightarrow> pps ! 1 = of_nat (length es) \<and> pps ! 3 = 32 * of_nat (length es) \<and>
     pps ! 4 = of_nat (sum_list (map (\<lambda>e. length (kr_value e)) es)) \<and>
     pps ! 6 = Min (krec_pack ` set es) \<and> pps ! 7 = Max (krec_pack ` set es) \<and>
     concat (map (\<lambda>i. PutFixed64 (pps ! i)) [10, 11, 12, 13]) = krec_key (hd es) \<and>
     concat (map (\<lambda>i. PutFixed64 (pps ! i)) [14, 15, 16, 17]) = krec_key (last es)"

lemma pps_key_eq: "pps_key pps k = concat (map (\<lambda>i. PutFixed64 (pps ! i)) [k, k + 1, k + 2, k + 3])"
  unfolding pps_key_def concat_unfold4 by (simp add: PutFixed64LE_eq [symmetric] PutFixed64LE_def)

lemma compare_pps_clean:
  "es \<noteq> [] \<Longrightarrow> compare_pps es pps = [] \<and> pps ! 1 = of_nat (length es) \<longleftrightarrow> pps_for es pps"
proof -
  assume es: "es \<noteq> []"
  then have "krec_pack (hd es) \<in> krec_pack ` set es" "krec_pack (last es) \<in> krec_pack ` set es" by simp_all
  then have mm: "insert (krec_pack (hd es)) (krec_pack ` set es) = krec_pack ` set es" "insert (krec_pack (last es)) (krec_pack ` set es) = krec_pack ` set es"
    by auto
  show ?thesis
    unfolding compare_pps_def Let_def foldl_min_pack foldl_max_pack foldl_rawk foldl_rawv mm pps_for_def pps_key_eq by auto
qed

text \<open>C23: the comparison accepts exactly the right tables. For every laid out table and every workload,
  the comparison reports no error if and only if there are expected records, the records of the
  table are exactly these, in order, and the table properties are their count, their raw sizes, the
  smallest and largest packed sequence number, and the first and last key.\<close>

theorem compare_accepts_exactly:
  assumes "table_ok t restarts" "pps ! 0 = of_nat (length t)"
  shows "CompareWorkload wl (table_data t) (table_index t restarts) pps (of_nat (length (table_data t))) = Inr [] \<longleftrightarrow>
    wl_expected wl \<noteq> [] \<and> concat (map (\<lambda>b. map snd (fst (snd b))) t) = wl_expected wl \<and> pps_for (wl_expected wl) pps"
proof -
  let ?es = "wl_expected wl"
  from DecodeSST_table [OF assms] obtain got where got: "DecodeSST (table_data t) (table_index t restarts) pps (of_nat (length (table_data t))) = Inr got"
    "map or_rec got = concat (map (\<lambda>b. map snd (fst (snd b))) t)" by blast
  define errs where "errs = compare_records 0 ?es (map or_rec got) (if length got \<noteq> length ?es then [RecordCount (length got) (length ?es)] else [])"
  have e: "errs = [] \<longleftrightarrow> map or_rec got = ?es"
  proof (cases "length got = length ?es")
    case True
    then show ?thesis using compare_records_clean [of ?es "map or_rec got" 0] by (auto simp: errs_def)
  next
    case False
    then have "map or_rec got \<noteq> ?es" by (metis length_map)
    then show ?thesis using False compare_records_app [of 0 ?es "map or_rec got" "[RecordCount (length got) (length ?es)]"] by (auto simp: errs_def)
  qed
  have "CompareWorkload wl (table_data t) (table_index t restarts) pps (of_nat (length (table_data t))) = Inr [] \<longleftrightarrow>
      ?es \<noteq> [] \<and> errs = [] \<and> compare_pps ?es pps = [] \<and> pps ! 1 = of_nat (length ?es)"
    unfolding CompareWorkload_def got(1) res_bind_simps Let_def errs_def [symmetric] by auto
  then show ?thesis using e got(2) compare_pps_clean [of ?es pps] by metis
qed

definition sample_pps :: "u64 list" where
  "sample_pps = [2, 3, 0, 96, 6, 0, 0x301, 0x701, 0, 0, 5, 0, 0, 0x401, 9, 0, 0, 0x701] @ replicate 110 0"

lemma replicate_23: "replicate 23 x = replicate 7 x @ replicate 8 x @ replicate 8 x" "replicate 7 x = [x, x, x, x, x, x, x]" "replicate 8 x = [x, x, x, x, x, x, x, x]"
  by (simp_all add: numeral_eq_Suc)

lemma upt_8: "[0..<8] = [0, 1, 2, 3, 4, 5, 6, 7 :: nat]"
  by (simp add: numeral_eq_Suc)

lemma sample_pps_for: "pps_for [sample_krec 5 4, sample_krec 5 3, sample_krec 9 7] sample_pps"
proof -
  have "krec_pack ` set [sample_krec 5 4, sample_krec 5 3, sample_krec 9 7] = {0x401, 0x301, 0x701}"
    by (simp add: krec_pack_def sample_krec_def)
  then have "sample_pps ! 6 = Min (krec_pack ` set [sample_krec 5 4, sample_krec 5 3, sample_krec 9 7])"
    "sample_pps ! 7 = Max (krec_pack ` set [sample_krec 5 4, sample_krec 5 3, sample_krec 9 7])" by (simp_all add: sample_pps_def)
  then show ?thesis
    unfolding pps_for_def PutFixed64LE_eq [symmetric]
    by (simp add: sample_pps_def krec_key_def sample_krec_def replicate_23 upt_8 InternalKey_def PutFixed64LE_def)
qed

theorem compare_accepts_exactly_witness:
  "CompareWorkload \<lparr> wl_port = [], wl_expected = [sample_krec 5 4, sample_krec 5 3, sample_krec 9 7] \<rparr>
     (table_data sample_table) (table_index sample_table [0, 1]) sample_pps (of_nat (length (table_data sample_table))) = Inr [] \<and>
   CompareWorkload \<lparr> wl_port = [], wl_expected = [sample_krec 5 4, sample_krec 9 7] \<rparr>
     (table_data sample_table) (table_index sample_table [0, 1]) sample_pps (of_nat (length (table_data sample_table))) \<noteq> Inr []"
proof -
  have "sample_pps ! 0 = of_nat (length sample_table)" by (simp add: sample_pps_def sample_table_def)
  note * = compare_accepts_exactly [OF sample_table_ok this]
  have "concat (map (\<lambda>b. map snd (fst (snd b))) sample_table) = [sample_krec 5 4, sample_krec 5 3, sample_krec 9 7]" by (simp add: sample_table_def)
  then show ?thesis unfolding * using sample_pps_for by simp
qed

end
