(* ===== verification/ZfTableFormat.thy ===== *)
theory ZfTableFormat
  imports ZfHostFormat ZfKeyFormat
begin

text \<open>
  The parts of the engine's table format that the sealing of a device table uses: 64-bit variable
  integers (\<^verbatim>\<open>util/coding.h\<close>, \<^verbatim>\<open>util/coding.cc\<close>), block handles, block checksums and the footer
  (\<^verbatim>\<open>table/format.cc\<close>), the builder of meta blocks (\<^verbatim>\<open>table/block_based/block_builder.cc\<close> with the default
  options of its constructor) and their reader (\<^verbatim>\<open>table/block_based/block_util.h\<close> and \<^verbatim>\<open>block.cc\<close>). Sizes are cut to 32
  bits where the source casts them. The checksums of the xxHash family are an argument; the footer is
  modelled for the format versions 1 to 5, the branch that block handles go into the footer.

  The lemmas: handles and footers are read back, and a block that was built from a list of entries
  is read back as exactly this list.
\<close>

unbundle bit_operations_syntax

section \<open>Variable-length integers of 64 bits\<close>

function EncodeVarint64 :: "u64 \<Rightarrow> bytes" where
  "EncodeVarint64 v = (if v \<ge> 128 then (ucast ((v AND 127) OR 128)) # EncodeVarint64 (drop_bit 7 v) else [ucast v])"
  by auto
termination
proof (relation "measure unat")
  fix v :: u64 assume "v \<ge> 128"
  then show "(drop_bit 7 v, v) \<in> measure unat" by (simp add: word_le_nat_alt drop_bit_eq_div unat_div_distrib)
qed simp

declare EncodeVarint64.simps [simp del]

fun varint64_ptr :: "nat \<Rightarrow> u64 \<Rightarrow> bytes \<Rightarrow> (u64 \<times> bytes) option" where
  "varint64_ptr shift result [] = None"
| "varint64_ptr shift result (b # p) =
     (if shift > 63 then None
      else if (ucast b :: u64) AND 128 \<noteq> 0 then varint64_ptr (shift + 7) (result OR push_bit shift (ucast b AND 127)) p
      else Some (result OR push_bit shift (ucast b), p))"

definition GetVarint64Ptr :: "bytes \<Rightarrow> (u64 \<times> bytes) option" where
  "GetVarint64Ptr p = varint64_ptr 0 0 p"

section \<open>Handles and checksums\<close>

record BlockHandle =
  bh_offset :: u64
  bh_size :: u64

definition bh_EncodeTo :: "BlockHandle \<Rightarrow> bytes" where
  "bh_EncodeTo h = EncodeVarint64 (bh_offset h) @ EncodeVarint64 (bh_size h)"

definition bh_DecodeFrom :: "bytes \<Rightarrow> (BlockHandle \<times> bytes) zf_result" where
  "bh_DecodeFrom input =
     (case GetVarint64Ptr input of
        None \<Rightarrow> Inl (Corruption ''bad block handle'')
      | Some (off, rest) \<Rightarrow>
          (case GetVarint64Ptr rest of
             None \<Rightarrow> Inl (Corruption ''bad block handle'')
           | Some (sz, rest) \<Rightarrow> Inr (\<lparr> bh_offset = off, bh_size = sz \<rparr>, rest)))"

datatype ChecksumType = kNoChecksum | kCRC32c | kxxHash | kxxHash64 | kXXH3

primrec checksum_code :: "ChecksumType \<Rightarrow> byte" where
  "checksum_code kNoChecksum = 0"
| "checksum_code kCRC32c = 1"
| "checksum_code kxxHash = 2"
| "checksum_code kxxHash64 = 3"
| "checksum_code kXXH3 = 4"

definition checksum_of_code :: "byte \<Rightarrow> ChecksumType option" where
  "checksum_of_code b =
     (if b = 0 then Some kNoChecksum else if b = 1 then Some kCRC32c else if b = 2 then Some kxxHash
      else if b = 3 then Some kxxHash64 else if b = 4 then Some kXXH3 else None)"

definition ComputeBuiltinChecksumWithLastByte :: "(ChecksumType \<Rightarrow> bytes \<Rightarrow> byte \<Rightarrow> u32) \<Rightarrow> ChecksumType \<Rightarrow> bytes \<Rightarrow> byte \<Rightarrow> u32" where
  "ComputeBuiltinChecksumWithLastByte xx type data last_byte =
     (case type of
        kCRC32c \<Rightarrow> Mask (Extend (Value data) [last_byte])
      | kNoChecksum \<Rightarrow> 0
      | _ \<Rightarrow> xx type data last_byte)"

section \<open>The footer\<close>

definition kBlockBasedTableMagicNumber :: u64 where "kBlockBasedTableMagicNumber = 0x88e241b785f4cff7"
definition kLegacyBlockBasedMagic :: u64 where "kLegacyBlockBasedMagic = 0xdb4775248b80fb57"
definition kFooterPart2Size :: nat where "kFooterPart2Size = 40"
definition kNewVersionsEncodedLength :: nat where "kNewVersionsEncodedLength = 53"

definition FooterBuilder_Build :: "u64 \<Rightarrow> u32 \<Rightarrow> ChecksumType \<Rightarrow> BlockHandle \<Rightarrow> BlockHandle \<Rightarrow> bytes" where
  "FooterBuilder_Build magic_number format_version checksum_type metaindex_handle index_handle =
     (let part2 = bh_EncodeTo metaindex_handle @ bh_EncodeTo index_handle
      in [checksum_code checksum_type] @ part2 @ replicate (kFooterPart2Size - length part2) 0 @
         PutFixed32 format_version @ PutFixed64 magic_number)"

record Footer =
  ft_version :: u32
  ft_checksum :: ChecksumType
  ft_metaindex :: BlockHandle
  ft_index :: BlockHandle

text \<open>Decoding with the magic number of block-based tables enforced; \<open>newer\<close> stands for the branch of the
  versions 6 and 7.\<close>

definition Footer_DecodeFrom :: "(bytes \<Rightarrow> Footer zf_result) \<Rightarrow> bytes \<Rightarrow> Footer zf_result" where
  "Footer_DecodeFrom newer input =
     (if length input < 48 then Inl OutOfBounds
      else
       let magic = DecodeFixed64 (drop (length input - 8) input)
       in if magic = kLegacyBlockBasedMagic then Inl (NotSupported ''Unsupported legacy magic number for block-based SST format.'')
          else if magic \<noteq> kBlockBasedTableMagicNumber then Inl (Corruption ''Bad table magic number'')
          else
           let version = DecodeFixed32 (drop (length input - 12) input)
           in if version < 2 \<or> version > 7 then Inl (Corruption ''Corrupt or unsupported format_version'')
              else if length input < kNewVersionsEncodedLength then Inl (Corruption ''Input is too short to be an SST file'')
              else
               let input = drop (length input - kNewVersionsEncodedLength) input
               in case checksum_of_code (hd input) of
                    None \<Rightarrow> Inl (Corruption ''Corrupt or unsupported checksum type'')
                  | Some ct \<Rightarrow>
                      if version \<ge> 6 then newer input
                      else res_bind (bh_DecodeFrom (tl input)) (\<lambda>(mh, rest).
                           res_bind (bh_DecodeFrom rest) (\<lambda>(ih, rest).
                             Inr \<lparr> ft_version = version, ft_checksum = ct, ft_metaindex = mh, ft_index = ih \<rparr>)))"

section \<open>Meta blocks\<close>

record BlockBuilder =
  bb_interval :: nat
  bb_buffer :: bytes
  bb_restarts :: "u32 list"
  bb_counter :: nat
  bb_last_key :: bytes

definition new_BlockBuilder :: "nat \<Rightarrow> BlockBuilder" where
  "new_BlockBuilder interval = \<lparr> bb_interval = interval, bb_buffer = [], bb_restarts = [0], bb_counter = 0, bb_last_key = [] \<rparr>"

fun difference_offset :: "bytes \<Rightarrow> bytes \<Rightarrow> nat" where
  "difference_offset (a # as) (b # bs) = (if a = b then Suc (difference_offset as bs) else 0)"
| "difference_offset _ _ = 0"

definition bb_Add :: "bytes \<Rightarrow> bytes \<Rightarrow> BlockBuilder \<Rightarrow> BlockBuilder" where
  "bb_Add key value b =
     (let key_to_persist = take (unat (of_nat (length key) :: u32)) key;
          last_key_persisted = take (unat (of_nat (length (bb_last_key b)) :: u32)) (bb_last_key b);
          restart = bb_counter b \<ge> bb_interval b;
          shared = if restart then 0 else of_nat (difference_offset key_to_persist last_key_persisted) :: u32;
          non_shared = of_nat (length key_to_persist) - shared;
          value_size = of_nat (length value) :: u32
      in b \<lparr> bb_buffer := bb_buffer b @ EncodeVarint32 shared @ EncodeVarint32 non_shared @ EncodeVarint32 value_size @
                          slice (unat shared) (unat non_shared) key_to_persist @ take (unat value_size) value,
             bb_restarts := (if restart then bb_restarts b @ [of_nat (length (bb_buffer b))] else bb_restarts b),
             bb_counter := (if restart then 0 else bb_counter b) + 1,
             bb_last_key := key \<rparr>)"

definition bb_Finish :: "BlockBuilder \<Rightarrow> bytes" where
  "bb_Finish b = bb_buffer b @ concat (map PutFixed32 (bb_restarts b)) @ PutFixed32 (of_nat (length (bb_restarts b)))"

text \<open>The reader: \<^verbatim>\<open>DecodeEntry\<close> at position \<open>p\<close> of the block and the forward iteration.\<close>

definition DecodeEntry :: "bytes \<Rightarrow> nat \<Rightarrow> nat \<Rightarrow> (u32 \<times> u32 \<times> u32 \<times> nat) option" where
  "DecodeEntry data p limit =
     (let shared = ucast (data ! p) :: u32; non_shared = ucast (data ! (p + 1)); value_length = ucast (data ! (p + 2))
      in if shared OR non_shared OR value_length < 128 then Some (shared, non_shared, value_length, p + 3)
         else case GetVarint32Ptr (slice p (limit - p) data) of
                None \<Rightarrow> None
              | Some (shared, r) \<Rightarrow>
                  (case GetVarint32Ptr r of
                     None \<Rightarrow> None
                   | Some (non_shared, r) \<Rightarrow>
                       (case GetVarint32Ptr r of
                          None \<Rightarrow> None
                        | Some (value_length, r) \<Rightarrow> Some (shared, non_shared, value_length, limit - length r))))"

fun read_entries :: "nat \<Rightarrow> bytes \<Rightarrow> nat \<Rightarrow> bytes \<Rightarrow> nat \<Rightarrow> (bytes \<times> bytes) list option" where
  "read_entries 0 data limit raw_key p = None"
| "read_entries (Suc n) data limit raw_key p =
     (if p \<ge> limit then Some []
      else case DecodeEntry data p limit of
             None \<Rightarrow> None
           | Some (shared, non_shared, value_length, q) \<Rightarrow>
               if length raw_key < unat shared then None
               else if (of_nat (limit - q) :: u32) < non_shared + value_length then None
               else
                let key = take (unat shared) raw_key @ slice q (unat non_shared) data
                in map_option (\<lambda>es. (key, slice (q + unat non_shared) (unat value_length) data) # es)
                     (read_entries n data limit key (q + unat non_shared + unat value_length)))"

text \<open>The whole block; the fuel is its length, and every entry takes a byte.\<close>

definition read_block :: "bytes \<Rightarrow> (bytes \<times> bytes) list option" where
  "read_block data =
     (if length data < 4 then None
      else read_entries (length data) data (length data - 4 * (1 + unat (DecodeFixed32 (drop (length data - 4) data)))) [] 0)"

section \<open>Handles are read back\<close>

lemma varint64_byte:
  "(ucast (ucast ((v AND 127) OR 128 :: u64) :: byte) :: u64) = (v AND 127) OR 128"
  "((v AND 127) OR 128) AND 128 \<noteq> (0 :: u64)" "((v AND 127) OR 128) AND 127 = (v AND 127 :: u64)"
proof -
  show "(ucast (ucast ((v AND 127) OR 128 :: u64) :: byte) :: u64) = (v AND 127) OR 128"
    by (rule bit_word_eqI) (auto simp: bit_unsigned_iff bit_and_iff bit_or_iff bit_127_128)
  have "bit (((v AND 127) OR 128) AND 128) 7" by (simp add: bit_and_iff bit_or_iff bit_127_128)
  then show "((v AND 127) OR 128) AND 128 \<noteq> (0 :: u64)" by force
  show "((v AND 127) OR 128) AND 127 = (v AND 127 :: u64)"
    by (rule bit_word_eqI) (auto simp: bit_and_iff bit_or_iff bit_127_128)
qed

lemma varint64_small: "v < 128 \<Longrightarrow> (ucast (ucast (v :: u64) :: byte) :: u64) = v" "v < 128 \<Longrightarrow> v AND 128 = (0 :: u64)"
proof -
  assume v: "v < 128"
  then have "take_bit 7 v = v" by (simp add: take_bit_eq_mod mod_word_less)
  then have b: "bit v n \<Longrightarrow> n < 7" for n by (metis bit_take_bit_iff)
  show "(ucast (ucast v :: byte) :: u64) = v" by (rule bit_word_eqI) (auto simp: bit_unsigned_iff dest: b)
  show "v AND 128 = 0" by (rule bit_word_eqI) (auto simp: bit_and_iff bit_127_128 dest: b)
qed

lemma varint64_join: "push_bit sh (v AND 127) OR push_bit (sh + 7) (drop_bit 7 v) = push_bit sh (v :: u64)"
proof (rule bit_word_eqI)
  fix n
  have "\<not> n - sh < 7 \<Longrightarrow> 7 + (n - (sh + 7)) = n - sh" by arith
  then show "bit (push_bit sh (v AND 127) OR push_bit (sh + 7) (drop_bit 7 v)) n \<longleftrightarrow> bit (push_bit sh v) n"
    by (cases "n - sh < 7") (auto simp: bit_push_bit_iff bit_or_iff bit_and_iff bit_drop_bit_eq bit_127_128)
qed

lemma varint64_ptr_Encode:
  "unat v < 2 ^ (64 - sh) \<Longrightarrow> sh \<le> 63 \<Longrightarrow> varint64_ptr sh res (EncodeVarint64 v @ r) = Some (res OR push_bit sh v, r)"
proof (induction v arbitrary: sh res rule: EncodeVarint64.induct)
  case (1 v)
  show ?case
  proof (cases "v \<ge> 128")
    case True
    then have n: "128 \<le> unat v" by (simp add: word_le_nat_alt)
    have sh: "7 < 64 - sh"
    proof (rule ccontr)
      assume "\<not> 7 < 64 - sh"
      then have "(2 :: nat) ^ (64 - sh) \<le> 2 ^ 7" by (intro power_increasing) auto
      then show False using "1.prems"(1) n by simp
    qed
    have "unat (drop_bit 7 v) = unat v div 128" by (simp only: unat_drop_bit_eq drop_bit_nat_def) simp
    moreover have "(2 :: nat) ^ (64 - sh) = 2 ^ (64 - (sh + 7)) * 128"
    proof -
      have "64 - sh = (64 - (sh + 7)) + 7" using sh by simp
      then show ?thesis by (simp only: power_add) simp
    qed
    ultimately have lt: "unat (drop_bit 7 v) < 2 ^ (64 - (sh + 7))" using "1.prems"(1) by (simp add: div_less_iff_less_mult)
    have "varint64_ptr sh res (EncodeVarint64 v @ r) = varint64_ptr (sh + 7) (res OR push_bit sh (v AND 127)) (EncodeVarint64 (drop_bit 7 v) @ r)"
      using True "1.prems"(2) by (subst EncodeVarint64.simps) (simp add: varint64_byte)
    also have "\<dots> = Some ((res OR push_bit sh (v AND 127)) OR push_bit (sh + 7) (drop_bit 7 v), r)"
      by (rule "1.IH" [OF True lt]) (use sh in simp)
    finally show ?thesis by (simp only: or.assoc varint64_join)
  next
    case False
    then have v: "v < 128" by simp
    have "EncodeVarint64 v = [ucast v]" using False by (subst EncodeVarint64.simps) simp
    then show ?thesis using "1.prems"(2) varint64_small [OF v] by simp
  qed
qed

lemma GetVarint64Ptr_Encode: "GetVarint64Ptr (EncodeVarint64 v @ r) = Some (v, r)"
proof -
  have "unat v < 2 ^ 64" using unsigned_less [of v] by simp
  then show ?thesis using varint64_ptr_Encode [of v 0 0 r] by (simp add: GetVarint64Ptr_def)
qed

lemma length_EncodeVarint64_aux: "unat v < 128 ^ k \<Longrightarrow> 0 < k \<Longrightarrow> length (EncodeVarint64 v) \<le> k"
proof (induction v arbitrary: k rule: EncodeVarint64.induct)
  case (1 v)
  show ?case
  proof (cases "v \<ge> 128")
    case True
    then have n: "128 \<le> unat v" by (simp add: word_le_nat_alt)
    then obtain m where m: "k = Suc m" "0 < m" using "1.prems" by (cases k; cases "k = 1") auto
    have "unat (drop_bit 7 v) = unat v div 128" by (simp only: unat_drop_bit_eq drop_bit_nat_def) simp
    then have "unat (drop_bit 7 v) < 128 ^ m" using "1.prems"(1) m(1) by (simp add: div_less_iff_less_mult mult.commute)
    from "1.IH" [OF True this m(2)] show ?thesis using True m(1) by (subst EncodeVarint64.simps) simp
  qed (use "1.prems"(2) in \<open>subst EncodeVarint64.simps, simp\<close>)
qed

lemma length_EncodeVarint64: "length (EncodeVarint64 v) \<le> 10"
proof (rule length_EncodeVarint64_aux)
  have "unat v < 2 ^ 64" using unsigned_less [of v] by simp
  then show "unat v < 128 ^ 10" by simp
qed simp

lemma bh_DecodeFrom_Encode: "bh_DecodeFrom (bh_EncodeTo h @ r) = Inr (h, r)"
  by (simp add: bh_DecodeFrom_def bh_EncodeTo_def GetVarint64Ptr_Encode)

lemma length_bh_EncodeTo: "length (bh_EncodeTo h) \<le> 20"
  using length_EncodeVarint64 [of "bh_offset h"] length_EncodeVarint64 [of "bh_size h"] by (simp add: bh_EncodeTo_def)

section \<open>Footers are read back\<close>

lemma checksum_of_code_inverse: "checksum_of_code (checksum_code ct) = Some ct"
  by (cases ct) (simp_all add: checksum_of_code_def)

lemma length_FooterBuilder_Build: "length (FooterBuilder_Build magic v ct mh ih) = 53"
  using length_bh_EncodeTo [of mh] length_bh_EncodeTo [of ih] by (simp add: FooterBuilder_Build_def Let_def kFooterPart2Size_def)

lemma Footer_DecodeFrom_Build:
  assumes "2 \<le> v" "v \<le> 5"
  shows "Footer_DecodeFrom newer (pre @ FooterBuilder_Build kBlockBasedTableMagicNumber v ct mh ih) =
    Inr \<lparr> ft_version = v, ft_checksum = ct, ft_metaindex = mh, ft_index = ih \<rparr>"
proof -
  let ?f = "FooterBuilder_Build kBlockBasedTableMagicNumber v ct mh ih" and ?p = "bh_EncodeTo mh @ bh_EncodeTo ih"
  let ?z = "replicate (kFooterPart2Size - length ?p) (0 :: byte)"
  define h where "h = checksum_code ct # ?p @ ?z"
  have f: "?f = h @ PutFixed32 v @ PutFixed64 kBlockBasedTableMagicNumber" by (simp add: FooterBuilder_Build_def Let_def h_def)
  have lh: "length h = 41" using length_FooterBuilder_Build [of kBlockBasedTableMagicNumber v ct mh ih] unfolding f by simp
  have m: "DecodeFixed64 (drop (length (pre @ ?f) - 8) (pre @ ?f)) = kBlockBasedTableMagicNumber"
    unfolding f by (simp add: lh)
  have ver: "DecodeFixed32 (drop (length (pre @ ?f) - 12) (pre @ ?f)) = v"
    unfolding f by (simp add: lh DecodeFixed_prefix)
  have "\<not> v < 2" "\<not> v > 7" "\<not> v \<ge> 6" using assms by (simp_all add: word_le_nat_alt word_less_nat_alt)
  moreover have "drop (length (pre @ ?f) - kNewVersionsEncodedLength) (pre @ ?f) = ?f" "length (pre @ ?f) \<ge> 53"
    using length_FooterBuilder_Build [of kBlockBasedTableMagicNumber v ct mh ih] by (simp_all add: kNewVersionsEncodedLength_def)
  moreover have "hd ?f = checksum_code ct" "tl ?f = bh_EncodeTo mh @ bh_EncodeTo ih @ ?z @ PutFixed32 v @ PutFixed64 kBlockBasedTableMagicNumber"
    unfolding f h_def by simp_all
  ultimately show ?thesis
    unfolding Footer_DecodeFrom_def m ver Let_def
    by (simp add: kNewVersionsEncodedLength_def checksum_of_code_inverse bh_DecodeFrom_Encode kBlockBasedTableMagicNumber_def kLegacyBlockBasedMagic_def)
qed

section \<open>Blocks are read back\<close>

lemma difference_offset_le: "difference_offset a b \<le> length a" "difference_offset a b \<le> length b"
  "take (difference_offset a b) b = take (difference_offset a b) a"
  by (induction a b rule: difference_offset.induct) auto

text \<open>The bytes of one entry that shares \<open>s\<close> bytes with the key before.\<close>

definition entry_layout :: "nat \<Rightarrow> bytes \<times> bytes \<Rightarrow> bytes" where
  "entry_layout s e = EncodeVarint32 (of_nat s) @ EncodeVarint32 (of_nat (length (fst e) - s)) @ EncodeVarint32 (of_nat (length (snd e))) @
     drop s (fst e) @ snd e"

fun entries_layout :: "nat \<Rightarrow> nat \<Rightarrow> bytes \<Rightarrow> (bytes \<times> bytes) list \<Rightarrow> bytes" where
  "entries_layout interval counter prev [] = []"
| "entries_layout interval counter prev (e # es) =
     entry_layout (if counter \<ge> interval then 0 else difference_offset (fst e) prev) e @
     entries_layout interval ((if counter \<ge> interval then 0 else counter) + 1) (fst e) es"

definition small_entry :: "bytes \<times> bytes \<Rightarrow> bool" where
  "small_entry e \<longleftrightarrow> length (fst e) < 2 ^ 32 \<and> length (snd e) < 2 ^ 32"

definition bb_AddAll :: "(bytes \<times> bytes) list \<Rightarrow> BlockBuilder \<Rightarrow> BlockBuilder" where
  "bb_AddAll es b = foldl (\<lambda>b e. bb_Add (fst e) (snd e) b) b es"

lemma bb_Add_buffer:
  assumes "small_entry e" "length (bb_last_key b) < 2 ^ 32"
  shows "bb_buffer (bb_Add (fst e) (snd e) b) =
    bb_buffer b @ entry_layout (if bb_counter b \<ge> bb_interval b then 0 else difference_offset (fst e) (bb_last_key b)) e"
proof -
  define s where "s = (if bb_counter b \<ge> bb_interval b then 0 else difference_offset (fst e) (bb_last_key b))"
  have l: "length (fst e) < 2 ^ 32" "length (snd e) < 2 ^ 32" using assms(1) by (simp_all add: small_entry_def)
  have s: "s \<le> length (fst e)" using difference_offset_le(1) [of "fst e" "bb_last_key b"] by (simp add: s_def)
  have u: "unat (of_nat s :: u32) = s" "unat (of_nat (length (fst e) - s) :: u32) = length (fst e) - s"
    by (rule u32_of_nat, use l(1) s in simp)+
  have d: "of_nat (length (fst e)) - of_nat s = (of_nat (length (fst e) - s) :: u32)" using s by (simp add: of_nat_diff)
  have sh: "(if bb_counter b \<ge> bb_interval b then 0 else of_nat (difference_offset (fst e) (bb_last_key b))) = (of_nat s :: u32)" by (simp add: s_def)
  show ?thesis
    unfolding bb_Add_def Let_def u32_of_nat [OF l(1)] u32_of_nat [OF l(2)] u32_of_nat [OF assms(2)] take_all_iff [THEN iffD2, OF order_refl]
      sh d u s_def [symmetric] by (simp add: entry_layout_def slice_def)
qed

lemma bb_Add_simps [simp]:
  "bb_interval (bb_Add k v b) = bb_interval b" "bb_last_key (bb_Add k v b) = k"
  "bb_counter (bb_Add k v b) = (if bb_counter b \<ge> bb_interval b then 0 else bb_counter b) + 1"
  by (simp_all add: bb_Add_def Let_def)

lemma bb_Add_restarts: "length (bb_restarts (bb_Add k v b)) \<le> Suc (length (bb_restarts b))"
  by (simp add: bb_Add_def Let_def)

lemma bb_AddAll_buffer:
  "\<forall>e \<in> set es. small_entry e \<Longrightarrow> length (bb_last_key b) < 2 ^ 32 \<Longrightarrow>
   bb_buffer (bb_AddAll es b) = bb_buffer b @ entries_layout (bb_interval b) (bb_counter b) (bb_last_key b) es"
proof (induction es arbitrary: b)
  case (Cons e es)
  then have e: "small_entry e" "length (fst e) < 2 ^ 32" by (simp_all add: small_entry_def)
  have "bb_buffer (bb_AddAll es (bb_Add (fst e) (snd e) b)) =
      bb_buffer (bb_Add (fst e) (snd e) b) @ entries_layout (bb_interval b) ((if bb_counter b \<ge> bb_interval b then 0 else bb_counter b) + 1) (fst e) es"
    using Cons.IH [of "bb_Add (fst e) (snd e) b"] Cons.prems(1) e(2) by simp
  then show ?case unfolding bb_Add_buffer [OF e(1) Cons.prems(2)] by (simp add: bb_AddAll_def)
qed (simp add: bb_AddAll_def)

lemma bb_AddAll_restarts: "length (bb_restarts (bb_AddAll es b)) \<le> length es + length (bb_restarts b)"
proof (induction es arbitrary: b)
  case (Cons e es)
  show ?case using Cons [of "bb_Add (fst e) (snd e) b"] bb_Add_restarts [of "fst e" "snd e" b] by (simp add: bb_AddAll_def)
qed (simp add: bb_AddAll_def)

text \<open>The first byte of a variable integer says whether it is the only one.\<close>

lemma small_u32: "(x :: u32) < 128 \<longleftrightarrow> drop_bit 7 x = 0"
proof -
  have "unat (drop_bit 7 x) = unat x div 128" by (simp only: unat_drop_bit_eq drop_bit_nat_def) simp
  then have "drop_bit 7 x = 0 \<longleftrightarrow> unat x div 128 = 0" by (metis unat_eq_zero)
  then show ?thesis by (simp add: word_less_nat_alt div_eq_0_iff)
qed

lemma or_small_u32: "(x :: u32) OR y OR z < 128 \<longleftrightarrow> x < 128 \<and> y < 128 \<and> z < 128"
  unfolding small_u32 by (simp add: drop_bit_or or_eq_0_iff)

lemma EncodeVarint32_head:
  "v < 128 \<Longrightarrow> EncodeVarint32 v = [ucast v] \<and> ucast (ucast v :: byte) = v"
  "\<not> v < 128 \<Longrightarrow> \<not> (ucast (hd (EncodeVarint32 v)) :: u32) < 128"
proof -
  assume v: "v < 128"
  then have "take_bit 7 v = v" by (simp add: take_bit_eq_mod mod_word_less)
  then have b: "bit v n \<Longrightarrow> n < 7" for n by (metis bit_take_bit_iff)
  have "ucast (ucast v :: byte) = v" by (rule bit_word_eqI) (auto simp: bit_unsigned_iff dest: b)
  then show "EncodeVarint32 v = [ucast v] \<and> ucast (ucast v :: byte) = v" using v by (simp add: EncodeVarint32_def)
next
  assume v: "\<not> v < 128"
  then have "hd (EncodeVarint32 v) = ucast (v OR 128)" by (simp add: EncodeVarint32_def)
  moreover have "bit (ucast (ucast (v OR 128) :: byte) :: u32) 7" by (simp add: bit_unsigned_iff bit_or_iff bit_127_128)
  then have "bit (drop_bit 7 (ucast (ucast (v OR 128) :: byte) :: u32)) 0" by (simp only: bit_drop_bit_eq comp_apply add_0_right)
  then have "drop_bit 7 (ucast (ucast (v OR 128) :: byte) :: u32) \<noteq> 0" by (metis bit_0_eq bot_apply bot_bool_def)
  ultimately show "\<not> (ucast (hd (EncodeVarint32 v)) :: u32) < 128" unfolding small_u32 by simp
qed

lemma DecodeEntry_layout:
  assumes "limit = length pre + length (EncodeVarint32 a @ EncodeVarint32 b @ EncodeVarint32 c @ rest)"
  shows "DecodeEntry (pre @ EncodeVarint32 a @ EncodeVarint32 b @ EncodeVarint32 c @ rest @ post) (length pre) limit =
    Some (a, b, c, length pre + length (EncodeVarint32 a @ EncodeVarint32 b @ EncodeVarint32 c))"
proof -
  let ?d = "pre @ EncodeVarint32 a @ EncodeVarint32 b @ EncodeVarint32 c @ rest @ post"
  have sl: "slice (length pre) (limit - length pre) ?d = EncodeVarint32 a @ EncodeVarint32 b @ EncodeVarint32 c @ rest"
    using slice_append_mid [of pre "length pre" "EncodeVarint32 a @ EncodeVarint32 b @ EncodeVarint32 c @ rest" "limit - length pre" post] assms by simp
  have slow: "(case GetVarint32Ptr (slice (length pre) (limit - length pre) ?d) of None \<Rightarrow> None
       | Some (shared, r) \<Rightarrow> (case GetVarint32Ptr r of None \<Rightarrow> None
          | Some (non_shared, r) \<Rightarrow> (case GetVarint32Ptr r of None \<Rightarrow> None
             | Some (value_length, r) \<Rightarrow> Some (shared, non_shared, value_length, limit - length r)))) =
      Some (a, b, c, length pre + length (EncodeVarint32 a @ EncodeVarint32 b @ EncodeVarint32 c))"
    unfolding sl using assms by (simp add: GetVarint32_EncodeVarint32)
  have p0: "?d ! length pre = hd (EncodeVarint32 a)" using length_EncodeVarint32(2) [of a] by (simp add: nth_append hd_conv_nth)
  show ?thesis
  proof (cases "(ucast (?d ! length pre) :: u32) OR ucast (?d ! (length pre + 1)) OR ucast (?d ! (length pre + 2)) < 128")
    case True
    then have f: "(ucast (?d ! length pre) :: u32) < 128" "(ucast (?d ! (length pre + 1)) :: u32) < 128" "(ucast (?d ! (length pre + 2)) :: u32) < 128"
      unfolding or_small_u32 by simp_all
    have a: "a < 128" using f(1) EncodeVarint32_head(2) [of a] unfolding p0 by blast
    have p1: "?d ! (length pre + 1) = hd (EncodeVarint32 b)"
      unfolding EncodeVarint32_head(1) [OF a, THEN conjunct1] using length_EncodeVarint32(2) [of b] by (simp add: nth_append hd_conv_nth)
    have b: "b < 128" using f(2) EncodeVarint32_head(2) [of b] unfolding p1 by blast
    have p2: "?d ! (length pre + 2) = hd (EncodeVarint32 c)"
      unfolding EncodeVarint32_head(1) [OF a, THEN conjunct1] EncodeVarint32_head(1) [OF b, THEN conjunct1] using length_EncodeVarint32(2) [of c] by (simp add: nth_append hd_conv_nth)
    have c: "c < 128" using f(3) EncodeVarint32_head(2) [of c] unfolding p2 by blast
    show ?thesis
      using EncodeVarint32_head(1) [OF a] EncodeVarint32_head(1) [OF b] EncodeVarint32_head(1) [OF c] True
      by (simp add: DecodeEntry_def Let_def nth_append)
  next
    case False
    then show ?thesis unfolding DecodeEntry_def Let_def using slow by simp
  qed
qed

lemma read_entries_layout:
  "\<forall>e \<in> set es. small_entry e \<Longrightarrow> length (pre @ entries_layout iv c prev es) < 2 ^ 32 \<Longrightarrow> length es < n \<Longrightarrow>
   read_entries n (pre @ entries_layout iv c prev es @ post) (length pre + length (entries_layout iv c prev es)) prev (length pre) = Some es"
proof (induction es arbitrary: n c prev pre)
  case Nil
  then show ?case by (cases n) simp_all
next
  case (Cons e es)
  obtain k v where e: "e = (k, v)" by (cases e)
  define s where "s = (if c \<ge> iv then 0 else difference_offset k prev)"
  define c' where "c' = (if c \<ge> iv then 0 else c) + 1"
  define a where "a = EncodeVarint32 (of_nat s) @ EncodeVarint32 (of_nat (length k - s)) @ EncodeVarint32 (of_nat (length v))"
  let ?rest = "entries_layout iv c' k es"
  have kv: "length k < 2 ^ 32" "length v < 2 ^ 32" using Cons.prems(1) by (simp_all add: e small_entry_def)
  have s: "s \<le> length k" "s \<le> length prev" "take s prev = take s k"
    using difference_offset_le [of k prev] by (simp_all add: s_def)
  have lay: "entries_layout iv c prev (e # es) = a @ drop s k @ v @ ?rest" by (simp add: e s_def c'_def a_def entry_layout_def)
  obtain m where n: "n = Suc m" "length es < m" using Cons.prems(3) by (cases n) auto
  have u: "unat (of_nat s :: u32) = s" "unat (of_nat (length k - s) :: u32) = length k - s" "unat (of_nat (length v) :: u32) = length v"
    by (rule u32_of_nat, use kv s in simp)+
  have tot: "length pre + length a + (length k - s) + length v + length ?rest < 2 ^ 32" using Cons.prems(2) unfolding lay by simp
  let ?d = "pre @ a @ drop s k @ v @ ?rest @ post" and ?limit = "length pre + length (a @ drop s k @ v @ ?rest)"
  have dec: "DecodeEntry ?d (length pre) ?limit = Some (of_nat s, of_nat (length k - s), of_nat (length v), length pre + length a)"
    using DecodeEntry_layout [of ?limit pre "of_nat s" "of_nat (length k - s)" "of_nat (length v)" "drop s k @ v @ ?rest" post] by (simp add: a_def)
  have pos: "length a > 0" using length_EncodeVarint32(2) [of "of_nat s"] by (simp add: a_def)
  have fit: "\<not> (of_nat (?limit - (length pre + length a)) :: u32) < of_nat (length k - s) + of_nat (length v)"
  proof -
    have sum: "of_nat (length k - s) + of_nat (length v) = (of_nat (length k - s + length v) :: u32)" by (rule of_nat_add [symmetric])
    have "unat (of_nat (length k - s + length v) :: u32) = length k - s + length v" by (rule u32_of_nat) (use tot in simp)
    moreover have "unat (of_nat (?limit - (length pre + length a)) :: u32) = ?limit - (length pre + length a)" by (rule u32_of_nat) (use tot in simp)
    ultimately show ?thesis unfolding sum word_less_nat_alt by simp
  qed
  have key: "take s prev @ slice (length pre + length a) (length k - s) ?d = k"
    using slice_append_mid [of "pre @ a" "length pre + length a" "drop s k" "length k - s" "v @ ?rest @ post"] s(3) by simp
  have val: "slice (length pre + length a + (length k - s)) (length v) ?d = v"
    using slice_append_mid [of "pre @ a @ drop s k" "length pre + length a + (length k - s)" v "length v" "?rest @ post"] by simp
  have rest: "read_entries m ((pre @ a @ drop s k @ v) @ ?rest @ post) (length (pre @ a @ drop s k @ v) + length ?rest) k (length (pre @ a @ drop s k @ v)) = Some es"
    by (rule Cons.IH) (use Cons.prems(1) tot n(2) in simp_all)
  then have rest': "read_entries m ?d ?limit k (length pre + length a + (length k - s) + length v) = Some es" by (simp add: add.assoc)
  have notend: "\<not> ?limit \<le> length pre" using pos by simp
  show ?case unfolding lay n(1) append_assoc read_entries.simps
    using dec fit key val rest' s(2) u notend by (simp add: e Let_def)
qed

lemma length_entries_layout: "length es \<le> length (entries_layout iv c prev es)"
proof (induction es arbitrary: c prev)
  case (Cons e es)
  let ?s = "if c \<ge> iv then 0 else difference_offset (fst e) prev" and ?c = "(if c \<ge> iv then 0 else c) + 1"
  have "0 < length (entry_layout ?s e)" using length_EncodeVarint32(2) [of "of_nat ?s"] unfolding entry_layout_def length_append by (metis add_gr_0 length_greater_0_conv)
  then show ?case using Cons [of ?c "fst e"] unfolding entries_layout.simps length_append list.size by linarith
qed simp

text \<open>A block that was built from a list of entries is read back as this list.\<close>

lemma read_block_built:
  assumes "\<forall>e \<in> set es. small_entry e" "length (bb_Finish (bb_AddAll es (new_BlockBuilder iv))) < 2 ^ 32"
  shows "read_block (bb_Finish (bb_AddAll es (new_BlockBuilder iv))) = Some es"
proof -
  let ?b = "bb_AddAll es (new_BlockBuilder iv)"
  define R where "R = concat (map PutFixed32 (bb_restarts ?b))"
  let ?n = "length (bb_restarts ?b)" and ?L = "entries_layout iv 0 [] es"
  have buf: "bb_buffer ?b = ?L" using bb_AddAll_buffer [OF assms(1), of "new_BlockBuilder iv"] by (simp add: new_BlockBuilder_def)
  have fin: "bb_Finish ?b = ?L @ R @ PutFixed32 (of_nat ?n)" by (simp add: bb_Finish_def buf R_def)
  have lR: "length R = 4 * ?n" by (simp add: R_def length_concat comp_def sum_list_triv)
  have len: "length (bb_Finish ?b) = length ?L + 4 * ?n + 4" by (simp add: fin lR)
  have cnt: "DecodeFixed32 (drop (length (bb_Finish ?b) - 4) (bb_Finish ?b)) = of_nat ?n" unfolding len unfolding fin by (simp add: lR)
  have un: "unat (of_nat ?n :: u32) = ?n" by (rule u32_of_nat) (use assms(2) len in simp)
  have "length es \<le> length ?L" by (rule length_entries_layout)
  then have "length es < length (bb_Finish ?b)" using len by (simp add: le_less_trans)
  then have "read_entries (length (bb_Finish ?b)) ([] @ ?L @ R @ PutFixed32 (of_nat ?n)) (length ([] :: bytes) + length ?L) [] (length ([] :: bytes)) = Some es"
    using assms len by (intro read_entries_layout) simp_all
  moreover have "length (bb_Finish ?b) - 4 * (1 + ?n) = length ?L" using len by simp
  ultimately show ?thesis unfolding read_block_def cnt un using len fin by simp
qed

end
