(* ===== verification/ZfCsdBackend.thy ===== *)
theory ZfCsdBackend
  imports ZfHostFormat ZfContext ZfAside
begin

text \<open>
  The packing of materialisation inputs for the computational storage device
  (\<^verbatim>\<open>zeroflush/csd_backend.h\<close>, \<^verbatim>\<open>csd_backend.cc\<close>): the slot of a frozen generation with its log file, the
  slot of sorted records, the slot of a chain of table files, the manifest from the kernel's table
  of properties, and the registration of session factories. Sums of 64 bits wrap; a read outside the
  log is \<^const>\<open>OutOfBounds\<close>. A session factory is a parameter of the state: the device sits behind it.

  The properties: the slot of sorted records is byte for byte the staged port of the host's format
  library, and in the slot of a chain every header locates its file. The registration is also
  modelled as a step relation over threads: the plugin is called at most once, in every interleaving.
\<close>

unbundle bit_operations_syntax

section \<open>Slots\<close>

record ZfCsdSlot =
  cs_kind :: u32
  cs_kv :: u64
  cs_file_size :: u64
  cs_bytes :: bytes

definition kCsdMaxPorts :: nat where "kCsdMaxPorts = 4"
definition kCsdMaxChainFiles :: nat where "kCsdMaxChainFiles = 64"
definition kCsdMaxValueBytes :: u32 where "kCsdMaxValueBytes = 1024"
definition kCsdMaxUserKeyBytes :: u32 where "kCsdMaxUserKeyBytes = 24"
definition kCsdMaxStagedBytes :: nat where "kCsdMaxStagedBytes = 2 ^ 26"
definition kCsdMaxRecords :: nat where "kCsdMaxRecords = 2 ^ 22"

definition ReadSealedWal :: "env \<Rightarrow> string \<Rightarrow> u32 \<Rightarrow> u32 \<Rightarrow> bytes zf_result" where
  "ReadSealedWal e wal_dir part gen =
     ReadFileToString e (wal_dir @ ''/zf-wal-'' @ to_string (unat part) @ ''-'' @ to_string (unat gen) @ ''.log'')"

definition slim_locator_of :: "bytes \<Rightarrow> SlimLocator" where
  "slim_locator_of b = \<lparr> l_part_id = DecodeFixed32 b, l_gen = DecodeFixed32 (drop 4 b), l_wal_offset = DecodeFixed64 (drop 8 b) \<rparr>"

text \<open>One call of the visitor: the bytes it appends, \<open>Inr None\<close> when the flag goes down.\<close>

definition csd_entry :: "bytes \<Rightarrow> u32 \<Rightarrow> u32 \<Rightarrow> bytes \<times> bytes \<Rightarrow> bytes option zf_result" where
  "csd_entry wal part gen en =
     (let ik = fst en; locator = snd en; wlen = of_nat (length wal) :: u64
      in if length ik < 8 then Inr None
         else if length ik - 8 = 0 \<or> length ik - 8 > unat kCsdMaxUserKeyBytes then Inr None
         else if length locator \<noteq> 16 then Inr None
         else
          let loc = slim_locator_of locator; off = l_wal_offset loc
          in if l_part_id loc \<noteq> part \<or> l_gen loc \<noteq> gen then Inr None
             else if off + ucast kZfHeaderSize > wlen then Inr None
             else if unat off + 16 > length wal then Inl OutOfBounds
             else
              let d = drop (unat off) wal; klen = DecodeFixed32 (drop 8 d); vlen = DecodeFixed32 (drop 12 d)
              in if DecodeFixed32 d \<noteq> kZfMagic then Inr None
                 else if vlen > kCsdMaxValueBytes then Inr None
                 else if unat klen \<noteq> length ik - 8 then Inr None
                 else if off + ucast kZfHeaderSize + ucast klen + ucast vlen > wlen then Inr None
                 else Inr (Some (EncodeVarint32 (of_nat (length ik)) @ ik @ EncodeVarint32 16 @
                        PutFixed32 (l_part_id loc) @ PutFixed32 (l_gen loc) @ PutFixed64 (l_wal_offset loc))))"

fun csd_slim :: "bytes \<Rightarrow> u32 \<Rightarrow> u32 \<Rightarrow> (bytes \<times> bytes) list \<Rightarrow> bytes list option zf_result" where
  "csd_slim wal part gen [] = Inr (Some [])"
| "csd_slim wal part gen (en # es) =
     (case csd_entry wal part gen en of
        Inl er \<Rightarrow> Inl er
      | Inr None \<Rightarrow> Inr None
      | Inr (Some b) \<Rightarrow> res_bind (csd_slim wal part gen es) (\<lambda>r. Inr (map_option (\<lambda>bs. b # bs) r)))"

text \<open>The enumeration of the index may not end: \<^const>\<open>None\<close>. \<open>Inr None\<close> is the result \<^verbatim>\<open>false\<close>.\<close>

definition BuildCsdSlotA :: "env \<Rightarrow> string \<Rightarrow> PartitionIndex option \<Rightarrow> u32 \<Rightarrow> u32 \<Rightarrow> ZfCsdSlot option zf_result option" where
  "BuildCsdSlotA e wal_dir idx part gen =
     (case idx of
        None \<Rightarrow> Some (Inr None)
      | Some idx \<Rightarrow>
          (case ReadSealedWal e wal_dir part gen of
             Inl er \<Rightarrow> Some (Inr None)
           | Inr wal \<Rightarrow>
               if length wal > kCsdMaxStagedBytes then Some (Inr None)
               else map_option (\<lambda>entries.
                      res_bind (csd_slim wal part gen entries) (\<lambda>r.
                        case r of
                          None \<Rightarrow> Inr None
                        | Some bs \<Rightarrow>
                            if bs = [] then Inr None
                            else if length bs > kCsdMaxRecords \<or> length (concat bs) > kCsdMaxStagedBytes then Inr None
                            else Inr (Some \<lparr> cs_kind = 0, cs_kv = of_nat (length bs), cs_file_size = of_nat (length wal), cs_bytes = wal @ concat bs \<rparr>)))
                    (ForEachEntry idx)))"

definition kTypeDeletionWithTimestamp :: byte where "kTypeDeletionWithTimestamp = 0x14"

definition is_deletion :: "byte \<Rightarrow> bool" where
  "is_deletion t \<longleftrightarrow> t = kTypeDeletion \<or> t = kTypeSingleDeletion \<or> t = kTypeDeletionWithTimestamp"

definition csd_frame :: "u32 \<Rightarrow> bytes \<Rightarrow> bytes \<Rightarrow> bytes" where
  "csd_frame part ik v =
     (let packed = DecodeFixed64 (drop 24 ik); seq = drop_bit 8 packed; t = ucast (packed AND 0xFF) :: byte;
          f = PutFixed32 kZfMagic @ [ucast part, ucast (drop_bit 8 part)] @ [t] @ [0] @ PutFixed32 24 @
              PutFixed32 (of_nat (length v)) @ PutFixed64 seq @ take 24 ik @ v
      in f @ PutFixed32 (Value f))"

fun csd_frames :: "u32 \<Rightarrow> (bytes \<times> bytes) list \<Rightarrow> u64 \<Rightarrow> bytes \<Rightarrow> u64 \<times> bytes option" where
  "csd_frames part [] deletions wal = (deletions, Some wal)"
| "csd_frames part ((ik, v) # kvs) deletions wal =
     (if length ik \<noteq> 32 \<or> length v > unat kCsdMaxValueBytes then (deletions, None)
      else csd_frames part kvs (if is_deletion (ucast (DecodeFixed64 (drop 24 ik) AND 0xFF)) then deletions + 1 else deletions)
             (wal @ csd_frame part ik v))"

fun csd_slims :: "u32 \<Rightarrow> u32 \<Rightarrow> u64 \<Rightarrow> (bytes \<times> bytes) list \<Rightarrow> bytes" where
  "csd_slims part gen off [] = []"
| "csd_slims part gen off ((ik, v) # kvs) =
     EncodeVarint32 (of_nat (length ik)) @ ik @ EncodeVarint32 16 @ PutFixed32 part @ PutFixed32 gen @ PutFixed64 off @
     csd_slims part gen (off + ucast (ZfRecordLength 24 (of_nat (length v)))) kvs"

text \<open>The number of deletions and the slot, \<^const>\<open>None\<close> for the result \<^verbatim>\<open>false\<close>.\<close>

definition BuildCsdSlotAFromSorted :: "u32 \<Rightarrow> u32 \<Rightarrow> bytes list \<Rightarrow> bytes list \<Rightarrow> u64 \<times> ZfCsdSlot option" where
  "BuildCsdSlotAFromSorted part gen keys values =
     (if length keys \<noteq> length values \<or> keys = [] then (0, None)
      else if length keys > kCsdMaxRecords then (0, None)
      else
       case csd_frames part (zip keys values) 0 [] of
         (deletions, None) \<Rightarrow> (deletions, None)
       | (deletions, Some wal) \<Rightarrow>
           if length wal > kCsdMaxStagedBytes then (deletions, None)
           else (deletions, Some \<lparr> cs_kind = 0, cs_kv = of_nat (length keys), cs_file_size = of_nat (length wal),
                   cs_bytes = wal @ csd_slims part gen 0 (zip keys values) \<rparr>))"

section \<open>Chains of files\<close>

fun chain_offs :: "u64 \<Rightarrow> bytes list \<Rightarrow> u64 list \<times> u64" where
  "chain_offs tot [] = ([], tot)"
| "chain_offs tot (f # fs) = (case chain_offs (tot + of_nat (length f)) fs of (offs, t) \<Rightarrow> (tot # offs, t))"

definition put_u64 :: "u64 \<Rightarrow> bytes" where
  "put_u64 v = map (\<lambda>i. ucast (drop_bit (8 * i) v AND 0xFF)) [0..<8]"

definition BuildCsdSlotB :: "(u64 \<times> bytes) list \<Rightarrow> ZfCsdSlot" where
  "BuildCsdSlotB files =
     (if files = [] \<or> length files > kCsdMaxChainFiles then \<lparr> cs_kind = 1, cs_kv = 0, cs_file_size = 0, cs_bytes = [] \<rparr>
      else
       let K = of_nat (length files) :: u64; hdr = 8 + 16 * K
       in case chain_offs hdr (map snd files) of
            (offs, tot) \<Rightarrow>
              \<lparr> cs_kind = 1, cs_kv = 0, cs_file_size = tot,
                cs_bytes = put_u64 K @ concat (map (\<lambda>i. put_u64 (offs ! i) @ put_u64 (of_nat (length (snd (files ! i))))) [0..<length files]) @
                           concat (map snd files) \<rparr>)"

section \<open>The manifest\<close>

record ZfSealManifest =
  sm_data_size :: u64
  sm_index_size :: u64
  sm_num_entries :: u64
  sm_num_deletions :: u64
  sm_num_merge_operands :: u64
  sm_num_filter_entries :: u64
  sm_num_data_blocks :: u64
  sm_num_range_deletions :: u64
  sm_num_uniform_blocks :: u64
  sm_raw_key_size :: u64
  sm_raw_value_size :: u64
  sm_filter_size :: u64
  sm_key_largest_seqno :: u64
  sm_key_smallest_seqno :: u64

definition new_ZfSealManifest :: ZfSealManifest where
  "new_ZfSealManifest =
     \<lparr> sm_data_size = 0, sm_index_size = 0, sm_num_entries = 0, sm_num_deletions = 0, sm_num_merge_operands = 0, sm_num_filter_entries = 0,
       sm_num_data_blocks = 0, sm_num_range_deletions = 0, sm_num_uniform_blocks = 0, sm_raw_key_size = 0, sm_raw_value_size = 0,
       sm_filter_size = 0, sm_key_largest_seqno = 0, sm_key_smallest_seqno = 0xFFFFFFFFFFFFFFFF \<rparr>"

definition ZfCsdManifestFromPps :: "u64 list \<Rightarrow> u64 \<Rightarrow> u64 \<Rightarrow> ZfSealManifest \<Rightarrow> ZfSealManifest option" where
  "ZfCsdManifestFromPps pps data_size index_size m =
     (if pps ! 0 = 0 \<or> pps ! 1 = 0 then None
      else if pps ! 2 \<noteq> 0 \<and> pps ! 2 \<noteq> data_size then None
      else Some (m \<lparr> sm_data_size := data_size, sm_index_size := index_size, sm_num_entries := pps ! 1, sm_num_data_blocks := pps ! 0,
             sm_raw_key_size := pps ! 3, sm_raw_value_size := pps ! 4, sm_key_smallest_seqno := drop_bit 8 (pps ! 6),
             sm_key_largest_seqno := drop_bit 8 (pps ! 7) \<rparr>))"

section \<open>Session factories\<close>

text \<open>The globals. \<open>plugin\<close> is the factory that the linked plugin registers, if there is one.\<close>

record 'f csd_globals =
  cg_factory :: "'f option"
  cg_tried :: bool

definition RegisterZfCsdSessionFactory :: "'f \<Rightarrow> 'f csd_globals \<Rightarrow> 'f csd_globals" where
  "RegisterZfCsdSessionFactory f g = g \<lparr> cg_factory := Some f \<rparr>"

text \<open>The critical section of \<^verbatim>\<open>MaybeAutoEnableCsdBackend\<close>, then the whole function and its caller.\<close>

definition auto_enable_locked :: "'f option \<Rightarrow> 'f csd_globals \<Rightarrow> bool \<times> 'f csd_globals" where
  "auto_enable_locked plugin g =
     (if cg_tried g then (False, g)
      else let g = g \<lparr> cg_tried := True \<rparr> in if cg_factory g \<noteq> None then (False, g) else (plugin \<noteq> None, g))"

definition MaybeAutoEnableCsdBackend :: "'f option \<Rightarrow> ZeroFlushOptions \<Rightarrow> 'f csd_globals \<Rightarrow> 'f csd_globals" where
  "MaybeAutoEnableCsdBackend plugin zfo g =
     (if \<not> zo_csd_materialize zfo \<or> zo_csd_xclbin zfo = [] then g
      else if cg_tried g then g
      else case auto_enable_locked plugin g of
             (should_register, g) \<Rightarrow>
               if should_register then (case plugin of Some f \<Rightarrow> RegisterZfCsdSessionFactory f g | None \<Rightarrow> g) else g)"

definition CreateZfCsdSession :: "(ZeroFlushOptions \<Rightarrow> 's option) option \<Rightarrow> ZeroFlushOptions \<Rightarrow> (ZeroFlushOptions \<Rightarrow> 's option) csd_globals \<Rightarrow>
    's option \<times> (ZeroFlushOptions \<Rightarrow> 's option) csd_globals" where
  "CreateZfCsdSession plugin zfo g =
     (let g = MaybeAutoEnableCsdBackend plugin zfo g
      in case cg_factory g of None \<Rightarrow> (None, g) | Some f \<Rightarrow> (f zfo, g))"

section \<open>Accepted entries lie in the log\<close>

text \<open>The frame of an accepted entry lies in the log file, with its key of the length of the user key and
  a value within the limit.\<close>

lemma csd_entry_in_log:
  assumes "csd_entry wal part gen (ik, locator) = Inr (Some b)" "length wal \<le> kCsdMaxStagedBytes"
  shows "let off = unat (l_wal_offset (slim_locator_of locator)); vlen = DecodeFixed32 (drop (off + 12) wal)
    in unat vlen \<le> 1024 \<and> unat (DecodeFixed32 (drop (off + 8) wal)) = length ik - 8 \<and> off + 24 + (length ik - 8) + unat vlen \<le> length wal"
proof -
  define off where "off = l_wal_offset (slim_locator_of locator)"
  define vlen where "vlen = DecodeFixed32 (drop 12 (drop (unat off) wal))"
  define klen where "klen = DecodeFixed32 (drop 8 (drop (unat off) wal))"
  have h: "unat off + 16 \<le> length wal" "vlen \<le> 1024" "unat klen = length ik - 8" "length ik - 8 \<le> 24"
    "off + 24 + ucast klen + ucast vlen \<le> (of_nat (length wal) :: u64)"
    using assms(1) unfolding csd_entry_def Let_def fst_conv snd_conv off_def [symmetric] vlen_def [symmetric] klen_def [symmetric]
    by (simp_all add: kCsdMaxValueBytes_def kCsdMaxUserKeyBytes_def kZfHeaderSize_def not_less split: if_split_asm)
  have small: "length wal \<le> 2 ^ 26" using assms(2) by (simp add: kCsdMaxStagedBytes_def)
  have v: "unat vlen \<le> 1024" using h(2) by (simp add: word_le_nat_alt)
  have "off + 24 + ucast klen + ucast vlen = (of_nat (unat off + 24 + unat klen + unat vlen) :: u64)" by simp
  moreover have "unat (of_nat (unat off + 24 + unat klen + unat vlen) :: u64) = unat off + 24 + unat klen + unat vlen"
    by (rule u64_of_nat) (use h small v in simp)
  moreover have "unat (of_nat (length wal) :: u64) = length wal" by (rule u64_of_nat) (use small in simp)
  ultimately have "unat off + 24 + unat klen + unat vlen \<le> length wal" using h(5) by (simp add: word_le_nat_alt)
  then show ?thesis using v h(3) by (simp add: Let_def off_def vlen_def klen_def add.commute [of 12] add.commute [of 8])
qed

section \<open>The slot of sorted records is the staged port\<close>

definition krec_valid :: "KRec \<Rightarrow> bool" where
  "krec_valid r \<longleftrightarrow> length (kr_user r) = kUserKeyLength \<and> length (kr_value r) \<le> kValueLength \<and> kr_seq r \<le> kMaxSequenceNumber"

definition krec_ik :: "KRec \<Rightarrow> bytes" where
  "krec_ik r = InternalKey (kr_user r) (kr_seq r) (kr_type r)"

lemma krec_ik_parts:
  assumes "krec_valid r"
  shows "length (krec_ik r) = 32" "take 24 (krec_ik r) = kr_user r"
    "drop_bit 8 (DecodeFixed64 (drop 24 (krec_ik r))) = kr_seq r" "ucast (DecodeFixed64 (drop 24 (krec_ik r)) AND 0xFF) = kr_type r"
proof -
  have u: "length (kr_user r) = 24" "kr_seq r \<le> kMaxSequenceNumber" using assms by (simp_all add: krec_valid_def kUserKeyLength_def)
  show "length (krec_ik r) = 32" "take 24 (krec_ik r) = kr_user r" using u(1) by (simp_all add: krec_ik_def InternalKey_eq MakeInternalKey_def)
  have "DecodeFixed64 (drop 24 (krec_ik r)) = PackSequenceAndType (kr_seq r) (kr_type r)"
    using u(1) by (simp add: krec_ik_def InternalKey_eq MakeInternalKey_def)
  then show "drop_bit 8 (DecodeFixed64 (drop 24 (krec_ik r))) = kr_seq r" "ucast (DecodeFixed64 (drop 24 (krec_ik r)) AND 0xFF) = kr_type r"
    using UnPack_PackSequenceAndType [OF u(2), of "kr_type r"] by (simp_all add: UnPackSequenceAndType_def)
qed

lemma cf_bytes: "ucast (ucast (x :: u32) :: u16) = (ucast x :: byte)" "ucast (drop_bit 8 (ucast (x :: u32) :: u16)) = (ucast (drop_bit 8 x) :: byte)"
  by (rule bit_word_eqI; auto simp: bit_simps)+

lemma csd_frame_eq:
  assumes "krec_valid r"
  shows "csd_frame part (krec_ik r) (kr_value r) = krec_frame part r"
proof -
  have "length (kr_user r) = 24" using assms by (simp add: krec_valid_def kUserKeyLength_def)
  then show ?thesis
    by (simp add: csd_frame_def Let_def krec_frame_def BuildZfRecord_def krec_ik_parts [OF assms] PutFixed32LE_eq PutFixed64LE_eq Crc32c_eq cf_bytes)
qed

lemma csd_frames_eq:
  "\<forall>r \<in> set rs. krec_valid r \<Longrightarrow>
   csd_frames part (zip (map krec_ik rs) (map kr_value rs)) d wal =
     (d + of_nat (length (filter (\<lambda>r. is_deletion (kr_type r)) rs)), Some (wal @ concat (map (krec_frame part) rs)))"
proof (induction rs arbitrary: d wal)
  case (Cons r rs)
  then have v: "krec_valid r" "length (kr_value r) \<le> 1024" by (simp_all add: krec_valid_def kValueLength_def)
  show ?case using Cons.IH Cons.prems v krec_ik_parts [OF v(1)] by (simp add: csd_frame_eq kCsdMaxValueBytes_def)
qed simp

lemma EncodeVarint32_small: "EncodeVarint32 32 = [32]" "EncodeVarint32 16 = [16]"
  by (simp_all add: EncodeVarint32_def)

lemma csd_slims_eq:
  "\<forall>r \<in> set rs. krec_valid r \<Longrightarrow>
   csd_slims part gen off (zip (map krec_ik rs) (map kr_value rs)) = concat (map (slim_entry part gen) (fst (place_frames part off rs)))"
proof (induction rs arbitrary: off)
  case (Cons r rs)
  then have v: "krec_valid r" "length (kr_value r) \<le> 1024" by (simp_all add: krec_valid_def kValueLength_def)
  have len: "ucast (ZfRecordLength 24 (of_nat (length (kr_value r)))) = (of_nat (length (krec_frame part r)) :: u64)"
  proof -
    have "ZfRecordLength 24 (of_nat (length (kr_value r))) = of_nat (52 + length (kr_value r))"
      by (simp add: ZfRecordLength_def kZfHeaderSize_def kZfCrcSize_def)
    moreover have "ucast (of_nat (52 + length (kr_value r)) :: u32) = (of_nat (52 + length (kr_value r)) :: u64)"
      by (rule ucast_u32_u64(1)) (use v(2) in simp)
    moreover have "length (krec_frame part r) = 52 + length (kr_value r)"
      by (rule krec_frame_ok(2)) (use v(1) in \<open>simp add: krec_ok_def krec_valid_def\<close>)
    ultimately show ?thesis by simp
  qed
  have one: "slim_entry part gen (r, off) = [32] @ krec_ik r @ [16] @ PutFixed32 part @ PutFixed32 gen @ PutFixed64 off"
    by (simp add: slim_entry_eq krec_ik_def InternalKey_eq)
  show ?case
    using Cons.IH [of "off + of_nat (length (krec_frame part r))"] Cons.prems one
    by (simp add: krec_ik_parts(1) [OF v(1)] EncodeVarint32_small len Let_def case_prod_beta)
qed simp

text \<open>C21: the device slot is the host's staged port. For records with 24-byte keys, values of at most 1024
  bytes and valid sequence numbers, within the limits on count and log size, packing their sorted
  and deduplicated internal keys and values succeeds; the bytes of the slot are exactly the staged
  port that the host's format library builds for the records, and the count of records, the size of
  the log region and the number of deletions are right.\<close>

theorem csd_slot_is_staged_port:
  assumes "rs \<noteq> []" "\<forall>r \<in> set rs. length (kr_user r) = kUserKeyLength \<and> length (kr_value r) \<le> kValueLength \<and> kr_seq r \<le> kMaxSequenceNumber"
    "length (unique_users (krec_sort rs)) \<le> kCsdMaxRecords" "length (pt_wal (build_port part gen rs)) \<le> kCsdMaxStagedBytes"
  shows "BuildCsdSlotAFromSorted part gen (map (\<lambda>r. InternalKey (kr_user r) (kr_seq r) (kr_type r)) (unique_users (krec_sort rs)))
      (map kr_value (unique_users (krec_sort rs))) =
    (of_nat (length (filter (\<lambda>r. is_deletion (kr_type r)) (unique_users (krec_sort rs)))),
     Some \<lparr> cs_kind = 0, cs_kv = of_nat (length (pt_entries (build_port part gen rs))),
       cs_file_size = of_nat (length (pt_wal (build_port part gen rs))), cs_bytes = Staged (build_port part gen rs) \<rparr>)"
proof -
  define us where "us = unique_users (krec_sort rs)"
  have valid: "\<forall>r \<in> set us. krec_valid r"
    using assms(2) set_unique_users(1) [of "krec_sort rs"] unfolding us_def krec_valid_def set_krec_sort by blast
  have ne: "us \<noteq> []"
  proof -
    obtain x xs where "krec_sort rs = x # xs" using assms(1) set_krec_sort(2) [of rs] by (cases "krec_sort rs") auto
    moreover have "unique_users (x # xs) \<noteq> []" by (induction xs arbitrary: x) auto
    ultimately show ?thesis by (simp add: us_def)
  qed
  have port: "pt_wal (build_port part gen rs) = concat (map (krec_frame part) us)"
    "pt_slim (build_port part gen rs) = concat (map (slim_entry part gen) (fst (place_frames part 0 us)))"
    "length (pt_entries (build_port part gen rs)) = length us"
    using place_frames_layout [of part 0 us] by (simp_all add: build_port_def us_def [symmetric])
  have lim: "length us \<le> kCsdMaxRecords" "length (concat (map (krec_frame part) us)) \<le> kCsdMaxStagedBytes"
    using assms(3,4) unfolding us_def [symmetric] port(1) .
  show ?thesis
    unfolding us_def [symmetric] krec_ik_def [symmetric] BuildCsdSlotAFromSorted_def Staged_def port
    using ne lim by (simp add: csd_frames_eq [OF valid] csd_slims_eq [OF valid])
qed

theorem csd_slot_is_staged_port_witness:
  "snd (BuildCsdSlotAFromSorted 7 3 [InternalKey (kr_user (sample_krec 5 4)) 4 1] [kr_value (sample_krec 5 4)]) =
     Some \<lparr> cs_kind = 0, cs_kv = 1, cs_file_size = 54, cs_bytes = Staged (build_port 7 3 [sample_krec 5 4]) \<rparr>"
proof -
  have u: "unique_users (krec_sort [sample_krec 5 4]) = [sample_krec 5 4]" by (simp add: krec_sort_def)
  have ok: "krec_ok (sample_krec 5 4)" by (simp add: krec_ok_def sample_krec_def kUserKeyLength_def kValueLength_def)
  have port: "length (pt_entries (build_port 7 3 [sample_krec 5 4])) = 1" "length (pt_wal (build_port 7 3 [sample_krec 5 4])) = 54"
    using krec_frame_ok(2) [OF ok, of 7] by (simp_all add: build_port_def u Let_def) (simp add: sample_krec_def)
  from csd_slot_is_staged_port [of "[sample_krec 5 4]" 7 3, unfolded u port] show ?thesis
    by (simp add: sample_krec_def kUserKeyLength_def kValueLength_def kMaxSequenceNumber_def kCsdMaxRecords_def kCsdMaxStagedBytes_def)
qed

section \<open>The header of a chain locates its files\<close>

lemma put_u64_eq: "put_u64 v = PutFixed64 v"
proof -
  have "ucast (x AND 0xFF) = (ucast x :: byte)" for x :: u64
    by (rule bit_word_eqI) (auto simp: and_ff bit_simps)
  then show ?thesis unfolding put_u64_def PutFixed64LE_eq [symmetric] PutFixed64LE_def by simp
qed

lemma DecodeFixed_take: "8 \<le> n \<Longrightarrow> DecodeFixed64 (take n p) = DecodeFixed64 p" "4 \<le> n \<Longrightarrow> DecodeFixed32 (take n p) = DecodeFixed32 p"
  by (simp_all add: DecodeFixed64_def DecodeFixed32_def min_def)

lemma chain_offs_eq:
  "chain_offs tot fs = (map (\<lambda>i. tot + of_nat (length (concat (take i fs)))) [0..<length fs], tot + of_nat (length (concat fs)))"
proof (induction fs arbitrary: tot)
  case (Cons f fs)
  have "[0..<length (f # fs)] = 0 # map Suc [0..<length fs]" by (simp add: map_Suc_upt upt_conv_Cons del: upt_Suc)
  then show ?case by (simp add: Cons comp_def add.assoc del: upt_Suc)
qed simp

text \<open>C22: the slot of a chain of files is self-describing. For one to 64 files whose total size fits in 64
  bits, the slot begins with the number of files, its size field is the length of its bytes, and at
  the offset and with the length of the \<open>i\<close>-th header entry lie exactly the bytes of the \<open>i\<close>-th file.\<close>

theorem csd_chain_located:
  assumes "files \<noteq> []" "length files \<le> kCsdMaxChainFiles" "8 + 16 * length files + length (concat (map snd files)) < 2 ^ 64"
  shows "cs_file_size (BuildCsdSlotB files) = of_nat (length (cs_bytes (BuildCsdSlotB files))) \<and>
    DecodeFixed64 (cs_bytes (BuildCsdSlotB files)) = of_nat (length files) \<and>
    (\<forall>i < length files.
       slice (unat (DecodeFixed64 (drop (8 + 16 * i) (cs_bytes (BuildCsdSlotB files)))))
         (unat (DecodeFixed64 (drop (16 + 16 * i) (cs_bytes (BuildCsdSlotB files))))) (cs_bytes (BuildCsdSlotB files)) = snd (files ! i))"
proof -
  let ?fs = "map snd files" and ?n = "length files"
  define off where "off i = 8 + 16 * ?n + length (concat (take i ?fs))" for i
  define hd where "hd i = PutFixed64 (of_nat (off i)) @ PutFixed64 (of_nat (length (?fs ! i)))" for i
  have offs: "chain_offs (8 + 16 * of_nat ?n) ?fs = (map (\<lambda>i. of_nat (off i)) [0..<?n], of_nat (8 + 16 * ?n + length (concat ?fs)))"
    unfolding chain_offs_eq by (simp add: off_def)
  have hds: "concat (map (\<lambda>i. PutFixed64 (map (\<lambda>i. of_nat (off i)) [0..<?n] ! i) @ PutFixed64 (of_nat (length (snd (files ! i))))) [0..<?n]) =
      concat (map hd [0..<?n])"
    by (rule arg_cong [of _ _ concat], rule map_cong [OF refl]) (simp add: hd_def)
  have len: "length (concat (map hd [0..<?n])) = 16 * ?n" by (simp add: hd_def length_concat comp_def sum_list_triv)
  define b where "b = PutFixed64 (of_nat ?n) @ concat (map hd [0..<?n]) @ concat ?fs"
  have slot: "cs_bytes (BuildCsdSlotB files) = b" "cs_file_size (BuildCsdSlotB files) = of_nat (8 + 16 * ?n + length (concat ?fs))"
    using assms(1,2) unfolding BuildCsdSlotB_def put_u64_eq Let_def offs prod.case hds b_def by simp_all
  have blen: "length b = 8 + 16 * ?n + length (concat ?fs)" by (simp add: b_def len)
  have "slice (unat (DecodeFixed64 (drop (8 + 16 * i) b))) (unat (DecodeFixed64 (drop (16 + 16 * i) b))) b = snd (files ! i)" if i: "i < ?n" for i
  proof -
    have f: "?fs = take i ?fs @ ?fs ! i # drop (Suc i) ?fs" by (rule id_take_nth_drop) (use i in simp)
    then have c: "concat ?fs = concat (take i ?fs) @ ?fs ! i @ concat (drop (Suc i) ?fs)" by (metis concat_append concat.simps(2))
    have "length (?fs ! i) \<le> length (concat ?fs)" "off i \<le> 8 + 16 * ?n + length (concat ?fs)" using arg_cong [OF c, of length] by (simp_all add: off_def)
    then have u: "unat (of_nat (off i) :: u64) = off i" "unat (of_nat (length (?fs ! i)) :: u64) = length (?fs ! i)" using assms(3) by (simp_all add: u64_of_nat)
    have "take 16 (drop (16 * i) (concat (map hd [0..<?n]))) = hd ([0..<?n] ! i)"
      by (rule concat_uniform_nth) (use i in \<open>simp_all add: hd_def\<close>)
    then have h: "take 16 (drop (8 + 16 * i) b) = hd i" using i len by (simp add: b_def)
    have "DecodeFixed64 (drop (8 + 16 * i) b) = of_nat (off i)"
      using DecodeFixed_take(1) [of 16 "drop (8 + 16 * i) b"] unfolding h hd_def by simp
    moreover have "DecodeFixed64 (drop (16 + 16 * i) b) = of_nat (length (?fs ! i))"
    proof -
      have "take 8 (drop (16 + 16 * i) b) = drop 8 (take 16 (drop (8 + 16 * i) b))" by (simp add: drop_take ac_simps)
      then have "take 8 (drop (16 + 16 * i) b) = PutFixed64 (of_nat (length (?fs ! i)))" unfolding h hd_def by simp
      then show ?thesis using DecodeFixed_take(1) [of 8 "drop (16 + 16 * i) b"] by simp
    qed
    moreover have "slice (off i) (length (?fs ! i)) b = ?fs ! i"
      using slice_append_mid [of "PutFixed64 (of_nat ?n) @ concat (map hd [0..<?n]) @ concat (take i ?fs)" "off i" "?fs ! i" "length (?fs ! i)" "concat (drop (Suc i) ?fs)"]
      by (simp add: b_def c off_def len)
    ultimately show ?thesis using i u by simp
  qed
  moreover have "DecodeFixed64 b = of_nat ?n" unfolding b_def by (simp add: DecodeFixed_prefix)
  ultimately show ?thesis unfolding slot blen by simp
qed

theorem csd_chain_located_witness:
  "slice (unat (DecodeFixed64 (drop 24 (cs_bytes (BuildCsdSlotB [(9, [1, 2, 3]), (8, [4, 5])])))))
     (unat (DecodeFixed64 (drop 32 (cs_bytes (BuildCsdSlotB [(9, [1, 2, 3]), (8, [4, 5])])))))
     (cs_bytes (BuildCsdSlotB [(9, [1, 2, 3]), (8, [4, 5])])) = [4, 5]"
proof -
  let ?files = "[(9, [1, 2, 3]), (8, [4, 5])] :: (u64 \<times> bytes) list"
  have "?files \<noteq> []" "length ?files \<le> kCsdMaxChainFiles" "8 + 16 * length ?files + length (concat (map snd ?files)) < 2 ^ 64"
    by (simp_all add: kCsdMaxChainFiles_def)
  from csd_chain_located [OF this] have "\<forall>i < length ?files.
       slice (unat (DecodeFixed64 (drop (8 + 16 * i) (cs_bytes (BuildCsdSlotB ?files)))))
         (unat (DecodeFixed64 (drop (16 + 16 * i) (cs_bytes (BuildCsdSlotB ?files))))) (cs_bytes (BuildCsdSlotB ?files)) = snd (?files ! i)" by blast
  from spec [OF this, of 1] show ?thesis by simp
qed

section \<open>Interleavings of the registration\<close>

text \<open>Threads that ask for a session, in the steps between which others can run: the fast test of
  the flag, the critical section, the call of the plugin outside it, the read of the factory under
  the lock. A thread that registers a factory explicitly takes one step.\<close>

datatype 'f csd_pc = CsdStart | CsdLock | CsdPlugin | CsdRead | CsdGot "'f option" | CsdRegister 'f | CsdDone

record 'f csd_run = "'f csd_globals" +
  cr_pc :: "nat \<Rightarrow> 'f csd_pc"
  cr_calls :: nat

inductive csd_step :: "'f option \<Rightarrow> 'f csd_run \<Rightarrow> 'f csd_run \<Rightarrow> bool" for plugin where
  fast: "cr_pc s t = CsdStart \<Longrightarrow> csd_step plugin s (s \<lparr> cr_pc := (cr_pc s)(t := if cg_tried s then CsdRead else CsdLock) \<rparr>)"
| skip: "cr_pc s t = CsdStart \<Longrightarrow> csd_step plugin s (s \<lparr> cr_pc := (cr_pc s)(t := CsdRead) \<rparr>)"
| locked: "cr_pc s t = CsdLock \<Longrightarrow> auto_enable_locked plugin (csd_globals.truncate s) = (call, g) \<Longrightarrow>
    csd_step plugin s (s \<lparr> cg_factory := cg_factory g, cg_tried := cg_tried g, cr_pc := (cr_pc s)(t := if call then CsdPlugin else CsdRead) \<rparr>)"
| plugin: "cr_pc s t = CsdPlugin \<Longrightarrow> plugin = Some f \<Longrightarrow>
    csd_step plugin s (s \<lparr> cg_factory := Some f, cr_calls := cr_calls s + 1, cr_pc := (cr_pc s)(t := CsdRead) \<rparr>)"
| read: "cr_pc s t = CsdRead \<Longrightarrow> csd_step plugin s (s \<lparr> cr_pc := (cr_pc s)(t := CsdGot (cg_factory s)) \<rparr>)"
| register: "cr_pc s t = CsdRegister f \<Longrightarrow> csd_step plugin s (s \<lparr> cg_factory := Some f, cr_pc := (cr_pc s)(t := CsdDone) \<rparr>)"

inductive_cases csd_stepE: "csd_step plugin s s'"

definition csd_inv :: "'f csd_run \<Rightarrow> bool" where
  "csd_inv s \<longleftrightarrow> cr_calls s \<le> 1 \<and> (cr_calls s = 1 \<longrightarrow> cg_tried s) \<and>
     (\<forall>t. cr_pc s t = CsdPlugin \<longrightarrow> cr_calls s = 0 \<and> cg_tried s) \<and>
     (\<forall>t u. cr_pc s t = CsdPlugin \<longrightarrow> cr_pc s u = CsdPlugin \<longrightarrow> t = u)"

lemma csd_step_inv: "csd_step plugin s s' \<Longrightarrow> csd_inv s \<Longrightarrow> csd_inv s'"
  by (erule csd_stepE) (auto simp: csd_inv_def auto_enable_locked_def csd_globals.truncate_def Let_def split: if_splits)

text \<open>The plugin is called at most once, however the threads interleave.\<close>

lemma csd_plugin_once:
  assumes "(csd_step plugin)\<^sup>*\<^sup>* s s'" "cr_calls s = 0" "\<forall>t. cr_pc s t \<noteq> CsdPlugin"
  shows "cr_calls s' \<le> 1"
proof -
  have "csd_inv s" using assms(2,3) by (simp add: csd_inv_def)
  with assms(1) have "csd_inv s'" by (induction rule: rtranclp_induct) (auto intro: csd_step_inv)
  then show ?thesis by (simp add: csd_inv_def)
qed

text \<open>The plugin can overwrite a factory that was registered explicitly, although the critical section
  leaves such a factory alone: the registration comes between the critical section and the call.\<close>

definition csd_race :: "nat csd_run" where
  "csd_race = \<lparr> cg_factory = None, cg_tried = False, cr_pc = (\<lambda>t. if t = 0 then CsdStart else if t = 1 then CsdRegister 7 else CsdDone), cr_calls = 0 \<rparr>"

lemma csd_explicit_factory_overwritten:
  "\<exists>s s'. (csd_step (Some 3))\<^sup>*\<^sup>* csd_race s \<and> cg_factory s = Some 7 \<and> (csd_step (Some 3))\<^sup>*\<^sup>* s s' \<and> cg_factory s' = Some 3"
proof -
  define s1 where "s1 = csd_race \<lparr> cr_pc := (cr_pc csd_race)(0 := CsdLock) \<rparr>"
  define s2 where "s2 = s1 \<lparr> cg_factory := None, cg_tried := True, cr_pc := (cr_pc s1)(0 := CsdPlugin) \<rparr>"
  define s3 where "s3 = s2 \<lparr> cg_factory := Some 7, cr_pc := (cr_pc s2)(1 := CsdDone) \<rparr>"
  define s4 where "s4 = s3 \<lparr> cg_factory := Some 3, cr_calls := cr_calls s3 + 1, cr_pc := (cr_pc s3)(0 := CsdRead) \<rparr>"
  note defs = s1_def s2_def s3_def s4_def csd_race_def
  have 1: "csd_step (Some 3) csd_race s1" using csd_step.fast [of csd_race 0 "Some 3"] by (simp add: s1_def csd_race_def)
  have 2: "csd_step (Some 3) s1 s2"
    using csd_step.locked [of s1 0 "Some 3" True "\<lparr> cg_factory = None, cg_tried = True \<rparr>"]
    by (simp add: s2_def) (simp add: defs auto_enable_locked_def csd_globals.truncate_def Let_def)
  have 3: "csd_step (Some 3) s2 s3" unfolding s3_def by (rule csd_step.register) (simp add: defs)
  have 4: "csd_step (Some 3) s3 s4" unfolding s4_def by (rule csd_step.plugin) (simp_all add: defs)
  have "(csd_step (Some 3))\<^sup>*\<^sup>* csd_race s3" using 1 2 3 by (meson rtranclp.rtrancl_into_rtrancl rtranclp.rtrancl_refl)
  moreover have "(csd_step (Some 3))\<^sup>*\<^sup>* s3 s4" using 4 by (rule r_into_rtranclp)
  moreover have "cg_factory s3 = Some 7" "cg_factory s4 = Some 3" by (simp_all add: s3_def s4_def)
  ultimately show ?thesis by blast
qed

end
