(* ===== verification/ZfSeal.thy ===== *)
theory ZfSeal
  imports ZfTableFormat ZfCsdBackend
begin

text \<open>
  The sealing of a table that the device has written (\<^verbatim>\<open>zeroflush/zf_seal.h\<close>, \<^verbatim>\<open>zf_seal.cc\<close>): the
  properties that the engine's table builder would have written are assembled from the options and
  the manifest, and the properties block, the metaindex block and the footer are appended to the
  file. The serialisation is the engine's (\<^verbatim>\<open>table/meta_blocks.cc\<close>, modelled here, and the theory of the table
  format). Names and option strings are bytes; what \<^verbatim>\<open>CompressionOptionsToString\<close>, \<^verbatim>\<open>GetHostNameString\<close> and
  \<^verbatim>\<open>PrepareIOOptions\<close> return is an argument. Appends go to a file of the modelled environment and can
  fail.

  The properties: the sealed file is readable. Its footer is accepted, points to the device's index
  block and to the metaindex; the metaindex leads to the properties block, both blocks carry the
  right trailer, and reading the properties gives the assembled list, with the manifest's numbers in
  it.
\<close>

unbundle bit_operations_syntax

section \<open>Options and properties\<close>

record TableBuilderOptions =
  tb_compression_type :: byte
  tb_compression_manager :: bool
  tb_prefix_extractor :: "bytes option"
  tb_merge_operator :: "bytes option"
  tb_collectors :: "bytes list"
  tb_internal_collectors :: "bytes list option"
  tb_user_comparator :: "bytes option"
  tb_persist_timestamps :: bool
  tb_column_family_id :: u32
  tb_column_family_name :: bytes
  tb_oldest_key_time :: u64
  tb_newest_key_time :: u64
  tb_file_creation_time :: u64
  tb_cur_file_num :: u64
  tb_db_id :: bytes
  tb_db_session_id :: bytes
  tb_db_host_id :: bytes
  tb_compression_opts :: bytes

record BlockBasedTableOptions =
  to_format_version :: u32
  to_checksum :: ChecksumType
  to_index_type :: u32
  to_filter_policy :: "bytes option"
  to_partition_filters :: bool
  to_block_restart_interval :: u64
  to_index_block_restart_interval :: u64
  to_separate_key_value :: bool
  to_whole_key_filtering :: bool
  to_decouple_partitioned_filters :: bool

record TableProperties =
  tp_orig_file_number :: u64
  tp_data_size :: u64
  tp_uncompressed_data_size :: u64
  tp_index_size :: u64
  tp_index_partitions :: u64
  tp_top_level_index_size :: u64
  tp_index_key_is_user_key :: u64
  tp_index_value_is_delta_encoded :: u64
  tp_udi_is_primary_index :: u64
  tp_filter_size :: u64
  tp_raw_key_size :: u64
  tp_raw_value_size :: u64
  tp_num_data_blocks :: u64
  tp_num_data_blocks_compression_rejected :: u64
  tp_num_data_blocks_compression_bypassed :: u64
  tp_num_uniform_blocks :: u64
  tp_num_entries :: u64
  tp_num_filter_entries :: u64
  tp_num_deletions :: u64
  tp_num_merge_operands :: u64
  tp_num_range_deletions :: u64
  tp_format_version :: u64
  tp_fixed_key_len :: u64
  tp_column_family_id :: u64
  tp_creation_time :: u64
  tp_oldest_key_time :: u64
  tp_newest_key_time :: u64
  tp_file_creation_time :: u64
  tp_slow_compression_estimated_data_size :: u64
  tp_fast_compression_estimated_data_size :: u64
  tp_tail_start_offset :: u64
  tp_user_defined_timestamps_persisted :: u64
  tp_key_largest_seqno :: u64
  tp_key_smallest_seqno :: u64
  tp_data_block_restart_interval :: u64
  tp_index_block_restart_interval :: u64
  tp_separate_key_value_in_data_block :: u64
  tp_db_id :: bytes
  tp_db_session_id :: bytes
  tp_db_host_id :: bytes
  tp_column_family_name :: bytes
  tp_filter_policy_name :: bytes
  tp_comparator_name :: bytes
  tp_merge_operator_name :: bytes
  tp_prefix_extractor_name :: bytes
  tp_property_collectors_names :: bytes
  tp_compression_name :: bytes
  tp_compression_options :: bytes
  tp_seqno_to_time_mapping :: bytes

definition new_TableProperties :: TableProperties where
  "new_TableProperties =
     \<lparr> tp_orig_file_number = 0, tp_data_size = 0, tp_uncompressed_data_size = 0, tp_index_size = 0, tp_index_partitions = 0,
       tp_top_level_index_size = 0, tp_index_key_is_user_key = 0, tp_index_value_is_delta_encoded = 0,
       tp_udi_is_primary_index = 0, tp_filter_size = 0, tp_raw_key_size = 0, tp_raw_value_size = 0, tp_num_data_blocks = 0,
       tp_num_data_blocks_compression_rejected = 0, tp_num_data_blocks_compression_bypassed = 0, tp_num_uniform_blocks = 0,
       tp_num_entries = 0, tp_num_filter_entries = 0, tp_num_deletions = 0, tp_num_merge_operands = 0,
       tp_num_range_deletions = 0, tp_format_version = 0, tp_fixed_key_len = 0, tp_column_family_id = 0x7fffffff,
       tp_creation_time = 0, tp_oldest_key_time = 0, tp_newest_key_time = 0, tp_file_creation_time = 0,
       tp_slow_compression_estimated_data_size = 0, tp_fast_compression_estimated_data_size = 0, tp_tail_start_offset = 0,
       tp_user_defined_timestamps_persisted = 1, tp_key_largest_seqno = 0xFFFFFFFFFFFFFFFF,
       tp_key_smallest_seqno = 0xFFFFFFFFFFFFFFFF, tp_data_block_restart_interval = 0, tp_index_block_restart_interval = 0,
       tp_separate_key_value_in_data_block = 0, tp_db_id = [], tp_db_session_id = [], tp_db_host_id = [],
       tp_column_family_name = [], tp_filter_policy_name = [], tp_comparator_name = [], tp_merge_operator_name = [],
       tp_prefix_extractor_name = [], tp_property_collectors_names = [], tp_compression_name = [], tp_compression_options = [],
       tp_seqno_to_time_mapping = [] \<rparr>"

definition str :: "string \<Rightarrow> bytes" where
  "str s = map of_char s"

definition kNoCompression :: byte where "kNoCompression = 0"
definition kBinarySearch :: u32 where "kBinarySearch = 0"
definition kZfBlockTrailerSize :: u64 where "kZfBlockTrailerSize = 5"

text \<open>The reason of a refusal.\<close>

definition ZfSealLockedConfigOk :: "TableBuilderOptions \<Rightarrow> BlockBasedTableOptions \<Rightarrow> string option" where
  "ZfSealLockedConfigOk tbo topt =
     (if to_format_version topt \<noteq> 2 then Some ''only format_version == 2 is supported (context checksum / compression-manager / footer layouts are versioned)''
      else if \<not> (to_checksum topt = kNoChecksum \<or> to_checksum topt = kCRC32c) then Some ''only kNoChecksum / kCRC32c checksum is supported''
      else if to_index_type topt \<noteq> kBinarySearch then Some ''only kBinarySearch index is supported''
      else if to_filter_policy topt \<noteq> None then Some ''filter_policy must be nullptr''
      else if to_partition_filters topt then Some ''partition_filters must be false (no filter block)''
      else if tb_compression_type tbo \<noteq> kNoCompression then Some ''compression_type must be kNoCompression''
      else if tb_compression_manager tbo then Some ''explicit compression manager not supported''
      else if tb_prefix_extractor tbo \<noteq> None then Some ''prefix_extractor must be nullptr''
      else if tb_merge_operator tbo \<noteq> None then Some ''merge_operator must be nullptr''
      else if tb_collectors tbo \<noteq> [] then Some ''table properties collector factories must be empty''
      else if \<not> (tb_internal_collectors tbo = None \<or> tb_internal_collectors tbo = Some []) then Some ''internal table properties collector factories must be empty''
      else None)"

definition ReifyDbHostIdProperty :: "bytes option \<Rightarrow> bytes \<Rightarrow> bytes" where
  "ReifyDbHostIdProperty hostname db_host_id =
     (if db_host_id = str ''__hostname__'' then (case hostname of None \<Rightarrow> [] | Some h \<Rightarrow> h) else db_host_id)"

fun join_names :: "bytes list \<Rightarrow> bytes" where
  "join_names [] = []"
| "join_names [n] = n"
| "join_names (n # ns) = n @ str '','' @ join_names ns"

text \<open>The compression is \<^const>\<open>kNoCompression\<close> after the first test.\<close>

definition ZfSealAssembleProperties :: "bytes option \<Rightarrow> TableBuilderOptions \<Rightarrow> BlockBasedTableOptions \<Rightarrow> ZfSealManifest \<Rightarrow> TableProperties zf_result" where
  "ZfSealAssembleProperties hostname tbo topt zf =
     (case ZfSealLockedConfigOk tbo topt of
        Some why \<Rightarrow> Inl (InvalidArgument (''ZfSeal unsupported config: '' @ why))
      | None \<Rightarrow> Inr (new_TableProperties \<lparr>
          tp_column_family_id := ucast (tb_column_family_id tbo), tp_column_family_name := tb_column_family_name tbo,
          tp_oldest_key_time := tb_oldest_key_time tbo, tp_newest_key_time := tb_newest_key_time tbo,
          tp_file_creation_time := tb_file_creation_time tbo, tp_orig_file_number := tb_cur_file_num tbo,
          tp_db_id := tb_db_id tbo, tp_db_session_id := tb_db_session_id tbo, tp_db_host_id := ReifyDbHostIdProperty hostname (tb_db_host_id tbo),
          tp_format_version := ucast (to_format_version topt), tp_data_block_restart_interval := to_block_restart_interval topt,
          tp_index_block_restart_interval := to_index_block_restart_interval topt,
          tp_separate_key_value_in_data_block := (if to_separate_key_value topt then 1 else 0),
          tp_key_largest_seqno := sm_key_largest_seqno zf, tp_key_smallest_seqno := sm_key_smallest_seqno zf,
          tp_raw_key_size := sm_raw_key_size zf, tp_raw_value_size := sm_raw_value_size zf,
          tp_num_entries := sm_num_entries zf, tp_num_deletions := sm_num_deletions zf, tp_num_merge_operands := sm_num_merge_operands zf,
          tp_num_filter_entries := sm_num_filter_entries zf, tp_num_data_blocks := sm_num_data_blocks zf,
          tp_num_range_deletions := sm_num_range_deletions zf, tp_num_uniform_blocks := sm_num_uniform_blocks zf,
          tp_num_data_blocks_compression_bypassed := sm_num_data_blocks zf, tp_filter_size := sm_filter_size zf,
          tp_data_size := sm_data_size zf, tp_index_size := sm_index_size zf, tp_tail_start_offset := sm_data_size zf,
          tp_filter_policy_name := (case to_filter_policy topt of None \<Rightarrow> [] | Some n \<Rightarrow> n),
          tp_comparator_name := (case tb_user_comparator tbo of None \<Rightarrow> str ''nullptr'' | Some n \<Rightarrow> n),
          tp_merge_operator_name := (case tb_merge_operator tbo of None \<Rightarrow> str ''nullptr'' | Some n \<Rightarrow> n),
          tp_prefix_extractor_name := (case tb_prefix_extractor tbo of None \<Rightarrow> str ''nullptr'' | Some n \<Rightarrow> n),
          tp_property_collectors_names := str ''['' @ join_names (tb_collectors tbo) @ str '']'',
          tp_index_key_is_user_key := 0, tp_index_value_is_delta_encoded := 0,
          tp_user_defined_timestamps_persisted := (if tb_persist_timestamps tbo then 1 else 0),
          tp_compression_name := str ''NoCompression'', tp_compression_options := tb_compression_opts tbo \<rparr>))"

definition ZfSealManifestFromTableProperties :: "TableProperties \<Rightarrow> ZfSealManifest" where
  "ZfSealManifestFromTableProperties props =
     \<lparr> sm_data_size = tp_data_size props, sm_index_size = tp_index_size props, sm_num_entries = tp_num_entries props,
       sm_num_deletions = tp_num_deletions props, sm_num_merge_operands = tp_num_merge_operands props,
       sm_num_filter_entries = tp_num_filter_entries props, sm_num_data_blocks = tp_num_data_blocks props,
       sm_num_range_deletions = tp_num_range_deletions props, sm_num_uniform_blocks = tp_num_uniform_blocks props,
       sm_raw_key_size = tp_raw_key_size props, sm_raw_value_size = tp_raw_value_size props, sm_filter_size = tp_filter_size props,
       sm_key_largest_seqno = tp_key_largest_seqno props, sm_key_smallest_seqno = tp_key_smallest_seqno props \<rparr>"

section \<open>The properties block and the metaindex\<close>

text \<open>\<^verbatim>\<open>stl_wrappers::KVMap\<close>, ascending by key; an insertion keeps the entry that is there.\<close>

fun kv_insert :: "bytes \<Rightarrow> bytes \<Rightarrow> (bytes \<times> bytes) list \<Rightarrow> (bytes \<times> bytes) list" where
  "kv_insert k v [] = [(k, v)]"
| "kv_insert k v ((k', v') # m) =
     (if Slice_compare k k' < 0 then (k, v) # (k', v') # m
      else if Slice_compare k k' = 0 then (k', v') # m
      else (k', v') # kv_insert k v m)"

definition kv_insert_all :: "(bytes \<times> bytes) list \<Rightarrow> (bytes \<times> bytes) list \<Rightarrow> (bytes \<times> bytes) list" where
  "kv_insert_all kvs m = foldl (\<lambda>m kv. kv_insert (fst kv) (snd kv) m) m kvs"

definition num_prop :: "string \<Rightarrow> u64 \<Rightarrow> bytes \<times> bytes" where
  "num_prop name val = (str name, EncodeVarint64 val)"

definition str_prop :: "string \<Rightarrow> bytes \<Rightarrow> (bytes \<times> bytes) list" where
  "str_prop name val = (if val = [] then [] else [(str name, val)])"

text \<open>What \<^verbatim>\<open>AddTableProperty\<close> adds, in its order.\<close>

definition table_property_list :: "TableProperties \<Rightarrow> (bytes \<times> bytes) list" where
  "table_property_list p =
     [num_prop ''rocksdb.original.file.number'' (tp_orig_file_number p)] @
     [num_prop ''rocksdb.raw.key.size'' (tp_raw_key_size p)] @
     [num_prop ''rocksdb.raw.value.size'' (tp_raw_value_size p)] @
     [num_prop ''rocksdb.data.size'' (tp_data_size p)] @
     [num_prop ''rocksdb.index.size'' (tp_index_size p)] @
     (if tp_index_partitions p \<noteq> 0 then [num_prop ''rocksdb.index.partitions'' (tp_index_partitions p)] else []) @
     (if tp_index_partitions p \<noteq> 0 then [num_prop ''rocksdb.top-level.index.size'' (tp_top_level_index_size p)] else []) @
     [num_prop ''rocksdb.index.key.is.user.key'' (tp_index_key_is_user_key p)] @
     [num_prop ''rocksdb.index.value.is.delta.encoded'' (tp_index_value_is_delta_encoded p)] @
     (if tp_udi_is_primary_index p \<noteq> 0 then [num_prop ''rocksdb.udi.is.primary.index'' (tp_udi_is_primary_index p)] else []) @
     [num_prop ''rocksdb.num.entries'' (tp_num_entries p)] @
     [num_prop ''rocksdb.num.filter_entries'' (tp_num_filter_entries p)] @
     [num_prop ''rocksdb.deleted.keys'' (tp_num_deletions p)] @
     [num_prop ''rocksdb.merge.operands'' (tp_num_merge_operands p)] @
     [num_prop ''rocksdb.num.range-deletions'' (tp_num_range_deletions p)] @
     [num_prop ''rocksdb.num.data.blocks'' (tp_num_data_blocks p)] @
     (if tp_num_data_blocks_compression_rejected p \<noteq> 0 then [num_prop ''rocksdb.num.data.blocks.compression.rejected'' (tp_num_data_blocks_compression_rejected p)] else []) @
     (if tp_num_data_blocks_compression_bypassed p \<noteq> 0 then [num_prop ''rocksdb.num.data.blocks.compression.bypassed'' (tp_num_data_blocks_compression_bypassed p)] else []) @
     [num_prop ''rocksdb.num.uniform.blocks'' (tp_num_uniform_blocks p)] @
     [num_prop ''rocksdb.filter.size'' (tp_filter_size p)] @
     [num_prop ''rocksdb.format.version'' (tp_format_version p)] @
     [num_prop ''rocksdb.fixed.key.length'' (tp_fixed_key_len p)] @
     [num_prop ''rocksdb.column.family.id'' (tp_column_family_id p)] @
     [num_prop ''rocksdb.creation.time'' (tp_creation_time p)] @
     [num_prop ''rocksdb.oldest.key.time'' (tp_oldest_key_time p)] @
     [num_prop ''rocksdb.newest.key.time'' (tp_newest_key_time p)] @
     (if tp_file_creation_time p \<noteq> 0 then [num_prop ''rocksdb.file.creation.time'' (tp_file_creation_time p)] else []) @
     (if tp_slow_compression_estimated_data_size p \<noteq> 0 then [num_prop ''rocksdb.sample_for_compression.slow.data.size'' (tp_slow_compression_estimated_data_size p)] else []) @
     (if tp_fast_compression_estimated_data_size p \<noteq> 0 then [num_prop ''rocksdb.sample_for_compression.fast.data.size'' (tp_fast_compression_estimated_data_size p)] else []) @
     [num_prop ''rocksdb.tail.start.offset'' (tp_tail_start_offset p)] @
     (if tp_user_defined_timestamps_persisted p = 0 then [num_prop ''rocksdb.user.defined.timestamps.persisted'' (tp_user_defined_timestamps_persisted p)] else []) @
     str_prop ''rocksdb.creating.db.identity'' (tp_db_id p) @
     str_prop ''rocksdb.creating.session.identity'' (tp_db_session_id p) @
     str_prop ''rocksdb.creating.host.identity'' (tp_db_host_id p) @
     str_prop ''rocksdb.filter.policy'' (tp_filter_policy_name p) @
     str_prop ''rocksdb.comparator'' (tp_comparator_name p) @
     str_prop ''rocksdb.merge.operator'' (tp_merge_operator_name p) @
     str_prop ''rocksdb.prefix.extractor.name'' (tp_prefix_extractor_name p) @
     str_prop ''rocksdb.property.collectors'' (tp_property_collectors_names p) @
     str_prop ''rocksdb.column.family.name'' (tp_column_family_name p) @
     str_prop ''rocksdb.compression'' (tp_compression_name p) @
     str_prop ''rocksdb.compression_options'' (tp_compression_options p) @
     str_prop ''rocksdb.seqno.time.map'' (tp_seqno_to_time_mapping p) @
     (if tp_key_largest_seqno p \<noteq> 0xFFFFFFFFFFFFFFFF then [num_prop ''rocksdb.key.largest.seqno'' (tp_key_largest_seqno p)] else []) @
     (if tp_key_smallest_seqno p \<noteq> 0xFFFFFFFFFFFFFFFF then [num_prop ''rocksdb.key.smallest.seqno'' (tp_key_smallest_seqno p)] else []) @
     (if tp_data_block_restart_interval p \<noteq> 0 then [num_prop ''rocksdb.data.block.restart.interval'' (tp_data_block_restart_interval p)] else []) @
     (if tp_index_block_restart_interval p \<noteq> 0 then [num_prop ''rocksdb.index.block.restart.interval'' (tp_index_block_restart_interval p)] else []) @
     (if tp_separate_key_value_in_data_block p \<noteq> 0 then [num_prop ''rocksdb.separate.key.value.in.data.block'' (tp_separate_key_value_in_data_block p)] else [])"

definition builtin_properties :: "TableBuilderOptions \<Rightarrow> BlockBasedTableOptions \<Rightarrow> (bytes \<times> bytes) list" where
  "builtin_properties tbo topt =
     [(str ''rocksdb.block.based.table.index.type'', PutFixed32 (to_index_type topt)),
      (str ''rocksdb.block.based.table.whole.key.filtering'', if to_whole_key_filtering topt then str ''1'' else str ''0''),
      (str ''rocksdb.block.based.table.prefix.filtering'', if tb_prefix_extractor tbo \<noteq> None then str ''1'' else str ''0'')] @
     (if to_decouple_partitioned_filters topt then [(str ''rocksdb.block.based.table.decoupled.partitioned.filters'', str ''1'')] else [])"

definition seal_properties :: "TableBuilderOptions \<Rightarrow> BlockBasedTableOptions \<Rightarrow> TableProperties \<Rightarrow> (bytes \<times> bytes) list" where
  "seal_properties tbo topt props = kv_insert_all (builtin_properties tbo topt) (kv_insert_all (table_property_list props) [])"

definition cut32 :: "bytes \<Rightarrow> bytes" where
  "cut32 b = take (unat (of_nat (length b) :: u32)) b"

definition pbb_Finish :: "(bytes \<times> bytes) list \<Rightarrow> bytes" where
  "pbb_Finish m = bb_Finish (bb_AddAll (map (\<lambda>kv. (cut32 (fst kv), cut32 (snd kv))) m) (new_BlockBuilder (2 ^ 31 - 1)))"

definition mib_Finish :: "(bytes \<times> BlockHandle) list \<Rightarrow> bytes" where
  "mib_Finish handles = bb_Finish (bb_AddAll (kv_insert_all (map (\<lambda>(k, h). (k, bh_EncodeTo h)) handles) []) (new_BlockBuilder 1))"

section \<open>Sealing\<close>

definition ZfSealAppendBlock :: "(ChecksumType \<Rightarrow> bytes \<Rightarrow> byte \<Rightarrow> u32) \<Rightarrow> BlockBasedTableOptions \<Rightarrow> string \<Rightarrow> env \<Rightarrow> u64 \<Rightarrow> bytes \<Rightarrow>
    (u64 \<times> BlockHandle) zf_result \<times> env" where
  "ZfSealAppendBlock xx topt path e off contents =
     (let handle = \<lparr> bh_offset = off, bh_size = of_nat (length contents) \<rparr>
      in case file_Append e path contents of
           (Inl er, e) \<Rightarrow> (Inl er, e)
         | (Inr _, e) \<Rightarrow>
             let checksum = ComputeBuiltinChecksumWithLastByte xx (to_checksum topt) contents kNoCompression
             in case file_Append e path (kNoCompression # PutFixed32 checksum) of
                  (Inl er, e) \<Rightarrow> (Inl er, e)
                | (Inr _, e) \<Rightarrow> (Inr (off + of_nat (length contents) + kZfBlockTrailerSize, handle), e))"

definition ZfSealBuildTableProperties :: "bytes option \<Rightarrow> TableBuilderOptions option \<Rightarrow> BlockBasedTableOptions option \<Rightarrow> ZfSealManifest \<Rightarrow> TableProperties zf_result" where
  "ZfSealBuildTableProperties hostname tbo topt m =
     (case (tbo, topt) of
        (Some tbo, Some topt) \<Rightarrow> ZfSealAssembleProperties hostname tbo topt m
      | _ \<Rightarrow> Inl (InvalidArgument ''ZfSealOptions must be populated''))"

definition seal_tail :: "(ChecksumType \<Rightarrow> bytes \<Rightarrow> byte \<Rightarrow> u32) \<Rightarrow> TableBuilderOptions \<Rightarrow> BlockBasedTableOptions \<Rightarrow> ZfSealManifest \<Rightarrow>
    TableProperties \<Rightarrow> string \<Rightarrow> env \<Rightarrow> unit zf_result \<times> env" where
  "seal_tail xx tbo topt m props path e =
     (case ZfSealAppendBlock xx topt path e (sm_data_size m + sm_index_size m) (pbb_Finish (seal_properties tbo topt props)) of
        (Inl er, e) \<Rightarrow> (Inl er, e)
      | (Inr (off, props_handle), e) \<Rightarrow>
          (case ZfSealAppendBlock xx topt path e off (mib_Finish [(str ''rocksdb.properties'', props_handle)]) of
             (Inl er, e) \<Rightarrow> (Inl er, e)
           | (Inr (off, metaindex_handle), e) \<Rightarrow>
               let index_handle = \<lparr> bh_offset = sm_data_size m, bh_size = sm_index_size m - kZfBlockTrailerSize \<rparr>
               in file_Append e path (FooterBuilder_Build kBlockBasedTableMagicNumber (to_format_version topt) (to_checksum topt) metaindex_handle index_handle)))"

definition ZfSeal :: "(ChecksumType \<Rightarrow> bytes \<Rightarrow> byte \<Rightarrow> u32) \<Rightarrow> unit zf_result \<Rightarrow> bytes option \<Rightarrow> TableBuilderOptions option \<Rightarrow>
    BlockBasedTableOptions option \<Rightarrow> ZfSealManifest \<Rightarrow> string option \<Rightarrow> env \<Rightarrow> unit zf_result \<times> env" where
  "ZfSeal xx prepare hostname tbo topt m writer e =
     (case (tbo, topt, writer) of
        (Some tbo, Some topt, Some path) \<Rightarrow>
          if sm_index_size m < kZfBlockTrailerSize then (Inl (InvalidArgument ''ZfSeal: manifest.index_size too small for a block trailer''), e)
          else (case ZfSealAssembleProperties hostname tbo topt m of
                  Inl er \<Rightarrow> (Inl er, e)
                | Inr props \<Rightarrow>
                    (case prepare of
                       Inl er \<Rightarrow> (Inl er, e)
                     | Inr _ \<Rightarrow> seal_tail xx tbo topt m props path e))
      | _ \<Rightarrow> (Inl (InvalidArgument ''ZfSeal: options/writer must be populated''), e))"

section \<open>What sealing writes\<close>

definition block_trailer :: "(ChecksumType \<Rightarrow> bytes \<Rightarrow> byte \<Rightarrow> u32) \<Rightarrow> ChecksumType \<Rightarrow> bytes \<Rightarrow> bytes" where
  "block_trailer xx ct contents = kNoCompression # PutFixed32 (ComputeBuiltinChecksumWithLastByte xx ct contents kNoCompression)"

lemma length_block_trailer [simp]: "length (block_trailer xx ct c) = 5"
  by (simp add: block_trailer_def)

text \<open>Appends to a file neither fail at once nor are cut short.\<close>

definition append_ok :: "env \<Rightarrow> string \<Rightarrow> bool" where
  "append_ok e path \<longleftrightarrow> \<not> e_fail e (EnvAppend path) \<and> (\<forall>n. \<not> e_fail e (EnvShort path n))"

lemma append_ok_short [simp]: "append_ok e path \<Longrightarrow> short_write e path data = None"
  by (simp add: append_ok_def short_write_def find_None_iff)

lemma file_Append_ok:
  assumes "e_content e path = Some c" "append_ok e path"
  obtains e' where "file_Append e path d = (Inr (), e')" "e_content e' path = Some (c @ d)" "e_fail e' = e_fail e"
  using assms append_ok_short [OF assms(2)]
  by (simp add: append_ok_def file_Append_def e_put_def e_content_def update_conv' that)

lemma ZfSealAppendBlock_ok:
  assumes "e_content e path = Some c" "append_ok e path"
  obtains e' where "ZfSealAppendBlock xx topt path e off contents =
      (Inr (off + of_nat (length contents) + 5, \<lparr> bh_offset = off, bh_size = of_nat (length contents) \<rparr>), e')"
    "e_content e' path = Some (c @ contents @ block_trailer xx (to_checksum topt) contents)" "e_fail e' = e_fail e"
proof -
  obtain e1 where e1: "file_Append e path contents = (Inr (), e1)" "e_content e1 path = Some (c @ contents)" "e_fail e1 = e_fail e"
    using assms by (rule file_Append_ok)
  have "append_ok e1 path" using e1(3) assms(2) by (simp add: append_ok_def)
  with e1(2) obtain e2 where e2: "file_Append e1 path (block_trailer xx (to_checksum topt) contents) = (Inr (), e2)"
    "e_content e2 path = Some ((c @ contents) @ block_trailer xx (to_checksum topt) contents)" "e_fail e2 = e_fail e1"
    by (rule file_Append_ok)
  show ?thesis
    by (rule that [of e2]) (use e1 e2 in \<open>simp_all add: ZfSealAppendBlock_def Let_def block_trailer_def kZfBlockTrailerSize_def\<close>)
qed

lemma seal_tail_ok:
  fixes tbo :: TableBuilderOptions and topt :: BlockBasedTableOptions and props :: TableProperties and off :: u64
  assumes "e_content e path = Some prefix" "append_ok e path" "sm_data_size m + sm_index_size m = off"
  defines "P \<equiv> pbb_Finish (seal_properties tbo topt props)"
  defines "ph \<equiv> \<lparr> bh_offset = off, bh_size = of_nat (length P) \<rparr>"
  defines "M \<equiv> mib_Finish [(str ''rocksdb.properties'', ph)]"
  defines "mh \<equiv> \<lparr> bh_offset = off + of_nat (length P) + 5, bh_size = of_nat (length M) \<rparr>"
  obtains e' where "seal_tail xx tbo topt m props path e = (Inr (), e')"
    "e_content e' path = Some (prefix @ P @ block_trailer xx (to_checksum topt) P @ M @ block_trailer xx (to_checksum topt) M @
       FooterBuilder_Build kBlockBasedTableMagicNumber (to_format_version topt) (to_checksum topt) mh
         \<lparr> bh_offset = sm_data_size m, bh_size = sm_index_size m - 5 \<rparr>)"
proof -
  obtain e1 where e1: "ZfSealAppendBlock xx topt path e off P = (Inr (off + of_nat (length P) + 5, ph), e1)"
    "e_content e1 path = Some (prefix @ P @ block_trailer xx (to_checksum topt) P)" "e_fail e1 = e_fail e"
    unfolding ph_def by (rule ZfSealAppendBlock_ok [OF assms(1,2)])
  have "append_ok e1 path" using e1(3) assms(2) by (simp add: append_ok_def)
  then obtain e2 where e2: "ZfSealAppendBlock xx topt path e1 (off + of_nat (length P) + 5) M =
      (Inr (off + of_nat (length P) + 5 + of_nat (length M) + 5, mh), e2)"
    "e_content e2 path = Some ((prefix @ P @ block_trailer xx (to_checksum topt) P) @ M @ block_trailer xx (to_checksum topt) M)" "e_fail e2 = e_fail e1"
    unfolding mh_def by (rule ZfSealAppendBlock_ok [OF e1(2)])
  let ?f = "FooterBuilder_Build kBlockBasedTableMagicNumber (to_format_version topt) (to_checksum topt) mh
         \<lparr> bh_offset = sm_data_size m, bh_size = sm_index_size m - 5 \<rparr>"
  have "append_ok e2 path" using e1(3) e2(3) assms(2) by (simp add: append_ok_def)
  with e2(2) obtain e3 where e3: "file_Append e2 path ?f = (Inr (), e3)"
    "e_content e3 path = Some (((prefix @ P @ block_trailer xx (to_checksum topt) P) @ M @ block_trailer xx (to_checksum topt) M) @ ?f)"
    by (rule file_Append_ok)
  have "seal_tail xx tbo topt m props path e = (Inr (), e3)"
    unfolding seal_tail_def assms(3) P_def [symmetric] e1(1) prod.case sum.case M_def [symmetric] e2(1) Let_def kZfBlockTrailerSize_def e3(1) ..
  then show ?thesis using e3(2) by (intro that) simp_all
qed

lemma length_mib_Finish: "length (mib_Finish [(str ''rocksdb.properties'', h)]) < 2 ^ 32"
proof -
  let ?e = "(str ''rocksdb.properties'', bh_EncodeTo h)"
  have sm: "small_entry ?e" using length_bh_EncodeTo [of h] by (simp add: small_entry_def str_def)
  have kv: "kv_insert_all [?e] [] = [?e]" by (simp add: kv_insert_all_def)
  have "bb_buffer (bb_AddAll [?e] (new_BlockBuilder 1)) = entry_layout 0 ?e"
    using bb_AddAll_buffer [of "[?e]" "new_BlockBuilder 1"] sm by (simp add: new_BlockBuilder_def)
  moreover have "length (entry_layout 0 ?e) \<le> 53"
    using length_EncodeVarint32(1) [of 0] length_EncodeVarint32(1) [of "of_nat (length (fst ?e))"] length_EncodeVarint32(1) [of "of_nat (length (snd ?e))"]
      length_bh_EncodeTo [of h] by (simp add: entry_layout_def str_def)
  moreover have "length (bb_restarts (bb_AddAll [?e] (new_BlockBuilder 1))) \<le> 2" using bb_AddAll_restarts [of "[?e]" "new_BlockBuilder 1"] by (simp add: new_BlockBuilder_def)
  ultimately show ?thesis using kv by (simp add: mib_Finish_def bb_Finish_def length_concat comp_def sum_list_triv)
qed

lemma read_mib_Finish: "read_block (mib_Finish [(str ''rocksdb.properties'', h)]) = Some [(str ''rocksdb.properties'', bh_EncodeTo h)]"
proof -
  let ?e = "(str ''rocksdb.properties'', bh_EncodeTo h)"
  have sm: "small_entry ?e" using length_bh_EncodeTo [of h] by (simp add: small_entry_def str_def)
  have kv: "kv_insert_all [?e] [] = [?e]" by (simp add: kv_insert_all_def)
  show ?thesis using read_block_built [of "[?e]" 1] sm length_mib_Finish [of h] kv by (simp add: mib_Finish_def)
qed

lemma length_cut32: "length (cut32 b) < 2 ^ 32"
proof -
  have "unat (of_nat (length b) :: u32) < 2 ^ 32" using unsigned_less [of "of_nat (length b) :: u32"] by simp
  then show ?thesis by (simp add: cut32_def)
qed

lemma read_pbb_Finish:
  assumes "length (pbb_Finish kvs) < 2 ^ 32"
  shows "read_block (pbb_Finish kvs) = Some (map (\<lambda>kv. (cut32 (fst kv), cut32 (snd kv))) kvs)"
  using assms length_cut32 unfolding pbb_Finish_def by (intro read_block_built) (auto simp: small_entry_def)

text \<open>The map of properties: the first insertion of a name decides.\<close>

abbreviation kv_sorted :: "(bytes \<times> bytes) list \<Rightarrow> bool" where
  "kv_sorted m \<equiv> sorted_wrt (\<lambda>a b. Slice_compare (fst a) (fst b) < 0) m"

lemma set_kv_insert: "fst ` set (kv_insert k v m) = insert k (fst ` set m)"
  by (induction k v m rule: kv_insert.induct) (auto simp: bytewise.cmp_eq_iff simp del: Slice_compare_simps)

lemma kv_insert_sorted: "kv_sorted m \<Longrightarrow> kv_sorted (kv_insert k v m)"
proof (induction k v m rule: kv_insert.induct)
  case (2 k v k' v' m)
  consider "Slice_compare k k' < 0" | "Slice_compare k k' = 0" | "0 < Slice_compare k k'" by linarith
  then show ?case
  proof cases
    case 1
    then show ?thesis using 2(2) bytewise.cmp_lt_trans [of k k'] by auto
  next
    case 3
    then have "Slice_compare k' k < 0" using bytewise.cmp_swap by blast
    moreover have "Slice_compare k' x < 0" if "x \<in> fst ` set m" for x using that 2(2) by auto
    ultimately have "\<forall>x \<in> fst ` set (kv_insert k v m). Slice_compare k' x < 0" unfolding set_kv_insert by auto
    then show ?thesis using 2(1) 2(2) 3 by auto
  qed (use 2(2) in simp)
qed simp

lemma map_of_kv_insert:
  "kv_sorted m \<Longrightarrow> map_of (kv_insert k v m) x = (if x = k \<and> map_of m k = None then Some v else map_of m x)"
proof (induction k v m rule: kv_insert.induct)
  case (2 k v k' v' m)
  consider "Slice_compare k k' < 0" | "k = k'" | "0 < Slice_compare k k'" using bytewise.cmp_eq_iff [of k k'] by linarith
  then show ?case
  proof cases
    case 1
    then have "k \<noteq> k'" using bytewise.cmp_refl [of k] by force
    moreover have "k \<notin> fst ` set m"
    proof
      assume "k \<in> fst ` set m"
      then have "Slice_compare k' k < 0" using 2(2) by auto
      then show False using 1 bytewise.cmp_swap [of k k'] by simp
    qed
    ultimately show ?thesis using 1 by (auto simp: map_of_eq_None_iff)
  next
    case 3
    then have "k \<noteq> k'" "\<not> Slice_compare k k' < 0" "Slice_compare k k' \<noteq> 0" using bytewise.cmp_refl [of k] by force+
    then show ?thesis using 2(1) 2(2) by auto
  qed simp
qed simp

lemma map_of_kv_insert_all:
  "kv_sorted m \<Longrightarrow> kv_sorted (kv_insert_all kvs m) \<and> map_of (kv_insert_all kvs m) = map_of kvs ++ map_of m"
proof (induction kvs arbitrary: m)
  case (Cons kv kvs)
  have m: "map_of (kv_insert (fst kv) (snd kv) m) = [fst kv \<mapsto> snd kv] ++ map_of m"
    using map_of_kv_insert [OF Cons.prems, of "fst kv" "snd kv"] by (intro ext) (auto simp: map_add_def split: option.splits)
  have "map_of kvs ++ ([fst kv \<mapsto> snd kv] ++ map_of m) = map_of (kv # kvs) ++ map_of m"
    by (intro ext) (auto simp: map_add_def split: option.splits)
  then show ?case using Cons.IH [OF kv_insert_sorted [OF Cons.prems, of "fst kv" "snd kv"]] m by (simp add: kv_insert_all_def fun_upd_def)
qed (simp add: kv_insert_all_def)

lemma unat_of_char: "unat (of_char c :: byte) = (of_char c :: nat)"
proof -
  have "(of_char c :: nat) mod 256 < 256" by (rule mod_less_divisor) simp
  then have "(of_char c :: nat) < 2 ^ 8" by simp
  then have "unat (of_nat (of_char c :: nat) :: byte) = of_char c" by (intro unat_of_nat_small) simp
  then show ?thesis by (simp only: of_nat_of_char)
qed

lemma str_inj: "str a = str b \<longleftrightarrow> a = b"
proof -
  have "inj (of_char :: char \<Rightarrow> byte)"
  proof (rule injI)
    fix x y assume "(of_char x :: byte) = of_char y"
    then have "unat (of_char x :: byte) = unat (of_char y :: byte)" by (rule arg_cong)
    then show "x = y" unfolding unat_of_char by (rule of_char_eqI)
  qed
  then show ?thesis unfolding str_def by (rule inj_map_eq_map)
qed

lemma seal_properties_values:
  "map_of (seal_properties tbo topt p) (str ''rocksdb.num.entries'') = Some (EncodeVarint64 (tp_num_entries p))"
  "map_of (seal_properties tbo topt p) (str ''rocksdb.data.size'') = Some (EncodeVarint64 (tp_data_size p))"
  "map_of (seal_properties tbo topt p) (str ''rocksdb.index.size'') = Some (EncodeVarint64 (tp_index_size p))"
  "map_of (seal_properties tbo topt p) (str ''rocksdb.deleted.keys'') = Some (EncodeVarint64 (tp_num_deletions p))"
proof -
  have "map_of (seal_properties tbo topt p) = map_of (builtin_properties tbo topt) ++ map_of (table_property_list p)"
    using map_of_kv_insert_all [of "[]" "table_property_list p"] map_of_kv_insert_all [of "kv_insert_all (table_property_list p) []" "builtin_properties tbo topt"]
    by (simp add: seal_properties_def)
  then have first: "map_of (seal_properties tbo topt p) k = Some v" if "map_of (table_property_list p) k = Some v" for k v
    using that by (simp add: map_add_def)
  show "map_of (seal_properties tbo topt p) (str ''rocksdb.num.entries'') = Some (EncodeVarint64 (tp_num_entries p))"
    by (rule first) (simp add: table_property_list_def num_prop_def str_inj)
  show "map_of (seal_properties tbo topt p) (str ''rocksdb.data.size'') = Some (EncodeVarint64 (tp_data_size p))"
    by (rule first) (simp add: table_property_list_def num_prop_def str_inj)
  show "map_of (seal_properties tbo topt p) (str ''rocksdb.index.size'') = Some (EncodeVarint64 (tp_index_size p))"
    by (rule first) (simp add: table_property_list_def num_prop_def str_inj)
  show "map_of (seal_properties tbo topt p) (str ''rocksdb.deleted.keys'') = Some (EncodeVarint64 (tp_num_deletions p))"
    by (rule first) (simp add: table_property_list_def num_prop_def str_inj)
qed

text \<open>The manifest is recovered from the assembled properties.\<close>

lemma manifest_of_assembled:
  assumes "ZfSealAssembleProperties hostname tbo topt m = Inr props"
  shows "ZfSealManifestFromTableProperties props = m" "to_format_version topt = 2"
proof -
  have "ZfSealLockedConfigOk tbo topt = None" using assms by (simp add: ZfSealAssembleProperties_def split: option.splits)
  then show "to_format_version topt = 2" by (simp add: ZfSealLockedConfigOk_def split: if_splits)
  show "ZfSealManifestFromTableProperties props = m"
    using assms by (auto simp: ZfSealAssembleProperties_def ZfSealManifestFromTableProperties_def split: option.splits)
qed

section \<open>The sealed file is readable\<close>

text \<open>A block with its trailer at a handle of the file.\<close>

definition block_at :: "(ChecksumType \<Rightarrow> bytes \<Rightarrow> byte \<Rightarrow> u32) \<Rightarrow> ChecksumType \<Rightarrow> bytes \<Rightarrow> BlockHandle \<Rightarrow> bytes option" where
  "block_at xx ct file h =
     (let off = unat (bh_offset h); sz = unat (bh_size h); c = slice off sz file
      in if off + sz + 5 \<le> length file \<and> slice (off + sz) 5 file = block_trailer xx ct c then Some c else None)"

lemma block_at_layout:
  assumes "file = pre @ c @ block_trailer xx ct c @ post" "length file < 2 ^ 64" "off = of_nat (length pre)"
  shows "block_at xx ct file \<lparr> bh_offset = off, bh_size = of_nat (length c) \<rparr> = Some c"
proof -
  have len: "length pre + length c + 5 \<le> length file" using assms(1) by simp
  have u: "unat (of_nat (length pre) :: u64) = length pre" "unat (of_nat (length c) :: u64) = length c"
    using len assms(2) by (simp_all add: u64_of_nat)
  have c: "slice (length pre) (length c) file = c" unfolding assms(1) by (rule slice_append_mid) simp_all
  have t: "slice (length pre + length c) 5 file = block_trailer xx ct c"
    using slice_append_mid [of "pre @ c" "length pre + length c" "block_trailer xx ct c" 5 post] unfolding assms(1) by simp
  show ?thesis unfolding block_at_def Let_def BlockHandle.simps assms(3) u c t using len by simp
qed

text \<open>C20: a sealed table is readable. When the options pass the gate, the file holds the data and index
  bytes that the manifest announces and its appends succeed, sealing succeeds and keeps these bytes.
  The engine's footer decoder accepts the file and finds the device's index block and a metaindex
  block; the metaindex block has a valid trailer and exactly one entry, the handle of the properties
  block; the properties block has a valid trailer and reads back as the sorted list of properties,
  in which the numbers of entries and deletions and the sizes are those of the manifest, and the
  manifest is recovered from the assembled properties.\<close>

theorem sealed_table_readable:
  assumes "ZfSealAssembleProperties hostname tbo topt m = Inr props" "5 \<le> sm_index_size m"
    "e_content e path = Some prefix" "append_ok e path"
    "of_nat (length prefix) = sm_data_size m + sm_index_size m" "length prefix < 2 ^ 63"
    "length (pbb_Finish (seal_properties tbo topt props)) < 2 ^ 32"
  shows "\<exists>e' file mh ph P M.
    ZfSeal xx (Inr ()) hostname (Some tbo) (Some topt) m (Some path) e = (Inr (), e') \<and> e_content e' path = Some file \<and>
    take (length prefix) file = prefix \<and>
    Footer_DecodeFrom newer file = Inr \<lparr> ft_version = 2, ft_checksum = to_checksum topt, ft_metaindex = mh,
      ft_index = \<lparr> bh_offset = sm_data_size m, bh_size = sm_index_size m - 5 \<rparr> \<rparr> \<and>
    block_at xx (to_checksum topt) file mh = Some M \<and> read_block M = Some [(str ''rocksdb.properties'', bh_EncodeTo ph)] \<and>
    block_at xx (to_checksum topt) file ph = Some P \<and>
    read_block P = Some (map (\<lambda>kv. (cut32 (fst kv), cut32 (snd kv))) (seal_properties tbo topt props)) \<and>
    map_of (seal_properties tbo topt props) (str ''rocksdb.num.entries'') = Some (EncodeVarint64 (sm_num_entries m)) \<and>
    map_of (seal_properties tbo topt props) (str ''rocksdb.deleted.keys'') = Some (EncodeVarint64 (sm_num_deletions m)) \<and>
    map_of (seal_properties tbo topt props) (str ''rocksdb.data.size'') = Some (EncodeVarint64 (sm_data_size m)) \<and>
    map_of (seal_properties tbo topt props) (str ''rocksdb.index.size'') = Some (EncodeVarint64 (sm_index_size m)) \<and>
    ZfSealManifestFromTableProperties props = m"
proof -
  define P where "P = pbb_Finish (seal_properties tbo topt props)"
  define off where "off = sm_data_size m + sm_index_size m"
  define ph where "ph = \<lparr> bh_offset = off, bh_size = of_nat (length P) \<rparr>"
  define M where "M = mib_Finish [(str ''rocksdb.properties'', ph)]"
  define mh where "mh = \<lparr> bh_offset = off + of_nat (length P) + 5, bh_size = of_nat (length M) \<rparr>"
  define ih where "ih = \<lparr> bh_offset = sm_data_size m, bh_size = sm_index_size m - 5 \<rparr>"
  define tr where "tr = block_trailer xx (to_checksum topt)"
  define f where "f = FooterBuilder_Build kBlockBasedTableMagicNumber (to_format_version topt) (to_checksum topt) mh ih"
  note man = manifest_of_assembled [OF assms(1)]
  obtain e' where e': "seal_tail xx tbo topt m props path e = (Inr (), e')" "e_content e' path = Some (prefix @ P @ tr P @ M @ tr M @ f)"
    unfolding f_def ih_def mh_def M_def ph_def P_def tr_def
    by (rule seal_tail_ok [OF assms(3,4) off_def [symmetric], where tbo = tbo and topt = topt and props = props and xx = xx])
  let ?file = "prefix @ P @ tr P @ M @ tr M @ f"
  have "\<not> sm_index_size m < kZfBlockTrailerSize" using assms(2) by (simp add: kZfBlockTrailerSize_def not_less)
  then have seal: "ZfSeal xx (Inr ()) hostname (Some tbo) (Some topt) m (Some path) e = (Inr (), e')" using assms(1) e'(1) by (simp add: ZfSeal_def)
  have lens: "length P < 2 ^ 32" "length M < 2 ^ 32" "length f = 53" "length (tr c) = 5" for c
    using assms(7) length_mib_Finish length_FooterBuilder_Build by (simp_all add: P_def M_def f_def tr_def)
  have small: "length ?file < 2 ^ 64" using assms(6) lens by simp
  have o: "off = of_nat (length prefix)" using assms(5) by (simp add: off_def)
  have bP: "block_at xx (to_checksum topt) ?file ph = Some P"
    unfolding ph_def by (rule block_at_layout [OF _ small o]) (simp add: tr_def)
  have bM: "block_at xx (to_checksum topt) ?file mh = Some M"
    unfolding mh_def by (rule block_at_layout [OF _ small, of "prefix @ P @ tr P" _ _ _ f]) (simp_all add: tr_def o)
  have ft: "Footer_DecodeFrom newer ?file = Inr \<lparr> ft_version = 2, ft_checksum = to_checksum topt, ft_metaindex = mh, ft_index = ih \<rparr>"
    using Footer_DecodeFrom_Build [of 2 newer "prefix @ P @ tr P @ M @ tr M" "to_checksum topt" mh ih] by (simp add: f_def man(2))
  have rM: "read_block M = Some [(str ''rocksdb.properties'', bh_EncodeTo ph)]" unfolding M_def by (rule read_mib_Finish)
  have rP: "read_block P = Some (map (\<lambda>kv. (cut32 (fst kv), cut32 (snd kv))) (seal_properties tbo topt props))"
    unfolding P_def by (rule read_pbb_Finish [OF assms(7)])
  have vals: "tp_num_entries props = sm_num_entries m" "tp_num_deletions props = sm_num_deletions m"
    "tp_data_size props = sm_data_size m" "tp_index_size props = sm_index_size m"
    using man(1) by (auto simp: ZfSealManifestFromTableProperties_def)
  have pre: "take (length prefix) ?file = prefix" by simp
  show ?thesis
    by (intro exI [of _ e'] exI [of _ ?file] exI [of _ mh] exI [of _ ph] exI [of _ P] exI [of _ M] conjI)
      (rule seal e'(2) pre ft [unfolded ih_def] bM rM bP rP seal_properties_values [of tbo topt props, unfolded vals] man(1))+
qed

lemma entries_layout_bound:
  "\<forall>e \<in> set es. length (fst e) \<le> 100 \<and> length (snd e) \<le> 100 \<Longrightarrow> length (entries_layout iv c prev es) \<le> 215 * length es"
proof (induction es arbitrary: c prev)
  case (Cons e es)
  let ?s = "if c \<ge> iv then 0 else difference_offset (fst e) prev" and ?c = "(if c \<ge> iv then 0 else c) + 1"
  have "length (entry_layout ?s e) \<le> 215"
    using Cons.prems length_EncodeVarint32(1) [of "of_nat ?s"] length_EncodeVarint32(1) [of "of_nat (length (fst e) - ?s)"]
      length_EncodeVarint32(1) [of "of_nat (length (snd e))"] unfolding entry_layout_def length_append length_drop list.set ball_simps by linarith
  moreover have "length (entries_layout iv ?c (fst e) es) \<le> 215 * length es" by (rule Cons.IH) (use Cons.prems in simp)
  ultimately show ?case unfolding entries_layout.simps length_append length_Cons mult_Suc_right by linarith
qed simp

lemma pbb_Finish_bound:
  assumes "\<forall>kv \<in> set m. length (fst kv) \<le> 100 \<and> length (snd kv) \<le> 100" "length m \<le> 100"
  shows "length (pbb_Finish m) < 2 ^ 32"
proof -
  define es where "es = map (\<lambda>kv. (cut32 (fst kv), cut32 (snd kv))) m"
  have es: "\<forall>e \<in> set es. length (fst e) \<le> 100 \<and> length (snd e) \<le> 100" "\<forall>e \<in> set es. small_entry e" "length es \<le> 100"
    using assms by (auto simp: es_def cut32_def small_entry_def)
  have "bb_buffer (bb_AddAll es (new_BlockBuilder (2 ^ 31 - 1))) = entries_layout (2 ^ 31 - 1) 0 [] es"
    using bb_AddAll_buffer [OF es(2), of "new_BlockBuilder (2 ^ 31 - 1)"] by (simp add: new_BlockBuilder_def)
  moreover have "length (entries_layout (2 ^ 31 - 1) 0 [] es) \<le> 215 * length es" by (rule entries_layout_bound [OF es(1)])
  moreover have "length (bb_restarts (bb_AddAll es (new_BlockBuilder (2 ^ 31 - 1)))) \<le> length es + 1"
    using bb_AddAll_restarts [of es "new_BlockBuilder (2 ^ 31 - 1)"] by (simp add: new_BlockBuilder_def)
  ultimately show ?thesis using es(3) unfolding pbb_Finish_def es_def [symmetric] bb_Finish_def
    by (simp add: length_concat comp_def sum_list_triv)
qed

lemma set_kv_insert_all: "set (kv_insert_all kvs m) \<subseteq> set kvs \<union> set m" "length (kv_insert_all kvs m) \<le> length kvs + length m"
proof -
  have one: "set (kv_insert k v m) \<subseteq> insert (k, v) (set m)" "length (kv_insert k v m) \<le> Suc (length m)" for k v m
    by (induction k v m rule: kv_insert.induct) auto
  show "set (kv_insert_all kvs m) \<subseteq> set kvs \<union> set m"
  proof (induction kvs arbitrary: m)
    case (Cons kv kvs)
    show ?case using Cons [of "kv_insert (fst kv) (snd kv) m"] one(1) [of "fst kv" "snd kv" m] by (auto simp: kv_insert_all_def)
  qed (simp add: kv_insert_all_def)
  show "length (kv_insert_all kvs m) \<le> length kvs + length m"
  proof (induction kvs arbitrary: m)
    case (Cons kv kvs)
    show ?case using Cons [of "kv_insert (fst kv) (snd kv) m"] one(2) [of "fst kv" "snd kv" m] by (simp add: kv_insert_all_def)
  qed (simp add: kv_insert_all_def)
qed

definition sample_tbo :: TableBuilderOptions where
  "sample_tbo = \<lparr> tb_compression_type = 0, tb_compression_manager = False, tb_prefix_extractor = None, tb_merge_operator = None, tb_collectors = [],
     tb_internal_collectors = None, tb_user_comparator = Some [1], tb_persist_timestamps = True, tb_column_family_id = 0, tb_column_family_name = [2],
     tb_oldest_key_time = 3, tb_newest_key_time = 4, tb_file_creation_time = 5, tb_cur_file_num = 6, tb_db_id = [7], tb_db_session_id = [8],
     tb_db_host_id = [9], tb_compression_opts = [10] \<rparr>"

definition sample_topt :: BlockBasedTableOptions where
  "sample_topt = \<lparr> to_format_version = 2, to_checksum = kNoChecksum, to_index_type = 0, to_filter_policy = None, to_partition_filters = False,
     to_block_restart_interval = 16, to_index_block_restart_interval = 1, to_separate_key_value = False, to_whole_key_filtering = True,
     to_decouple_partitioned_filters = False \<rparr>"

definition sample_manifest :: ZfSealManifest where
  "sample_manifest = new_ZfSealManifest \<lparr> sm_data_size := 12, sm_index_size := 8, sm_num_entries := 3 \<rparr>"

definition sample_env :: env where
  "sample_env = \<lparr> e_files = [(''t.sst'', replicate 20 7)], e_synced = [], e_fail = (\<lambda>_. False) \<rparr>"

lemma length_str: "length (str s) = length s"
  by (simp add: str_def)

lemma sample_seal_small:
  assumes "ZfSealAssembleProperties None sample_tbo sample_topt sample_manifest = Inr props"
  shows "length (pbb_Finish (seal_properties sample_tbo sample_topt props)) < 2 ^ 32"
proof -
  have p: "length (tp_db_id props) \<le> 100" "length (tp_db_session_id props) \<le> 100" "length (tp_db_host_id props) \<le> 100" "length (tp_column_family_name props) \<le> 100"
    "length (tp_filter_policy_name props) \<le> 100" "length (tp_comparator_name props) \<le> 100" "length (tp_merge_operator_name props) \<le> 100"
    "length (tp_prefix_extractor_name props) \<le> 100" "length (tp_property_collectors_names props) \<le> 100" "length (tp_compression_name props) \<le> 100"
    "length (tp_compression_options props) \<le> 100" "length (tp_seqno_to_time_mapping props) \<le> 100"
    using assms by (auto simp: ZfSealAssembleProperties_def ZfSealLockedConfigOk_def sample_tbo_def sample_topt_def new_TableProperties_def kNoCompression_def
      kBinarySearch_def ReifyDbHostIdProperty_def str_def split: if_splits)
  have num: "length (EncodeVarint64 v) \<le> 100" for v using length_EncodeVarint64 [of v] by simp
  define ok where "ok kv \<longleftrightarrow> length (fst kv) \<le> 100 \<and> length (snd kv) \<le> 100" for kv :: "bytes \<times> bytes"
  have ok: "length n \<le> 100 \<Longrightarrow> ok (num_prop n v)" "ok kv \<Longrightarrow> list_all ok (if c then [kv] else [])"
    "length n \<le> 100 \<Longrightarrow> length b \<le> 100 \<Longrightarrow> list_all ok (str_prop n b)" for n v kv c b
    using num [of v] by (simp_all add: ok_def num_prop_def str_prop_def length_str)
  have "list_all ok (table_property_list props)"
    unfolding table_property_list_def list_all_append list.pred_inject by (intro conjI TrueI ok p) simp_all
  then have "\<forall>kv \<in> set (table_property_list props). length (fst kv) \<le> 100 \<and> length (snd kv) \<le> 100" by (simp add: list_all_iff ok_def)
  moreover have "\<forall>kv \<in> set (builtin_properties sample_tbo sample_topt). length (fst kv) \<le> 100 \<and> length (snd kv) \<le> 100"
    by (simp add: builtin_properties_def str_def)
  moreover have "set (seal_properties sample_tbo sample_topt props) \<subseteq> set (builtin_properties sample_tbo sample_topt) \<union> set (table_property_list props)"
    using set_kv_insert_all(1) [of "builtin_properties sample_tbo sample_topt" "kv_insert_all (table_property_list props) []"]
      set_kv_insert_all(1) [of "table_property_list props" "[]"] unfolding seal_properties_def by auto
  ultimately have small: "\<forall>kv \<in> set (seal_properties sample_tbo sample_topt props). length (fst kv) \<le> 100 \<and> length (snd kv) \<le> 100" by blast
  have one: "length (if c then [kv] else []) \<le> Suc 0" "length (str_prop n b) \<le> Suc 0" "length [kv] \<le> Suc 0"
    "length xs \<le> Suc 0 \<Longrightarrow> length ys \<le> k \<Longrightarrow> length (xs @ ys) \<le> Suc k" for c kv n b k and xs ys :: "(bytes \<times> bytes) list"
    by (simp_all add: str_prop_def)
  have "\<exists>k. length (table_property_list props) \<le> k \<and> k \<le> 90"
    unfolding table_property_list_def by (rule exI, rule conjI, (rule one)+) simp
  then have "length (table_property_list props) \<le> 90" by (elim exE conjE) (rule order_trans)
  moreover have "length (builtin_properties sample_tbo sample_topt) \<le> 4" by (simp add: builtin_properties_def)
  ultimately have "length (seal_properties sample_tbo sample_topt props) \<le> 100"
    using set_kv_insert_all(2) [of "builtin_properties sample_tbo sample_topt" "kv_insert_all (table_property_list props) []"]
      set_kv_insert_all(2) [of "table_property_list props" "[]"] by (simp add: seal_properties_def)
  with small show ?thesis by (rule pbb_Finish_bound)
qed

theorem sealed_table_readable_witness:
  "\<exists>e' file mh. ZfSeal (\<lambda>_ _ _. 0) (Inr ()) None (Some sample_tbo) (Some sample_topt) sample_manifest (Some ''t.sst'') sample_env = (Inr (), e') \<and>
    e_content e' ''t.sst'' = Some file \<and> take 20 file = replicate 20 7 \<and>
    Footer_DecodeFrom (\<lambda>_. Inl OutOfBounds) file = Inr \<lparr> ft_version = 2, ft_checksum = kNoChecksum, ft_metaindex = mh,
      ft_index = \<lparr> bh_offset = 12, bh_size = 3 \<rparr> \<rparr>"
proof -
  obtain props where props: "ZfSealAssembleProperties None sample_tbo sample_topt sample_manifest = Inr props"
    by (simp add: ZfSealAssembleProperties_def ZfSealLockedConfigOk_def sample_tbo_def sample_topt_def kNoCompression_def kBinarySearch_def)
  have m: "5 \<le> sm_index_size sample_manifest" "sm_data_size sample_manifest = 12" "sm_index_size sample_manifest = 8" by (simp_all add: sample_manifest_def)
  have e: "e_content sample_env ''t.sst'' = Some (replicate 20 7)" "append_ok sample_env ''t.sst''" by (simp_all add: sample_env_def e_content_def append_ok_def)
  have len: "of_nat (length (replicate 20 (7 :: byte))) = sm_data_size sample_manifest + sm_index_size sample_manifest" "length (replicate 20 (7 :: byte)) < 2 ^ 63"
    by (simp_all add: m)
  from sealed_table_readable [OF props m(1) e len sample_seal_small [OF props], of "\<lambda>_ _ _. 0" "\<lambda>_. Inl OutOfBounds"]
  show ?thesis unfolding m(2,3) length_replicate by (elim exE conjE) (intro exI conjI, assumption, assumption, assumption, simp add: sample_topt_def)
qed

end
