(* ===== verification/Spec2Isabelle.thy ===== *)
theory Spec2Isabelle
  imports ZfCrcEngine ZfContextProps ZfWalFaults ZfFlushJob ZfHostOracle ZfSeal
begin

text \<open>
  A verification development of ZeroFlush-RocksDB: a RocksDB whose write-ahead log is partitioned by
  key and is itself the sorted run source of a flush. Paths below are relative to
  \<^verbatim>\<open>source/rocksdb-zeroflush/\<close> unless they start with \<^verbatim>\<open>AcceleratorKernelSstV2/\<close>.

  \<^bold>\<open>The program.\<close> A write is routed by a partition table, appended to the log of its partition and entered
  into the in-memory index of that partition with a locator instead of the value. When the logs have
  grown, a batch of partitions is sealed: their log files become immutable generations that belong to
  an epoch, their indexes are frozen. A lookup walks active and frozen indexes and reads the value
  through the locator. A flush materialises epochs: for each partition the frozen indexes are merged
  and sliced into table files, which are placed in the LSM tree; then the generations are released and
  their files deleted. After a crash the indexes are rebuilt from the log files. A storage device can
  build the tables instead of the host; the host packs its inputs and seals the files it returns.

  \<^bold>\<open>Bytes, checksums, keys.\<close>
    \<^item> \<open>ZfPrelude\<close>: machine types, the status values as an error type, shared lemmas.
    \<^item> \<open>ZfCoding\<close> (\<^verbatim>\<open>util/coding*.h\<close>, \<^verbatim>\<open>util/coding.cc\<close>), \<open>ZfCrc32c\<close> (\<^verbatim>\<open>AcceleratorKernelSstV2/host/zf_crc32c.h\<close>),
      \<open>ZfCrcEngine\<close> (\<^verbatim>\<open>util/crc32c.cc\<close>): round trips of the encodings; the bitwise, the bytewise and the
      four-table CRC agree, and a changed byte changes the CRC.
    \<^item> \<open>ZfKeyFormat\<close> (\<^verbatim>\<open>include/rocksdb/slice.h\<close>, \<^verbatim>\<open>db/dbformat.h\<close>): orders of user keys and internal keys. The user
      comparator is the locale \<open>user_comparator\<close>; the bytewise and the internal comparator are its instances.
    \<^item> \<open>ZfWalFormat\<close> (\<^verbatim>\<open>zeroflush/wal_format.*\<close>): the frame of a log record and the ZFPROPS file: round trips,
      detection of a changed byte, two places where a 32-bit sum wraps.

  \<^bold>\<open>The log.\<close>
    \<^item> \<open>ZfEnv\<close>: the file store, with contents, durable lengths and a predicate of failing operations; an append may
      fail before it writes or after a part of its data; the names of log files.
    \<^item> \<open>ZfWalScanner\<close>, \<open>ZfWalManager\<close> (\<^verbatim>\<open>zeroflush/wal_manager.*\<close>): the scanner with its chunked buffer, and
      \<^verbatim>\<open>PartitionedWalManager\<close> with every operation. The state is the record \<open>PartitionedWalManager\<close> over records \<open>Partition\<close>.
    \<^item> \<open>ZfWalLog\<close>: the locale \<open>record_store\<close> (what was appended is read back at its reference) and the manager as
      its instance; sealing keeps the log; what was synced survives a crash.
    \<^item> \<open>ZfWalFaults\<close>: sizes and counters while failures come and go; what a retry after a partial write leaves.

  \<^bold>\<open>Partitions and indexes.\<close>
    \<^item> \<open>ZfPartitionTable\<close> (\<^verbatim>\<open>zeroflush/partition_table.*\<close>, \<^verbatim>\<open>util/hash.cc\<close>): routing by hash and by ranges, table
      versions, the key sampler and the boundaries learned from it.
    \<^item> \<open>ZfSkipList\<close> (\<^verbatim>\<open>memtable/inlineskiplist.h\<close>): nodes and links as a heap; it implements a sorted set.
    \<^item> \<open>ZfPartitionIndex\<close>, \<open>ZfIndexHistory\<close> (\<^verbatim>\<open>zeroflush/partition_index.h\<close>): Bloom filter, index of a generation, set
      of indexes; a lookup answers as the history of insertions would; what the cover test for range deletions decides.
    \<^item> \<open>ZfSealedCache\<close> (\<^verbatim>\<open>zeroflush/sealed_file_cache.*\<close>): epochs, reference counts, recovered and skipped
      generations, the deletion queue and the LRU of read handles, over \<open>cache_reach\<close>.

  \<^bold>\<open>The context\<close> (\<^verbatim>\<open>zeroflush/zeroflush_db.*\<close>).
    \<^item> \<open>ZfContext\<close>: the record \<open>ZeroFlushContext\<close> and its operations: the batch handler, \<open>AddRecord\<close>, sync, lookup, the two
      ways to seal, release, hand-over, persisted properties. \<open>ZfOpen\<close>: opening, \<open>Recover\<close>, \<open>DestroyDB\<close>.
    \<^item> \<open>ZfContextInv\<close>, \<open>ZfRecovery\<close>, \<open>ZfContextSteps\<close>: the abstract state is the history of written records with their
      values; \<open>ctx_inv\<close> relates it to log, indexes and cache, and every step of \<open>ctx_reach\<close> keeps it: writes of every type
      (range deletions included), syncs, batch seals, hand-overs, releases, purges, lookups, and the recovery of a directory
      with torn file ends.
    \<^item> \<open>ZfWriteSync\<close>: a write group, the bitmap of touched partitions and what of the group is durable.
    \<^item> \<open>ZfContextProps\<close>: the properties of lookup, write, sync and of the choice of a batch.

  \<^bold>\<open>Materialisation.\<close>
    \<^item> \<open>ZfAside\<close> (\<^verbatim>\<open>zeroflush/materialize_aside.h\<close>): the sorted input of a partition from the frozen indexes, equal to
      the sort of the scanned files; the memcmp-able sort keys.
    \<^item> \<open>ZfVersion\<close> (\<^verbatim>\<open>db/version_*\<close>, \<^verbatim>\<open>db/compaction/*\<close>): levels, overlap search, registered compactions, edits and their
      consistency check.
    \<^item> \<open>ZfMaterialize\<close>, \<open>ZfMaterializeProps\<close>, \<open>ZfInstall\<close> (\<^verbatim>\<open>zeroflush/materialize_job.*\<close>): planning, slicing, levels,
      bookkeeping; nothing sealed is forgotten, the tables hold all records, and the new version is consistent.
    \<^item> \<open>ZfTaskPool\<close>: the threads of \<^verbatim>\<open>RunMaterializeTaskPool\<close> as a step relation; outcome and termination in every interleaving.
    \<^item> \<open>ZfFlushJob\<close> (\<^verbatim>\<open>FlushJob::ZfMaterializeAllEpochs\<close> of \<^verbatim>\<open>db/flush_job.cc\<close>): success installs everything, failure is undone.

  \<^bold>\<open>The device.\<close>
    \<^item> \<open>ZfHostFormat\<close>, \<open>ZfSstDecode\<close>, \<open>ZfHostOracle\<close> (\<^verbatim>\<open>AcceleratorKernelSstV2/host/zf_format.h\<close>,
      \<^verbatim>\<open>zf_sst_decode.h\<close>): the staged input, the decoder of the tables, the expected output and the comparison.
    \<^item> \<open>ZfCsdBackend\<close> (\<^verbatim>\<open>zeroflush/csd_backend.*\<close>): the input packers, equal to the host format, and the factory registry.
    \<^item> \<open>ZfTableFormat\<close> (\<^verbatim>\<open>table/*\<close>), \<open>ZfSeal\<close> (\<^verbatim>\<open>zeroflush/zf_seal.*\<close>): footer, block builder and reader; a sealed
      file is readable.

  \<^bold>\<open>Conventions.\<close> An operation takes the state it changes and returns it; an error is a value of \<open>zf_result\<close> (\<open>Inl\<close>).
  Fixed-width integers are words where the code computes with them; file sizes and offsets are natural numbers.
  A call under a mutex is one step. The clock, random draws, the merge operator and what the host engine returns are
  arguments.

  \<^bold>\<open>Loops and fuel.\<close> The scan of a log file has the fuel \<open>length div 28 + 2\<close>; a record takes at least 28 bytes, and
  \<open>scan_terminates\<close> shows that this is enough for every file. The reader of a block has its length as fuel, since an
  entry takes a byte. The loops over links of the skip list are \<open>partial_function (option)\<close>; \<open>skiplist_sorted_set\<close>
  and the properties of the index and the context state the result \<open>Some\<close>, so the loops return.

  \<^bold>\<open>Limits of the statements.\<close> The properties of the context hold for one fixed hash or static table, without the
  value cache and without I/O failures; learned and aligned tables change the routing under records that are not yet
  materialised, and the code then misses them. The lookup is exact for range deletions as the code decides them, which is
  not what their user expects. Recovery is stated for directories without range deletions: the code replays them
  into the wrong partition. A flush is undone only without a proximal level. Records above 1 MiB may stop a scan.

  \<^bold>\<open>Not modelled.\<close> Memory order and the interleavings of writers and readers inside a partition (the code
  serialises them by mutexes); the slim memtable (a memtable representation that only forwards to the skip list);
  the merge of a partition with base-level files and the device session (they drive the compaction iterator and the device
  driver; both are arguments); the device kernel and its host program (device code, hardware queues); statistics and
  logging; and the rest of RocksDB.
\<close>

text \<open>C34: the engine's portable CRC-32C (four tables, eight and sixteen bytes at a time, aligned
  to 16-byte boundaries) computes, for every buffer address and every seed, the same value as the
  byte-at-a-time host routine and, from seed 0, the bitwise division by the Castagnoli polynomial.\<close>

theorem crc32c_engines_agree:
  "ExtendImpl pval crc buf = Extend crc buf \<and> ExtendImpl pval 0 buf = ValueBitwise buf"
  using Value_eq_ValueBitwise [of buf] by (simp add: ExtendImpl_Extend Value_def)

end
